(* ===== verification/Prelude.thy ===== *)
theory Prelude
  imports Main "HOL-Library.Word"
begin

text \<open>
  Shared vocabulary of the development: the exceptions the code throws, computations that may
  throw (\<open>result\<close>), computations that also change a state which survives a throw
  (\<open>act\<close>), fixed-width arithmetic on \<open>nat\<close> and \<open>int\<close>, and the generic list,
  word and arithmetic lemmas the component theories share.
\<close>

unbundle bit_operations_syntax

section \<open>Exceptions\<close>

text \<open>
  One constructor per exception class the modelled code throws (declared in
  \<^verbatim>\<open>libraries/chain/include/eosio/chain/exceptions.hpp\<close>, \<open>fc\<close> and the C++
  standard library).  \<open>undefined_behaviour\<close> marks an execution the C++ standard leaves
  undefined (a null or past-the-end dereference, a shift by the operand's width or more, a
  division by zero): a property that excludes it shows that the code never gets there.
  \<open>eosio_assert_message\<close> is a failed \<open>eosio_assert\<close> of contract code, with its message.
\<close>

datatype chain_error =
    undefined_behaviour
  | out_of_range
  | assert_exception
  | logic_error
  | parse_error
  | overflow_exception
  | underflow_exception
  | name_type_exception
  | symbol_type_exception
  | asset_type_exception
  | resource_limit_exception
  | rate_limiting_state_inconsistent
  | tx_cpu_usage_exceeded
  | tx_net_usage_exceeded
  | block_resource_exhausted
  | ram_usage_exceeded
  | transaction_exception
  | tx_no_auths
  | block_net_usage_exceeded
  | greylist_net_usage_exceeded
  | inline_action_too_big
  | block_cpu_usage_exceeded
  | greylist_cpu_usage_exceeded
  | deadline_exception
  | leeway_deadline_exception
  | expired_tx_exception
  | tx_exp_too_far_exception
  | invalid_ref_block_exception
  | tx_duplicate
  | unsupported_feature
  | unknown_transaction_exception
  | actor_whitelist_exception
  | actor_blacklist_exception
  | contract_whitelist_exception
  | contract_blacklist_exception
  | action_blacklist_exception
  | block_validate_exception
  | unlinkable_block_exception
  | wrong_producer
  | producer_schedule_exception
  | producer_double_confirm
  | producer_not_in_schedule
  | wrong_signing_key
  | fork_database_exception
  | fork_db_block_not_found
  | database_exception
  | authorization_exception
  | invalid_permission
  | permission_query_exception
  | irrelevant_auth_exception
  | action_validate_exception
  | unlinkable_min_permission_action
  | unsatisfied_authorization
  | tx_irrelevant_sig
  | tx_not_found
  | account_name_exists_exception
  | account_query_exception
  | set_exact_code
  | invalid_contract_vm_type
  | invalid_contract_vm_version
  | missing_auth_exception
  | key_blacklist_exception
  | cfa_inside_generated_tx
  | deferred_tx_duplicate
  | subjective_block_production_exception
  | table_not_in_cache
  | invalid_table_iterator
  | table_operation_not_permitted
  | invalid_table_payer
  | table_access_violation
  | eosio_assert_message string

section \<open>Computations that may throw\<close>

type_synonym 'a result = "chain_error + 'a"

named_theorems result_simps \<open>unfolding and inversion rules of the throwing computations\<close>

definition bind_r :: "'a result \<Rightarrow> ('a \<Rightarrow> 'b result) \<Rightarrow> 'b result" where
  "bind_r m f = (case m of Inl e \<Rightarrow> Inl e | Inr x \<Rightarrow> f x)"

text \<open>\<open>EOS_ASSERT(c, e, ...)\<close>: go on when the condition holds, throw otherwise.\<close>

definition eos_assert :: "bool \<Rightarrow> chain_error \<Rightarrow> unit result" where
  "eos_assert c e = (if c then Inr () else Inl e)"

definition option_to_result :: "chain_error \<Rightarrow> 'a option \<Rightarrow> 'a result" where
  "option_to_result e m = (case m of None \<Rightarrow> Inl e | Some x \<Rightarrow> Inr x)"

lemma bind_r_simps [simp]:
  "bind_r (Inl e) f = Inl e"
  "bind_r (Inr x) f = f x"
  by (simp_all add: bind_r_def)

lemma bind_r_eq_Inr [result_simps]: "bind_r m f = Inr y \<longleftrightarrow> (\<exists>x. m = Inr x \<and> f x = Inr y)"
  by (simp add: bind_r_def split: sum.splits)

lemma bind_r_eq_Inl [result_simps]:
  "bind_r m f = Inl e \<longleftrightarrow> m = Inl e \<or> (\<exists>x. m = Inr x \<and> f x = Inl e)"
  by (auto simp add: bind_r_def split: sum.splits)

lemma eos_assert_simps [simp]:
  "eos_assert True e = Inr ()"
  "eos_assert False e = Inl e"
  "eos_assert c e = Inr u \<longleftrightarrow> c"
  "eos_assert c e = Inl e' \<longleftrightarrow> \<not> c \<and> e = e'"
  by (auto simp: eos_assert_def)

lemma option_to_result_simps [simp]:
  "option_to_result e None = Inl e"
  "option_to_result e (Some x) = Inr x"
  "option_to_result e m = Inr x \<longleftrightarrow> m = Some x"
  "option_to_result e m = Inl e' \<longleftrightarrow> m = None \<and> e = e'"
  by (auto simp: option_to_result_def split: option.splits)

text \<open>A loop over a list that may throw; the first throw ends it.\<close>

fun fold_r :: "('b \<Rightarrow> 'a \<Rightarrow> 'a result) \<Rightarrow> 'b list \<Rightarrow> 'a \<Rightarrow> 'a result" where
  "fold_r f [] a = Inr a"
| "fold_r f (x # xs) a = bind_r (f x a) (fold_r f xs)"

lemma fold_r_append: "fold_r f (xs @ ys) a = bind_r (fold_r f xs a) (fold_r f ys)"
  by (induction xs arbitrary: a) (auto simp: bind_r_def split: sum.splits)

lemma fold_r_invariant:
  assumes "fold_r f xs a = Inr b" and "P a"
    and "\<And>x a a'. x \<in> set xs \<Longrightarrow> P a \<Longrightarrow> f x a = Inr a' \<Longrightarrow> P a'"
  shows "P b"
  using assms
proof (induction xs arbitrary: a)
  case Nil
  then show ?case by simp
next
  case (Cons x xs)
  from Cons.prems(1) obtain a' where step: "f x a = Inr a'" and rest: "fold_r f xs a' = Inr b"
    by (auto simp: result_simps)
  have "P a'" by (rule Cons.prems(3) [OF _ Cons.prems(2) step]) simp
  show ?case
  proof (rule Cons.IH [OF rest \<open>P a'\<close>])
    fix y c d
    assume "y \<in> set xs" and "P c" and "f y c = Inr d"
    then show "P d" by (intro Cons.prems(3) [of y c d]) simp_all
  qed
qed

lemma fold_r_total:
  assumes "P a"
    and "\<And>x a. x \<in> set xs \<Longrightarrow> P a \<Longrightarrow> \<exists>a'. f x a = Inr a' \<and> P a'"
  shows "\<exists>b. fold_r f xs a = Inr b \<and> P b"
  using assms
proof (induction xs arbitrary: a)
  case Nil
  then show ?case by simp
next
  case (Cons x xs)
  obtain a' where "f x a = Inr a'" and "P a'"
    using Cons.prems(2) [of x a] Cons.prems(1) by auto
  moreover obtain b where "fold_r f xs a' = Inr b" and "P b"
    using Cons.IH [of a'] Cons.prems(2) \<open>P a'\<close> by auto
  ultimately show ?case by auto
qed

section \<open>Computations with state\<close>

text \<open>
  A member function that mutates its object (or the database) and may throw: the state is
  returned in both cases, because what was written before a throw stays written in the C++.
\<close>

type_synonym ('s, 'a) act = "'s \<Rightarrow> 'a result \<times> 's"

definition ret :: "'a \<Rightarrow> ('s, 'a) act" where
  "ret x s = (Inr x, s)"

definition throw :: "chain_error \<Rightarrow> ('s, 'a) act" where
  "throw e s = (Inl e, s)"

definition bind_s :: "('s, 'a) act \<Rightarrow> ('a \<Rightarrow> ('s, 'b) act) \<Rightarrow> ('s, 'b) act" where
  "bind_s m f s = (case m s of (Inl e, s') \<Rightarrow> (Inl e, s') | (Inr x, s') \<Rightarrow> f x s')"

definition then_s :: "('s, 'a) act \<Rightarrow> ('s, 'b) act \<Rightarrow> ('s, 'b) act" where
  "then_s m k = bind_s m (\<lambda>_. k)"

text \<open>A const member function: it reads the state and may throw.\<close>

definition reads :: "('s \<Rightarrow> 'a result) \<Rightarrow> ('s, 'a) act" where
  "reads f s = (f s, s)"

definition updates :: "('s \<Rightarrow> 's) \<Rightarrow> ('s, unit) act" where
  "updates f s = (Inr (), f s)"

definition require :: "bool \<Rightarrow> chain_error \<Rightarrow> ('s, unit) act" where
  "require c e = (if c then ret () else throw e)"

definition when_s :: "bool \<Rightarrow> ('s, unit) act \<Rightarrow> ('s, unit) act" where
  "when_s c m = (if c then m else ret ())"

fun for_each :: "('b \<Rightarrow> ('s, unit) act) \<Rightarrow> 'b list \<Rightarrow> ('s, unit) act" where
  "for_each f [] = ret ()"
| "for_each f (x # xs) = then_s (f x) (for_each f xs)"

named_theorems act_simps \<open>unfolding and inversion rules of the stateful computations\<close>

lemma act_unfold [act_simps]:
  "ret x s = (Inr x, s)"
  "throw e s = (Inl e, s)"
  "reads f s = (f s, s)"
  "updates g s = (Inr (), g s)"
  "require c e s = (if c then Inr () else Inl e, s)"
  "when_s c m s = (if c then m s else (Inr (), s))"
  by (simp_all add: ret_def throw_def reads_def updates_def require_def when_s_def)

lemma bind_s_eq_Inr [act_simps]:
  "bind_s m f s = (Inr y, t) \<longleftrightarrow> (\<exists>x s'. m s = (Inr x, s') \<and> f x s' = (Inr y, t))"
  by (auto simp: bind_s_def split: prod.splits sum.splits)

lemma bind_s_eq_Inl [act_simps]:
  "bind_s m f s = (Inl e, t) \<longleftrightarrow>
     m s = (Inl e, t) \<or> (\<exists>x s'. m s = (Inr x, s') \<and> f x s' = (Inl e, t))"
  by (auto simp: bind_s_def split: prod.splits sum.splits)

lemma then_s_eq_Inr [act_simps]:
  "then_s m k s = (Inr y, t) \<longleftrightarrow> (\<exists>x s'. m s = (Inr x, s') \<and> k s' = (Inr y, t))"
  by (simp add: then_s_def bind_s_eq_Inr)

lemma then_s_eq_Inl [act_simps]:
  "then_s m k s = (Inl e, t) \<longleftrightarrow>
     m s = (Inl e, t) \<or> (\<exists>x s'. m s = (Inr x, s') \<and> k s' = (Inl e, t))"
  by (simp add: then_s_def bind_s_eq_Inl)

text \<open>Rules for evaluating a concrete run.\<close>

lemma bind_s_run: "m s = (Inr x, s') \<Longrightarrow> bind_s m f s = f x s'"
  by (simp add: bind_s_def)

lemma then_s_run: "m s = (Inr x, s') \<Longrightarrow> then_s m k s = k s'"
  by (simp add: then_s_def bind_s_def)

lemma for_each_invariant:
  assumes "for_each f xs s = (r, t)" and "P s"
    and "\<And>x s r s'. x \<in> set xs \<Longrightarrow> P s \<Longrightarrow> f x s = (r, s') \<Longrightarrow> P s'"
  shows "P t"
  using assms
proof (induction xs arbitrary: s)
  case Nil
  then show ?case by (simp add: act_simps)
next
  case (Cons x xs)
  obtain r1 s1 where step: "f x s = (r1, s1)" by (cases "f x s")
  have P1: "P s1" by (rule Cons.prems(3) [OF _ Cons.prems(2) step]) simp
  show ?case
  proof (cases r1)
    case (Inl e)
    then show ?thesis using Cons.prems(1) step P1 by (simp add: then_s_def bind_s_def)
  next
    case (Inr u)
    then have "for_each f xs s1 = (r, t)"
      using Cons.prems(1) step by (simp add: then_s_def bind_s_def)
    then show ?thesis
    proof (rule Cons.IH [OF _ P1])
      fix y c q d
      assume "y \<in> set xs" and "P c" and "f y c = (q, d)"
      then show "P d" by (intro Cons.prems(3) [of y c q d]) simp_all
    qed
  qed
qed

section \<open>Fixed-width integers\<close>

text \<open>
  Unsigned values are \<open>nat\<close> with the wrap-around written out where the code can wrap; signed
  64-bit values are \<open>int\<close>, reduced into \<open>[- 2^63, 2^63)\<close> by \<open>s64\<close>.
\<close>

definition u32 :: "nat \<Rightarrow> nat" where "u32 x = x mod 2 ^ 32"
definition u64 :: "nat \<Rightarrow> nat" where "u64 x = x mod 2 ^ 64"
definition u128 :: "nat \<Rightarrow> nat" where "u128 x = x mod 2 ^ 128"
definition s64 :: "int \<Rightarrow> int" where "s64 x = (x + 2 ^ 63) mod 2 ^ 64 - 2 ^ 63"

abbreviation (input) "uint64_max \<equiv> (2 ^ 64 - 1 :: nat)"

text \<open>The value of an unsigned 64-bit read of a signed or negative intermediate result.\<close>

definition int_to_u64 :: "int \<Rightarrow> nat" where "int_to_u64 x = nat (x mod 2 ^ 64)"

lemma u64_id [simp]: "x < 2 ^ 64 \<Longrightarrow> u64 x = x"
  by (simp add: u64_def)

lemma u64_less [simp]: "u64 x < 2 ^ 64"
  by (simp add: u64_def)

lemma u64_le: "u64 x \<le> x"
  by (simp add: u64_def)

lemma u128_id [simp]: "x < 2 ^ 128 \<Longrightarrow> u128 x = x"
  by (simp add: u128_def)

lemma u32_id [simp]: "x < 2 ^ 32 \<Longrightarrow> u32 x = x"
  by (simp add: u32_def)

lemma u32_le: "u32 x \<le> x"
  by (simp add: u32_def)

lemma s64_id: "- (2 ^ 63) \<le> x \<Longrightarrow> x < 2 ^ 63 \<Longrightarrow> s64 x = x"
  by (simp add: s64_def)

lemma s64_range: "- (2 ^ 63) \<le> s64 x \<and> s64 x < 2 ^ 63"
proof -
  have "0 \<le> (x + 2 ^ 63) mod 2 ^ 64" and "(x + 2 ^ 63) mod 2 ^ 64 < (2 ^ 64 :: int)"
    by simp_all
  then show ?thesis by (simp add: s64_def)
qed

lemma s64_idem [simp]: "s64 (s64 x) = s64 x"
  using s64_range [of x] by (simp add: s64_id)

section \<open>Maps and association lists\<close>

lemma map_of_eq_None_iff_fst: "map_of xs k = None \<longleftrightarrow> k \<notin> fst ` set xs"
  by (rule map_of_eq_None_iff)

lemma sum_fun_upd_remove:
  fixes f :: "'a \<Rightarrow> 'b::comm_monoid_add"
  assumes "finite A" and "x \<in> A"
  shows "sum f A = f x + sum f (A - {x})"
  using assms by (rule sum.remove)

lemma find_SomeD: "find P xs = Some x \<Longrightarrow> x \<in> set xs \<and> P x"
  by (auto simp: find_Some_iff)

lemma find_NoneD: "find P xs = None \<Longrightarrow> x \<in> set xs \<Longrightarrow> \<not> P x"
  by (auto simp: find_None_iff)

section \<open>Bits\<close>

lemma or_take_bit_push_bit:
  fixes v :: "'a::len word"
  shows "push_bit k (take_bit m (drop_bit k v)) OR take_bit k v = take_bit (k + m) v"
  by (rule bit_eqI) (auto simp: bit_simps)

end
