(* ===== verification/Tables.thy ===== *)
theory Tables
  imports Prelude
begin

text \<open>
  Tables with a unique key, the way the managers see a chainbase index through
  \<open>db.find\<close>, \<open>db.get\<close>, \<open>db.create\<close>, \<open>db.modify\<close> and \<open>db.remove\<close>
  (\<^verbatim>\<open>libraries/chainbase/include/chainbase/chainbase.hpp\<close>) or a contract sees a
  \<open>multi_index\<close>: the rows in insertion order.  The laws of lookup are stated as an interface
  that the row lists implement.
\<close>

definition tbl_find :: "('r \<Rightarrow> 'k) \<Rightarrow> 'k \<Rightarrow> 'r list \<Rightarrow> 'r option" where
  "tbl_find key k rows = find (\<lambda>r. key r = k) rows"

text \<open>\<open>get\<close> throws when there is no such row.\<close>

definition tbl_get :: "('r \<Rightarrow> 'k) \<Rightarrow> 'k \<Rightarrow> 'r list \<Rightarrow> 'r result" where
  "tbl_get key k rows = option_to_result out_of_range (tbl_find key k rows)"

text \<open>\<open>create\<close> throws on a key that is already there.\<close>

definition tbl_create :: "('r \<Rightarrow> 'k) \<Rightarrow> 'r \<Rightarrow> 'r list \<Rightarrow> 'r list result" where
  "tbl_create key r rows =
     (case tbl_find key (key r) rows of Some _ \<Rightarrow> Inl logic_error | None \<Rightarrow> Inr (rows @ [r]))"

definition tbl_modify :: "('r \<Rightarrow> 'k) \<Rightarrow> 'k \<Rightarrow> ('r \<Rightarrow> 'r) \<Rightarrow> 'r list \<Rightarrow> 'r list" where
  "tbl_modify key k f rows = map (\<lambda>r. if key r = k then f r else r) rows"

definition tbl_remove :: "('r \<Rightarrow> 'k) \<Rightarrow> 'k \<Rightarrow> 'r list \<Rightarrow> 'r list" where
  "tbl_remove key k rows = filter (\<lambda>r. key r \<noteq> k) rows"

definition tbl_unique :: "('r \<Rightarrow> 'k) \<Rightarrow> 'r list \<Rightarrow> bool" where
  "tbl_unique key rows \<longleftrightarrow> distinct (map key rows)"

section \<open>Laws\<close>

lemma tbl_find_Nil [simp]: "tbl_find key k [] = None"
  by (simp add: tbl_find_def)

lemma tbl_find_Cons: "tbl_find key k (r # rows) = (if key r = k then Some r else tbl_find key k rows)"
  by (simp add: tbl_find_def)

lemma tbl_find_Some: "tbl_find key k rows = Some r \<Longrightarrow> r \<in> set rows \<and> key r = k"
  by (auto simp: tbl_find_def dest: find_SomeD)

lemma tbl_find_None: "tbl_find key k rows = None \<longleftrightarrow> k \<notin> key ` set rows"
  by (auto simp: tbl_find_def find_None_iff)

lemma tbl_find_unique: "tbl_unique key rows \<Longrightarrow> r \<in> set rows \<Longrightarrow> tbl_find key (key r) rows = Some r"
  by (induction rows) (auto simp: tbl_find_Cons tbl_unique_def)

lemma tbl_find_append: "tbl_find key k (rows @ [r]) =
    (case tbl_find key k rows of Some x \<Rightarrow> Some x | None \<Rightarrow> if key r = k then Some r else None)"
  by (induction rows) (auto simp: tbl_find_Cons)

lemma tbl_find_modify:
  assumes "\<And>r. key (f r) = key r"
  shows "tbl_find key k' (tbl_modify key k f rows) =
    (if k' = k then map_option f (tbl_find key k rows) else tbl_find key k' rows)"
  by (induction rows) (auto simp: tbl_find_Cons tbl_modify_def assms)

lemma tbl_find_replace:
  assumes "key l = k"
  shows "tbl_find key k' (tbl_modify key k (\<lambda>_. l) rows) =
    (if k' = k then map_option (\<lambda>_. l) (tbl_find key k rows) else tbl_find key k' rows)"
  by (induction rows) (auto simp: tbl_find_Cons tbl_modify_def assms)

lemma tbl_unique_replace:
  assumes "key l = k"
  shows "tbl_unique key (tbl_modify key k (\<lambda>_. l) rows) \<longleftrightarrow> tbl_unique key rows"
proof -
  have "map key (tbl_modify key k (\<lambda>_. l) rows) = map key rows" using assms by (simp add: tbl_modify_def)
  then show ?thesis by (simp add: tbl_unique_def)
qed

lemma tbl_find_remove:
  "tbl_find key k' (tbl_remove key k rows) = (if k' = k then None else tbl_find key k' rows)"
  by (induction rows) (auto simp: tbl_find_Cons tbl_remove_def)

lemma tbl_create_eq_Inr:
  "tbl_create key r rows = Inr rows' \<longleftrightarrow> tbl_find key (key r) rows = None \<and> rows' = rows @ [r]"
  by (auto simp: tbl_create_def split: option.splits)

lemma tbl_get_eq_Inr [simp]: "tbl_get key k rows = Inr r \<longleftrightarrow> tbl_find key k rows = Some r"
  by (simp add: tbl_get_def)

lemma tbl_get_cases: "tbl_get key k rows = (case tbl_find key k rows of None \<Rightarrow> Inl out_of_range | Some r \<Rightarrow> Inr r)"
  by (simp add: tbl_get_def option_to_result_def)

lemma tbl_unique_create:
  "tbl_unique key rows \<Longrightarrow> tbl_find key (key r) rows = None \<Longrightarrow> tbl_unique key (rows @ [r])"
  by (auto simp: tbl_unique_def tbl_find_None)

lemma tbl_unique_modify:
  assumes "\<And>r. key (f r) = key r"
  shows "tbl_unique key (tbl_modify key k f rows) \<longleftrightarrow> tbl_unique key rows"
proof -
  have "map key (tbl_modify key k f rows) = map key rows" by (simp add: tbl_modify_def assms)
  then show ?thesis by (simp add: tbl_unique_def)
qed

lemma tbl_unique_remove: "tbl_unique key rows \<Longrightarrow> tbl_unique key (tbl_remove key k rows)"
  by (simp add: tbl_unique_def tbl_remove_def distinct_map_filter)

lemma tbl_modify_id: "k \<notin> key ` set rows \<Longrightarrow> tbl_modify key k f rows = rows"
  by (induction rows) (auto simp: tbl_modify_def)

lemma tbl_remove_id: "k \<notin> key ` set rows \<Longrightarrow> tbl_remove key k rows = rows"
  by (induction rows) (auto simp: tbl_remove_def)

section \<open>Sums over the rows\<close>

lemma sum_list_modify:
  fixes m :: "'r \<Rightarrow> 'a::comm_monoid_add"
  assumes "tbl_unique key rows" and "tbl_find key k rows = Some r"
  shows "(\<Sum>x\<leftarrow>tbl_modify key k f rows. m x) + m r = (\<Sum>x\<leftarrow>rows. m x) + m (f r)"
  using assms
proof (induction rows)
  case (Cons x rows)
  show ?case
  proof (cases "key x = k")
    case True
    then have "tbl_modify key k f rows = rows"
      using Cons.prems(1) by (intro tbl_modify_id) (auto simp: tbl_unique_def)
    then show ?thesis
      using True Cons.prems by (simp add: tbl_modify_def tbl_find_Cons ac_simps)
  next
    case False
    then have "(\<Sum>x\<leftarrow>tbl_modify key k f rows. m x) + m r = (\<Sum>x\<leftarrow>rows. m x) + m (f r)"
      using Cons by (simp add: tbl_find_Cons tbl_unique_def)
    then show ?thesis using False by (simp add: tbl_modify_def add.assoc)
  qed
qed simp

lemma sum_list_remove:
  fixes m :: "'r \<Rightarrow> 'a::comm_monoid_add"
  assumes "tbl_unique key rows" and "tbl_find key k rows = Some r"
  shows "(\<Sum>x\<leftarrow>tbl_remove key k rows. m x) + m r = (\<Sum>x\<leftarrow>rows. m x)"
  using assms
proof (induction rows)
  case (Cons x rows)
  show ?case
  proof (cases "key x = k")
    case True
    then have "tbl_remove key k rows = rows"
      using Cons.prems(1) by (intro tbl_remove_id) (auto simp: tbl_unique_def)
    then show ?thesis
      using True Cons.prems by (simp add: tbl_remove_def tbl_find_Cons ac_simps)
  next
    case False
    then have "(\<Sum>x\<leftarrow>tbl_remove key k rows. m x) + m r = (\<Sum>x\<leftarrow>rows. m x)"
      using Cons by (simp add: tbl_find_Cons tbl_unique_def)
    then show ?thesis using False by (simp add: tbl_remove_def add.assoc)
  qed
qed simp

lemma sum_list_member_le:
  fixes m :: "'r \<Rightarrow> nat"
  shows "r \<in> set rows \<Longrightarrow> m r \<le> (\<Sum>x\<leftarrow>rows. m x)"
  by (induction rows) auto

section \<open>The lookup interface\<close>

text \<open>
  What a client may rely on: a lookup after a creation, a change that keeps the key, and a removal.
\<close>

locale keyed_table =
  fixes lookup :: "'k \<Rightarrow> 't \<Rightarrow> 'r option"
    and insert_row :: "'r \<Rightarrow> 't \<Rightarrow> 't result"
    and change :: "'k \<Rightarrow> ('r \<Rightarrow> 'r) \<Rightarrow> 't \<Rightarrow> 't"
    and delete :: "'k \<Rightarrow> 't \<Rightarrow> 't"
    and key :: "'r \<Rightarrow> 'k"
  assumes insert_fresh: "lookup (key r) t = None \<Longrightarrow>
      \<exists>t'. insert_row r t = Inr t' \<and> lookup k t' = (if k = key r then Some r else lookup k t)"
    and insert_present: "lookup (key r) t = Some r' \<Longrightarrow> insert_row r t = Inl logic_error"
    and lookup_change: "(\<And>r. key (f r) = key r) \<Longrightarrow>
      lookup k' (change k f t) = (if k' = k then map_option f (lookup k t) else lookup k' t)"
    and lookup_delete: "lookup k' (delete k t) = (if k' = k then None else lookup k' t)"
begin

lemma insert_row_lookup:
  assumes "insert_row r t = Inr t'"
  shows "lookup k t' = (if k = key r then Some r else lookup k t)"
proof (cases "lookup (key r) t")
  case None
  then show ?thesis using insert_fresh [OF None, of k] assms by auto
next
  case (Some r')
  then show ?thesis using insert_present assms by simp
qed

lemma delete_insert_row:
  assumes "insert_row r (delete (key r) t) = Inr t'"
  shows "lookup k t' = (if k = key r then Some r else lookup k t)"
  using insert_row_lookup [OF assms] by (simp add: lookup_delete)

lemma insert_after_delete: "\<exists>t'. insert_row r (delete (key r) t) = Inr t'"
  using insert_fresh [of r "delete (key r) t"] by (auto simp: lookup_delete)

end

lemma tbl_keyed_table:
  "keyed_table (tbl_find key) (tbl_create key) (tbl_modify key) (tbl_remove key) key"
proof
  fix r t k
  assume "tbl_find key (key r) t = None"
  then show "\<exists>t'. tbl_create key r t = Inr t' \<and> tbl_find key k t' = (if k = key r then Some r else tbl_find key k t)"
    by (auto simp: tbl_create_def tbl_find_append split: option.splits)
qed (auto simp: tbl_create_def tbl_find_modify tbl_find_remove)

interpretation rows: keyed_table "tbl_find key" "tbl_create key" "tbl_modify key" "tbl_remove key" key
  for key :: "'r \<Rightarrow> 'k"
  by (rule tbl_keyed_table)

section \<open>Flat maps\<close>

text \<open>
  A \<open>flat_map\<close>: pairs sorted by key.  \<open>flat_set\<close> is \<open>m[k] = v\<close>; lookup is
  \<open>map_of\<close>.
\<close>

fun flat_set :: "'k::linorder \<Rightarrow> 'v \<Rightarrow> ('k \<times> 'v) list \<Rightarrow> ('k \<times> 'v) list" where
  "flat_set k v [] = [(k, v)]"
| "flat_set k v ((k', v') # m) =
     (if k < k' then (k, v) # (k', v') # m
      else if k = k' then (k, v) # m
      else (k', v') # flat_set k v m)"

definition flat_ok :: "('k::linorder \<times> 'v) list \<Rightarrow> bool" where
  "flat_ok m \<longleftrightarrow> sorted_wrt (<) (map fst m)"

lemma map_of_flat_set: "map_of (flat_set k v m) = (map_of m)(k \<mapsto> v)"
  by (induction k v m rule: flat_set.induct) (auto simp: fun_eq_iff)

lemma fst_flat_set: "fst ` set (flat_set k v m) = insert k (fst ` set m)"
  by (induction k v m rule: flat_set.induct) auto

lemma flat_ok_set: "flat_ok m \<Longrightarrow> flat_ok (flat_set k v m)"
proof (induction k v m rule: flat_set.induct)
  case (2 k v k' v' m)
  have "\<forall>x\<in>fst ` set m. k' < x" using 2(2) by (auto simp: flat_ok_def)
  then show ?case
    using 2 fst_flat_set [of k v m] by (auto simp: flat_ok_def)
qed (simp add: flat_ok_def)

lemma flat_ok_distinct: "flat_ok m \<Longrightarrow> distinct (map fst m)"
  by (simp add: flat_ok_def strict_sorted_iff)

lemma flat_ok_Nil [simp]: "flat_ok []"
  by (simp add: flat_ok_def)

lemma set_flat_set: "flat_ok m \<Longrightarrow> set (flat_set k v m) = insert (k, v) {(k', v') \<in> set m. k' \<noteq> k}"
proof (induction k v m rule: flat_set.induct)
  case (2 k v k' v' m)
  have "\<forall>x\<in>set m. k' < fst x" using 2(2) by (auto simp: flat_ok_def)
  then show ?case using 2 by (auto simp: flat_ok_def)
qed simp

lemma flat_set_nonempty [simp]: "flat_set k v m \<noteq> []"
  by (induction k v m rule: flat_set.induct) auto

end
