(* ===== verification/Names.thy ===== *)
theory Names
  imports Prelude
begin

text \<open>
  The 64-bit account, permission and action names
  (\<^verbatim>\<open>libraries/chain/include/eosio/chain/name.hpp\<close>, \<^verbatim>\<open>name.cpp\<close>): up to
  twelve 5-bit symbols and a thirteenth 4-bit one.  A name is modelled by its \<open>value\<close> word; a
  C string is its list of characters before the terminating NUL.
\<close>

type_synonym name = "64 word"

section \<open>Encoding\<close>

definition char_to_symbol :: "char \<Rightarrow> 64 word" where
  "char_to_symbol c =
     (let v = (of_char c :: nat) in
      if (of_char CHR ''a'' :: nat) \<le> v \<and> v \<le> of_char CHR ''z''
      then of_nat (v - of_char CHR ''a'') + 6
      else if (of_char CHR ''1'' :: nat) \<le> v \<and> v \<le> of_char CHR ''5''
      then of_nat (v - of_char CHR ''1'') + 1
      else 0)"

text \<open>Reading \<open>str[i]\<close>: the terminating NUL follows the last character.\<close>

definition str_at :: "string \<Rightarrow> nat \<Rightarrow> char" where
  "str_at str i = (if i < length str then str ! i else CHR 0x00)"

function name_loop :: "string \<Rightarrow> nat \<Rightarrow> 64 word \<Rightarrow> 64 word \<times> nat" where
  "name_loop str i name =
     (if str_at str i \<noteq> CHR 0x00 \<and> i < 12
      then name_loop str (Suc i)
             (name OR push_bit (64 - 5 * (i + 1)) (char_to_symbol (str_at str i) AND 0x1f))
      else (name, i))"
  by pat_completeness auto
termination
  by (relation "measure (\<lambda>(str, i, name). 12 - i)") auto

definition string_to_name :: "string \<Rightarrow> name" where
  "string_to_name str =
     (let (name, i) = name_loop str 0 0 in
      if i = 12 then name OR (char_to_symbol (str_at str 12) AND 0x0F) else name)"

section \<open>Decoding\<close>

definition charmap :: string where
  "charmap = ''.12345abcdefghijklmnopqrstuvwxyz''"

function to_string_loop :: "nat \<Rightarrow> 64 word \<Rightarrow> string \<Rightarrow> string" where
  "to_string_loop i tmp str =
     (if i \<le> 12
      then to_string_loop (Suc i) (drop_bit (if i = 0 then 4 else 5) tmp)
             (str[12 - i := charmap ! unat (tmp AND (if i = 0 then 0x0f else 0x1f))])
      else str)"
  by pat_completeness auto
termination
  by (relation "measure (\<lambda>(i, tmp, str). 13 - i)") auto

definition trim_right :: "char \<Rightarrow> string \<Rightarrow> string" where
  "trim_right c str = rev (dropWhile (\<lambda>d. d = c) (rev str))"

definition name_to_string :: "name \<Rightarrow> string" where
  "name_to_string value = trim_right CHR ''.'' (to_string_loop 0 value (replicate 13 CHR ''.''))"

text \<open>\<open>name::set\<close>: rejects strings that are too long or not in normal form.\<close>

definition name_set :: "string \<Rightarrow> name result" where
  "name_set str =
     (let len = min 14 (length str) in
      bind_r (eos_assert (len \<le> 13) name_type_exception) (\<lambda>_.
      let value = string_to_name str in
      bind_r (eos_assert (name_to_string value = str) name_type_exception) (\<lambda>_.
      Inr value)))"

definition name_empty :: "name \<Rightarrow> bool" where
  "name_empty n \<longleftrightarrow> 0 = n"

definition name_good :: "name \<Rightarrow> bool" where
  "name_good n \<longleftrightarrow> \<not> name_empty n"

declare name_loop.simps [simp del] to_string_loop.simps [simp del]

section \<open>The two loops in closed form\<close>

text \<open>The symbol at a position, 0 past the end, and the word a symbol table packs into.\<close>

definition symbol_at :: "string \<Rightarrow> nat \<Rightarrow> 64 word" where
  "symbol_at str i = (if i < length str then char_to_symbol (str ! i) else 0)"

definition pack_step :: "(nat \<Rightarrow> 64 word) \<Rightarrow> 64 word \<Rightarrow> nat \<Rightarrow> 64 word" where
  "pack_step f acc i = acc OR push_bit (59 - 5 * i) (take_bit 5 (f i))"

definition pack :: "(nat \<Rightarrow> 64 word) \<Rightarrow> 64 word" where
  "pack f = foldl (pack_step f) 0 [0..<12] OR take_bit 4 (f 12)"

lemma and_masks: "x AND 0x1f = take_bit 5 (x :: 64 word)" "x AND 0x0f = take_bit 4 (x :: 64 word)"
  by (simp_all add: take_bit_eq_mask mask_numeral)

lemma pack_cong: "(\<And>i. i < 13 \<Longrightarrow> take_bit 5 (f i) = take_bit 5 (g i)) \<Longrightarrow>
    take_bit 4 (f 12) = take_bit 4 (g 12) \<Longrightarrow> pack f = pack g"
  unfolding pack_def by (rule arg_cong2 [where f = "(OR)"], rule foldl_cong) (auto simp: pack_step_def)

lemma name_loop_pack:
  assumes "CHR 0x00 \<notin> set str" and "i \<le> min 12 (length str)"
  shows "name_loop str i acc =
    (foldl (pack_step (symbol_at str)) acc [i..<min 12 (length str)], min 12 (length str))"
  using assms(2)
proof (induction "min 12 (length str) - i" arbitrary: i acc)
  case 0
  then have "i = min 12 (length str)" by simp
  then show ?case by (subst name_loop.simps) (auto simp: str_at_def)
next
  case (Suc k)
  then have lt: "i < min 12 (length str)" by linarith
  moreover from this assms(1) have "str_at str i \<noteq> CHR 0x00"
    by (auto simp: str_at_def dest: nth_mem)
  ultimately show ?case
    using Suc.hyps(1) [of "Suc i"] Suc.hyps(2) Suc.prems
    by (subst name_loop.simps)
      (simp add: pack_step_def symbol_at_def str_at_def and_masks upt_conv_Cons)
qed

lemma foldl_pack_zero:
  "(\<And>i. i \<in> set is \<Longrightarrow> f i = 0) \<Longrightarrow> foldl (pack_step f) acc is = acc"
  by (induction "is" arbitrary: acc) (simp_all add: pack_step_def)

lemma string_to_name_pack:
  assumes "CHR 0x00 \<notin> set str"
  shows "string_to_name str = pack (symbol_at str)"
proof (cases "12 \<le> length str")
  case True
  then have "name_loop str 0 0 = (foldl (pack_step (symbol_at str)) 0 [0..<12], 12)"
    using name_loop_pack [OF assms, of 0 0] by simp
  moreover have "char_to_symbol (str_at str 12) = symbol_at str 12"
    by (simp add: str_at_def symbol_at_def char_to_symbol_def)
  ultimately show ?thesis by (simp add: string_to_name_def pack_def and_masks)
next
  case False
  then have "[0..<12] = [0..<length str] @ [length str..<12]"
    using upt_add_eq_append [of 0 "length str" "12 - length str"] by simp
  then have "foldl (pack_step (symbol_at str)) 0 [0..<12] =
      foldl (pack_step (symbol_at str)) 0 [0..<length str]"
    by (simp only: foldl_append) (rule foldl_pack_zero, simp add: symbol_at_def)
  then show ?thesis
    using name_loop_pack [OF assms, of 0 0] False
    by (simp add: string_to_name_def pack_def symbol_at_def)
qed

text \<open>The thirteen symbols of a value, and packing them back.\<close>

definition field :: "name \<Rightarrow> nat \<Rightarrow> 64 word" where
  "field v i = (if i < 12 then take_bit 5 (drop_bit (59 - 5 * i) v) else take_bit 4 v)"

lemma push_drop_extend:
  fixes v :: "'a::len word"
  shows "push_bit (m + k) (drop_bit (m + k) v) OR push_bit m (take_bit k (drop_bit m v)) =
    push_bit m (drop_bit m v)"
proof (rule bit_word_eqI)
  fix n
  assume "n < LENGTH('a)"
  show "bit (push_bit (m + k) (drop_bit (m + k) v) OR push_bit m (take_bit k (drop_bit m v))) n =
      bit (push_bit m (drop_bit m v)) n"
    by (cases "m + k \<le> n") (auto simp: bit_simps)
qed

lemma foldl_pack_field:
  "k \<le> 12 \<Longrightarrow> foldl (pack_step (field v)) 0 [0..<k] = push_bit (64 - 5 * k) (drop_bit (64 - 5 * k) v)"
proof (induction k)
  case 0
  then show ?case by (simp add: bit_eq_iff bit_simps)
next
  case (Suc k)
  have e: "64 - 5 * k = (59 - 5 * k) + 5" "64 - 5 * Suc k = 59 - 5 * k"
    using Suc.prems by simp_all
  have IH: "foldl (pack_step (field v)) 0 [0..<k] = push_bit (64 - 5 * k) (drop_bit (64 - 5 * k) v)"
    using Suc by simp
  have "foldl (pack_step (field v)) 0 [0..<Suc k] =
      push_bit (64 - 5 * k) (drop_bit (64 - 5 * k) v) OR
      push_bit (59 - 5 * k) (take_bit 5 (drop_bit (59 - 5 * k) v))"
    using Suc.prems by (simp add: IH pack_step_def [of _ _ k] field_def [of v k])
  then show ?case
    by (simp only: e push_drop_extend)
qed

lemma pack_field: "pack (field v) = v"
proof -
  have "pack (field v) = push_bit 4 (drop_bit 4 v) OR take_bit 4 v"
    by (simp add: pack_def foldl_pack_field) (simp add: field_def)
  also have "\<dots> = v"
    by (rule bit_word_eqI) (auto simp: bit_simps)
  finally show ?thesis .
qed

section \<open>Round trips\<close>

lemma charmap_symbols:
  "length charmap = 32"
  "k < 32 \<Longrightarrow> char_to_symbol (charmap ! k) = of_nat k"
proof -
  show "length charmap = 32" by (simp add: charmap_def)
  have "\<forall>k \<in> set [0..<32]. char_to_symbol (charmap ! k) = of_nat k"
    by code_simp
  then show "k < 32 \<Longrightarrow> char_to_symbol (charmap ! k) = of_nat k" by simp
qed

lemma to_string_loop_fields:
  "to_string_loop 0 v (replicate 13 CHR ''.'') = map (\<lambda>i. charmap ! unat (field v i)) [0..<13]"
proof -
  have "[0..<13] = [0, 1, 2, 3, 4, 5, 6, 7, 8, 9, 10, 11, 12]" by (simp add: upt_rec)
  moreover have "replicate 13 CHR ''.'' = ''.............''" by (simp add: numeral_eq_Suc)
  ultimately show ?thesis
    by (simp add: to_string_loop.simps field_def and_masks)
qed

lemma unat_field: "unat (field v i) < 32"
proof -
  have "unat (take_bit 5 w) < 32" for w :: name
    using take_bit_nat_less_exp [of 5 "unat w"] by (simp add: unsigned_take_bit_eq)
  moreover have "unat (take_bit 4 w) < 32" for w :: name
    using take_bit_nat_less_exp [of 4 "unat w"] by (simp add: unsigned_take_bit_eq)
  ultimately show ?thesis by (simp add: field_def)
qed

lemma unat_field_last: "unat (field v 12) < 16"
  using take_bit_nat_less_exp [of 4 "unat v"] by (simp add: unsigned_take_bit_eq field_def)

lemma trim_right_decomp: "\<exists>k. str = trim_right c str @ replicate k c"
proof -
  have "rev str = takeWhile (\<lambda>d. d = c) (rev str) @ dropWhile (\<lambda>d. d = c) (rev str)" by simp
  moreover have "takeWhile (\<lambda>d. d = c) (rev str) =
      replicate (length (takeWhile (\<lambda>d. d = c) (rev str))) c"
    by (rule replicate_eqI) (auto dest: set_takeWhileD)
  ultimately have "str = trim_right c str @ replicate (length (takeWhile (\<lambda>d. d = c) (rev str))) c"
    unfolding trim_right_def by (metis rev_append rev_rev_ident rev_replicate)
  then show ?thesis ..
qed

lemma trim_right_last: "trim_right c str \<noteq> [] \<Longrightarrow> last (trim_right c str) \<noteq> c"
  using hd_dropWhile [of "\<lambda>d. d = c" "rev str"] by (simp add: trim_right_def last_rev)

lemma trim_right_id: "str = [] \<or> last str \<noteq> c \<Longrightarrow> trim_right c (str @ replicate k c) = str"
proof -
  assume ne: "str = [] \<or> last str \<noteq> c"
  have "dropWhile (\<lambda>d. d = c) (replicate k c @ rev str) = dropWhile (\<lambda>d. d = c) (rev str)"
    by (simp add: dropWhile_append)
  also have "\<dots> = rev str"
    using ne by (cases str rule: rev_cases) auto
  finally show ?thesis by (simp add: trim_right_def)
qed

lemma symbol_at_dots:
  "symbol_at (str @ replicate k CHR ''.'') i = symbol_at str i"
  by (simp add: symbol_at_def nth_append char_to_symbol_def)

lemma symbol_at_trim: "symbol_at (trim_right CHR ''.'' str) i = symbol_at str i"
  using trim_right_decomp [of str "CHR ''.''"] symbol_at_dots by metis

lemma set_trim_right: "set (trim_right c str) \<subseteq> set str"
  by (auto simp: trim_right_def dest: set_dropWhileD)

lemma charmap_nth_in: "k < 32 \<Longrightarrow> charmap ! k \<in> set charmap"
  by (simp add: charmap_symbols)

lemma set_name_to_string: "set (name_to_string v) \<subseteq> set charmap"
  using set_trim_right unat_field charmap_nth_in
  by (fastforce simp: name_to_string_def to_string_loop_fields)

lemma charmap_no_nul: "CHR 0x00 \<notin> set charmap"
  by (simp add: charmap_def)

lemma symbol_at_to_string:
  assumes "i < 13"
  shows "symbol_at (to_string_loop 0 v (replicate 13 CHR ''.'')) i = field v i"
proof -
  have "symbol_at (to_string_loop 0 v (replicate 13 CHR ''.'')) i = of_nat (unat (field v i))"
    using assms unat_field [of v i]
    by (simp add: to_string_loop_fields symbol_at_def charmap_symbols)
  then show ?thesis by simp
qed

text \<open>
  Printing a name and parsing it back gives the same value, for every one of the \<open>2^64\<close>
  values: \<open>string_to_name\<close> undoes \<open>name::operator string\<close>, trimmed dots included.
\<close>

theorem string_to_name_to_string: "string_to_name (name_to_string v) = v"
proof -
  have "CHR 0x00 \<notin> set (name_to_string v)"
    using set_name_to_string charmap_no_nul by blast
  then have "string_to_name (name_to_string v) = pack (symbol_at (name_to_string v))"
    by (rule string_to_name_pack)
  also have "\<dots> = pack (field v)"
    by (rule pack_cong) (simp_all add: name_to_string_def symbol_at_trim symbol_at_to_string)
  finally show ?thesis by (simp add: pack_field)
qed

section \<open>The strings that name an account\<close>

text \<open>The strings in normal form: what \<open>name::set\<close> should accept.\<close>

definition normalized :: "string \<Rightarrow> bool" where
  "normalized str \<longleftrightarrow>
     length str \<le> 13 \<and> list_all (\<lambda>c. c \<in> set charmap) str \<and>
     (str = [] \<or> last str \<noteq> CHR ''.'') \<and>
     (length str = 13 \<longrightarrow> str ! 12 \<in> set (take 16 charmap))"

lemma take_drop_push:
  fixes x :: "64 word"
  assumes "i < 12" and "k < 12"
  shows "take_bit 5 (drop_bit (59 - 5 * i) (push_bit (59 - 5 * k) (take_bit 5 x))) =
    (if i = k then take_bit 5 x else 0)"
proof (rule bit_word_eqI)
  fix n
  assume "n < LENGTH(64)"
  consider "i = k" | "i < k" | "k < i" by linarith
  then show "bit (take_bit 5 (drop_bit (59 - 5 * i) (push_bit (59 - 5 * k) (take_bit 5 x)))) n =
      bit (if i = k then take_bit 5 x else 0) n"
    by cases (use assms in \<open>auto simp: bit_simps dest: bit_imp_le_length\<close>)
qed

lemma field_pack_step:
  assumes "i < 12"
  shows "k \<le> 12 \<Longrightarrow> take_bit 5 (drop_bit (59 - 5 * i) (foldl (pack_step f) 0 [0..<k])) =
    (if i < k then take_bit 5 (f i) else 0)"
proof (induction k)
  case 0
  then show ?case by simp
next
  case (Suc k)
  then show ?case
    using take_drop_push [OF assms, of k "f k"] by (auto simp: pack_step_def less_Suc_eq)
qed

lemma pack_high_low:
  "k \<le> 12 \<Longrightarrow> take_bit 4 (foldl (pack_step f) 0 [0..<k]) = 0"
proof (induction k)
  case (Suc k)
  have "take_bit 4 (push_bit (59 - 5 * k) (take_bit 5 (f k))) = 0"
    using Suc.prems by (intro bit_word_eqI) (auto simp: bit_simps)
  then show ?case using Suc by (simp add: pack_step_def)
qed simp

lemma field_pack:
  "i < 13 \<Longrightarrow> field (pack f) i = (if i < 12 then take_bit 5 (f i) else take_bit 4 (f 12))"
proof -
  assume i: "i < 13"
  show ?thesis
  proof (cases "i < 12")
    case True
    have "take_bit 5 (drop_bit (59 - 5 * i) (take_bit 4 (f 12))) = 0"
      using True by (intro bit_word_eqI) (auto simp: bit_simps)
    then show ?thesis using field_pack_step [OF True, of 12 f] True
      by (simp add: field_def pack_def)
  next
    case False
    then show ?thesis using i pack_high_low [of 12 f] by (simp add: field_def pack_def)
  qed
qed

lemma charmap_of_symbol:
  "c \<in> set charmap \<Longrightarrow> charmap ! unat (take_bit 5 (char_to_symbol c)) = c"
  "c \<in> set (take 16 charmap) \<Longrightarrow> charmap ! unat (take_bit 4 (char_to_symbol c)) = c"
proof -
  have "\<forall>c \<in> set charmap. charmap ! unat (take_bit 5 (char_to_symbol c)) = c"
    by code_simp
  then show "c \<in> set charmap \<Longrightarrow> charmap ! unat (take_bit 5 (char_to_symbol c)) = c" by blast
  have "\<forall>c \<in> set (take 16 charmap). charmap ! unat (take_bit 4 (char_to_symbol c)) = c"
    by code_simp
  then show "c \<in> set (take 16 charmap) \<Longrightarrow> charmap ! unat (take_bit 4 (char_to_symbol c)) = c"
    by blast
qed

lemma char_field_pack:
  assumes "normalized str" and "i < 13"
  shows "charmap ! unat (field (pack (symbol_at str)) i) =
    (str @ replicate (13 - length str) CHR ''.'') ! i"
proof (cases "i < length str")
  case True
  then have "str ! i \<in> set charmap"
    using assms(1) by (auto simp: normalized_def list_all_iff)
  moreover have "str ! 12 \<in> set (take 16 charmap)" if "i = 12"
    using assms(1) True that by (auto simp: normalized_def)
  ultimately show ?thesis
    using assms(2) True charmap_of_symbol [of "str ! i"]
    by (cases "i = 12") (auto simp: field_pack symbol_at_def nth_append)
next
  case False
  then have "i < 12 \<longrightarrow> take_bit 5 (symbol_at str i) = 0" and "i = 12 \<longrightarrow> take_bit 4 (symbol_at str i) = 0"
    by (simp_all add: symbol_at_def)
  moreover have "charmap ! 0 = CHR ''.''" by (simp add: charmap_def)
  ultimately show ?thesis
    using assms False by (cases "i = 12") (auto simp: field_pack nth_append)
qed

lemma to_string_string_to_name:
  assumes "normalized str"
  shows "name_to_string (string_to_name str) = str"
proof -
  have nul: "CHR 0x00 \<notin> set str"
    using assms charmap_no_nul by (auto simp: normalized_def list_all_iff)
  have len: "length str \<le> 13" using assms by (simp add: normalized_def)
  have "to_string_loop 0 (pack (symbol_at str)) (replicate 13 CHR ''.'') =
      str @ replicate (13 - length str) CHR ''.''"
    using len char_field_pack [OF assms]
    by (intro nth_equalityI) (simp_all add: to_string_loop_fields)
  then show ?thesis
    using assms by (simp add: name_to_string_def string_to_name_pack [OF nul] trim_right_id normalized_def)
qed

lemma normalized_to_string: "normalized (name_to_string v)"
proof -
  have all: "list_all (\<lambda>c. c \<in> set charmap) (name_to_string v)"
    using set_name_to_string by (auto simp: list_all_iff)
  obtain k where dec: "map (\<lambda>i. charmap ! unat (field v i)) [0..<13] =
      name_to_string v @ replicate k CHR ''.''"
    using trim_right_decomp [of _ "CHR ''.''"] by (metis name_to_string_def to_string_loop_fields)
  then have len: "length (name_to_string v) + k = 13"
    by (metis diff_zero length_append length_map length_replicate length_upt)
  have "name_to_string v ! 12 \<in> set (take 16 charmap)" if "length (name_to_string v) = 13"
  proof -
    have "map (\<lambda>i. charmap ! unat (field v i)) [0..<13] ! 12 = name_to_string v ! 12"
      using dec that by (simp add: nth_append)
    then have "name_to_string v ! 12 = take 16 charmap ! unat (field v 12)"
      using unat_field_last [of v] by simp
    also have "\<dots> \<in> set (take 16 charmap)"
      using unat_field_last [of v] by (intro nth_mem) (simp add: charmap_symbols)
    finally show ?thesis .
  qed
  moreover have "name_to_string v = [] \<or> last (name_to_string v) \<noteq> CHR ''.''"
    using trim_right_last by (auto simp: name_to_string_def)
  ultimately show ?thesis using all len by (simp add: normalized_def)
qed

text \<open>
  C39. \<open>name::set\<close> accepts exactly the strings in normal form (at most 13 characters of the
  alphabet, no trailing dot, a 13th character among the first sixteen), gives the value that
  prints as that string, and throws \<open>name_type_exception\<close> on every other string.
\<close>

theorem name_set_accepts:
  "name_set str =
     (if normalized str then Inr (string_to_name str) else Inl name_type_exception)"
proof (cases "normalized str")
  case True
  then show ?thesis
    by (simp add: name_set_def to_string_string_to_name normalized_def Let_def)
next
  case False
  then have "length str \<le> 13 \<Longrightarrow> name_to_string (string_to_name str) \<noteq> str"
    using normalized_to_string by metis
  then show ?thesis using False by (auto simp: name_set_def eos_assert_def Let_def)
qed

end
