(* ===== verification/SafeInt.thy ===== *)
theory SafeInt
  imports Prelude
begin

text \<open>
  The overflow-checked signed integers \<open>fc::safe<int64_t>\<close>
  (\<^verbatim>\<open>libraries/fc/include/fc/safe.hpp\<close>).  Values are \<open>int\<close> in the range of
  \<open>int64_t\<close>; C++ division truncates towards zero.
\<close>

definition cdiv :: "int \<Rightarrow> int \<Rightarrow> int" where
  "cdiv a b = sgn a * sgn b * (\<bar>a\<bar> div \<bar>b\<bar>)"

definition cmod :: "int \<Rightarrow> int \<Rightarrow> int" where
  "cmod a b = a - b * cdiv a b"

definition int64_max :: int where "int64_max = 2 ^ 63 - 1"
definition int64_min :: int where "int64_min = - (2 ^ 63)"

definition in_int64 :: "int \<Rightarrow> bool" where
  "in_int64 x \<longleftrightarrow> int64_min \<le> x \<and> x \<le> int64_max"

section \<open>The operators\<close>

definition safe_add :: "int \<Rightarrow> int \<Rightarrow> int result" where
  "safe_add a b =
     (if b > 0 \<and> a > int64_max - b then Inl overflow_exception
      else if b < 0 \<and> a < int64_min - b then Inl underflow_exception
      else Inr (a + b))"

definition safe_sub :: "int \<Rightarrow> int \<Rightarrow> int result" where
  "safe_sub a b =
     (if b > 0 \<and> a < int64_min + b then Inl underflow_exception
      else if b < 0 \<and> a > int64_max + b then Inl overflow_exception
      else Inr (a - b))"

definition safe_mul :: "int \<Rightarrow> int \<Rightarrow> int result" where
  "safe_mul a b =
     (if a > 0 then
        (if b > 0 then
           (if a > cdiv int64_max b then Inl overflow_exception else Inr (a * b))
         else
           (if b < cdiv int64_min a then Inl underflow_exception else Inr (a * b)))
      else
        (if b > 0 then
           (if a < cdiv int64_min b then Inl underflow_exception else Inr (a * b))
         else
           (if a \<noteq> 0 \<and> b < cdiv int64_max a then Inl overflow_exception else Inr (a * b))))"

definition safe_neg :: "int \<Rightarrow> int result" where
  "safe_neg a = (if a = int64_min then Inl overflow_exception else Inr (- a))"

section \<open>Exactness\<close>

lemma le_div_iff:
  assumes "0 < (b :: int)"
  shows "a \<le> m div b \<longleftrightarrow> a * b \<le> m"
proof
  assume "a \<le> m div b"
  then have "a * b \<le> (m div b) * b" using assms by (intro mult_right_mono) simp_all
  also have "\<dots> \<le> m" using assms by (simp add: minus_mod_eq_div_mult [symmetric])
  finally show "a * b \<le> m" .
next
  assume "a * b \<le> m"
  then have "(a * b) div b \<le> m div b" using assms by (intro zdiv_mono1) simp_all
  then show "a \<le> m div b" using assms by simp
qed

lemma cdiv_pos: "0 \<le> a \<Longrightarrow> 0 < b \<Longrightarrow> cdiv a b = a div b"
  by (cases "a = 0") (simp_all add: cdiv_def)

lemma cdiv_neg_pos: "a < 0 \<Longrightarrow> 0 < b \<Longrightarrow> cdiv a b = - ((- a) div b)"
  by (simp add: cdiv_def)

lemma cdiv_pos_neg: "0 < a \<Longrightarrow> b < 0 \<Longrightarrow> cdiv a b = - (a div (- b))"
  by (simp add: cdiv_def)

lemma not_le_neg_div:
  assumes "0 < (a :: int)"
  shows "b < - (m div a) \<longleftrightarrow> m < - (b * a)"
  using le_div_iff [OF assms, of "- b" m] by auto

lemma safe_add_exact:
  "safe_add a b = Inr c \<longleftrightarrow>
     c = a + b \<and> (b > 0 \<longrightarrow> a + b \<le> int64_max) \<and> (b < 0 \<longrightarrow> int64_min \<le> a + b)"
  by (auto simp: safe_add_def)

lemma int64_bounds: "int64_max = 9223372036854775807" "int64_min = - 9223372036854775808"
  by (simp_all add: int64_max_def int64_min_def)

lemma safe_mul_spec:
  "safe_mul a b =
     (if in_int64 (a * b) then Inr (a * b)
      else if a * b > 0 then Inl overflow_exception else Inl underflow_exception)"
proof -
  consider (pp) "0 < a" "0 < b" | (pn) "0 < a" "b \<le> 0" | (np) "a \<le> 0" "0 < b"
    | (nn) "a < 0" "b \<le> 0" | (z) "a = 0" "b \<le> 0"
    by linarith
  then show ?thesis
  proof cases
    case pp
    have "0 < a * b" using pp by simp
    then have lo: "int64_min \<le> a * b" by (simp add: int64_bounds)
    have "cdiv int64_max b = int64_max div b"
      using pp by (simp add: cdiv_pos int64_bounds)
    then have "a > cdiv int64_max b \<longleftrightarrow> \<not> a * b \<le> int64_max"
      using le_div_iff [of b a int64_max] pp by auto
    then show ?thesis using pp lo \<open>0 < a * b\<close> by (simp add: safe_mul_def in_int64_def)
  next
    case pn
    have neg: "a * b \<le> 0" using pn by (simp add: mult_le_0_iff)
    then have hi: "a * b \<le> int64_max" by (simp add: int64_bounds)
    have "cdiv int64_min a = - (2 ^ 63 div a)"
      using pn by (simp add: cdiv_neg_pos int64_min_def)
    then have "b < cdiv int64_min a \<longleftrightarrow> \<not> int64_min \<le> a * b"
      using not_le_neg_div [of a b "2 ^ 63"] pn by (auto simp: int64_min_def mult.commute)
    then show ?thesis using pn hi neg by (simp add: safe_mul_def in_int64_def)
  next
    case np
    have neg: "a * b \<le> 0" using np by (simp add: mult_le_0_iff)
    then have hi: "a * b \<le> int64_max" by (simp add: int64_bounds)
    have "cdiv int64_min b = - (2 ^ 63 div b)"
      using np by (simp add: cdiv_neg_pos int64_min_def)
    then have "a < cdiv int64_min b \<longleftrightarrow> \<not> int64_min \<le> a * b"
      using not_le_neg_div [of b a "2 ^ 63"] np by (auto simp: int64_min_def)
    then show ?thesis using np hi neg by (simp add: safe_mul_def in_int64_def)
  next
    case nn
    have pos: "0 \<le> a * b" using nn by (simp add: mult_nonpos_nonpos)
    then have lo: "int64_min \<le> a * b" by (simp add: int64_bounds)
    have "cdiv int64_max a = - (int64_max div (- a))"
      using nn by (simp add: cdiv_pos_neg int64_bounds)
    then have iff: "b < cdiv int64_max a \<longleftrightarrow> \<not> a * b \<le> int64_max"
      using not_le_neg_div [of "- a" b int64_max] nn by (auto simp: mult.commute)
    have "a * b > 0" if "\<not> a * b \<le> int64_max"
      using that by (simp add: int64_bounds)
    then show ?thesis using nn lo iff by (auto simp: safe_mul_def in_int64_def)
  next
    case z
    then show ?thesis by (simp add: safe_mul_def in_int64_def int64_bounds)
  qed
qed

text \<open>
  Checked multiplication on \<open>int64_t\<close> operands is exact: it returns the true product
  when that fits 64 bits and throws otherwise, in all four sign cases of the code.
\<close>

theorem safe_mul_exact:
  "safe_mul a b =
     (if in_int64 (a * b) then Inr (a * b)
      else if a * b > 0 then Inl overflow_exception else Inl underflow_exception)"
  by (rule safe_mul_spec)

end
