(* ===== verification/Symbols.thy ===== *)
theory Symbols
  imports Prelude
begin

text \<open>
  Token symbols (\<^verbatim>\<open>libraries/chain/include/eosio/chain/symbol.hpp\<close>): a 64-bit word whose
  low byte is the number of decimals and whose other bytes are the characters of the token name.
  String trimming and integer parsing come from Boost and are the parameters \<open>trim\<close> and
  \<open>to_int64\<close> of the definitions that call them.
\<close>

type_synonym symbol = "64 word"

section \<open>Decimal numbers\<close>

text \<open>\<open>std::to_string\<close> on an unsigned number, and the value of a string of digits.\<close>

definition digit_char :: "nat \<Rightarrow> char" where
  "digit_char d = char_of (48 + d)"

definition is_digit :: "char \<Rightarrow> bool" where
  "is_digit c \<longleftrightarrow> 48 \<le> (of_char c :: nat) \<and> (of_char c :: nat) \<le> 57"

fun show_nat :: "nat \<Rightarrow> string" where
  "show_nat n = (if n < 10 then [digit_char n] else show_nat (n div 10) @ [digit_char (n mod 10)])"

declare show_nat.simps [simp del]

definition show_int :: "int \<Rightarrow> string" where
  "show_int x = (if x < 0 then CHR ''-'' # show_nat (nat (- x)) else show_nat (nat x))"

definition digits_value :: "string \<Rightarrow> nat" where
  "digits_value ds = foldl (\<lambda>v c. 10 * v + (of_char c - 48)) 0 ds"

section \<open>The symbol class\<close>

definition upper_case :: "char \<Rightarrow> bool" where
  "upper_case c \<longleftrightarrow> (of_char CHR ''A'' :: nat) \<le> of_char c \<and> (of_char c :: nat) \<le> of_char CHR ''Z''"

text \<open>
  \<open>string_to_symbol\<close>: the loop index \<open>i\<close> runs over the characters; a shift by 64 bits or
  more, for an eighth character, is undefined in C++.
\<close>

fun symbol_loop :: "string \<Rightarrow> nat \<Rightarrow> 64 word \<Rightarrow> 64 word result" where
  "symbol_loop [] i res = Inr res"
| "symbol_loop (c # cs) i res =
     (if \<not> upper_case c then Inl symbol_type_exception
      else if 8 * (i + 1) \<ge> 64 then Inl undefined_behaviour
      else symbol_loop cs (i + 1) (res OR push_bit (8 * (i + 1)) (of_char c)))"

definition string_to_symbol :: "8 word \<Rightarrow> string \<Rightarrow> symbol result" where
  "string_to_symbol precision str =
     bind_r (symbol_loop str 0 0) (\<lambda>res. Inr (res OR ucast precision))"

definition decimals :: "symbol \<Rightarrow> nat" where
  "decimals s = unat (s AND 0xFF)"

definition max_precision :: nat where "max_precision = 18"

function name_chars :: "64 word \<Rightarrow> string" where
  "name_chars v = (if v > 0 then char_of (unat (v AND 0xFF)) # name_chars (drop_bit 8 v) else [])"
  by pat_completeness auto
termination
proof (relation "measure unat")
  fix v :: "64 word"
  assume "v > 0"
  then have "0 < unat v" by (simp add: unat_gt_0 word_gt_0)
  then have "unat v div 2 ^ 8 < unat v" by (intro div_less_dividend) simp_all
  then show "(drop_bit 8 v, v) \<in> measure unat"
    by (simp add: drop_bit_eq_div unat_div)
qed simp

declare name_chars.simps [simp del]

definition symbol_name :: "symbol \<Rightarrow> string" where
  "symbol_name s = name_chars (drop_bit 8 s)"

definition valid_name :: "string \<Rightarrow> bool" where
  "valid_name name \<longleftrightarrow> list_all upper_case name"

definition valid :: "symbol \<Rightarrow> bool" where
  "valid s \<longleftrightarrow> decimals s \<le> max_precision \<and> valid_name (symbol_name s)"

text \<open>The constructors: from a raw value, and from a precision and a name.\<close>

definition symbol_of_value :: "64 word \<Rightarrow> symbol result" where
  "symbol_of_value v = bind_r (eos_assert (valid v) symbol_type_exception) (\<lambda>_. Inr v)"

definition symbol_of_name :: "8 word \<Rightarrow> string \<Rightarrow> symbol result" where
  "symbol_of_name p s = bind_r (string_to_symbol p s) symbol_of_value"

fun precision_loop :: "nat \<Rightarrow> nat \<Rightarrow> nat" where
  "precision_loop p10 0 = p10"
| "precision_loop p10 (Suc p) = precision_loop (u64 (p10 * 10)) p"

definition precision :: "symbol \<Rightarrow> nat result" where
  "precision s =
     bind_r (eos_assert (decimals s \<le> max_precision) symbol_type_exception) (\<lambda>_.
     Inr (precision_loop 1 (decimals s)))"

definition to_symbol_code :: "symbol \<Rightarrow> 64 word" where
  "to_symbol_code s = drop_bit 8 s"

definition symbol_to_string :: "symbol \<Rightarrow> string" where
  "symbol_to_string s = show_nat (decimals s) @ '','' @ symbol_name s"

definition find_char :: "char \<Rightarrow> string \<Rightarrow> nat option" where
  "find_char c s = (if c \<in> set s then Some (length (takeWhile (\<lambda>d. d \<noteq> c) s)) else None)"

text \<open>A string passed as a C string ends at its first zero character.\<close>

definition c_str :: "string \<Rightarrow> string" where
  "c_str s = takeWhile (\<lambda>c. c \<noteq> CHR 0x00) s"

definition symbol_from_string ::
    "(string \<Rightarrow> string) \<Rightarrow> (string \<Rightarrow> int result) \<Rightarrow> string \<Rightarrow> symbol result" where
  "symbol_from_string trim to_int64 from =
     (let s = trim from in
      bind_r (eos_assert (s \<noteq> []) symbol_type_exception) (\<lambda>_.
      bind_r (option_to_result symbol_type_exception (find_char CHR '','' s)) (\<lambda>comma_pos.
      let prec_part = take comma_pos s in
      bind_r (to_int64 prec_part) (\<lambda>p64.
      let p = (word_of_int p64 :: 8 word); name_part = drop (comma_pos + 1) s in
      bind_r (eos_assert (unat p \<le> max_precision) symbol_type_exception) (\<lambda>_.
      bind_r (string_to_symbol p (c_str name_part)) symbol_of_value)))))"

definition reflector_verify :: "symbol \<Rightarrow> unit result" where
  "reflector_verify s =
     bind_r (eos_assert (decimals s \<le> max_precision) symbol_type_exception) (\<lambda>_.
     eos_assert (valid_name (symbol_name s)) symbol_type_exception)"

section \<open>Decimal printing and its inverse\<close>

lemma digit_char_value: "d < 10 \<Longrightarrow> of_char (digit_char d) = 48 + d"
  by (simp add: digit_char_def of_char_of)

lemma is_digit_char: "d < 10 \<Longrightarrow> is_digit (digit_char d)"
  by (simp add: is_digit_def digit_char_value)

lemma show_nat_nonempty: "show_nat n \<noteq> []"
  by (subst show_nat.simps) simp

lemma show_nat_digits: "list_all is_digit (show_nat n)"
proof (induction n rule: show_nat.induct)
  case (1 n)
  then show ?case by (subst show_nat.simps) (simp add: is_digit_char)
qed

lemma digits_value_snoc: "digits_value (ds @ [c]) = 10 * digits_value ds + (of_char c - 48)"
  by (simp add: digits_value_def)

lemma digits_value_show: "digits_value (show_nat n) = n"
proof (induction n rule: show_nat.induct)
  case (1 n)
  show ?case
  proof (cases "n < 10")
    case True
    then show ?thesis by (subst show_nat.simps) (simp add: digits_value_def digit_char_value)
  next
    case False
    then show ?thesis
      using 1 by (subst show_nat.simps) (simp add: digits_value_snoc digit_char_value)
  qed
qed

lemma digits_value_Cons:
  "digits_value (c # ds) = (of_char c - 48) * 10 ^ length ds + digits_value ds"
proof (induction ds rule: rev_induct)
  case Nil
  then show ?case by (simp add: digits_value_def)
next
  case (snoc x xs)
  have "digits_value (c # xs @ [x]) = 10 * digits_value (c # xs) + (of_char x - 48)"
    using digits_value_snoc [of "c # xs" x] by simp
  also have "\<dots> = (of_char c - 48) * 10 ^ length (xs @ [x]) + digits_value (xs @ [x])"
    by (simp add: snoc digits_value_snoc algebra_simps)
  finally show ?case by simp
qed

lemma digits_value_less:
  "list_all is_digit ds \<Longrightarrow> digits_value ds < 10 ^ length ds"
proof (induction ds)
  case Nil
  then show ?case by (simp add: digits_value_def)
next
  case (Cons c ds)
  then have "(of_char c :: nat) - 48 \<le> 9" and "digits_value ds < 10 ^ length ds"
    by (auto simp: is_digit_def)
  then have "(of_char c - 48) * 10 ^ length ds \<le> (9 * 10 ^ length ds :: nat)"
    by (intro mult_right_mono) simp_all
  then show ?case
    using \<open>digits_value ds < 10 ^ length ds\<close>
    unfolding digits_value_Cons list.size power_Suc add_Suc_right add_0_right by linarith
qed

lemma length_show_nat: "10 ^ d \<le> n \<Longrightarrow> n < 10 ^ Suc d \<Longrightarrow> length (show_nat n) = Suc d"
proof (induction n arbitrary: d rule: show_nat.induct)
  case (1 n)
  show ?case
  proof (cases "n < 10")
    case True
    have "d = 0"
    proof (rule ccontr)
      assume "d \<noteq> 0"
      then have "10 ^ 1 \<le> (10 ^ d :: nat)" by (intro power_increasing) simp_all
      then show False using 1(2) True by simp
    qed
    then show ?thesis using True by (subst show_nat.simps) simp
  next
    case False
    then obtain e where d: "d = Suc e" using 1(3) by (cases d) auto
    have "10 ^ e \<le> n div 10" and "n div 10 < 10 ^ Suc e"
      using 1(2,3) by (simp_all add: d less_eq_div_iff_mult_less_eq div_less_iff_less_mult mult.commute)
    then show ?thesis using 1(1) [OF False, of e] False d by (subst show_nat.simps) simp
  qed
qed

text \<open>Padding a fraction with zeros: print it above a power of ten and drop the leading 1.\<close>

lemma show_nat_padded:
  assumes "f < 10 ^ d"
  shows "length (tl (show_nat (10 ^ d + f))) = d \<and> digits_value (tl (show_nat (10 ^ d + f))) = f \<and>
    list_all is_digit (tl (show_nat (10 ^ d + f)))"
proof -
  let ?n = "10 ^ d + f"
  have len: "length (show_nat ?n) = Suc d"
    using assms by (intro length_show_nat) simp_all
  then obtain c ds where cs: "show_nat ?n = c # ds" by (cases "show_nat ?n") auto
  have dig: "is_digit c" "list_all is_digit ds"
    using show_nat_digits [of ?n] by (simp_all add: cs)
  have ld: "length ds = d" using len by (simp add: cs)
  have eq: "(of_char c - 48) * 10 ^ d + digits_value ds = 10 ^ d + f"
    using digits_value_show [of ?n] by (simp add: cs digits_value_Cons ld)
  have less: "digits_value ds < 10 ^ d" using digits_value_less [OF dig(2)] by (simp add: ld)
  have "(of_char c - 48 :: nat) = ((of_char c - 48) * 10 ^ d + digits_value ds) div 10 ^ d"
    using less by simp
  also have "\<dots> = 1" using assms by (simp add: eq div_add_self1)
  finally have "digits_value ds = f" using eq by simp
  then show ?thesis using dig ld by (simp add: cs)
qed

section \<open>Packing a token name\<close>

fun pack_chars :: "string \<Rightarrow> 64 word" where
  "pack_chars [] = 0"
| "pack_chars (c # cs) = of_char c OR push_bit 8 (pack_chars cs)"

lemma bit_of_char_high: "8 \<le> n \<Longrightarrow> \<not> bit (of_char c :: 64 word) n"
proof -
  assume n: "8 \<le> n"
  have "(of_char c :: nat) < 2 ^ 8" by simp
  then have "take_bit 8 (of_char c :: nat) = of_char c"
    by (simp add: take_bit_nat_eq_self)
  then have "\<not> bit (of_char c :: nat) n"
    using n by (metis bit_take_bit_iff linorder_not_less)
  moreover have "(of_char c :: 64 word) = of_nat (of_char c :: nat)" by (simp add: of_nat_of_char)
  ultimately show ?thesis by (simp only: bit_of_nat_iff) simp
qed

lemma bit_pack_chars_high: "8 * length cs \<le> n \<Longrightarrow> \<not> bit (pack_chars cs) n"
proof (induction cs arbitrary: n)
  case (Cons c cs)
  then show ?case by (auto simp: bit_simps bit_of_char_high)
qed simp

lemma symbol_loop_pack:
  "list_all upper_case cs \<Longrightarrow> i + length cs \<le> 7 \<Longrightarrow>
     symbol_loop cs i res = Inr (res OR push_bit (8 * (i + 1)) (pack_chars cs))"
proof (induction cs arbitrary: i res)
  case Nil
  then show ?case by simp
next
  case (Cons c cs)
  have "push_bit (8 * (i + 1)) (push_bit 8 (pack_chars cs)) = push_bit (8 * (i + 1 + 1)) (pack_chars cs)"
    by (simp add: add.commute)
  then show ?case using Cons by (simp add: or.assoc push_bit_or)
qed

lemma drop_pack_chars:
  "length cs \<le> 7 \<Longrightarrow> drop_bit 8 (pack_chars (c # cs)) = pack_chars cs"
proof (rule bit_word_eqI)
  fix n
  assume len: "length cs \<le> 7" and "n < LENGTH(64)"
  show "bit (drop_bit 8 (pack_chars (c # cs))) n = bit (pack_chars cs) n"
  proof (cases "n < 56")
    case True
    then show ?thesis by (auto simp: bit_simps bit_of_char_high)
  next
    case False
    then have "\<not> bit (pack_chars cs) n" using len by (intro bit_pack_chars_high) simp
    then show ?thesis using False by (auto simp: bit_simps bit_of_char_high)
  qed
qed

lemma low_pack_chars: "pack_chars (c # cs) AND 0xFF = of_char c"
proof -
  have "take_bit 8 (pack_chars (c # cs)) = of_char c"
    by (rule bit_word_eqI) (auto simp: bit_simps bit_of_char_high not_less [symmetric])
  then show ?thesis by (simp add: take_bit_eq_mask mask_numeral)
qed

lemma unat_of_char: "unat (of_char c :: 64 word) = of_char c"
proof -
  have "(of_char c :: nat) < 2 ^ 64" by (rule less_trans [of _ "2 ^ 8"]) simp_all
  moreover have "(of_char c :: 64 word) = of_nat (of_char c :: nat)" by (simp add: of_nat_of_char)
  ultimately show ?thesis
    by (simp only: unsigned_of_nat) (simp add: take_bit_nat_eq_self)
qed

lemma name_chars_pack:
  "list_all (\<lambda>c. c \<noteq> CHR 0x00) cs \<Longrightarrow> length cs \<le> 8 \<Longrightarrow> name_chars (pack_chars cs) = cs"
proof (induction cs)
  case Nil
  then show ?case by (subst name_chars.simps) simp
next
  case (Cons c cs)
  have "of_char c \<noteq> (0 :: nat)"
    using Cons.prems of_char_eq_iff [of c "CHR 0x00", where 'a = nat] by auto
  then have "pack_chars (c # cs) AND 0xFF \<noteq> 0"
    unfolding low_pack_chars by (metis unat_of_char unat_0)
  then have "pack_chars (c # cs) > 0"
    by (auto simp: word_gt_0)
  then show ?case
    using Cons by (subst name_chars.simps)
      (simp add: low_pack_chars drop_pack_chars unat_of_char del: pack_chars.simps)
qed

lemma of_char_low_byte: "(of_char (char_of (unat (v AND 0xFF))) :: 64 word) = v AND 0xFF"
proof -
  have b: "v AND 0xFF = take_bit 8 v" by (simp add: take_bit_eq_mask mask_numeral)
  have "unat (take_bit 8 v) < 2 ^ 8"
    using take_bit_nat_less_exp [of 8 "unat v"] by (simp add: unsigned_take_bit_eq)
  then have "(of_char (char_of (unat (take_bit 8 v))) :: nat) = unat (take_bit 8 v)"
    by (simp add: of_char_of)
  then have "of_nat (of_char (char_of (unat (take_bit 8 v))) :: nat) = take_bit 8 v"
    by simp
  then show ?thesis by (simp only: b of_nat_of_char)
qed

lemma pack_name_chars: "pack_chars (name_chars v) = v"
proof (induction v rule: name_chars.induct)
  case (1 v)
  show ?case
  proof (cases "v > 0")
    case True
    have "pack_chars (name_chars v) = (v AND 0xFF) OR push_bit 8 (drop_bit 8 v)"
      using 1 True by (subst name_chars.simps) (simp add: of_char_low_byte)
    also have "\<dots> = v"
    proof (rule bit_word_eqI)
      fix n
      assume "n < LENGTH(64)"
      have "v AND 0xFF = take_bit 8 v" by (simp add: take_bit_eq_mask mask_numeral)
      then show "bit ((v AND 0xFF) OR push_bit 8 (drop_bit 8 v)) n = bit v n"
        using \<open>n < LENGTH(64)\<close> by (cases "8 \<le> n") (auto simp: bit_simps)
    qed
    finally show ?thesis .
  next
    case False
    then show ?thesis by (subst name_chars.simps) (simp add: word_gt_0)
  qed
qed

lemma length_name_chars: "unat v < 256 ^ k \<Longrightarrow> length (name_chars v) \<le> k"
proof (induction v arbitrary: k rule: name_chars.induct)
  case (1 v)
  show ?case
  proof (cases "v > 0")
    case True
    then have "0 < unat v" by (simp add: unat_gt_0 word_gt_0)
    then obtain j where k: "k = Suc j" using 1(2) by (cases k) auto
    have "unat (drop_bit 8 v) < 256 ^ j"
      using 1(2) by (simp add: k drop_bit_eq_div unat_div div_less_iff_less_mult mult.commute)
    then have "length (name_chars (drop_bit 8 v)) \<le> j" by (rule 1(1) [OF True])
    then show ?thesis using True k by (subst name_chars.simps) simp
  next
    case False
    then show ?thesis by (subst name_chars.simps) simp
  qed
qed

lemma length_symbol_name: "length (symbol_name s) \<le> 7"
proof -
  have "unat s < 2 ^ 64" using unsigned_less [of s] by simp
  then have "unat (drop_bit 8 s) < 256 ^ 7"
    by (simp add: drop_bit_eq_div unat_div div_less_iff_less_mult)
  then show ?thesis unfolding symbol_name_def by (rule length_name_chars)
qed

lemma upper_case_not_nul: "upper_case c \<Longrightarrow> c \<noteq> CHR 0x00"
  by (auto simp: upper_case_def)

lemma string_to_symbol_pack:
  "list_all upper_case cs \<Longrightarrow> length cs \<le> 7 \<Longrightarrow>
     string_to_symbol p cs = Inr (push_bit 8 (pack_chars cs) OR ucast p)"
  by (simp add: string_to_symbol_def symbol_loop_pack)

lemma push_drop_low: "push_bit 8 (drop_bit 8 s) OR ucast (ucast s :: 8 word) = (s :: 64 word)"
  by (rule bit_word_eqI) (auto simp: bit_simps)

text \<open>Taking a symbol apart and putting it together again.\<close>

lemma string_to_symbol_name:
  "valid_name (symbol_name s) \<Longrightarrow> string_to_symbol (ucast s) (symbol_name s) = Inr s"
  using string_to_symbol_pack [of "symbol_name s" "ucast s"] length_symbol_name [of s]
  by (simp add: valid_name_def symbol_name_def pack_name_chars push_drop_low)

lemma decimals_ucast: "decimals s = unat (ucast s :: 8 word)"
proof -
  have "s AND 0xFF = take_bit 8 s" by (simp add: take_bit_eq_mask mask_numeral)
  then show ?thesis by (simp add: decimals_def unsigned_take_bit_eq unsigned_ucast_eq)
qed

section \<open>The text conversions the code relies on\<close>

definition is_space :: "char \<Rightarrow> bool" where
  "is_space c \<longleftrightarrow> (of_char c :: nat) = 32 \<or> 9 \<le> (of_char c :: nat) \<and> (of_char c :: nat) \<le> 13"

text \<open>
  What the parsers need of Boost: \<open>trim\<close> leaves a string alone that neither starts nor ends
  with white space, and \<open>to_int64\<close> reads a run of digits, with or without a minus sign,
  whose value fits.
\<close>

locale text_conversions =
  fixes trim :: "string \<Rightarrow> string"
    and to_int64 :: "string \<Rightarrow> int result"
  assumes trim_id: "s \<noteq> [] \<Longrightarrow> \<not> is_space (hd s) \<Longrightarrow> \<not> is_space (last s) \<Longrightarrow> trim s = s"
    and to_int64_digits: "ds \<noteq> [] \<Longrightarrow> list_all is_digit ds \<Longrightarrow> digits_value ds < 2 ^ 63 \<Longrightarrow>
      to_int64 ds = Inr (int (digits_value ds))"
    and to_int64_minus: "ds \<noteq> [] \<Longrightarrow> list_all is_digit ds \<Longrightarrow> digits_value ds < 2 ^ 63 \<Longrightarrow>
      to_int64 (CHR ''-'' # ds) = Inr (- int (digits_value ds))"
begin

lemma to_int64_show: "n < 2 ^ 63 \<Longrightarrow> to_int64 (show_nat n) = Inr (int n)"
  using to_int64_digits [OF show_nat_nonempty show_nat_digits] by (simp add: digits_value_show)

end

text \<open>The documented behaviour as functions: an instance of the interface.\<close>

definition ws_trim :: "string \<Rightarrow> string" where
  "ws_trim s = rev (dropWhile is_space (rev (dropWhile is_space s)))"

definition lexical_int64 :: "string \<Rightarrow> int result" where
  "lexical_int64 s =
     (let (neg, ds) =
        (case s of c # cs \<Rightarrow> (if c = CHR ''-'' then (True, cs) else if c = CHR ''+'' then (False, cs)
                             else (False, s)) | [] \<Rightarrow> (False, []))
      in if ds = [] \<or> \<not> list_all is_digit ds then Inl parse_error
         else let v = (if neg then - int (digits_value ds) else int (digits_value ds))
              in if - (2 ^ 63) \<le> v \<and> v < 2 ^ 63 then Inr v else Inl parse_error)"

lemma ws_trim_id:
  assumes "s \<noteq> []" and "\<not> is_space (hd s)" and "\<not> is_space (last s)"
  shows "ws_trim s = s"
proof -
  have "dropWhile is_space s = s" using assms(1,2) by (cases s) simp_all
  moreover have "dropWhile is_space (rev s) = rev s"
    using assms(1,3) by (cases s rule: rev_cases) simp_all
  ultimately show ?thesis by (simp add: ws_trim_def)
qed

interpretation std_text: text_conversions ws_trim lexical_int64
proof unfold_locales
  fix ds :: string
  assume ds: "ds \<noteq> []" "list_all is_digit ds" "digits_value ds < 2 ^ 63"
  obtain c cs where cs: "ds = c # cs" using ds(1) by (cases ds) auto
  then have "c \<noteq> CHR ''-''" and "c \<noteq> CHR ''+''"
    using ds(2) by (auto simp: is_digit_def)
  then show "lexical_int64 ds = Inr (int (digits_value ds))"
    using ds by (simp add: lexical_int64_def cs)
  show "lexical_int64 (CHR ''-'' # ds) = Inr (- int (digits_value ds))"
    using ds by (simp add: lexical_int64_def)
qed (rule ws_trim_id)

section \<open>Symbol round trip\<close>

lemma is_digit_not_space: "is_digit c \<Longrightarrow> \<not> is_space c"
  by (auto simp: is_digit_def is_space_def)

lemma upper_case_not_space: "upper_case c \<Longrightarrow> \<not> is_space c"
  by (auto simp: upper_case_def is_space_def)

lemma comma_facts: "\<not> is_space CHR '',''" "\<not> is_digit CHR '',''"
  by (simp_all add: is_space_def is_digit_def)

lemma find_char_append: "c \<notin> set xs \<Longrightarrow> find_char c (xs @ c # ys) = Some (length xs)"
  by (induction xs) (auto simp: find_char_def)

lemma not_in_digits: "list_all is_digit ds \<Longrightarrow> \<not> is_digit c \<Longrightarrow> c \<notin> set ds"
  by (auto simp: list_all_iff)

lemma hd_show_nat: "is_digit (hd (show_nat n))"
  using show_nat_digits [of n] show_nat_nonempty [of n] by (cases "show_nat n") simp_all

context text_conversions
begin

lemma c_str_upper: "list_all upper_case cs \<Longrightarrow> c_str cs = cs"
  by (auto simp: c_str_def takeWhile_eq_all_conv list_all_iff upper_case_def)

lemma from_string_parts:
  assumes "n \<le> 18" and "list_all upper_case cs" and "length cs \<le> 7"
  shows "symbol_from_string trim to_int64 (show_nat n @ '','' @ cs) =
    symbol_of_value (push_bit 8 (pack_chars cs) OR of_nat n)"
proof -
  let ?s = "show_nat n @ CHR '','' # cs"
  have "\<not> is_space (last ?s)"
    using assms(2) by (cases cs rule: rev_cases) (simp_all add: comma_facts upper_case_not_space)
  then have tr: "trim ?s = ?s"
    by (intro trim_id) (simp_all add: show_nat_nonempty is_digit_not_space hd_show_nat)
  have fc: "find_char CHR '','' ?s = Some (length (show_nat n))"
    using not_in_digits [OF show_nat_digits comma_facts(2)] find_char_append by simp
  have p: "unat (word_of_int (int n) :: 8 word) = n"
    using assms(1) by (simp add: unsigned_of_nat take_bit_nat_eq_self)
  have "(ucast (word_of_int (int n) :: 8 word) :: 64 word) = of_nat n"
    using assms(1) by (simp add: unsigned_of_nat take_bit_nat_eq_self)
  then show ?thesis
    using assms p
    by (simp add: symbol_from_string_def tr fc to_int64_show string_to_symbol_pack Let_def
        max_precision_def c_str_upper [OF assms(2)])
qed

lemma symbol_round_trip:
  assumes "valid s"
  shows "symbol_from_string trim to_int64 (symbol_to_string s) = Inr s"
proof -
  have n: "decimals s \<le> 18" and cs: "list_all upper_case (symbol_name s)"
    using assms by (simp_all add: valid_def max_precision_def valid_name_def)
  have "push_bit 8 (pack_chars (symbol_name s)) OR of_nat (decimals s) = s"
    using push_drop_low [of s] by (simp add: symbol_name_def pack_name_chars decimals_ucast)
  then show ?thesis
    using from_string_parts [OF n cs length_symbol_name] assms
    by (simp add: symbol_to_string_def symbol_of_value_def)
qed

end

text \<open>
  Every valid symbol survives \<open>to_string\<close> followed by \<open>from_string\<close>, for any trimming and
  integer parsing that meet the interface; symbols with an empty name and with zero decimals
  are included.
\<close>

theorem symbol_to_string_roundtrip:
  assumes "text_conversions trim to_int64" and "valid s"
  shows "symbol_from_string trim to_int64 (symbol_to_string s) = Inr s"
  using assms by (rule text_conversions.symbol_round_trip)

theorem symbol_to_string_roundtrip_witness:
  "valid 0x534F4504 \<and> symbol_from_string ws_trim lexical_int64 (symbol_to_string 0x534F4504) = Inr 0x534F4504"
proof -
  have v: "valid 0x534F4504" by code_simp
  show ?thesis using v symbol_to_string_roundtrip [OF std_text.text_conversions_axioms v] by simp
qed

end
