(* ===== verification/Assets.thy ===== *)
theory Assets
  imports SafeInt Symbols
begin

text \<open>
  Assets of the chain library (\<^verbatim>\<open>libraries/chain/include/eosio/chain/asset.hpp\<close>,
  \<^verbatim>\<open>libraries/chain/asset.cpp\<close>): a signed 64-bit amount and a symbol.  Signed overflow
  is undefined in C++ and appears as \<open>undefined_behaviour\<close>.
\<close>

record asset =
  amount :: int
  sym :: symbol

definition max_amount :: int where "max_amount = 2 ^ 62 - 1"

definition is_amount_within_range :: "asset \<Rightarrow> bool" where
  "is_amount_within_range a \<longleftrightarrow> - max_amount \<le> amount a \<and> amount a \<le> max_amount"

definition is_valid :: "asset \<Rightarrow> bool" where
  "is_valid a \<longleftrightarrow> is_amount_within_range a \<and> valid (sym a)"

text \<open>The constructor, with its two checks.\<close>

definition make_asset :: "int \<Rightarrow> symbol \<Rightarrow> asset result" where
  "make_asset a sy =
     (let r = \<lparr>amount = a, sym = sy\<rparr> in
      bind_r (eos_assert (is_amount_within_range r) asset_type_exception) (\<lambda>_.
      bind_r (eos_assert (valid (sym r)) asset_type_exception) (\<lambda>_.
      Inr r)))"

definition int64_op :: "int \<Rightarrow> int result" where
  "int64_op x = (if in_int64 x then Inr x else Inl undefined_behaviour)"

section \<open>Operators\<close>

definition asset_add_assign :: "asset \<Rightarrow> asset \<Rightarrow> asset result" where
  "asset_add_assign a b =
     bind_r (eos_assert (sym a = sym b) asset_type_exception) (\<lambda>_.
     bind_r (int64_op (amount a + amount b)) (\<lambda>v.
     Inr (a\<lparr>amount := v\<rparr>)))"

definition asset_sub_assign :: "asset \<Rightarrow> asset \<Rightarrow> asset result" where
  "asset_sub_assign a b =
     bind_r (eos_assert (sym a = sym b) asset_type_exception) (\<lambda>_.
     bind_r (int64_op (amount a - amount b)) (\<lambda>v.
     Inr (a\<lparr>amount := v\<rparr>)))"

definition asset_neg :: "asset \<Rightarrow> asset result" where
  "asset_neg a = bind_r (int64_op (- amount a)) (\<lambda>v. make_asset v (sym a))"

definition asset_eq :: "asset \<Rightarrow> asset \<Rightarrow> bool" where
  "asset_eq a b \<longleftrightarrow> sym a = sym b \<and> amount a = amount b"

definition asset_less :: "asset \<Rightarrow> asset \<Rightarrow> bool result" where
  "asset_less a b =
     bind_r (eos_assert (sym a = sym b) asset_type_exception) (\<lambda>_.
     Inr (amount a < amount b \<or> amount a = amount b \<and> sym a < sym b))"

definition asset_less_eq :: "asset \<Rightarrow> asset \<Rightarrow> bool result" where
  "asset_less_eq a b = (if asset_eq a b then Inr True else asset_less a b)"

definition asset_greater :: "asset \<Rightarrow> asset \<Rightarrow> bool result" where
  "asset_greater a b = bind_r (asset_less_eq a b) (\<lambda>r. Inr (\<not> r))"

definition asset_greater_eq :: "asset \<Rightarrow> asset \<Rightarrow> bool result" where
  "asset_greater_eq a b = bind_r (asset_less a b) (\<lambda>r. Inr (\<not> r))"

definition asset_minus :: "asset \<Rightarrow> asset \<Rightarrow> asset result" where
  "asset_minus a b =
     bind_r (eos_assert (sym a = sym b) asset_type_exception) (\<lambda>_.
     bind_r (int64_op (amount a - amount b)) (\<lambda>v.
     make_asset v (sym a)))"

definition asset_plus :: "asset \<Rightarrow> asset \<Rightarrow> asset result" where
  "asset_plus a b =
     bind_r (eos_assert (sym a = sym b) asset_type_exception) (\<lambda>_.
     bind_r (int64_op (amount a + amount b)) (\<lambda>v.
     make_asset v (sym a)))"

section \<open>Text\<close>

definition asset_to_string :: "asset \<Rightarrow> string result" where
  "asset_to_string a =
     (let sign = (if amount a < 0 then ''-'' else ''''); abs_amount = \<bar>amount a\<bar> in
      bind_r (precision (sym a)) (\<lambda>p.
      let whole = show_int (cdiv abs_amount (int p));
          res = (if decimals (sym a) \<noteq> 0
                 then whole @ ''.'' @ tl (show_int (int p + cmod abs_amount (int p)))
                 else whole)
      in Inr (sign @ res @ '' '' @ symbol_name (sym a))))"

definition asset_from_string ::
    "(string \<Rightarrow> string) \<Rightarrow> (string \<Rightarrow> int result) \<Rightarrow> string \<Rightarrow> asset result" where
  "asset_from_string trim to_int64 from =
     (let s = trim from in
      bind_r (option_to_result asset_type_exception (find_char CHR '' '' s)) (\<lambda>space_pos.
      let symbol_str = trim (drop (space_pos + 1) s);
          amount_str = take space_pos s;
          dot_pos = find_char CHR ''.'' amount_str in
      bind_r (case dot_pos of None \<Rightarrow> Inr ()
              | Some d \<Rightarrow> eos_assert (d \<noteq> length amount_str - 1) asset_type_exception) (\<lambda>_.
      let precision_digit_str =
            (case dot_pos of Some d \<Rightarrow> show_nat (length amount_str - d - 1) | None \<Rightarrow> ''0'');
          symbol_part = precision_digit_str @ '','' @ symbol_str in
      bind_r (symbol_from_string trim to_int64 symbol_part) (\<lambda>sy.
      bind_r (case dot_pos of
                Some d \<Rightarrow>
                  bind_r (to_int64 (take d amount_str)) (\<lambda>int_part.
                  bind_r (to_int64 (drop (d + 1) amount_str)) (\<lambda>fract_part.
                  bind_r (if amount_str ! 0 = CHR ''-'' then safe_mul fract_part (- 1)
                          else Inr fract_part) (\<lambda>fract_part.
                  Inr (int_part, fract_part))))
              | None \<Rightarrow> bind_r (to_int64 amount_str) (\<lambda>int_part. Inr (int_part, 0)))
        (\<lambda>(int_part, fract_part).
      bind_r (precision sy) (\<lambda>p.
      bind_r (safe_mul int_part (int p)) (\<lambda>amt.
      bind_r (safe_add amt fract_part) (\<lambda>amt.
      make_asset amt sy))))))))"

section \<open>Arithmetic on valid assets\<close>

lemma valid_amount_range: "is_valid a \<Longrightarrow> \<bar>amount a\<bar> < 2 ^ 62"
  by (auto simp: is_valid_def is_amount_within_range_def max_amount_def)

lemma make_asset_eq:
  "make_asset v s = (if is_valid \<lparr>amount = v, sym = s\<rparr> then Inr \<lparr>amount = v, sym = s\<rparr>
     else Inl asset_type_exception)"
  by (simp add: make_asset_def is_valid_def eos_assert_def Let_def)

text \<open>
  Adding two valid assets is exact or throws: same symbol and a sum of magnitude below
  \<open>2^62\<close> give the exact sum, which is again valid; anything else is an
  \<open>asset_type_exception\<close>, and signed overflow (undefined in C++) never happens.
\<close>

theorem asset_plus_exact:
  assumes "is_valid a" and "is_valid b"
  shows "asset_plus a b =
    (if sym a = sym b \<and> \<bar>amount a + amount b\<bar> \<le> max_amount
     then Inr \<lparr>amount = amount a + amount b, sym = sym a\<rparr> else Inl asset_type_exception)"
proof -
  have "in_int64 (amount a + amount b)"
    using valid_amount_range [OF assms(1)] valid_amount_range [OF assms(2)]
    by (auto simp: in_int64_def int64_bounds)
  moreover have "is_valid \<lparr>amount = v, sym = sym a\<rparr> \<longleftrightarrow> \<bar>v\<bar> \<le> max_amount" for v
    using assms(1) by (auto simp: is_valid_def is_amount_within_range_def)
  ultimately show ?thesis
    by (simp add: asset_plus_def int64_op_def make_asset_eq eos_assert_def)
qed

definition one_eos :: asset where
  "one_eos = \<lparr>amount = 10000, sym = 0x534F4504\<rparr>"

theorem asset_plus_exact_witness:
  "is_valid one_eos \<and> asset_plus one_eos one_eos = Inr (one_eos\<lparr>amount := 20000\<rparr>)"
proof -
  have v: "is_valid one_eos" by code_simp
  show ?thesis
    using v asset_plus_exact [OF v v] by (simp add: one_eos_def max_amount_def)
qed

section \<open>Text round trip\<close>

lemma precision_loop_pow: "p10 * 10 ^ n < 2 ^ 64 \<Longrightarrow> precision_loop p10 n = p10 * 10 ^ n"
proof (induction n arbitrary: p10)
  case (Suc n)
  have "p10 * 10 \<le> p10 * 10 * 10 ^ n" by simp
  moreover have b: "p10 * 10 * 10 ^ n < 2 ^ 64" using Suc.prems by (simp add: mult.assoc)
  ultimately have "p10 * 10 < 2 ^ 64" by (rule le_less_trans)
  then show ?case using b Suc.IH [of "p10 * 10"] by (simp add: u64_def mult.assoc)
qed simp

lemma precision_valid:
  assumes "valid s"
  shows "precision s = Inr (10 ^ decimals s)" and "(10 :: nat) ^ decimals s \<le> 10 ^ 18"
proof -
  have d: "decimals s \<le> 18" using assms by (simp add: valid_def max_precision_def)
  then show le: "(10 :: nat) ^ decimals s \<le> 10 ^ 18" by (intro power_increasing) simp_all
  then have "(1 :: nat) * 10 ^ decimals s < 2 ^ 64" by simp
  then show "precision s = Inr (10 ^ decimals s)"
    using d precision_loop_pow [of 1 "decimals s"] by (simp add: precision_def max_precision_def)
qed

lemma symbol_parts:
  "valid s \<Longrightarrow> push_bit 8 (pack_chars (symbol_name s)) OR of_nat (decimals s) = s"
  using push_drop_low [of s] by (simp add: symbol_name_def pack_name_chars decimals_ucast)

text \<open>The amount text: an optional minus sign, digits, and for a fraction a dot and its digits.\<close>

lemma text_chars:
  "\<not> is_digit CHR '' ''" "\<not> is_digit CHR ''.''" "\<not> is_digit CHR ''-''" "\<not> is_space CHR ''-''"
  "\<not> is_space CHR ''.''"
  by (simp_all add: is_digit_def is_space_def)

lemma cdiv_cmod_nat: "cdiv (int m) (int n) = int (m div n)" "cmod (int m) (int n) = int (m mod n)"
proof -
  show d: "cdiv (int m) (int n) = int (m div n)"
    by (cases "m = 0 \<or> n = 0") (auto simp: cdiv_def zdiv_int)
  show "cmod (int m) (int n) = int (m mod n)"
    unfolding cmod_def d by (metis minus_mult_div_eq_mod of_nat_div of_nat_mod)
qed

lemma asset_to_string_valid:
  assumes "is_valid a"
  shows "asset_to_string a = Inr ((if amount a < 0 then ''-'' else '''') @
      show_nat (nat \<bar>amount a\<bar> div 10 ^ decimals (sym a)) @
      (if decimals (sym a) \<noteq> 0 then
         CHR ''.'' # tl (show_nat (10 ^ decimals (sym a) + nat \<bar>amount a\<bar> mod 10 ^ decimals (sym a)))
       else '''') @ CHR '' '' # symbol_name (sym a))"
proof -
  let ?p = "(10 :: nat) ^ decimals (sym a)"
  have p: "precision (sym a) = Inr ?p"
    using assms precision_valid by (simp add: is_valid_def)
  have abs: "\<bar>amount a\<bar> = int (nat \<bar>amount a\<bar>)" by simp
  have w: "cdiv \<bar>amount a\<bar> (int ?p) = int (nat \<bar>amount a\<bar> div ?p)"
    by (subst abs) (simp only: cdiv_cmod_nat)
  have f: "int ?p + cmod \<bar>amount a\<bar> (int ?p) = int (?p + nat \<bar>amount a\<bar> mod ?p)"
    by (subst abs) (simp only: cdiv_cmod_nat of_nat_add)
  have s: "show_int (int n) = show_nat n" for n by (simp add: show_int_def)
  show ?thesis
    by (simp only: asset_to_string_def p Let_def bind_r_simps w f s) simp
qed

definition sign_str :: "bool \<Rightarrow> string" where
  "sign_str neg = (if neg then ''-'' else '''')"

definition signed :: "bool \<Rightarrow> nat \<Rightarrow> int" where
  "signed neg n = (if neg then - int n else int n)"

lemma digits_hd_not_minus: "ds \<noteq> [] \<Longrightarrow> list_all is_digit ds \<Longrightarrow> (ds @ xs) ! 0 \<noteq> CHR ''-''"
  by (cases ds) (auto simp: text_chars)

lemma sign_str_first:
  "ds \<noteq> [] \<Longrightarrow> list_all is_digit ds \<Longrightarrow> (sign_str neg @ ds @ xs) ! 0 = CHR ''-'' \<longleftrightarrow> neg"
  using digits_hd_not_minus by (simp add: sign_str_def)

lemma sign_str_not_in: "\<not> is_digit c \<Longrightarrow> c \<noteq> CHR ''-'' \<Longrightarrow> list_all is_digit ds \<Longrightarrow>
    c \<notin> set (sign_str neg @ ds)"
  using not_in_digits by (auto simp: sign_str_def)

lemma find_char_None: "c \<notin> set s \<Longrightarrow> find_char c s = None"
  by (simp add: find_char_def)

lemma hd_signed_not_space:
  "ds \<noteq> [] \<Longrightarrow> list_all is_digit ds \<Longrightarrow> \<not> is_space (hd (sign_str neg @ ds @ xs))"
  by (cases ds) (auto simp: sign_str_def text_chars is_digit_not_space)

lemma safe_signed_combine:
  assumes "i * p + f < 2 ^ 62"
  shows "safe_mul (signed neg i) (int p) = Inr (signed neg (i * p))"
    and "safe_add (signed neg (i * p)) (signed neg f) = Inr (signed neg (i * p + f))"
    and "safe_mul (int f) (- 1) = Inr (- int f)"
proof -
  define k where "k = i * p"
  have "k + f < 4611686018427387904" using assms(1) by (simp add: k_def)
  then have i: "int (i * p) < 4611686018427387904" and f: "int f < 4611686018427387904"
    and s: "int (i * p) + int f < 4611686018427387904"
    unfolding k_def [symmetric] by linarith+
  have "signed neg i * int p = signed neg (i * p)" by (simp add: signed_def)
  moreover have "in_int64 (signed neg (i * p))"
    using i of_nat_0_le_iff [of "i * p"] unfolding in_int64_def int64_bounds signed_def
    by (cases neg) (simp_all only: if_True if_False, linarith+)
  ultimately show "safe_mul (signed neg i) (int p) = Inr (signed neg (i * p))"
    by (simp only: safe_mul_spec if_True)
  show "safe_mul (int f) (- 1) = Inr (- int f)"
    using f by (simp add: safe_mul_spec in_int64_def int64_bounds)
  show "safe_add (signed neg (i * p)) (signed neg f) = Inr (signed neg (i * p + f))"
    using s by (auto simp: safe_add_def int64_bounds signed_def)
qed

text \<open>One run of the parser, with and without a decimal point, from the facts each step needs.\<close>

lemma asset_from_string_dot:
  assumes "trim from = A @ CHR '' '' # N" and "CHR '' '' \<notin> set A" and "trim N = N"
    and "find_char CHR ''.'' A = Some d" and "d \<noteq> length A - 1"
    and "symbol_from_string trim to_int64 (show_nat (length A - d - 1) @ '','' @ N) = Inr sy"
    and "to_int64 (take d A) = Inr ip" and "to_int64 (drop (d + 1) A) = Inr fp"
    and "(if A ! 0 = CHR ''-'' then safe_mul fp (- 1) else Inr fp) = Inr fp'"
    and "precision sy = Inr p" and "safe_mul ip (int p) = Inr m" and "safe_add m fp' = Inr amt"
  shows "asset_from_string trim to_int64 from = make_asset amt sy"
  using assms find_char_append [OF assms(2), of N]
  by (simp add: asset_from_string_def eos_assert_def)

lemma asset_from_string_nodot:
  assumes "trim from = A @ CHR '' '' # N" and "CHR '' '' \<notin> set A" and "trim N = N"
    and "find_char CHR ''.'' A = None"
    and "symbol_from_string trim to_int64 (''0'' @ '','' @ N) = Inr sy"
    and "to_int64 A = Inr ip" and "precision sy = Inr p" and "safe_mul ip (int p) = Inr m"
    and "safe_add m 0 = Inr amt"
  shows "asset_from_string trim to_int64 from = make_asset amt sy"
  using assms find_char_append [OF assms(2), of N] by (simp add: asset_from_string_def)

context text_conversions
begin

lemma to_int64_signed:
  "ds \<noteq> [] \<Longrightarrow> list_all is_digit ds \<Longrightarrow> digits_value ds < 2 ^ 63 \<Longrightarrow>
     to_int64 (sign_str neg @ ds) = Inr (signed neg (digits_value ds))"
  by (simp add: sign_str_def signed_def to_int64_digits to_int64_minus)

lemma parse_symbol_part:
  "valid s \<Longrightarrow> symbol_from_string trim to_int64 (show_nat (decimals s) @ CHR '','' # symbol_name s) = Inr s"
  using symbol_round_trip [of s] by (simp add: symbol_to_string_def)

lemma trim_name: "valid s \<Longrightarrow> symbol_name s \<noteq> [] \<Longrightarrow> trim (symbol_name s) = symbol_name s"
  by (rule trim_id) (auto simp: valid_def valid_name_def list_all_iff upper_case_not_space)

lemma trim_text:
  assumes "ds \<noteq> []" and "list_all is_digit ds" and "valid s" and "symbol_name s \<noteq> []"
  shows "trim (sign_str neg @ ds @ xs @ CHR '' '' # symbol_name s) =
    sign_str neg @ ds @ xs @ CHR '' '' # symbol_name s"
  using assms hd_signed_not_space [OF assms(1,2)]
  by (intro trim_id) (auto simp: valid_def valid_name_def list_all_iff upper_case_not_space)

lemma parse_with_fraction:
  assumes s: "valid s" "symbol_name s \<noteq> []" and d: "decimals s \<noteq> 0"
    and F: "length F = decimals s" "list_all is_digit F"
    and b: "i * 10 ^ decimals s + digits_value F < 2 ^ 62"
  shows "asset_from_string trim to_int64
      (sign_str neg @ show_nat i @ CHR ''.'' # F @ CHR '' '' # symbol_name s) =
    make_asset (signed neg (i * 10 ^ decimals s + digits_value F)) s"
proof -
  let ?I = "show_nat i" and ?p = "(10 :: nat) ^ decimals s" and ?f = "digits_value F"
  let ?A = "sign_str neg @ ?I @ CHR ''.'' # F"
  have dig: "?I \<noteq> []" "list_all is_digit ?I" by (simp_all add: show_nat_nonempty show_nat_digits)
  have F0: "F \<noteq> []" using F d by auto
  have small: "i < 2 ^ 63" "?f < 2 ^ 63"
  proof -
    have "i \<le> i * ?p" by simp
    then have "i < 2 ^ 62" and "?f < 2 ^ 62" using b by linarith+
    then show "i < 2 ^ 63" "?f < 2 ^ 63" by simp_all
  qed
  have tr: "trim (?A @ CHR '' '' # symbol_name s) = ?A @ CHR '' '' # symbol_name s"
    using trim_text [OF dig s, of neg "CHR ''.'' # F"] by simp
  have nosp: "CHR '' '' \<notin> set ?A"
    using sign_str_not_in [OF text_chars(1) _ dig(2), of neg] not_in_digits [OF F(2) text_chars(1)]
    by simp
  have dot: "find_char CHR ''.'' ?A = Some (length (sign_str neg @ ?I))"
    using find_char_append [OF sign_str_not_in [OF text_chars(2) _ dig(2)], of neg F] by simp
  have nd: "length (sign_str neg @ ?I) \<noteq> length ?A - 1"
    using F0 by (cases F) simp_all
  have prec: "show_nat (length ?A - length (sign_str neg @ ?I) - 1) = show_nat (decimals s)"
    by (simp add: F(1))
  have ip: "to_int64 (take (length (sign_str neg @ ?I)) ?A) = Inr (signed neg i)"
    using to_int64_signed [OF dig, of neg] small by (simp add: digits_value_show)
  have fp: "to_int64 (drop (length (sign_str neg @ ?I) + 1) ?A) = Inr (int ?f)"
    using to_int64_digits [OF F0 F(2)] small by simp
  have neg: "?A ! 0 = CHR ''-'' \<longleftrightarrow> neg" by (rule sign_str_first [OF dig])
  note comb = safe_signed_combine [OF b]
  have sgn: "(if ?A ! 0 = CHR ''-'' then safe_mul (int ?f) (- 1) else Inr (int ?f)) = Inr (signed neg ?f)"
    unfolding neg using comb(3) by (simp add: signed_def)
  have "asset_from_string trim to_int64 (?A @ CHR '' '' # symbol_name s) =
      make_asset (signed neg (i * ?p + ?f)) s"
  proof (rule asset_from_string_dot [OF tr _ trim_name [OF s] dot nd _ ip fp sgn])
    show "symbol_from_string trim to_int64
        (show_nat (length ?A - length (sign_str neg @ ?I) - 1) @ '','' @ symbol_name s) = Inr s"
      unfolding prec using parse_symbol_part [OF s(1)] by simp
    show "safe_mul (signed neg i) (int ?p) = Inr (signed neg (i * ?p))" by (rule comb(1))
    show "safe_add (signed neg (i * ?p)) (signed neg ?f) = Inr (signed neg (i * ?p + ?f))"
      by (rule comb(2))
  qed (use nosp precision_valid [OF s(1)] in simp_all)
  then show ?thesis by simp
qed

lemma parse_without_fraction:
  assumes s: "valid s" "symbol_name s \<noteq> []" and d: "decimals s = 0" and b: "i < 2 ^ 62"
  shows "asset_from_string trim to_int64 (sign_str neg @ show_nat i @ CHR '' '' # symbol_name s) =
    make_asset (signed neg i) s"
proof -
  let ?A = "sign_str neg @ show_nat i"
  have dig: "show_nat i \<noteq> []" "list_all is_digit (show_nat i)"
    by (simp_all add: show_nat_nonempty show_nat_digits)
  have tr: "trim (?A @ CHR '' '' # symbol_name s) = ?A @ CHR '' '' # symbol_name s"
    using trim_text [OF dig s, of neg "[]"] by simp
  have zero: "show_nat (decimals s) = ''0''"
    unfolding d by code_simp
  have ip: "to_int64 ?A = Inr (signed neg i)"
    using to_int64_signed [OF dig, of neg] b by (simp add: digits_value_show)
  have "i * 1 + 0 < 2 ^ 62" using b by simp
  note comb = safe_signed_combine [OF this]
  have "asset_from_string trim to_int64 (?A @ CHR '' '' # symbol_name s) = make_asset (signed neg i) s"
  proof (rule asset_from_string_nodot)
    show "trim (?A @ CHR '' '' # symbol_name s) = ?A @ CHR '' '' # symbol_name s" by (rule tr)
    show "trim (symbol_name s) = symbol_name s" by (rule trim_name [OF s])
    show "to_int64 ?A = Inr (signed neg i)" by (rule ip)
    show "symbol_from_string trim to_int64 (''0'' @ '','' @ symbol_name s) = Inr s"
      using parse_symbol_part [OF s(1)] by (simp add: zero)
    show "find_char CHR ''.'' ?A = None"
      by (intro find_char_None sign_str_not_in [OF text_chars(2) _ dig(2)]) simp
    show "CHR '' '' \<notin> set ?A"
      by (intro sign_str_not_in [OF text_chars(1) _ dig(2)]) simp
    show "precision s = Inr 1" using precision_valid [OF s(1)] d by simp
    show "safe_mul (signed neg i) (int 1) = Inr (signed neg i)" using comb(1) by simp
    show "safe_add (signed neg i) 0 = Inr (signed neg i)" by (simp add: safe_add_def)
  qed
  then show ?thesis by simp
qed

lemma asset_round_trip:
  assumes "is_valid a" and "symbol_name (sym a) \<noteq> []"
  shows "bind_r (asset_to_string a) (asset_from_string trim to_int64) = Inr a"
proof -
  let ?n = "nat \<bar>amount a\<bar>" and ?d = "decimals (sym a)"
  let ?p = "(10 :: nat) ^ ?d" and ?neg = "amount a < 0"
  have s: "valid (sym a)" using assms(1) by (simp add: is_valid_def)
  have n: "?n < 2 ^ 62" using valid_amount_range [OF assms(1)] by simp
  have sg: "signed ?neg ?n = amount a" by (simp add: signed_def)
  have self: "make_asset (amount a) (sym a) = Inr a"
    using assms(1) by (cases a) (simp add: make_asset_eq)
  show ?thesis
  proof (cases "?d = 0")
    case True
    then show ?thesis
      using parse_without_fraction [OF s assms(2) True n, of ?neg] self sg
      by (simp add: asset_to_string_valid [OF assms(1)] sign_str_def)
  next
    case False
    let ?F = "tl (show_nat (?p + ?n mod ?p))"
    have F: "length ?F = ?d" "digits_value ?F = ?n mod ?p" "list_all is_digit ?F"
      using show_nat_padded [of "?n mod ?p" ?d] by simp_all
    have "(?n div ?p) * ?p + ?n mod ?p = ?n" by (rule div_mult_mod_eq)
    then show ?thesis
      using parse_with_fraction [OF s assms(2) False F(1,3), of "?n div ?p" ?neg] self sg n F(2) False
      by (simp add: asset_to_string_valid [OF assms(1)] sign_str_def)
  qed
qed

end

text \<open>
  C40. Printing a valid asset and parsing the text gives the asset back, negative amounts and
  fractions with leading zeros included, provided its token name is not empty.
\<close>

theorem asset_text_roundtrip:
  assumes "text_conversions trim to_int64" and "is_valid a" and "symbol_name (sym a) \<noteq> []"
  shows "bind_r (asset_to_string a) (asset_from_string trim to_int64) = Inr a"
  using assms by (rule text_conversions.asset_round_trip)

theorem asset_text_roundtrip_witness:
  "is_valid one_eos \<and> symbol_name (sym one_eos) = ''EOS'' \<and>
   bind_r (asset_to_string one_eos) (asset_from_string ws_trim lexical_int64) = Inr one_eos"
proof -
  have v: "is_valid one_eos" and n: "symbol_name (sym one_eos) = ''EOS''" by code_simp+
  then have "symbol_name (sym one_eos) \<noteq> []" by simp
  then show ?thesis using v n asset_text_roundtrip [OF std_text.text_conversions_axioms v] by simp
qed

lemma ws_trim_trailing:
  assumes "A \<noteq> []" and "\<not> is_space (hd A)" and "\<not> is_space (last A)"
  shows "ws_trim (A @ [CHR '' '']) = A"
proof -
  have "dropWhile is_space (A @ [CHR '' '']) = A @ [CHR '' '']"
    using assms(1,2) by (cases A) simp_all
  moreover have "is_space CHR '' ''" by (simp add: is_space_def)
  then have "dropWhile is_space (CHR '' '' # rev A) = rev A"
    using assms(1,3) by (cases A rule: rev_cases) simp_all
  ultimately show ?thesis by (simp add: ws_trim_def)
qed

text \<open>
  The name must not be empty: every valid asset whose symbol has no name prints as an amount
  followed by a space, which \<open>from_string\<close> trims away and then rejects.
\<close>

theorem asset_empty_name_no_roundtrip:
  assumes "is_valid a" and "symbol_name (sym a) = []"
  shows "bind_r (asset_to_string a) (asset_from_string ws_trim to_int64) = Inl asset_type_exception"
proof -
  let ?n = "nat \<bar>amount a\<bar>" and ?d = "decimals (sym a)"
  let ?p = "(10 :: nat) ^ ?d"
  let ?I = "show_nat (?n div ?p)"
  define G where "G = (if ?d \<noteq> 0 then CHR ''.'' # tl (show_nat (?p + ?n mod ?p)) else [])"
  define A where "A = sign_str (amount a < 0) @ ?I @ G"
  have F: "list_all is_digit (tl (show_nat (?p + ?n mod ?p)))"
    "length (tl (show_nat (?p + ?n mod ?p))) = ?d"
    using show_nat_padded [of "?n mod ?p" ?d] by simp_all
  have dig: "?I \<noteq> []" "list_all is_digit ?I" by (simp_all add: show_nat_nonempty show_nat_digits)
  have ts: "asset_to_string a = Inr (A @ '' '')"
    using assms(2) by (simp add: asset_to_string_valid [OF assms(1)] A_def G_def sign_str_def)
  have chars: "list_all (\<lambda>c. is_digit c \<or> c = CHR ''.'' \<or> c = CHR ''-'') A"
    using dig(2) F(1) by (auto simp: A_def G_def sign_str_def list_all_iff)
  then have sp: "CHR '' '' \<notin> set A"
    by (auto simp: list_all_iff text_chars)
  have "\<not> is_space c" if "is_digit c \<or> c = CHR ''.'' \<or> c = CHR ''-''" for c
    using that is_digit_not_space by (auto simp: text_chars)
  then have nsp: "\<not> is_space c" if "c \<in> set A" for c
    using chars that by (simp add: list_all_iff)
  have ne: "A \<noteq> []" using dig(1) by (simp add: A_def)
  have lst: "\<not> is_space (last A)" by (rule nsp [OF last_in_set [OF ne]])
  have "\<not> is_space (hd A)" unfolding A_def by (rule hd_signed_not_space [OF dig])
  then have "ws_trim (A @ '' '') = A"
    by (rule ws_trim_trailing [OF ne _ lst])
  then show ?thesis
    using sp by (simp add: ts asset_from_string_def find_char_None)
qed

theorem asset_empty_name_no_roundtrip_witness:
  "is_valid \<lparr>amount = 10000, sym = 4\<rparr> \<and>
   bind_r (asset_to_string \<lparr>amount = 10000, sym = 4\<rparr>) (asset_from_string ws_trim lexical_int64)
     = Inl asset_type_exception"
proof -
  have v: "is_valid \<lparr>amount = 10000, sym = 4\<rparr>" by code_simp
  have n: "symbol_name (sym \<lparr>amount = 10000, sym = 4\<rparr>) = []" by code_simp
  show ?thesis using v asset_empty_name_no_roundtrip [OF v n] by simp
qed

end
