(* ===== verification/Merkle.thy ===== *)
theory Merkle
  imports Prelude
begin

text \<open>
  Merkle roots: the batch function of \<^verbatim>\<open>libraries/chain/merkle.cpp\<close> and the
  append-only tree of \<^verbatim>\<open>libraries/chain/include/eosio/chain/incremental_merkle.hpp\<close>.
  The digest of a pair (\<open>digest_type::hash\<close>, SHA-256 of the packed pair, computed by
  OpenSSL) is the parameter \<open>hash\<close>.  The main results: the incremental tree always holds the
  batch root of what was appended, and never reads past its list of active nodes; and a root
  binds its leaves as far as the canonical side bit allows.
\<close>

unbundle bit_operations_syntax

section \<open>Digests and sides\<close>

record sha256 =
  hash0 :: "64 word"
  hash1 :: "64 word"
  hash2 :: "64 word"
  hash3 :: "64 word"

definition null_digest :: sha256 where
  "null_digest = \<lparr>hash0 = 0, hash1 = 0, hash2 = 0, hash3 = 0\<rparr>"

type_synonym digest_hash = "sha256 \<times> sha256 \<Rightarrow> sha256"

definition make_canonical_left :: "sha256 \<Rightarrow> sha256" where
  "make_canonical_left v = v\<lparr>hash0 := hash0 v AND 0xFFFFFFFFFFFFFF7F\<rparr>"

definition make_canonical_right :: "sha256 \<Rightarrow> sha256" where
  "make_canonical_right v = v\<lparr>hash0 := hash0 v OR 0x80\<rparr>"

definition is_canonical_left :: "sha256 \<Rightarrow> bool" where
  "is_canonical_left v \<longleftrightarrow> hash0 v AND 0x80 = 0"

definition is_canonical_right :: "sha256 \<Rightarrow> bool" where
  "is_canonical_right v \<longleftrightarrow> hash0 v AND 0x80 \<noteq> 0"

definition make_canonical_pair :: "sha256 \<Rightarrow> sha256 \<Rightarrow> sha256 \<times> sha256" where
  "make_canonical_pair l r = (make_canonical_left l, make_canonical_right r)"

abbreviation hash_pair :: "digest_hash \<Rightarrow> sha256 \<Rightarrow> sha256 \<Rightarrow> sha256" where
  "hash_pair hash l r \<equiv> hash (make_canonical_pair l r)"

section \<open>The batch root\<close>

text \<open>
  The inner \<open>for\<close> loop, which overwrites the vector it reads.  Its counter is an \<open>int\<close>: the index \<open>2 * i + 1\<close>
  overflows from \<open>i = 2^30\<close> on.
\<close>

function pair_loop :: "digest_hash \<Rightarrow> nat \<Rightarrow> nat \<Rightarrow> sha256 list \<Rightarrow> sha256 list result" where
  "pair_loop hash i n ids =
     (if i < n then
        if 2 * i + 1 \<ge> 2 ^ 31 then Inl undefined_behaviour
        else pair_loop hash (i + 1) n (ids[i := hash_pair hash (ids ! (2 * i)) (ids ! (2 * i + 1))])
      else Inr ids)"
  by pat_completeness auto
termination by (relation "measure (\<lambda>(_, i, n, _). n - i)") auto

declare pair_loop.simps [simp del]

definition merkle_step :: "digest_hash \<Rightarrow> sha256 list \<Rightarrow> sha256 list result" where
  "merkle_step hash ids =
     (let ids = (if length ids mod 2 \<noteq> 0 then ids @ [last ids] else ids)
      in bind_r (pair_loop hash 0 (length ids div 2) ids) (\<lambda>ids'. Inr (take (length ids div 2) ids')))"

lemma length_pair_loop: "pair_loop hash i n ids = Inr ids' \<Longrightarrow> length ids' = length ids"
proof (induction hash i n ids rule: pair_loop.induct)
  case (1 hash i n ids)
  then show ?case using pair_loop.simps [of hash i n ids] by (auto split: if_splits)
qed

lemma length_merkle_step: "merkle_step hash ids = Inr ids' \<Longrightarrow> length ids' = (length ids + 1) div 2"
  by (auto simp: merkle_step_def Let_def result_simps odd_iff_mod_2_eq_one split: if_splits dest!: length_pair_loop)

function merkle_loop :: "digest_hash \<Rightarrow> sha256 list \<Rightarrow> sha256 result" where
  "merkle_loop hash ids =
     (if length ids > 1
      then (case merkle_step hash ids of Inl e \<Rightarrow> Inl e | Inr ids' \<Rightarrow> merkle_loop hash ids')
      else Inr (hd ids))"
  by pat_completeness auto
termination by (relation "measure (\<lambda>(_, ids). length ids)") (auto dest: length_merkle_step)

declare merkle_loop.simps [simp del]

definition merkle :: "digest_hash \<Rightarrow> sha256 list \<Rightarrow> sha256 result" where
  "merkle hash ids = (if length ids = 0 then Inr null_digest else merkle_loop hash ids)"

section \<open>The incremental tree\<close>

definition next_power_of_2 :: "64 word \<Rightarrow> 64 word" where
  "next_power_of_2 value0 =
     (let v = value0 - 1;
          v = v OR drop_bit 1 v;
          v = v OR drop_bit 2 v;
          v = v OR drop_bit 4 v;
          v = v OR drop_bit 8 v;
          v = v OR drop_bit 16 v;
          v = v OR drop_bit 32 v
      in v + 1)"

definition clz_power_2 :: "64 word \<Rightarrow> int" where
  "clz_power_2 v =
     (let lz = 64;
          lz = (if v \<noteq> 0 then lz - 1 else lz);
          lz = (if v AND 0x00000000FFFFFFFF \<noteq> 0 then lz - 32 else lz);
          lz = (if v AND 0x0000FFFF0000FFFF \<noteq> 0 then lz - 16 else lz);
          lz = (if v AND 0x00FF00FF00FF00FF \<noteq> 0 then lz - 8 else lz);
          lz = (if v AND 0x0F0F0F0F0F0F0F0F \<noteq> 0 then lz - 4 else lz);
          lz = (if v AND 0x3333333333333333 \<noteq> 0 then lz - 2 else lz);
          lz = (if v AND 0x5555555555555555 \<noteq> 0 then lz - 1 else lz)
      in lz)"

definition calcluate_max_depth :: "64 word \<Rightarrow> int" where
  "calcluate_max_depth node_count =
     (if node_count = 0 then 0 else clz_power_2 (next_power_of_2 node_count) + 1)"

record incremental_merkle =
  node_count :: "64 word"
  active_nodes :: "sha256 list"

definition empty_merkle :: incremental_merkle where
  "empty_merkle = \<lparr>node_count = 0, active_nodes = []\<rparr>"

text \<open>
  The collapse loop: \<open>active\<close> is what \<open>active_iter\<close> has still to read; reading
  past its end is undefined.
\<close>

fun append_loop ::
    "digest_hash \<Rightarrow> nat \<Rightarrow> 64 word \<Rightarrow> sha256 \<Rightarrow> bool \<Rightarrow> sha256 list \<Rightarrow> sha256 list
      \<Rightarrow> (sha256 \<times> sha256 list) result" where
  "append_loop hash 0 index top_node partial active updated = Inr (top_node, updated)"
| "append_loop hash (Suc current_depth) index top_node partial active updated =
     (if index AND 1 = 0 then
        let updated = (if \<not> partial then updated @ [top_node] else updated);
            top_node = hash_pair hash top_node top_node
        in append_loop hash current_depth (drop_bit 1 index) top_node True active updated
      else
        (case active of
           [] \<Rightarrow> Inl undefined_behaviour
         | left_value # active' \<Rightarrow>
             let updated = (if partial then updated @ [left_value] else updated);
                 top_node = hash_pair hash left_value top_node
             in append_loop hash current_depth (drop_bit 1 index) top_node partial active' updated))"

definition append_node ::
    "digest_hash \<Rightarrow> sha256 \<Rightarrow> incremental_merkle \<Rightarrow> incremental_merkle result" where
  "append_node hash digest m =
     (let max_depth = calcluate_max_depth (node_count m + 1);
          current_depth = max_depth - 1;
          index = node_count m
      in bind_r (append_loop hash (nat current_depth) index digest False (active_nodes m) [])
           (\<lambda>(top_node, updated).
              Inr (m\<lparr>active_nodes := updated @ [top_node], node_count := node_count m + 1\<rparr>)))"

definition get_root :: "incremental_merkle \<Rightarrow> sha256 result" where
  "get_root m =
     (if node_count m > 0
      then (if active_nodes m = [] then Inl undefined_behaviour else Inr (last (active_nodes m)))
      else Inr null_digest)"

definition append_all ::
    "digest_hash \<Rightarrow> sha256 list \<Rightarrow> incremental_merkle \<Rightarrow> incremental_merkle result" where
  "append_all hash ds m = fold_r (append_node hash) ds m"

section \<open>One level of the tree\<close>

fun pair_up :: "digest_hash \<Rightarrow> sha256 list \<Rightarrow> sha256 list" where
  "pair_up hash [] = []"
| "pair_up hash [x] = [hash_pair hash x x]"
| "pair_up hash (x # y # xs) = hash_pair hash x y # pair_up hash xs"

fun pair_full :: "digest_hash \<Rightarrow> sha256 list \<Rightarrow> sha256 list" where
  "pair_full hash (x # y # xs) = hash_pair hash x y # pair_full hash xs"
| "pair_full hash _ = []"

lemma length_pair_up [simp]: "length (pair_up hash xs) = (length xs + 1) div 2"
  by (induction hash xs rule: pair_up.induct) simp_all

lemma length_pair_full [simp]: "length (pair_full hash xs) = length xs div 2"
  by (induction hash xs rule: pair_full.induct) simp_all

lemma nth_pair_full:
  "i < length xs div 2 \<Longrightarrow> pair_full hash xs ! i = hash_pair hash (xs ! (2 * i)) (xs ! (2 * i + 1))"
proof (induction hash xs arbitrary: i rule: pair_full.induct)
  case (1 hash x y xs)
  then show ?case by (cases i) simp_all
qed simp_all

lemma pair_full_snoc:
  "even (length xs) \<Longrightarrow> pair_full hash (xs @ [x]) = pair_full hash xs"
  "even (length xs) \<Longrightarrow> pair_full hash (xs @ [x, y]) = pair_full hash xs @ [hash_pair hash x y]"
  by (induction hash xs rule: pair_full.induct) simp_all

lemma pair_up_snoc:
  "even (length xs) \<Longrightarrow> pair_up hash (xs @ [x]) = pair_full hash xs @ [hash_pair hash x x]"
  "even (length xs) \<Longrightarrow> pair_up hash (xs @ [x, y]) = pair_full hash xs @ [hash_pair hash x y]"
  by (induction hash xs rule: pair_full.induct) simp_all

text \<open>The in-place loop computes the pairing.\<close>

lemma pair_loop_eq:
  assumes "n \<le> length ids div 2" and "i \<le> n" and "n \<le> 2 ^ 30"
  shows "pair_loop hash i n ids =
    Inr (take i ids @ take (n - i) (drop i (pair_full hash ids)) @ drop n ids)"
  using assms
proof (induction hash i n ids rule: pair_loop.induct)
  case (1 hash i n ids)
  show ?case
  proof (cases "i < n")
    case True
    let ?x = "hash_pair hash (ids ! (2 * i)) (ids ! (2 * i + 1))"
    let ?ids = "ids[i := ?x]"
    have il: "i < length ids" using True 1(2) by simp
    have nx: "pair_full hash ids ! i = ?x" using True 1(2) by (intro nth_pair_full) simp
    have same: "drop (i + 1) (pair_full hash ?ids) = drop (i + 1) (pair_full hash ids)"
      using 1(2) by (intro nth_equalityI) (auto simp: nth_pair_full)
    have small: "\<not> 2 ^ 31 \<le> 2 * i + 1" using True 1(4) by simp
    have "pair_loop hash i n ids = pair_loop hash (i + 1) n ?ids"
      using True small by (subst pair_loop.simps) simp
    also have "\<dots> = Inr (take (i + 1) ?ids @ take (n - (i + 1)) (drop (i + 1) (pair_full hash ?ids)) @ drop n ?ids)"
      using 1 True small by simp
    also have "take (i + 1) ?ids @ take (n - (i + 1)) (drop (i + 1) (pair_full hash ?ids)) @ drop n ?ids
      = take i ids @ (?x # take (n - (i + 1)) (drop (i + 1) (pair_full hash ids))) @ drop n ids"
      using True il by (simp only: same) (simp add: take_Suc_conv_app_nth)
    also have "?x # take (n - (i + 1)) (drop (i + 1) (pair_full hash ids)) = take (n - i) (drop i (pair_full hash ids))"
    proof -
      have "i < length (pair_full hash ids)" using True 1(2) by simp
      then have "drop i (pair_full hash ids) = ?x # drop (i + 1) (pair_full hash ids)"
        using nx by (metis Cons_nth_drop_Suc Suc_eq_plus1)
      then show ?thesis using True by (simp add: take_Cons')
    qed
    finally show ?thesis .
  next
    case False
    then show ?thesis using 1(3) by (subst pair_loop.simps) simp
  qed
qed

lemma merkle_step_pair_up:
  assumes "length ids \<le> 2 ^ 31"
  shows "merkle_step hash ids = Inr (pair_up hash ids)"
proof (cases "even (length ids)")
  case True
  have "pair_up hash xs = pair_full hash xs" if "even (length xs)" for xs
    using that by (induction hash xs rule: pair_full.induct) simp_all
  then show ?thesis
    using True assms by (simp add: merkle_step_def Let_def odd_iff_mod_2_eq_one pair_loop_eq)
next
  case False
  then obtain zs l where ids: "ids = zs @ [l]" "even (length zs)"
    by (cases ids rule: rev_cases) simp_all
  then have "pair_full hash (ids @ [last ids]) = pair_up hash ids"
    by (simp add: pair_full_snoc pair_up_snoc)
  moreover have "length ids \<noteq> 2 ^ 31" using False by (metis even_power even_numeral zero_less_numeral)
  ultimately show ?thesis
    using False assms by (simp add: merkle_step_def Let_def odd_iff_mod_2_eq_one pair_loop_eq)
qed

text \<open>Beyond \<open>2^31\<close> leaves the index overflows.\<close>

lemma pair_loop_overflow: "2 ^ 30 < n \<Longrightarrow> i \<le> 2 ^ 30 \<Longrightarrow> pair_loop hash i n ids = Inl undefined_behaviour"
proof (induction hash i n ids rule: pair_loop.induct)
  case (1 hash i n ids)
  then show ?case by (cases "i = 2 ^ 30") (subst pair_loop.simps, simp)+
qed

lemma merkle_step_overflow: "2 ^ 31 < length ids \<Longrightarrow> merkle_step hash ids = Inl undefined_behaviour"
proof -
  assume "2 ^ 31 < length ids"
  then have "2 ^ 30 < length ids div 2 \<or> odd (length ids) \<and> 2 ^ 30 < (length ids + 1) div 2" by auto
  then show ?thesis by (auto simp: merkle_step_def Let_def odd_iff_mod_2_eq_one pair_loop_overflow)
qed

text \<open>The root as a function of the leaves, without a bound.\<close>

function batch_root :: "digest_hash \<Rightarrow> sha256 list \<Rightarrow> sha256" where
  "batch_root hash ids =
     (if length ids > 1 then batch_root hash (pair_up hash ids) else if ids = [] then null_digest else hd ids)"
  by pat_completeness auto
termination by (relation "measure (\<lambda>(_, ids). length ids)") auto

declare batch_root.simps [simp del]

lemma merkle_exact: "merkle hash ids = (if length ids \<le> 2 ^ 31 then Inr (batch_root hash ids) else Inl undefined_behaviour)"
proof -
  have "merkle_loop hash ids = Inr (batch_root hash ids)" if "length ids \<le> 2 ^ 31" "ids \<noteq> []" for ids
    using that
  proof (induction hash ids rule: batch_root.induct)
    case (1 hash ids)
    then show ?case
      by (subst merkle_loop.simps, subst batch_root.simps) (auto simp: merkle_step_pair_up simp flip: length_greater_0_conv)
  qed
  moreover have "merkle_loop hash ids = Inl undefined_behaviour" if "2 ^ 31 < length ids"
    using that by (subst merkle_loop.simps) (simp add: merkle_step_overflow)
  ultimately show ?thesis by (auto simp: merkle_def batch_root.simps [of hash "[]"])
qed

fun collapse :: "digest_hash \<Rightarrow> nat \<Rightarrow> sha256 list \<Rightarrow> sha256" where
  "collapse hash 0 xs = hd xs"
| "collapse hash (Suc d) xs = collapse hash d (pair_up hash xs)"

text \<open>\<open>is_depth d n\<close>: a tree over \<open>n\<close> leaves has \<open>d\<close> levels above them.\<close>

definition is_depth :: "nat \<Rightarrow> nat \<Rightarrow> bool" where
  "is_depth d n \<longleftrightarrow> 0 < n \<and> n \<le> 2 ^ d \<and> (d = 0 \<or> 2 ^ (d - 1) < n)"

lemma is_depth_half: "is_depth (Suc d) n \<Longrightarrow> 1 < n \<and> is_depth d ((n + 1) div 2)"
  by (cases d) (auto simp: is_depth_def)

lemma batch_root_collapse:
  assumes "is_depth d (length xs)"
  shows "batch_root hash xs = collapse hash d xs"
  using assms
proof (induction d arbitrary: xs)
  case 0
  then show ?case by (subst batch_root.simps) (auto simp: is_depth_def)
next
  case (Suc d)
  from is_depth_half [OF Suc.prems]
  show ?case using Suc.IH [of "pair_up hash xs"] by (subst batch_root.simps) simp
qed

section \<open>The depth computation\<close>

text \<open>\<open>smears k v w\<close>: bit \<open>i\<close> of \<open>w\<close> says whether \<open>v\<close> has a bit among \<open>i, ..., i + k - 1\<close>.\<close>

definition smears :: "nat \<Rightarrow> 64 word \<Rightarrow> 64 word \<Rightarrow> bool" where
  "smears k v w \<longleftrightarrow> (\<forall>i. bit w i \<longleftrightarrow> (\<exists>j<k. bit v (i + j)))"

lemma smears_double:
  assumes "smears k v w"
  shows "smears (2 * k) v (w OR drop_bit k w)"
  unfolding smears_def
proof
  fix i
  have "bit (w OR drop_bit k w) i \<longleftrightarrow> (\<exists>j<k. bit v (i + j)) \<or> (\<exists>j<k. bit v (i + k + j))"
    using assms by (simp add: bit_simps smears_def add.commute)
  also have "\<dots> \<longleftrightarrow> (\<exists>j<2 * k. bit v (i + j))" (is "?A \<or> ?B \<longleftrightarrow> ?C")
  proof
    assume "?A \<or> ?B"
    then show ?C
    proof
      assume ?A
      then obtain j where "j < k" and "bit v (i + j)" by blast
      then show ?C by (intro exI [of _ j]) simp
    next
      assume ?B
      then obtain j where "j < k" and "bit v (i + (k + j))" by (auto simp: add.assoc)
      then show ?C by (intro exI [of _ "k + j"]) simp
    qed
  next
    assume ?C
    then obtain j where j: "j < 2 * k" "bit v (i + j)" by blast
    show "?A \<or> ?B"
    proof (cases "j < k")
      case False
      then have "j - k < k" and "i + k + (j - k) = i + j" using j by auto
      then show ?thesis using j(2) by metis
    qed (use j in blast)
  qed
  finally show "bit (w OR drop_bit k w) i \<longleftrightarrow> (\<exists>j<2 * k. bit v (i + j))" .
qed

lemma next_power_of_2_mask:
  assumes "smears 64 (value0 - 1) w"
  shows "next_power_of_2 value0 = w + 1"
proof -
  let ?v = "value0 - 1"
  define a1 where "a1 = ?v OR drop_bit 1 ?v"
  define a2 where "a2 = a1 OR drop_bit 2 a1"
  define a3 where "a3 = a2 OR drop_bit 4 a2"
  define a4 where "a4 = a3 OR drop_bit 8 a3"
  define a5 where "a5 = a4 OR drop_bit 16 a4"
  define a6 where "a6 = a5 OR drop_bit 32 a5"
  have "smears 1 ?v ?v" by (simp add: smears_def)
  note s1 = smears_double [OF this, folded a1_def, simplified mult_1_right]
  note s2 = smears_double [OF s1, simplified, folded a2_def]
  note s3 = smears_double [OF s2, simplified, folded a3_def]
  note s4 = smears_double [OF s3, simplified, folded a4_def]
  note s5 = smears_double [OF s4, simplified, folded a5_def]
  note s6 = smears_double [OF s5, simplified, folded a6_def]
  have "a6 = w" using s6 assms by (intro bit_word_eqI) (simp add: smears_def)
  moreover have "next_power_of_2 value0 = a6 + 1"
    by (simp add: next_power_of_2_def Let_def a1_def a2_def a3_def a4_def a5_def a6_def)
  ultimately show ?thesis by simp
qed

lemma smears_mask:
  fixes v :: "64 word"
  assumes "d \<le> 64" and "unat v < 2 ^ d" and "d = 0 \<or> 2 ^ (d - 1) \<le> unat v"
  shows "smears 64 v (mask d)"
  unfolding smears_def
proof
  fix i
  have vd: "take_bit d v = v"
    using assms(2) by (simp add: word_unat_eq_iff unsigned_take_bit_eq take_bit_nat_eq_self)
  then have high: "d \<le> n \<Longrightarrow> \<not> bit v n" for n
    by (metis bit_take_bit_iff linorder_not_less)
  show "bit (mask d :: 64 word) i \<longleftrightarrow> (\<exists>j<64. bit v (i + j))"
  proof (cases "i < d")
    case True
    have "unat v div 2 ^ (d - 1) = 1"
    proof -
      have "2 ^ d = 2 * (2 :: nat) ^ (d - 1)" using True by (cases d) simp_all
      then show ?thesis using assms(2,3) True
        by (intro div_nat_eqI) simp_all
    qed
    then have "bit (unat v) (d - 1)" by (simp add: bit_iff_odd)
    then have "bit v (i + (d - 1 - i))" using True by (simp add: bit_unsigned_iff)
    moreover have "d - 1 - i < 64" using True assms(1) by simp
    ultimately show ?thesis using True assms(1) by (auto simp: bit_mask_iff)
  next
    case False
    then show ?thesis using high by (auto simp: bit_mask_iff)
  qed
qed

lemma exp_and_eq_0: "(2 ^ d AND (m :: 64 word) = 0) \<longleftrightarrow> \<not> (d < 64 \<and> bit m d)"
proof -
  have "2 ^ d AND m = (if bit m d then 2 ^ d else 0)"
    by (rule bit_word_eqI) (auto simp: bit_simps)
  moreover have "(2 ^ d :: 64 word) = 0 \<longleftrightarrow> \<not> d < 64"
    by (simp add: exp_eq_zero_iff not_less)
  ultimately show ?thesis by auto
qed

lemma clz_power_2_exp:
  assumes "d < 64"
  shows "clz_power_2 (2 ^ d) = int d"
proof -
  let ?f = "\<lambda>d. (63 :: int) - (if bit (0x00000000FFFFFFFF :: 64 word) d then 32 else 0)
    - (if bit (0x0000FFFF0000FFFF :: 64 word) d then 16 else 0)
    - (if bit (0x00FF00FF00FF00FF :: 64 word) d then 8 else 0)
    - (if bit (0x0F0F0F0F0F0F0F0F :: 64 word) d then 4 else 0)
    - (if bit (0x3333333333333333 :: 64 word) d then 2 else 0)
    - (if bit (0x5555555555555555 :: 64 word) d then 1 else 0)"
  have "\<forall>d\<in>set [0..<64]. ?f d = int d" by code_simp
  then have f: "?f d = int d" using assms by simp
  have sub: "(if c then x - k else x) = x - (if c then k else 0)" for c and x k :: int by simp
  have nz: "(2 ^ d :: 64 word) \<noteq> 0" using assms by (simp add: exp_eq_zero_iff)
  have "clz_power_2 (2 ^ d) = ?f d"
    unfolding clz_power_2_def Let_def sub exp_and_eq_0 using assms nz
    by (simp only: not_not if_True simp_thms)
  then show ?thesis using f by simp
qed

lemma unat_of_nat_small: "n < 2 ^ 64 \<Longrightarrow> unat (of_nat n :: 64 word) = n"
  by (simp add: unsigned_of_nat take_bit_nat_eq_self)

lemma calcluate_max_depth_is_depth:
  assumes "is_depth d n" and "d < 64"
  shows "calcluate_max_depth (of_nat n) = int d + 1"
proof -
  have pow: "(2 :: nat) ^ d \<le> 2 ^ 63" using assms(2) by (intro power_increasing) simp_all
  have n: "0 < n" "n \<le> 2 ^ d" "d = 0 \<or> 2 ^ (d - 1) < n" using assms(1) by (auto simp: is_depth_def)
  have n64: "n < 2 ^ 64" using n(2) pow by simp
  have "of_nat n - (1 :: 64 word) = of_nat (n - 1)" using n(1) by (cases n) simp_all
  then have un: "unat (of_nat n - 1 :: 64 word) = n - 1"
    using n64 unat_of_nat_small [of "n - 1"] by simp
  have "smears 64 (of_nat n - 1) (mask d)"
    using n assms(2) by (intro smears_mask) (auto simp: un)
  then have "next_power_of_2 (of_nat n) = mask d + 1" by (rule next_power_of_2_mask)
  also have "\<dots> = 2 ^ d" by (simp add: mask_eq_exp_minus_1)
  finally have "next_power_of_2 (of_nat n) = 2 ^ d" .
  moreover have "(of_nat n :: 64 word) \<noteq> 0"
    using n(1) unat_of_nat_small [OF n64] by (metis unat_0 less_irrefl)
  ultimately show ?thesis
    using clz_power_2_exp [OF assms(2)] by (simp add: calcluate_max_depth_def)
qed

lemma is_depth_exists: "0 < n \<Longrightarrow> \<exists>d. is_depth d n"
proof -
  assume n: "0 < n"
  let ?d = "LEAST d. n \<le> 2 ^ d"
  have "n \<le> 2 ^ n" by (rule less_imp_le [OF less_exp])
  then have a: "n \<le> 2 ^ ?d" by (rule LeastI)
  have "2 ^ (?d - 1) < n" if "?d \<noteq> 0"
    using not_less_Least [of "?d - 1" "\<lambda>d. n \<le> 2 ^ d"] that by force
  then show ?thesis using n a by (auto simp: is_depth_def)
qed

lemma is_depth_bound: "is_depth d n \<Longrightarrow> n \<le> 2 ^ 63 \<Longrightarrow> d < 64"
proof (rule ccontr)
  assume a: "is_depth d n" "n \<le> 2 ^ 63" "\<not> d < 64"
  then have "(2 :: nat) ^ 63 \<le> 2 ^ (d - 1)" by (intro power_increasing) simp_all
  then show False using a by (auto simp: is_depth_def)
qed

section \<open>The active nodes\<close>

text \<open>
  The left nodes a further append has to read, bottom up: at every level with an odd number of
  complete nodes, the last one.
\<close>

function pending :: "digest_hash \<Rightarrow> sha256 list \<Rightarrow> sha256 list" where
  "pending hash xs =
     (if xs = [] then []
      else (if odd (length xs) then [last xs] else []) @ pending hash (pair_full hash xs))"
  by pat_completeness auto
termination by (relation "measure (\<lambda>(_, xs). length xs)") auto

declare pending.simps [simp del]

lemma pending_Nil [simp]: "pending hash [] = []"
  by (simp add: pending.simps)

lemma pending_even: "even (length xs) \<Longrightarrow> pending hash xs = pending hash (pair_full hash xs)"
  by (cases "xs = []") (simp_all add: pending.simps [of hash xs])

lemma pending_snoc: "even (length xs) \<Longrightarrow> pending hash (xs @ [x]) = x # pending hash (pair_full hash xs)"
  by (simp add: pending.simps [of hash "xs @ [x]"] pair_full_snoc)

lemma index_bit: "n < 2 ^ 64 \<Longrightarrow> (of_nat n :: 64 word) AND 1 = 0 \<longleftrightarrow> even n"
proof -
  assume "n < 2 ^ 64"
  have "(of_nat n :: 64 word) AND 1 = of_bool (odd n)"
    by (simp add: and_one_eq mod_2_eq_odd)
  then show ?thesis by simp
qed

lemma index_shift:
  assumes "n < 2 ^ 64"
  shows "drop_bit (Suc 0) (of_nat n :: 64 word) = of_nat (n div 2)"
proof -
  have "n div 2 < 2 ^ 64" using assms by simp
  then show ?thesis
    using assms by (simp add: word_unat_eq_iff drop_bit_eq_div unat_div unat_of_nat_small)
qed

lemma exp_le_64: "d < 64 \<Longrightarrow> n < (2 :: nat) ^ d \<Longrightarrow> n < 2 ^ 64"
  by (erule less_le_trans) (intro power_increasing, simp_all)

text \<open>Collapsing from a partial node copies exactly the pending nodes.\<close>

lemma append_loop_partial:
  assumes "length zs < 2 ^ d" and "d < 64"
  shows "append_loop hash d (of_nat (length zs)) t True (pending hash zs @ rest) upd =
    Inr (collapse hash d (zs @ [t]), upd @ pending hash zs)"
  using assms
proof (induction d arbitrary: zs t upd)
  case 0
  then show ?case by simp
next
  case (Suc d)
  have n: "length zs < 2 ^ 64" by (rule exp_le_64 [OF Suc.prems(2,1)])
  note idx = index_bit [OF n] index_shift [OF n]
  have half: "length (pair_full hash zs) < 2 ^ d" "d < 64" using Suc.prems by auto
  show ?case
  proof (cases "even (length zs)")
    case True
    then show ?thesis
      using Suc.IH [OF half, of "hash_pair hash t t" upd]
      by (simp add: idx pending_even [of zs] pair_up_snoc)
  next
    case False
    then obtain ys l where zs: "zs = ys @ [l]" "even (length ys)"
      by (cases zs rule: rev_cases) simp_all
    have odd: "(1 + word_of_nat (length ys) :: 64 word) AND 1 \<noteq> 0"
      "drop_bit (Suc 0) (1 + word_of_nat (length ys) :: 64 word) = word_of_nat (length ys div 2)"
      using idx False zs(2) by (simp_all add: zs(1))
    have "(length ys + 1) div 2 = length ys div 2" using zs(2) by auto
    then show ?thesis
      using False zs half(2) Suc.prems
        Suc.IH [of "pair_full hash ys" "hash_pair hash l t" "upd @ [l]"]
      by (simp add: odd pending_snoc pair_up_snoc)
  qed
qed

text \<open>
  Collapsing from the complete new leaf: the result is what the next append needs, unless the
  tree became a full one, when only the root is pending.
\<close>

lemma append_loop_complete:
  assumes "length zs < 2 ^ d" and "d < 64"
  shows "append_loop hash d (of_nat (length zs)) t False (pending hash zs @ rest) upd =
      Inr (collapse hash d (zs @ [t]), upd @ (if length zs + 1 = 2 ^ d then [] else pending hash (zs @ [t])))
    \<and> (length zs + 1 = 2 ^ d \<longrightarrow> pending hash (zs @ [t]) = [collapse hash d (zs @ [t])])"
  using assms
proof (induction d arbitrary: zs t)
  case 0
  then show ?case by (simp add: pending.simps)
next
  case (Suc d)
  have n: "length zs < 2 ^ 64" by (rule exp_le_64 [OF Suc.prems(2,1)])
  note idx = index_bit [OF n] index_shift [OF n]
  have half: "length (pair_full hash zs) < 2 ^ d" "d < 64" using Suc.prems by auto
  show ?case
  proof (cases "even (length zs)")
    case True
    then have "length zs + 1 \<noteq> 2 ^ Suc d" by (metis even_Suc even_mult_iff even_numeral Suc_eq_plus1 power_Suc)
    then show ?thesis
      using True append_loop_partial [OF half, of hash "hash_pair hash t t" rest "upd @ [t]"]
      by (simp add: idx pending_even [of zs] pending_snoc pair_up_snoc)
  next
    case False
    then obtain ys l where zs: "zs = ys @ [l]" "even (length ys)"
      by (cases zs rule: rev_cases) simp_all
    have odd: "(1 + word_of_nat (length ys) :: 64 word) AND 1 \<noteq> 0"
      "drop_bit (Suc 0) (1 + word_of_nat (length ys) :: 64 word) = word_of_nat (length ys div 2)"
      using idx False zs(2) by (simp_all add: zs(1))
    have h: "(length ys + 1) div 2 = length ys div 2" using zs(2) by auto
    have full: "length ys + 2 = 2 * 2 ^ d \<longleftrightarrow> length ys div 2 + 1 = 2 ^ d" using zs(2) by presburger
    have p: "pending hash (ys @ [l, t]) = pending hash (pair_full hash ys @ [hash_pair hash l t])"
      using zs(2) by (simp add: pending_even [of "ys @ [l, t]"] pair_full_snoc)
    have len: "length (pair_full hash ys) < 2 ^ d" using half(1) zs h by simp
    show ?thesis
      using False zs half(2) h full p Suc.IH [OF len, of "hash_pair hash l t"]
      by (simp add: odd pending_snoc pair_up_snoc)
  qed
qed

section \<open>The incremental tree holds the batch root\<close>

definition represents :: "digest_hash \<Rightarrow> sha256 list \<Rightarrow> incremental_merkle \<Rightarrow> bool" where
  "represents hash xs m \<longleftrightarrow>
     node_count m = of_nat (length xs) \<and>
     (\<exists>rest. active_nodes m = pending hash xs @ rest) \<and>
     (xs \<noteq> [] \<longrightarrow> active_nodes m \<noteq> [] \<and> last (active_nodes m) = batch_root hash xs)"

lemma represents_empty: "represents hash [] empty_merkle"
  by (simp add: represents_def empty_merkle_def)

lemma append_node_represents:
  assumes "represents hash xs m" and "length xs < 2 ^ 63"
  shows "\<exists>m'. append_node hash x m = Inr m' \<and> represents hash (xs @ [x]) m'"
proof -
  obtain d where d: "is_depth d (length xs + 1)" using is_depth_exists [of "length xs + 1"] by auto
  have d64: "d < 64" using is_depth_bound [OF d] assms(2) by simp
  have less: "length xs < 2 ^ d" using d by (simp add: is_depth_def)
  obtain rest where act: "active_nodes m = pending hash xs @ rest" and nc: "node_count m = of_nat (length xs)"
    using assms(1) by (auto simp: represents_def)
  have "calcluate_max_depth (node_count m + 1) = int d + 1"
    using calcluate_max_depth_is_depth [OF d d64] by (simp add: nc add.commute)
  moreover note app = append_loop_complete [OF less d64, of hash x rest "[]"]
  have root: "batch_root hash (xs @ [x]) = collapse hash d (xs @ [x])"
    using d by (intro batch_root_collapse) simp
  show ?thesis
    using app calculation
    by (auto simp: append_node_def act nc represents_def root add.commute)
qed

lemma append_all_represents:
  "represents hash xs m \<Longrightarrow> length xs + length ys \<le> 2 ^ 63 \<Longrightarrow>
     \<exists>m'. append_all hash ys m = Inr m' \<and> represents hash (xs @ ys) m'"
proof (induction ys arbitrary: xs m)
  case Nil
  then show ?case by (auto simp: append_all_def)
next
  case (Cons y ys)
  obtain m1 where "append_node hash y m = Inr m1" and r: "represents hash (xs @ [y]) m1"
    using append_node_represents [OF Cons.prems(1), of y] Cons.prems(2) by auto
  then show ?case using Cons.IH [OF r] Cons.prems(2) by (simp add: append_all_def)
qed

lemma represents_get_root:
  assumes "represents hash xs m" and "length xs \<le> 2 ^ 63"
  shows "get_root m = Inr (batch_root hash xs)"
proof (cases "xs = []")
  case True
  then show ?thesis using assms by (simp add: get_root_def represents_def batch_root.simps [of hash "[]"])
next
  case False
  have "unat (of_nat (length xs) :: 64 word) = length xs"
    using assms(2) by (intro unat_of_nat_small) simp
  then have "(of_nat (length xs) :: 64 word) > 0"
    using False by (metis length_0_conv unat_0 word_gt_0)
  then show ?thesis using assms(1) False by (simp add: get_root_def represents_def)
qed

text \<open>
  C1. Appending any list of at most \<open>2^63\<close> digests to an empty incremental tree succeeds
  (it never dereferences the active-node iterator past its end) and the tree reports a root; up to \<open>2^31\<close> leaves
  this root is the one that the batch function computes for the whole list, and with more leaves the batch
  function overflows the index of its loop.
\<close>

theorem incremental_root_eq_merkle:
  assumes "length ds \<le> 2 ^ 63"
  shows "\<exists>m r. append_all hash ds empty_merkle = Inr m \<and> get_root m = Inr r \<and> unat (node_count m) = length ds
    \<and> merkle hash ds = (if length ds \<le> 2 ^ 31 then Inr r else Inl undefined_behaviour)"
proof -
  obtain m where m: "append_all hash ds empty_merkle = Inr m" and r: "represents hash ds m"
    using append_all_represents [OF represents_empty [of hash], of ds] assms by auto
  have "unat (node_count m) = length ds"
    using r assms by (simp add: represents_def unat_of_nat_small)
  then show ?thesis using m represents_get_root [OF r assms] merkle_exact by blast
qed

definition sample_leaves :: "sha256 list" where
  "sample_leaves = map (\<lambda>i. null_digest\<lparr>hash1 := i\<rparr>) [1, 2, 3, 4, 5]"

definition sample_hash :: digest_hash where
  "sample_hash = (\<lambda>(l, r). \<lparr>hash0 = hash0 l + 3 * hash0 r, hash1 = hash1 l + 5 * hash1 r + 1,
     hash2 = hash1 l XOR hash1 r, hash3 = hash3 l\<rparr>)"

theorem incremental_root_eq_merkle_witness:
  "length sample_leaves \<le> 2 ^ 63 \<and>
   (\<exists>m r. append_all sample_hash sample_leaves empty_merkle = Inr m \<and>
      get_root m = Inr r \<and> merkle sample_hash sample_leaves = Inr r \<and> unat (node_count m) = 5)"
proof -
  have l: "length sample_leaves \<le> 2 ^ 63" "length sample_leaves \<le> 2 ^ 31" "length sample_leaves = 5" by (simp_all add: sample_leaves_def)
  show ?thesis using l incremental_root_eq_merkle [OF l(1), of sample_hash] by auto
qed

section \<open>What a root commits to\<close>

fun pair_inputs :: "sha256 list \<Rightarrow> (sha256 \<times> sha256) list" where
  "pair_inputs [] = []"
| "pair_inputs [x] = [make_canonical_pair x x]"
| "pair_inputs (x # y # xs) = make_canonical_pair x y # pair_inputs xs"

lemma pair_up_inputs: "pair_up hash xs = map hash (pair_inputs xs)"
  by (induction xs rule: pair_inputs.induct) simp_all

text \<open>Every pair \<open>merkle\<close> hashes.\<close>

function hash_inputs :: "digest_hash \<Rightarrow> sha256 list \<Rightarrow> (sha256 \<times> sha256) set" where
  "hash_inputs hash xs =
     (if length xs > 1 then set (pair_inputs xs) \<union> hash_inputs hash (pair_up hash xs) else {})"
  by pat_completeness auto
termination by (relation "measure (\<lambda>(_, xs). length xs)") auto

declare hash_inputs.simps [simp del]

lemma canonical_right_left:
  assumes "make_canonical_right x = make_canonical_right y"
  shows "make_canonical_left x = make_canonical_left y"
proof -
  have "hash0 x OR 0x80 = hash0 y OR 0x80"
    and rest: "hash1 x = hash1 y" "hash2 x = hash2 y" "hash3 x = hash3 y"
    using assms by (cases x; cases y; simp add: make_canonical_right_def)+
  then have "(hash0 x OR 0x80) AND 0xFFFFFFFFFFFFFF7F = (hash0 y OR 0x80) AND 0xFFFFFFFFFFFFFF7F"
    by simp
  then have "hash0 x AND 0xFFFFFFFFFFFFFF7F = hash0 y AND 0xFFFFFFFFFFFFFF7F"
    by (simp add: bit.conj_disj_distrib2)
  then show ?thesis using rest by (simp add: make_canonical_left_def)
qed

lemma pair_inputs_inj:
  "pair_inputs xs = pair_inputs ys \<Longrightarrow> length xs = length ys \<Longrightarrow>
     map make_canonical_left xs = map make_canonical_left ys"
proof (induction xs arbitrary: ys rule: pair_inputs.induct)
  case (2 x)
  then show ?case
    by (cases ys rule: pair_inputs.cases) (simp_all add: make_canonical_pair_def)
next
  case (3 x y xs)
  then obtain x' y' ys' where ys: "ys = x' # y' # ys'"
    by (cases ys rule: pair_inputs.cases) simp_all
  show ?case
    using 3 by (auto simp: ys make_canonical_pair_def dest: canonical_right_left)
qed simp

lemma batch_root_binding:
  assumes "inj_on (\<lambda>p. make_canonical_left (hash p)) (hash_inputs hash xs \<union> hash_inputs hash ys)"
    and "length xs = length ys" and "0 < length xs"
    and "make_canonical_left (batch_root hash xs) = make_canonical_left (batch_root hash ys)"
  shows "map make_canonical_left xs = map make_canonical_left ys"
  using assms
proof (induction hash xs arbitrary: ys rule: batch_root.induct)
  case (1 hash xs)
  show ?case
  proof (cases "length xs > 1")
    case True
    have in_x: "hash_inputs hash xs = set (pair_inputs xs) \<union> hash_inputs hash (pair_up hash xs)"
      and in_y: "hash_inputs hash ys = set (pair_inputs ys) \<union> hash_inputs hash (pair_up hash ys)"
      using True 1(3) by (simp_all add: hash_inputs.simps [of hash xs] hash_inputs.simps [of hash ys])
    have "map make_canonical_left (pair_up hash xs) = map make_canonical_left (pair_up hash ys)"
    proof (rule 1(1) [OF True])
      show "make_canonical_left (batch_root hash (pair_up hash xs))
          = make_canonical_left (batch_root hash (pair_up hash ys))"
        using 1(5) 1(3) True by (simp add: batch_root.simps [of hash xs] batch_root.simps [of hash ys])
    qed (use 1(2,3) True in \<open>auto simp: in_x in_y intro: inj_on_subset\<close>)
    then have "map (\<lambda>p. make_canonical_left (hash p)) (pair_inputs xs)
        = map (\<lambda>p. make_canonical_left (hash p)) (pair_inputs ys)"
      by (simp add: pair_up_inputs comp_def)
    moreover have "inj_on (\<lambda>p. make_canonical_left (hash p)) (set (pair_inputs xs) \<union> set (pair_inputs ys))"
      using 1(2) by (rule inj_on_subset) (auto simp: in_x in_y)
    ultimately have "pair_inputs xs = pair_inputs ys" by (rule map_inj_on)
    then show ?thesis using 1(3) by (rule pair_inputs_inj)
  next
    case False
    then obtain x y where "xs = [x]" "ys = [y]"
      using 1(3,4) by (cases xs; cases ys) auto
    then show ?thesis using 1(5) by (simp add: batch_root.simps)
  qed
qed

text \<open>
  C38. A Merkle root commits to its leaves: if the pair hash, read without the side bit of its
  first word, has no collision among the pairs two computations hash, then two lists of the same
  length for which the batch function returns the same root agree in every leaf up to that bit.
\<close>

theorem merkle_binding:
  assumes "inj_on (\<lambda>p. make_canonical_left (hash p)) (hash_inputs hash xs \<union> hash_inputs hash ys)"
    and "length xs = length ys" and "merkle hash xs = Inr r" and "merkle hash ys = Inr r"
  shows "map make_canonical_left xs = map make_canonical_left ys"
proof (cases "xs = []")
  case False
  have "batch_root hash xs = batch_root hash ys" using assms(3,4) by (simp add: merkle_exact split: if_splits)
  then show ?thesis using False by (intro batch_root_binding [OF assms(1,2)]) simp_all
qed (use assms(2) in simp)

text \<open>Four leaves, and the same four with the side bits of the second and third flipped: three different pairs are hashed.\<close>

definition side_leaves :: "64 word \<Rightarrow> sha256 list" where
  "side_leaves side = [null_digest\<lparr>hash1 := 1\<rparr>, \<lparr>hash0 = side, hash1 = 2, hash2 = 0, hash3 = 0\<rparr>,
     \<lparr>hash0 = side, hash1 = 3, hash2 = 0, hash3 = 0\<rparr>, null_digest\<lparr>hash1 := 4\<rparr>]"

definition side_pairs :: "(sha256 \<times> sha256) list" where
  "side_pairs = pair_inputs (side_leaves 0) @ pair_inputs (pair_up sample_hash (side_leaves 0))"

lemma side_pairs_inputs: "hash_inputs sample_hash (side_leaves 0) = set side_pairs" "hash_inputs sample_hash (side_leaves 0x80) = set side_pairs"
proof -
  have same: "pair_inputs (side_leaves 0x80) = pair_inputs (side_leaves 0)" by code_simp
  have up: "pair_up sample_hash (side_leaves s) = map sample_hash (pair_inputs (side_leaves s))" for s by (rule pair_up_inputs)
  have two: "hash_inputs sample_hash (pair_up sample_hash (side_leaves s)) = set (pair_inputs (pair_up sample_hash (side_leaves s)))" for s
    by (simp add: side_leaves_def hash_inputs.simps)
  have "hash_inputs sample_hash (side_leaves s) = set (pair_inputs (side_leaves s)) \<union> hash_inputs sample_hash (pair_up sample_hash (side_leaves s))" for s
    by (simp add: hash_inputs.simps [of _ "side_leaves s"]) (simp add: side_leaves_def)
  then have "hash_inputs sample_hash (side_leaves s) = set (pair_inputs (side_leaves s)) \<union> set (pair_inputs (pair_up sample_hash (side_leaves s)))" for s
    by (simp only: two)
  then show "hash_inputs sample_hash (side_leaves 0) = set side_pairs" "hash_inputs sample_hash (side_leaves 0x80) = set side_pairs"
    by (simp_all only: up side_pairs_def same set_append)
qed

theorem merkle_binding_witness:
  "inj_on (\<lambda>p. make_canonical_left (sample_hash p)) (hash_inputs sample_hash (side_leaves 0) \<union> hash_inputs sample_hash (side_leaves 0x80)) \<and>
   card (hash_inputs sample_hash (side_leaves 0) \<union> hash_inputs sample_hash (side_leaves 0x80)) = 3 \<and> side_leaves 0 \<noteq> side_leaves 0x80 \<and>
   (\<exists>r. merkle sample_hash (side_leaves 0) = Inr r \<and> merkle sample_hash (side_leaves 0x80) = Inr r) \<and>
   map make_canonical_left (side_leaves 0) = map make_canonical_left (side_leaves 0x80)"
proof -
  have "distinct (map (\<lambda>p. make_canonical_left (sample_hash p)) side_pairs)" by code_simp
  then have inj: "inj_on (\<lambda>p. make_canonical_left (sample_hash p)) (set side_pairs)" and "distinct side_pairs"
    by (simp_all add: distinct_map)
  then have card: "card (set side_pairs) = 3" by (simp add: distinct_card) (simp add: side_pairs_def side_leaves_def)
  have "pair_inputs (side_leaves 0x80) = pair_inputs (side_leaves 0)" by code_simp
  then have "pair_up sample_hash (side_leaves 0x80) = pair_up sample_hash (side_leaves 0)" by (simp only: pair_up_inputs)
  moreover have "length (side_leaves s) = 4" for s by (simp add: side_leaves_def)
  ultimately have m: "merkle sample_hash (side_leaves 0) = Inr (batch_root sample_hash (side_leaves 0))"
    "merkle sample_hash (side_leaves 0x80) = Inr (batch_root sample_hash (side_leaves 0))"
    by (simp_all add: merkle_exact batch_root.simps [of _ "side_leaves _"])
  have diff: "side_leaves 0 \<noteq> side_leaves 0x80" by (simp add: side_leaves_def)
  have inj': "inj_on (\<lambda>p. make_canonical_left (sample_hash p)) (hash_inputs sample_hash (side_leaves 0) \<union> hash_inputs sample_hash (side_leaves 0x80))"
    using inj by (simp add: side_pairs_inputs)
  have "map make_canonical_left (side_leaves 0) = map make_canonical_left (side_leaves 0x80)"
    by (rule merkle_binding [OF inj' _ m]) (simp add: side_leaves_def)
  then show ?thesis using inj' card diff m by (auto simp: side_pairs_inputs)
qed

text \<open>Lists of different lengths can share a root: an odd level is completed by its last node.\<close>

lemma merkle_duplicate_tail:
  assumes "even (length xs)" and "xs \<noteq> []" and "length xs < 2 ^ 31"
  shows "merkle hash (xs @ [x, x]) = merkle hash (xs @ [x])"
proof -
  have "length xs + 2 \<le> 2 ^ 31" using assms(1,3) by (cases "length xs + 1 = 2 ^ 31") auto
  then show ?thesis
    using assms(1,2)
    by (simp add: merkle_exact batch_root.simps [of hash "xs @ [x, x]"] batch_root.simps [of hash "xs @ [x]"] pair_up_snoc)
qed

lemma canonical_sides:
  "is_canonical_left (make_canonical_left v)" "is_canonical_right (make_canonical_right v)"
  "is_canonical_right v \<longleftrightarrow> \<not> is_canonical_left v"
  by (simp_all add: is_canonical_left_def is_canonical_right_def make_canonical_left_def
      make_canonical_right_def and.assoc bit.conj_disj_distrib2)

end
