(* ===== verification/Usage.thy ===== *)
theory Usage
  imports Prelude
begin

text \<open>
  The arithmetic of the rate limiter
  (\<^verbatim>\<open>libraries/chain/include/eosio/chain/resource_limits_private.hpp\<close>,
  \<^verbatim>\<open>resource_limits_private_xos.hpp\<close> and the head of
  \<^verbatim>\<open>libraries/chain/resource_limits.cpp\<close>): ratios, the exponential moving average, the
  elastic limit and the per-day counter.  Unsigned values are \<open>nat\<close>; every place where the
  C++ can wrap is reduced by \<open>u64\<close> or \<open>u128\<close>, and a division by zero is
  \<open>undefined_behaviour\<close>.
\<close>

section \<open>Ratios and casts\<close>

record ratio =
  numerator :: nat
  denominator :: nat

definition ratio_mult :: "nat \<Rightarrow> ratio \<Rightarrow> nat result" where
  "ratio_mult v r =
     bind_r (eos_assert (numerator r = 0 \<or> uint64_max div numerator r \<ge> v)
               rate_limiting_state_inconsistent) (\<lambda>_.
     if denominator r = 0 then Inl undefined_behaviour
     else Inr (u64 (v * numerator r) div denominator r))"

definition integer_divide_ceil :: "nat \<Rightarrow> nat \<Rightarrow> nat result" where
  "integer_divide_ceil num den =
     (if den = 0 then Inl undefined_behaviour
      else Inr (num div den + (if num mod den > 0 then 1 else 0)))"

text \<open>\<open>downgrade_cast<uint64_t>\<close> and \<open>downgrade_cast<int64_t>\<close> of a 128-bit unsigned value.\<close>

definition downgrade_cast_u64 :: "nat \<Rightarrow> nat result" where
  "downgrade_cast_u64 v =
     bind_r (eos_assert (v \<le> uint64_max) rate_limiting_state_inconsistent) (\<lambda>_. Inr v)"

definition downgrade_cast_s64 :: "nat \<Rightarrow> int result" where
  "downgrade_cast_s64 v =
     bind_r (eos_assert (v \<le> 2 ^ 63 - 1) rate_limiting_state_inconsistent) (\<lambda>_. Inr (int v))"

section \<open>The exponential moving average\<close>

definition rate_limiting_precision :: nat where
  "rate_limiting_precision = 1000 * 1000"

definition max_raw_value :: nat where
  "max_raw_value = uint64_max div rate_limiting_precision"

record usage_accumulator =
  last_ordinal :: nat
  value_ex :: nat
  consumed :: nat

definition empty_usage :: usage_accumulator where
  "empty_usage = \<lparr>last_ordinal = 0, value_ex = 0, consumed = 0\<rparr>"

definition average :: "usage_accumulator \<Rightarrow> nat result" where
  "average u = integer_divide_ceil (value_ex u) rate_limiting_precision"

definition usage_add :: "nat \<Rightarrow> nat \<Rightarrow> nat \<Rightarrow> usage_accumulator \<Rightarrow> usage_accumulator result" where
  "usage_add units ordinal window_size u =
     bind_r (eos_assert (units \<le> max_raw_value) rate_limiting_state_inconsistent) (\<lambda>_.
     bind_r (eos_assert (uint64_max - consumed u \<ge> units) rate_limiting_state_inconsistent) (\<lambda>_.
     bind_r (integer_divide_ceil (u128 (units * rate_limiting_precision)) window_size) (\<lambda>q.
     bind_r (downgrade_cast_u64 q) (\<lambda>value_ex_contrib.
     bind_r (eos_assert (uint64_max - value_ex u \<ge> value_ex_contrib)
               rate_limiting_state_inconsistent) (\<lambda>_.
     bind_r
       (if last_ordinal u \<noteq> ordinal then
          bind_r (eos_assert (ordinal > last_ordinal u) resource_limit_exception) (\<lambda>_.
          bind_r (if u64 (last_ordinal u + window_size) > ordinal then
                    ratio_mult (value_ex u)
                      \<lparr>numerator = window_size - (ordinal - last_ordinal u), denominator = window_size\<rparr>
                  else Inr 0) (\<lambda>v.
          let u = u\<lparr>value_ex := v, last_ordinal := ordinal\<rparr> in
          bind_r (average u) (\<lambda>a. Inr (u\<lparr>consumed := a\<rparr>))))
        else Inr u) (\<lambda>u.
     Inr (u\<lparr>consumed := u64 (consumed u + units), value_ex := u64 (value_ex u + value_ex_contrib)\<rparr>)))))))"

section \<open>The elastic limit\<close>

record elastic_limit_parameters =
  target :: nat
  max_limit :: nat
  periods :: nat
  max_multiplier :: nat
  contract_rate :: ratio
  expand_rate :: ratio

definition validate_parameters :: "elastic_limit_parameters \<Rightarrow> unit result" where
  "validate_parameters p =
     bind_r (eos_assert (periods p > 0) resource_limit_exception) (\<lambda>_.
     bind_r (eos_assert (denominator (contract_rate p) > 0) resource_limit_exception) (\<lambda>_.
     eos_assert (denominator (expand_rate p) > 0) resource_limit_exception))"

definition update_elastic_limit :: "nat \<Rightarrow> nat \<Rightarrow> elastic_limit_parameters \<Rightarrow> nat result" where
  "update_elastic_limit current_limit average_usage params =
     bind_r (if average_usage > target params then ratio_mult current_limit (contract_rate params)
             else ratio_mult current_limit (expand_rate params)) (\<lambda>res.
     Inr (min (max res (max_limit params)) (u64 (max_limit params * max_multiplier params))))"

section \<open>The per-day counter\<close>

text \<open>
  \<open>add\<close> reads the wall clock twice: \<open>now1\<close> and \<open>now2\<close> are the two readings in
  microseconds since the epoch.
\<close>

record usage_per_day_accumulator =
  current_time :: int
  current_day :: nat
  usage_per_day :: nat

definition empty_per_day :: usage_per_day_accumulator where
  "empty_per_day = \<lparr>current_time = 0, current_day = 0, usage_per_day = 0\<rparr>"

definition seconds_of_day :: nat where "seconds_of_day = 24 * 60 * 60"

definition sec_since_epoch :: "int \<Rightarrow> nat" where
  "sec_since_epoch t = u32 (nat (t div 1000000))"

definition per_day_add ::
    "int \<Rightarrow> int \<Rightarrow> nat \<Rightarrow> usage_per_day_accumulator \<Rightarrow> usage_per_day_accumulator result" where
  "per_day_add now1 now2 units u =
     bind_r (eos_assert (now1 > current_time u) resource_limit_exception) (\<lambda>_.
     let u = u\<lparr>current_time := now1\<rparr>;
         currentday = sec_since_epoch now2 div seconds_of_day * seconds_of_day;
         u = (if current_day u \<noteq> currentday
              then u\<lparr>current_day := currentday, usage_per_day := 0\<rparr> else u)
     in Inr (u\<lparr>usage_per_day := u64 (usage_per_day u + units)\<rparr>))"

definition per_day_validate :: "nat \<Rightarrow> int \<Rightarrow> usage_per_day_accumulator \<Rightarrow> int" where
  "per_day_validate threshold weight u = (if usage_per_day u \<le> threshold then - 1 else weight)"

section \<open>Well-formed values\<close>

definition usage_ok :: "usage_accumulator \<Rightarrow> bool" where
  "usage_ok u \<longleftrightarrow> last_ordinal u < 2 ^ 32 \<and> value_ex u < 2 ^ 64 \<and> consumed u < 2 ^ 64"

lemma usage_ok_empty [simp]: "usage_ok empty_usage"
  by (simp add: usage_ok_def empty_usage_def)

definition ceil_div :: "nat \<Rightarrow> nat \<Rightarrow> nat" where
  "ceil_div a b = (a + b - 1) div b"

lemma integer_divide_ceil_eq: "0 < b \<Longrightarrow> integer_divide_ceil a b = Inr (ceil_div a b)"
proof -
  assume b: "0 < b"
  have "a div b + (if a mod b > 0 then 1 else 0) = (a + b - 1) div b"
  proof (cases "a mod b = 0")
    case True
    then obtain q where a: "a = b * q" by (auto simp: mod_eq_0_iff_dvd elim: dvdE)
    have "a + b - 1 = (b - 1) + b * q" using a b by simp
    then have "(a + b - 1) div b = q" using b by (simp only: div_mult_self2) simp
    then show ?thesis using a b by simp
  next
    case False
    define q r where "q = a div b" and "r = a mod b"
    have a: "a = q * b + r" unfolding q_def r_def by (rule div_mult_mod_eq [symmetric])
    have r: "0 < r" "r < b" using False b by (simp_all add: r_def)
    have "(a + b - 1) div b = q + 1"
      using r by (intro div_nat_eqI) (simp_all add: a algebra_simps)
    then have "(a + b - 1) div b = a div b + 1" by (simp add: q_def)
    then show ?thesis using False by simp
  qed
  then show ?thesis using b by (simp add: integer_divide_ceil_def ceil_div_def)
qed

lemma ceil_div_le: "0 < b \<Longrightarrow> a \<le> m * b \<Longrightarrow> ceil_div a b \<le> m"
proof -
  assume b: "0 < b" and a: "a \<le> m * b"
  have "a + b - 1 < (m + 1) * b" using a b by simp
  then show ?thesis using b by (simp add: ceil_div_def less_mult_imp_div_less flip: less_Suc_eq_le)
qed

lemma ceil_div_mult_less: "0 < b \<Longrightarrow> ceil_div a b * b < a + b"
proof -
  assume b: "0 < b"
  have "(a + b - 1) div b * b \<le> a + b - 1" by (rule div_times_less_eq_dividend)
  also have "\<dots> < a + b" using b by simp
  finally show ?thesis by (simp add: ceil_div_def)
qed

lemma u64_mult_ratio:
  assumes "numerator r = 0 \<or> v \<le> uint64_max div numerator r"
  shows "u64 (v * numerator r) = v * numerator r"
proof (cases "numerator r = 0")
  case False
  then have "v * numerator r \<le> uint64_max"
    using assms by (simp add: less_eq_div_iff_mult_less_eq)
  then show ?thesis by simp
qed simp

section \<open>The moving average is exact\<close>

text \<open>The decayed value a new period starts from.\<close>

definition decayed :: "usage_accumulator \<Rightarrow> nat \<Rightarrow> nat \<Rightarrow> nat" where
  "decayed u ordinal w =
     (if ordinal = last_ordinal u then value_ex u
      else if last_ordinal u + w > ordinal
      then value_ex u * (w - (ordinal - last_ordinal u)) div w else 0)"

lemma decayed_le: "0 < w \<Longrightarrow> decayed u ordinal w \<le> value_ex u"
proof -
  assume "0 < w"
  have "value_ex u * (w - (ordinal - last_ordinal u)) \<le> value_ex u * w" by simp
  then have "value_ex u * (w - (ordinal - last_ordinal u)) div w \<le> value_ex u * w div w"
    by (rule div_le_mono)
  then show ?thesis using \<open>0 < w\<close> by (simp add: decayed_def)
qed

definition decay_fits :: "usage_accumulator \<Rightarrow> nat \<Rightarrow> nat \<Rightarrow> bool" where
  "decay_fits u ordinal w \<longleftrightarrow>
     (last_ordinal u < ordinal \<and> ordinal < last_ordinal u + w \<longrightarrow>
        value_ex u * (w - (ordinal - last_ordinal u)) < 2 ^ 64)"

lemma ratio_mult_eq:
  assumes "0 < denominator r" and "0 < numerator r"
  shows "ratio_mult v r = (if v * numerator r < 2 ^ 64 then Inr (v * numerator r div denominator r)
    else Inl rate_limiting_state_inconsistent)"
proof -
  have "uint64_max div numerator r \<ge> v \<longleftrightarrow> v * numerator r < 2 ^ 64"
    using assms(2) by (auto simp: less_eq_div_iff_mult_less_eq)
  then show ?thesis using assms by (simp add: ratio_mult_def eos_assert_def)
qed

lemma average_eq: "average u = Inr (ceil_div (value_ex u) rate_limiting_precision)"
  unfolding average_def by (rule integer_divide_ceil_eq) (simp add: rate_limiting_precision_def)

lemma average_small: "v < 2 ^ 64 \<Longrightarrow> ceil_div v rate_limiting_precision \<le> 2 ^ 45"
  by (rule ceil_div_le) (simp_all add: rate_limiting_precision_def)

lemma usage_add_spec:
  assumes "usage_ok u" and "ordinal < 2 ^ 32" and "0 < w" and "w < 2 ^ 32" and "units < 2 ^ 64"
  shows "usage_add units ordinal w u =
    (let contrib = ceil_div (units * rate_limiting_precision) w in
     if max_raw_value < units \<or> 2 ^ 64 \<le> consumed u + units \<or> 2 ^ 64 \<le> value_ex u + contrib
     then Inl rate_limiting_state_inconsistent
     else if ordinal < last_ordinal u then Inl resource_limit_exception
     else if \<not> decay_fits u ordinal w then Inl rate_limiting_state_inconsistent
     else let v = decayed u ordinal w in
       Inr \<lparr>last_ordinal = ordinal, value_ex = v + contrib,
         consumed = (if ordinal = last_ordinal u then consumed u
                     else ceil_div v rate_limiting_precision) + units\<rparr>)"
proof (cases "units \<le> max_raw_value \<and> consumed u + units < 2 ^ 64 \<and>
    value_ex u + ceil_div (units * rate_limiting_precision) w < 2 ^ 64")
  case False
  let ?q = "ceil_div (units * rate_limiting_precision) w"
  have p: "units * rate_limiting_precision < 2 ^ 128"
    using assms(5) by (simp add: rate_limiting_precision_def)
  have "uint64_max - consumed u \<ge> units \<longleftrightarrow> consumed u + units < 2 ^ 64"
    and "?q \<le> uint64_max \<and> uint64_max - value_ex u \<ge> ?q \<longleftrightarrow> value_ex u + ?q < 2 ^ 64"
    using assms(1) by (auto simp: usage_ok_def)
  then show ?thesis
    using False assms(3) p
    by (auto simp: usage_add_def integer_divide_ceil_eq downgrade_cast_u64_def eos_assert_def)
next
  case True
  let ?q = "ceil_div (units * rate_limiting_precision) w"
  have p: "units * rate_limiting_precision < 2 ^ 128"
    using assms(5) by (simp add: rate_limiting_precision_def)
  have c: "uint64_max - consumed u \<ge> units" "?q \<le> uint64_max" "uint64_max - value_ex u \<ge> ?q"
    using assms(1) True by (auto simp: usage_ok_def)
  have small: "units \<le> 2 ^ 45"
    using True by (simp add: max_raw_value_def rate_limiting_precision_def)
  show ?thesis
  proof (cases "last_ordinal u = ordinal")
    case True': True
    then show ?thesis
      using True c p assms(3)
      by (simp add: usage_add_def integer_divide_ceil_eq downgrade_cast_u64_def decay_fits_def
          decayed_def Let_def)
  next
    case False
    have v: "decayed u ordinal w + ?q < 2 ^ 64"
      using True decayed_le [OF assms(3), of u ordinal] by linarith
    then have "ceil_div (decayed u ordinal w) rate_limiting_precision \<le> 2 ^ 45"
      by (intro average_small) linarith
    then have a: "ceil_div (decayed u ordinal w) rate_limiting_precision + units < 2 ^ 64"
      using small by simp
    have s: "u64 (last_ordinal u + w) = last_ordinal u + w"
      using assms(1,4) by (simp add: usage_ok_def)
    show ?thesis
      using True c p assms(3) False v a s
      by (auto simp: usage_add_def integer_divide_ceil_eq downgrade_cast_u64_def decay_fits_def
          decayed_def Let_def ratio_mult_eq average_eq eos_assert_def)
  qed
qed

text \<open>
  C36. Adding usage to a moving average computes exactly the documented average: on 64-bit fields
  and a positive window it never wraps and never divides by zero; it throws exactly when the
  usage, the tracked consumption, the extended value or the decay product do not fit 64 bits, or
  when time runs backwards; otherwise the old value decays linearly over the window and the new
  contribution, rounded up, is added.
\<close>

theorem usage_add_exact:
  assumes "usage_ok u" and "ordinal < 2 ^ 32" and "0 < w" and "w < 2 ^ 32" and "units < 2 ^ 64"
  shows "usage_add units ordinal w u =
    (let contrib = ceil_div (units * rate_limiting_precision) w in
     if max_raw_value < units \<or> 2 ^ 64 \<le> consumed u + units \<or> 2 ^ 64 \<le> value_ex u + contrib
     then Inl rate_limiting_state_inconsistent
     else if ordinal < last_ordinal u then Inl resource_limit_exception
     else if \<not> decay_fits u ordinal w then Inl rate_limiting_state_inconsistent
     else let v = decayed u ordinal w in
       Inr \<lparr>last_ordinal = ordinal, value_ex = v + contrib,
         consumed = (if ordinal = last_ordinal u then consumed u
                     else ceil_div v rate_limiting_precision) + units\<rparr>)"
  by (rule usage_add_spec [OF assms])

theorem usage_add_exact_witness:
  "usage_add 300 15 10 \<lparr>last_ordinal = 10, value_ex = 4000000, consumed = 7\<rparr> =
     Inr \<lparr>last_ordinal = 15, value_ex = 32000000, consumed = 302\<rparr>"
proof -
  let ?u = "\<lparr>last_ordinal = 10, value_ex = 4000000, consumed = 7\<rparr>"
  have ok: "usage_ok ?u" by (simp add: usage_ok_def)
  show ?thesis
    by (subst usage_add_exact [OF ok])
      (simp_all add: ceil_div_def decayed_def decay_fits_def max_raw_value_def
        rate_limiting_precision_def Let_def)
qed

lemma usage_add_ok:
  assumes "usage_add units ordinal w u = Inr u'" and "usage_ok u" and "ordinal < 2 ^ 32"
    and "0 < w" and "w < 2 ^ 32" and "units < 2 ^ 64"
  shows "usage_ok u'" and "value_ex u' = decayed u ordinal w + ceil_div (units * rate_limiting_precision) w"
    and "last_ordinal u' = ordinal" and "last_ordinal u \<le> ordinal" and "units \<le> max_raw_value"
proof -
  let ?q = "ceil_div (units * rate_limiting_precision) w"
  have spec: "units \<le> max_raw_value" "consumed u + units < 2 ^ 64" "value_ex u + ?q < 2 ^ 64"
    "last_ordinal u \<le> ordinal"
    and u': "u' = \<lparr>last_ordinal = ordinal, value_ex = decayed u ordinal w + ?q,
      consumed = (if ordinal = last_ordinal u then consumed u
        else ceil_div (decayed u ordinal w) rate_limiting_precision) + units\<rparr>"
    using assms(1) unfolding usage_add_spec [OF assms(2-6)]
    by (auto simp: Let_def split: if_splits)
  have v: "decayed u ordinal w + ?q < 2 ^ 64"
    using spec(3) decayed_le [OF assms(4), of u ordinal] by linarith
  then have "ceil_div (decayed u ordinal w) rate_limiting_precision \<le> 2 ^ 45"
    by (intro average_small) linarith
  moreover have "units \<le> 2 ^ 45"
    using spec(1) by (simp add: max_raw_value_def rate_limiting_precision_def)
  ultimately show "usage_ok u'"
    using v spec(2) assms(3) by (simp add: u' usage_ok_def)
  show "value_ex u' = decayed u ordinal w + ?q" "last_ordinal u' = ordinal"
    by (simp_all add: u')
  show "last_ordinal u \<le> ordinal" "units \<le> max_raw_value" by (fact spec)+
qed

text \<open>One usage of at most \<open>m\<close> per period keeps the extended value below its fixed point.\<close>

lemma decay_bound:
  fixes v w d m p :: nat
  assumes "v \<le> m * p + w" and "0 < d" and "d \<le> w"
  shows "v * (w - d) div w + ceil_div (m * p) w \<le> m * p + w"
proof -
  let ?a = "v * (w - d) div w" and ?b = "ceil_div (m * p) w"
  have w: "0 < w" using assms by simp
  have "?a * w \<le> v * (w - d)" by (rule div_times_less_eq_dividend)
  also have "\<dots> \<le> (m * p + w) * (w - 1)" using assms by (intro mult_mono) simp_all
  finally have a: "?a * w \<le> (m * p + w) * (w - 1)" .
  have b: "?b * w < m * p + w" by (rule ceil_div_mult_less [OF w])
  have "(?a + ?b) * w < (m * p + w) * (w - 1) + (m * p + w)"
    using a b by (simp add: distrib_right)
  also have "\<dots> = (m * p + w) * w"
    using w by (cases w) (simp_all add: algebra_simps)
  finally show ?thesis using w by simp
qed

text \<open>A run of one usage per period, at increasing ordinals.\<close>

fun usage_run :: "nat \<Rightarrow> (nat \<times> nat) list \<Rightarrow> usage_accumulator \<Rightarrow> usage_accumulator result" where
  "usage_run w [] u = Inr u"
| "usage_run w ((ordinal, units) # rest) u =
     bind_r (usage_add units ordinal w u) (usage_run w rest)"

lemma usage_run_bound:
  assumes "usage_run w xs u = Inr u'" and "usage_ok u" and "0 < w" and "w < 2 ^ 32"
    and "\<forall>(ordinal, units)\<in>set xs. ordinal < 2 ^ 32 \<and> units \<le> m"
    and "sorted_wrt (<) (last_ordinal u # map fst xs)"
    and "value_ex u \<le> m * rate_limiting_precision + w" and "m < 2 ^ 64"
  shows "usage_ok u' \<and> value_ex u' \<le> m * rate_limiting_precision + w"
  using assms
proof (induction xs arbitrary: u)
  case Nil
  then show ?case by simp
next
  case (Cons x xs)
  obtain ordinal units where x: "x = (ordinal, units)" by (cases x)
  obtain u1 where add: "usage_add units ordinal w u = Inr u1" and run: "usage_run w xs u1 = Inr u'"
    using Cons.prems(1) by (auto simp: x result_simps)
  have b: "ordinal < 2 ^ 32" "units \<le> m" "last_ordinal u < ordinal" "units < 2 ^ 64"
    using Cons.prems(5,6,8) by (auto simp: x)
  note ok = usage_add_ok [OF add Cons.prems(2) b(1) Cons.prems(3,4) b(4)]
  let ?p = rate_limiting_precision
  have "ceil_div (units * ?p) w \<le> ceil_div (m * ?p) w"
    unfolding ceil_div_def by (intro div_le_mono diff_le_mono add_right_mono mult_right_mono b(2)) simp
  moreover have "decayed u ordinal w + ceil_div (m * ?p) w \<le> m * ?p + w"
  proof (cases "ordinal < last_ordinal u + w")
    case True
    then show ?thesis
      using decay_bound [OF Cons.prems(7), of "ordinal - last_ordinal u"] b(3) by (simp add: decayed_def)
  next
    case False
    then show ?thesis
      using decay_bound [OF Cons.prems(7), of w] b(3) Cons.prems(3) by (simp add: decayed_def)
  qed
  ultimately have "value_ex u1 \<le> m * ?p + w" by (simp add: ok(2))
  moreover have "sorted_wrt (<) (last_ordinal u1 # map fst xs)"
    using Cons.prems(6) by (simp add: x ok(3))
  ultimately show ?case
    using Cons.IH [OF run ok(1) Cons.prems(3,4)] Cons.prems(5,8) by simp
qed

text \<open>
  The average never drifts above what is used: an account (or block) that uses at most
  \<open>m\<close> units in every period has an average of at most \<open>m + 1\<close>, however long it runs, for every
  window up to the precision of one million periods.
\<close>

theorem average_bounded_by_usage:
  assumes "usage_run w xs empty_usage = Inr u" and "0 < w" and "w \<le> rate_limiting_precision"
    and "\<forall>(ordinal, units)\<in>set xs. ordinal < 2 ^ 32 \<and> units \<le> m"
    and "sorted_wrt (<) (0 # map fst xs)" and "m < 2 ^ 64"
  shows "\<exists>a. average u = Inr a \<and> a \<le> m + 1"
proof -
  have "value_ex u \<le> m * rate_limiting_precision + w"
    using usage_run_bound [OF assms(1) _ assms(2) _ assms(4) _ _ assms(6)] assms(3,5)
    by (simp add: empty_usage_def usage_ok_def rate_limiting_precision_def)
  then have "value_ex u \<le> (m + 1) * rate_limiting_precision" using assms(3) by simp
  then have "ceil_div (value_ex u) rate_limiting_precision \<le> m + 1"
    by (intro ceil_div_le) (simp_all add: rate_limiting_precision_def)
  then show ?thesis by (simp add: average_eq)
qed

theorem average_bounded_by_usage_witness:
  "\<exists>u a. usage_run 10 [(3, 500), (4, 400), (9, 500)] empty_usage = Inr u \<and> average u = Inr a \<and> a \<le> 500 + 1"
proof -
  have "\<exists>u. usage_run 10 [(3, 500), (4, 400), (9, 500)] empty_usage = Inr u"
    by (simp add: empty_usage_def usage_add_def integer_divide_ceil_def downgrade_cast_u64_def
        ratio_mult_def average_def eos_assert_def rate_limiting_precision_def max_raw_value_def Let_def)
  then obtain u where u: "usage_run 10 [(3, 500), (4, 400), (9, 500)] empty_usage = Inr u" by blast
  have "\<exists>a. average u = Inr a \<and> a \<le> 500 + 1"
    by (rule average_bounded_by_usage [OF u]) (simp_all add: rate_limiting_precision_def)
  then show ?thesis using u by blast
qed

section \<open>The elastic limit stays in its band and recovers\<close>

text \<open>Parameters the band makes sense for, and whose products fit 64 bits.\<close>

definition elastic_ok :: "elastic_limit_parameters \<Rightarrow> bool" where
  "elastic_ok p \<longleftrightarrow> validate_parameters p = Inr () \<and> 1 \<le> max_multiplier p
     \<and> 0 < numerator (contract_rate p) \<and> numerator (contract_rate p) \<le> denominator (contract_rate p)
     \<and> denominator (expand_rate p) \<le> numerator (expand_rate p)
     \<and> max_limit p * max_multiplier p * numerator (expand_rate p) < 2 ^ 64
     \<and> max_limit p * max_multiplier p * numerator (contract_rate p) < 2 ^ 64"

definition in_band :: "elastic_limit_parameters \<Rightarrow> nat \<Rightarrow> bool" where
  "in_band p l \<longleftrightarrow> max_limit p \<le> l \<and> l \<le> max_limit p * max_multiplier p"

definition active_rate :: "elastic_limit_parameters \<Rightarrow> nat \<Rightarrow> ratio" where
  "active_rate p avg = (if avg > target p then contract_rate p else expand_rate p)"

lemma elastic_okD:
  assumes "elastic_ok p"
  shows "0 < numerator (active_rate p avg)" and "0 < denominator (active_rate p avg)"
    and "max_limit p * max_multiplier p * numerator (active_rate p avg) < 2 ^ 64"
    and "max_limit p * max_multiplier p < 2 ^ 64"
    and "max_limit p \<le> max_limit p * max_multiplier p"
proof -
  have d: "0 < denominator (contract_rate p)" "0 < denominator (expand_rate p)"
    using assms by (auto simp: elastic_ok_def validate_parameters_def result_simps)
  then show n: "0 < numerator (active_rate p avg)" "0 < denominator (active_rate p avg)"
    and b: "max_limit p * max_multiplier p * numerator (active_rate p avg) < 2 ^ 64"
    using assms by (auto simp: elastic_ok_def active_rate_def)
  have "max_limit p * max_multiplier p * 1 \<le> max_limit p * max_multiplier p * numerator (active_rate p avg)"
    using n(1) by (intro mult_left_mono) simp_all
  from le_less_trans [OF this b] show "max_limit p * max_multiplier p < 2 ^ 64" by simp
  show "max_limit p \<le> max_limit p * max_multiplier p" using assms by (simp add: elastic_ok_def)
qed

lemma update_elastic_limit_eq:
  assumes "elastic_ok p" and "in_band p l"
  shows "update_elastic_limit l avg p =
    Inr (min (max (l * numerator (active_rate p avg) div denominator (active_rate p avg)) (max_limit p))
           (max_limit p * max_multiplier p))"
proof -
  note ok = elastic_okD(1-3) [OF assms(1), of avg] elastic_okD(4,5) [OF assms(1)]
  have "l * numerator (active_rate p avg) \<le> max_limit p * max_multiplier p * numerator (active_rate p avg)"
    using assms(2) by (intro mult_right_mono) (simp_all add: in_band_def)
  then have fits: "l * numerator (active_rate p avg) < 2 ^ 64" using ok(3) by linarith
  have "ratio_mult l (active_rate p avg) = Inr (l * numerator (active_rate p avg) div denominator (active_rate p avg))"
    using fits by (simp add: ratio_mult_eq [OF ok(2,1)])
  moreover have "(if avg > target p then ratio_mult l (contract_rate p) else ratio_mult l (expand_rate p))
      = ratio_mult l (active_rate p avg)"
    by (simp add: active_rate_def)
  ultimately show ?thesis using ok(4) by (simp add: update_elastic_limit_def)
qed

text \<open>
  C37. The elastic limit keeps its documented band: from a limit between the floor and the cap,
  an update succeeds and stays between them; it does not grow while the average is above the
  target and does not shrink otherwise.
\<close>

theorem elastic_limit_band:
  assumes "elastic_ok p" and "in_band p l"
  shows "\<exists>l'. update_elastic_limit l avg p = Inr l' \<and> in_band p l'
    \<and> (if avg > target p then l' \<le> l else l \<le> l')"
proof -
  note ok = elastic_okD(1-3) [OF assms(1), of avg] elastic_okD(4,5) [OF assms(1)]
  let ?n = "numerator (active_rate p avg)" and ?d = "denominator (active_rate p avg)"
  have "l * ?n div ?d \<le> l" if "avg > target p"
  proof -
    have "?n \<le> ?d" using that assms(1) by (simp add: active_rate_def elastic_ok_def)
    then have "l * ?n \<le> l * ?d" by simp
    then have "l * ?n div ?d \<le> l * ?d div ?d" by (rule div_le_mono)
    then show ?thesis using ok(2) by simp
  qed
  moreover have "l \<le> l * ?n div ?d" if "\<not> avg > target p"
  proof -
    have "?d \<le> ?n" using that assms(1) by (simp add: active_rate_def elastic_ok_def)
    then have "l * ?d \<le> l * ?n" by simp
    then have "l * ?d div ?d \<le> l * ?n div ?d" by (rule div_le_mono)
    then show ?thesis using ok(2) by simp
  qed
  ultimately show ?thesis
    using assms(2) ok(5) unfolding update_elastic_limit_eq [OF assms] in_band_def by auto
qed

text \<open>The shipped CPU parameters.\<close>

definition EOS_PERCENT :: "nat \<Rightarrow> nat \<Rightarrow> nat" where
  "EOS_PERCENT v percentage = u64 (v * percentage) div 10000"

definition default_cpu_limit_parameters :: elastic_limit_parameters where
  "default_cpu_limit_parameters =
     \<lparr>target = EOS_PERCENT 200000 1000, max_limit = 200000, periods = 60000 div 500,
      max_multiplier = 1000, contract_rate = \<lparr>numerator = 99, denominator = 100\<rparr>,
      expand_rate = \<lparr>numerator = 1000, denominator = 999\<rparr>\<rparr>"

definition default_net_limit_parameters :: elastic_limit_parameters where
  "default_net_limit_parameters =
     \<lparr>target = EOS_PERCENT (1024 * 1024) 1000, max_limit = 1024 * 1024, periods = 60000 div 500,
      max_multiplier = 1000, contract_rate = \<lparr>numerator = 99, denominator = 100\<rparr>,
      expand_rate = \<lparr>numerator = 1000, denominator = 999\<rparr>\<rparr>"

lemma default_parameters_ok:
  "elastic_ok default_cpu_limit_parameters" "elastic_ok default_net_limit_parameters"
  by (simp_all add: elastic_ok_def default_cpu_limit_parameters_def default_net_limit_parameters_def
      validate_parameters_def)

theorem elastic_limit_band_witness:
  "in_band default_cpu_limit_parameters 200000 \<and>
   (\<exists>l'. update_elastic_limit 200000 20001 default_cpu_limit_parameters = Inr l'
      \<and> in_band default_cpu_limit_parameters l' \<and> l' \<le> 200000)"
proof -
  have b: "in_band default_cpu_limit_parameters 200000"
    by (simp add: in_band_def default_cpu_limit_parameters_def)
  have t: "(20001 :: nat) > target default_cpu_limit_parameters"
    by (simp add: default_cpu_limit_parameters_def EOS_PERCENT_def)
  show ?thesis
    using b t elastic_limit_band [OF default_parameters_ok(1) b, of 20001] by auto
qed

text \<open>A run of blocks with the given average usages.\<close>

definition elastic_run :: "elastic_limit_parameters \<Rightarrow> nat list \<Rightarrow> nat \<Rightarrow> nat result" where
  "elastic_run p avgs l = fold_r (\<lambda>avg l. update_elastic_limit l avg p) avgs l"

lemma elastic_run_idle:
  assumes "elastic_ok p" and "denominator (expand_rate p) \<le> max_limit p"
    and "denominator (expand_rate p) < numerator (expand_rate p)" and "in_band p l"
    and "avg \<le> target p" and "max_limit p * max_multiplier p - l \<le> n"
  shows "elastic_run p (replicate n avg) l = Inr (max_limit p * max_multiplier p)"
  using assms(4,6)
proof (induction n arbitrary: l)
  case 0
  then show ?case by (simp add: elastic_run_def in_band_def)
next
  case (Suc n)
  let ?cap = "max_limit p * max_multiplier p"
  let ?n = "numerator (expand_rate p)" and ?d = "denominator (expand_rate p)"
  have d: "0 < ?d" and rate: "active_rate p avg = expand_rate p"
    using elastic_okD(2) [OF assms(1), of avg] assms(5) by (simp_all add: active_rate_def)
  have "l * ?d + ?d \<le> l * ?d + l" using assms(2) Suc.prems(1) by (simp add: in_band_def)
  also have "\<dots> = l * Suc ?d" by simp
  also have "\<dots> \<le> l * ?n" using assms(3) by (intro mult_left_mono) simp_all
  finally have "(l + 1) * ?d \<le> l * ?n" by simp
  then have grow: "l + 1 \<le> l * ?n div ?d" using d by (simp add: less_eq_div_iff_mult_less_eq)
  let ?l = "min (max (l * ?n div ?d) (max_limit p)) ?cap"
  have step: "update_elastic_limit l avg p = Inr ?l"
    using update_elastic_limit_eq [OF assms(1) Suc.prems(1), of avg] by (simp add: rate)
  have "in_band p ?l" using elastic_okD(5) [OF assms(1)] by (simp add: in_band_def)
  moreover have "?cap - ?l \<le> n" using grow Suc.prems(2) by auto
  ultimately have "elastic_run p (replicate n avg) ?l = Inr ?cap" by (rule Suc.IH)
  then show ?case using step by (simp add: elastic_run_def)
qed

text \<open>
  Once usage is at or below the target the limit recovers to its cap in finitely many blocks
  and stays there: the expansion never gets stuck on rounding, provided the floor is at least the
  denominator of the expansion rate.
\<close>

theorem elastic_limit_recovers:
  assumes "elastic_ok p" and "denominator (expand_rate p) \<le> max_limit p"
    and "denominator (expand_rate p) < numerator (expand_rate p)" and "in_band p l"
    and "avg \<le> target p"
  shows "\<exists>n. \<forall>k\<ge>n. elastic_run p (replicate k avg) l = Inr (max_limit p * max_multiplier p)"
proof (intro exI allI impI)
  fix k
  assume "max_limit p * max_multiplier p - l \<le> k"
  then show "elastic_run p (replicate k avg) l = Inr (max_limit p * max_multiplier p)"
    by (rule elastic_run_idle [OF assms])
qed

theorem elastic_limit_recovers_witness:
  "\<exists>n. \<forall>k\<ge>n. elastic_run default_cpu_limit_parameters (replicate k 0) 200000 = Inr 200000000"
proof -
  have b: "in_band default_cpu_limit_parameters 200000"
    by (simp add: in_band_def default_cpu_limit_parameters_def)
  show ?thesis
    using elastic_limit_recovers [OF default_parameters_ok(1) _ _ b, of 0]
    by (simp add: default_cpu_limit_parameters_def)
qed

end
