(* ===== verification/Resources.thy ===== *)
theory Resources
  imports Usage Tables SafeInt
begin

text \<open>
  The resource limits manager (\<^verbatim>\<open>libraries/chain/resource_limits.cpp\<close> and
  \<^verbatim>\<open>resource_limits_xos.cpp\<close>): the tables of per-account limits and usage, the
  block-wide state, and every operation on them.  An operation returns the new database or the
  exception it throws; after a throw the caller's undo session discards what was written, so no
  state is returned.  The readings of the wall clock are the argument \<open>clock\<close>.
\<close>

type_synonym account_name = "64 word"

section \<open>State\<close>

record resource_limits_object =
  owner :: account_name
  pending :: bool
  net_weight :: int
  cpu_weight :: int
  ram_bytes :: int

record resource_usage_object =
  usage_owner :: account_name
  net_usage :: usage_accumulator
  cpu_usage :: usage_accumulator
  ram_usage :: nat

record resource_limits_config_object =
  cpu_limit_parameters :: elastic_limit_parameters
  net_limit_parameters :: elastic_limit_parameters
  account_cpu_usage_average_window :: nat
  account_net_usage_average_window :: nat

record resource_limits_state_object =
  average_block_net_usage :: usage_accumulator
  average_block_cpu_usage :: usage_accumulator
  pending_net_usage :: nat
  pending_cpu_usage :: nat
  total_net_weight :: nat
  total_cpu_weight :: nat
  total_ram_bytes :: nat
  virtual_net_limit :: nat
  virtual_cpu_limit :: nat

record resource_usage_per_day_object =
  day_owner :: account_name
  tx_usage :: usage_per_day_accumulator

record resource_db =
  limits_tbl :: "resource_limits_object list"
  usage_tbl :: "resource_usage_object list"
  config_obj :: "resource_limits_config_object option"
  state_obj :: "resource_limits_state_object option"
  per_day_tbl :: "resource_usage_per_day_object list"
  per_day_config :: "nat option"

definition empty_resource_db :: resource_db where
  "empty_resource_db = \<lparr>limits_tbl = [], usage_tbl = [], config_obj = None, state_obj = None,
     per_day_tbl = [], per_day_config = None\<rparr>"

text \<open>The composite key of the \<open>by_owner\<close> index of the limits.\<close>

definition limits_key :: "resource_limits_object \<Rightarrow> bool \<times> account_name" where
  "limits_key r = (pending r, owner r)"

definition get_config :: "resource_db \<Rightarrow> resource_limits_config_object result" where
  "get_config db = option_to_result out_of_range (config_obj db)"

definition get_state :: "resource_db \<Rightarrow> resource_limits_state_object result" where
  "get_state db = option_to_result out_of_range (state_obj db)"

section \<open>Creation\<close>

definition default_config :: resource_limits_config_object where
  "default_config =
     \<lparr>cpu_limit_parameters = default_cpu_limit_parameters,
      net_limit_parameters = default_net_limit_parameters,
      account_cpu_usage_average_window = 24 * 60 * 60 * 1000 div 500,
      account_net_usage_average_window = 24 * 60 * 60 * 1000 div 500\<rparr>"

definition initialize_database_xos :: "resource_db \<Rightarrow> resource_db" where
  "initialize_database_xos db =
     (case per_day_config db of None \<Rightarrow> db\<lparr>per_day_config := Some 1000\<rparr> | Some _ \<Rightarrow> db)"

text \<open>
  The singletons are read by their first id: creating a second one leaves the one that is read.
\<close>

definition initialize_database :: "resource_db \<Rightarrow> resource_db" where
  "initialize_database db =
     (let db = (case config_obj db of None \<Rightarrow> db\<lparr>config_obj := Some default_config\<rparr> | Some _ \<Rightarrow> db);
          st = \<lparr>average_block_net_usage = empty_usage, average_block_cpu_usage = empty_usage,
                pending_net_usage = 0, pending_cpu_usage = 0, total_net_weight = 0,
                total_cpu_weight = 0, total_ram_bytes = 0,
                virtual_net_limit = max_limit (net_limit_parameters default_config),
                virtual_cpu_limit = max_limit (cpu_limit_parameters default_config)\<rparr>;
          db = (case state_obj db of None \<Rightarrow> db\<lparr>state_obj := Some st\<rparr> | Some _ \<Rightarrow> db)
      in initialize_database_xos db)"

definition initialize_account_xos :: "account_name \<Rightarrow> resource_db \<Rightarrow> resource_db result" where
  "initialize_account_xos account db =
     bind_r (tbl_create day_owner \<lparr>day_owner = account, tx_usage = empty_per_day\<rparr> (per_day_tbl db)) (\<lambda>t.
     Inr (db\<lparr>per_day_tbl := t\<rparr>))"

definition initialize_account :: "account_name \<Rightarrow> resource_db \<Rightarrow> resource_db result" where
  "initialize_account account db =
     bind_r (tbl_create limits_key
               \<lparr>owner = account, pending = False, net_weight = - 1, cpu_weight = - 1, ram_bytes = - 1\<rparr>
               (limits_tbl db)) (\<lambda>t.
     let db = db\<lparr>limits_tbl := t\<rparr> in
     bind_r (tbl_create usage_owner
               \<lparr>usage_owner = account, net_usage = empty_usage, cpu_usage = empty_usage, ram_usage = 0\<rparr>
               (usage_tbl db)) (\<lambda>t.
     initialize_account_xos account (db\<lparr>usage_tbl := t\<rparr>)))"

definition set_block_parameters ::
    "elastic_limit_parameters \<Rightarrow> elastic_limit_parameters \<Rightarrow> resource_db \<Rightarrow> resource_db result" where
  "set_block_parameters cpu net db =
     bind_r (validate_parameters cpu) (\<lambda>_.
     bind_r (validate_parameters net) (\<lambda>_.
     bind_r (get_config db) (\<lambda>c.
     Inr (db\<lparr>config_obj := Some (c\<lparr>cpu_limit_parameters := cpu, net_limit_parameters := net\<rparr>)\<rparr>))))"

definition set_block_parameters_xos :: "nat \<Rightarrow> resource_db \<Rightarrow> resource_db result" where
  "set_block_parameters_xos free_resource_limit_per_day db =
     bind_r (option_to_result out_of_range (per_day_config db)) (\<lambda>_.
     Inr (db\<lparr>per_day_config := Some free_resource_limit_per_day\<rparr>))"

section \<open>Reading limits\<close>

definition get_account_limits :: "account_name \<Rightarrow> resource_db \<Rightarrow> (int \<times> int \<times> int) result" where
  "get_account_limits account db =
     (case tbl_find limits_key (True, account) (limits_tbl db) of
        Some p \<Rightarrow> Inr (ram_bytes p, net_weight p, cpu_weight p)
      | None \<Rightarrow>
          bind_r (tbl_get limits_key (False, account) (limits_tbl db)) (\<lambda>b.
          Inr (ram_bytes b, net_weight b, cpu_weight b)))"

definition check_account_limits_xos ::
    "account_name \<Rightarrow> int \<Rightarrow> int \<Rightarrow> int \<Rightarrow> resource_db \<Rightarrow> (int \<times> int \<times> int) result" where
  "check_account_limits_xos account ram net cpu db =
     bind_r (option_to_result out_of_range (per_day_config db)) (\<lambda>free_limit.
     bind_r (tbl_get day_owner account (per_day_tbl db)) (\<lambda>d.
     Inr (ram, per_day_validate free_limit net (tx_usage d), per_day_validate free_limit cpu (tx_usage d))))"

definition get_account_limits_xos :: "account_name \<Rightarrow> resource_db \<Rightarrow> (int \<times> int \<times> int) result" where
  "get_account_limits_xos account db =
     bind_r (get_account_limits account db) (\<lambda>(ram, net, cpu).
     check_account_limits_xos account ram net cpu db)"

section \<open>Usage\<close>

text \<open>\<open>db.modify\<close> of the usage row of an account by a change that may throw.\<close>

definition modify_usage ::
    "account_name \<Rightarrow> (resource_usage_object \<Rightarrow> resource_usage_object result) \<Rightarrow> resource_db \<Rightarrow> resource_db result" where
  "modify_usage account f db =
     bind_r (tbl_get usage_owner account (usage_tbl db)) (\<lambda>u.
     bind_r (f u) (\<lambda>u'.
     Inr (db\<lparr>usage_tbl := tbl_modify usage_owner account (\<lambda>_. u') (usage_tbl db)\<rparr>)))"

definition add_both :: "nat \<Rightarrow> nat \<Rightarrow> nat \<Rightarrow> resource_limits_config_object \<Rightarrow>
    resource_usage_object \<Rightarrow> resource_usage_object result" where
  "add_both net_units cpu_units time_slot config bu =
     bind_r (usage_add net_units time_slot (account_net_usage_average_window config) (net_usage bu)) (\<lambda>n.
     bind_r (usage_add cpu_units time_slot (account_cpu_usage_average_window config) (cpu_usage bu)) (\<lambda>c.
     Inr (bu\<lparr>net_usage := n, cpu_usage := c\<rparr>)))"

definition update_account_usage :: "account_name list \<Rightarrow> nat \<Rightarrow> resource_db \<Rightarrow> resource_db result" where
  "update_account_usage accounts time_slot db =
     bind_r (get_config db) (\<lambda>config.
     fold_r (\<lambda>a. modify_usage a (add_both 0 0 time_slot config)) accounts db)"

definition add_transaction_usage_xos :: "int \<Rightarrow> int \<Rightarrow> account_name \<Rightarrow> resource_db \<Rightarrow> resource_db result" where
  "add_transaction_usage_xos now1 now2 account db =
     bind_r (tbl_get day_owner account (per_day_tbl db)) (\<lambda>d.
     bind_r (per_day_add now1 now2 1 (tx_usage d)) (\<lambda>t.
     Inr (db\<lparr>per_day_tbl := tbl_modify day_owner account (\<lambda>_. d\<lparr>tx_usage := t\<rparr>) (per_day_tbl db)\<rparr>)))"

text \<open>
  The share of an account: the virtual capacity of the window times its weight over the total, in
  128-bit arithmetic.
\<close>

definition max_user_use :: "nat \<Rightarrow> nat \<Rightarrow> int \<Rightarrow> nat \<Rightarrow> nat" where
  "max_user_use virtual_limit window_size weight total_w =
     u128 (u128 (virtual_limit * window_size) * nat weight) div total_w"

definition used_in_window :: "nat \<Rightarrow> nat \<Rightarrow> nat" where
  "used_in_window v window_size = u128 (v * window_size) div rate_limiting_precision"

definition add_account_usage ::
    "(account_name \<Rightarrow> int \<times> int) \<Rightarrow> nat \<Rightarrow> nat \<Rightarrow> nat \<Rightarrow> resource_limits_state_object \<Rightarrow>
      resource_limits_config_object \<Rightarrow> account_name \<Rightarrow> resource_db \<Rightarrow> resource_db result" where
  "add_account_usage clock cpu_units net_units time_slot state config a db =
     bind_r (tbl_get usage_owner a (usage_tbl db)) (\<lambda>_.
     bind_r (get_account_limits_xos a db) (\<lambda>(unused, net, cpu).
     bind_r (modify_usage a (add_both net_units cpu_units time_slot config) db) (\<lambda>db.
     bind_r (add_transaction_usage_xos (fst (clock a)) (snd (clock a)) a db) (\<lambda>db.
     bind_r (tbl_get usage_owner a (usage_tbl db)) (\<lambda>usage.
     bind_r (if cpu \<ge> 0 \<and> total_cpu_weight state > 0 then
               eos_assert
                 (used_in_window (value_ex (cpu_usage usage)) (account_cpu_usage_average_window config)
                   \<le> max_user_use (virtual_cpu_limit state) (account_cpu_usage_average_window config) cpu
                        (total_cpu_weight state)) tx_cpu_usage_exceeded
             else Inr ()) (\<lambda>_.
     bind_r (if net \<ge> 0 \<and> total_net_weight state > 0 then
               eos_assert
                 (used_in_window (value_ex (net_usage usage)) (account_net_usage_average_window config)
                   \<le> max_user_use (virtual_net_limit state) (account_net_usage_average_window config) net
                        (total_net_weight state)) tx_net_usage_exceeded
             else Inr ()) (\<lambda>_.
     Inr db)))))))"

definition add_transaction_usage ::
    "(account_name \<Rightarrow> int \<times> int) \<Rightarrow> account_name list \<Rightarrow> nat \<Rightarrow> nat \<Rightarrow> nat \<Rightarrow> resource_db \<Rightarrow> resource_db result" where
  "add_transaction_usage clock accounts cpu_units net_units time_slot db =
     bind_r (get_state db) (\<lambda>state.
     bind_r (get_config db) (\<lambda>config.
     bind_r (fold_r (add_account_usage clock cpu_units net_units time_slot state config) accounts db) (\<lambda>db.
     let state = state\<lparr>pending_cpu_usage := u64 (pending_cpu_usage state + cpu_units),
                       pending_net_usage := u64 (pending_net_usage state + net_units)\<rparr>;
         db = db\<lparr>state_obj := Some state\<rparr> in
     bind_r (eos_assert (pending_cpu_usage state \<le> max_limit (cpu_limit_parameters config))
               block_resource_exhausted) (\<lambda>_.
     bind_r (eos_assert (pending_net_usage state \<le> max_limit (net_limit_parameters config))
               block_resource_exhausted) (\<lambda>_.
     Inr db)))))"

section \<open>RAM\<close>

definition add_pending_ram_usage :: "account_name \<Rightarrow> int \<Rightarrow> resource_db \<Rightarrow> resource_db result" where
  "add_pending_ram_usage account ram_delta db =
     (if ram_delta = 0 then Inr db
      else
        bind_r (tbl_get usage_owner account (usage_tbl db)) (\<lambda>usage.
        bind_r (eos_assert (ram_delta \<le> 0 \<or> uint64_max - ram_usage usage \<ge> nat ram_delta)
                  transaction_exception) (\<lambda>_.
        bind_r (if ram_delta = int64_min then Inl undefined_behaviour else Inr ()) (\<lambda>_.
        bind_r (eos_assert (ram_delta \<ge> 0 \<or> ram_usage usage \<ge> nat (- ram_delta))
                  transaction_exception) (\<lambda>_.
        modify_usage account
          (\<lambda>u. Inr (u\<lparr>ram_usage := int_to_u64 (int (ram_usage u) + ram_delta)\<rparr>)) db)))))"

definition verify_account_ram_usage :: "account_name \<Rightarrow> resource_db \<Rightarrow> unit result" where
  "verify_account_ram_usage account db =
     bind_r (get_account_limits account db) (\<lambda>(ram, net, cpu).
     bind_r (tbl_get usage_owner account (usage_tbl db)) (\<lambda>usage.
     if ram \<ge> 0 then eos_assert (int (ram_usage usage) \<le> ram) ram_usage_exceeded else Inr ()))"

definition get_account_ram_usage :: "account_name \<Rightarrow> resource_db \<Rightarrow> int result" where
  "get_account_ram_usage account db =
     bind_r (tbl_get usage_owner account (usage_tbl db)) (\<lambda>u. Inr (s64 (int (ram_usage u))))"

section \<open>Changing limits\<close>

definition set_account_limits ::
    "account_name \<Rightarrow> int \<Rightarrow> int \<Rightarrow> int \<Rightarrow> resource_db \<Rightarrow> (bool \<times> resource_db) result" where
  "set_account_limits account ram net cpu db =
     bind_r
       (case tbl_find limits_key (True, account) (limits_tbl db) of
          Some p \<Rightarrow> Inr (p, limits_tbl db)
        | None \<Rightarrow>
            bind_r (tbl_get limits_key (False, account) (limits_tbl db)) (\<lambda>l.
            let p = l\<lparr>pending := True\<rparr> in
            bind_r (tbl_create limits_key p (limits_tbl db)) (\<lambda>t. Inr (p, t)))) (\<lambda>(limits, t).
     let decreased_limit = ram \<ge> 0 \<and> (ram_bytes limits < 0 \<or> ram < ram_bytes limits);
         t = tbl_modify limits_key (True, account)
               (\<lambda>l. l\<lparr>ram_bytes := ram, net_weight := net, cpu_weight := cpu\<rparr>) t
     in Inr (decreased_limit, db\<lparr>limits_tbl := t\<rparr>))"

text \<open>One total and one value: revert the old value, apply the new one.\<close>

definition update_state_and_value :: "nat \<Rightarrow> int \<Rightarrow> int \<Rightarrow> (nat \<times> int) result" where
  "update_state_and_value total_w v pending_value =
     bind_r (if v > 0 then
               bind_r (eos_assert (total_w \<ge> nat v) rate_limiting_state_inconsistent) (\<lambda>_.
               Inr (total_w - nat v))
             else Inr total_w) (\<lambda>total_w.
     bind_r (if pending_value > 0 then
               bind_r (eos_assert (uint64_max - total_w \<ge> nat pending_value)
                         rate_limiting_state_inconsistent) (\<lambda>_.
               Inr (total_w + nat pending_value))
             else Inr total_w) (\<lambda>total_w.
     Inr (total_w, pending_value)))"

text \<open>The first pending row in the order of the \<open>by_owner\<close> index.\<close>

definition first_pending :: "resource_limits_object list \<Rightarrow> resource_limits_object option" where
  "first_pending rows =
     (if filter pending rows = [] then None
      else tbl_find limits_key (True, Min (owner ` set (filter pending rows))) rows)"

definition apply_pending :: "resource_limits_object \<Rightarrow> resource_limits_state_object \<Rightarrow>
    resource_limits_object \<Rightarrow> (resource_limits_state_object \<times> resource_limits_object) result" where
  "apply_pending p rso rlo =
     bind_r (update_state_and_value (total_ram_bytes rso) (ram_bytes rlo) (ram_bytes p)) (\<lambda>(tr, r).
     bind_r (update_state_and_value (total_cpu_weight rso) (cpu_weight rlo) (cpu_weight p)) (\<lambda>(tc, c).
     bind_r (update_state_and_value (total_net_weight rso) (net_weight rlo) (net_weight p)) (\<lambda>(tn, n).
     Inr (rso\<lparr>total_ram_bytes := tr, total_cpu_weight := tc, total_net_weight := tn\<rparr>,
          rlo\<lparr>ram_bytes := r, cpu_weight := c, net_weight := n\<rparr>))))"

lemma first_pending_Some: "first_pending rows = Some p \<Longrightarrow> p \<in> set rows \<and> pending p"
  by (auto simp: first_pending_def limits_key_def split: if_splits dest: tbl_find_Some)

lemma count_pending_less:
  assumes "\<not> pending l" and "p \<in> set t" and "pending p"
  shows "length (filter pending (tbl_remove limits_key (limits_key p)
      (tbl_modify limits_key (False, owner p) (\<lambda>_. l) t))) < length (filter pending t)"
  using assms(2,3)
proof (induction t)
  case (Cons x t)
  have le: "length (filter pending (tbl_remove limits_key (limits_key p)
      (tbl_modify limits_key (False, owner p) (\<lambda>_. l) t))) \<le> length (filter pending t)" for t
    using assms(1) by (induction t) (auto simp: tbl_remove_def tbl_modify_def limits_key_def)
  show ?case
    using Cons le [of t] assms(1)
    by (auto simp: tbl_remove_def tbl_modify_def limits_key_def less_Suc_eq_le)
qed simp

function process_pending :: "resource_limits_state_object \<Rightarrow> resource_limits_object list \<Rightarrow>
    (resource_limits_state_object \<times> resource_limits_object list) result" where
  "process_pending rso t =
     (case first_pending t of
        None \<Rightarrow> Inr (rso, t)
      | Some p \<Rightarrow>
          (case tbl_find limits_key (False, owner p) t of
             None \<Rightarrow> Inl out_of_range
           | Some actual_entry \<Rightarrow>
               (case apply_pending p rso actual_entry of
                  Inl e \<Rightarrow> Inl e
                | Inr (rso, rlo) \<Rightarrow>
                    process_pending rso
                      (tbl_remove limits_key (limits_key p)
                        (tbl_modify limits_key (False, owner p) (\<lambda>_. rlo) t)))))"
  by pat_completeness auto
termination
proof (relation "measure (\<lambda>(_, t). length (filter pending t))", goal_cases)
  case (2 rso t p a r s l)
  have "\<not> pending a" using 2(2) by (auto simp: limits_key_def dest: tbl_find_Some)
  then have "\<not> pending l"
    using 2(3,4) by (auto simp: apply_pending_def result_simps split: prod.splits)
  then show ?case
    using count_pending_less [of l p t] first_pending_Some [OF 2(1)] by simp
qed simp

definition process_account_limit_updates :: "resource_db \<Rightarrow> resource_db result" where
  "process_account_limit_updates db =
     bind_r (get_state db) (\<lambda>state.
     bind_r (process_pending state (limits_tbl db)) (\<lambda>(rso, t).
     Inr (db\<lparr>state_obj := Some rso, limits_tbl := t\<rparr>)))"

section \<open>Block boundaries and accessors\<close>

definition update_virtual_cpu_limit ::
    "resource_limits_config_object \<Rightarrow> resource_limits_state_object \<Rightarrow> resource_limits_state_object result" where
  "update_virtual_cpu_limit cfg s =
     bind_r (average (average_block_cpu_usage s)) (\<lambda>a.
     bind_r (update_elastic_limit (virtual_cpu_limit s) a (cpu_limit_parameters cfg)) (\<lambda>l.
     Inr (s\<lparr>virtual_cpu_limit := l\<rparr>)))"

definition update_virtual_net_limit ::
    "resource_limits_config_object \<Rightarrow> resource_limits_state_object \<Rightarrow> resource_limits_state_object result" where
  "update_virtual_net_limit cfg s =
     bind_r (average (average_block_net_usage s)) (\<lambda>a.
     bind_r (update_elastic_limit (virtual_net_limit s) a (net_limit_parameters cfg)) (\<lambda>l.
     Inr (s\<lparr>virtual_net_limit := l\<rparr>)))"

definition process_block_usage :: "nat \<Rightarrow> resource_db \<Rightarrow> resource_db result" where
  "process_block_usage block_num db =
     bind_r (get_state db) (\<lambda>s.
     bind_r (get_config db) (\<lambda>config.
     bind_r (usage_add (pending_cpu_usage s) block_num (periods (cpu_limit_parameters config))
               (average_block_cpu_usage s)) (\<lambda>a.
     bind_r (update_virtual_cpu_limit config (s\<lparr>average_block_cpu_usage := a\<rparr>)) (\<lambda>s.
     let s = s\<lparr>pending_cpu_usage := 0\<rparr> in
     bind_r (usage_add (pending_net_usage s) block_num (periods (net_limit_parameters config))
               (average_block_net_usage s)) (\<lambda>a.
     bind_r (update_virtual_net_limit config (s\<lparr>average_block_net_usage := a\<rparr>)) (\<lambda>s.
     Inr (db\<lparr>state_obj := Some (s\<lparr>pending_net_usage := 0\<rparr>)\<rparr>)))))))"

definition get_virtual_block_cpu_limit :: "resource_db \<Rightarrow> nat result" where
  "get_virtual_block_cpu_limit db = bind_r (get_state db) (\<lambda>s. Inr (virtual_cpu_limit s))"

definition get_virtual_block_net_limit :: "resource_db \<Rightarrow> nat result" where
  "get_virtual_block_net_limit db = bind_r (get_state db) (\<lambda>s. Inr (virtual_net_limit s))"

definition get_block_cpu_limit :: "resource_db \<Rightarrow> nat result" where
  "get_block_cpu_limit db =
     bind_r (get_state db) (\<lambda>s. bind_r (get_config db) (\<lambda>c.
     Inr (int_to_u64 (int (max_limit (cpu_limit_parameters c)) - int (pending_cpu_usage s)))))"

definition get_block_net_limit :: "resource_db \<Rightarrow> nat result" where
  "get_block_net_limit db =
     bind_r (get_state db) (\<lambda>s. bind_r (get_config db) (\<lambda>c.
     Inr (int_to_u64 (int (max_limit (net_limit_parameters c)) - int (pending_net_usage s)))))"

record account_resource_limit =
  used :: int
  available :: int
  max_per_window :: int

text \<open>The shared tail of the two \<open>_ex\<close> accessors.\<close>

definition window_limit :: "nat \<Rightarrow> nat \<Rightarrow> account_resource_limit result" where
  "window_limit max_use used_in_win =
     bind_r (if max_use \<le> used_in_win then Inr 0 else downgrade_cast_s64 (max_use - used_in_win)) (\<lambda>av.
     bind_r (downgrade_cast_s64 used_in_win) (\<lambda>us.
     bind_r (downgrade_cast_s64 max_use) (\<lambda>mx.
     Inr \<lparr>used = us, available = av, max_per_window = mx\<rparr>)))"

definition get_account_cpu_limit_ex :: "account_name \<Rightarrow> bool \<Rightarrow> resource_db \<Rightarrow> account_resource_limit result" where
  "get_account_cpu_limit_ex account elastic db =
     bind_r (get_state db) (\<lambda>state.
     bind_r (tbl_get usage_owner account (usage_tbl db)) (\<lambda>usage.
     bind_r (get_config db) (\<lambda>config.
     bind_r (get_account_limits_xos account db) (\<lambda>(x, y, cpu).
     if cpu < 0 \<or> total_cpu_weight state = 0
     then Inr \<lparr>used = - 1, available = - 1, max_per_window = - 1\<rparr>
     else
       let window_size = account_cpu_usage_average_window config;
           capacity = (if elastic then virtual_cpu_limit state else max_limit (cpu_limit_parameters config));
           max_use = max_user_use capacity window_size cpu (total_cpu_weight state)
       in bind_r (integer_divide_ceil (u128 (value_ex (cpu_usage usage) * window_size))
                    rate_limiting_precision) (\<lambda>used_in_win.
          window_limit max_use used_in_win)))))"

definition get_account_cpu_limit :: "account_name \<Rightarrow> bool \<Rightarrow> resource_db \<Rightarrow> int result" where
  "get_account_cpu_limit account elastic db =
     bind_r (get_account_cpu_limit_ex account elastic db) (\<lambda>arl. Inr (available arl))"

definition get_account_net_limit_ex :: "account_name \<Rightarrow> bool \<Rightarrow> resource_db \<Rightarrow> account_resource_limit result" where
  "get_account_net_limit_ex account elastic db =
     bind_r (get_config db) (\<lambda>config.
     bind_r (get_state db) (\<lambda>state.
     bind_r (tbl_get usage_owner account (usage_tbl db)) (\<lambda>usage.
     bind_r (get_account_limits_xos account db) (\<lambda>(x, net, y).
     if net < 0 \<or> total_net_weight state = 0
     then Inr \<lparr>used = - 1, available = - 1, max_per_window = - 1\<rparr>
     else
       let window_size = account_net_usage_average_window config;
           capacity = (if elastic then virtual_net_limit state else max_limit (net_limit_parameters config));
           max_use = max_user_use capacity window_size net (total_net_weight state)
       in bind_r (integer_divide_ceil (u128 (value_ex (net_usage usage) * window_size))
                    rate_limiting_precision) (\<lambda>used_in_win.
          window_limit max_use used_in_win)))))"

definition get_account_net_limit :: "account_name \<Rightarrow> bool \<Rightarrow> resource_db \<Rightarrow> int result" where
  "get_account_net_limit account elastic db =
     bind_r (get_account_net_limit_ex account elastic db) (\<lambda>arl. Inr (available arl))"

declare process_pending.simps [simp del]

section \<open>Histories\<close>

datatype resource_op =
    Initialize_database
  | Initialize_account account_name
  | Set_block_parameters elastic_limit_parameters elastic_limit_parameters
  | Set_block_parameters_xos nat
  | Update_account_usage "account_name list" nat
  | Add_transaction_usage "account_name \<Rightarrow> int \<times> int" "account_name list" nat nat nat
  | Add_pending_ram_usage account_name int
  | Set_account_limits account_name int int int
  | Process_account_limit_updates
  | Process_block_usage nat

fun run_op :: "resource_op \<Rightarrow> resource_db \<Rightarrow> resource_db result" where
  "run_op Initialize_database db = Inr (initialize_database db)"
| "run_op (Initialize_account a) db = initialize_account a db"
| "run_op (Set_block_parameters c n) db = set_block_parameters c n db"
| "run_op (Set_block_parameters_xos l) db = set_block_parameters_xos l db"
| "run_op (Update_account_usage as t) db = update_account_usage as t db"
| "run_op (Add_transaction_usage clock as c n t) db = add_transaction_usage clock as c n t db"
| "run_op (Add_pending_ram_usage a d) db = add_pending_ram_usage a d db"
| "run_op (Set_account_limits a r n c) db = bind_r (set_account_limits a r n c db) (\<lambda>(_, db). Inr db)"
| "run_op Process_account_limit_updates db = process_account_limit_updates db"
| "run_op (Process_block_usage b) db = process_block_usage b db"

text \<open>The databases a sequence of successful operations can reach.\<close>

inductive reachable :: "resource_db \<Rightarrow> bool" where
  start: "reachable empty_resource_db"
| step: "reachable db \<Longrightarrow> run_op op db = Inr db' \<Longrightarrow> reachable db'"

section \<open>What the totals mean\<close>

text \<open>The sum of the positive values of a field over the rows in force.\<close>

definition in_force :: "(resource_limits_object \<Rightarrow> int) \<Rightarrow> resource_limits_object \<Rightarrow> nat" where
  "in_force f r = (if pending r then 0 else nat (f r))"

definition force_sum :: "(resource_limits_object \<Rightarrow> int) \<Rightarrow> resource_limits_object list \<Rightarrow> nat" where
  "force_sum f t = (\<Sum>r\<leftarrow>t. in_force f r)"

definition totals_of :: "resource_limits_state_object \<Rightarrow> nat \<times> nat \<times> nat" where
  "totals_of s = (total_ram_bytes s, total_cpu_weight s, total_net_weight s)"

definition sums_of :: "resource_limits_object list \<Rightarrow> nat \<times> nat \<times> nat" where
  "sums_of t = (force_sum ram_bytes t, force_sum cpu_weight t, force_sum net_weight t)"

definition limits_ok :: "resource_limits_object list \<Rightarrow> bool" where
  "limits_ok t \<longleftrightarrow> tbl_unique limits_key t
     \<and> (\<forall>r\<in>set t. pending r \<longrightarrow> tbl_find limits_key (False, owner r) t \<noteq> None)"

definition fits64 :: "nat \<Rightarrow> bool" where
  "fits64 x \<longleftrightarrow> x < 2 ^ 64"

definition totals_ok :: "nat \<times> nat \<times> nat \<Rightarrow> resource_limits_object list \<Rightarrow> bool" where
  "totals_ok tot t \<longleftrightarrow> tot = sums_of t \<and> fits64 (force_sum ram_bytes t)
     \<and> fits64 (force_sum cpu_weight t) \<and> fits64 (force_sum net_weight t)"

definition resource_inv :: "resource_db \<Rightarrow> bool" where
  "resource_inv db \<longleftrightarrow> limits_ok (limits_tbl db) \<and>
     totals_ok (case state_obj db of None \<Rightarrow> (0, 0, 0) | Some s \<Rightarrow> totals_of s) (limits_tbl db)"

lemma update_state_and_value_success:
  assumes "update_state_and_value tot v p = Inr (tot', v')" and "nat v \<le> tot" and "fits64 tot"
  shows "v' = p \<and> tot' + nat v = tot + nat p \<and> fits64 tot'"
  using assms
  by (auto simp: update_state_and_value_def fits64_def result_simps split: if_splits) linarith

lemma update_state_and_value_total:
  assumes "nat v \<le> tot" and "fits64 (tot + nat p)"
  shows "\<exists>tot'. update_state_and_value tot v p = Inr (tot', p)"
  using assms by (auto simp: update_state_and_value_def fits64_def eos_assert_def)

definition overlay :: "resource_limits_object \<Rightarrow> resource_limits_object \<Rightarrow> resource_limits_object" where
  "overlay p l = l\<lparr>ram_bytes := ram_bytes p, cpu_weight := cpu_weight p, net_weight := net_weight p\<rparr>"

text \<open>One turn of the loop keeps every fact that the next turn needs.\<close>

definition settle :: "resource_limits_object \<Rightarrow> resource_limits_object \<Rightarrow> resource_limits_object list \<Rightarrow> resource_limits_object list" where
  "settle p l t = tbl_remove limits_key (limits_key p)
     (tbl_modify limits_key (False, owner p) (\<lambda>_. overlay p l) t)"

lemma limits_key_overlay: "limits_key (overlay p l) = limits_key l"
  by (simp add: limits_key_def overlay_def)

lemma totals_ok_member:
  assumes "totals_ok (totals_of rso) t" and "l \<in> set t" and "\<not> pending l"
  shows "nat (ram_bytes l) \<le> total_ram_bytes rso" and "nat (cpu_weight l) \<le> total_cpu_weight rso"
    and "nat (net_weight l) \<le> total_net_weight rso"
    and "fits64 (total_ram_bytes rso)" and "fits64 (total_cpu_weight rso)" and "fits64 (total_net_weight rso)"
proof -
  have le: "nat (f l) \<le> force_sum f t" for f
    using sum_list_member_le [OF assms(2), of "in_force f"] assms(3) by (simp add: force_sum_def in_force_def)
  show "nat (ram_bytes l) \<le> total_ram_bytes rso" and "nat (cpu_weight l) \<le> total_cpu_weight rso"
    and "nat (net_weight l) \<le> total_net_weight rso"
    and "fits64 (total_ram_bytes rso)" and "fits64 (total_cpu_weight rso)" and "fits64 (total_net_weight rso)"
    using assms(1) le [of ram_bytes] le [of cpu_weight] le [of net_weight]
    by (simp_all add: totals_ok_def totals_of_def sums_of_def)
qed

lemma apply_pending_success:
  assumes "apply_pending p rso l = Inr (rso', l')" and "totals_ok (totals_of rso) t"
    and "l \<in> set t" and "\<not> pending l"
  shows "l' = overlay p l"
    and "total_ram_bytes rso' + nat (ram_bytes l) = total_ram_bytes rso + nat (ram_bytes p)"
    and "total_cpu_weight rso' + nat (cpu_weight l) = total_cpu_weight rso + nat (cpu_weight p)"
    and "total_net_weight rso' + nat (net_weight l) = total_net_weight rso + nat (net_weight p)"
    and "fits64 (total_ram_bytes rso')" and "fits64 (total_cpu_weight rso')" and "fits64 (total_net_weight rso')"
proof -
  note m = totals_ok_member [OF assms(2-4)]
  obtain tr r tc c tn n where
    u: "update_state_and_value (total_ram_bytes rso) (ram_bytes l) (ram_bytes p) = Inr (tr, r)"
      "update_state_and_value (total_cpu_weight rso) (cpu_weight l) (cpu_weight p) = Inr (tc, c)"
      "update_state_and_value (total_net_weight rso) (net_weight l) (net_weight p) = Inr (tn, n)"
    and res: "rso' = rso\<lparr>total_ram_bytes := tr, total_cpu_weight := tc, total_net_weight := tn\<rparr>"
      "l' = l\<lparr>ram_bytes := r, cpu_weight := c, net_weight := n\<rparr>"
    using assms(1) by (auto simp: apply_pending_def result_simps)
  note s = update_state_and_value_success [OF u(1) m(1,4)] update_state_and_value_success [OF u(2) m(2,5)]
    update_state_and_value_success [OF u(3) m(3,6)]
  show "l' = overlay p l"
    and "total_ram_bytes rso' + nat (ram_bytes l) = total_ram_bytes rso + nat (ram_bytes p)"
    and "total_cpu_weight rso' + nat (cpu_weight l) = total_cpu_weight rso + nat (cpu_weight p)"
    and "total_net_weight rso' + nat (net_weight l) = total_net_weight rso + nat (net_weight p)"
    and "fits64 (total_ram_bytes rso')" and "fits64 (total_cpu_weight rso')" and "fits64 (total_net_weight rso')"
    using s by (simp_all add: res overlay_def)
qed

lemma first_pending_find:
  assumes "tbl_unique limits_key t" and "first_pending t = Some p"
  shows "tbl_find limits_key (True, owner p) t = Some p"
  using first_pending_Some [OF assms(2)] tbl_find_unique [OF assms(1), of p] by (simp add: limits_key_def)

lemma force_sum_settle:
  assumes "tbl_unique limits_key t" and "tbl_find limits_key (False, owner p) t = Some l"
    and "tbl_find limits_key (True, owner p) t = Some p"
    and "\<And>x. f (overlay p x) = f p"
  shows "force_sum f (settle p l t) + nat (f l) = force_sum f t + nat (f p)"
proof -
  let ?m = "tbl_modify limits_key (False, owner p) (\<lambda>_. overlay p l) t"
  have p: "pending p" "limits_key (overlay p l) = (False, owner p)" "\<not> pending l"
    using tbl_find_Some [OF assms(3)] tbl_find_Some [OF assms(2)]
    by (simp_all add: limits_key_overlay) (simp_all add: limits_key_def)
  have u: "tbl_unique limits_key ?m" using assms(1) by (simp add: tbl_unique_replace [where key = limits_key, OF p(2)])
  have fp: "tbl_find limits_key (limits_key p) ?m = Some p"
    using assms(3) p(1) by (simp add: tbl_find_replace [where key = limits_key, OF p(2)]) (simp add: limits_key_def)
  have "(\<Sum>r\<leftarrow>?m. in_force f r) + in_force f l = (\<Sum>r\<leftarrow>t. in_force f r) + in_force f (overlay p l)"
    by (rule sum_list_modify [OF assms(1,2)])
  moreover have "in_force f (overlay p l) = nat (f p)"
    using p(3) assms(4) by (simp add: in_force_def overlay_def)
  ultimately show ?thesis
    using sum_list_remove [OF u fp, of "in_force f"] p
    by (simp add: force_sum_def settle_def in_force_def)
qed

lemma find_settle:
  assumes "tbl_find limits_key (False, owner p) t = Some l" and "pending p"
  shows "tbl_find limits_key (True, a) (settle p l t) =
      (if a = owner p then None else tbl_find limits_key (True, a) t)"
    and "tbl_find limits_key (False, a) (settle p l t) =
      (if a = owner p then Some (overlay p l) else tbl_find limits_key (False, a) t)"
proof -
  have k: "limits_key (overlay p l) = (False, owner p)" "limits_key p = (True, owner p)"
    using tbl_find_Some [OF assms(1)] assms(2) by (simp_all add: limits_key_overlay) (simp add: limits_key_def)
  show "tbl_find limits_key (True, a) (settle p l t) =
      (if a = owner p then None else tbl_find limits_key (True, a) t)"
    and "tbl_find limits_key (False, a) (settle p l t) =
      (if a = owner p then Some (overlay p l) else tbl_find limits_key (False, a) t)"
    using assms by (auto simp: settle_def tbl_find_remove tbl_find_replace [where key = limits_key, OF k(1)] k(2))
qed

lemma limits_ok_settle:
  assumes "limits_ok t" and "first_pending t = Some p"
    and "tbl_find limits_key (False, owner p) t = Some l"
  shows "limits_ok (settle p l t)"
proof -
  have u: "tbl_unique limits_key t" using assms(1) by (simp add: limits_ok_def)
  have p: "pending p" using first_pending_Some [OF assms(2)] by simp
  have k: "limits_key (overlay p l) = (False, owner p)"
    using tbl_find_Some [OF assms(3)] by (simp add: limits_key_overlay)
  have "tbl_unique limits_key (settle p l t)"
    unfolding settle_def using u by (intro tbl_unique_remove) (simp add: tbl_unique_replace [where key = limits_key, OF k])
  moreover have "tbl_find limits_key (False, owner r) (settle p l t) \<noteq> None"
    if "r \<in> set (settle p l t)" "pending r" for r
  proof -
    have "\<not> pending (overlay p l)" using k by (simp add: limits_key_def)
    then have "r \<in> set t"
      using that by (auto simp: settle_def tbl_remove_def tbl_modify_def split: if_splits)
    then have "tbl_find limits_key (False, owner r) t \<noteq> None"
      using assms(1) that(2) by (auto simp: limits_ok_def)
    then show ?thesis by (simp add: find_settle [OF assms(3) p])
  qed
  ultimately show ?thesis by (auto simp: limits_ok_def)
qed

lemma process_pending_step:
  assumes "first_pending t = Some p" and "tbl_find limits_key (False, owner p) t = Some l"
    and "apply_pending p rso l = Inr (rso', overlay p l)"
  shows "process_pending rso t = process_pending rso' (settle p l t)"
  using assms by (subst process_pending.simps) (simp add: settle_def)

lemma totals_settle:
  assumes "limits_ok t" and "totals_ok (totals_of rso) t" and "first_pending t = Some p"
    and "tbl_find limits_key (False, owner p) t = Some l"
    and "apply_pending p rso l = Inr (rso', l')"
  shows "l' = overlay p l" and "totals_ok (totals_of rso') (settle p l t)"
proof -
  have u: "tbl_unique limits_key t" using assms(1) by (simp add: limits_ok_def)
  have l: "l \<in> set t" "\<not> pending l" using tbl_find_Some [OF assms(4)] by (simp_all add: limits_key_def)
  note s = apply_pending_success [OF assms(5,2) l]
  note f = force_sum_settle [OF u assms(4) first_pending_find [OF u assms(3)]]
  have "force_sum ram_bytes (settle p l t) + nat (ram_bytes l) = force_sum ram_bytes t + nat (ram_bytes p)"
    "force_sum cpu_weight (settle p l t) + nat (cpu_weight l) = force_sum cpu_weight t + nat (cpu_weight p)"
    "force_sum net_weight (settle p l t) + nat (net_weight l) = force_sum net_weight t + nat (net_weight p)"
    by (rule f, simp add: overlay_def)+
  moreover have "total_ram_bytes rso = force_sum ram_bytes t" "total_cpu_weight rso = force_sum cpu_weight t"
    "total_net_weight rso = force_sum net_weight t"
    using assms(2) by (simp_all add: totals_ok_def totals_of_def sums_of_def)
  ultimately have "total_ram_bytes rso' = force_sum ram_bytes (settle p l t)"
    "total_cpu_weight rso' = force_sum cpu_weight (settle p l t)"
    "total_net_weight rso' = force_sum net_weight (settle p l t)"
    using s(2-4) by linarith+
  then show "totals_ok (totals_of rso') (settle p l t)"
    using s(5-7) by (simp add: totals_ok_def totals_of_def sums_of_def)
  show "l' = overlay p l" by (fact s(1))
qed

text \<open>What the loop leaves: no pending row, every pending value in force, exact totals.\<close>

lemma process_pending_result:
  assumes "process_pending rso t = Inr (rso', t')" and "limits_ok t" and "totals_ok (totals_of rso) t"
  shows "limits_ok t' \<and> totals_ok (totals_of rso') t' \<and> (\<forall>a. tbl_find limits_key (True, a) t' = None) \<and>
    (\<forall>a. tbl_find limits_key (False, a) t' =
       (case tbl_find limits_key (True, a) t of None \<Rightarrow> tbl_find limits_key (False, a) t
        | Some p \<Rightarrow> map_option (overlay p) (tbl_find limits_key (False, a) t)))"
  using assms
proof (induction rso t rule: process_pending.induct)
  case (1 rso t)
  show ?case
  proof (cases "first_pending t")
    case None
    then have "filter pending t = []"
    proof (rule_tac ccontr)
      assume a: "filter pending t \<noteq> []"
      let ?P = "set (filter pending t)"
      have "Min (owner ` ?P) \<in> owner ` ?P" using a by (intro Min_in) (simp_all only: set_empty image_is_empty finite_set finite_imageI not_False_eq_True)
      then obtain p where "p \<in> ?P" "owner p = Min (owner ` ?P)" by auto
      then have "(True, Min (owner ` ?P)) \<in> limits_key ` set t" by (force simp: limits_key_def)
      then show False using None a by (simp add: first_pending_def tbl_find_None)
    qed
    then have "\<forall>a. tbl_find limits_key (True, a) t = None"
      by (auto simp: tbl_find_None filter_empty_conv limits_key_def)
    moreover have "rso' = rso" "t' = t" using 1(2) None by (simp_all add: process_pending.simps)
    ultimately show ?thesis using 1(3,4) by simp
  next
    case (Some p)
    note fp = first_pending_Some [OF Some]
    obtain l where l: "tbl_find limits_key (False, owner p) t = Some l"
      using fp 1(3) by (auto simp: limits_ok_def)
    obtain rso1 l1 where ap: "apply_pending p rso l = Inr (rso1, l1)"
      using 1(2) Some l by (cases "apply_pending p rso l") (auto simp: process_pending.simps)
    note ts = totals_settle [OF 1(3,4) Some l ap]
    have run: "process_pending rso1 (settle p l t) = Inr (rso', t')"
      using 1(2) process_pending_step [OF Some l] ap ts(1) by simp
    have u: "tbl_unique limits_key t" using 1(3) by (simp add: limits_ok_def)

    have "tbl_find limits_key (True, owner p) t = Some p" by (rule first_pending_find [OF u Some])
    moreover have "tbl_remove limits_key (limits_key p)
        (tbl_modify limits_key (False, owner p) (\<lambda>_. l1) t) = settle p l t"
      by (simp add: settle_def ts(1))
    note IH = 1(1) [OF Some l ap refl, unfolded this, OF run limits_ok_settle [OF 1(3) Some l] ts(2)]
    ultimately show ?thesis
      using IH l fp by (auto simp: find_settle [OF l] split: option.split)
  qed
qed

section \<open>Every operation keeps the invariant\<close>

definition limits_view :: "resource_db \<Rightarrow> resource_limits_object list \<times> (nat \<times> nat \<times> nat)" where
  "limits_view db = (limits_tbl db, case state_obj db of None \<Rightarrow> (0, 0, 0) | Some s \<Rightarrow> totals_of s)"

lemma resource_inv_view: "limits_view db' = limits_view db \<Longrightarrow> resource_inv db \<Longrightarrow> resource_inv db'"
  by (simp add: resource_inv_def limits_view_def)

lemma modify_usage_view: "modify_usage a f db = Inr db' \<Longrightarrow> limits_view db' = limits_view db"
  by (auto simp: modify_usage_def result_simps limits_view_def)

lemma update_account_usage_view:
  assumes "update_account_usage as t db = Inr db'"
  shows "limits_view db' = limits_view db"
proof -
  obtain config where "fold_r (\<lambda>a. modify_usage a (add_both 0 0 t config)) as db = Inr db'"
    using assms by (auto simp: update_account_usage_def result_simps)
  then show ?thesis
    by (rule fold_r_invariant [where P = "\<lambda>d. limits_view d = limits_view db"]) (auto dest: modify_usage_view)
qed

lemma add_transaction_usage_xos_view:
  "add_transaction_usage_xos n1 n2 a db = Inr db' \<Longrightarrow> limits_view db' = limits_view db"
  by (auto simp: add_transaction_usage_xos_def result_simps limits_view_def)

lemma add_account_usage_view:
  assumes "add_account_usage clock c n t s cfg a db = Inr db'"
  shows "limits_view db' = limits_view db" and "state_obj db' = state_obj db" and "config_obj db' = config_obj db"
proof -
  obtain d1 where "modify_usage a (add_both n c t cfg) db = Inr d1"
    and "add_transaction_usage_xos (fst (clock a)) (snd (clock a)) a d1 = Inr db'"
    using assms by (auto simp: add_account_usage_def result_simps)
  then show "limits_view db' = limits_view db" and "state_obj db' = state_obj db" and "config_obj db' = config_obj db"
    by (auto simp: modify_usage_def add_transaction_usage_xos_def result_simps limits_view_def)
qed

lemma add_transaction_usage_view:
  assumes "add_transaction_usage clock as c n t db = Inr db'"
  shows "limits_view db' = limits_view db"
proof -
  obtain s cfg d1 where s: "state_obj db = Some s"
    and run: "fold_r (add_account_usage clock c n t s cfg) as db = Inr d1"
    and db': "db' = d1\<lparr>state_obj := Some (s\<lparr>pending_cpu_usage := u64 (pending_cpu_usage s + c),
        pending_net_usage := u64 (pending_net_usage s + n)\<rparr>)\<rparr>"
    using assms by (auto simp: add_transaction_usage_def get_state_def result_simps Let_def)
  have "limits_view d1 = limits_view db"
    by (rule fold_r_invariant [OF run, where P = "\<lambda>d. limits_view d = limits_view db"])
      (auto dest: add_account_usage_view)
  then show ?thesis by (simp add: db' limits_view_def s totals_of_def)
qed

lemma process_block_usage_view: "process_block_usage b db = Inr db' \<Longrightarrow> limits_view db' = limits_view db"
  by (auto simp: process_block_usage_def get_state_def update_virtual_cpu_limit_def
      update_virtual_net_limit_def result_simps Let_def limits_view_def totals_of_def)

lemma force_sum_append [simp]: "force_sum f (t @ [r]) = force_sum f t + in_force f r"
  by (simp add: force_sum_def)

lemma limits_ok_create:
  assumes "limits_ok t" and "tbl_find limits_key (limits_key r) t = None"
    and "pending r \<Longrightarrow> tbl_find limits_key (False, owner r) t \<noteq> None"
  shows "limits_ok (t @ [r])"
  using assms by (auto simp: limits_ok_def tbl_unique_create tbl_find_append split: option.splits)

lemma initialize_account_inv:
  assumes "initialize_account a db = Inr db'" and "resource_inv db"
  shows "resource_inv db'"
proof -
  let ?r = "\<lparr>owner = a, pending = False, net_weight = - 1, cpu_weight = - 1, ram_bytes = - 1\<rparr>"
  have t: "limits_tbl db' = limits_tbl db @ [?r]" "state_obj db' = state_obj db"
    and n: "tbl_find limits_key (limits_key ?r) (limits_tbl db) = None"
    using assms(1) by (auto simp: initialize_account_def initialize_account_xos_def result_simps
        tbl_create_eq_Inr Let_def)
  have "limits_ok (limits_tbl db')" unfolding t
    using assms(2) n by (intro limits_ok_create) (simp_all add: resource_inv_def)
  moreover have "sums_of (limits_tbl db') = sums_of (limits_tbl db)"
    by (simp add: t sums_of_def in_force_def)
  ultimately show ?thesis using assms(2) by (simp add: resource_inv_def t(2) totals_ok_def sums_of_def)
qed

text \<open>A change of pending rows only.\<close>

lemma force_sum_modify_pending:
  "force_sum f (tbl_modify limits_key (True, a) g t) = force_sum f t" if "\<And>r. limits_key (g r) = limits_key r"
proof -
  have "pending (g r) = pending r" for r using that [of r] by (simp add: limits_key_def)
  then show ?thesis
    by (induction t) (auto simp: force_sum_def tbl_modify_def in_force_def limits_key_def)
qed

definition pending_table :: "account_name \<Rightarrow> resource_limits_object list \<Rightarrow> (resource_limits_object \<times> resource_limits_object list) result" where
  "pending_table account t =
     (case tbl_find limits_key (True, account) t of
        Some p \<Rightarrow> Inr (p, t)
      | None \<Rightarrow>
          bind_r (tbl_get limits_key (False, account) t) (\<lambda>l.
          let p = l\<lparr>pending := True\<rparr> in
          bind_r (tbl_create limits_key p t) (\<lambda>t. Inr (p, t))))"

lemma pending_table_result:
  assumes "pending_table a t = Inr (p, t')" and "limits_ok t"
  shows "limits_ok t'" and "sums_of t' = sums_of t" and "tbl_find limits_key (True, a) t' = Some p"
    and "tbl_find limits_key (False, a') t' = tbl_find limits_key (False, a') t"
    and "a' \<noteq> a \<Longrightarrow> tbl_find limits_key (True, a') t' = tbl_find limits_key (True, a') t"
proof -
  consider "tbl_find limits_key (True, a) t = Some p" "t' = t"
    | l where "tbl_find limits_key (True, a) t = None" "tbl_find limits_key (False, a) t = Some l"
        "p = l\<lparr>pending := True\<rparr>" "t' = t @ [p]"
    using assms(1) by (auto simp: pending_table_def result_simps tbl_create_eq_Inr Let_def split: option.splits)
  then have "limits_ok t' \<and> sums_of t' = sums_of t \<and> tbl_find limits_key (True, a) t' = Some p \<and>
    tbl_find limits_key (False, a') t' = tbl_find limits_key (False, a') t \<and>
    (a' \<noteq> a \<longrightarrow> tbl_find limits_key (True, a') t' = tbl_find limits_key (True, a') t)"
  proof cases
    case 1
    then show ?thesis using assms(2) by simp
  next
    case (2 l)
    have k: "limits_key p = (True, a)" "pending p" "owner p = a"
      using tbl_find_Some [OF 2(2)] by (simp_all add: 2(3) limits_key_def)
    have "limits_ok t'" unfolding 2(4) using assms(2) 2(1,2) k by (intro limits_ok_create) simp_all
    then show ?thesis
      using 2(1) k by (auto simp: 2(4) tbl_find_append sums_of_def in_force_def split: option.splits)
  qed
  then show "limits_ok t'" and "sums_of t' = sums_of t" and "tbl_find limits_key (True, a) t' = Some p"
    and "tbl_find limits_key (False, a') t' = tbl_find limits_key (False, a') t"
    and "a' \<noteq> a \<Longrightarrow> tbl_find limits_key (True, a') t' = tbl_find limits_key (True, a') t"
    by simp_all
qed

definition new_limits :: "int \<Rightarrow> int \<Rightarrow> int \<Rightarrow> resource_limits_object \<Rightarrow> resource_limits_object" where
  "new_limits ram net cpu l = l\<lparr>ram_bytes := ram, net_weight := net, cpu_weight := cpu\<rparr>"

lemma limits_key_new [simp]: "limits_key (new_limits r n c l) = limits_key l"
  by (simp add: limits_key_def new_limits_def)

lemma set_account_limits_result:
  assumes "set_account_limits a r n c db = Inr (b, db')"
  obtains p t where "pending_table a (limits_tbl db) = Inr (p, t)"
    and "db' = db\<lparr>limits_tbl := tbl_modify limits_key (True, a) (new_limits r n c) t\<rparr>"
    and "b \<longleftrightarrow> r \<ge> 0 \<and> (ram_bytes p < 0 \<or> r < ram_bytes p)"
  using assms
  by (auto simp: set_account_limits_def pending_table_def [symmetric] result_simps Let_def
      new_limits_def [abs_def])

lemma set_account_limits_inv:
  assumes "set_account_limits a r n c db = Inr (b, db')" and "resource_inv db"
  shows "resource_inv db'"
proof -
  obtain p t where pt: "pending_table a (limits_tbl db) = Inr (p, t)"
    and db': "db' = db\<lparr>limits_tbl := tbl_modify limits_key (True, a) (new_limits r n c) t\<rparr>"
    by (rule set_account_limits_result [OF assms(1)])
  let ?t = "tbl_modify limits_key (True, a) (new_limits r n c) t"
  note res = pending_table_result [OF pt] 
  have ok: "limits_ok t" "sums_of t = sums_of (limits_tbl db)"
    using res assms(2) by (simp_all add: resource_inv_def)
  have "tbl_find limits_key (False, owner x) ?t \<noteq> None" if x: "x \<in> set ?t" "pending x" for x
  proof -
    obtain y where y: "y \<in> set t" "x = (if limits_key y = (True, a) then new_limits r n c y else y)"
      using x(1) by (auto simp: tbl_modify_def)
    then have "limits_key x = limits_key y" by simp
    then show ?thesis
      using ok(1) x(2) y(1) by (auto simp: limits_ok_def tbl_find_modify) (auto simp: limits_key_def)
  qed
  then have "limits_ok ?t" using ok(1) by (auto simp: limits_ok_def tbl_unique_modify)
  moreover have "sums_of ?t = sums_of (limits_tbl db)"
    using ok(2) by (simp add: sums_of_def force_sum_modify_pending)
  ultimately show ?thesis using assms(2) by (simp add: resource_inv_def db' totals_ok_def sums_of_def)
qed

lemma process_account_limit_updates_inv:
  assumes "process_account_limit_updates db = Inr db'" and "resource_inv db"
  shows "resource_inv db'"
proof -
  obtain s s' t' where s: "state_obj db = Some s" and run: "process_pending s (limits_tbl db) = Inr (s', t')"
    and db': "db' = db\<lparr>state_obj := Some s', limits_tbl := t'\<rparr>"
    using assms(1) by (auto simp: process_account_limit_updates_def get_state_def result_simps)
  then show ?thesis
    using process_pending_result [OF run] assms(2) by (simp add: resource_inv_def db')
qed

lemma run_op_inv:
  assumes "run_op op db = Inr db'" and "resource_inv db"
  shows "resource_inv db'"
proof (cases op)
  case Initialize_database
  then have "limits_view db' = limits_view db"
    using assms(1) by (auto simp: initialize_database_def initialize_database_xos_def Let_def
        limits_view_def totals_of_def split: option.splits)
  then show ?thesis using assms(2) by (rule resource_inv_view)
next
  case (Set_block_parameters c n)
  then have "limits_view db' = limits_view db"
    using assms(1) by (auto simp: set_block_parameters_def result_simps limits_view_def)
  then show ?thesis using assms(2) by (rule resource_inv_view)
next
  case (Set_block_parameters_xos l)
  then have "limits_view db' = limits_view db"
    using assms(1) by (auto simp: set_block_parameters_xos_def result_simps limits_view_def)
  then show ?thesis using assms(2) by (rule resource_inv_view)
next
  case (Add_pending_ram_usage a d)
  then have "limits_view db' = limits_view db"
    using assms(1) by (auto simp: add_pending_ram_usage_def result_simps split: if_splits dest: modify_usage_view)
  then show ?thesis using assms(2) by (rule resource_inv_view)
qed (use assms in \<open>auto simp: result_simps intro: initialize_account_inv set_account_limits_inv
    process_account_limit_updates_inv resource_inv_view [OF update_account_usage_view]
    resource_inv_view [OF add_transaction_usage_view] resource_inv_view [OF process_block_usage_view]\<close>)

text \<open>
  C22. In every state the manager can reach, the stored totals of RAM bytes, CPU weight and NET
  weight are exactly the sums of the positive limits in force, fit 64 bits, and every pending
  change belongs to an account with limits in force.
\<close>

theorem totals_are_sums:
  assumes "reachable db"
  shows "limits_ok (limits_tbl db) \<and>
    (case state_obj db of None \<Rightarrow> sums_of (limits_tbl db) = (0, 0, 0)
     | Some s \<Rightarrow> totals_of s = sums_of (limits_tbl db) \<and> total_ram_bytes s < 2 ^ 64 \<and>
         total_cpu_weight s < 2 ^ 64 \<and> total_net_weight s < 2 ^ 64)"
proof -
  have "resource_inv db"
    using assms
  proof induction
    case start
    then show ?case
      by (simp add: resource_inv_def empty_resource_db_def limits_ok_def totals_ok_def sums_of_def
          force_sum_def tbl_unique_def fits64_def)
  next
    case (step db op db')
    show ?case by (rule run_op_inv [OF step.hyps(2) step.IH])
  qed
  then show ?thesis
    by (auto simp: resource_inv_def totals_ok_def totals_of_def sums_of_def fits64_def split: option.splits)
qed

definition run_ops :: "resource_op list \<Rightarrow> resource_db \<Rightarrow> resource_db result" where
  "run_ops ops db = fold_r run_op ops db"

lemma run_ops_reachable: "run_ops ops db = Inr db' \<Longrightarrow> reachable db \<Longrightarrow> reachable db'"
  unfolding run_ops_def by (erule fold_r_invariant) (auto intro: reachable.step)

definition sample_ops :: "resource_op list" where
  "sample_ops = [Initialize_database, Initialize_account 5, Initialize_account 9,
     Set_account_limits 5 100 20 30, Set_account_limits 9 7 (- 1) 1, Process_account_limit_updates,
     Set_account_limits 9 8 2 1]"

definition limits_row :: "account_name \<Rightarrow> bool \<Rightarrow> int \<Rightarrow> int \<Rightarrow> int \<Rightarrow> resource_limits_object" where
  "limits_row a p n c r = \<lparr>owner = a, pending = p, net_weight = n, cpu_weight = c, ram_bytes = r\<rparr>"

lemma first_pending_insert:
  "first_pending [limits_row a False n c r, limits_row b False n' c' r'] = None"
  by (simp add: first_pending_def limits_row_def)

lemmas resource_eval =
  run_ops_def initialize_database_def initialize_database_xos_def initialize_account_def
  initialize_account_xos_def set_account_limits_def process_account_limit_updates_def get_state_def
  get_config_def empty_resource_db_def tbl_create_def tbl_find_def tbl_get_def tbl_modify_def
  tbl_remove_def limits_key_def Let_def apply_pending_def update_state_and_value_def
  process_pending.simps first_pending_def eos_assert_def

lemma sample_run:
  "\<exists>db s. run_ops sample_ops empty_resource_db = Inr db \<and> state_obj db = Some s \<and> totals_of s = (107, 31, 20)"
  by (simp add: sample_ops_def resource_eval totals_of_def)

theorem totals_are_sums_witness:
  "\<exists>db s. run_ops sample_ops empty_resource_db = Inr db \<and> state_obj db = Some s \<and>
     totals_of s = (107, 31, 20) \<and> sums_of (limits_tbl db) = (107, 31, 20)"
proof -
  obtain db s where run: "run_ops sample_ops empty_resource_db = Inr db" and s: "state_obj db = Some s"
    and t: "totals_of s = (107, 31, 20)"
    using sample_run by blast
  have "reachable db" by (rule run_ops_reachable [OF run reachable.start])
  from totals_are_sums [OF this] have "totals_of s = sums_of (limits_tbl db)" by (simp add: s)
  then show ?thesis using run s t by auto
qed

section \<open>Limits round trip\<close>

lemma limits_fields:
  "ram_bytes (overlay p l) = ram_bytes p" "net_weight (overlay p l) = net_weight p"
  "cpu_weight (overlay p l) = cpu_weight p" "ram_bytes (new_limits r n c l) = r"
  "net_weight (new_limits r n c l) = n" "cpu_weight (new_limits r n c l) = c"
  by (simp_all add: overlay_def new_limits_def)

lemma reachable_inv: "reachable db \<Longrightarrow> resource_inv db"
proof (induction rule: reachable.induct)
  case start
  show ?case
    by (simp add: resource_inv_def empty_resource_db_def limits_ok_def totals_ok_def sums_of_def
        force_sum_def tbl_unique_def fits64_def)
next
  case (step db op db')
  show ?case by (rule run_op_inv [OF step.hyps(2) step.IH])
qed

lemma get_account_limits_pending:
  "tbl_find limits_key (True, a) (limits_tbl db) = Some p \<Longrightarrow>
     get_account_limits a db = Inr (ram_bytes p, net_weight p, cpu_weight p)"
  by (simp add: get_account_limits_def)

lemma get_account_limits_active:
  "tbl_find limits_key (True, a) (limits_tbl db) = None \<Longrightarrow>
     tbl_find limits_key (False, a) (limits_tbl db) = Some l \<Longrightarrow>
     get_account_limits a db = Inr (ram_bytes l, net_weight l, cpu_weight l)"
  by (simp add: get_account_limits_def tbl_get_def)

lemma set_limits_find:
  assumes "set_account_limits a r n c db = Inr (b, db')" and "limits_ok (limits_tbl db)"
  shows "\<exists>p. tbl_find limits_key (True, a) (limits_tbl db') = Some (new_limits r n c p)"
    and "a' \<noteq> a \<Longrightarrow> tbl_find limits_key (True, a') (limits_tbl db') = tbl_find limits_key (True, a') (limits_tbl db)"
    and "tbl_find limits_key (False, a') (limits_tbl db') = tbl_find limits_key (False, a') (limits_tbl db)"
    and "\<exists>l. tbl_find limits_key (False, a) (limits_tbl db') = Some l"
proof -
  obtain p t where pt: "pending_table a (limits_tbl db) = Inr (p, t)"
    and db': "db' = db\<lparr>limits_tbl := tbl_modify limits_key (True, a) (new_limits r n c) t\<rparr>"
    by (rule set_account_limits_result [OF assms(1)])
  note res = pending_table_result [OF pt assms(2)]
  show "\<exists>p. tbl_find limits_key (True, a) (limits_tbl db') = Some (new_limits r n c p)"
    using res(3) by (auto simp: db' tbl_find_modify)
  show "a' \<noteq> a \<Longrightarrow> tbl_find limits_key (True, a') (limits_tbl db') = tbl_find limits_key (True, a') (limits_tbl db)"
    and act: "tbl_find limits_key (False, a') (limits_tbl db') = tbl_find limits_key (False, a') (limits_tbl db)" for a'
    using res(4,5) by (simp_all add: db' tbl_find_modify)
  have "pending p" "owner p = a" "p \<in> set t"
    using tbl_find_Some [OF res(3)] by (simp_all add: limits_key_def)
  then have "tbl_find limits_key (False, a) t \<noteq> None" using res(1) by (auto simp: limits_ok_def)
  then show "\<exists>l. tbl_find limits_key (False, a) (limits_tbl db') = Some l"
    by (auto simp: db' tbl_find_modify)
qed

text \<open>
  Limits set for an account are what a reader sees at once, they are what a reader still
  sees after the pending changes have been processed, at which point no change is pending any
  more, and the limits of every other account read the same throughout.
\<close>

theorem set_limits_roundtrip:
  assumes "reachable db" and "set_account_limits a r n c db = Inr (b, db1)"
    and "process_account_limit_updates db1 = Inr db2"
  shows "get_account_limits a db1 = Inr (r, n, c) \<and> get_account_limits a db2 = Inr (r, n, c)
    \<and> (\<forall>a'. a' \<noteq> a \<longrightarrow> get_account_limits a' db1 = get_account_limits a' db
          \<and> get_account_limits a' db2 = get_account_limits a' db)
    \<and> filter pending (limits_tbl db2) = []"
proof -
  have inv: "resource_inv db" by (rule reachable_inv [OF assms(1)])
  then have ok: "limits_ok (limits_tbl db)" by (simp add: resource_inv_def)
  have inv1: "resource_inv db1" by (rule set_account_limits_inv [OF assms(2) inv])
  note f = set_limits_find [OF assms(2) ok]
  obtain s s' t' where s: "state_obj db1 = Some s" and run: "process_pending s (limits_tbl db1) = Inr (s', t')"
    and db2: "db2 = db1\<lparr>state_obj := Some s', limits_tbl := t'\<rparr>"
    using assms(3) by (auto simp: process_account_limit_updates_def get_state_def result_simps)
  note p = process_pending_result [OF run] 
  have none: "tbl_find limits_key (True, x) t' = None" for x
    using p inv1 s by (simp add: resource_inv_def)
  have act: "tbl_find limits_key (False, x) t' =
       (case tbl_find limits_key (True, x) (limits_tbl db1) of None \<Rightarrow> tbl_find limits_key (False, x) (limits_tbl db1)
        | Some p \<Rightarrow> map_option (overlay p) (tbl_find limits_key (False, x) (limits_tbl db1)))" for x
    using p inv1 s by (simp add: resource_inv_def)
  obtain q l where q: "tbl_find limits_key (True, a) (limits_tbl db1) = Some (new_limits r n c q)"
    and l: "tbl_find limits_key (False, a) (limits_tbl db1) = Some l"
    using f(1,4) by blast
  have g1: "get_account_limits a db1 = Inr (r, n, c)"
    by (simp add: get_account_limits_pending [OF q] new_limits_def)
  have "tbl_find limits_key (False, a) (limits_tbl db2) = Some (overlay (new_limits r n c q) l)"
    using act [of a] q l by (simp add: db2)
  then have g2: "get_account_limits a db2 = Inr (r, n, c)"
    using none [of a] get_account_limits_active [of a db2] by (simp add: db2 limits_fields)
  have o1: "get_account_limits a' db1 = get_account_limits a' db" if "a' \<noteq> a" for a'
    using f(2) [OF that] f(3) [of a'] by (simp add: get_account_limits_def tbl_get_def split: option.split)
  have "get_account_limits x db2 = get_account_limits x db1" for x
  proof (cases "tbl_find limits_key (True, x) (limits_tbl db1)")
    case None
    then show ?thesis using none [of x] act [of x] by (simp add: get_account_limits_def tbl_get_def db2)
  next
    case (Some p)
    then have "p \<in> set (limits_tbl db1)" "pending p" "owner p = x"
      using tbl_find_Some [OF Some] by (simp_all add: limits_key_def)
    then obtain y where "tbl_find limits_key (False, x) (limits_tbl db1) = Some y"
      using inv1 by (auto simp: resource_inv_def limits_ok_def)
    then show ?thesis
      using none [of x] act [of x] Some by (simp add: get_account_limits_def tbl_get_def db2 overlay_def)
  qed
  moreover have "filter pending (limits_tbl db2) = []"
    using none by (auto simp: db2 filter_empty_conv tbl_find_None) (force simp: limits_key_def)
  ultimately show ?thesis using g1 g2 o1 by simp
qed

theorem set_limits_roundtrip_witness:
  "\<exists>db b db1 db2. run_ops sample_ops empty_resource_db = Inr db \<and>
     set_account_limits 5 11 12 13 db = Inr (b, db1) \<and> process_account_limit_updates db1 = Inr db2 \<and>
     get_account_limits 5 db2 = Inr (11, 12, 13)"
proof -
  have "\<exists>db b db1 db2. run_ops sample_ops empty_resource_db = Inr db \<and>
     set_account_limits 5 11 12 13 db = Inr (b, db1) \<and> process_account_limit_updates db1 = Inr db2"
    by (simp add: sample_ops_def resource_eval exI [of _ True])
  then obtain db b db1 db2 where run: "run_ops sample_ops empty_resource_db = Inr db"
    and set: "set_account_limits 5 11 12 13 db = Inr (b, db1)" and pr: "process_account_limit_updates db1 = Inr db2"
    by blast
  have "reachable db" by (rule run_ops_reachable [OF run reachable.start])
  from set_limits_roundtrip [OF this set pr] show ?thesis using run set pr by blast
qed

section \<open>Processing the pending limits cannot underflow\<close>

definition row_sum :: "(resource_limits_object \<Rightarrow> int) \<Rightarrow> resource_limits_object list \<Rightarrow> nat" where
  "row_sum f t = (\<Sum>r\<leftarrow>t. nat (f r))"

lemma row_sum_settle:
  assumes "tbl_unique limits_key t" and "tbl_find limits_key (False, owner p) t = Some l"
    and "tbl_find limits_key (True, owner p) t = Some p" and "\<And>x. f (overlay p x) = f p"
  shows "row_sum f (settle p l t) + nat (f l) = row_sum f t"
proof -
  let ?m = "tbl_modify limits_key (False, owner p) (\<lambda>_. overlay p l) t"
  have k: "limits_key (overlay p l) = (False, owner p)" "limits_key p = (True, owner p)"
    using tbl_find_Some [OF assms(2)] tbl_find_Some [OF assms(3)] by (simp_all add: limits_key_overlay)
  have u: "tbl_unique limits_key ?m"
    using assms(1) by (simp add: tbl_unique_replace [where key = limits_key, OF k(1)])
  have fp: "tbl_find limits_key (limits_key p) ?m = Some p"
    using assms(3) by (simp add: tbl_find_replace [where key = limits_key, OF k(1)] k(2))
  have "(\<Sum>r\<leftarrow>?m. nat (f r)) + nat (f l) = (\<Sum>r\<leftarrow>t. nat (f r)) + nat (f (overlay p l))"
    by (rule sum_list_modify [OF assms(1,2)])
  then show ?thesis
    using sum_list_remove [OF u fp, of "\<lambda>r. nat (f r)"] assms(4)
    by (simp add: row_sum_def settle_def)
qed

lemma row_sum_two:
  assumes "tbl_unique limits_key t" and "p \<in> set t" and "pending p"
  shows "force_sum f t + nat (f p) \<le> row_sum f t"
  using assms
proof (induction t)
  case (Cons x t)
  have le: "force_sum f t \<le> row_sum f t" for t
    by (induction t) (auto simp: force_sum_def row_sum_def in_force_def)
  show ?case
  proof (cases "x = p")
    case True
    then show ?thesis using Cons.prems(3) le [of t] by (simp add: force_sum_def row_sum_def in_force_def)
  next
    case False
    have "tbl_unique limits_key t" using Cons.prems(1) by (simp add: tbl_unique_def)
    then show ?thesis
      using Cons False by (auto simp: force_sum_def row_sum_def in_force_def)
  qed
qed simp

lemma fits64_mono: "fits64 y \<Longrightarrow> x \<le> y \<Longrightarrow> fits64 x"
  by (simp add: fits64_def)

lemma process_pending_total:
  assumes "limits_ok t" and "totals_ok (totals_of rso) t"
    and "fits64 (row_sum ram_bytes t)" and "fits64 (row_sum cpu_weight t)" and "fits64 (row_sum net_weight t)"
  shows "\<exists>r. process_pending rso t = Inr r"
  using assms
proof (induction rso t rule: process_pending.induct)
  case (1 rso t)
  show ?case
  proof (cases "first_pending t")
    case None
    then show ?thesis by (simp add: process_pending.simps)
  next
    case (Some p)
    have u: "tbl_unique limits_key t" using 1(2) by (simp add: limits_ok_def)
    note p = first_pending_Some [OF Some]
    obtain l where l: "tbl_find limits_key (False, owner p) t = Some l"
      using p 1(2) by (auto simp: limits_ok_def)
    have lt: "l \<in> set t" "\<not> pending l" using tbl_find_Some [OF l] by (simp_all add: limits_key_def)
    note m = totals_ok_member [OF 1(3) lt]
    have fit: "fits64 (total_ram_bytes rso + nat (ram_bytes p))" "fits64 (total_cpu_weight rso + nat (cpu_weight p))"
      "fits64 (total_net_weight rso + nat (net_weight p))"
      using row_sum_two [OF u, of p] p 1(3-6)
      by (auto simp: totals_ok_def totals_of_def sums_of_def intro: fits64_mono)
    obtain tr tc tn where
      "update_state_and_value (total_ram_bytes rso) (ram_bytes l) (ram_bytes p) = Inr (tr, ram_bytes p)"
      "update_state_and_value (total_cpu_weight rso) (cpu_weight l) (cpu_weight p) = Inr (tc, cpu_weight p)"
      "update_state_and_value (total_net_weight rso) (net_weight l) (net_weight p) = Inr (tn, net_weight p)"
      using update_state_and_value_total [OF m(1) fit(1)] update_state_and_value_total [OF m(2) fit(2)]
        update_state_and_value_total [OF m(3) fit(3)] by blast
    then obtain rso1 l1 where ap: "apply_pending p rso l = Inr (rso1, l1)"
      by (simp add: apply_pending_def)
    note ts = totals_settle [OF 1(2,3) Some l ap]
    have eq: "tbl_remove limits_key (limits_key p)
        (tbl_modify limits_key (False, owner p) (\<lambda>_. l1) t) = settle p l t"
      by (simp add: settle_def ts(1))
    note rs = row_sum_settle [OF u l first_pending_find [OF u Some]]
    have "row_sum ram_bytes (settle p l t) + nat (ram_bytes l) = row_sum ram_bytes t"
      "row_sum cpu_weight (settle p l t) + nat (cpu_weight l) = row_sum cpu_weight t"
      "row_sum net_weight (settle p l t) + nat (net_weight l) = row_sum net_weight t"
      by (rule rs, simp add: limits_fields)+
    then have le: "row_sum ram_bytes (settle p l t) \<le> row_sum ram_bytes t"
      "row_sum cpu_weight (settle p l t) \<le> row_sum cpu_weight t"
      "row_sum net_weight (settle p l t) \<le> row_sum net_weight t" by linarith+
    have "\<exists>r. process_pending rso1 (settle p l t) = Inr r"
      by (rule 1(1) [OF Some l ap refl, unfolded eq, OF limits_ok_settle [OF 1(2) Some l] ts(2)])
        (use 1(4-6) le in \<open>auto intro: fits64_mono\<close>)
    then show ?thesis using process_pending_step [OF Some l] ap ts(1) by simp
  qed
qed

text \<open>
  Applying the pending limits never fails on its consistency checks in a reachable state
  whose limits, in force and pending together, fit 64 bits: the totals never underflow, and every
  pending row finds its account.
\<close>

theorem process_limits_total:
  assumes "reachable db" and "state_obj db \<noteq> None"
    and "row_sum ram_bytes (limits_tbl db) < 2 ^ 64" and "row_sum cpu_weight (limits_tbl db) < 2 ^ 64"
    and "row_sum net_weight (limits_tbl db) < 2 ^ 64"
  shows "\<exists>db'. process_account_limit_updates db = Inr db'"
proof -
  obtain s where s: "state_obj db = Some s" using assms(2) by auto
  have "resource_inv db" by (rule reachable_inv [OF assms(1)])
  then obtain r where "process_pending s (limits_tbl db) = Inr r"
    using process_pending_total [of "limits_tbl db" s] assms(3-5) s
    by (auto simp: resource_inv_def fits64_def)
  then show ?thesis by (cases r) (simp add: process_account_limit_updates_def get_state_def s)
qed

theorem process_limits_total_witness:
  "\<exists>db db'. run_ops sample_ops empty_resource_db = Inr db \<and> process_account_limit_updates db = Inr db'"
proof -
  have "\<exists>db. run_ops sample_ops empty_resource_db = Inr db \<and> state_obj db \<noteq> None \<and>
     row_sum ram_bytes (limits_tbl db) < 2 ^ 64 \<and> row_sum cpu_weight (limits_tbl db) < 2 ^ 64 \<and>
     row_sum net_weight (limits_tbl db) < 2 ^ 64"
    by (simp add: sample_ops_def resource_eval row_sum_def)
  then obtain db where run: "run_ops sample_ops empty_resource_db = Inr db" and db: "state_obj db \<noteq> None"
      "row_sum ram_bytes (limits_tbl db) < 2 ^ 64" "row_sum cpu_weight (limits_tbl db) < 2 ^ 64"
      "row_sum net_weight (limits_tbl db) < 2 ^ 64" by blast
  have "reachable db" by (rule run_ops_reachable [OF run reachable.start])
  from process_limits_total [OF this db] show ?thesis using run by blast
qed

section \<open>Transaction billing\<close>

definition usage_of :: "account_name \<Rightarrow> resource_db \<Rightarrow> resource_usage_object option" where
  "usage_of a db = tbl_find usage_owner a (usage_tbl db)"

definition cpu_within_share :: "resource_limits_state_object \<Rightarrow> resource_limits_config_object \<Rightarrow> int \<Rightarrow> resource_usage_object \<Rightarrow> bool" where
  "cpu_within_share s cfg w u \<longleftrightarrow>
     (w \<ge> 0 \<and> total_cpu_weight s > 0 \<longrightarrow>
        used_in_window (value_ex (cpu_usage u)) (account_cpu_usage_average_window cfg)
          \<le> max_user_use (virtual_cpu_limit s) (account_cpu_usage_average_window cfg) w (total_cpu_weight s))"

definition net_within_share :: "resource_limits_state_object \<Rightarrow> resource_limits_config_object \<Rightarrow> int \<Rightarrow> resource_usage_object \<Rightarrow> bool" where
  "net_within_share s cfg w u \<longleftrightarrow>
     (w \<ge> 0 \<and> total_net_weight s > 0 \<longrightarrow>
        used_in_window (value_ex (net_usage u)) (account_net_usage_average_window cfg)
          \<le> max_user_use (virtual_net_limit s) (account_net_usage_average_window cfg) w (total_net_weight s))"

lemma add_account_usage_steps:
  assumes "add_account_usage clock c n t s cfg a db = Inr db'"
  obtains ram net cpu d1 u u' where "get_account_limits_xos a db = Inr (ram, net, cpu)"
    and "usage_of a db = Some u" and "add_both n c t cfg u = Inr u'"
    and "d1 = db\<lparr>usage_tbl := tbl_modify usage_owner a (\<lambda>_. u') (usage_tbl db)\<rparr>"
    and "add_transaction_usage_xos (fst (clock a)) (snd (clock a)) a d1 = Inr db'"
    and "usage_of a db' = Some u'" and "cpu_within_share s cfg cpu u'" and "net_within_share s cfg net u'"
proof -
  obtain ram net cpu d1 u u'' where lim: "get_account_limits_xos a db = Inr (ram, net, cpu)"
    and m: "modify_usage a (add_both n c t cfg) db = Inr d1"
    and x: "add_transaction_usage_xos (fst (clock a)) (snd (clock a)) a d1 = Inr db'"
    and f: "tbl_find usage_owner a (usage_tbl db') = Some u''"
    and sh: "cpu_within_share s cfg cpu u''" "net_within_share s cfg net u''"
    using assms
    by (auto simp: add_account_usage_def result_simps cpu_within_share_def net_within_share_def split: if_splits)
  obtain u u' where u: "usage_of a db = Some u" "add_both n c t cfg u = Inr u'"
    and d1: "d1 = db\<lparr>usage_tbl := tbl_modify usage_owner a (\<lambda>_. u') (usage_tbl db)\<rparr>"
    using m by (auto simp: modify_usage_def result_simps usage_of_def)
  have k: "usage_owner u' = a"
    using u tbl_find_Some [of usage_owner a "usage_tbl db" u] by (auto simp: add_both_def result_simps usage_of_def)
  have "usage_tbl db' = usage_tbl d1"
    using x by (auto simp: add_transaction_usage_xos_def result_simps)
  then have "tbl_find usage_owner a (usage_tbl db') = Some u'"
    using u(1) by (simp add: d1 tbl_find_replace [where key = usage_owner, OF k] usage_of_def)
  then have "u'' = u'" using f by simp
  then show ?thesis using that lim u d1 x f sh by (simp add: usage_of_def)
qed

lemma add_account_usage_frame:
  assumes "add_account_usage clock c n t s cfg a db = Inr db'" and "a' \<noteq> a"
  shows "usage_of a' db' = usage_of a' db" and "get_account_limits_xos a' db' = get_account_limits_xos a' db"
proof -
  obtain d1 u u' where u: "usage_of a db = Some u" "add_both n c t cfg u = Inr u'"
    and d1: "d1 = db\<lparr>usage_tbl := tbl_modify usage_owner a (\<lambda>_. u') (usage_tbl db)\<rparr>"
    and x: "add_transaction_usage_xos (fst (clock a)) (snd (clock a)) a d1 = Inr db'"
    by (rule add_account_usage_steps [OF assms(1)])
  have k: "usage_owner u' = a"
    using u tbl_find_Some [of usage_owner a "usage_tbl db" u] by (auto simp: add_both_def result_simps usage_of_def)
  obtain d t where d: "tbl_find day_owner a (per_day_tbl db) = Some d"
    and db': "db' = d1\<lparr>per_day_tbl := tbl_modify day_owner a (\<lambda>_. d\<lparr>tx_usage := t\<rparr>) (per_day_tbl d1)\<rparr>"
    using x by (auto simp: add_transaction_usage_xos_def result_simps d1)
  have kd: "day_owner (d\<lparr>tx_usage := t\<rparr>) = a" using tbl_find_Some [OF d] by simp
  show "usage_of a' db' = usage_of a' db"
    using assms(2) by (simp add: db' d1 usage_of_def tbl_find_replace [where key = usage_owner, OF k])
  have "tbl_find day_owner a' (per_day_tbl db') = tbl_find day_owner a' (per_day_tbl db)"
    using assms(2) by (simp add: db' d1 tbl_find_replace [where key = day_owner, OF kd])
  then have "tbl_get day_owner a' (per_day_tbl db') = tbl_get day_owner a' (per_day_tbl db)"
    by (simp add: tbl_get_def)
  moreover have "per_day_config db' = per_day_config db" "limits_tbl db' = limits_tbl db"
    by (simp_all add: db' d1)
  ultimately show "get_account_limits_xos a' db' = get_account_limits_xos a' db"
    by (simp add: get_account_limits_xos_def get_account_limits_def check_account_limits_xos_def
        cong: option.case_cong)
qed

lemma add_usage_fold_frame:
  assumes "fold_r (add_account_usage clock c n t s cfg) as db = Inr db'" and "a \<notin> set as"
  shows "usage_of a db' = usage_of a db"
  using assms
proof (induction as arbitrary: db)
  case (Cons b as)
  then obtain d1 where "add_account_usage clock c n t s cfg b db = Inr d1"
    and "fold_r (add_account_usage clock c n t s cfg) as d1 = Inr db'" by (auto simp: result_simps)
  then show ?case using Cons add_account_usage_frame(1) by simp
qed simp

lemma add_usage_fold_share:
  assumes "fold_r (add_account_usage clock c n t s cfg) as db = Inr db'" and "distinct as" and "a \<in> set as"
  shows "\<exists>ram net cpu u u'. get_account_limits_xos a db = Inr (ram, net, cpu) \<and> usage_of a db = Some u \<and>
    usage_of a db' = Some u' \<and> add_both n c t cfg u = Inr u' \<and>
    cpu_within_share s cfg cpu u' \<and> net_within_share s cfg net u'"
  using assms
proof (induction as arbitrary: db)
  case (Cons b as)
  then obtain d1 where step: "add_account_usage clock c n t s cfg b db = Inr d1"
    and rest: "fold_r (add_account_usage clock c n t s cfg) as d1 = Inr db'" by (auto simp: result_simps)
  show ?case
  proof (cases "a = b")
    case True
    then have "usage_of a db' = usage_of a d1"
      using Cons.prems(2) by (intro add_usage_fold_frame [OF rest]) simp
    then show ?thesis using True add_account_usage_steps [OF step] by metis
  next
    case False
    then show ?thesis
      using Cons.IH [OF rest] Cons.prems(2,3) add_account_usage_frame [OF step False] by simp
  qed
qed simp

text \<open>
  C25. A transaction is billed in full or refused: when \<open>add_transaction_usage\<close> succeeds, every
  billed account has exactly the transaction added to its CPU and NET averages and ends within
  its weighted share of the elastic capacity (unless it is unlimited or in its free tier), no
  other account's usage changes, and the block stays within its limits.
\<close>

theorem transaction_billed_within_limits:
  assumes "add_transaction_usage clock as c n t db = Inr db'" and "distinct as"
  shows "\<exists>s cfg s'. state_obj db = Some s \<and> config_obj db = Some cfg \<and> state_obj db' = Some s' \<and>
    pending_cpu_usage s' = u64 (pending_cpu_usage s + c) \<and> pending_cpu_usage s' \<le> max_limit (cpu_limit_parameters cfg) \<and>
    pending_net_usage s' = u64 (pending_net_usage s + n) \<and> pending_net_usage s' \<le> max_limit (net_limit_parameters cfg) \<and>
    (\<forall>a\<in>set as. \<exists>ram net cpu u u'. get_account_limits_xos a db = Inr (ram, net, cpu) \<and>
       usage_of a db = Some u \<and> usage_of a db' = Some u' \<and> add_both n c t cfg u = Inr u' \<and>
       cpu_within_share s cfg cpu u' \<and> net_within_share s cfg net u') \<and>
    (\<forall>a. a \<notin> set as \<longrightarrow> usage_of a db' = usage_of a db)"
proof -
  obtain s cfg d1 where s: "state_obj db = Some s" and cfg: "config_obj db = Some cfg"
    and run: "fold_r (add_account_usage clock c n t s cfg) as db = Inr d1"
    and db': "db' = d1\<lparr>state_obj := Some (s\<lparr>pending_cpu_usage := u64 (pending_cpu_usage s + c),
        pending_net_usage := u64 (pending_net_usage s + n)\<rparr>)\<rparr>"
    and lim: "u64 (pending_cpu_usage s + c) \<le> max_limit (cpu_limit_parameters cfg)"
      "u64 (pending_net_usage s + n) \<le> max_limit (net_limit_parameters cfg)"
    using assms(1) by (auto simp: add_transaction_usage_def get_state_def get_config_def result_simps Let_def)
  have "usage_of a db' = usage_of a d1" for a by (simp add: db' usage_of_def)
  then show ?thesis
    using s cfg lim add_usage_fold_share [OF run assms(2)] add_usage_fold_frame [OF run]
    by (auto simp: db')
qed

lemmas billing_eval =
  add_transaction_usage_def add_account_usage_def get_account_limits_xos_def get_account_limits_def
  check_account_limits_xos_def per_day_validate_def modify_usage_def add_both_def
  add_transaction_usage_xos_def per_day_add_def usage_add_def integer_divide_ceil_def
  downgrade_cast_u64_def ratio_mult_def average_def max_raw_value_def rate_limiting_precision_def
  empty_usage_def empty_per_day_def sec_since_epoch_def seconds_of_day_def u32_def
  used_in_window_def max_user_use_def default_config_def default_cpu_limit_parameters_def
  default_net_limit_parameters_def

theorem transaction_billed_within_limits_witness:
  "\<exists>db db' s'. run_ops sample_ops empty_resource_db = Inr db \<and>
     add_transaction_usage (\<lambda>_. (1000000, 1000000)) [5, 9] 100 200 1 db = Inr db' \<and>
     state_obj db' = Some s' \<and> pending_cpu_usage s' \<le> 200000 \<and> usage_of 7 db' = usage_of 7 db"
proof -
  have "\<exists>db db' cfg. run_ops sample_ops empty_resource_db = Inr db \<and>
     add_transaction_usage (\<lambda>_. (1000000, 1000000)) [5, 9] 100 200 1 db = Inr db' \<and>
     config_obj db = Some cfg \<and> max_limit (cpu_limit_parameters cfg) = 200000"
    by (simp add: sample_ops_def resource_eval billing_eval)
  then obtain db db' cfg where run: "run_ops sample_ops empty_resource_db = Inr db"
    and add: "add_transaction_usage (\<lambda>_. (1000000, 1000000)) [5, 9] 100 200 1 db = Inr db'"
    and cfg: "config_obj db = Some cfg" "max_limit (cpu_limit_parameters cfg) = 200000" by blast
  have "distinct [5, 9 :: account_name]" by simp
  from transaction_billed_within_limits [OF add this] show ?thesis
    using run add cfg by auto
qed

section \<open>RAM accounting\<close>

text \<open>
  RAM accounting is exact: a change of an account's RAM usage gives the true sum when it lies
  in the 64-bit range and is refused otherwise, so the counter never wraps; the account's averages
  are untouched.
\<close>

theorem ram_usage_exact:
  assumes "usage_of a db = Some u" and "ram_usage u < 2 ^ 64" and "in_int64 d" and "d \<noteq> int64_min"
  shows "(if 0 \<le> int (ram_usage u) + d \<and> int (ram_usage u) + d < 2 ^ 64
     then \<exists>db'. add_pending_ram_usage a d db = Inr db' \<and>
       usage_of a db' = Some (u\<lparr>ram_usage := nat (int (ram_usage u) + d)\<rparr>)
     else add_pending_ram_usage a d db = Inl transaction_exception)"
proof -
  let ?s = "int (ram_usage u) + d"
  have f: "tbl_find usage_owner a (usage_tbl db) = Some u" using assms(1) by (simp add: usage_of_def)
  have k: "usage_owner (u\<lparr>ram_usage := r\<rparr>) = a" for r using tbl_find_Some [OF f] by simp
  have up: "(d \<le> 0 \<or> uint64_max - ram_usage u \<ge> nat d) \<and> (d \<ge> 0 \<or> ram_usage u \<ge> nat (- d))
      \<longleftrightarrow> 0 \<le> ?s \<and> ?s < 2 ^ 64"
    using assms(2,3) by (auto simp: in_int64_def int64_bounds)
  show ?thesis
  proof (cases "d = 0")
    case True
    then show ?thesis using assms(1,2) by (simp add: add_pending_ram_usage_def)
  next
    case False
    have wrap: "int_to_u64 ?s = nat ?s" if "0 \<le> ?s" "?s < 2 ^ 64" using that by (simp add: int_to_u64_def)
    show ?thesis
    proof (cases "0 \<le> ?s \<and> ?s < 2 ^ 64")
      case True
      then have "add_pending_ram_usage a d db =
          Inr (db\<lparr>usage_tbl := tbl_modify usage_owner a (\<lambda>_. u\<lparr>ram_usage := nat ?s\<rparr>) (usage_tbl db)\<rparr>)"
        using False up assms(4) f wrap
        by (simp add: add_pending_ram_usage_def tbl_get_def modify_usage_def eos_assert_def)
      then show ?thesis
        using True f by (simp add: usage_of_def tbl_find_replace [where key = usage_owner, OF k])
    next
      case neg: False
      then have "\<not> ((d \<le> 0 \<or> uint64_max - ram_usage u \<ge> nat d) \<and> (d \<ge> 0 \<or> ram_usage u \<ge> nat (- d)))"
        using up by simp
      then have "add_pending_ram_usage a d db = Inl transaction_exception"
        using False assms(4) f by (auto simp: add_pending_ram_usage_def tbl_get_def eos_assert_def)
      then show ?thesis using neg by (simp only: if_False)
    qed
  qed
qed

theorem ram_usage_exact_witness:
  "\<exists>db db' u. run_ops sample_ops empty_resource_db = Inr db \<and> usage_of 5 db = Some u \<and> ram_usage u = 0 \<and>
     add_pending_ram_usage 5 77 db = Inr db' \<and> usage_of 5 db' = Some (u\<lparr>ram_usage := 77\<rparr>)"
proof -
  have "\<exists>db u. run_ops sample_ops empty_resource_db = Inr db \<and> usage_of 5 db = Some u \<and> ram_usage u = 0"
    by (simp add: sample_ops_def resource_eval usage_of_def)
  then obtain db u where run: "run_ops sample_ops empty_resource_db = Inr db"
    and u: "usage_of 5 db = Some u" "ram_usage u = 0" by blast
  have "in_int64 77" "(77 :: int) \<noteq> int64_min" by (simp_all add: in_int64_def int64_bounds)
  from ram_usage_exact [OF u(1) _ this] show ?thesis using run u by auto
qed

section \<open>The free tier\<close>

fun per_day_run :: "(int \<times> int) list \<Rightarrow> usage_per_day_accumulator \<Rightarrow> usage_per_day_accumulator result" where
  "per_day_run [] u = Inr u"
| "per_day_run ((now1, now2) # rest) u = bind_r (per_day_add now1 now2 1 u) (per_day_run rest)"

definition day_of :: "int \<Rightarrow> nat" where
  "day_of now = sec_since_epoch now div seconds_of_day * seconds_of_day"

lemma per_day_run_same_day:
  assumes "sorted_wrt (<) (current_time u # map fst xs)" and "\<forall>(now1, now2)\<in>set xs. day_of now2 = current_day u"
    and "usage_per_day u + length xs < 2 ^ 64"
  shows "\<exists>u'. per_day_run xs u = Inr u' \<and> usage_per_day u' = usage_per_day u + length xs"
  using assms
proof (induction xs arbitrary: u)
  case (Cons x xs)
  obtain n1 n2 where x: "x = (n1, n2)" by (cases x)
  let ?u = "u\<lparr>current_time := n1, usage_per_day := usage_per_day u + 1\<rparr>"
  have "per_day_add n1 n2 1 u = Inr ?u"
    using Cons.prems by (auto simp: x per_day_add_def day_of_def Let_def)
  moreover obtain u' where "per_day_run xs ?u = Inr u' \<and> usage_per_day u' = usage_per_day ?u + length xs"
    using Cons.IH [of ?u] Cons.prems by (auto simp: x)
  ultimately show ?case by (auto simp: x)
qed simp

text \<open>
  The free tier covers one transaction more than its limit: an account whose transactions of a
  new day come at strictly later clock readings has, after \<open>n\<close> of them, an unlimited
  (negative) weight for the next one exactly when \<open>n\<close> is at most the configured limit, so with the
  default of 1000 the 1001st transaction of a day is still free.
\<close>

theorem free_tier_extent:
  assumes "sorted_wrt (<) (current_time u # map fst xs)" and "xs \<noteq> []"
    and "\<forall>(now1, now2)\<in>set xs. day_of now2 = today" and "current_day u \<noteq> today" and "length xs < 2 ^ 64"
    and "0 \<le> w"
  shows "\<exists>u'. per_day_run xs u = Inr u' \<and> usage_per_day u' = length xs \<and>
    (per_day_validate free_limit w u' = - 1 \<longleftrightarrow> length xs \<le> free_limit)"
proof -
  obtain n1 n2 ys where xs: "xs = (n1, n2) # ys" using assms(2) by (cases xs) auto
  let ?u = "u\<lparr>current_time := n1, current_day := today, usage_per_day := 1\<rparr>"
  have "per_day_add n1 n2 1 u = Inr ?u"
    using assms(1,3,4) by (auto simp: xs per_day_add_def day_of_def Let_def)
  moreover obtain u' where "per_day_run ys ?u = Inr u'" "usage_per_day u' = 1 + length ys"
    using per_day_run_same_day [of ?u ys] assms(1,3,5) by (auto simp: xs)
  ultimately show ?thesis using assms(6) by (auto simp: xs per_day_validate_def)
qed

theorem free_tier_extent_witness:
  "\<exists>u'. per_day_run [(86400000001, 86400000001), (86400000002, 86400000002)] empty_per_day = Inr u' \<and>
     usage_per_day u' = 2 \<and> per_day_validate 2 40 u' = - 1"
proof -
  let ?xs = "[(86400000001, 86400000001), (86400000002, 86400000002)] :: (int \<times> int) list"
  have d: "day_of 86400000001 = 86400" "day_of 86400000002 = 86400"
    by (simp_all add: day_of_def sec_since_epoch_def u32_def seconds_of_day_def)
  have s: "sorted_wrt (<) (current_time empty_per_day # map fst ?xs)" by (simp add: empty_per_day_def)
  have "\<exists>u'. per_day_run ?xs empty_per_day = Inr u' \<and> usage_per_day u' = length ?xs \<and>
    (per_day_validate 2 40 u' = - 1 \<longleftrightarrow> length ?xs \<le> 2)"
    by (rule free_tier_extent [OF s, where today = 86400]) (simp_all add: d, simp add: empty_per_day_def)
  then show ?thesis by (simp add: numeral_2_eq_2)
qed

end
