(* ===== verification/Headers.thy ===== *)
theory Headers
  imports Tables Merkle
begin

text \<open>
  Block timestamps, producer schedules and block headers
  (\<^verbatim>\<open>block_timestamp.hpp\<close>, \<^verbatim>\<open>producer_schedule.hpp\<close>, \<^verbatim>\<open>block_header.hpp\<close> under
  \<^verbatim>\<open>libraries/chain/include/eosio/chain\<close> and \<^verbatim>\<open>libraries/chain/block_header.cpp\<close>).
  Public keys and signatures are type parameters; the SHA-256 of a packed value and the recovery of
  a key from a signature are the fields of the record \<open>crypto\<close>.
\<close>

unbundle bit_operations_syntax

type_synonym account_name = "64 word"
type_synonym block_id_type = sha256

section \<open>Timestamps\<close>

text \<open>A timestamp is its slot, 500 ms each, counted from the year 2000; times are microseconds.\<close>

definition interval_ms :: nat where "interval_ms = 500"
definition epoch_ms :: nat where "epoch_ms = 946684800000"

definition timestamp_next :: "nat \<Rightarrow> nat result" where
  "timestamp_next slot =
     bind_r (eos_assert (2 ^ 32 - 1 - slot \<ge> 1) overflow_exception) (\<lambda>_. Inr (u32 (slot + 1)))"

definition to_time_point :: "nat \<Rightarrow> int" where
  "to_time_point slot = s64 (s64 (int slot * int interval_ms + int epoch_ms) * 1000)"

definition set_time_point :: "int \<Rightarrow> nat" where
  "set_time_point t = u32 (int_to_u64 (sgn t * (\<bar>t\<bar> div 1000) - int epoch_ms) div interval_ms)"

definition set_time_point_sec :: "nat \<Rightarrow> nat" where
  "set_time_point_sec sec = u32 (int_to_u64 (int (u64 (sec * 1000)) - int epoch_ms) div interval_ms)"

definition timestamp_maximum :: nat where "timestamp_maximum = 0xffff"

section \<open>Schedules\<close>

record 'k producer_key =
  producer_name :: account_name
  block_signing_key :: 'k

record 'k producer_schedule_type =
  version :: nat
  producers :: "'k producer_key list"

fun find_producer_key :: "account_name \<Rightarrow> 'k producer_key list \<Rightarrow> 'k option" where
  "find_producer_key p [] = None"
| "find_producer_key p (i # is) =
     (if producer_name i = p then Some (block_signing_key i) else find_producer_key p is)"

definition get_producer_key :: "'k \<Rightarrow> 'k producer_schedule_type \<Rightarrow> account_name \<Rightarrow> 'k" where
  "get_producer_key null_key s p = (case find_producer_key p (producers s) of None \<Rightarrow> null_key | Some k \<Rightarrow> k)"

fun same_producers :: "nat \<Rightarrow> 'k producer_key list \<Rightarrow> 'k producer_key list \<Rightarrow> bool" where
  "same_producers 0 a b = True"
| "same_producers (Suc n) a b = (if hd a \<noteq> hd b then False else same_producers n (tl a) (tl b))"

definition schedule_eq :: "'k producer_schedule_type \<Rightarrow> 'k producer_schedule_type \<Rightarrow> bool" where
  "schedule_eq a b =
     (if version a \<noteq> version b then False
      else if length (producers a) \<noteq> length (producers b) then False
      else same_producers (length (producers a)) (producers a) (producers b))"

section \<open>Headers\<close>

record 'k block_header =
  timestamp :: nat
  producer :: account_name
  confirmed :: nat
  previous :: block_id_type
  transaction_mroot :: sha256
  action_mroot :: sha256
  schedule_version :: nat
  new_producers :: "'k producer_schedule_type option"
  header_extensions :: "(nat \<times> nat list) list"

record ('k, 's) signed_block_header = "'k block_header" +
  producer_signature :: 's

record 's header_confirmation =
  conf_block_id :: block_id_type
  conf_producer :: account_name
  conf_signature :: 's

text \<open>
  The cryptography the headers rely on: \<open>hash_two\<close>, \<open>hash_header\<close> and \<open>hash_schedule\<close>
  are \<open>digest_type::hash\<close> of a packed pair, header and schedule; \<open>recover sig d c\<close> is the
  constructor \<open>public_key(sig, d, c)\<close>, which throws when no key can be recovered; \<open>no_key\<close>
  and \<open>no_signature\<close> are the default-constructed values.
\<close>

record ('k, 's) crypto =
  hash_two :: digest_hash
  hash_header :: "'k block_header \<Rightarrow> sha256"
  hash_schedule :: "'k producer_schedule_type \<Rightarrow> sha256"
  recover :: "'s \<Rightarrow> sha256 \<Rightarrow> bool \<Rightarrow> 'k result"
  no_key :: 'k
  no_signature :: 's

definition endian_reverse_u32 :: "32 word \<Rightarrow> 32 word" where
  "endian_reverse_u32 x =
     (drop_bit 0x18 x AND 0xFF)
     OR push_bit 0x08 (drop_bit 0x10 x AND 0xFF)
     OR push_bit 0x10 (drop_bit 0x08 x AND 0xFF)
     OR push_bit 0x18 (x AND 0xFF)"

definition num_from_id :: "block_id_type \<Rightarrow> nat" where
  "num_from_id i = unat (endian_reverse_u32 (ucast (hash0 i)))"

definition header_block_num :: "'k block_header \<Rightarrow> nat" where
  "header_block_num h = u32 (num_from_id (previous h) + 1)"

definition header_digest :: "('k, 's) crypto \<Rightarrow> 'k block_header \<Rightarrow> sha256" where
  "header_digest c h = hash_header c h"

definition header_id :: "('k, 's) crypto \<Rightarrow> 'k block_header \<Rightarrow> block_id_type" where
  "header_id c h =
     (let d = header_digest c h;
          d = d\<lparr>hash0 := hash0 d AND 0xffffffff00000000\<rparr>
      in d\<lparr>hash0 := hash0 d + ucast (endian_reverse_u32 (of_nat (header_block_num h)))\<rparr>)"

section \<open>Facts\<close>

lemma endian_reverse_involution: "endian_reverse_u32 (endian_reverse_u32 x) = x"
proof (rule bit_word_eqI)
  fix n
  assume "n < LENGTH(32)"
  then have n: "n < 32" by simp
  have m: "y AND 0xFF = take_bit 8 y" for y :: "32 word" by (simp add: take_bit_eq_mask mask_numeral)
  consider "n < 8" | k where "n = 8 + k" "k < 8" | k where "n = 16 + k" "k < 8" | k where "n = 24 + k" "k < 8"
  proof (cases "n < 8")
    case False
    then have "n = 8 + (n - 8) \<and> n - 8 < 8 \<or> n = 16 + (n - 16) \<and> n - 16 < 8 \<or> n = 24 + (n - 24) \<and> n - 24 < 8"
      using n by linarith
    then show ?thesis using that by blast
  qed
  then show "bit (endian_reverse_u32 (endian_reverse_u32 x)) n = bit x n"
    by cases (simp_all add: endian_reverse_u32_def m bit_simps)
qed

text \<open>Masking the low half and adding a 32-bit value replaces the low half.\<close>

lemma low_half_replaced: "ucast ((w AND 0xffffffff00000000) + ucast (x :: 32 word) :: 64 word) = x"
proof -
  have "(w AND 0xffffffff00000000) AND ucast x = (0 :: 64 word)"
  proof (rule bit_word_eqI)
    fix n
    assume "n < LENGTH(64)"
    have f: "(0xffffffff00000000 :: 64 word) = NOT (mask 32)" by (simp add: mask_numeral)
    show "bit ((w AND 0xffffffff00000000) AND ucast x) n = bit (0 :: 64 word) n"
      unfolding f by (auto simp: bit_simps dest: bit_imp_le_length)
  qed
  then have "(w AND 0xffffffff00000000) + ucast x = (w AND 0xffffffff00000000) OR ucast x"
    by (simp add: disjunctive_add_eq_or)
  moreover have "ucast ((w AND 0xffffffff00000000) OR ucast x :: 64 word) = x"
  proof (rule bit_word_eqI)
    fix n
    assume n: "n < LENGTH(32)"
    have f: "(0xffffffff00000000 :: 64 word) = NOT (mask 32)" by (simp add: mask_numeral)
    show "bit (ucast ((w AND 0xffffffff00000000) OR ucast x :: 64 word) :: 32 word) n = bit x n"
      unfolding f using n by (auto simp: bit_simps)
  qed
  ultimately show ?thesis by simp
qed

lemma num_from_id_header_id: "num_from_id (header_id c h) = header_block_num h"
proof -
  have "header_block_num h < 2 ^ 32" by (simp add: header_block_num_def u32_def)
  then show ?thesis
    by (simp add: num_from_id_def header_id_def Let_def low_half_replaced endian_reverse_involution
        unsigned_of_nat take_bit_nat_eq_self)
qed

lemma schedule_eq_iff: "schedule_eq a b \<longleftrightarrow> a = b"
proof -
  have "length a = n \<Longrightarrow> length b = n \<Longrightarrow> same_producers n a b \<longleftrightarrow> a = b" for n and a b :: "'a producer_key list"
  proof (induction n arbitrary: a b)
    case (Suc n)
    then show ?case by (cases a; cases b) auto
  qed simp
  then show ?thesis by (cases a; cases b) (auto simp: schedule_eq_def)
qed

text \<open>
  A block id carries its block number: reading the number back from the id of any header
  gives the number of its predecessor plus one, whatever the hash function.
\<close>

theorem block_id_carries_number:
  "num_from_id (header_id c h) = u32 (num_from_id (previous h) + 1)"
  using num_from_id_header_id [of c h] by (simp add: header_block_num_def)

text \<open>
  Timestamps convert to times and back without loss for every 32-bit slot, and the time of
  a later slot is later by 500 ms per slot.
\<close>

theorem timestamp_roundtrip:
  assumes "slot < 2 ^ 32"
  shows "set_time_point (to_time_point slot) = slot
    \<and> to_time_point slot = (int slot * 500 + 946684800000) * 1000"
proof -
  have t: "to_time_point slot = (int slot * 500 + 946684800000) * 1000"
    using assms by (simp add: to_time_point_def interval_ms_def epoch_ms_def s64_id)
  have "\<bar>to_time_point slot\<bar> div 1000 = int slot * 500 + 946684800000"
    unfolding t by simp
  moreover have "sgn (to_time_point slot) = 1" by (simp add: t)
  ultimately have "set_time_point (to_time_point slot) = u32 (int_to_u64 (int slot * 500) div 500)"
    by (simp add: set_time_point_def interval_ms_def epoch_ms_def)
  also have "int_to_u64 (int slot * 500) = slot * 500"
    using assms by (simp add: int_to_u64_def nat_mult_distrib)
  finally show ?thesis using t assms by simp
qed

theorem timestamp_roundtrip_witness:
  "(7 :: nat) < 2 ^ 32 \<and> set_time_point (to_time_point 7) = 7 \<and> to_time_point 7 = (7 * 500 + 946684800000) * 1000"
proof -
  have s: "(7 :: nat) < 2 ^ 32" by simp
  show ?thesis using s timestamp_roundtrip [OF s, unfolded of_nat_numeral] by blast
qed

end
