(* ===== verification/HeaderState.thy ===== *)
theory HeaderState
  imports Headers "HOL-Library.Multiset"
begin

text \<open>
  The header state of a block and its transition to the next block
  (\<^verbatim>\<open>libraries/chain/include/eosio/chain/block_header_state.hpp\<close> and
  \<^verbatim>\<open>libraries/chain/block_header_state.cpp\<close>): scheduling, confirmation counting, DPOS
  irreversibility, schedule changes and signatures.  Block numbers are \<open>nat\<close> below \<open>2^32\<close>
  with the wrap-around written out; the confirmation counters are 8-bit words.
\<close>

unbundle bit_operations_syntax

definition producer_repetitions :: nat where "producer_repetitions = 12"
definition maximum_tracked_dpos_confirmations :: nat where "maximum_tracked_dpos_confirmations = 1024"

record ('k, 's) block_header_state =
  bs_id :: block_id_type
  block_num :: nat
  header :: "('k, 's) signed_block_header"
  dpos_proposed_irreversible_blocknum :: nat
  dpos_irreversible_blocknum :: nat
  bft_irreversible_blocknum :: nat
  pending_schedule_lib_num :: nat
  pending_schedule_hash :: sha256
  pending_schedule :: "'k producer_schedule_type"
  active_schedule :: "'k producer_schedule_type"
  blockroot_merkle :: incremental_merkle
  producer_to_last_produced :: "(account_name \<times> nat) list"
  producer_to_last_implied_irb :: "(account_name \<times> nat) list"
  bs_signing_key :: 'k
  confirm_count :: "8 word list"
  confirmations :: "'s header_confirmation list"

section \<open>Operations\<close>

definition has_pending_producers :: "('k, 's) block_header_state \<Rightarrow> bool" where
  "has_pending_producers s \<longleftrightarrow> length (producers (pending_schedule s)) \<noteq> 0"

definition is_active_producer :: "account_name \<Rightarrow> ('k, 's) block_header_state \<Rightarrow> bool" where
  "is_active_producer n s \<longleftrightarrow> map_of (producer_to_last_produced s) n \<noteq> None"

definition get_scheduled_producer :: "nat \<Rightarrow> ('k, 's) block_header_state \<Rightarrow> 'k producer_key result" where
  "get_scheduled_producer slot s =
     (let n = length (producers (active_schedule s)) in
      if n * producer_repetitions = 0 then Inl undefined_behaviour
      else Inr (producers (active_schedule s) ! (slot mod (n * producer_repetitions) div producer_repetitions)))"

definition calc_dpos_last_irreversible :: "(account_name \<times> nat) list \<Rightarrow> nat" where
  "calc_dpos_last_irreversible irb =
     (let blocknums = map snd irb in
      if length blocknums = 0 then 0 else sort blocknums ! ((length blocknums - 1) div 3))"

definition empty_header :: "('k, 's) crypto \<Rightarrow> ('k, 's) signed_block_header" where
  "empty_header c = \<lparr>timestamp = 0, producer = 0, confirmed = 1, previous = null_digest,
     transaction_mroot = null_digest, action_mroot = null_digest, schedule_version = 0,
     new_producers = None, header_extensions = [], producer_signature = no_signature c\<rparr>"

text \<open>The confirmation window: grow it, or shift it once it has its maximal length.\<close>

definition grow_confirm_count :: "nat \<Rightarrow> 8 word list \<Rightarrow> 8 word list" where
  "grow_confirm_count required_confs cs =
     (if length cs < maximum_tracked_dpos_confirmations then cs @ [of_nat required_confs]
      else drop 1 cs @ [of_nat required_confs])"

definition generate_next ::
    "('k, 's) crypto \<Rightarrow> nat \<Rightarrow> ('k, 's) block_header_state \<Rightarrow> ('k, 's) block_header_state result" where
  "generate_next c slot s =
     bind_r (if slot \<noteq> 0 then
               bind_r (eos_assert (slot > timestamp (header s)) block_validate_exception) (\<lambda>_. Inr slot)
             else Inr (u32 (timestamp (header s) + 1))) (\<lambda>slot.
     bind_r (get_scheduled_producer slot s) (\<lambda>prokey.
     bind_r (append_node (hash_two c) (bs_id s) (blockroot_merkle s)) (\<lambda>merkle.
     let num = u32 (block_num s + 1);
         irb = flat_set (producer_name prokey) (dpos_proposed_irreversible_blocknum s)
                 (producer_to_last_implied_irb s);
         required_confs = u32 (length (producers (active_schedule s)) * 2 div 3) + 1
     in Inr \<lparr>
       bs_id = null_digest,
       block_num = num,
       header = (empty_header c)\<lparr>timestamp := slot, previous := bs_id s,
         schedule_version := version (active_schedule s), producer := producer_name prokey\<rparr>,
       dpos_proposed_irreversible_blocknum = dpos_proposed_irreversible_blocknum s,
       dpos_irreversible_blocknum = calc_dpos_last_irreversible irb,
       bft_irreversible_blocknum = bft_irreversible_blocknum s,
       pending_schedule_lib_num = pending_schedule_lib_num s,
       pending_schedule_hash = pending_schedule_hash s,
       pending_schedule = pending_schedule s,
       active_schedule = active_schedule s,
       blockroot_merkle = merkle,
       producer_to_last_produced = flat_set (producer_name prokey) num (producer_to_last_produced s),
       producer_to_last_implied_irb = irb,
       bs_signing_key = block_signing_key prokey,
       confirm_count = grow_confirm_count required_confs (confirm_count s),
       confirmations = []\<rparr>)))"

text \<open>The per-producer map of a promoted schedule: keep what is known, else start at \<open>lib\<close>.\<close>

definition carry_over :: "nat \<Rightarrow> (account_name \<times> nat) list \<Rightarrow> 'k producer_key list \<Rightarrow> (account_name \<times> nat) list" where
  "carry_over lib old ps =
     fold (\<lambda>pro m. flat_set (producer_name pro)
       (case map_of old (producer_name pro) of Some v \<Rightarrow> v | None \<Rightarrow> lib) m) ps []"

definition maybe_promote_pending :: "('k, 's) block_header_state \<Rightarrow> bool \<times> ('k, 's) block_header_state" where
  "maybe_promote_pending s =
     (if length (producers (pending_schedule s)) \<noteq> 0
        \<and> dpos_irreversible_blocknum s \<ge> pending_schedule_lib_num s
      then
        let active = pending_schedule s;
            lib = dpos_irreversible_blocknum s;
            produced = carry_over lib (producer_to_last_produced s) (producers active);
            irb = carry_over lib (producer_to_last_implied_irb s) (producers active)
        in (True, s\<lparr>active_schedule := active,
              pending_schedule := (pending_schedule s)\<lparr>producers := []\<rparr>,
              producer_to_last_produced := flat_set (producer (header s)) (block_num s) produced,
              producer_to_last_implied_irb := irb\<rparr>)
      else (False, s))"

definition set_new_producers ::
    "('k, 's) crypto \<Rightarrow> 'k producer_schedule_type \<Rightarrow> ('k, 's) block_header_state \<Rightarrow> ('k, 's) block_header_state result" where
  "set_new_producers c pend s =
     bind_r (eos_assert (version pend = u32 (version (active_schedule s) + 1)) producer_schedule_exception) (\<lambda>_.
     bind_r (eos_assert (length (producers (pending_schedule s)) = 0) producer_schedule_exception) (\<lambda>_.
     Inr (s\<lparr>header := (header s)\<lparr>new_producers := Some pend\<rparr>,
            pending_schedule_hash := hash_schedule c pend,
            pending_schedule := pend,
            pending_schedule_lib_num := block_num s\<rparr>)))"

text \<open>The loop of \<open>set_confirmed\<close>: the first argument is \<open>i + 1\<close>.\<close>

fun set_confirmed_loop :: "nat \<Rightarrow> nat \<Rightarrow> ('k, 's) block_header_state \<Rightarrow> ('k, 's) block_header_state" where
  "set_confirmed_loop 0 blocks_to_confirm s = s"
| "set_confirmed_loop (Suc i) blocks_to_confirm s =
     (if blocks_to_confirm = 0 then s
      else
        let cs = (confirm_count s)[i := confirm_count s ! i - 1];
            s = s\<lparr>confirm_count := cs\<rparr>
        in if cs ! i = 0
           then s\<lparr>dpos_proposed_irreversible_blocknum :=
                    nat ((int (block_num s) - int (length cs - 1 - i)) mod 2 ^ 32),
                  confirm_count := drop (i + 1) cs\<rparr>
           else set_confirmed_loop i (blocks_to_confirm - 1) s)"

definition set_confirmed :: "nat \<Rightarrow> ('k, 's) block_header_state \<Rightarrow> ('k, 's) block_header_state" where
  "set_confirmed num_prev_blocks s =
     set_confirmed_loop (length (confirm_count s)) (num_prev_blocks + 1)
       (s\<lparr>header := (header s)\<lparr>confirmed := num_prev_blocks\<rparr>\<rparr>)"

definition sig_digest :: "('k, 's) crypto \<Rightarrow> ('k, 's) block_header_state \<Rightarrow> sha256 result" where
  "sig_digest c s =
     bind_r (get_root (blockroot_merkle s)) (\<lambda>root.
     let header_bmroot = hash_two c (header_digest c (block_header.truncate (header s)), root)
     in Inr (hash_two c (header_bmroot, pending_schedule_hash s)))"

definition sign :: "('k, 's) crypto \<Rightarrow> (sha256 \<Rightarrow> 's) \<Rightarrow> ('k, 's) block_header_state \<Rightarrow> ('k, 's) block_header_state result" where
  "sign c signer s =
     bind_r (sig_digest c s) (\<lambda>d.
     let s = s\<lparr>header := (header s)\<lparr>producer_signature := signer d\<rparr>\<rparr> in
     bind_r (recover c (producer_signature (header s)) d False) (\<lambda>k.
     bind_r (eos_assert (bs_signing_key s = k) wrong_signing_key) (\<lambda>_.
     Inr s)))"

definition signee :: "('k, 's) crypto \<Rightarrow> ('k, 's) block_header_state \<Rightarrow> 'k result" where
  "signee c s = bind_r (sig_digest c s) (\<lambda>d. recover c (producer_signature (header s)) d True)"

definition next_state ::
    "('k, 's) crypto \<Rightarrow> ('k, 's) signed_block_header \<Rightarrow> bool \<Rightarrow> ('k, 's) block_header_state \<Rightarrow> ('k, 's) block_header_state result" where
  "next_state c h trust s =
     bind_r (eos_assert (timestamp h \<noteq> 0) block_validate_exception) (\<lambda>_.
     bind_r (eos_assert (length (header_extensions h) = 0) block_validate_exception) (\<lambda>_.
     bind_r (eos_assert (timestamp h > timestamp (header s)) block_validate_exception) (\<lambda>_.
     bind_r (eos_assert (previous h = bs_id s) unlinkable_block_exception) (\<lambda>_.
     bind_r (generate_next c (timestamp h) s) (\<lambda>res.
     bind_r (eos_assert (producer (header res) = producer h) wrong_producer) (\<lambda>_.
     bind_r (eos_assert (schedule_version (header res) = schedule_version h) producer_schedule_exception) (\<lambda>_.
     bind_r (case map_of (producer_to_last_produced s) (producer h) of
               None \<Rightarrow> Inr ()
             | Some last_produced \<Rightarrow>
                 eos_assert (int last_produced < (int (block_num res) - int (confirmed h)) mod 2 ^ 32)
                   producer_double_confirm) (\<lambda>_.
     let res = set_confirmed (confirmed h) res;
         (was_pending_promoted, res) = maybe_promote_pending res
     in bind_r (case new_producers h of
                  None \<Rightarrow> Inr res
                | Some ps \<Rightarrow>
                    bind_r (eos_assert (\<not> was_pending_promoted) producer_schedule_exception) (\<lambda>_.
                    set_new_producers c ps res)) (\<lambda>res.
        let res = res\<lparr>header := (header res)\<lparr>action_mroot := action_mroot h,
                    transaction_mroot := transaction_mroot h, producer_signature := producer_signature h\<rparr>\<rparr>;
            res = res\<lparr>bs_id := header_id c (block_header.truncate (header res))\<rparr>
        in bind_r (if trust then Inr ()
                   else bind_r (signee c res) (\<lambda>k. eos_assert (bs_signing_key res = k) wrong_signing_key)) (\<lambda>_.
           Inr res))))))))))"

definition add_confirmation ::
    "('k, 's) crypto \<Rightarrow> 's header_confirmation \<Rightarrow> ('k, 's) block_header_state \<Rightarrow> ('k, 's) block_header_state result" where
  "add_confirmation c conf s =
     bind_r (eos_assert (list_all (\<lambda>x. conf_producer x \<noteq> conf_producer conf) (confirmations s))
               producer_double_confirm) (\<lambda>_.
     let key = get_producer_key (no_key c) (active_schedule s) (conf_producer conf) in
     bind_r (eos_assert (key \<noteq> no_key c) producer_not_in_schedule) (\<lambda>_.
     bind_r (sig_digest c s) (\<lambda>d.
     bind_r (recover c (conf_signature conf) d True) (\<lambda>signer.
     bind_r (eos_assert (signer = key) wrong_signing_key) (\<lambda>_.
     Inr (s\<lparr>confirmations := confirmations s @ [conf]\<rparr>))))))"

section \<open>Scheduling\<close>

lemma mod_mult_div: "(t :: nat) mod (n * r) div r = t div r mod n" if "0 < r"
proof -
  have "t mod (r * n) = r * (t div r mod n) + t mod r" by (rule mod_mult2_eq)
  then show ?thesis using that by (simp add: mult.commute [of n r])
qed

lemma get_scheduled_producer_eq:
  assumes "producers (active_schedule s) \<noteq> []"
  shows "get_scheduled_producer slot s =
    Inr (producers (active_schedule s) ! (slot div 12 mod length (producers (active_schedule s))))"
  using assms mod_mult_div [of 12 slot "length (producers (active_schedule s))"]
  by (simp add: get_scheduled_producer_def producer_repetitions_def)

section \<open>DPOS irreversibility\<close>

definition vouchers :: "nat \<Rightarrow> (account_name \<times> nat) list \<Rightarrow> nat" where
  "vouchers n irb = length (filter (\<lambda>p. n \<le> snd p) irb)"

lemma vouchers_sort: "vouchers n irb = length (filter (\<lambda>v. n \<le> v) (sort (map snd irb)))"
proof -
  have "vouchers n irb = length (filter (\<lambda>v. n \<le> v) (map snd irb))"
    by (simp add: vouchers_def filter_map comp_def)
  also have "\<dots> = size (filter_mset (\<lambda>v. n \<le> v) (mset (map snd irb)))"
    by (simp only: mset_filter [symmetric] size_mset)
  also have "mset (map snd irb) = mset (sort (map snd irb))" by simp
  also have "size (filter_mset (\<lambda>v. n \<le> v) (mset (sort (map snd irb)))) = length (filter (\<lambda>v. n \<le> v) (sort (map snd irb)))"
    by (simp only: mset_filter [symmetric] size_mset)
  finally show ?thesis .
qed

lemma sorted_count_ge:
  assumes "sorted xs" and "k < length xs"
  shows "length xs - k \<le> length (filter (\<lambda>v. xs ! k \<le> v) xs)"
proof -
  have "filter (\<lambda>v. xs ! k \<le> v) (drop k xs) = drop k xs"
    using assms by (auto simp: filter_id_conv in_set_conv_nth sorted_nth_mono)
  moreover have "length (filter (\<lambda>v. xs ! k \<le> v) (drop k xs)) \<le> length (filter (\<lambda>v. xs ! k \<le> v) xs)"
    by (subst (2) append_take_drop_id [of k xs, symmetric], subst filter_append) simp
  ultimately show ?thesis by simp
qed

lemma sorted_count_gt:
  assumes "sorted xs" and "k < length xs" and "xs ! k < n"
  shows "length (filter (\<lambda>v. n \<le> v) xs) \<le> length xs - (k + 1)"
proof -
  have "filter (\<lambda>v. n \<le> v) (take (k + 1) xs) = []"
  proof -
    have "xs ! i < n" if "i \<le> k" for i
      using sorted_nth_mono [OF assms(1) that assms(2)] assms(3) by simp
    then show ?thesis by (auto simp: filter_empty_conv in_set_conv_nth not_le less_Suc_eq_le)
  qed
  then have "filter (\<lambda>v. n \<le> v) xs = filter (\<lambda>v. n \<le> v) (drop (k + 1) xs)"
    by (metis append_take_drop_id filter_append self_append_conv2)
  then show ?thesis by (metis length_drop length_filter_le)
qed

lemma calc_dpos_spec:
  assumes "irb \<noteq> []"
  shows "2 * length irb < 3 * vouchers (calc_dpos_last_irreversible irb) irb"
    and "2 * length irb < 3 * vouchers n irb \<Longrightarrow> n \<le> calc_dpos_last_irreversible irb"
proof -
  let ?xs = "sort (map snd irb)" and ?k = "(length irb - 1) div 3"
  have "0 < length irb" using assms by simp
  then have "?k < length irb" by linarith
  then have k: "?k < length ?xs" by simp
  have c: "calc_dpos_last_irreversible irb = ?xs ! ?k"
    using assms by (simp add: calc_dpos_last_irreversible_def)
  have "length irb - ?k \<le> vouchers (?xs ! ?k) irb"
    using sorted_count_ge [OF _ k] by (simp add: vouchers_sort)
  moreover have "3 * ?k \<le> length irb - 1" by simp
  moreover have "0 < length irb" using assms by simp
  ultimately show "2 * length irb < 3 * vouchers (calc_dpos_last_irreversible irb) irb"
    unfolding c by linarith
  assume v: "2 * length irb < 3 * vouchers n irb"
  show "n \<le> calc_dpos_last_irreversible irb"
  proof (rule ccontr)
    assume "\<not> ?thesis"
    then have "vouchers n irb \<le> length irb - (?k + 1)"
      using sorted_count_gt [OF _ k, of n] by (simp add: c vouchers_sort)
    moreover have "length irb - 1 < 3 * (?k + 1)" by simp
    ultimately show False using v by linarith
  qed
qed

text \<open>
  C26. The DPOS last irreversible block is the highest block number that more than two thirds of
  the producers vouch for: strictly more than two thirds have implied that block or a later one,
  and no higher number has such a majority.
\<close>

theorem dpos_lib_is_two_thirds_quantile:
  assumes "irb \<noteq> []"
  shows "2 * length irb < 3 * length (filter (\<lambda>p. calc_dpos_last_irreversible irb \<le> snd p) irb)
    \<and> (\<forall>n. 2 * length irb < 3 * length (filter (\<lambda>p. n \<le> snd p) irb) \<longrightarrow> n \<le> calc_dpos_last_irreversible irb)"
  using calc_dpos_spec [OF assms] by (simp add: vouchers_def)

theorem dpos_lib_is_two_thirds_quantile_witness:
  "calc_dpos_last_irreversible [(1, 10), (2, 7), (3, 3), (4, 9)] = 7 \<and>
   2 * 4 < 3 * length (filter (\<lambda>p. 7 \<le> snd p) [(1 :: account_name, 10), (2, 7), (3, 3), (4, 9 :: nat)])"
proof -
  have c: "calc_dpos_last_irreversible [(1, 10), (2, 7), (3, 3), (4, 9)] = 7" by code_simp
  show ?thesis
    using c dpos_lib_is_two_thirds_quantile [of "[(1, 10), (2, 7), (3, 3), (4, 9)]"] by simp
qed

text \<open>Raising one producer to a value no other exceeds does not lower the quantile.\<close>

lemma vouchers_le_length: "vouchers n irb \<le> length irb"
  by (simp add: vouchers_def)

lemma vouchers_flat_set:
  assumes "flat_ok irb" and "\<forall>p\<in>set irb. snd p \<le> v" and "n \<le> v"
  shows "vouchers n irb \<le> vouchers n (flat_set k v irb)"
    and "length (flat_set k v irb) = length irb \<or>
      length (flat_set k v irb) = Suc (length irb) \<and> vouchers n (flat_set k v irb) = Suc (vouchers n irb)"
  using assms
  by (induction k v irb rule: flat_set.induct) (auto simp: vouchers_def flat_ok_def)

lemma calc_dpos_flat_set_mono:
  assumes "flat_ok irb" and "\<forall>p\<in>set irb. snd p \<le> v"
  shows "calc_dpos_last_irreversible irb \<le> calc_dpos_last_irreversible (flat_set k v irb)"
proof (cases "irb = []")
  case True
  then show ?thesis by (simp add: calc_dpos_last_irreversible_def)
next
  case False
  let ?n = "calc_dpos_last_irreversible irb" and ?irb = "flat_set k v irb"
  note spec = calc_dpos_spec [OF False]
  have "0 < vouchers ?n irb" using spec(1) by linarith
  then have "?n \<le> v" using assms(2) by (fastforce simp: vouchers_def filter_empty_conv)
  note f = vouchers_flat_set [OF assms this, of k]
  have "?irb \<noteq> []" by simp
  moreover have "2 * length ?irb < 3 * vouchers ?n ?irb" using spec(1) f by linarith
  ultimately show ?thesis by (rule calc_dpos_spec(2))
qed

section \<open>The well-formed states\<close>

definition hs_ok :: "('k, 's) block_header_state \<Rightarrow> bool" where
  "hs_ok s \<longleftrightarrow>
     flat_ok (producer_to_last_implied_irb s)
     \<and> (\<forall>p\<in>set (producer_to_last_implied_irb s). snd p \<le> dpos_proposed_irreversible_blocknum s)
     \<and> dpos_proposed_irreversible_blocknum s + length (confirm_count s) \<le> block_num s
     \<and> dpos_irreversible_blocknum s \<le> dpos_proposed_irreversible_blocknum s
     \<and> block_num s = num_from_id (bs_id s)
     \<and> producers (active_schedule s) \<noteq> []
     \<and> (producers (pending_schedule s) \<noteq> [] \<longrightarrow>
          version (pending_schedule s) = u32 (version (active_schedule s) + 1))"

lemma set_confirmed_loop_frame:
  "\<exists>cs p. set_confirmed_loop i b s = s\<lparr>confirm_count := cs, dpos_proposed_irreversible_blocknum := p\<rparr>"
proof (induction i arbitrary: b s)
  case 0
  have "s = s\<lparr>confirm_count := confirm_count s,
      dpos_proposed_irreversible_blocknum := dpos_proposed_irreversible_blocknum s\<rparr>" by simp
  then show ?case by (simp only: set_confirmed_loop.simps) blast
next
  case (Suc i)
  let ?cs = "(confirm_count s)[i := confirm_count s ! i - 1]"
  let ?p = "nat ((int (block_num s) - int (length ?cs - 1 - i)) mod 2 ^ 32)"
  have id: "s = s\<lparr>confirm_count := confirm_count s,
      dpos_proposed_irreversible_blocknum := dpos_proposed_irreversible_blocknum s\<rparr>" by simp
  have zero: "s\<lparr>confirm_count := ?cs\<rparr>\<lparr>dpos_proposed_irreversible_blocknum := ?p, confirm_count := drop (i + 1) ?cs\<rparr>
      = s\<lparr>confirm_count := drop (i + 1) ?cs, dpos_proposed_irreversible_blocknum := ?p\<rparr>"
    by (cases s) simp
  have rec: "\<exists>cs p. set_confirmed_loop i (b - 1) (s\<lparr>confirm_count := ?cs\<rparr>) =
      s\<lparr>confirm_count := cs, dpos_proposed_irreversible_blocknum := p\<rparr>"
    using Suc [of "b - 1" "s\<lparr>confirm_count := ?cs\<rparr>"] by simp
  consider "b = 0" | "b \<noteq> 0" "?cs ! i = 0" | "b \<noteq> 0" "?cs ! i \<noteq> 0" by blast
  then show ?case
  proof cases
    case 1
    then have "set_confirmed_loop (Suc i) b s = s" by simp
    then show ?thesis using id by (intro exI) (erule trans)
  next
    case 2
    then have "set_confirmed_loop (Suc i) b s =
        s\<lparr>confirm_count := drop (i + 1) ?cs, dpos_proposed_irreversible_blocknum := ?p\<rparr>"
      by (simp only: set_confirmed_loop.simps if_False Let_def zero [symmetric]) simp
    then show ?thesis by blast
  next
    case 3
    then show ?thesis using rec by (simp add: Let_def)
  qed
qed

lemma set_confirmed_loop_window:
  assumes "dpos_proposed_irreversible_blocknum s + length (confirm_count s) \<le> block_num s"
    and "i \<le> length (confirm_count s)" and "block_num s < 2 ^ 32"
  shows "dpos_proposed_irreversible_blocknum s \<le> dpos_proposed_irreversible_blocknum (set_confirmed_loop i b s)
    \<and> dpos_proposed_irreversible_blocknum (set_confirmed_loop i b s)
        + length (confirm_count (set_confirmed_loop i b s)) \<le> block_num s"
  using assms
proof (induction i arbitrary: b s)
  case 0
  then show ?case by simp
next
  case (Suc i)
  let ?cs = "(confirm_count s)[i := confirm_count s ! i - 1]"
  show ?case
  proof (cases "b \<noteq> 0 \<and> ?cs ! i = 0")
    case True
    let ?dist = "length (confirm_count s) - 1 - i"
    have le: "?dist \<le> block_num s" using Suc.prems by simp
    have "(int (block_num s) - int ?dist) mod 2 ^ 32 = int (block_num s - ?dist)"
      using Suc.prems(3) le by (simp add: of_nat_diff)
    then have "nat ((int (block_num s) - int ?dist) mod 2 ^ 32) = block_num s - ?dist" by simp
    then show ?thesis using True Suc.prems by (simp add: Let_def)
  next
    case False
    then show ?thesis
      using Suc.IH [of "s\<lparr>confirm_count := ?cs\<rparr>" "b - 1"] Suc.prems by (auto simp: Let_def)
  qed
qed

lemma set_confirmed_frame:
  "\<exists>cs p. set_confirmed n s = s\<lparr>header := (header s)\<lparr>confirmed := n\<rparr>, confirm_count := cs,
     dpos_proposed_irreversible_blocknum := p\<rparr>"
  using set_confirmed_loop_frame [of "length (confirm_count s)" "n + 1" "s\<lparr>header := (header s)\<lparr>confirmed := n\<rparr>\<rparr>"]
  by (simp add: set_confirmed_def)

lemma set_confirmed_window:
  assumes "dpos_proposed_irreversible_blocknum s + length (confirm_count s) \<le> block_num s"
    and "block_num s < 2 ^ 32"
  shows "dpos_proposed_irreversible_blocknum s \<le> dpos_proposed_irreversible_blocknum (set_confirmed n s)"
    and "dpos_proposed_irreversible_blocknum (set_confirmed n s) + length (confirm_count (set_confirmed n s)) \<le> block_num s"
  using set_confirmed_loop_window [of "s\<lparr>header := (header s)\<lparr>confirmed := n\<rparr>\<rparr>" "length (confirm_count s)" "n + 1"] assms
  by (simp_all add: set_confirmed_def)

lemma flat_set_values: "flat_ok m \<Longrightarrow> (k', v') \<in> set (flat_set k v m) \<Longrightarrow> v' = v \<or> (k', v') \<in> set m"
  by (simp add: set_flat_set) auto

lemma carry_over_ok:
  "flat_ok (carry_over lib old ps) \<and>
   (\<forall>p\<in>set (carry_over lib old ps). snd p = lib \<or> snd p \<in> snd ` set old)"
proof -
  let ?f = "\<lambda>pro m. flat_set (producer_name pro)
    (case map_of old (producer_name pro) of Some v \<Rightarrow> v | None \<Rightarrow> lib) m"
  have gen: "flat_ok m \<Longrightarrow> (\<forall>p\<in>set m. snd p = lib \<or> snd p \<in> snd ` set old) \<Longrightarrow>
      flat_ok (fold ?f ps m) \<and> (\<forall>p\<in>set (fold ?f ps m). snd p = lib \<or> snd p \<in> snd ` set old)" for m
  proof (induction ps arbitrary: m)
    case (Cons pro ps)
    have "\<forall>p\<in>set (?f pro m). snd p = lib \<or> snd p \<in> snd ` set old"
    proof
      fix p
      assume "p \<in> set (?f pro m)"
      then consider "p \<in> set m" | "map_of old (producer_name pro) = None" "snd p = lib"
        | "map_of old (producer_name pro) = Some (snd p)"
        using Cons.prems(1) by (auto simp: set_flat_set split: option.splits)
      then show "snd p = lib \<or> snd p \<in> snd ` set old"
        using Cons.prems(2) by cases (auto dest!: map_of_SomeD intro: rev_image_eqI)
    qed
    then show ?case using Cons.IH [OF flat_ok_set [OF Cons.prems(1)]] by simp
  qed simp
  show ?thesis using gen [of "[]"] by (simp add: carry_over_def)
qed

lemma generate_next_result:
  assumes "generate_next c slot s = Inr s'"
  obtains slot' pk m where "get_scheduled_producer slot' s = Inr pk"
    and "slot' = (if slot \<noteq> 0 then slot else u32 (timestamp (header s) + 1))"
    and "slot \<noteq> 0 \<longrightarrow> timestamp (header s) < slot"
    and "append_node (hash_two c) (bs_id s) (blockroot_merkle s) = Inr m"
    and "timestamp (header s') = slot'" and "previous (header s') = bs_id s"
    and "producer (header s') = producer_name pk" and "bs_signing_key s' = block_signing_key pk"
    and "block_num s' = u32 (block_num s + 1)" and "active_schedule s' = active_schedule s"
    and "pending_schedule s' = pending_schedule s" and "pending_schedule_lib_num s' = pending_schedule_lib_num s"
    and "dpos_proposed_irreversible_blocknum s' = dpos_proposed_irreversible_blocknum s"
    and "producer_to_last_implied_irb s' =
      flat_set (producer_name pk) (dpos_proposed_irreversible_blocknum s) (producer_to_last_implied_irb s)"
    and "dpos_irreversible_blocknum s' = calc_dpos_last_irreversible (producer_to_last_implied_irb s')"
    and "length (confirm_count s') \<le> length (confirm_count s) + 1"
    and "schedule_version (header s') = version (active_schedule s)" and "blockroot_merkle s' = m"
  using assms
  by (auto simp: generate_next_def result_simps Let_def grow_confirm_count_def split: if_splits)

section \<open>The transition\<close>

definition seal :: "('k, 's) crypto \<Rightarrow> ('k, 's) signed_block_header \<Rightarrow> ('k, 's) block_header_state \<Rightarrow> ('k, 's) block_header_state" where
  "seal c h r =
     (let r = r\<lparr>header := (header r)\<lparr>action_mroot := action_mroot h,
                transaction_mroot := transaction_mroot h, producer_signature := producer_signature h\<rparr>\<rparr>
      in r\<lparr>bs_id := header_id c (block_header.truncate (header r))\<rparr>)"

definition apply_new_producers ::
    "('k, 's) crypto \<Rightarrow> ('k, 's) signed_block_header \<Rightarrow> bool \<Rightarrow> ('k, 's) block_header_state \<Rightarrow> ('k, 's) block_header_state result" where
  "apply_new_producers c h promoted q =
     (case new_producers h of None \<Rightarrow> Inr q
      | Some ps \<Rightarrow> bind_r (eos_assert (\<not> promoted) producer_schedule_exception) (\<lambda>_. set_new_producers c ps q))"

lemma seal_fields:
  "block_num (seal c h r) = block_num r" "active_schedule (seal c h r) = active_schedule r"
  "dpos_proposed_irreversible_blocknum (seal c h r) = dpos_proposed_irreversible_blocknum r"
  "dpos_irreversible_blocknum (seal c h r) = dpos_irreversible_blocknum r"
  "producer_to_last_implied_irb (seal c h r) = producer_to_last_implied_irb r"
  "confirm_count (seal c h r) = confirm_count r" "bs_signing_key (seal c h r) = bs_signing_key r"
  "pending_schedule (seal c h r) = pending_schedule r"
  "pending_schedule_lib_num (seal c h r) = pending_schedule_lib_num r"
  "blockroot_merkle (seal c h r) = blockroot_merkle r"
  "previous (header (seal c h r)) = previous (header r)"
  "timestamp (header (seal c h r)) = timestamp (header r)"
  "producer (header (seal c h r)) = producer (header r)"
  "producer_signature (header (seal c h r)) = producer_signature h"
  "bs_id (seal c h r) = header_id c (block_header.truncate (header (seal c h r)))"
  by (simp_all add: seal_def)

lemma next_state_steps:
  assumes "next_state c h trust s = Inr s'"
  obtains g promoted q r where "generate_next c (timestamp h) s = Inr g"
    and "maybe_promote_pending (set_confirmed (confirmed h) g) = (promoted, q)"
    and "apply_new_producers c h promoted q = Inr r" and "s' = seal c h r"
    and "timestamp h \<noteq> 0" and "timestamp (header s) < timestamp h" and "previous h = bs_id s"
    and "producer (header g) = producer h" and "header_extensions h = []"
    and "schedule_version (header g) = schedule_version h"
    and "\<And>v. map_of (producer_to_last_produced s) (producer h) = Some v \<Longrightarrow>
      int v < (int (block_num g) - int (confirmed h)) mod 2 ^ 32"
    and "trust \<or> signee c s' = Inr (bs_signing_key s')"
proof -
  obtain g where g: "generate_next c (timestamp h) s = Inr g"
    using assms by (auto simp: next_state_def result_simps)
  obtain promoted q where mp: "maybe_promote_pending (set_confirmed (confirmed h) g) = (promoted, q)"
    by (cases "maybe_promote_pending (set_confirmed (confirmed h) g)")
  show ?thesis
    using assms g
    unfolding next_state_def mp Let_def prod.case apply_new_producers_def [symmetric]
      seal_def [unfolded Let_def, symmetric]
    by (auto simp: result_simps mp split: if_splits option.splits intro!: that [OF g mp])
qed

lemma apply_new_producers_result:
  assumes "apply_new_producers c h promoted q = Inr r"
  shows "block_num r = block_num q" and "active_schedule r = active_schedule q"
    and "dpos_proposed_irreversible_blocknum r = dpos_proposed_irreversible_blocknum q"
    and "dpos_irreversible_blocknum r = dpos_irreversible_blocknum q"
    and "producer_to_last_implied_irb r = producer_to_last_implied_irb q"
    and "confirm_count r = confirm_count q" and "bs_signing_key r = bs_signing_key q"
    and "blockroot_merkle r = blockroot_merkle q"
    and "previous (header r) = previous (header q)" and "timestamp (header r) = timestamp (header q)"
    and "producer (header r) = producer (header q)"
    and "pending_schedule r = pending_schedule q \<or>
      producers (pending_schedule q) = [] \<and> version (pending_schedule r) = u32 (version (active_schedule q) + 1)"
  using assms
  by (auto simp: apply_new_producers_def set_new_producers_def result_simps split: option.splits)

lemma maybe_promote_result:
  assumes "maybe_promote_pending s = (promoted, q)"
  shows "block_num q = block_num s"
    and "dpos_proposed_irreversible_blocknum q = dpos_proposed_irreversible_blocknum s"
    and "dpos_irreversible_blocknum q = dpos_irreversible_blocknum s"
    and "confirm_count q = confirm_count s" and "bs_signing_key q = bs_signing_key s"
    and "blockroot_merkle q = blockroot_merkle s" and "header q = header s"
    and "promoted \<longleftrightarrow> producers (pending_schedule s) \<noteq> [] \<and> pending_schedule_lib_num s \<le> dpos_irreversible_blocknum s"
    and "\<not> promoted \<Longrightarrow> q = s"
    and "promoted \<Longrightarrow> active_schedule q = pending_schedule s \<and> producers (pending_schedule q) = [] \<and>
      producer_to_last_implied_irb q =
        carry_over (dpos_irreversible_blocknum s) (producer_to_last_implied_irb s) (producers (pending_schedule s))"
  using assms by (auto simp: maybe_promote_pending_def Let_def split: if_splits)

lemma set_confirmed_fields:
  "block_num (set_confirmed n s) = block_num s" "active_schedule (set_confirmed n s) = active_schedule s"
  "dpos_irreversible_blocknum (set_confirmed n s) = dpos_irreversible_blocknum s"
  "producer_to_last_implied_irb (set_confirmed n s) = producer_to_last_implied_irb s"
  "bs_signing_key (set_confirmed n s) = bs_signing_key s"
  "pending_schedule (set_confirmed n s) = pending_schedule s"
  "pending_schedule_lib_num (set_confirmed n s) = pending_schedule_lib_num s"
  "blockroot_merkle (set_confirmed n s) = blockroot_merkle s"
  "previous (header (set_confirmed n s)) = previous (header s)"
  "timestamp (header (set_confirmed n s)) = timestamp (header s)"
  "producer (header (set_confirmed n s)) = producer (header s)"
  using set_confirmed_frame [of n s] by auto

lemma generate_next_ok:
  assumes "generate_next c slot s = Inr g" and "hs_ok s" and "block_num s + 1 < 2 ^ 32"
  shows "block_num g = block_num s + 1"
    and "flat_ok (producer_to_last_implied_irb g)"
    and "\<forall>p\<in>set (producer_to_last_implied_irb g). snd p \<le> dpos_proposed_irreversible_blocknum g"
    and "dpos_proposed_irreversible_blocknum g + length (confirm_count g) \<le> block_num g"
    and "dpos_irreversible_blocknum g \<le> dpos_proposed_irreversible_blocknum g"
    and "calc_dpos_last_irreversible (producer_to_last_implied_irb s) \<le> dpos_irreversible_blocknum g"
proof -
  obtain pk :: "'a producer_key" where num: "block_num g = u32 (block_num s + 1)"
    and pr: "dpos_proposed_irreversible_blocknum g = dpos_proposed_irreversible_blocknum s"
    and irb: "producer_to_last_implied_irb g =
      flat_set (producer_name pk) (dpos_proposed_irreversible_blocknum s) (producer_to_last_implied_irb s)"
    and lib: "dpos_irreversible_blocknum g = calc_dpos_last_irreversible (producer_to_last_implied_irb g)"
    and len: "length (confirm_count g) \<le> length (confirm_count s) + 1"
    by (rule generate_next_result [OF assms(1)]) blast
  have ok: "flat_ok (producer_to_last_implied_irb s)"
    "\<forall>p\<in>set (producer_to_last_implied_irb s). snd p \<le> dpos_proposed_irreversible_blocknum s"
    using assms(2) by (simp_all add: hs_ok_def)
  show n: "block_num g = block_num s + 1" using assms(3) num by simp
  show "flat_ok (producer_to_last_implied_irb g)" unfolding irb by (rule flat_ok_set [OF ok(1)])
  show v: "\<forall>p\<in>set (producer_to_last_implied_irb g). snd p \<le> dpos_proposed_irreversible_blocknum g"
    unfolding irb pr using ok by (auto simp: set_flat_set)
  show "dpos_proposed_irreversible_blocknum g + length (confirm_count g) \<le> block_num g"
    using assms(2) len by (simp add: hs_ok_def pr n)
  have ne: "producer_to_last_implied_irb g \<noteq> []" by (simp add: irb)
  have "0 < vouchers (dpos_irreversible_blocknum g) (producer_to_last_implied_irb g)"
    using calc_dpos_spec(1) [OF ne] by (simp add: lib)
  then show "dpos_irreversible_blocknum g \<le> dpos_proposed_irreversible_blocknum g"
    using v by (fastforce simp: vouchers_def filter_empty_conv)
  show "calc_dpos_last_irreversible (producer_to_last_implied_irb s) \<le> dpos_irreversible_blocknum g"
    unfolding lib irb by (rule calc_dpos_flat_set_mono [OF ok])
qed

lemma next_state_ok:
  assumes "next_state c h trust s = Inr s'" and "hs_ok s" and "block_num s + 1 < 2 ^ 32"
  shows "hs_ok s'" and "block_num s' = block_num s + 1"
    and "dpos_proposed_irreversible_blocknum s \<le> dpos_proposed_irreversible_blocknum s'"
    and "calc_dpos_last_irreversible (producer_to_last_implied_irb s) \<le> dpos_irreversible_blocknum s'"
    and "\<not> (producers (pending_schedule s) \<noteq> [] \<and> pending_schedule_lib_num s \<le> dpos_irreversible_blocknum s')
      \<Longrightarrow> dpos_irreversible_blocknum s' = calc_dpos_last_irreversible (producer_to_last_implied_irb s')
        \<and> active_schedule s' = active_schedule s"
    and "active_schedule s' = active_schedule s \<or>
      version (active_schedule s') = u32 (version (active_schedule s) + 1)
      \<and> active_schedule s' = pending_schedule s \<and> pending_schedule_lib_num s \<le> dpos_irreversible_blocknum s'"
    and "previous (header s') = bs_id s" and "timestamp (header s') = timestamp h"
proof -
  obtain g promoted q r where gen: "generate_next c (timestamp h) s = Inr g"
    and mp: "maybe_promote_pending (set_confirmed (confirmed h) g) = (promoted, q)"
    and ap: "apply_new_producers c h promoted q = Inr r" and s': "s' = seal c h r" and th: "timestamp h \<noteq> 0"
    by (rule next_state_steps [OF assms(1)]) blast
  note g = generate_next_ok [OF gen assms(2,3)]
  note m = maybe_promote_result [OF mp]
  note a = apply_new_producers_result [OF ap]
  obtain slot' where gf: "active_schedule g = active_schedule s" "pending_schedule g = pending_schedule s"
      "pending_schedule_lib_num g = pending_schedule_lib_num s" "previous (header g) = bs_id s"
      "timestamp (header g) = slot'" "slot' = (if timestamp h \<noteq> 0 then timestamp h else u32 (timestamp (header s) + 1))"
      "dpos_irreversible_blocknum g = calc_dpos_last_irreversible (producer_to_last_implied_irb g)"
      "dpos_proposed_irreversible_blocknum g = dpos_proposed_irreversible_blocknum s"
    by (rule generate_next_result [OF gen]) blast
  have "block_num s + 1 < 2 ^ 32" by (fact assms(3))
  then have "block_num g < 2 ^ 32" by (simp add: g(1))
  note w = set_confirmed_window [OF g(4) this, of "confirmed h"]
  show num: "block_num s' = block_num s + 1" by (simp add: s' seal_fields a(1) m(1) set_confirmed_fields g(1))
  show "dpos_proposed_irreversible_blocknum s \<le> dpos_proposed_irreversible_blocknum s'"
    using w(1) by (simp add: s' seal_fields a(3) m(2) gf(8))
  have lib: "dpos_irreversible_blocknum s' = dpos_irreversible_blocknum g"
    by (simp add: s' seal_fields a(4) m(3) set_confirmed_fields)
  show "calc_dpos_last_irreversible (producer_to_last_implied_irb s) \<le> dpos_irreversible_blocknum s'"
    using g(6) by (simp add: lib)
  have promo: "promoted \<longleftrightarrow> producers (pending_schedule s) \<noteq> [] \<and> pending_schedule_lib_num s \<le> dpos_irreversible_blocknum s'"
    using m(8) by (simp add: set_confirmed_fields gf lib)
  show "dpos_irreversible_blocknum s' = calc_dpos_last_irreversible (producer_to_last_implied_irb s')
      \<and> active_schedule s' = active_schedule s"
    if "\<not> (producers (pending_schedule s) \<noteq> [] \<and> pending_schedule_lib_num s \<le> dpos_irreversible_blocknum s')"
    using m(9) promo that lib by (simp add: s' seal_fields a set_confirmed_fields gf)
  have act: "active_schedule s' = (if promoted then pending_schedule s else active_schedule s)"
    using m(9,10) by (simp add: s' seal_fields a set_confirmed_fields gf)
  then show ver: "active_schedule s' = active_schedule s \<or>
      version (active_schedule s') = u32 (version (active_schedule s) + 1)
      \<and> active_schedule s' = pending_schedule s \<and> pending_schedule_lib_num s \<le> dpos_irreversible_blocknum s'"
    using assms(2) promo by (simp add: hs_ok_def)
  show prev: "previous (header s') = bs_id s"
    by (simp add: s' seal_fields a m(7) set_confirmed_fields gf)
  show "timestamp (header s') = timestamp h"
    using th by (simp add: s' seal_fields a m(7) set_confirmed_fields gf)
  have irb: "flat_ok (producer_to_last_implied_irb q) \<and>
    (\<forall>p\<in>set (producer_to_last_implied_irb q). snd p \<le> dpos_proposed_irreversible_blocknum q)"
  proof (cases promoted)
    case False
    then show ?thesis using m(9) g(2,3) w(1) by (auto simp: set_confirmed_fields intro: order_trans)
  next
    case True
    have le: "dpos_irreversible_blocknum g \<le> dpos_proposed_irreversible_blocknum q"
      using g(5) w(1) by (simp add: m(2))
    have "snd p \<le> dpos_proposed_irreversible_blocknum q" if "p \<in> set (producer_to_last_implied_irb g)" for p
      using that g(3) w(1) by (auto simp: m(2) intro: order_trans)
    then show ?thesis
      using True m(10) carry_over_ok [of "dpos_irreversible_blocknum g" "producer_to_last_implied_irb g"] le
      by (fastforce simp: set_confirmed_fields)
  qed
  have win: "dpos_proposed_irreversible_blocknum s' + length (confirm_count s') \<le> block_num s'"
    using w(2) by (simp add: s' seal_fields a m set_confirmed_fields)
  have "num_from_id (bs_id s') = u32 (num_from_id (bs_id s) + 1)"
    unfolding s' seal_fields(15) num_from_id_header_id header_block_num_def
    using prev by (simp add: s' block_header.truncate_def)
  then have idn: "block_num s' = num_from_id (bs_id s')"
    using assms(2,3) num by (simp add: hs_ok_def)
  have "producers (active_schedule s') \<noteq> []"
    using act promo assms(2) by (simp add: hs_ok_def)
  moreover have "producers (pending_schedule s') \<noteq> [] \<longrightarrow> version (pending_schedule s') = u32 (version (active_schedule s') + 1)"
  proof (cases promoted)
    case True
    then show ?thesis using a(12) m(10) by (auto simp: s' seal_fields a(2))
  next
    case False
    then show ?thesis
      using a(12) m(9) assms(2) by (auto simp: s' seal_fields a(2) hs_ok_def set_confirmed_fields gf)
  qed
  moreover have "dpos_irreversible_blocknum s' \<le> dpos_proposed_irreversible_blocknum s'"
    using g(5) w(1) by (simp add: s' seal_fields a m set_confirmed_fields)
  ultimately show "hs_ok s'"
    using irb win idn unfolding hs_ok_def by (simp add: s' seal_fields a)
qed

section \<open>Properties of the chain of headers\<close>

text \<open>A concrete chain for evaluation: keys and signatures are numbers, a signature recovers to itself.\<close>

definition demo_crypto :: "(nat, nat) crypto" where
  "demo_crypto = \<lparr>hash_two = sample_hash, hash_header = (\<lambda>_. null_digest), hash_schedule = (\<lambda>_. null_digest),
     recover = (\<lambda>sg d b. Inr sg), no_key = 0, no_signature = 0\<rparr>"

definition demo_genesis :: "(nat, nat) block_header_state" where
  "demo_genesis = \<lparr>bs_id = \<lparr>hash0 = 0x01000000, hash1 = 0, hash2 = 0, hash3 = 0\<rparr>, block_num = 1,
     header = (empty_header demo_crypto)\<lparr>timestamp := 100\<rparr>, dpos_proposed_irreversible_blocknum = 0,
     dpos_irreversible_blocknum = 0, bft_irreversible_blocknum = 0, pending_schedule_lib_num = 0,
     pending_schedule_hash = null_digest, pending_schedule = \<lparr>version = 0, producers = []\<rparr>,
     active_schedule = \<lparr>version = 0, producers = [\<lparr>producer_name = 5, block_signing_key = 77\<rparr>]\<rparr>,
     blockroot_merkle = empty_merkle, producer_to_last_produced = [], producer_to_last_implied_irb = [],
     bs_signing_key = 77, confirm_count = [], confirmations = []\<rparr>"

definition demo_header :: "(nat, nat) signed_block_header" where
  "demo_header = (empty_header demo_crypto)\<lparr>timestamp := 101, producer := 5, confirmed := 0,
     previous := bs_id demo_genesis, producer_signature := 77\<rparr>"

lemma demo_genesis_ok: "hs_ok demo_genesis"
proof -
  have "num_from_id \<lparr>hash0 = 0x01000000, hash1 = 0, hash2 = 0, hash3 = 0\<rparr> = 1"
    by (simp add: num_from_id_def endian_reverse_u32_def)
  then show ?thesis by (simp add: hs_ok_def demo_genesis_def)
qed

lemma demo_append: "append_node sample_hash d empty_merkle = Inr \<lparr>node_count = 1, active_nodes = [d]\<rparr>"
proof -
  have "calcluate_max_depth 1 = 1"
    using calcluate_max_depth_is_depth [of 0 1] by (simp add: is_depth_def)
  then show ?thesis by (simp add: append_node_def empty_merkle_def)
qed

lemma demo_next: "\<exists>s'. next_state demo_crypto demo_header False demo_genesis = Inr s'"
proof -
  have p: "sample_hash = hash_two demo_crypto" by (simp add: demo_crypto_def)
  have app: "append_node (hash_two demo_crypto) d empty_merkle = Inr \<lparr>node_count = 1, active_nodes = [d]\<rparr>" for d
    using demo_append by (simp add: p)
  show ?thesis
    by (simp add: next_state_def generate_next_def demo_genesis_def demo_header_def empty_header_def
        get_scheduled_producer_def producer_repetitions_def app Let_def set_confirmed_def grow_confirm_count_def
        maximum_tracked_dpos_confirmations_def maybe_promote_pending_def signee_def sig_digest_def get_root_def
        eos_assert_def)
      (simp add: demo_crypto_def)
qed

lemma next_state_producer:
  assumes "next_state c h trust s = Inr s'"
  shows "\<exists>pk. get_scheduled_producer (timestamp h) s = Inr pk \<and> producer (header s') = producer_name pk \<and> bs_signing_key s' = block_signing_key pk"
proof -
  obtain g promoted q r where gen: "generate_next c (timestamp h) s = Inr g"
    and mp: "maybe_promote_pending (set_confirmed (confirmed h) g) = (promoted, q)"
    and ap: "apply_new_producers c h promoted q = Inr r" and s': "s' = seal c h r" and th: "timestamp h \<noteq> 0"
    by (rule next_state_steps [OF assms(1)]) simp
  obtain slot' pk where pk: "get_scheduled_producer slot' s = Inr pk"
    and sl: "slot' = (if timestamp h \<noteq> 0 then timestamp h else u32 (timestamp (header s) + 1))"
    and g: "producer (header g) = producer_name pk" "bs_signing_key g = block_signing_key pk"
    by (rule generate_next_result [OF gen]) blast
  have "producer (header s') = producer (header g)" "bs_signing_key s' = bs_signing_key g"
    by (simp_all add: s' seal_fields apply_new_producers_result [OF ap] maybe_promote_result [OF mp] set_confirmed_fields)
  then show ?thesis using pk sl g th by simp
qed

text \<open>
  C27. Every accepted header keeps the header state well formed and extends the chain: the new
  block's number is one higher and is the number in its id, it links to the previous id at a later
  time, it is of the producer that the active schedule has for that time, the confirmation window covers only blocks after the proposed irreversible one, the
  proposed irreversible block never moves back, and the irreversible block never passes it; the
  active schedule changes only to the pending one, with the next version, once the block that
  proposed it is irreversible.
\<close>

theorem next_header_extends_chain:
  assumes "next_state c h trust s = Inr s'" and "hs_ok s" and "block_num s + 1 < 2 ^ 32"
  shows "hs_ok s' \<and> block_num s' = block_num s + 1 \<and> num_from_id (bs_id s') = block_num s' \<and>
    previous (header s') = bs_id s \<and> timestamp (header s) < timestamp (header s') \<and>
    (\<exists>pk. get_scheduled_producer (timestamp (header s')) s = Inr pk \<and> producer (header s') = producer_name pk) \<and>
    dpos_proposed_irreversible_blocknum s \<le> dpos_proposed_irreversible_blocknum s' \<and>
    dpos_irreversible_blocknum s' \<le> dpos_proposed_irreversible_blocknum s' \<and>
    dpos_proposed_irreversible_blocknum s' \<le> block_num s' \<and>
    (active_schedule s' = active_schedule s \<or>
       active_schedule s' = pending_schedule s \<and> version (active_schedule s') = u32 (version (active_schedule s) + 1) \<and>
       pending_schedule_lib_num s \<le> dpos_irreversible_blocknum s')"
proof -
  note n = next_state_ok [OF assms]
  have "timestamp (header s) < timestamp h" by (rule next_state_steps [OF assms(1)])
  then show ?thesis using n(1-3,6-8) next_state_producer [OF assms(1)] by (auto simp: hs_ok_def)
qed

theorem next_header_extends_chain_witness:
  "\<exists>s'. next_state demo_crypto demo_header False demo_genesis = Inr s' \<and> hs_ok s' \<and> block_num s' = 2 \<and> producer (header s') = 5"
proof -
  obtain s' where s': "next_state demo_crypto demo_header False demo_genesis = Inr s'" using demo_next by blast
  have "block_num demo_genesis = 1" "producers (active_schedule demo_genesis) = [\<lparr>producer_name = 5, block_signing_key = 77\<rparr>]"
    by (simp_all add: demo_genesis_def)
  then show ?thesis
    using s' next_header_extends_chain [OF s' demo_genesis_ok] by (auto simp: get_scheduled_producer_def producer_repetitions_def Let_def)
qed

text \<open>
  C28. The irreversible block number does not move back from one block to the next, as long as the
  stored number is the one of the current producer map, which every block that does not promote a
  schedule leaves true.
\<close>

theorem irreversible_monotone:
  assumes "next_state c h trust s = Inr s'" and "hs_ok s" and "block_num s + 1 < 2 ^ 32"
    and "dpos_irreversible_blocknum s = calc_dpos_last_irreversible (producer_to_last_implied_irb s)"
  shows "dpos_irreversible_blocknum s \<le> dpos_irreversible_blocknum s' \<and>
    (\<not> (producers (pending_schedule s) \<noteq> [] \<and> pending_schedule_lib_num s \<le> dpos_irreversible_blocknum s') \<longrightarrow>
       dpos_irreversible_blocknum s' = calc_dpos_last_irreversible (producer_to_last_implied_irb s'))"
  using next_state_ok(4,5) [OF assms(1-3)] assms(4) by auto

theorem irreversible_monotone_witness:
  "\<exists>s'. next_state demo_crypto demo_header False demo_genesis = Inr s' \<and> 0 \<le> dpos_irreversible_blocknum s' \<and>
     dpos_irreversible_blocknum s' = calc_dpos_last_irreversible (producer_to_last_implied_irb s')"
proof -
  obtain s' where s': "next_state demo_crypto demo_header False demo_genesis = Inr s'" using demo_next by blast
  have "block_num demo_genesis + 1 < 2 ^ 32" "producers (pending_schedule demo_genesis) = []"
    "dpos_irreversible_blocknum demo_genesis = calc_dpos_last_irreversible (producer_to_last_implied_irb demo_genesis)"
    by (simp_all add: demo_genesis_def calc_dpos_last_irreversible_def)
  then show ?thesis using s' irreversible_monotone [OF s' demo_genesis_ok] by auto
qed

text \<open>
  C29. Only the scheduled producer can extend the chain: an untrusted header is accepted only if it
  names the producer whose twelve-slot turn it is and its signature over the signing digest of the
  new state recovers to the block signing key that the active schedule lists for that producer.
\<close>

theorem untrusted_header_signed_by_schedule:
  assumes "next_state c h False s = Inr s'" and "producers (active_schedule s) \<noteq> []"
  shows "\<exists>d. sig_digest c s' = Inr d \<and>
    (let pk = producers (active_schedule s) ! (timestamp h div 12 mod length (producers (active_schedule s)))
     in producer h = producer_name pk \<and> recover c (producer_signature h) d True = Inr (block_signing_key pk))"
proof -
  obtain g promoted q r where gen: "generate_next c (timestamp h) s = Inr g"
    and mp: "maybe_promote_pending (set_confirmed (confirmed h) g) = (promoted, q)"
    and ap: "apply_new_producers c h promoted q = Inr r" and s': "s' = seal c h r"
    and th: "timestamp h \<noteq> 0" and pr: "producer (header g) = producer h"
    and sg: "signee c s' = Inr (bs_signing_key s')"
    by (rule next_state_steps [OF assms(1)]) simp
  obtain slot' and pk :: "'a producer_key" where pk: "get_scheduled_producer slot' s = Inr pk"
    and sl: "slot' = (if timestamp h \<noteq> 0 then timestamp h else u32 (timestamp (header s) + 1))"
    and g: "producer (header g) = producer_name pk" "bs_signing_key g = block_signing_key pk"
    by (rule generate_next_result [OF gen]) blast
  have key: "bs_signing_key s' = block_signing_key pk"
    using g(2) by (simp add: s' seal_fields apply_new_producers_result(7) [OF ap]
        maybe_promote_result(5) [OF mp] set_confirmed_fields)
  have "producer_signature (header s') = producer_signature h" by (simp add: s' seal_fields)
  then obtain d where "sig_digest c s' = Inr d" "recover c (producer_signature h) d True = Inr (block_signing_key pk)"
    using sg key by (auto simp: signee_def result_simps)
  moreover have "pk = producers (active_schedule s) ! (timestamp h div 12 mod length (producers (active_schedule s)))"
    using pk sl th get_scheduled_producer_eq [OF assms(2), of "timestamp h"] by simp
  ultimately show ?thesis using g(1) pr by (auto simp: Let_def)
qed

theorem untrusted_header_signed_by_schedule_witness:
  "\<exists>s' d. next_state demo_crypto demo_header False demo_genesis = Inr s' \<and> sig_digest demo_crypto s' = Inr d \<and>
     recover demo_crypto (producer_signature demo_header) d True = Inr 77"
proof -
  obtain s' where s': "next_state demo_crypto demo_header False demo_genesis = Inr s'" using demo_next by blast
  have "producers (active_schedule demo_genesis) = [\<lparr>producer_name = 5, block_signing_key = 77\<rparr>]"
    by (simp add: demo_genesis_def)
  then show ?thesis using s' untrusted_header_signed_by_schedule [OF s'] by auto
qed

definition demo_handover :: "(nat, nat) block_header_state" where
  "demo_handover = demo_genesis\<lparr>bs_id := \<lparr>hash0 = 0x14000000, hash1 = 0, hash2 = 0, hash3 = 0\<rparr>, block_num := 20,
     dpos_proposed_irreversible_blocknum := 10, dpos_irreversible_blocknum := 10, pending_schedule_lib_num := 4,
     pending_schedule := \<lparr>version = 1, producers = [\<lparr>producer_name = 6, block_signing_key = 66\<rparr>,
       \<lparr>producer_name = 7, block_signing_key = 77\<rparr>]\<rparr>,
     producer_to_last_implied_irb := [(1, 10), (2, 10), (3, 10), (4, 10), (5, 10), (6, 1), (7, 1)]\<rparr>"

lemma demo_handover_ok:
  "hs_ok demo_handover"
  "calc_dpos_last_irreversible (producer_to_last_implied_irb demo_handover) = 10"
proof -
  have "num_from_id \<lparr>hash0 = 0x14000000, hash1 = 0, hash2 = 0, hash3 = 0\<rparr> = 20"
    by (simp add: num_from_id_def endian_reverse_u32_def)
  then show "hs_ok demo_handover"
    by (simp add: hs_ok_def demo_handover_def demo_genesis_def flat_ok_def)
  show "calc_dpos_last_irreversible (producer_to_last_implied_irb demo_handover) = 10"
    by (simp add: calc_dpos_last_irreversible_def demo_handover_def)
qed

text \<open>
  The premise of the previous property matters: promoting a schedule keeps the old implied
  irreversible numbers of the producers that stay, so the block after a promotion can report a lower
  irreversible block number than the one before it, although every state on the way is well formed.
\<close>

theorem irreversible_can_move_back:
  "\<exists>s0 s g :: (nat, nat) block_header_state. hs_ok s0 \<and>
     dpos_irreversible_blocknum s0 = calc_dpos_last_irreversible (producer_to_last_implied_irb s0) \<and>
     maybe_promote_pending s0 = (True, s) \<and> generate_next demo_crypto 0 s = Inr g \<and>
     dpos_irreversible_blocknum g < dpos_irreversible_blocknum s"
proof -
  obtain s where mp: "maybe_promote_pending demo_handover = (True, s)"
    by (simp add: maybe_promote_pending_def demo_handover_def)
  have s: "producer_to_last_implied_irb s = [(6, 1), (7, 1)]" "dpos_irreversible_blocknum s = 10"
    "dpos_proposed_irreversible_blocknum s = 10" "blockroot_merkle s = empty_merkle"
    "producers (active_schedule s) = [\<lparr>producer_name = 6, block_signing_key = 66\<rparr>, \<lparr>producer_name = 7, block_signing_key = 77\<rparr>]"
    "timestamp (header s) = 100"
    using mp by (auto simp: maybe_promote_pending_def demo_handover_def carry_over_def demo_genesis_def Let_def
        empty_header_def)
  have app: "append_node (hash_two demo_crypto) d empty_merkle = Inr \<lparr>node_count = 1, active_nodes = [d]\<rparr>" for d
    using demo_append by (simp add: demo_crypto_def)
  have "\<exists>g. generate_next demo_crypto 0 s = Inr g \<and> dpos_irreversible_blocknum g = 1"
    by (simp add: generate_next_def get_scheduled_producer_def producer_repetitions_def s app Let_def
        calc_dpos_last_irreversible_def)
  then show ?thesis using demo_handover_ok mp s(2) by (force simp: demo_handover_def)
qed

end
