(* ===== verification/Undo.thy ===== *)
theory Undo
  imports Tables
begin

text \<open>
  The undo machinery of the state database
  (\<^verbatim>\<open>libraries/chainbase/include/chainbase/chainbase.hpp\<close>, class \<open>generic_index\<close>, and
  \<^verbatim>\<open>libraries/chainbase/src/chainbase.cpp\<close>): a table of rows by id and a stack of undo
  states that record what each session changed.  The Boost container underneath is modelled by
  its documented behaviour: rows ordered by id and, besides, the unique keys \<open>key (id, v)\<close> of a row, one for each further unique index; an
  insertion or change that would give two rows the same key is refused.  The specification is a
  stack of snapshots; the interface \<open>versioned_store\<close> states it and the undo states implement it.
\<close>

type_synonym oid = nat

section \<open>State\<close>

record 'v undo_state =
  old_values :: "(oid \<times> 'v) list"
  removed_values :: "(oid \<times> 'v) list"
  new_ids :: "oid list"
  old_next_id :: oid
  undo_revision :: int

text \<open>The back of the deque \<open>_stack\<close> is the head of \<open>undo_stack\<close>.\<close>

record 'v generic_index =
  indices :: "(oid \<times> 'v) list"
  next_id :: oid
  revision :: int
  undo_stack :: "'v undo_state list"

definition empty_index :: "'v generic_index" where
  "empty_index = \<lparr>indices = [], next_id = 0, revision = 0, undo_stack = []\<rparr>"

definition enabled :: "'v generic_index \<Rightarrow> bool" where
  "enabled x \<longleftrightarrow> length (undo_stack x) \<noteq> 0"

definition flat_erase :: "oid \<Rightarrow> (oid \<times> 'v) list \<Rightarrow> (oid \<times> 'v) list" where
  "flat_erase i m = filter (\<lambda>p. fst p \<noteq> i) m"

text \<open>\<open>emplace\<close> on a map: an entry that is there stays.\<close>

definition flat_emplace :: "oid \<Rightarrow> 'v \<Rightarrow> (oid \<times> 'v) list \<Rightarrow> (oid \<times> 'v) list" where
  "flat_emplace i v m = (case map_of m i of None \<Rightarrow> flat_set i v m | Some _ \<Rightarrow> m)"

text \<open>
  The further unique keys of a row are given as a list, one entry for each unique index besides the one by id; two rows
  collide when they agree in one of these entries.
\<close>

definition shares_key :: "'k list \<Rightarrow> 'k list \<Rightarrow> bool" where
  "shares_key ks ls \<longleftrightarrow> list_ex (\<lambda>(k, l). k = l) (zip ks ls)"

definition collides :: "(oid \<times> 'v \<Rightarrow> 'k list) \<Rightarrow> oid \<Rightarrow> 'v \<Rightarrow> (oid \<times> 'v) list \<Rightarrow> bool" where
  "collides key i v m \<longleftrightarrow> list_ex (\<lambda>p. fst p \<noteq> i \<and> shares_key (key p) (key (i, v))) m"

section \<open>Recording changes\<close>

definition on_head :: "('v undo_state \<Rightarrow> 'v undo_state) \<Rightarrow> 'v undo_state list \<Rightarrow> 'v undo_state list" where
  "on_head f st = (case st of [] \<Rightarrow> [] | u # us \<Rightarrow> f u # us)"

definition note_modify :: "oid \<Rightarrow> 'v \<Rightarrow> 'v undo_state \<Rightarrow> 'v undo_state" where
  "note_modify i v u =
     (if i \<in> set (new_ids u) then u
      else case map_of (old_values u) i of
        Some _ \<Rightarrow> u
      | None \<Rightarrow> u\<lparr>old_values := flat_set i v (old_values u)\<rparr>)"

definition note_remove :: "oid \<Rightarrow> 'v \<Rightarrow> 'v undo_state \<Rightarrow> 'v undo_state" where
  "note_remove i v u =
     (if i \<in> set (new_ids u) then u\<lparr>new_ids := removeAll i (new_ids u)\<rparr>
      else case map_of (old_values u) i of
        Some w \<Rightarrow> u\<lparr>removed_values := flat_emplace i w (removed_values u), old_values := flat_erase i (old_values u)\<rparr>
      | None \<Rightarrow>
          (case map_of (removed_values u) i of
             Some _ \<Rightarrow> u
           | None \<Rightarrow> u\<lparr>removed_values := flat_set i v (removed_values u)\<rparr>))"

definition note_create :: "oid \<Rightarrow> 'v undo_state \<Rightarrow> 'v undo_state" where
  "note_create i u = u\<lparr>new_ids := List.insert i (new_ids u)\<rparr>"

definition on_modify :: "oid \<Rightarrow> 'v \<Rightarrow> 'v generic_index \<Rightarrow> 'v generic_index" where
  "on_modify i v x = x\<lparr>undo_stack := on_head (note_modify i v) (undo_stack x)\<rparr>"

definition on_remove :: "oid \<Rightarrow> 'v \<Rightarrow> 'v generic_index \<Rightarrow> 'v generic_index" where
  "on_remove i v x = x\<lparr>undo_stack := on_head (note_remove i v) (undo_stack x)\<rparr>"

definition on_create :: "oid \<Rightarrow> 'v generic_index \<Rightarrow> 'v generic_index" where
  "on_create i x = x\<lparr>undo_stack := on_head (note_create i) (undo_stack x)\<rparr>"

section \<open>Operations on rows\<close>

definition emplace :: "(oid \<times> 'v \<Rightarrow> 'k list) \<Rightarrow> 'v \<Rightarrow> 'v generic_index \<Rightarrow> (oid \<times> 'v generic_index) result" where
  "emplace key v x =
     (let new_id = next_id x in
      if map_of (indices x) new_id \<noteq> None \<or> collides key new_id v (indices x) then Inl logic_error
      else
        let x = x\<lparr>indices := flat_set new_id v (indices x), next_id := next_id x + 1\<rparr>
        in Inr (new_id, on_create new_id x))"

definition find_row :: "oid \<Rightarrow> 'v generic_index \<Rightarrow> 'v option" where
  "find_row i x = map_of (indices x) i"

definition get_row :: "oid \<Rightarrow> 'v generic_index \<Rightarrow> 'v result" where
  "get_row i x = option_to_result out_of_range (find_row i x)"

text \<open>
  \<open>modify\<close> and \<open>remove\<close> get a reference to a row of the table; a dangling one is undefined.
  The container's \<open>modify\<close> erases the row when the change collides with another row, and the
  index is left that way when the exception is thrown.
\<close>

definition modify :: "(oid \<times> 'v \<Rightarrow> 'k list) \<Rightarrow> oid \<Rightarrow> ('v \<Rightarrow> 'v) \<Rightarrow> ('v generic_index, unit) act" where
  "modify key i f x =
     (case find_row i x of
        None \<Rightarrow> (Inl undefined_behaviour, x)
      | Some v \<Rightarrow>
          let x = on_modify i v x in
          if collides key i (f v) (indices x) then (Inl logic_error, x\<lparr>indices := flat_erase i (indices x)\<rparr>)
          else (Inr (), x\<lparr>indices := flat_set i (f v) (indices x)\<rparr>))"

definition remove :: "oid \<Rightarrow> 'v generic_index \<Rightarrow> 'v generic_index result" where
  "remove i x =
     (case find_row i x of
        None \<Rightarrow> Inl undefined_behaviour
      | Some v \<Rightarrow> let x = on_remove i v x in Inr (x\<lparr>indices := flat_erase i (indices x)\<rparr>))"

definition remove_object :: "oid \<Rightarrow> 'v generic_index \<Rightarrow> 'v generic_index result" where
  "remove_object i x =
     (case find_row i x of None \<Rightarrow> Inl out_of_range | Some _ \<Rightarrow> remove i x)"

section \<open>Sessions\<close>

definition start_undo_session :: "bool \<Rightarrow> 'v generic_index \<Rightarrow> 'v generic_index" where
  "start_undo_session on x =
     (if on then
        x\<lparr>revision := revision x + 1,
          undo_stack := \<lparr>old_values = [], removed_values = [], new_ids = [], old_next_id = next_id x,
            undo_revision = revision x + 1\<rparr> # undo_stack x\<rparr>
      else x)"

definition restore_value :: "(oid \<times> 'v \<Rightarrow> 'k list) \<Rightarrow> oid \<times> 'v \<Rightarrow> (oid \<times> 'v) list \<Rightarrow> (oid \<times> 'v) list result" where
  "restore_value key p m =
     (if map_of m (fst p) = None then Inl undefined_behaviour
      else if collides key (fst p) (snd p) m then Inl logic_error
      else Inr (flat_set (fst p) (snd p) m))"

definition erase_new :: "oid \<Rightarrow> (oid \<times> 'v) list \<Rightarrow> (oid \<times> 'v) list result" where
  "erase_new i m = (if map_of m i = None then Inl undefined_behaviour else Inr (flat_erase i m))"

definition reinsert :: "(oid \<times> 'v \<Rightarrow> 'k list) \<Rightarrow> oid \<times> 'v \<Rightarrow> (oid \<times> 'v) list \<Rightarrow> (oid \<times> 'v) list result" where
  "reinsert key p m =
     (if map_of m (fst p) \<noteq> None \<or> collides key (fst p) (snd p) m then Inl logic_error
      else Inr (flat_set (fst p) (snd p) m))"

definition undo :: "(oid \<times> 'v \<Rightarrow> 'k list) \<Rightarrow> 'v generic_index \<Rightarrow> 'v generic_index result" where
  "undo key x =
     (case undo_stack x of
        [] \<Rightarrow> Inr x
      | u # us \<Rightarrow>
          bind_r (fold_r (restore_value key) (old_values u) (indices x)) (\<lambda>m.
          bind_r (fold_r erase_new (new_ids u) m) (\<lambda>m.
          bind_r (fold_r (reinsert key) (removed_values u) m) (\<lambda>m.
          Inr (x\<lparr>indices := m, next_id := old_next_id u, undo_stack := us, revision := revision x - 1\<rparr>)))))"

text \<open>The three loops of \<open>squash\<close>, which merge the newest undo state into the one below it.\<close>

definition merge_old :: "oid \<times> 'v \<Rightarrow> 'v undo_state \<Rightarrow> 'v undo_state" where
  "merge_old p prev =
     (if fst p \<in> set (new_ids prev) then prev
      else if map_of (old_values prev) (fst p) \<noteq> None then prev
      else prev\<lparr>old_values := flat_emplace (fst p) (snd p) (old_values prev)\<rparr>)"

definition merge_new :: "oid \<Rightarrow> 'v undo_state \<Rightarrow> 'v undo_state" where
  "merge_new i prev = prev\<lparr>new_ids := List.insert i (new_ids prev)\<rparr>"

definition merge_removed :: "oid \<times> 'v \<Rightarrow> 'v undo_state \<Rightarrow> 'v undo_state" where
  "merge_removed p prev =
     (if fst p \<in> set (new_ids prev) then prev\<lparr>new_ids := removeAll (fst p) (new_ids prev)\<rparr>
      else case map_of (old_values prev) (fst p) of
        Some w \<Rightarrow> prev\<lparr>removed_values := flat_emplace (fst p) w (removed_values prev),
                    old_values := flat_erase (fst p) (old_values prev)\<rparr>
      | None \<Rightarrow> prev\<lparr>removed_values := flat_emplace (fst p) (snd p) (removed_values prev)\<rparr>)"

definition merge_states :: "'v undo_state \<Rightarrow> 'v undo_state \<Rightarrow> 'v undo_state" where
  "merge_states state prev =
     fold merge_removed (removed_values state)
       (fold merge_new (new_ids state)
         (fold merge_old (old_values state) prev))"

definition squash :: "'v generic_index \<Rightarrow> 'v generic_index" where
  "squash x =
     (case undo_stack x of
        [] \<Rightarrow> x
      | [_] \<Rightarrow> x\<lparr>undo_stack := [], revision := revision x - 1\<rparr>
      | state # prev # us \<Rightarrow>
          x\<lparr>undo_stack := merge_states state prev # us, revision := revision x - 1\<rparr>)"

text \<open>
  A session object: whether it still has to undo (\<open>_apply\<close>).  Its destructor undoes what was
  neither pushed nor squashed.
\<close>

definition session_of :: "bool \<Rightarrow> bool" where "session_of on = on"

definition session_push :: "bool \<Rightarrow> bool" where "session_push to_undo = False"

definition session_squash :: "bool \<Rightarrow> 'v generic_index \<Rightarrow> bool \<times> 'v generic_index" where
  "session_squash to_undo x = (False, if to_undo then squash x else x)"

definition session_undo :: "(oid \<times> 'v \<Rightarrow> 'k list) \<Rightarrow> bool \<Rightarrow> 'v generic_index \<Rightarrow> (bool \<times> 'v generic_index) result" where
  "session_undo key to_undo x = bind_r (if to_undo then undo key x else Inr x) (\<lambda>x. Inr (False, x))"

definition session_destroy :: "(oid \<times> 'v \<Rightarrow> 'k list) \<Rightarrow> bool \<Rightarrow> 'v generic_index \<Rightarrow> 'v generic_index result" where
  "session_destroy key to_undo x = (if to_undo then undo key x else Inr x)"

definition commit :: "int \<Rightarrow> 'v generic_index \<Rightarrow> 'v generic_index" where
  "commit rev_num x =
     x\<lparr>undo_stack := rev (dropWhile (\<lambda>u. undo_revision u \<le> rev_num) (rev (undo_stack x)))\<rparr>"

function undo_all :: "(oid \<times> 'v \<Rightarrow> 'k list) \<Rightarrow> 'v generic_index \<Rightarrow> 'v generic_index result" where
  "undo_all key x =
     (if enabled x then case undo key x of Inl e \<Rightarrow> Inl e | Inr y \<Rightarrow> undo_all key y else Inr x)"
  by pat_completeness auto
termination
  by (relation "measure (\<lambda>(_, x). length (undo_stack x))")
    (auto simp: enabled_def undo_def result_simps split: list.splits)

definition set_revision :: "nat \<Rightarrow> 'v generic_index \<Rightarrow> 'v generic_index result" where
  "set_revision r x =
     (if length (undo_stack x) \<noteq> 0 then Inl logic_error
      else if r > 2 ^ 63 - 1 then Inl logic_error
      else Inr (x\<lparr>revision := int r\<rparr>))"

definition undo_stack_revision_range :: "'v generic_index \<Rightarrow> int \<times> int" where
  "undo_stack_revision_range x =
     (if length (undo_stack x) > 0
      then (undo_revision (last (undo_stack x)) - 1, undo_revision (hd (undo_stack x)))
      else (revision x, revision x))"

section \<open>The whole database\<close>

text \<open>The indices of a database in the order they were added.\<close>

fun on_all :: "('x \<Rightarrow> 'x result) \<Rightarrow> 'x list \<Rightarrow> 'x list result" where
  "on_all f [] = Inr []"
| "on_all f (x # xs) = bind_r (f x) (\<lambda>y. bind_r (on_all f xs) (\<lambda>ys. Inr (y # ys)))"

definition db_undo :: "(oid \<times> 'v \<Rightarrow> 'k list) \<Rightarrow> 'v generic_index list \<Rightarrow> 'v generic_index list result" where
  "db_undo key xs = on_all (undo key) xs"

definition db_squash :: "'v generic_index list \<Rightarrow> 'v generic_index list" where
  "db_squash xs = map squash xs"

definition db_commit :: "int \<Rightarrow> 'v generic_index list \<Rightarrow> 'v generic_index list" where
  "db_commit r xs = map (commit r) xs"

definition db_undo_all :: "(oid \<times> 'v \<Rightarrow> 'k list) \<Rightarrow> 'v generic_index list \<Rightarrow> 'v generic_index list result" where
  "db_undo_all key xs = on_all (undo_all key) xs"

definition db_start_undo_session :: "bool \<Rightarrow> 'v generic_index list \<Rightarrow> 'v generic_index list" where
  "db_start_undo_session on xs = (if on then map (start_undo_session on) xs else xs)"

definition db_set_revision :: "nat \<Rightarrow> 'v generic_index list \<Rightarrow> 'v generic_index list result" where
  "db_set_revision r xs = on_all (set_revision r) xs"

definition db_revision :: "'v generic_index list \<Rightarrow> int" where
  "db_revision xs = (case xs of [] \<Rightarrow> - 1 | x # _ \<Rightarrow> revision x)"

text \<open>
  Adding an index: one that exists must agree with the first index on the revision range of the
  undo stack; a new one is brought to it by empty sessions.
\<close>

definition add_index :: "bool \<Rightarrow> bool \<Rightarrow> 'v generic_index \<Rightarrow> 'v generic_index list \<Rightarrow> 'v generic_index list result" where
  "add_index first_time_adding read_only idx xs =
     (case xs of
        [] \<Rightarrow> Inr [idx]
      | x # _ \<Rightarrow>
          let expected = undo_stack_revision_range x in
          bind_r
            (if undo_stack_revision_range idx \<noteq> expected then
               if \<not> first_time_adding then Inl logic_error
               else if read_only then Inl logic_error
               else
                 bind_r (set_revision (int_to_u64 (fst expected)) idx) (\<lambda>idx.
                 Inr ((start_undo_session True ^^ nat (snd expected - revision idx)) idx))
             else Inr idx) (\<lambda>idx.
          Inr (xs @ [idx])))"

section \<open>Undo states as differences\<close>

text \<open>The table an undo state leads back to.\<close>

definition revert :: "'v undo_state \<Rightarrow> (oid \<rightharpoonup> 'v) \<Rightarrow> (oid \<rightharpoonup> 'v)" where
  "revert u m = (\<lambda>i. if i \<in> set (new_ids u) then None
     else case map_of (old_values u) i of Some v \<Rightarrow> Some v
     | None \<Rightarrow> (case map_of (removed_values u) i of Some v \<Rightarrow> Some v | None \<Rightarrow> m i))"

definition state_ok :: "'v undo_state \<Rightarrow> (oid \<rightharpoonup> 'v) \<Rightarrow> bool" where
  "state_ok u m \<longleftrightarrow> flat_ok (old_values u) \<and> flat_ok (removed_values u) \<and> distinct (new_ids u)
     \<and> dom (map_of (old_values u)) \<subseteq> dom m \<and> set (new_ids u) \<subseteq> dom m
     \<and> dom (map_of (removed_values u)) \<inter> dom m = {} \<and> dom (map_of (old_values u)) \<inter> set (new_ids u) = {}
     \<and> (\<forall>i\<in>set (new_ids u). old_next_id u \<le> i)"

fun stack_ok :: "oid \<Rightarrow> (oid \<rightharpoonup> 'v) \<Rightarrow> 'v undo_state list \<Rightarrow> bool" where
  "stack_ok n m [] \<longleftrightarrow> (\<forall>i\<in>dom m. i < n)"
| "stack_ok n m (u # us) \<longleftrightarrow> (\<forall>i\<in>dom m. i < n) \<and> state_ok u m \<and> old_next_id u \<le> n
     \<and> stack_ok (old_next_id u) (revert u m) us"

fun snapshots :: "(oid \<rightharpoonup> 'v) \<Rightarrow> 'v undo_state list \<Rightarrow> ((oid \<rightharpoonup> 'v) \<times> oid) list" where
  "snapshots m [] = []"
| "snapshots m (u # us) = (revert u m, old_next_id u) # snapshots (revert u m) us"

definition index_ok :: "'v generic_index \<Rightarrow> bool" where
  "index_ok x \<longleftrightarrow> stack_ok (next_id x) (map_of (indices x)) (undo_stack x)"

definition content :: "'v generic_index \<Rightarrow> (oid \<rightharpoonup> 'v) \<times> oid" where
  "content x = (map_of (indices x), next_id x)"

definition history :: "'v generic_index \<Rightarrow> ((oid \<rightharpoonup> 'v) \<times> oid) list" where
  "history x = snapshots (map_of (indices x)) (undo_stack x)"

lemma map_of_flat_erase: "map_of (flat_erase i m) = (map_of m)(i := None)"
  by (induction m) (auto simp: flat_erase_def fun_eq_iff)

lemma map_of_flat_emplace: "map_of (flat_emplace i v m) = (case map_of m i of None \<Rightarrow> (map_of m)(i \<mapsto> v) | Some _ \<Rightarrow> map_of m)"
  by (simp add: flat_emplace_def map_of_flat_set split: option.split)

lemma flat_ok_erase: "flat_ok m \<Longrightarrow> flat_ok (flat_erase i m)"
  by (induction m) (auto simp: flat_ok_def flat_erase_def)

lemma flat_ok_emplace: "flat_ok m \<Longrightarrow> flat_ok (flat_emplace i v m)"
  by (simp add: flat_emplace_def flat_ok_set split: option.split)

lemma stack_ok_bound: "stack_ok n m st \<Longrightarrow> i \<in> dom m \<Longrightarrow> i < n"
  by (cases st) auto

lemma old_next_id_note [simp]:
  "old_next_id (note_modify i v u) = old_next_id u"
  "old_next_id (note_remove i v u) = old_next_id u"
  "old_next_id (note_create i u) = old_next_id u"
  by (simp_all add: note_modify_def note_remove_def note_create_def split: option.split)

text \<open>Each note keeps the table the undo state leads back to.\<close>

lemma note_modify_revert:
  assumes "state_ok u m" and "m i = Some v"
  shows "state_ok (note_modify i v u) (m(i \<mapsto> w))" and "revert (note_modify i v u) (m(i \<mapsto> w)) = revert u m"
proof -
  have r: "map_of (removed_values u) i = None" using assms by (auto simp: state_ok_def)
  show "state_ok (note_modify i v u) (m(i \<mapsto> w))"
    using assms r by (auto simp: state_ok_def note_modify_def map_of_flat_set flat_ok_set split: option.splits)
  show "revert (note_modify i v u) (m(i \<mapsto> w)) = revert u m"
    using assms r by (auto simp: revert_def note_modify_def map_of_flat_set fun_eq_iff split: option.splits)
qed

lemma note_remove_revert:
  assumes "state_ok u m" and "m i = Some v"
  shows "state_ok (note_remove i v u) (m(i := None))" and "revert (note_remove i v u) (m(i := None)) = revert u m"
proof -
  have r: "map_of (removed_values u) i = None" using assms by (auto simp: state_ok_def)
  have o: "i \<in> set (new_ids u) \<Longrightarrow> map_of (old_values u) i = None" using assms by (auto simp: state_ok_def)
  show "state_ok (note_remove i v u) (m(i := None))"
    using assms r o
    by (auto simp: state_ok_def note_remove_def map_of_flat_set flat_ok_set map_of_flat_emplace map_of_flat_erase
        flat_ok_emplace flat_ok_erase distinct_removeAll split: option.splits if_splits)
  show "revert (note_remove i v u) (m(i := None)) = revert u m"
    using assms r o
    by (auto simp: revert_def note_remove_def map_of_flat_set map_of_flat_emplace map_of_flat_erase fun_eq_iff
        split: option.splits)
qed

lemma note_create_revert:
  assumes "state_ok u m" and "m i = None" and "revert u m i = None" and "old_next_id u \<le> i"
  shows "state_ok (note_create i u) (m(i \<mapsto> w))" and "revert (note_create i u) (m(i \<mapsto> w)) = revert u m"
proof -
  have n: "i \<notin> set (new_ids u)" "map_of (old_values u) i = None"
    using assms(1,2) by (auto simp: state_ok_def)
  then have r: "map_of (removed_values u) i = None"
    using assms(3) by (auto simp: revert_def split: option.splits)
  show "state_ok (note_create i u) (m(i \<mapsto> w))"
    using assms n r by (auto simp: state_ok_def note_create_def)
  show "revert (note_create i u) (m(i \<mapsto> w)) = revert u m"
    using assms n r by (auto simp: revert_def note_create_def fun_eq_iff split: option.splits)
qed

section \<open>The loops of undo\<close>

text \<open>
  A loop of \<open>undo\<close> ends in a given table or with the refusal of a colliding key; the latter
  only where the unique key of a row does not determine its id.
\<close>

definition id_key :: "(oid \<times> 'v \<Rightarrow> 'k list) \<Rightarrow> bool" where
  "id_key key \<longleftrightarrow> (\<forall>p q. shares_key (key p) (key q) \<longrightarrow> fst p = fst q)"

definition ends_in :: "(oid \<times> 'v \<Rightarrow> 'k list) \<Rightarrow> (oid \<rightharpoonup> 'v) \<Rightarrow> (oid \<times> 'v) list result \<Rightarrow> bool" where
  "ends_in key m r \<longleftrightarrow> (case r of Inr t \<Rightarrow> map_of t = m | Inl e \<Rightarrow> e = logic_error \<and> \<not> id_key key)"

lemma collides_id_key: "id_key key \<Longrightarrow> \<not> collides key i v m"
  by (auto simp: id_key_def collides_def list_ex_iff) (metis fst_conv)

lemma map_add_upd_left: "i \<notin> dom n \<Longrightarrow> m(i \<mapsto> v) ++ n = (m ++ n)(i \<mapsto> v)"
  by (auto simp: fun_eq_iff map_add_def split: option.split)

lemma restore_loop:
  assumes "distinct (map fst os)" and "fst ` set os \<subseteq> dom (map_of m)"
  shows "ends_in key (map_of m ++ map_of os) (fold_r (restore_value key) os m)"
  using assms
proof (induction os arbitrary: m)
  case Nil
  then show ?case by (simp add: ends_in_def)
next
  case (Cons p os)
  obtain i v where p: "p = (i, v)" by (cases p)
  have present: "map_of m i \<noteq> None" using Cons.prems p by auto
  show ?case
  proof (cases "collides key i v m")
    case True
    then show ?thesis using present p by (auto simp: ends_in_def restore_value_def collides_id_key)
  next
    case False
    have "ends_in key (map_of (flat_set i v m) ++ map_of os) (fold_r (restore_value key) os (flat_set i v m))"
      using Cons.prems by (intro Cons.IH) (auto simp: map_of_flat_set)
    moreover have "(map_of m)(i \<mapsto> v) ++ map_of os = map_of m ++ map_of (p # os)"
      using Cons.prems(1) p by (simp add: map_add_upd_left dom_map_of_conv_image_fst)
    moreover have "restore_value key p m = Inr (flat_set i v m)"
      using False present p by (simp add: restore_value_def)
    ultimately show ?thesis by (simp only: fold_r.simps bind_r_simps map_of_flat_set)
  qed
qed

lemma erase_loop:
  assumes "distinct is" and "set is \<subseteq> dom (map_of m)"
  shows "\<exists>t. fold_r erase_new is m = Inr t \<and> map_of t = map_of m |` (- set is)"
  using assms
proof (induction "is" arbitrary: m)
  case Nil
  then show ?case by simp
next
  case (Cons i "is")
  have "\<exists>t. fold_r erase_new is (flat_erase i m) = Inr t \<and> map_of t = map_of (flat_erase i m) |` (- set is)"
    using Cons.prems by (intro Cons.IH) (auto simp: map_of_flat_erase)
  moreover have "(map_of m)(i := None) |` (- set is) = map_of m |` (- set (i # is))"
    by (auto simp: restrict_map_def fun_eq_iff)
  moreover have "erase_new i m = Inr (flat_erase i m)" using Cons.prems by (auto simp: erase_new_def)
  ultimately show ?case by (simp add: map_of_flat_erase)
qed

lemma reinsert_loop:
  assumes "distinct (map fst rs)" and "fst ` set rs \<inter> dom (map_of m) = {}"
  shows "ends_in key (map_of m ++ map_of rs) (fold_r (reinsert key) rs m)"
  using assms
proof (induction rs arbitrary: m)
  case Nil
  then show ?case by (simp add: ends_in_def)
next
  case (Cons p rs)
  obtain i v where p: "p = (i, v)" by (cases p)
  have absent: "map_of m i = None" using Cons.prems p by auto
  show ?case
  proof (cases "collides key i v m")
    case True
    then show ?thesis using p by (auto simp: ends_in_def reinsert_def collides_id_key)
  next
    case False
    have "ends_in key (map_of (flat_set i v m) ++ map_of rs) (fold_r (reinsert key) rs (flat_set i v m))"
      using Cons.prems p by (intro Cons.IH) (auto simp: map_of_flat_set simp del: fun_upd_apply)
    moreover have "(map_of m)(i \<mapsto> v) ++ map_of rs = map_of m ++ map_of (p # rs)"
      using Cons.prems(1) p by (simp add: map_add_upd_left dom_map_of_conv_image_fst)
    moreover have "reinsert key p m = Inr (flat_set i v m)"
      using False absent p by (simp add: reinsert_def)
    ultimately show ?thesis by (simp only: fold_r.simps bind_r_simps map_of_flat_set)
  qed
qed

lemma revert_as_maps:
  assumes "state_ok u m"
  shows "((m ++ map_of (old_values u)) |` (- set (new_ids u))) ++ map_of (removed_values u) = revert u m"
  using assms by (auto simp: state_ok_def revert_def fun_eq_iff map_add_def restrict_map_def split: option.split)

text \<open>\<open>undo\<close> on a well-formed index: back to the newest snapshot, or the refusal of a colliding key.\<close>

lemma undo_cases:
  assumes ok: "index_ok x" and st: "undo_stack x = u # us"
  shows "(\<exists>t. undo key x = Inr (x\<lparr>indices := t, next_id := old_next_id u, undo_stack := us, revision := revision x - 1\<rparr>)
            \<and> map_of t = revert u (map_of (indices x)))
         \<or> undo key x = Inl logic_error \<and> \<not> id_key key"
proof -
  let ?m = "map_of (indices x)" and ?old = "map_of (old_values u)"
  have s: "state_ok u ?m" using ok st by (simp add: index_ok_def)
  have fo: "distinct (map fst (old_values u))" "distinct (map fst (removed_values u))" "distinct (new_ids u)"
    and sub: "fst ` set (old_values u) \<subseteq> dom ?m" "set (new_ids u) \<subseteq> dom ?m"
    and dis: "fst ` set (removed_values u) \<inter> dom ?m = {}" "fst ` set (old_values u) \<inter> set (new_ids u) = {}"
    using s by (auto simp: state_ok_def dom_map_of_conv_image_fst intro: flat_ok_distinct)
  from restore_loop [OF fo(1) sub(1), of key] consider
      (bad) "fold_r (restore_value key) (old_values u) (indices x) = Inl logic_error" "\<not> id_key key"
    | (good) m1 where "fold_r (restore_value key) (old_values u) (indices x) = Inr m1" "map_of m1 = ?m ++ ?old"
    by (auto simp: ends_in_def split: sum.splits)
  then show ?thesis
  proof cases
    case bad
    then show ?thesis using st by (simp add: undo_def)
  next
    case (good m1)
    have "set (new_ids u) \<subseteq> dom (map_of m1)" using sub good(2) by auto
    then obtain m2 where m2: "fold_r erase_new (new_ids u) m1 = Inr m2" "map_of m2 = (?m ++ ?old) |` (- set (new_ids u))"
      using erase_loop [OF fo(3)] good(2) by metis
    have "fst ` set (removed_values u) \<inter> dom (map_of m2) = {}"
      using dis sub unfolding m2(2) dom_restrict dom_map_add dom_map_of_conv_image_fst by blast
    from reinsert_loop [OF fo(2) this, of key] s good m2 st show ?thesis
      by (auto simp: ends_in_def undo_def revert_as_maps split: sum.splits)
  qed
qed

section \<open>The loops of squash\<close>

definition leads :: "'v undo_state \<Rightarrow> (oid \<rightharpoonup> 'v) \<Rightarrow> (oid \<rightharpoonup> 'v) \<times> oid \<Rightarrow> bool" where
  "leads u m s \<longleftrightarrow> state_ok u m \<and> revert u m = fst s \<and> old_next_id u = snd s"

lemma leads_note_modify: "leads u m s \<Longrightarrow> m i = Some v \<Longrightarrow> leads (note_modify i v u) (m(i \<mapsto> w)) s"
  by (simp add: leads_def note_modify_revert)

lemma leads_note_remove: "leads u m s \<Longrightarrow> m i = Some v \<Longrightarrow> leads (note_remove i v u) (m(i := None)) s"
  by (simp add: leads_def note_remove_revert)

lemma leads_note_create:
  "leads u m s \<Longrightarrow> m i = None \<Longrightarrow> fst s i = None \<Longrightarrow> snd s \<le> i \<Longrightarrow> leads (note_create i u) (m(i \<mapsto> w)) s"
  using note_create_revert [of u m i w] by (auto simp: leads_def)

text \<open>Merging an entry is recording the same change in the older state.\<close>

lemma merge_old_eq: "merge_old p = note_modify (fst p) (snd p)"
  by (auto simp: merge_old_def note_modify_def flat_emplace_def fun_eq_iff split: option.split)

lemma merge_new_eq: "merge_new i = note_create i"
  by (simp add: merge_new_def note_create_def fun_eq_iff)

lemma merge_removed_eq: "merge_removed p = note_remove (fst p) (snd p)"
  by (auto simp: merge_removed_def note_remove_def flat_emplace_def fun_eq_iff split: option.split)

lemma merge_old_loop:
  assumes "leads u m0 s" and "distinct (map fst os)" and "\<forall>p\<in>set os. m0 (fst p) = Some (snd p) \<and> fst p \<in> dom m"
  shows "leads (fold merge_old os u) (m0 ++ m |` (fst ` set os)) s"
  using assms
proof (induction os arbitrary: u m0)
  case Nil
  then show ?case by (simp add: restrict_map_def)
next
  case (Cons p os)
  obtain i v w where p: "p = (i, v)" and w: "m i = Some w" using Cons.prems(3) by (cases p) auto
  have "leads (fold merge_old os (note_modify i v u)) (m0(i \<mapsto> w) ++ m |` (fst ` set os)) s"
    using Cons.prems p by (intro Cons.IH leads_note_modify) (auto simp: image_iff)
  moreover have "m0(i \<mapsto> w) ++ m |` (fst ` set os) = m0 ++ m |` (fst ` set (p # os))"
    using Cons.prems(2) p w by (auto simp: fun_eq_iff map_add_def restrict_map_def split: option.split)
  moreover have "merge_old p u = note_modify i v u" by (simp add: merge_old_eq p)
  ultimately show ?case by simp
qed

lemma merge_new_loop:
  assumes "leads u m0 s" and "distinct is"
    and "\<forall>i\<in>set is. m0 i = None \<and> fst s i = None \<and> snd s \<le> i \<and> i \<in> dom m"
  shows "leads (fold merge_new is u) (m0 ++ m |` set is) s"
  using assms
proof (induction "is" arbitrary: u m0)
  case Nil
  then show ?case by (simp add: restrict_map_def)
next
  case (Cons i "is")
  obtain w where w: "m i = Some w" using Cons.prems(3) by auto
  have "leads (fold merge_new is (note_create i u)) (m0(i \<mapsto> w) ++ m |` set is) s"
    using Cons.prems by (intro Cons.IH leads_note_create) auto
  moreover have "m0(i \<mapsto> w) ++ m |` set is = m0 ++ m |` set (i # is)"
    using Cons.prems(2) w by (auto simp: fun_eq_iff map_add_def restrict_map_def split: option.split)
  moreover have "merge_new i u = note_create i u" by (simp add: merge_new_eq)
  ultimately show ?case by simp
qed

lemma merge_removed_loop:
  assumes "leads u m0 s" and "distinct (map fst rs)" and "\<forall>p\<in>set rs. m0 (fst p) = Some (snd p)"
  shows "leads (fold merge_removed rs u) (m0 |` (- fst ` set rs)) s"
  using assms
proof (induction rs arbitrary: u m0)
  case Nil
  then show ?case by simp
next
  case (Cons p rs)
  obtain i v where p: "p = (i, v)" by (cases p)
  have "leads (fold merge_removed rs (note_remove i v u)) (m0(i := None) |` (- fst ` set rs)) s"
    using Cons.prems p by (intro Cons.IH leads_note_remove) (auto simp: image_iff)
  moreover have "m0(i := None) |` (- fst ` set rs) = m0 |` (- fst ` set (p # rs))"
    using p by (auto simp: fun_eq_iff restrict_map_def)
  moreover have "merge_removed p u = note_remove i v u" by (simp add: merge_removed_eq p)
  ultimately show ?case by (simp only: fold_simps)
qed

text \<open>Merging two undo states gives one that leads from the table straight to the older snapshot.\<close>

lemma merge_states_leads:
  assumes b: "state_ok b m" and a: "leads a (revert b m) s"
    and dom_s: "\<forall>i\<in>dom (fst s). i < snd s" and le: "snd s \<le> old_next_id b"
  shows "leads (merge_states b a) m s"
proof -
  let ?m0 = "revert b m" and ?O = "fst ` set (old_values b)" and ?R = "fst ` set (removed_values b)"
  have D: "distinct (map fst (old_values b))" "distinct (map fst (removed_values b))" "distinct (new_ids b)"
    using b by (auto simp: state_ok_def intro: flat_ok_distinct)
  have sub: "?O \<subseteq> dom m" "set (new_ids b) \<subseteq> dom m" "?R \<inter> dom m = {}" "?O \<inter> set (new_ids b) = {}"
    and nid: "\<forall>i\<in>set (new_ids b). old_next_id b \<le> i"
    using b by (auto simp: state_ok_def dom_map_of_conv_image_fst)
  have mO: "map_of (old_values b) (fst p) = Some (snd p)" if "p \<in> set (old_values b)" for p
    using that D(1) by simp
  have mR: "map_of (removed_values b) (fst p) = Some (snd p)" if "p \<in> set (removed_values b)" for p
    using that D(2) by simp
  have nO: "map_of (old_values b) i = None \<longleftrightarrow> i \<notin> ?O" and nR: "map_of (removed_values b) i = None \<longleftrightarrow> i \<notin> ?R" for i
    by (simp_all add: map_of_eq_None_iff)
  have O: "?m0 (fst p) = Some (snd p)" "fst p \<in> dom m" if "p \<in> set (old_values b)" for p
    using mO [OF that] sub that by (auto simp: revert_def)
  have R: "?m0 (fst p) = Some (snd p)" "fst p \<notin> ?O" "fst p \<notin> set (new_ids b)" if "p \<in> set (removed_values b)" for p
  proof -
    have "fst p \<in> ?R" using that by blast
    then show "fst p \<notin> ?O" "fst p \<notin> set (new_ids b)" using sub by blast+
    then have "map_of (old_values b) (fst p) = None" using nO by blast
    then show "?m0 (fst p) = Some (snd p)" using mR [OF that] \<open>fst p \<notin> set (new_ids b)\<close> by (simp add: revert_def)
  qed
  have N: "?m0 i = None" "fst s i = None" "snd s \<le> i" "i \<in> dom m" if "i \<in> set (new_ids b)" for i
  proof -
    show "?m0 i = None" using that by (simp add: revert_def)
    show "snd s \<le> i" using that nid le by force
    then show "fst s i = None" using dom_s by (meson domIff linorder_not_le)
    show "i \<in> dom m" using that sub(2) by blast
  qed
  define m1 where "m1 = ?m0 ++ m |` ?O"
  define m2 where "m2 = m1 ++ m |` set (new_ids b)"
  have 1: "leads (fold merge_old (old_values b) a) m1 s"
    unfolding m1_def using O by (intro merge_old_loop a D) auto
  have 2: "leads (fold merge_new (new_ids b) (fold merge_old (old_values b) a)) m2 s"
    unfolding m2_def
  proof (intro merge_new_loop 1 D ballI conjI)
    fix i assume i: "i \<in> set (new_ids b)"
    then have "i \<notin> ?O" using sub by blast
    then show "m1 i = None" using N(1) [OF i] by (simp add: m1_def map_add_def restrict_map_def)
  qed (use N in auto)
  have 3: "leads (merge_states b a) (m2 |` (- ?R)) s"
    unfolding merge_states_def
  proof (intro merge_removed_loop 2 D ballI)
    fix p assume "p \<in> set (removed_values b)"
    from R [OF this] show "m2 (fst p) = Some (snd p)"
      by (simp add: m2_def m1_def map_add_def restrict_map_def)
  qed
  have "(m2 |` (- ?R)) i = m i" for i
  proof (cases "i \<in> ?R")
    case True
    then have "i \<notin> dom m" using sub(3) by blast
    then show ?thesis using True by (simp add: restrict_map_def domIff)
  next
    case False
    then show ?thesis using sub nO [of i] nR [of i]
      by (auto simp: m2_def m1_def map_add_def restrict_map_def revert_def split: option.split)
  qed
  then have "m2 |` (- ?R) = m" by (rule ext)
  with 3 show ?thesis by simp
qed

section \<open>The interface: a store with a stack of snapshots\<close>

text \<open>
  \<open>versioned_store\<close> is what the users of the database rely on: a session starts by
  remembering the content, changes keep what is remembered, undoing goes back to the newest
  snapshot and squashing forgets it.
\<close>

locale versioned_store =
  fixes inv :: "'s \<Rightarrow> bool" and snap :: "'s \<Rightarrow> 'c" and hist :: "'s \<Rightarrow> 'c list"
    and start :: "'s \<Rightarrow> 's" and rewind :: "'s \<Rightarrow> 's result" and merge :: "'s \<Rightarrow> 's"
  assumes start_law: "inv s \<Longrightarrow> inv (start s) \<and> snap (start s) = snap s \<and> hist (start s) = snap s # hist s"
    and rewind_law: "inv s \<Longrightarrow> hist s = c # cs \<Longrightarrow> rewind s = Inr t \<Longrightarrow> inv t \<and> snap t = c \<and> hist t = cs"
    and merge_law: "inv s \<Longrightarrow> inv (merge s) \<and> snap (merge s) = snap s \<and> hist (merge s) = tl (hist s)"
begin

text \<open>Two states of one session: both well formed, with the same snapshots.\<close>

definition same_session :: "'s \<Rightarrow> 's \<Rightarrow> bool" where
  "same_session s t \<longleftrightarrow> (inv s \<longrightarrow> inv t \<and> hist t = hist s)"

lemma same_session_refl: "same_session s s"
  by (simp add: same_session_def)

lemma same_session_trans: "same_session s t \<Longrightarrow> same_session t u \<Longrightarrow> same_session s u"
  by (auto simp: same_session_def)

lemma session_undone:
  assumes "inv s" and "same_session (start s) t" and "rewind t = Inr u"
  shows "inv u \<and> snap u = snap s \<and> hist u = hist s"
proof -
  have "inv t" and "hist t = snap s # hist s"
    using assms(1,2) start_law [OF assms(1)] by (auto simp: same_session_def)
  then show ?thesis using rewind_law assms(3) by blast
qed

lemma nested_undone: "same_session (start s) t \<Longrightarrow> rewind t = Inr u \<Longrightarrow> same_session s u"
  using session_undone [of s t u] by (simp add: same_session_def)

lemma nested_squashed: "same_session (start s) t \<Longrightarrow> same_session s (merge t)"
  using start_law [of s] merge_law [of t] by (simp add: same_session_def)

text \<open>Undoing a squashed session undoes it together with the session around it.\<close>

lemma squashed_undone:
  assumes "inv s" and "same_session (start s) t" and "same_session (start t) u" and "rewind (merge u) = Inr v"
  shows "snap v = snap s \<and> hist v = hist s"
  using session_undone [OF assms(1) _ assms(4)] same_session_trans [OF assms(2) nested_squashed [OF assms(3)]] by simp

end

subsection \<open>The index provides it\<close>

lemma index_ok_Nil: "undo_stack x = [] \<Longrightarrow> index_ok x \<longleftrightarrow> (\<forall>i\<in>dom (map_of (indices x)). i < next_id x)"
  by (simp add: index_ok_def)

lemma index_ok_Cons:
  "undo_stack x = u # us \<Longrightarrow> index_ok x \<longleftrightarrow> (\<forall>i\<in>dom (map_of (indices x)). i < next_id x)
     \<and> state_ok u (map_of (indices x)) \<and> old_next_id u \<le> next_id x
     \<and> stack_ok (old_next_id u) (revert u (map_of (indices x))) us"
  by (simp add: index_ok_def)

lemma index_ok_bound: "index_ok x \<Longrightarrow> map_of (indices x) i = Some v \<Longrightarrow> i < next_id x"
  using stack_ok_bound by (fastforce simp: index_ok_def)

text \<open>A change recorded in the newest undo state keeps the invariant and the snapshots.\<close>

lemma recorded_change:
  assumes ok: "index_ok x" and st: "undo_stack y = on_head f (undo_stack x)"
    and bound: "\<forall>i\<in>dom (map_of (indices y)). i < next_id y" and le: "next_id x \<le> next_id y"
    and lead: "\<And>u us. undo_stack x = u # us \<Longrightarrow> leads u (map_of (indices x)) (revert u (map_of (indices x)), old_next_id u) \<Longrightarrow>
       old_next_id u \<le> next_id x \<Longrightarrow> stack_ok (old_next_id u) (revert u (map_of (indices x))) us \<Longrightarrow>
       leads (f u) (map_of (indices y)) (revert u (map_of (indices x)), old_next_id u)"
  shows "index_ok y \<and> history y = history x"
proof (cases "undo_stack x")
  case Nil
  then show ?thesis using st bound by (simp add: on_head_def index_ok_Nil history_def)
next
  case (Cons u us)
  have u: "state_ok u (map_of (indices x))" "old_next_id u \<le> next_id x"
    "stack_ok (old_next_id u) (revert u (map_of (indices x))) us"
    using ok by (auto simp: index_ok_Cons [OF Cons])
  have st': "undo_stack y = f u # us" using st Cons by (simp add: on_head_def)
  have "leads (f u) (map_of (indices y)) (revert u (map_of (indices x)), old_next_id u)"
    using u by (intro lead [OF Cons]) (simp_all add: leads_def)
  then show ?thesis
    using u bound le by (auto simp: index_ok_Cons [OF st'] history_def st' Cons leads_def)
qed

lemma emplace_recorded:
  assumes ok: "index_ok x" and e: "emplace key v x = Inr (i, y)"
  shows "index_ok y \<and> history y = history x"
proof -
  have i: "i = next_id x" "map_of (indices x) i = None"
    and y: "indices y = flat_set i v (indices x)" "next_id y = next_id x + 1"
      "undo_stack y = on_head (note_create i) (undo_stack x)"
    using e by (auto simp: emplace_def on_create_def Let_def split: if_splits)
  show ?thesis
  proof (rule recorded_change [OF ok y(3)])
    show "\<forall>i\<in>dom (map_of (indices y)). i < next_id y"
      using index_ok_bound [OF ok] i by (fastforce simp: y map_of_flat_set)
    fix u us
    assume "leads u (map_of (indices x)) (revert u (map_of (indices x)), old_next_id u)" "old_next_id u \<le> next_id x"
      "stack_ok (old_next_id u) (revert u (map_of (indices x))) us"
    then show "leads (note_create i u) (map_of (indices y)) (revert u (map_of (indices x)), old_next_id u)"
      unfolding y map_of_flat_set using i
      by (intro leads_note_create) (auto dest: stack_ok_bound [of _ _ us i])
  qed (simp add: y)
qed

lemma modify_recorded:
  assumes ok: "index_ok x" and e: "modify key i f x = (Inr (), y)"
  shows "index_ok y \<and> history y = history x"
proof -
  obtain v where v: "map_of (indices x) i = Some v"
    and y: "indices y = flat_set i (f v) (indices x)" "next_id y = next_id x"
      "undo_stack y = on_head (note_modify i v) (undo_stack x)"
    using e by (auto simp: modify_def find_row_def on_modify_def Let_def split: if_splits option.splits)
  show ?thesis
  proof (rule recorded_change [OF ok y(3)])
    show "\<forall>i\<in>dom (map_of (indices y)). i < next_id y"
      using index_ok_bound [OF ok] v by (auto simp: y map_of_flat_set)
    fix u us
    assume "leads u (map_of (indices x)) (revert u (map_of (indices x)), old_next_id u)"
    then show "leads (note_modify i v u) (map_of (indices y)) (revert u (map_of (indices x)), old_next_id u)"
      unfolding y map_of_flat_set using v by (intro leads_note_modify)
  qed (simp add: y)
qed

lemma remove_recorded:
  assumes ok: "index_ok x" and e: "remove i x = Inr y"
  shows "index_ok y \<and> history y = history x"
proof -
  obtain v where v: "map_of (indices x) i = Some v"
    and y: "indices y = flat_erase i (indices x)" "next_id y = next_id x"
      "undo_stack y = on_head (note_remove i v) (undo_stack x)"
    using e by (auto simp: remove_def find_row_def on_remove_def Let_def split: option.splits)
  show ?thesis
  proof (rule recorded_change [OF ok y(3)])
    show "\<forall>i\<in>dom (map_of (indices y)). i < next_id y"
      using index_ok_bound [OF ok] v by (auto simp: y map_of_flat_erase split: if_splits)
    fix u us
    assume "leads u (map_of (indices x)) (revert u (map_of (indices x)), old_next_id u)"
    then show "leads (note_remove i v u) (map_of (indices y)) (revert u (map_of (indices x)), old_next_id u)"
      unfolding y map_of_flat_erase using v by (intro leads_note_remove)
  qed (simp add: y)
qed

lemma length_snapshots [simp]: "length (snapshots m st) = length st"
  by (induction st arbitrary: m) simp_all

lemma length_history: "length (history x) = length (undo_stack x)"
  by (simp add: history_def)

lemma start_recorded:
  assumes "index_ok x"
  shows "index_ok (start_undo_session True x) \<and> content (start_undo_session True x) = content x
    \<and> history (start_undo_session True x) = content x # history x"
proof -
  let ?u = "\<lparr>old_values = [], removed_values = [], new_ids = [], old_next_id = next_id x,
    undo_revision = revision x + 1\<rparr> :: 'a undo_state"
  have r: "revert ?u m = m" for m by (simp add: revert_def)
  have "\<forall>i\<in>dom (map_of (indices x)). i < next_id x"
    using index_ok_bound [OF assms] by (auto simp: dom_def)
  then show ?thesis
    using assms by (simp add: start_undo_session_def index_ok_def content_def history_def r state_ok_def)
qed

lemma undo_recorded:
  assumes ok: "index_ok x" and h: "history x = c # cs" and e: "undo key x = Inr y"
  shows "index_ok y \<and> content y = c \<and> history y = cs"
proof -
  obtain u us where st: "undo_stack x = u # us" using h by (cases "undo_stack x") (auto simp: history_def)
  from undo_cases [OF ok st, of key] e obtain t where
    y: "y = x\<lparr>indices := t, next_id := old_next_id u, undo_stack := us, revision := revision x - 1\<rparr>"
    and t: "map_of t = revert u (map_of (indices x))" by auto
  show ?thesis
    using ok h by (auto simp: y t index_ok_Cons [OF st] index_ok_def content_def history_def st)
qed

lemma squash_recorded:
  assumes ok: "index_ok x"
  shows "index_ok (squash x) \<and> content (squash x) = content x \<and> history (squash x) = tl (history x)"
proof (cases "undo_stack x" rule: list.exhaust [case_names Nil Cons])
  case Nil
  then show ?thesis using ok by (simp add: squash_def history_def)
next
  case b: (Cons b us)
  show ?thesis
  proof (cases us)
    case Nil
    then show ?thesis using ok b
      by (simp add: squash_def history_def content_def index_ok_def)
  next
    case (Cons a us')
    let ?m = "map_of (indices x)"
    have st: "undo_stack x = b # a # us'" using b Cons by simp
    have B: "state_ok b ?m" "old_next_id b \<le> next_id x"
      and A: "state_ok a (revert b ?m)" "old_next_id a \<le> old_next_id b"
      and rest: "stack_ok (old_next_id a) (revert a (revert b ?m)) us'"
      and bd: "\<forall>i\<in>dom ?m. i < next_id x"
      using ok by (auto simp: index_ok_def st)
    have "leads (merge_states b a) ?m (revert a (revert b ?m), old_next_id a)"
      using A stack_ok_bound [OF rest] by (intro merge_states_leads [OF B(1)]) (auto simp: leads_def)
    then show ?thesis using B A rest bd
      by (auto simp: squash_def st leads_def index_ok_def content_def history_def)
  qed
qed

interpretation chainbase: versioned_store index_ok content history "start_undo_session True" "undo key" squash
  for key :: "oid \<times> 'v \<Rightarrow> 'k list"
  by unfold_locales (blast dest: start_recorded undo_recorded squash_recorded)+

section \<open>What happens inside a session\<close>

text \<open>
  Rows are created, changed and removed, and nested sessions are undone or squashed into this
  one, in any order and to any depth.
\<close>

inductive session_steps :: "(oid \<times> 'v \<Rightarrow> 'k list) \<Rightarrow> 'v generic_index \<Rightarrow> 'v generic_index \<Rightarrow> bool" for key where
  steps_done: "session_steps key x x"
| steps_emplace: "session_steps key x y \<Longrightarrow> emplace key v y = Inr (i, z) \<Longrightarrow> session_steps key x z"
| steps_modify: "session_steps key x y \<Longrightarrow> modify key i f y = (Inr (), z) \<Longrightarrow> session_steps key x z"
| steps_remove: "session_steps key x y \<Longrightarrow> remove i y = Inr z \<Longrightarrow> session_steps key x z"
| steps_undo: "session_steps key x y \<Longrightarrow> session_steps key (start_undo_session True y) z \<Longrightarrow> undo key z = Inr w \<Longrightarrow>
    session_steps key x w"
| steps_squash: "session_steps key x y \<Longrightarrow> session_steps key (start_undo_session True y) z \<Longrightarrow>
    session_steps key x (squash z)"

lemma steps_same_session: "session_steps key x y \<Longrightarrow> chainbase.same_session x y"
proof (induction rule: session_steps.induct)
  case (steps_done x)
  show ?case by (rule chainbase.same_session_refl)
next
  case (steps_emplace x y v i z)
  then show ?case using emplace_recorded by (metis chainbase.same_session_def)
next
  case (steps_modify x y i f z)
  then show ?case using modify_recorded by (metis chainbase.same_session_def)
next
  case (steps_remove x y i z)
  then show ?case using remove_recorded by (metis chainbase.same_session_def)
next
  case (steps_undo x y z w)
  then show ?case by (meson chainbase.nested_undone chainbase.same_session_trans)
next
  case (steps_squash x y z)
  then show ?case by (meson chainbase.nested_squashed chainbase.same_session_trans)
qed

lemma undo_revision_step: "undo key x = Inr y \<Longrightarrow> undo_stack x \<noteq> [] \<Longrightarrow> revision y = revision x - 1"
  by (auto simp: undo_def result_simps split: list.splits)

lemma squash_revision_step: "undo_stack x \<noteq> [] \<Longrightarrow> revision (squash x) = revision x - 1"
  by (auto simp: squash_def split: list.splits)

lemma session_stack_nonempty:
  assumes "index_ok x" and "session_steps key (start_undo_session True x) y"
  shows "index_ok y \<and> history y = content x # history x \<and> undo_stack y \<noteq> []"
proof -
  have "index_ok y" and h: "history y = content x # history x"
    using steps_same_session [OF assms(2)] start_recorded [OF assms(1)] by (auto simp: chainbase.same_session_def)
  moreover have "undo_stack y \<noteq> []" using h by (auto simp: history_def)
  ultimately show ?thesis by simp
qed

lemma steps_revision: "session_steps key x y \<Longrightarrow> index_ok x \<Longrightarrow> index_ok y \<and> revision y = revision x"
proof (induction rule: session_steps.induct)
  case (steps_done x)
  then show ?case by simp
next
  case (steps_emplace x y v i z)
  then show ?case using emplace_recorded [of y key v i z]
    by (auto simp: emplace_def on_create_def Let_def split: if_splits)
next
  case (steps_modify x y i f z)
  then show ?case using modify_recorded [of y key i f z]
    by (auto simp: modify_def on_modify_def Let_def split: if_splits option.splits)
next
  case (steps_remove x y i z)
  then show ?case using remove_recorded [of y i z]
    by (auto simp: remove_def on_remove_def Let_def split: option.splits)
next
  case (steps_undo x y z w)
  then have y: "index_ok y" "revision y = revision x" by auto
  have z: "revision z = revision y + 1" using steps_undo start_recorded [OF y(1)] by (simp add: start_undo_session_def)
  note s = session_stack_nonempty [OF y(1) steps_undo(2)]
  show ?case using s undo_recorded [of z _ _ key w] undo_revision_step [of key z w] steps_undo(3) y z by auto
next
  case (steps_squash x y z)
  then have y: "index_ok y" "revision y = revision x" by auto
  have z: "revision z = revision y + 1" using steps_squash start_recorded [OF y(1)] by (simp add: start_undo_session_def)
  note s = session_stack_nonempty [OF y(1) steps_squash(2)]
  show ?case using s squash_recorded [of z] squash_revision_step [of z] y z by auto
qed

lemma undo_succeeds_or_collides:
  assumes "index_ok x" and "undo_stack x \<noteq> []"
  shows "(\<exists>y. undo key x = Inr y) \<or> undo key x = Inl logic_error \<and> \<not> id_key key"
proof -
  from assms(2) obtain u us where "undo_stack x = u # us" by (cases "undo_stack x") auto
  from undo_cases [OF assms(1) this, of key] show ?thesis by blast
qed

section \<open>Revisions\<close>

text \<open>The undo states carry consecutive revisions, the newest the index's own.\<close>

fun revs_from :: "int \<Rightarrow> 'v undo_state list \<Rightarrow> bool" where
  "revs_from r [] \<longleftrightarrow> True"
| "revs_from r (u # us) \<longleftrightarrow> undo_revision u = r \<and> revs_from (r - 1) us"

definition revs_ok :: "'v generic_index \<Rightarrow> bool" where
  "revs_ok x \<longleftrightarrow> revs_from (revision x) (undo_stack x)"

lemma undo_revision_note [simp]:
  "undo_revision (note_modify i v u) = undo_revision u"
  "undo_revision (note_remove i v u) = undo_revision u"
  "undo_revision (note_create i u) = undo_revision u"
  by (simp_all add: note_modify_def note_remove_def note_create_def split: option.split)

lemma undo_revision_fold: "(\<And>p u. undo_revision (f p u) = undo_revision u) \<Longrightarrow> undo_revision (fold f ps u) = undo_revision u"
  by (induction ps arbitrary: u) simp_all

lemma undo_revision_merge [simp]: "undo_revision (merge_states b a) = undo_revision a"
  by (simp add: merge_states_def undo_revision_fold merge_old_eq merge_new_eq merge_removed_eq)

lemma revs_from_on_head: "(\<And>u. undo_revision (f u) = undo_revision u) \<Longrightarrow> revs_from r (on_head f st) \<longleftrightarrow> revs_from r st"
  by (cases st) (simp_all add: on_head_def)

lemma revs_ok_steps:
  shows "revs_ok x \<Longrightarrow> emplace key v x = Inr (i, y) \<Longrightarrow> revs_ok y"
    and "revs_ok x \<Longrightarrow> modify key i f x = (r, y) \<Longrightarrow> revs_ok y"
    and "revs_ok x \<Longrightarrow> remove i x = Inr y \<Longrightarrow> revs_ok y"
    and "revs_ok x \<Longrightarrow> undo key x = Inr y \<Longrightarrow> revs_ok y"
    and "revs_ok x \<Longrightarrow> revs_ok (squash x)"
    and "revs_ok x \<Longrightarrow> revs_ok (start_undo_session on x)"
  by (auto simp: revs_ok_def emplace_def modify_def remove_def undo_def squash_def start_undo_session_def result_simps
      Let_def on_create_def on_modify_def on_remove_def revs_from_on_head split: if_splits option.splits list.splits)

lemma revs_from_append: "revs_from r (us @ vs) \<longleftrightarrow> revs_from r us \<and> revs_from (r - int (length us)) vs"
  by (induction us arbitrary: r) (auto simp: algebra_simps)

lemma revs_from_last: "revs_from r us \<Longrightarrow> us \<noteq> [] \<Longrightarrow> undo_revision (last us) = r - int (length us) + 1"
  by (induction us arbitrary: r) auto

text \<open>Committing drops the oldest states from the back of the list.\<close>

lemma commit_takes:
  assumes "revs_from r us"
  shows "rev (dropWhile (\<lambda>u. undo_revision u \<le> c) (rev us)) = take (nat (r - c)) us"
  using assms
proof (induction us rule: rev_induct)
  case Nil
  then show ?case by simp
next
  case (snoc u us)
  then have u: "undo_revision u = r - int (length us)" by (simp add: revs_from_append)
  show ?case
  proof (cases "undo_revision u \<le> c")
    case True
    then have "nat (r - c) \<le> length us" using u by simp
    then show ?thesis using snoc True by (simp add: revs_from_append)
  next
    case False
    then have "length (us @ [u]) \<le> nat (r - c)" using u by simp
    then show ?thesis using False by simp
  qed
qed

lemma snapshots_take: "snapshots m (take k us) = take k (snapshots m us)"
  by (induction us arbitrary: m k) (simp_all add: take_Cons split: nat.split)

lemma stack_ok_take: "stack_ok n m us \<Longrightarrow> stack_ok n m (take k us)"
  by (induction us arbitrary: n m k) (auto simp: take_Cons split: nat.split)

lemma commit_recorded:
  assumes "index_ok x" and "revs_ok x"
  shows "index_ok (commit r x) \<and> content (commit r x) = content x
    \<and> history (commit r x) = take (nat (revision x - r)) (history x)"
  using assms
  by (simp add: commit_def commit_takes revs_ok_def index_ok_def content_def history_def snapshots_take stack_ok_take)

lemma undo_all_unwinds:
  assumes "index_ok x" and "id_key key"
  shows "\<exists>y. undo_all key x = Inr y \<and> content y = last (content x # history x) \<and> undo_stack y = []"
  using assms
proof (induction "length (undo_stack x)" arbitrary: x)
  case 0
  then show ?case by (subst undo_all.simps) (simp add: enabled_def history_def)
next
  case (Suc n)
  then obtain u us where st: "undo_stack x = u # us" by (cases "undo_stack x") auto
  from undo_cases [OF Suc.prems(1) st, of key] Suc.prems(2) obtain y where y: "undo key x = Inr y" "undo_stack y = us"
    by fastforce
  obtain c cs where h: "history x = c # cs" by (simp add: history_def st)
  from undo_recorded [OF Suc.prems(1) h y(1)] have r: "index_ok y" "content y = c" "history y = cs" by auto
  have "n = length (undo_stack y)" using Suc.hyps(2) st y(2) by simp
  from Suc.hyps(1) [OF this r(1) Suc.prems(2)] show ?case
    using y(1) r h st by (subst undo_all.simps) (simp add: enabled_def)
qed

lemma start_counts:
  "revision (start_undo_session True x) = revision x + 1"
  "length (undo_stack (start_undo_session True x)) = length (undo_stack x) + 1"
  by (simp_all add: start_undo_session_def)

lemma start_many:
  assumes "index_ok x" and "revs_ok x"
  shows "index_ok ((start_undo_session True ^^ k) x) \<and> revs_ok ((start_undo_session True ^^ k) x)
    \<and> revision ((start_undo_session True ^^ k) x) = revision x + int k
    \<and> length (undo_stack ((start_undo_session True ^^ k) x)) = length (undo_stack x) + k
    \<and> content ((start_undo_session True ^^ k) x) = content x
    \<and> history ((start_undo_session True ^^ k) x) = replicate k (content x) @ history x"
  using assms
proof (induction k)
  case 0
  then show ?case by simp
next
  case (Suc k)
  let ?y = "(start_undo_session True ^^ k) x"
  have "index_ok ?y" "revs_ok ?y" using Suc by auto
  from start_recorded [OF this(1)] revs_ok_steps(6) [OF this(2)] Suc show ?case
    by (simp add: start_counts)
qed

lemma revision_range:
  assumes "revs_ok x"
  shows "undo_stack_revision_range x = (revision x - int (length (undo_stack x)), revision x)"
  using assms revs_from_last [of "revision x" "undo_stack x"]
  by (cases "undo_stack x") (auto simp: undo_stack_revision_range_def revs_ok_def)

section \<open>Properties\<close>

text \<open>C23. Whatever happens inside a session (rows created, changed and removed, nested sessions
  undone or squashed, to any depth) while no change of a row is refused for a colliding key, undoing it gives
  back exactly the rows, the next id, the older snapshots and the revision of before.  (After a refused
  change the row is out of the container and undoing is undefined: \<open>refused_modify_breaks_undo\<close>.)  It never reads past the end of the container;
  the only way it can fail is the refusal of a colliding unique key, and in a table without further
  unique keys not even that.\<close>

theorem undo_restores_session:
  assumes "index_ok x" and "session_steps key (start_undo_session True x) y"
  shows "(\<exists>z. undo key y = Inr z \<and> index_ok z \<and> content z = content x \<and> history z = history x \<and> revision z = revision x)
    \<or> (undo key y = Inl logic_error \<and> \<not> id_key key)"
proof -
  note y = session_stack_nonempty [OF assms]
  have r: "revision y = revision x + 1"
    using steps_revision [OF assms(2)] start_recorded [OF assms(1)] by (simp add: start_undo_session_def)
  from y consider z where "undo key y = Inr z" | "undo key y = Inl logic_error" "\<not> id_key key"
    using undo_succeeds_or_collides by blast
  then show ?thesis
  proof cases
    case (1 z)
    then show ?thesis using y r chainbase.session_undone [OF assms(1) steps_same_session [OF assms(2)]] undo_revision_step
      by fastforce
  qed simp
qed

definition two_rows :: "nat generic_index" where
  "two_rows = \<lparr>indices = [(0, 10), (1, 11)], next_id = 2, revision = 0, undo_stack = []\<rparr>"

lemma two_rows_ok: "index_ok two_rows"
  by (simp add: index_ok_def two_rows_def)

text \<open>A table without further unique keys, and one whose value is unique.\<close>

definition id_only :: "nat \<times> nat \<Rightarrow> nat list" where "id_only p = []"
definition by_value :: "nat \<times> nat \<Rightarrow> nat list" where "by_value p = [snd p]"

lemma id_key_only: "id_key id_only"
  by (simp add: id_key_def id_only_def shares_key_def)

text \<open>A session that changes row 0, removes row 1 and creates row 2.\<close>

definition changed_rows :: "nat generic_index" where
  "changed_rows = \<lparr>indices = [(0, 20), (2, 12)], next_id = 3, revision = 1,
     undo_stack = [\<lparr>old_values = [(0, 10)], removed_values = [(1, 11)], new_ids = [2], old_next_id = 2, undo_revision = 1\<rparr>]\<rparr>"

lemma changed_rows_reached: "session_steps id_only (start_undo_session True two_rows) changed_rows"
proof -
  let ?a = "snd (modify id_only 0 (\<lambda>_. 20) (start_undo_session True two_rows))"
  let ?b = "case remove 1 ?a of Inr b \<Rightarrow> b | Inl _ \<Rightarrow> ?a"
  have "session_steps id_only (start_undo_session True two_rows) ?a"
    by (rule steps_modify [OF steps_done, where i = 0 and f = "\<lambda>_. 20"])
      (simp add: modify_def two_rows_def start_undo_session_def find_row_def collides_def shares_key_def id_only_def by_value_def on_modify_def)
  then have "session_steps id_only (start_undo_session True two_rows) ?b"
    by (rule steps_remove [where i = 1])
      (simp add: modify_def remove_def two_rows_def start_undo_session_def find_row_def collides_def shares_key_def id_only_def by_value_def on_modify_def
        on_head_def Let_def)
  then show ?thesis
    by (rule steps_emplace [where i = 2 and v = 12])
      (simp add: modify_def remove_def emplace_def two_rows_def changed_rows_def start_undo_session_def find_row_def collides_def shares_key_def id_only_def by_value_def
        on_modify_def on_remove_def on_create_def on_head_def note_modify_def note_remove_def note_create_def
        flat_erase_def)
qed

theorem undo_restores_session_witness:
  "index_ok two_rows \<and> session_steps id_only (start_undo_session True two_rows) changed_rows
   \<and> (\<exists>z. undo id_only changed_rows = Inr z \<and> content z = content two_rows \<and> history z = history two_rows)"
  using undo_restores_session [OF two_rows_ok changed_rows_reached] two_rows_ok changed_rows_reached id_key_only by blast

text \<open>C34. The undo stack implements a stack of snapshots: starting a session pushes the content,
  squashing forgets the newest snapshot and leaves the rows alone, and committing a revision forgets
  exactly the snapshots up to it.  For tables whose rows are unique by their id alone, unwinding everything ends at the oldest
  snapshot; with a further unique key it may be refused on the way (\<open>undo_refuses_exchanged_keys\<close>).\<close>

theorem undo_stack_is_snapshots:
  assumes "index_ok x" and "revs_ok x"
  shows "(content (start_undo_session True x) = content x \<and> history (start_undo_session True x) = content x # history x)
    \<and> (content (squash x) = content x \<and> history (squash x) = tl (history x))
    \<and> (content (commit r x) = content x \<and> history (commit r x) = take (nat (revision x - r)) (history x))
    \<and> (id_key key \<longrightarrow> (\<exists>y. undo_all key x = Inr y \<and> content y = last (content x # history x) \<and> undo_stack y = []))"
  using start_recorded [OF assms(1)] squash_recorded [OF assms(1)] commit_recorded [OF assms(1,2)]
    undo_all_unwinds [OF assms(1)] by blast

theorem undo_stack_is_snapshots_witness:
  "index_ok changed_rows \<and> revs_ok changed_rows \<and> id_key id_only
   \<and> history (squash changed_rows) = tl (history changed_rows)
   \<and> history (commit 1 changed_rows) = take 0 (history changed_rows)
   \<and> (\<exists>y. undo_all id_only changed_rows = Inr y \<and> undo_stack y = [])"
proof -
  have ok: "index_ok changed_rows"
    using session_stack_nonempty [OF two_rows_ok changed_rows_reached] by simp
  have revs: "revs_ok changed_rows" by (simp add: revs_ok_def changed_rows_def)
  show ?thesis
    using ok revs id_key_only undo_stack_is_snapshots [OF ok revs, of 1 id_only]
    by (simp del: undo_all.simps add: changed_rows_def) blast
qed

text \<open>A table with a unique secondary key does not always undo: when a session exchanged the
  keys of two rows, restoring the first row collides with the second and \<open>undo\<close> throws,
  although the state to restore is a legal one.\<close>

theorem undo_refuses_exchanged_keys:
  "\<exists>y. session_steps by_value (start_undo_session True two_rows) y \<and> undo by_value y = Inl logic_error"
proof -
  let ?s = "start_undo_session True two_rows"
  let ?a = "snd (modify by_value 0 (\<lambda>_. 12) ?s)"
  let ?b = "snd (modify by_value 1 (\<lambda>_. 10) ?a)"
  let ?c = "snd (modify by_value 0 (\<lambda>_. 11) ?b)"
  note defs = modify_def two_rows_def start_undo_session_def find_row_def collides_def shares_key_def id_only_def by_value_def on_modify_def on_head_def
    note_modify_def
  have "session_steps by_value ?s ?a"
    by (rule steps_modify [OF steps_done, where i = 0 and f = "\<lambda>_. 12"]) (simp add: defs)
  then have "session_steps by_value ?s ?b"
    by (rule steps_modify [where i = 1 and f = "\<lambda>_. 10"]) (simp add: defs)
  then have "session_steps by_value ?s ?c"
    by (rule steps_modify [where i = 0 and f = "\<lambda>_. 11"]) (simp add: defs)
  moreover have "undo by_value ?c = Inl logic_error"
    by (simp add: defs undo_def restore_value_def)
  ultimately show ?thesis by blast
qed

text \<open>After a change refused for a colliding key the session can no longer be undone: the
  container has dropped the row, and \<open>undo\<close> dereferences the end of the container.\<close>

theorem refused_modify_breaks_undo:
  "\<exists>y. modify by_value 0 (\<lambda>_. 11) (start_undo_session True two_rows) = (Inl logic_error, y)
     \<and> find_row 0 y = None \<and> undo by_value y = Inl undefined_behaviour"
  by (simp add: modify_def two_rows_def start_undo_session_def find_row_def collides_def shares_key_def id_only_def by_value_def on_modify_def on_head_def
      note_modify_def flat_erase_def undo_def restore_value_def)

text \<open>An index that is added to a database with open sessions is brought into step: it gets
  the same range of revisions as the first index, empty snapshots, and from then on sessions of
  the two stay aligned.\<close>

theorem add_index_in_step:
  assumes "revs_ok x" and "0 \<le> fst (undo_stack_revision_range x)" and "fst (undo_stack_revision_range x) < 2 ^ 63"
  shows "\<exists>y. add_index True False empty_index (x # xs) = Inr (x # xs @ [y])
     \<and> undo_stack_revision_range y = undo_stack_revision_range x \<and> index_ok y \<and> revs_ok y
     \<and> length (undo_stack y) = length (undo_stack x) \<and> content y = (Map.empty, 0)"
proof -
  let ?b = "revision x - int (length (undo_stack x))" and ?k = "length (undo_stack x)"
  have rx: "undo_stack_revision_range x = (?b, revision x)" by (rule revision_range [OF assms(1)])
  show ?thesis
  proof (cases "undo_stack_revision_range (empty_index :: 'a generic_index) = undo_stack_revision_range x")
    case True
    then have "revision x = 0" "undo_stack x = []"
      unfolding rx by (auto simp: undo_stack_revision_range_def empty_index_def)
    then show ?thesis using True rx
      by (simp add: add_index_def empty_index_def index_ok_def revs_ok_def content_def undo_stack_revision_range_def)
  next
    case False
    define e :: "'a generic_index" where "e = empty_index\<lparr>revision := ?b\<rparr>"
    have e: "index_ok e" "revs_ok e" "revision e = ?b" "undo_stack e = []" "content e = (Map.empty, 0)"
      by (simp_all add: e_def empty_index_def index_ok_def revs_ok_def content_def)
    have "?b < 2 ^ 63" "0 \<le> ?b" using assms rx by auto
    then have "int (int_to_u64 ?b) = ?b" by (simp add: int_to_u64_def)
    then have "set_revision (int_to_u64 ?b) empty_index = Inr e"
      using \<open>?b < 2 ^ 63\<close> by (simp add: set_revision_def e_def empty_index_def)
    then have "add_index True False empty_index (x # xs) = Inr (x # xs @ [(start_undo_session True ^^ ?k) e])"
      using False rx e by (simp add: add_index_def Let_def)
    then show ?thesis
      using start_many [OF e(1,2), of ?k] e rx revision_range [of "(start_undo_session True ^^ ?k) e"] by auto
  qed
qed

theorem add_index_in_step_witness:
  "revs_ok changed_rows \<and> (\<exists>y. add_index True False empty_index [changed_rows] = Inr [changed_rows, y]
     \<and> undo_stack_revision_range y = undo_stack_revision_range changed_rows \<and> length (undo_stack y) = 1)"
proof -
  have r: "revs_ok changed_rows" by (simp add: revs_ok_def changed_rows_def)
  show ?thesis
    using r add_index_in_step [OF r, of "[]"] by (auto simp: changed_rows_def undo_stack_revision_range_def)
qed

end
