(* ===== verification/ContractAssets.thy ===== *)
theory ContractAssets
  imports SafeInt
begin

text \<open>
  Symbols and assets as the contract library sees them
  (\<^verbatim>\<open>contracts/eosiolib/symbol.hpp\<close>, \<^verbatim>\<open>contracts/eosiolib/asset.hpp\<close>).
  They differ from the chain's own classes: a failed check is an \<open>eosio_assert\<close> with a
  message, the operators check the range of the result, a symbol needs a name and may have any
  number of decimals.  Signed overflow is undefined in C++ and appears as \<open>undefined_behaviour\<close>.
\<close>

definition contract_assert :: "bool \<Rightarrow> string \<Rightarrow> unit result" where
  "contract_assert c msg = eos_assert c (eosio_assert_message msg)"

definition int64_value :: "int \<Rightarrow> int result" where
  "int64_value x = (if in_int64 x then Inr x else Inl undefined_behaviour)"

section \<open>Symbols\<close>

type_synonym symbol_type = "64 word"

definition low_char :: "64 word \<Rightarrow> nat" where
  "low_char v = unat (v AND 0xFF)"

definition upper_code :: "nat \<Rightarrow> bool" where
  "upper_code c \<longleftrightarrow> 65 \<le> c \<and> c \<le> 90"

text \<open>
  \<open>string_to_symbol\<close>: a character that is not a capital letter is skipped; one from position 7
  on would be shifted by the width of the result, which is undefined.
\<close>

fun pack_loop :: "string \<Rightarrow> nat \<Rightarrow> 64 word \<Rightarrow> 64 word result" where
  "pack_loop [] i res = Inr res"
| "pack_loop (c # cs) i res =
     (if \<not> upper_code (of_char c) then pack_loop cs (i + 1) res
      else if 8 * (1 + i) \<ge> 64 then Inl undefined_behaviour
      else pack_loop cs (i + 1) (res OR push_bit (8 * (1 + i)) (of_nat (of_char c))))"

definition string_to_symbol :: "8 word \<Rightarrow> string \<Rightarrow> symbol_type result" where
  "string_to_symbol prec str =
     bind_r (pack_loop (takeWhile (\<lambda>c. c \<noteq> CHR 0x00) str) 0 0) (\<lambda>res. Inr (res OR ucast prec))"

text \<open>The inner loop of \<open>is_valid_symbol\<close>: after the end of the name only zero bytes.\<close>

function zeros_loop :: "nat \<Rightarrow> 64 word \<Rightarrow> (nat \<times> 64 word) option" where
  "zeros_loop i v =
     (let v = drop_bit 8 v in
      if low_char v \<noteq> 0 then None
      else if i + 1 < 7 then zeros_loop (i + 1) v
      else Some (i + 1, v))"
  by pat_completeness auto
termination by (relation "measure (\<lambda>(i, _). 7 - i)") auto

declare zeros_loop.simps [simp del]

lemma zeros_loop_index: "zeros_loop i v = Some (j, w) \<Longrightarrow> i < j"
  by (induction i v arbitrary: j w rule: zeros_loop.induct)
    (fastforce simp: zeros_loop.simps [of i v for i v] Let_def split: if_splits)

function valid_loop :: "nat \<Rightarrow> 64 word \<Rightarrow> bool" where
  "valid_loop i v =
     (if i < 7 then
        if \<not> upper_code (low_char v) then False
        else
          let v = drop_bit 8 v in
          if low_char v = 0 then
            (case zeros_loop i v of None \<Rightarrow> False | Some (i, v) \<Rightarrow> valid_loop (i + 1) v)
          else valid_loop (i + 1) v
      else True)"
  by pat_completeness auto
termination
  by (relation "measure (\<lambda>(i, _). 7 - i)") (auto dest: zeros_loop_index)

declare valid_loop.simps [simp del]

definition is_valid_symbol :: "symbol_type \<Rightarrow> bool" where
  "is_valid_symbol s = valid_loop 0 (drop_bit 8 s)"

function length_loop :: "nat \<Rightarrow> 64 word \<Rightarrow> nat" where
  "length_loop len v = (if low_char v \<noteq> 0 \<and> len \<le> 7 then length_loop (len + 1) (drop_bit 8 v) else len)"
  by pat_completeness auto
termination by (relation "measure (\<lambda>(n, _). 8 - n)") auto

declare length_loop.simps [simp del]

definition symbol_name_length :: "symbol_type \<Rightarrow> nat" where
  "symbol_name_length s = length_loop 0 (drop_bit 8 s)"

definition precision :: "symbol_type \<Rightarrow> nat" where
  "precision s = unat (s AND 0xFF)"

definition name :: "symbol_type \<Rightarrow> 64 word" where
  "name s = drop_bit 8 s"

fun print_chars :: "nat \<Rightarrow> 64 word \<Rightarrow> string" where
  "print_chars 0 v = []"
| "print_chars (Suc n) v = (if low_char v = 0 then [] else char_of (low_char v) # print_chars n (drop_bit 8 v))"

text \<open>\<open>print(false)\<close>: the name without the number of decimals.\<close>

definition symbol_print :: "symbol_type \<Rightarrow> string" where
  "symbol_print s = print_chars 7 (drop_bit 8 s)"

section \<open>Assets\<close>

record asset =
  amount :: int
  symbol :: symbol_type

definition max_amount :: int where "max_amount = 2 ^ 62 - 1"

definition is_amount_within_range :: "asset \<Rightarrow> bool" where
  "is_amount_within_range a \<longleftrightarrow> - max_amount \<le> amount a \<and> amount a \<le> max_amount"

definition is_valid :: "asset \<Rightarrow> bool" where
  "is_valid a \<longleftrightarrow> is_amount_within_range a \<and> is_valid_symbol (symbol a)"

definition make_asset :: "int \<Rightarrow> symbol_type \<Rightarrow> asset result" where
  "make_asset a s =
     (let r = \<lparr>amount = a, symbol = s\<rparr> in
      bind_r (contract_assert (is_amount_within_range r) ''magnitude of asset amount must be less than 2^62'') (\<lambda>_.
      bind_r (contract_assert (is_valid_symbol s) ''invalid symbol name'') (\<lambda>_.
      Inr r)))"

definition set_amount :: "int \<Rightarrow> asset \<Rightarrow> asset result" where
  "set_amount a r =
     (let r = r\<lparr>amount := a\<rparr> in
      bind_r (contract_assert (is_amount_within_range r) ''magnitude of asset amount must be less than 2^62'') (\<lambda>_. Inr r))"

definition asset_neg :: "asset \<Rightarrow> asset result" where
  "asset_neg a = bind_r (int64_value (- amount a)) (\<lambda>v. Inr (a\<lparr>amount := v\<rparr>))"

definition sub_assign :: "asset \<Rightarrow> asset \<Rightarrow> asset result" where
  "sub_assign x a =
     bind_r (contract_assert (symbol a = symbol x) ''attempt to subtract asset with different symbol'') (\<lambda>_.
     bind_r (int64_value (amount x - amount a)) (\<lambda>v.
     bind_r (contract_assert (- max_amount \<le> v) ''subtraction underflow'') (\<lambda>_.
     bind_r (contract_assert (v \<le> max_amount) ''subtraction overflow'') (\<lambda>_.
     Inr (x\<lparr>amount := v\<rparr>)))))"

definition add_assign :: "asset \<Rightarrow> asset \<Rightarrow> asset result" where
  "add_assign x a =
     bind_r (contract_assert (symbol a = symbol x) ''attempt to add asset with different symbol'') (\<lambda>_.
     bind_r (int64_value (amount x + amount a)) (\<lambda>v.
     bind_r (contract_assert (- max_amount \<le> v) ''addition underflow'') (\<lambda>_.
     bind_r (contract_assert (v \<le> max_amount) ''addition overflow'') (\<lambda>_.
     Inr (x\<lparr>amount := v\<rparr>)))))"

definition asset_plus :: "asset \<Rightarrow> asset \<Rightarrow> asset result" where
  "asset_plus a b = add_assign a b"

definition asset_minus :: "asset \<Rightarrow> asset \<Rightarrow> asset result" where
  "asset_minus a b = sub_assign a b"

text \<open>The product is computed in 128 bits, where it always fits.\<close>

definition mult_assign :: "asset \<Rightarrow> int \<Rightarrow> asset result" where
  "mult_assign x a =
     (let tmp = amount x * a in
      bind_r (contract_assert (tmp \<le> max_amount) ''multiplication overflow'') (\<lambda>_.
      bind_r (contract_assert (tmp \<ge> - max_amount) ''multiplication underflow'') (\<lambda>_.
      Inr (x\<lparr>amount := tmp\<rparr>))))"

definition asset_times :: "asset \<Rightarrow> int \<Rightarrow> asset result" where
  "asset_times a b = mult_assign a b"

text \<open>Division of C++ truncates towards zero (\<open>cdiv\<close>).\<close>

definition div_assign :: "asset \<Rightarrow> int \<Rightarrow> asset result" where
  "div_assign x a =
     bind_r (contract_assert (a \<noteq> 0) ''divide by zero'') (\<lambda>_.
     bind_r (contract_assert (\<not> (amount x = - (2 ^ 63) \<and> a = - 1)) ''signed division overflow'') (\<lambda>_.
     Inr (x\<lparr>amount := cdiv (amount x) a\<rparr>)))"

definition asset_div :: "asset \<Rightarrow> int \<Rightarrow> asset result" where
  "asset_div a b = div_assign a b"

definition same_symbol :: "asset \<Rightarrow> asset \<Rightarrow> unit result" where
  "same_symbol a b =
     contract_assert (symbol a = symbol b) ''comparison of assets with different symbols is not allowed''"

definition asset_ratio :: "asset \<Rightarrow> asset \<Rightarrow> int result" where
  "asset_ratio a b =
     bind_r (same_symbol a b) (\<lambda>_.
     if amount b = 0 then Inl undefined_behaviour else int64_value (cdiv (amount a) (amount b)))"

definition asset_eq :: "asset \<Rightarrow> asset \<Rightarrow> bool result" where
  "asset_eq a b = bind_r (same_symbol a b) (\<lambda>_. Inr (amount a = amount b))"

definition asset_neq :: "asset \<Rightarrow> asset \<Rightarrow> bool result" where
  "asset_neq a b = bind_r (asset_eq a b) (\<lambda>r. Inr (\<not> r))"

definition asset_less :: "asset \<Rightarrow> asset \<Rightarrow> bool result" where
  "asset_less a b = bind_r (same_symbol a b) (\<lambda>_. Inr (amount a < amount b))"

definition asset_less_eq :: "asset \<Rightarrow> asset \<Rightarrow> bool result" where
  "asset_less_eq a b = bind_r (same_symbol a b) (\<lambda>_. Inr (amount a \<le> amount b))"

definition asset_greater :: "asset \<Rightarrow> asset \<Rightarrow> bool result" where
  "asset_greater a b = bind_r (same_symbol a b) (\<lambda>_. Inr (amount a > amount b))"

definition asset_greater_eq :: "asset \<Rightarrow> asset \<Rightarrow> bool result" where
  "asset_greater_eq a b = bind_r (same_symbol a b) (\<lambda>_. Inr (amount a \<ge> amount b))"

section \<open>Extended assets\<close>

record extended_asset = asset +
  contract :: "64 word"

definition extended_neg :: "extended_asset \<Rightarrow> extended_asset result" where
  "extended_neg a = bind_r (asset_neg (asset.truncate a)) (\<lambda>r. Inr (asset.extend r \<lparr>contract = contract a\<rparr>))"

definition extended_minus :: "extended_asset \<Rightarrow> extended_asset \<Rightarrow> extended_asset result" where
  "extended_minus a b =
     bind_r (contract_assert (contract a = contract b) ''type mismatch'') (\<lambda>_.
     bind_r (asset_minus (asset.truncate a) (asset.truncate b)) (\<lambda>r.
     Inr (asset.extend r \<lparr>contract = contract a\<rparr>)))"

definition extended_plus :: "extended_asset \<Rightarrow> extended_asset \<Rightarrow> extended_asset result" where
  "extended_plus a b =
     bind_r (contract_assert (contract a = contract b) ''type mismatch'') (\<lambda>_.
     bind_r (asset_plus (asset.truncate a) (asset.truncate b)) (\<lambda>r.
     Inr (asset.extend r \<lparr>contract = contract a\<rparr>)))"

section \<open>What a valid symbol is\<close>

definition byte :: "64 word \<Rightarrow> nat \<Rightarrow> nat" where
  "byte v k = low_char (drop_bit (8 * k) v)"

lemma low_char_byte: "low_char v = byte v 0"
  by (simp add: byte_def)

lemma byte_drop: "byte (drop_bit 8 v) k = byte v (k + 1)"
  by (simp add: byte_def ac_simps)

text \<open>A name of \<open>n\<close> capital letters, at most seven, and zero bytes after it.\<close>

definition named :: "nat \<Rightarrow> 64 word \<Rightarrow> bool" where
  "named n v \<longleftrightarrow> (\<forall>k<n. upper_code (byte v k)) \<and> (\<forall>k\<ge>n. byte v k = 0)"

lemma zeros_loop_spec:
  assumes "i < 7"
  shows "(zeros_loop i v \<noteq> None \<longleftrightarrow> (\<forall>k<7 - i. byte v (Suc k) = 0)) \<and> (zeros_loop i v = Some (j, w) \<longrightarrow> j = 7)"
  using assms
proof (induction "7 - i" arbitrary: i v)
  case (Suc m)
  have step: "(\<forall>k<7 - i. byte v (Suc k) = 0) \<longleftrightarrow> byte v 1 = 0 \<and> (\<forall>k<m. byte (drop_bit 8 v) (Suc k) = 0)"
    unfolding Suc.hyps(2) [symmetric] byte_drop by (simp add: All_less_Suc2)
  show ?case
  proof (cases "i = 6")
    case True
    then show ?thesis using step Suc.hyps(2)
      by (subst (1 2) zeros_loop.simps) (simp add: Let_def low_char_byte byte_drop)
  next
    case False
    have e: "zeros_loop i v = (if byte v 1 \<noteq> 0 then None else zeros_loop (i + 1) (drop_bit 8 v))"
      using False Suc.prems by (subst zeros_loop.simps) (simp add: Let_def low_char_byte byte_drop)
    have m: "m = 7 - (i + 1)" using Suc.hyps(2) by simp
    show ?thesis using Suc.hyps(1) [OF m, of "drop_bit 8 v"] False Suc.prems by (simp only: e step m) simp
  qed
qed simp

lemma not_upper_0 [simp]: "\<not> upper_code 0"
  by (simp add: upper_code_def)

lemma named_Suc: "named (Suc n) v \<longleftrightarrow> upper_code (byte v 0) \<and> named n (drop_bit 8 v)"
proof -
  have "(\<forall>k\<ge>Suc n. byte v k = 0) \<longleftrightarrow> (\<forall>k\<ge>n. byte v (Suc k) = 0)" by (metis Suc_le_D Suc_le_mono)
  then show ?thesis by (simp add: named_def byte_drop All_less_Suc2)
qed

lemma named_0: "named 0 v \<longleftrightarrow> (\<forall>k. byte v k = 0)"
  by (simp add: named_def)

lemma valid_loop_end: "valid_loop 8 v"
  by (simp add: valid_loop.simps)

lemma valid_loop_step:
  assumes "i < 7"
  shows "valid_loop i v \<longleftrightarrow> upper_code (byte v 0) \<and>
    (if byte v 1 = 0 then \<forall>k<7 - i. byte v (Suc (Suc k)) = 0 else valid_loop (i + 1) (drop_bit 8 v))"
proof -
  let ?z = "zeros_loop i (drop_bit 8 v)"
  have "(case ?z of None \<Rightarrow> False | Some (i, v) \<Rightarrow> valid_loop (i + 1) v) \<longleftrightarrow> ?z \<noteq> None"
  proof (cases ?z)
    case (Some p)
    then have "fst p = 7" using zeros_loop_spec [OF assms, of "drop_bit 8 v" "fst p" "snd p"] by simp
    then show ?thesis using Some valid_loop_end by (simp add: split_beta)
  qed simp
  then show ?thesis
    using assms zeros_loop_spec [OF assms, of "drop_bit 8 v"]
    by (subst valid_loop.simps) (simp add: Let_def low_char_byte byte_drop)
qed

lemma valid_loop_spec:
  assumes "i < 7" and "\<forall>k\<ge>7 - i. byte v k = 0"
  shows "valid_loop i v \<longleftrightarrow> (\<exists>n<7 - i. named (Suc n) v)"
  using assms
proof (induction "7 - i" arbitrary: i v)
  case (Suc m)
  have tail: "\<forall>k\<ge>m. byte (drop_bit 8 v) k = 0"
    using Suc.prems(2) Suc.hyps(2) by (simp add: byte_drop)
  have ex: "(\<exists>n<7 - i. named (Suc n) v) \<longleftrightarrow>
      upper_code (byte v 0) \<and> (named 0 (drop_bit 8 v) \<or> (\<exists>n<m. named (Suc n) (drop_bit 8 v)))"
    unfolding Suc.hyps(2) [symmetric] by (auto simp: named_Suc Ex_less_Suc2)
  show ?case
  proof (cases "byte v 1 = 0")
    case True
    then have "\<not> named (Suc n) (drop_bit 8 v)" for n by (simp add: named_Suc byte_drop)
    moreover have "named 0 (drop_bit 8 v) \<longleftrightarrow> (\<forall>k<7 - i. byte v (Suc (Suc k)) = 0)"
    proof
      assume a: "\<forall>k<7 - i. byte v (Suc (Suc k)) = 0"
      have "byte v (Suc k) = 0" for k
      proof (cases k)
        case 0
        then show ?thesis using True by simp
      next
        case (Suc j)
        then show ?thesis using a Suc.prems(2) by (cases "j < 7 - i") auto
      qed
      then show "named 0 (drop_bit 8 v)" by (simp add: named_0 byte_drop)
    qed (simp add: named_0 byte_drop)
    ultimately show ?thesis using True by (simp add: valid_loop_step [OF Suc.prems(1)] ex)
  next
    case False
    then have "i \<noteq> 6" using Suc.prems(2) by auto
    then have i: "i + 1 < 7" using Suc.prems(1) by simp
    have m: "m = 7 - (i + 1)" using Suc.hyps(2) by simp
    have "\<not> named 0 (drop_bit 8 v)" using False by (auto simp: named_0 byte_drop)
    then show ?thesis
      using Suc.hyps(1) [OF m i] tail False by (simp add: valid_loop_step [OF Suc.prems(1)] ex m)
  qed
qed simp

lemma byte_out_of_range: "8 * k \<ge> 64 \<Longrightarrow> byte v k = 0"
proof -
  assume "8 * k \<ge> 64"
  then have "drop_bit (8 * k) v = 0" by (intro bit_eqI) (auto simp: bit_simps dest: bit_imp_le_length)
  then show ?thesis by (simp add: byte_def low_char_def)
qed

lemma is_valid_symbol_named: "is_valid_symbol s \<longleftrightarrow> (\<exists>n<7. named (Suc n) (name s))"
proof -
  have "\<forall>k\<ge>7 - 0. byte (drop_bit 8 s) k = 0" by (simp add: byte_drop byte_out_of_range)
  then show ?thesis using valid_loop_spec [of 0 "drop_bit 8 s"] by (simp add: is_valid_symbol_def name_def)
qed

section \<open>Packing\<close>

lemma low_char_take_bit: "low_char v = unat (take_bit 8 v)"
  using mask_eq_exp_minus_1 [of 8, where 'a = "64 word"] by (simp add: low_char_def take_bit_eq_mask)

text \<open>Or-ing a character into a free byte changes that byte only.\<close>

lemma byte_or_char:
  assumes "byte v m = 0" and "m < 8" and "c < 256"
  shows "byte (v OR push_bit (8 * m) (of_nat c)) k = (if k = m then c else byte v k)"
proof -
  have c: "take_bit 8 (of_nat c :: 64 word) = of_nat c"
  proof -
    have "take_bit 8 c = c" using assms(3) by (simp add: take_bit_nat_eq_self)
    then show ?thesis by (simp only: take_bit_of_nat)
  qed
  have "take_bit 8 (drop_bit (8 * k) (push_bit (8 * m) (of_nat c :: 64 word))) = (if k = m then of_nat c else 0)"
  proof (rule bit_eqI)
    fix j
    assume "possible_bit TYPE(64 word) j"
    have hi: "\<not> bit (of_nat c :: 64 word) n" if "8 \<le> n" for n
      using c that by (metis bit_take_bit_iff leD)
    show "bit (take_bit 8 (drop_bit (8 * k) (push_bit (8 * m) (of_nat c :: 64 word)))) j
        = bit (if k = m then of_nat c else (0 :: 64 word)) j"
    proof (cases "j < 8")
      case True
      consider "k = m" | "k < m" | "m < k" by linarith
      then show ?thesis
        using True assms(2) hi by cases (auto simp: bit_simps)
    next
      case False
      then show ?thesis using hi by (auto simp: bit_simps)
    qed
  qed
  moreover have "unat (of_nat c :: 64 word) = c" using assms(3) by (simp add: unat_of_nat)
  moreover have "take_bit 8 (drop_bit (8 * m) v) = 0"
    using assms(1) by (simp add: byte_def low_char_take_bit unat_eq_0)
  ultimately show ?thesis
    by (cases "k = m") (simp_all add: byte_def low_char_take_bit drop_bit_or take_bit_or)
qed

lemma upper_char_bounds: "upper_code (of_char c) \<Longrightarrow> (of_char c :: nat) < 256 \<and> (of_char c :: nat) \<noteq> 0"
  by (simp add: upper_code_def)

lemma pack_loop_spec:
  assumes "list_all (\<lambda>c. upper_code (of_char c)) cs" and "i + length cs \<le> 7" and "\<forall>k>i. byte res k = 0"
  shows "\<exists>r. pack_loop cs i res = Inr r \<and> (\<forall>k\<le>i. byte r k = byte res k)
    \<and> (\<forall>k<length cs. byte r (i + 1 + k) = of_char (cs ! k)) \<and> (\<forall>k>i + length cs. byte r k = 0)"
  using assms
proof (induction cs arbitrary: i res)
  case (Cons c cs)
  define res' where "res' = res OR push_bit (8 * (1 + i)) (of_nat (of_char c))"
  have up: "upper_code (of_char c)" using Cons.prems by simp
  have b: "byte res' k = (if k = 1 + i then of_char c else byte res k)" for k
    unfolding res'_def using Cons.prems upper_char_bounds [OF up] by (intro byte_or_char) auto
  obtain r where r: "pack_loop cs (i + 1) res' = Inr r" "\<forall>k\<le>i + 1. byte r k = byte res' k"
    "\<forall>k<length cs. byte r (i + 2 + k) = of_char (cs ! k)" "\<forall>k>i + 1 + length cs. byte r k = 0"
    using Cons.IH [of "i + 1" res'] Cons.prems b by auto
  have "pack_loop (c # cs) i res = Inr r"
    using r(1) up Cons.prems(2) by (simp add: res'_def)
  moreover have "\<forall>k<length (c # cs). byte r (i + 1 + k) = of_char ((c # cs) ! k)"
    using r(2,3) b by (auto simp: nth_Cons split: nat.split)
  moreover have "\<forall>k\<le>i. byte r k = byte res k" using r(2) b by simp
  moreover have "\<forall>k>i + length (c # cs). byte r k = 0" using r(4) by simp
  ultimately show ?case by blast
qed simp

lemma print_chars_spec:
  assumes "length str \<le> n" and "\<forall>k<length str. byte v k = of_char (str ! k) \<and> byte v k \<noteq> 0"
    and "\<forall>k\<ge>length str. byte v k = 0"
  shows "print_chars n v = str"
  using assms
proof (induction str arbitrary: n v)
  case Nil
  then show ?case by (cases n) (simp_all add: low_char_byte)
next
  case (Cons c cs)
  then obtain m where n: "n = Suc m" by (cases n) auto
  have "byte v 0 = of_char c" "byte v 0 \<noteq> 0" using Cons.prems(2) by auto
  moreover have "print_chars m (drop_bit 8 v) = cs"
  proof (rule Cons.IH)
    show "\<forall>k<length cs. byte (drop_bit 8 v) k = of_char (cs ! k) \<and> byte (drop_bit 8 v) k \<noteq> 0"
      using Cons.prems(2) by (auto simp: byte_drop)
  qed (use Cons.prems n in \<open>auto simp: byte_drop\<close>)
  ultimately show ?case by (simp add: n low_char_byte)
qed

lemma length_loop_spec:
  assumes "l + n \<le> 7" and "\<forall>k<n. byte v k \<noteq> 0" and "byte v n = 0"
  shows "length_loop l v = l + n"
  using assms
proof (induction n arbitrary: l v)
  case 0
  then show ?case by (subst length_loop.simps) (simp add: low_char_byte)
next
  case (Suc n)
  then have "length_loop (l + 1) (drop_bit 8 v) = l + 1 + n" by (intro Suc.IH) (auto simp: byte_drop)
  then show ?case using Suc.prems by (subst length_loop.simps) (simp add: low_char_byte)
qed

section \<open>Arithmetic\<close>

lemma contract_assert_simps [simp]:
  "contract_assert True msg = Inr ()"
  "contract_assert c msg = Inr u \<longleftrightarrow> c"
  "contract_assert c msg = Inl e \<longleftrightarrow> \<not> c \<and> e = eosio_assert_message msg"
  by (auto simp: contract_assert_def)

lemma in_range_int64: "\<bar>x\<bar> \<le> 2 * max_amount \<Longrightarrow> in_int64 x"
  by (simp add: max_amount_def in_int64_def int64_max_def int64_min_def abs_le_iff)

lemma add_assign_exact:
  assumes "is_amount_within_range a" and "is_amount_within_range b" and "symbol b = symbol a"
    and "\<bar>amount a + amount b\<bar> \<le> max_amount"
  shows "add_assign a b = Inr (a\<lparr>amount := amount a + amount b\<rparr>)"
proof -
  have "in_int64 (amount a + amount b)" using assms(4) by (intro in_range_int64) simp
  then show ?thesis using assms by (simp add: add_assign_def int64_value_def abs_le_iff)
qed

lemma sub_assign_exact:
  assumes "is_amount_within_range a" and "is_amount_within_range b" and "symbol b = symbol a"
    and "\<bar>amount a - amount b\<bar> \<le> max_amount"
  shows "sub_assign a b = Inr (a\<lparr>amount := amount a - amount b\<rparr>)"
proof -
  have "in_int64 (amount a - amount b)" using assms(4) by (intro in_range_int64) simp
  then show ?thesis using assms by (simp add: sub_assign_def int64_value_def abs_le_iff)
qed

section \<open>Properties\<close>

text \<open>Packing a name of one to seven capital letters gives a valid symbol from which the name,
  its length and the number of decimals are read back, for every number of decimals.\<close>

theorem contract_symbol_roundtrip:
  assumes "str \<noteq> []" and "length str \<le> 7" and "list_all (\<lambda>c. upper_code (of_char c)) str"
  shows "\<exists>s. string_to_symbol prec str = Inr s \<and> is_valid_symbol s \<and> symbol_print s = str
    \<and> symbol_name_length s = length str \<and> precision s = unat prec"
proof -
  have tw: "takeWhile (\<lambda>c. c \<noteq> CHR 0x00) str = str"
    using assms(3) by (auto simp: takeWhile_eq_all_conv list_all_iff upper_code_def)
  obtain r where r: "pack_loop str 0 0 = Inr r" "byte r 0 = 0"
    "\<forall>k<length str. byte r (Suc k) = of_char (str ! k)" "\<forall>k>length str. byte r k = 0"
    using pack_loop_spec [OF assms(3), of 0 0] assms(2) by (auto simp: byte_def low_char_def)
  define s where "s = r OR ucast prec"
  have pack: "string_to_symbol prec str = Inr s" by (simp add: string_to_symbol_def tw r(1) s_def)
  have "(ucast prec :: 64 word) = push_bit (8 * 0) (of_nat (unat prec))"
    by simp
  moreover have "unat prec < 256" using unsigned_less [where 'a = nat, of prec] by simp
  ultimately have b: "byte s k = (if k = 0 then unat prec else byte r k)" for k
    unfolding s_def using r(2) by (simp only: byte_or_char)
  have up: "upper_code (of_char (str ! k))" if "k < length str" for k
    using assms(3) that by (simp add: list_all_iff)
  have n: "byte (name s) k = byte r (Suc k)" for k by (simp add: name_def byte_drop b)
  have named: "named (length str) (name s)"
    using r(3,4) up by (simp add: named_def n)
  have nz: "\<forall>k<length str. byte (name s) k \<noteq> 0" using r(3) up upper_char_bounds by (simp add: n)
  have z: "\<forall>k\<ge>length str. byte (name s) k = 0" using r(4) by (simp add: n)
  have "is_valid_symbol s"
    unfolding is_valid_symbol_named using named assms(1,2) by (cases str) (auto intro!: exI [of _ "length str - 1"])
  moreover have "symbol_print s = str"
    unfolding symbol_print_def name_def [symmetric] using assms(2) nz z r(3) by (intro print_chars_spec) (simp_all add: n)
  moreover have "symbol_name_length s = length str"
    unfolding symbol_name_length_def name_def [symmetric] using length_loop_spec [of 0 "length str" "name s"] assms(2) nz z by simp
  moreover have "precision s = unat prec"
    using b [of 0] by (simp add: precision_def byte_def low_char_def)
  ultimately show ?thesis using pack by blast
qed

theorem contract_symbol_roundtrip_witness:
  "list_all (\<lambda>c. upper_code (of_char c)) ''EOS'' \<and> (\<exists>s. string_to_symbol 4 ''EOS'' = Inr s \<and> is_valid_symbol s
     \<and> symbol_print s = ''EOS'' \<and> symbol_name_length s = 3 \<and> precision s = 4)"
proof -
  have u: "list_all (\<lambda>c. upper_code (of_char c)) ''EOS''" by code_simp
  have "length ''EOS'' = 3" "unat (4 :: 8 word) = 4" by simp_all
  then show ?thesis using u contract_symbol_roundtrip [OF _ _ u, of 4] by (simp only: list.distinct simp_thms)
qed

text \<open>The arithmetic of assets in contracts never overflows on values in range: sums,
  differences and products with any 64-bit number are the true value, or an assertion with its
  message when the symbols differ or the result leaves the range.\<close>

theorem contract_asset_arithmetic_exact:
  assumes "is_amount_within_range a" and "is_amount_within_range b"
  shows "asset_plus a b =
      (if symbol b \<noteq> symbol a then Inl (eosio_assert_message ''attempt to add asset with different symbol'')
       else if amount a + amount b < - max_amount then Inl (eosio_assert_message ''addition underflow'')
       else if amount a + amount b > max_amount then Inl (eosio_assert_message ''addition overflow'')
       else Inr (a\<lparr>amount := amount a + amount b\<rparr>))
    \<and> asset_minus a b =
      (if symbol b \<noteq> symbol a then Inl (eosio_assert_message ''attempt to subtract asset with different symbol'')
       else if amount a - amount b < - max_amount then Inl (eosio_assert_message ''subtraction underflow'')
       else if amount a - amount b > max_amount then Inl (eosio_assert_message ''subtraction overflow'')
       else Inr (a\<lparr>amount := amount a - amount b\<rparr>))
    \<and> asset_times a k =
      (if amount a * k > max_amount then Inl (eosio_assert_message ''multiplication overflow'')
       else if amount a * k < - max_amount then Inl (eosio_assert_message ''multiplication underflow'')
       else Inr (a\<lparr>amount := amount a * k\<rparr>))"
proof -
  have "in_int64 (amount a + amount b)" "in_int64 (amount a - amount b)"
    using assms by (auto intro!: in_range_int64 simp: is_amount_within_range_def)
  then show ?thesis
    by (simp add: asset_plus_def asset_minus_def asset_times_def add_assign_def sub_assign_def mult_assign_def
        int64_value_def contract_assert_def eos_assert_def Let_def)
qed

theorem contract_asset_arithmetic_exact_witness:
  "is_amount_within_range \<lparr>amount = 5, symbol = 0x534F4504\<rparr>
   \<and> asset_plus \<lparr>amount = 5, symbol = 0x534F4504\<rparr> \<lparr>amount = 7, symbol = 0x534F4504\<rparr> = Inr \<lparr>amount = 12, symbol = 0x534F4504\<rparr>
   \<and> asset_times \<lparr>amount = 5, symbol = 0x534F4504\<rparr> (2 ^ 62) = Inl (eosio_assert_message ''multiplication overflow'')"
proof -
  have r: "is_amount_within_range \<lparr>amount = 5, symbol = 0x534F4504\<rparr>" "is_amount_within_range \<lparr>amount = 7, symbol = 0x534F4504\<rparr>"
    by (simp_all add: is_amount_within_range_def max_amount_def)
  show ?thesis using r contract_asset_arithmetic_exact [OF r, of "2 ^ 62"] by (simp add: max_amount_def)
qed

end
