(* ===== verification/Token.thy ===== *)
theory Token
  imports ContractAssets Tables
begin

text \<open>
  The token contract (\<^verbatim>\<open>contracts/eosio.token/eosio.token.cpp\<close>, \<open>eosio.token.hpp\<close>):
  currencies with an issuer and a maximum supply, balances per account.  The tables of a contract
  are rows with a scope and a primary key (\<^verbatim>\<open>contracts/eosiolib/multi_index.hpp\<close>).  A
  failed assertion aborts the transaction, so nothing of a failed action stays; an action returns
  the new state or the failure.  Who pays for the memory of a row is not modelled.
\<close>

type_synonym account_name = "64 word"

section \<open>Tables of a contract\<close>

definition idx_emplace :: "('r \<Rightarrow> 'k) \<Rightarrow> 'r \<Rightarrow> 'r list \<Rightarrow> 'r list result" where
  "idx_emplace key r rows = tbl_create key r rows"

definition idx_get :: "('r \<Rightarrow> 'k) \<Rightarrow> 'k \<Rightarrow> string \<Rightarrow> 'r list \<Rightarrow> 'r result" where
  "idx_get key k error_msg rows = option_to_result (eosio_assert_message error_msg) (tbl_find key k rows)"

text \<open>\<open>modify\<close> takes a row of the table; the updater may fail and must keep the key.\<close>

definition idx_modify :: "('r \<Rightarrow> 'k) \<Rightarrow> 'k \<Rightarrow> ('r \<Rightarrow> 'r result) \<Rightarrow> 'r list \<Rightarrow> 'r list result" where
  "idx_modify key k updater rows =
     (case tbl_find key k rows of
        None \<Rightarrow> Inl undefined_behaviour
      | Some r \<Rightarrow>
          bind_r (updater r) (\<lambda>r'.
          bind_r (contract_assert (key r' = k) ''updater cannot change primary key when modifying an object'') (\<lambda>_.
          Inr (tbl_modify key k (\<lambda>_. r') rows))))"

section \<open>State\<close>

record account =
  balance :: asset

record currency_stats =
  st_supply :: asset
  max_supply :: asset
  issuer :: account_name

text \<open>Rows with their scope: the owner of a balance, the symbol name of a currency.\<close>

type_synonym account_row = "account_name \<times> account"
type_synonym stats_row = "64 word \<times> currency_stats"

definition account_key :: "account_row \<Rightarrow> account_name \<times> 64 word" where
  "account_key r = (fst r, name (symbol (balance (snd r))))"

definition stats_key :: "stats_row \<Rightarrow> 64 word \<times> 64 word" where
  "stats_key r = (fst r, name (symbol (st_supply (snd r))))"

text \<open>The state of the contract with the recipients notified and the inline actions sent.\<close>

record transfer_args =
  tr_from :: account_name
  tr_to :: account_name
  tr_quantity :: asset
  tr_memo :: string

record token_state =
  accounts :: "account_row list"
  stats :: "stats_row list"
  recipients :: "account_name list"
  inline_actions :: "transfer_args list"

text \<open>What an action sees of the chain: the contract's account, who authorized, who exists.\<close>

record action_context =
  self :: account_name
  auths :: "account_name list"
  is_account :: "account_name \<Rightarrow> bool"

definition require_auth :: "action_context \<Rightarrow> account_name \<Rightarrow> unit result" where
  "require_auth ctx a = eos_assert (a \<in> set (auths ctx)) missing_auth_exception"

definition require_recipient :: "account_name \<Rightarrow> token_state \<Rightarrow> token_state" where
  "require_recipient a s = s\<lparr>recipients := (if a \<in> set (recipients s) then recipients s else recipients s @ [a])\<rparr>"

section \<open>Operations\<close>

definition sub_balance :: "account_name \<Rightarrow> asset \<Rightarrow> token_state \<Rightarrow> token_state result" where
  "sub_balance owner v s =
     (let k = (owner, name (symbol v)) in
      bind_r (idx_get account_key k ''no balance object found'' (accounts s)) (\<lambda>from.
      bind_r (contract_assert (amount (balance (snd from)) \<ge> amount v) ''overdrawn balance'') (\<lambda>_.
      if amount (balance (snd from)) = amount v
      then Inr (s\<lparr>accounts := tbl_remove account_key k (accounts s)\<rparr>)
      else
        bind_r (idx_modify account_key k
            (\<lambda>a. bind_r (sub_assign (balance (snd a)) v) (\<lambda>b. Inr (fst a, (snd a)\<lparr>balance := b\<rparr>))) (accounts s)) (\<lambda>rows.
        Inr (s\<lparr>accounts := rows\<rparr>)))))"

definition add_balance :: "account_name \<Rightarrow> asset \<Rightarrow> token_state \<Rightarrow> token_state result" where
  "add_balance owner v s =
     (let k = (owner, name (symbol v)) in
      bind_r
        (case tbl_find account_key k (accounts s) of
           None \<Rightarrow> idx_emplace account_key (owner, \<lparr>balance = v\<rparr>) (accounts s)
         | Some _ \<Rightarrow> idx_modify account_key k
             (\<lambda>a. bind_r (add_assign (balance (snd a)) v) (\<lambda>b. Inr (fst a, (snd a)\<lparr>balance := b\<rparr>))) (accounts s)) (\<lambda>rows.
      Inr (s\<lparr>accounts := rows\<rparr>)))"

definition create :: "action_context \<Rightarrow> account_name \<Rightarrow> asset \<Rightarrow> token_state \<Rightarrow> token_state result" where
  "create ctx iss maximum_supply s =
     bind_r (require_auth ctx (self ctx)) (\<lambda>_.
     let sy = symbol maximum_supply in
     bind_r (contract_assert (is_valid_symbol sy) ''invalid symbol name'') (\<lambda>_.
     bind_r (contract_assert (is_valid maximum_supply) ''invalid supply'') (\<lambda>_.
     bind_r (contract_assert (amount maximum_supply > 0) ''max-supply must be positive'') (\<lambda>_.
     bind_r (contract_assert (tbl_find stats_key (name sy, name sy) (stats s) = None)
        ''token with symbol already exists'') (\<lambda>_.
     bind_r (idx_emplace stats_key (name sy,
        \<lparr>st_supply = \<lparr>amount = 0, symbol = sy\<rparr>, max_supply = maximum_supply, issuer = iss\<rparr>) (stats s)) (\<lambda>rows.
     Inr (s\<lparr>stats := rows\<rparr>)))))))"

definition issue :: "action_context \<Rightarrow> account_name \<Rightarrow> asset \<Rightarrow> string \<Rightarrow> token_state \<Rightarrow> token_state result" where
  "issue ctx to quantity memo s =
     (let sy = symbol quantity in
      bind_r (contract_assert (is_valid_symbol sy) ''invalid symbol name'') (\<lambda>_.
      bind_r (contract_assert (length memo \<le> 256) ''memo has more than 256 bytes'') (\<lambda>_.
      let k = (name sy, name sy) in
      bind_r (idx_get stats_key k ''token with symbol does not exist, create token before issue'' (stats s)) (\<lambda>existing.
      let st = snd existing in
      bind_r (require_auth ctx (issuer st)) (\<lambda>_.
      bind_r (contract_assert (is_valid quantity) ''invalid quantity'') (\<lambda>_.
      bind_r (contract_assert (amount quantity > 0) ''must issue positive quantity'') (\<lambda>_.
      bind_r (contract_assert (symbol quantity = symbol (st_supply st)) ''symbol precision mismatch'') (\<lambda>_.
      bind_r (int64_value (amount (max_supply st) - amount (st_supply st))) (\<lambda>available.
      bind_r (contract_assert (amount quantity \<le> available) ''quantity exceeds available supply'') (\<lambda>_.
      bind_r (idx_modify stats_key k
          (\<lambda>r. bind_r (add_assign (st_supply (snd r)) quantity) (\<lambda>b. Inr (fst r, (snd r)\<lparr>st_supply := b\<rparr>))) (stats s)) (\<lambda>rows.
      bind_r (add_balance (issuer st) quantity (s\<lparr>stats := rows\<rparr>)) (\<lambda>s.
      Inr (if to \<noteq> issuer st
           then s\<lparr>inline_actions := inline_actions s @
             [\<lparr>tr_from = issuer st, tr_to = to, tr_quantity = quantity, tr_memo = memo\<rparr>]\<rparr>
           else s)))))))))))))"

definition transfer :: "action_context \<Rightarrow> transfer_args \<Rightarrow> token_state \<Rightarrow> token_state result" where
  "transfer ctx args s =
     (let from = tr_from args; to = tr_to args; quantity = tr_quantity args; sy = name (symbol quantity) in
      bind_r (contract_assert (from \<noteq> to) ''cannot transfer to self'') (\<lambda>_.
      bind_r (require_auth ctx from) (\<lambda>_.
      bind_r (contract_assert (is_account ctx to) ''to account does not exist'') (\<lambda>_.
      bind_r (idx_get stats_key (sy, sy) ''unable to find key'' (stats s)) (\<lambda>row.
      let st = snd row; s = require_recipient to (require_recipient from s) in
      bind_r (contract_assert (is_valid quantity) ''invalid quantity'') (\<lambda>_.
      bind_r (contract_assert (amount quantity > 0) ''must transfer positive quantity'') (\<lambda>_.
      bind_r (contract_assert (symbol quantity = symbol (st_supply st)) ''symbol precision mismatch'') (\<lambda>_.
      bind_r (contract_assert (length (tr_memo args) \<le> 256) ''memo has more than 256 bytes'') (\<lambda>_.
      bind_r (sub_balance from quantity s) (add_balance to quantity))))))))))"

text \<open>The read-only accessors other contracts use.\<close>

definition get_supply :: "64 word \<Rightarrow> token_state \<Rightarrow> asset result" where
  "get_supply sy s = bind_r (idx_get stats_key (sy, sy) ''unable to find key'' (stats s)) (\<lambda>r. Inr (st_supply (snd r)))"

definition get_balance :: "account_name \<Rightarrow> 64 word \<Rightarrow> token_state \<Rightarrow> asset result" where
  "get_balance owner sy s =
     bind_r (idx_get account_key (owner, sy) ''unable to find key'' (accounts s)) (\<lambda>r. Inr (balance (snd r)))"

text \<open>
  The dispatcher: one of the three actions, followed by the inline transfer that \<open>issue\<close> sent, which
  runs with the issuer's authorization.
\<close>

datatype token_action =
    Create account_name asset
  | Issue account_name asset string
  | Transfer transfer_args

fun dispatch :: "action_context \<Rightarrow> token_action \<Rightarrow> token_state \<Rightarrow> token_state result" where
  "dispatch ctx (Create iss m) s = create ctx iss m s"
| "dispatch ctx (Issue to q memo) s = issue ctx to q memo s"
| "dispatch ctx (Transfer args) s = transfer ctx args s"

definition apply_action :: "action_context \<Rightarrow> token_action \<Rightarrow> token_state \<Rightarrow> token_state result" where
  "apply_action ctx a s =
     bind_r (dispatch ctx a (s\<lparr>recipients := [], inline_actions := []\<rparr>)) (\<lambda>s.
     fold_r (\<lambda>args. transfer (ctx\<lparr>auths := [tr_from args]\<rparr>) args) (inline_actions s) s)"

definition empty_token :: token_state where
  "empty_token = \<lparr>accounts = [], stats = [], recipients = [], inline_actions = []\<rparr>"

section \<open>The invariant\<close>

definition bal :: "account_name \<Rightarrow> 64 word \<Rightarrow> token_state \<Rightarrow> int" where
  "bal owner sy s = (case tbl_find account_key (owner, sy) (accounts s) of None \<Rightarrow> 0 | Some r \<Rightarrow> amount (balance (snd r)))"

definition in_currency :: "64 word \<Rightarrow> account_row \<Rightarrow> int" where
  "in_currency sy r = (if name (symbol (balance (snd r))) = sy then amount (balance (snd r)) else 0)"

definition balance_sum :: "64 word \<Rightarrow> token_state \<Rightarrow> int" where
  "balance_sum sy s = (\<Sum>r\<leftarrow>accounts s. in_currency sy r)"

definition currency :: "64 word \<Rightarrow> token_state \<Rightarrow> currency_stats option" where
  "currency sy s = map_option snd (tbl_find stats_key (sy, sy) (stats s))"

definition supply_of :: "64 word \<Rightarrow> token_state \<Rightarrow> int" where
  "supply_of sy s = (case currency sy s of None \<Rightarrow> 0 | Some st \<Rightarrow> amount (st_supply st))"

definition stats_row_ok :: "stats_row \<Rightarrow> bool" where
  "stats_row_ok r \<longleftrightarrow> (let st = snd r in fst r = name (symbol (st_supply st)) \<and> symbol (max_supply st) = symbol (st_supply st)
     \<and> is_valid_symbol (symbol (st_supply st)) \<and> 0 \<le> amount (st_supply st) \<and> amount (st_supply st) \<le> amount (max_supply st)
     \<and> amount (max_supply st) \<le> max_amount)"

text \<open>Well-formed tables; every balance is positive and in a currency that exists.\<close>

definition tables_ok :: "token_state \<Rightarrow> bool" where
  "tables_ok s \<longleftrightarrow> tbl_unique account_key (accounts s) \<and> tbl_unique stats_key (stats s) \<and> (\<forall>r\<in>set (stats s). stats_row_ok r)
     \<and> (\<forall>r\<in>set (accounts s). 0 < amount (balance (snd r)) \<and> amount (balance (snd r)) \<le> max_amount
         \<and> (\<exists>t\<in>set (stats s). symbol (st_supply (snd t)) = symbol (balance (snd r))))"

definition token_ok :: "token_state \<Rightarrow> bool" where
  "token_ok s \<longleftrightarrow> tables_ok s \<and> (\<forall>sy. balance_sum sy s = supply_of sy s)"

subsection \<open>Lookups\<close>

lemma currency_row:
  assumes "tables_ok s" and "currency sy s = Some st"
  shows "tbl_find stats_key (sy, sy) (stats s) = Some (sy, st) \<and> (sy, st) \<in> set (stats s) \<and> stats_row_ok (sy, st)
    \<and> name (symbol (st_supply st)) = sy"
proof -
  obtain r where f: "tbl_find stats_key (sy, sy) (stats s) = Some r" "snd r = st"
    using assms(2) by (auto simp: currency_def)
  have r: "r \<in> set (stats s)" "stats_key r = (sy, sy)" using tbl_find_Some [OF f(1)] by auto
  then have "r = (sy, st)" using f(2) by (auto simp: stats_key_def prod_eq_iff)
  then show ?thesis using f(1) r assms(1) by (auto simp: tables_ok_def stats_row_ok_def Let_def)
qed

lemma balance_currency:
  assumes "tables_ok s" and "r \<in> set (accounts s)"
  shows "\<exists>st. currency (name (symbol (balance (snd r)))) s = Some st \<and> symbol (st_supply st) = symbol (balance (snd r))"
proof -
  obtain t where t: "t \<in> set (stats s)" "symbol (st_supply (snd t)) = symbol (balance (snd r))"
    using assms by (auto simp: tables_ok_def)
  then have "stats_row_ok t" using assms(1) by (simp add: tables_ok_def)
  then have "stats_key t = (name (symbol (balance (snd r))), name (symbol (balance (snd r))))"
    using t(2) by (simp add: stats_row_ok_def Let_def stats_key_def)
  then have "tbl_find stats_key (name (symbol (balance (snd r))), name (symbol (balance (snd r)))) (stats s) = Some t"
    using tbl_find_unique [of stats_key "stats s" t] t(1) assms(1) by (simp add: tables_ok_def)
  then show ?thesis using t(2) by (simp add: currency_def)
qed

lemma account_row:
  assumes "tables_ok s" and "tbl_find account_key (owner, sy) (accounts s) = Some r"
  shows "r \<in> set (accounts s) \<and> fst r = owner \<and> name (symbol (balance (snd r))) = sy \<and> 0 < amount (balance (snd r))
    \<and> amount (balance (snd r)) \<le> max_amount \<and> is_amount_within_range (balance (snd r))"
proof -
  from tbl_find_Some [OF assms(2)] have r: "r \<in> set (accounts s)" "account_key r = (owner, sy)" by auto
  then have "0 < amount (balance (snd r)) \<and> amount (balance (snd r)) \<le> max_amount"
    using assms(1) by (simp add: tables_ok_def)
  then show ?thesis using r by (auto simp: account_key_def is_amount_within_range_def)
qed

lemma account_symbol:
  assumes "tables_ok s" and "tbl_find account_key (owner, sy) (accounts s) = Some r" and "currency sy s = Some st"
  shows "symbol (balance (snd r)) = symbol (st_supply st)"
  using balance_currency [OF assms(1), of r] account_row [OF assms(1,2)] assms(3) by auto

lemma bal_nonneg: "tables_ok s \<Longrightarrow> 0 \<le> bal owner sy s"
  using account_row [of s owner sy] by (auto simp: bal_def less_imp_le split: option.split)

lemma sum_list_member_le_int:
  fixes m :: "'r \<Rightarrow> int"
  assumes "\<forall>x\<in>set rows. 0 \<le> m x" and "r \<in> set rows"
  shows "m r \<le> (\<Sum>x\<leftarrow>rows. m x)"
  using assms
proof (induction rows)
  case (Cons x rows)
  have "0 \<le> (\<Sum>x\<leftarrow>rows. m x)" using Cons.prems(1) by (intro sum_list_nonneg) auto
  then show ?case using Cons by (cases "r = x") auto
qed simp

lemma bal_le_sum: 
  assumes "tables_ok s"
  shows "bal owner sy s \<le> balance_sum sy s"
proof -
  have nn: "\<forall>x\<in>set (accounts s). 0 \<le> in_currency sy x" using assms by (auto simp: tables_ok_def in_currency_def)
  show ?thesis
  proof (cases "tbl_find account_key (owner, sy) (accounts s)")
    case None
    then show ?thesis using nn by (auto simp: bal_def balance_sum_def intro!: sum_list_nonneg)
  next
    case (Some r)
    from account_row [OF assms Some] have "r \<in> set (accounts s)" "in_currency sy r = amount (balance (snd r))"
      by (auto simp: in_currency_def)
    then show ?thesis using sum_list_member_le_int [OF nn, of r] Some by (simp add: bal_def balance_sum_def)
  qed
qed

subsection \<open>One balance changes\<close>

text \<open>What \<open>sub_balance\<close> and \<open>add_balance\<close> do: the balance of one owner in one currency moves by \<open>d\<close>.\<close>

definition moves :: "account_name \<Rightarrow> 64 word \<Rightarrow> int \<Rightarrow> token_state \<Rightarrow> token_state \<Rightarrow> bool" where
  "moves owner sy d s s' \<longleftrightarrow> tables_ok s' \<and> stats s' = stats s \<and> recipients s' = recipients s \<and> inline_actions s' = inline_actions s
     \<and> (\<forall>o' y. bal o' y s' = bal o' y s + (if o' = owner \<and> y = sy then d else 0))
     \<and> (\<forall>y. balance_sum y s' = balance_sum y s + (if y = sy then d else 0))"

lemma set_modify: "x \<in> set (tbl_modify key k f rows) \<Longrightarrow> \<exists>r\<in>set rows. x = (if key r = k then f r else r)"
  by (auto simp: tbl_modify_def)

lemma moves_replace:
  assumes ok: "tables_ok s" and f: "tbl_find account_key (owner, sy) (accounts s) = Some r"
    and pos: "0 < amount (balance (snd r)) + d" "amount (balance (snd r)) + d \<le> max_amount"
  defines "r' \<equiv> (fst r, (snd r)\<lparr>balance := (balance (snd r))\<lparr>amount := amount (balance (snd r)) + d\<rparr>\<rparr>)"
  shows "moves owner sy d s (s\<lparr>accounts := tbl_modify account_key (owner, sy) (\<lambda>_. r') (accounts s)\<rparr>)"
proof -
  note r = account_row [OF ok f]
  have k: "account_key r' = (owner, sy)" using r by (simp add: r'_def account_key_def)
  have a: "amount (balance (snd r')) = amount (balance (snd r)) + d" by (simp add: r'_def)
  have u: "tbl_unique account_key (accounts s)" using ok by (simp add: tables_ok_def)
  have sum: "(\<Sum>x\<leftarrow>tbl_modify account_key (owner, sy) (\<lambda>_. r') (accounts s). in_currency y x)
      = (\<Sum>x\<leftarrow>accounts s. in_currency y x) + (if y = sy then d else 0)" for y
    using sum_list_modify [OF u f, of "in_currency y" "\<lambda>_. r'"] r by (auto simp: in_currency_def r'_def split: if_splits)
  have acc: "\<forall>x\<in>set (accounts s). 0 < amount (balance (snd x))
      \<and> amount (balance (snd x)) \<le> max_amount \<and> (\<exists>t\<in>set (stats s). symbol (st_supply (snd t)) = symbol (balance (snd x)))"
    using ok by (simp add: tables_ok_def)
  have "\<forall>x\<in>set (tbl_modify account_key (owner, sy) (\<lambda>_. r') (accounts s)). 0 < amount (balance (snd x))
      \<and> amount (balance (snd x)) \<le> max_amount \<and> (\<exists>t\<in>set (stats s). symbol (st_supply (snd t)) = symbol (balance (snd x)))"
  proof
    fix x assume "x \<in> set (tbl_modify account_key (owner, sy) (\<lambda>_. r') (accounts s))"
    then consider "x \<in> set (accounts s)" | "x = r'" by (auto dest!: set_modify split: if_splits)
    then show "0 < amount (balance (snd x)) \<and> amount (balance (snd x)) \<le> max_amount
        \<and> (\<exists>t\<in>set (stats s). symbol (st_supply (snd t)) = symbol (balance (snd x)))"
      using acc r pos by cases (blast, simp add: r'_def)
  qed
  then have "tables_ok (s\<lparr>accounts := tbl_modify account_key (owner, sy) (\<lambda>_. r') (accounts s)\<rparr>)"
    using ok tbl_unique_replace [where key = account_key, OF k] by (simp add: tables_ok_def)
  then show ?thesis
    using sum f a by (simp add: moves_def bal_def balance_sum_def tbl_find_replace [where key = account_key, OF k])
qed

lemma moves_remove:
  assumes ok: "tables_ok s" and f: "tbl_find account_key (owner, sy) (accounts s) = Some r"
  shows "moves owner sy (- amount (balance (snd r))) s (s\<lparr>accounts := tbl_remove account_key (owner, sy) (accounts s)\<rparr>)"
proof -
  note r = account_row [OF ok f]
  have u: "tbl_unique account_key (accounts s)" using ok by (simp add: tables_ok_def)
  have sum: "(\<Sum>x\<leftarrow>tbl_remove account_key (owner, sy) (accounts s). in_currency y x)
      = (\<Sum>x\<leftarrow>accounts s. in_currency y x) + (if y = sy then - amount (balance (snd r)) else 0)" for y
    using sum_list_remove [OF u f, of "in_currency y"] r by (auto simp: in_currency_def split: if_splits)
  have "tables_ok (s\<lparr>accounts := tbl_remove account_key (owner, sy) (accounts s)\<rparr>)"
    using ok tbl_unique_remove [OF u] by (simp add: tables_ok_def tbl_remove_def)
  then show ?thesis
    using sum f by (simp add: moves_def bal_def balance_sum_def tbl_find_remove)
qed

lemma moves_insert:
  assumes ok: "tables_ok s" and f: "tbl_find account_key (owner, sy) (accounts s) = None"
    and v: "name (symbol v) = sy" "0 < amount v" "amount v \<le> max_amount" and c: "currency sy s = Some st" "symbol (st_supply st) = symbol v"
  shows "moves owner sy (amount v) s (s\<lparr>accounts := accounts s @ [(owner, \<lparr>balance = v\<rparr>)]\<rparr>)"
proof -
  have k: "account_key (owner, \<lparr>balance = v\<rparr>) = (owner, sy)" using v by (simp add: account_key_def)
  have "tbl_unique account_key (accounts s @ [(owner, \<lparr>balance = v\<rparr>)])"
    using ok f k by (intro tbl_unique_create) (simp_all add: tables_ok_def)
  moreover have "\<exists>t\<in>set (stats s). symbol (st_supply (snd t)) = symbol v"
    using currency_row [OF ok c(1)] c(2) by (intro bexI [of _ "(sy, st)"]) auto
  ultimately have "tables_ok (s\<lparr>accounts := accounts s @ [(owner, \<lparr>balance = v\<rparr>)]\<rparr>)"
    using ok v by (auto simp: tables_ok_def)
  then show ?thesis
    using f v k by (auto simp: moves_def bal_def balance_sum_def tbl_find_append in_currency_def split: option.split)
qed

text \<open>A quantity in an existing currency, as the actions have checked it.\<close>

definition quantity_ok :: "asset \<Rightarrow> token_state \<Rightarrow> bool" where
  "quantity_ok q s \<longleftrightarrow> is_valid q \<and> 0 < amount q \<and> (\<exists>st. currency (name (symbol q)) s = Some st \<and> symbol (st_supply st) = symbol q)"

lemma quantity_range: "quantity_ok q s \<Longrightarrow> is_amount_within_range q \<and> 0 < amount q \<and> amount q \<le> max_amount"
  by (simp add: quantity_ok_def is_valid_def is_amount_within_range_def)

lemma sub_balance_moves:
  assumes ok: "tables_ok s" and q: "quantity_ok q s" and enough: "amount q \<le> bal owner (name (symbol q)) s"
  shows "\<exists>s'. sub_balance owner q s = Inr s' \<and> moves owner (name (symbol q)) (- amount q) s s'"
proof -
  let ?k = "(owner, name (symbol q))"
  obtain r where f: "tbl_find account_key ?k (accounts s) = Some r" and b: "amount q \<le> amount (balance (snd r))"
    using enough quantity_range [OF q] by (auto simp: bal_def split: option.splits)
  note r = account_row [OF ok f]
  have sy: "symbol (balance (snd r)) = symbol q" using q account_symbol [OF ok f] by (auto simp: quantity_ok_def)
  show ?thesis
  proof (cases "amount (balance (snd r)) = amount q")
    case True
    then show ?thesis using moves_remove [OF ok f] f by (simp add: sub_balance_def idx_get_def)
  next
    case False
    have "sub_assign (balance (snd r)) q = Inr ((balance (snd r))\<lparr>amount := amount (balance (snd r)) - amount q\<rparr>)"
      using b r quantity_range [OF q] sy by (intro sub_assign_exact) auto
    then show ?thesis
      using moves_replace [OF ok f, of "- amount q"] b False r f quantity_range [OF q] sy
      by (simp add: sub_balance_def idx_get_def idx_modify_def account_key_def)
  qed
qed

lemma sub_balance_fails:
  assumes "tables_ok s" and "0 < amount q" and "bal owner (name (symbol q)) s < amount q"
  shows "sub_balance owner q s =
    Inl (eosio_assert_message (if bal owner (name (symbol q)) s = 0 then ''no balance object found'' else ''overdrawn balance''))"
proof (cases "tbl_find account_key (owner, name (symbol q)) (accounts s)")
  case None
  then show ?thesis by (simp add: sub_balance_def idx_get_def bal_def)
next
  case (Some r)
  then show ?thesis using account_row [OF assms(1) Some] assms(3)
    by (simp add: sub_balance_def idx_get_def bal_def contract_assert_def eos_assert_def)
qed

lemma add_balance_moves:
  assumes ok: "tables_ok s" and q: "quantity_ok q s" and room: "bal owner (name (symbol q)) s + amount q \<le> max_amount"
  shows "\<exists>s'. add_balance owner q s = Inr s' \<and> moves owner (name (symbol q)) (amount q) s s'"
proof (cases "tbl_find account_key (owner, name (symbol q)) (accounts s)")
  case None
  have "account_key (owner, \<lparr>balance = q\<rparr>) = (owner, name (symbol q))" by (simp add: account_key_def)
  then show ?thesis
    using moves_insert [OF ok None refl] None q quantity_range [OF q]
    by (auto simp: add_balance_def idx_emplace_def tbl_create_def quantity_ok_def)
next
  case (Some r)
  note r = account_row [OF ok Some]
  have sy: "symbol (balance (snd r)) = symbol q" using q account_symbol [OF ok Some] by (auto simp: quantity_ok_def)
  have b: "amount (balance (snd r)) + amount q \<le> max_amount" using room Some by (simp add: bal_def)
  have "add_assign (balance (snd r)) q = Inr ((balance (snd r))\<lparr>amount := amount (balance (snd r)) + amount q\<rparr>)"
    using b r quantity_range [OF q] sy by (intro add_assign_exact) auto
  then show ?thesis
    using moves_replace [OF ok Some, of "amount q"] b r Some quantity_range [OF q] sy
    by (simp add: add_balance_def idx_modify_def account_key_def)
qed

lemma moves_supply:
  assumes "moves owner sy d s s'"
  shows "currency y s' = currency y s \<and> supply_of y s' = supply_of y s"
  using assms by (simp add: moves_def currency_def supply_of_def)

lemma supply_le: "tables_ok s \<Longrightarrow> supply_of sy s \<le> max_amount"
proof (cases "currency sy s")
  case None
  then show ?thesis by (simp add: supply_of_def max_amount_def)
next
  case (Some st)
  assume "tables_ok s"
  then have "stats_row_ok (sy, st)" using currency_row [OF _ Some] by blast
  then have "amount (st_supply st) \<le> max_amount" by (auto simp: stats_row_ok_def Let_def)
  then show ?thesis by (simp add: supply_of_def Some)
qed

subsection \<open>Transfers\<close>

text \<open>The conditions a transfer checks before it touches a balance.\<close>

definition transfer_allowed :: "action_context \<Rightarrow> transfer_args \<Rightarrow> token_state \<Rightarrow> bool" where
  "transfer_allowed ctx args s \<longleftrightarrow> tr_from args \<noteq> tr_to args \<and> tr_from args \<in> set (auths ctx) \<and> is_account ctx (tr_to args)
     \<and> quantity_ok (tr_quantity args) s \<and> length (tr_memo args) \<le> 256"

lemma require_recipient_same [simp]:
  "accounts (require_recipient a s) = accounts s" "stats (require_recipient a s) = stats s"
  "inline_actions (require_recipient a s) = inline_actions s"
  by (simp_all add: require_recipient_def)

lemma require_recipient_ok [simp]:
  "tables_ok (require_recipient a s) = tables_ok s" "bal o' y (require_recipient a s) = bal o' y s"
  "balance_sum y (require_recipient a s) = balance_sum y s" "currency y (require_recipient a s) = currency y s"
  "supply_of y (require_recipient a s) = supply_of y s" "quantity_ok q (require_recipient a s) = quantity_ok q s"
  by (simp_all add: tables_ok_def bal_def balance_sum_def currency_def supply_of_def quantity_ok_def)

lemma currency_find: "currency sy s = Some st \<longleftrightarrow> (\<exists>r. tbl_find stats_key (sy, sy) (stats s) = Some r \<and> snd r = st)"
  by (auto simp: currency_def)

lemma transfer_run:
  assumes "transfer_allowed ctx args s"
  shows "transfer ctx args s =
     bind_r (sub_balance (tr_from args) (tr_quantity args) (require_recipient (tr_to args) (require_recipient (tr_from args) s)))
       (add_balance (tr_to args) (tr_quantity args))"
proof -
  obtain r where "tbl_find stats_key (name (symbol (tr_quantity args)), name (symbol (tr_quantity args))) (stats s) = Some r"
    "symbol (st_supply (snd r)) = symbol (tr_quantity args)" "is_valid (tr_quantity args)" "0 < amount (tr_quantity args)"
    using assms by (auto simp: transfer_allowed_def quantity_ok_def currency_find)
  then show ?thesis using assms
    by (simp add: transfer_def transfer_allowed_def require_auth_def idx_get_def Let_def)
qed

lemma transfer_only_allowed: "transfer ctx args s = Inr s' \<Longrightarrow> transfer_allowed ctx args s"
  by (auto simp: transfer_def transfer_allowed_def quantity_ok_def currency_find require_auth_def idx_get_def
      result_simps Let_def)

lemma transfer_fails_closed: "\<not> transfer_allowed ctx args s \<Longrightarrow> \<exists>e. transfer ctx args s = Inl e"
  using transfer_only_allowed by (metis sum.exhaust)

lemma transfer_moves:
  assumes ok: "token_ok s" and allowed: "transfer_allowed ctx args s"
    and enough: "amount (tr_quantity args) \<le> bal (tr_from args) (name (symbol (tr_quantity args))) s"
  shows "\<exists>m s'. transfer ctx args s = Inr s' \<and> token_ok s'
    \<and> moves (tr_from args) (name (symbol (tr_quantity args))) (- amount (tr_quantity args))
        (require_recipient (tr_to args) (require_recipient (tr_from args) s)) m
    \<and> moves (tr_to args) (name (symbol (tr_quantity args))) (amount (tr_quantity args)) m s'"
proof -
  let ?q = "tr_quantity args" and ?s = "require_recipient (tr_to args) (require_recipient (tr_from args) s)"
  let ?sy = "name (symbol ?q)"
  have t: "tables_ok ?s" and q: "quantity_ok ?q ?s" using ok allowed by (auto simp: token_ok_def transfer_allowed_def)
  obtain m where m: "sub_balance (tr_from args) ?q ?s = Inr m" "moves (tr_from args) ?sy (- amount ?q) ?s m"
    using sub_balance_moves [OF t q] enough by auto
  have tm: "tables_ok m" and qm: "quantity_ok ?q m"
    using m(2) q moves_supply [OF m(2)] by (auto simp: moves_def quantity_ok_def)
  have "bal (tr_to args) ?sy m + amount ?q \<le> balance_sum ?sy m + amount ?q" using bal_le_sum [OF tm] by simp
  also have "\<dots> = balance_sum ?sy s" using m(2) by (simp add: moves_def)
  also have "\<dots> \<le> max_amount" using ok supply_le [of s ?sy] by (simp add: token_ok_def)
  finally obtain s' where s': "add_balance (tr_to args) ?q m = Inr s'" "moves (tr_to args) ?sy (amount ?q) m s'"
    using add_balance_moves [OF tm qm] by blast
  have "balance_sum y s' = supply_of y s'" for y
    using m(2) s'(2) moves_supply [OF m(2), of y] moves_supply [OF s'(2), of y] ok by (simp add: moves_def token_ok_def)
  then have "token_ok s'" using s'(2) by (simp add: token_ok_def moves_def)
  moreover have "transfer ctx args s = Inr s'" using m(1) s'(1) by (simp add: transfer_run [OF allowed])
  ultimately show ?thesis using m(2) s'(2) by blast
qed

subsection \<open>Creating and issuing\<close>

lemma create_ok:
  assumes ok: "token_ok s" and run: "create ctx iss m s = Inr s'"
  shows "token_ok s' \<and> accounts s' = accounts s \<and> inline_actions s' = inline_actions s"
proof -
  let ?sy = "symbol m"
  define row where "row = (name ?sy, \<lparr>st_supply = \<lparr>amount = 0, symbol = ?sy\<rparr>, max_supply = m, issuer = iss\<rparr>)"
  have new: "tbl_find stats_key (name ?sy, name ?sy) (stats s) = None" and v: "is_valid m" "0 < amount m"
    and s': "s' = s\<lparr>stats := stats s @ [row]\<rparr>"
    using run by (auto simp: create_def row_def Let_def result_simps idx_emplace_def tbl_create_eq_Inr)
  have k: "stats_key row = (name ?sy, name ?sy)" by (simp add: row_def stats_key_def)
  have r: "stats_row_ok row" using v by (simp add: row_def stats_row_ok_def is_valid_def is_amount_within_range_def)
  have t: "tables_ok s" and sums: "\<And>y. balance_sum y s = supply_of y s" using ok by (auto simp: token_ok_def)
  have "tbl_unique stats_key (stats s @ [row])"
    using t new k by (intro tbl_unique_create) (simp_all add: tables_ok_def)
  then have "tables_ok s'" using t r unfolding s' by (auto simp: tables_ok_def)
  moreover have "supply_of y s' = supply_of y s" for y
    using new k by (auto simp: s' supply_of_def currency_def tbl_find_append row_def split: option.split)
  moreover have "balance_sum y s' = balance_sum y s" for y by (simp add: s' balance_sum_def)
  ultimately show ?thesis using sums by (simp add: token_ok_def s')
qed

text \<open>The supply of a currency grows by the issued quantity.\<close>

lemma supply_grows:
  assumes ok: "tables_ok s" and c: "currency sy s = Some st"
    and q: "symbol (st_supply st) = symbol q" "0 < amount q" "amount (st_supply st) + amount q \<le> amount (max_supply st)"
  defines "st' \<equiv> st\<lparr>st_supply := (st_supply st)\<lparr>amount := amount (st_supply st) + amount q\<rparr>\<rparr>"
  defines "s1 \<equiv> s\<lparr>stats := tbl_modify stats_key (sy, sy) (\<lambda>_. (sy, st')) (stats s)\<rparr>"
  shows "tables_ok s1 \<and> currency sy s1 = Some st' \<and> (\<forall>y. supply_of y s1 = supply_of y s + (if y = sy then amount q else 0))"
proof -
  note row = currency_row [OF ok c]
  have k: "stats_key (sy, st') = (sy, sy)" using row by (simp add: stats_key_def st'_def)
  have "stats_row_ok (sy, st)" using row by blast
  then have ok': "stats_row_ok (sy, st')" using q(2,3) by (auto simp: stats_row_ok_def st'_def Let_def)
  have sub: "x = (sy, st') \<or> x \<in> set (stats s)" if "x \<in> set (stats s1)" for x
    using that by (auto simp: s1_def dest!: set_modify split: if_splits)
  have f: "tbl_find stats_key (y, y) (stats s1) = (if y = sy then Some (sy, st') else tbl_find stats_key (y, y) (stats s))" for y
    using row by (auto simp: s1_def tbl_find_replace [where key = stats_key, OF k])
  have "\<exists>t\<in>set (stats s1). symbol (st_supply (snd t)) = symbol (balance (snd r))" if "r \<in> set (accounts s)" for r
  proof -
    let ?y = "name (symbol (balance (snd r)))"
    from balance_currency [OF ok that] obtain sr where
      sr: "currency ?y s = Some sr" "symbol (st_supply sr) = symbol (balance (snd r))" by blast
    have "\<exists>t. tbl_find stats_key (?y, ?y) (stats s1) = Some t \<and> symbol (st_supply (snd t)) = symbol (balance (snd r))"
    proof (cases "?y = sy")
      case True
      then have "sr = st" using sr(1) c by simp
      then show ?thesis using f [of ?y] True sr(2) by (simp add: st'_def)
    next
      case False
      then show ?thesis using f [of ?y] sr by (auto simp: currency_find)
    qed
    then obtain t where t: "tbl_find stats_key (?y, ?y) (stats s1) = Some t"
      "symbol (st_supply (snd t)) = symbol (balance (snd r))" by blast
    show ?thesis using tbl_find_Some [OF t(1)] t(2) by blast
  qed
  then have "tables_ok s1"
  proof -
    assume acc: "\<And>r. r \<in> set (accounts s) \<Longrightarrow> \<exists>t\<in>set (stats s1). symbol (st_supply (snd t)) = symbol (balance (snd r))"
    have "tbl_unique stats_key (stats s1)"
      using ok tbl_unique_replace [where key = stats_key, OF k] by (simp add: s1_def tables_ok_def)
    moreover have "accounts s1 = accounts s" by (simp add: s1_def)
    moreover have "stats_row_ok x" if "x \<in> set (stats s1)" for x
      using sub [OF that] ok ok' by (auto simp: tables_ok_def)
    ultimately show ?thesis using ok acc by (simp add: tables_ok_def)
  qed
  moreover have "currency y s1 = (if y = sy then Some st' else currency y s)" for y by (simp add: currency_def f)
  moreover have "amount (st_supply st') = amount (st_supply st) + amount q" by (simp add: st'_def)
  ultimately show ?thesis using c by (simp add: supply_of_def)
qed

lemma same_tables:
  assumes "accounts s = accounts t" and "stats s = stats t"
  shows "tables_ok s = tables_ok t" "bal o' y s = bal o' y t" "balance_sum y s = balance_sum y t"
    "currency y s = currency y t" "supply_of y s = supply_of y t"
  using assms by (simp_all add: tables_ok_def bal_def balance_sum_def currency_def supply_of_def)

text \<open>What \<open>issue\<close> requires.\<close>

definition issue_allowed :: "action_context \<Rightarrow> asset \<Rightarrow> string \<Rightarrow> token_state \<Rightarrow> currency_stats \<Rightarrow> bool" where
  "issue_allowed ctx q memo s st \<longleftrightarrow> length memo \<le> 256 \<and> currency (name (symbol q)) s = Some st \<and> issuer st \<in> set (auths ctx)
     \<and> is_valid q \<and> 0 < amount q \<and> symbol q = symbol (st_supply st) \<and> amount (st_supply st) + amount q \<le> amount (max_supply st)"

lemma issue_runs:
  assumes ok: "token_ok s" and al: "issue_allowed ctx q memo s st"
  shows "\<exists>s'. issue ctx to q memo s = Inr s' \<and> token_ok s' \<and> recipients s' = recipients s
    \<and> (\<forall>y. supply_of y s' = supply_of y s + (if y = name (symbol q) then amount q else 0))
    \<and> (\<forall>o' y. bal o' y s' = bal o' y s + (if o' = issuer st \<and> y = name (symbol q) then amount q else 0))
    \<and> (\<forall>y. map_option issuer (currency y s') = map_option issuer (currency y s))
    \<and> inline_actions s' = inline_actions s @ (if to = issuer st then []
        else [\<lparr>tr_from = issuer st, tr_to = to, tr_quantity = q, tr_memo = memo\<rparr>])"
proof -
  let ?sy = "name (symbol q)"
  define st' where "st' = st\<lparr>st_supply := (st_supply st)\<lparr>amount := amount (st_supply st) + amount q\<rparr>\<rparr>"
  define s1 where "s1 = s\<lparr>stats := tbl_modify stats_key (?sy, ?sy) (\<lambda>_. (?sy, st')) (stats s)\<rparr>"
  have t: "tables_ok s" using ok by (simp add: token_ok_def)
  have c: "currency ?sy s = Some st" and a: "is_valid q" "0 < amount q" "symbol (st_supply st) = symbol q"
    "amount (st_supply st) + amount q \<le> amount (max_supply st)" using al by (auto simp: issue_allowed_def)
  note row = currency_row [OF t c]
  then have range: "0 \<le> amount (st_supply st)" "amount (max_supply st) \<le> max_amount"
    by (auto simp: stats_row_ok_def Let_def)
  note g = supply_grows [OF t c a(3,2,4), folded st'_def, folded s1_def]
  have q1: "quantity_ok q s1" using g a by (auto simp: quantity_ok_def st'_def)
  have sums1: "balance_sum y s1 = balance_sum y s" and bal1: "bal o' y s1 = bal o' y s" for o' y
    by (simp_all add: s1_def balance_sum_def bal_def)
  have "bal (issuer st) ?sy s1 + amount q \<le> balance_sum ?sy s + amount q" using bal_le_sum [OF t] by (simp add: bal1)
  also have "\<dots> = supply_of ?sy s1" using ok g by (simp add: token_ok_def)
  also have "\<dots> \<le> max_amount" using g supply_le by blast
  finally obtain s2 where s2: "add_balance (issuer st) q s1 = Inr s2" "moves (issuer st) ?sy (amount q) s1 s2"
    using add_balance_moves [OF _ q1] g by blast
  have add: "add_assign (st_supply st) q = Inr ((st_supply st)\<lparr>amount := amount (st_supply st) + amount q\<rparr>)"
    using range a by (intro add_assign_exact) (auto simp: is_valid_def is_amount_within_range_def)
  have i64: "int64_value (amount (max_supply st) - amount (st_supply st)) = Inr (amount (max_supply st) - amount (st_supply st))"
    using range a by (simp add: int64_value_def in_range_int64)
  have key: "stats_key (?sy, st') = (?sy, ?sy)" using row by (simp add: stats_key_def st'_def)
  define s3 where "s3 = (if to \<noteq> issuer st then s2\<lparr>inline_actions := inline_actions s2 @
    [\<lparr>tr_from = issuer st, tr_to = to, tr_quantity = q, tr_memo = memo\<rparr>]\<rparr> else s2)"
  have run: "issue ctx to q memo s = Inr s3"
    using al row a i64 s2(1) key
    by (simp add: issue_def issue_allowed_def is_valid_def idx_get_def require_auth_def idx_modify_def Let_def add
        st'_def [symmetric] s1_def [symmetric] s3_def)
  have same: "accounts s3 = accounts s2" "stats s3 = stats s2" by (simp_all add: s3_def)
  note eqs = same_tables [OF same]
  have m2: "tables_ok s2" "\<And>y. balance_sum y s2 = balance_sum y s1 + (if y = ?sy then amount q else 0)"
    "\<And>o' y. bal o' y s2 = bal o' y s1 + (if o' = issuer st \<and> y = ?sy then amount q else 0)"
    "recipients s2 = recipients s1" "inline_actions s2 = inline_actions s1"
    using s2(2) by (auto simp: moves_def)
  note sup = moves_supply [OF s2(2)]
  have "token_ok s3"
    using m2(1,2) g ok by (simp add: token_ok_def eqs sup sums1)
  moreover have "map_option issuer (currency y s3) = map_option issuer (currency y s)" for y
  proof (cases "y = ?sy")
    case True
    then show ?thesis using g c by (simp add: eqs sup st'_def)
  next
    case False
    then have "(y, y) \<noteq> (?sy, ?sy)" by simp
    then have "currency y s1 = currency y s"
      by (simp add: currency_def s1_def tbl_find_replace [where key = stats_key, OF key])
    then show ?thesis by (simp add: eqs sup)
  qed
  moreover have "recipients s3 = recipients s" "inline_actions s3 = inline_actions s @ (if to = issuer st then []
        else [\<lparr>tr_from = issuer st, tr_to = to, tr_quantity = q, tr_memo = memo\<rparr>])"
    by (simp_all add: s3_def m2(4,5)) (simp_all add: s1_def)
  ultimately show ?thesis using run m2(3) g bal1 by (simp add: eqs sup)
qed

lemma issue_only_allowed:
  assumes "token_ok s" and "issue ctx to q memo s = Inr s'"
  shows "\<exists>st. issue_allowed ctx q memo s st"
proof -
  obtain row v where row: "tbl_find stats_key (name (symbol q), name (symbol q)) (stats s) = Some row"
    and v: "int64_value (amount (max_supply (snd row)) - amount (st_supply (snd row))) = Inr v" "amount q \<le> v"
    and rest: "length memo \<le> 256" "issuer (snd row) \<in> set (auths ctx)" "is_valid q" "0 < amount q"
      "symbol q = symbol (st_supply (snd row))"
    using assms(2) by (auto simp: issue_def idx_get_def require_auth_def result_simps Let_def)
  have "v = amount (max_supply (snd row)) - amount (st_supply (snd row))"
    using v(1) by (auto simp: int64_value_def split: if_splits)
  then have "issue_allowed ctx q memo s (snd row)"
    using row v(2) rest by (simp add: issue_allowed_def currency_def)
  then show ?thesis by blast
qed

lemma transfer_only_enough:
  assumes ok: "token_ok s" and run: "transfer ctx args s = Inr s'"
  shows "amount (tr_quantity args) \<le> bal (tr_from args) (name (symbol (tr_quantity args))) s"
proof (rule ccontr)
  let ?s = "require_recipient (tr_to args) (require_recipient (tr_from args) s)"
  note al = transfer_only_allowed [OF run]
  assume "\<not> ?thesis"
  then have "\<exists>e. sub_balance (tr_from args) (tr_quantity args) ?s = Inl e"
    using sub_balance_fails [of ?s "tr_quantity args" "tr_from args"] ok al
    by (simp add: token_ok_def transfer_allowed_def quantity_ok_def)
  then show False using run transfer_run [OF al] by auto
qed

lemma transfer_ok: "token_ok s \<Longrightarrow> transfer ctx args s = Inr s' \<Longrightarrow> token_ok s'"
  using transfer_moves [OF _ transfer_only_allowed transfer_only_enough] by fastforce

lemma dispatch_ok:
  assumes "token_ok s" and "dispatch ctx a s = Inr s'"
  shows "token_ok s'"
proof (cases a)
  case (Create iss m)
  then show ?thesis using create_ok assms by auto
next
  case (Issue to q memo)
  then have "issue ctx to q memo s = Inr s'" using assms(2) by simp
  from issue_only_allowed [OF assms(1) this] obtain st where "issue_allowed ctx q memo s st" by blast
  from issue_runs [OF assms(1) this, of to] Issue assms(2) show ?thesis by auto
next
  case (Transfer args)
  then show ?thesis using transfer_ok assms by auto
qed

lemma apply_action_ok:
  assumes "token_ok s" and "apply_action ctx a s = Inr s'"
  shows "token_ok s'"
proof -
  have "token_ok (s\<lparr>recipients := [], inline_actions := []\<rparr>)"
    using assms(1) same_tables [of "s\<lparr>recipients := [], inline_actions := []\<rparr>" s] by (simp add: token_ok_def)
  moreover obtain s1 where s1: "dispatch ctx a (s\<lparr>recipients := [], inline_actions := []\<rparr>) = Inr s1"
    and loop: "fold_r (\<lambda>args. transfer (ctx\<lparr>auths := [tr_from args]\<rparr>) args) (inline_actions s1) s1 = Inr s'"
    using assms(2) by (auto simp: apply_action_def result_simps)
  ultimately have "token_ok s1" using dispatch_ok by blast
  from fold_r_invariant [where P = token_ok, OF loop this] show ?thesis using transfer_ok by blast
qed

text \<open>States reached by any sequence of actions; the context may change from action to action.\<close>

inductive token_reachable :: "token_state \<Rightarrow> bool" where
  token_init: "token_reachable empty_token"
| token_step: "token_reachable s \<Longrightarrow> apply_action ctx a s = Inr s' \<Longrightarrow> token_reachable s'"

lemma reachable_ok: "token_reachable s \<Longrightarrow> token_ok s"
proof (induction rule: token_reachable.induct)
  case token_init
  show ?case by (simp add: token_ok_def tables_ok_def tbl_unique_def empty_token_def balance_sum_def supply_of_def currency_def)
next
  case (token_step s ctx a s')
  then show ?case using apply_action_ok by blast
qed

section \<open>Properties\<close>

text \<open>C24. Whatever actions the contract runs, in every reachable state the balances of a currency
  add up to its supply, the supply is between zero and the maximum supply, which is in the range
  of assets, and every stored balance is positive.\<close>

theorem supply_is_sum_of_balances:
  assumes "token_reachable s"
  shows "(\<forall>sy. balance_sum sy s = supply_of sy s)
    \<and> (\<forall>sy st. currency sy s = Some st \<longrightarrow> 0 \<le> amount (st_supply st) \<and> amount (st_supply st) \<le> amount (max_supply st)
         \<and> amount (max_supply st) \<le> max_amount \<and> symbol (max_supply st) = symbol (st_supply st))
    \<and> (\<forall>r\<in>set (accounts s). 0 < amount (balance (snd r)))"
proof -
  have ok: "token_ok s" using assms by (rule reachable_ok)
  then have t: "tables_ok s" by (simp add: token_ok_def)
  have "0 \<le> amount (st_supply st) \<and> amount (st_supply st) \<le> amount (max_supply st)
      \<and> amount (max_supply st) \<le> max_amount \<and> symbol (max_supply st) = symbol (st_supply st)"
    if "currency sy s = Some st" for sy st
  proof -
    have "stats_row_ok (sy, st)" using currency_row [OF t that] by blast
    then show ?thesis by (auto simp: stats_row_ok_def Let_def)
  qed
  moreover have "\<forall>r\<in>set (accounts s). 0 < amount (balance (snd r))" using t by (simp add: tables_ok_def)
  ultimately show ?thesis using ok by (simp add: token_ok_def)
qed

definition eos_asset :: "int \<Rightarrow> asset" where
  "eos_asset a = \<lparr>amount = a, symbol = 0x534F4504\<rparr>"

definition demo_context :: action_context where
  "demo_context = \<lparr>self = 1, auths = [1, 2], is_account = (\<lambda>_. True)\<rparr>"

text \<open>Account 1 holds the contract, account 2 issues 70 of at most 100 to account 3.\<close>

definition issued_tokens :: token_state where
  "issued_tokens = \<lparr>accounts = [(3, \<lparr>balance = eos_asset 70\<rparr>)],
     stats = [(0x534F45, \<lparr>st_supply = eos_asset 70, max_supply = eos_asset 100, issuer = 2\<rparr>)],
     recipients = [2, 3], inline_actions = [\<lparr>tr_from = 2, tr_to = 3, tr_quantity = eos_asset 70, tr_memo = []\<rparr>]\<rparr>"

lemma issued_tokens_reachable: "token_reachable issued_tokens"
proof -
  let ?a = "case apply_action demo_context (Create 2 (eos_asset 100)) empty_token of Inr s \<Rightarrow> s | Inl _ \<Rightarrow> empty_token"
  have "apply_action demo_context (Create 2 (eos_asset 100)) empty_token = Inr ?a" by code_simp
  then have "token_reachable ?a" using token_step token_init by blast
  moreover have "apply_action demo_context (Issue 3 (eos_asset 70) []) ?a = Inr issued_tokens" by code_simp
  ultimately show ?thesis using token_step by blast
qed

theorem supply_is_sum_of_balances_witness:
  "token_reachable issued_tokens \<and> balance_sum 0x534F45 issued_tokens = 70 \<and> supply_of 0x534F45 issued_tokens = 70"
proof -
  have "balance_sum 0x534F45 issued_tokens = supply_of 0x534F45 issued_tokens"
    using supply_is_sum_of_balances [OF issued_tokens_reachable] by blast
  moreover have "supply_of 0x534F45 issued_tokens = 70" by code_simp
  ultimately show ?thesis using issued_tokens_reachable by simp
qed

text \<open>C31. A transfer succeeds exactly when its conditions hold and the sender has enough; it then
  takes the quantity from the sender, gives it to the receiver, touches no other balance and no
  supply, and notifies both.  In particular the receiver's balance can never overflow.\<close>

theorem transfer_exact:
  assumes "token_reachable s"
  shows "((\<exists>s'. transfer ctx args s = Inr s') \<longleftrightarrow> transfer_allowed ctx args s
        \<and> amount (tr_quantity args) \<le> bal (tr_from args) (name (symbol (tr_quantity args))) s)
    \<and> (\<forall>s'. transfer ctx args s = Inr s' \<longrightarrow> stats s' = stats s
        \<and> set (recipients s') = set (recipients s) \<union> {tr_from args, tr_to args}
        \<and> (\<forall>a sy. bal a sy s' = bal a sy s +
            (if sy \<noteq> name (symbol (tr_quantity args)) then 0
             else if a = tr_from args then - amount (tr_quantity args)
             else if a = tr_to args then amount (tr_quantity args) else 0)))"
proof -
  have ok: "token_ok s" using assms by (rule reachable_ok)
  let ?ok = "transfer_allowed ctx args s \<and> amount (tr_quantity args) \<le> bal (tr_from args) (name (symbol (tr_quantity args))) s"
  have iff: "(\<exists>s'. transfer ctx args s = Inr s') \<longleftrightarrow> ?ok"
    using transfer_only_allowed transfer_only_enough [OF ok] transfer_moves [OF ok] by blast
  have "stats s' = stats s \<and> set (recipients s') = set (recipients s) \<union> {tr_from args, tr_to args}
      \<and> (\<forall>a sy. bal a sy s' = bal a sy s + (if sy \<noteq> name (symbol (tr_quantity args)) then 0
             else if a = tr_from args then - amount (tr_quantity args)
             else if a = tr_to args then amount (tr_quantity args) else 0))"
    if run: "transfer ctx args s = Inr s'" for s'
  proof -
    have al: "transfer_allowed ctx args s" using iff run by blast
    obtain m where m: "moves (tr_from args) (name (symbol (tr_quantity args))) (- amount (tr_quantity args))
        (require_recipient (tr_to args) (require_recipient (tr_from args) s)) m"
      "moves (tr_to args) (name (symbol (tr_quantity args))) (amount (tr_quantity args)) m s'"
      using transfer_moves [OF ok al] iff run by auto
    have "tr_from args \<noteq> tr_to args" using al by (simp add: transfer_allowed_def)
    moreover have "set (recipients (require_recipient a t)) = insert a (set (recipients t))" for a t
      by (auto simp: require_recipient_def)
    ultimately show ?thesis using m by (simp add: moves_def insert_commute)
  qed
  then show ?thesis using iff by blast
qed

theorem transfer_exact_witness:
  "token_reachable issued_tokens \<and>
   (\<exists>s'. transfer (demo_context\<lparr>auths := [3]\<rparr>) \<lparr>tr_from = 3, tr_to = 4, tr_quantity = eos_asset 20, tr_memo = []\<rparr> issued_tokens = Inr s'
     \<and> bal 3 0x534F45 s' = 50 \<and> bal 4 0x534F45 s' = 20)"
proof -
  let ?args = "\<lparr>tr_from = 3, tr_to = 4, tr_quantity = eos_asset 20, tr_memo = []\<rparr>"
  let ?ctx = "demo_context\<lparr>auths := [3]\<rparr>"
  note t = transfer_exact [OF issued_tokens_reachable, of ?ctx ?args]
  have n: "name (symbol (eos_asset 20)) = 0x534F45" by code_simp
  have q: "currency 0x534F45 issued_tokens = Some \<lparr>st_supply = eos_asset 70, max_supply = eos_asset 100, issuer = 2\<rparr>" by code_simp
  have v: "is_valid (eos_asset 20)" by code_simp
  have "transfer_allowed ?ctx ?args issued_tokens"
    using q v n by (simp add: transfer_allowed_def quantity_ok_def demo_context_def eos_asset_def)
  moreover have b: "bal 3 0x534F45 issued_tokens = 70" "bal 4 0x534F45 issued_tokens = 0" by code_simp+
  moreover have a: "amount (eos_asset 20) = 20" by (simp add: eos_asset_def)
  ultimately obtain s' where s': "transfer ?ctx ?args issued_tokens = Inr s'" using t n by auto
  then have "bal 3 0x534F45 s' = 50" "bal 4 0x534F45 s' = 20" using t b n a by auto
  then show ?thesis using s' issued_tokens_reachable by blast
qed

end
