(* ===== verification/Authority.thy ===== *)
theory Authority
  imports Names "HOL-Library.Multiset"
begin

text \<open>
  Authorities and the check whether keys, permissions and a delay satisfy them
  (\<^verbatim>\<open>libraries/chain/include/eosio/chain/authority.hpp\<close>,
  \<open>authority_checker.hpp\<close>, \<open>action.hpp\<close>).  Public keys are an arbitrary ordered type.
  The checker recurses through the permissions of other accounts up to a depth limit and caches
  what it found; the specification is the inductive relation \<open>entitled\<close>.
\<close>

section \<open>Permission levels\<close>

datatype permission_level = permission_level (actor: "64 word") (permission: "64 word")

text \<open>The order of \<open>std::tie(actor, permission)\<close>.\<close>

instantiation permission_level :: linorder
begin

definition less_eq_permission_level :: "permission_level \<Rightarrow> permission_level \<Rightarrow> bool" where
  "less_eq_permission_level a b \<longleftrightarrow> actor a < actor b \<or> actor a = actor b \<and> permission a \<le> permission b"

definition less_permission_level :: "permission_level \<Rightarrow> permission_level \<Rightarrow> bool" where
  "less_permission_level a b \<longleftrightarrow> actor a < actor b \<or> actor a = actor b \<and> permission a < permission b"

instance
  by standard (auto simp: less_eq_permission_level_def less_permission_level_def permission_level.expand)

end

section \<open>Authorities\<close>

record permission_level_weight =
  plw_permission :: permission_level
  plw_weight :: nat

record 'k key_weight =
  kw_key :: 'k
  kw_weight :: nat

record wait_weight =
  wait_sec :: nat
  ww_weight :: nat

record 'k authority =
  threshold :: nat
  keys :: "'k key_weight list"
  accounts :: "permission_level_weight list"
  waits :: "wait_weight list"

text \<open>The constructor for one key, with an optional delay.\<close>

definition authority_of_key :: "'k \<Rightarrow> nat \<Rightarrow> 'k authority" where
  "authority_of_key k delay_sec =
     (if delay_sec > 0
      then \<lparr>threshold = 2, keys = [\<lparr>kw_key = k, kw_weight = 1\<rparr>], accounts = [], waits = [\<lparr>wait_sec = delay_sec, ww_weight = 1\<rparr>]\<rparr>
      else \<lparr>threshold = 1, keys = [\<lparr>kw_key = k, kw_weight = 1\<rparr>], accounts = [], waits = []\<rparr>)"

text \<open>
  Billed sizes are rounded up to multiples of 16.  \<open>pack_size\<close> of a key is the parameter
  \<open>key_size\<close>; sizes are 64-bit numbers.
\<close>

definition billable_size_v :: "nat \<Rightarrow> nat" where
  "billable_size_v v = (v + 16 - 1) div 16 * 16"

definition get_billable_size :: "('k \<Rightarrow> nat) \<Rightarrow> 'k authority \<Rightarrow> nat" where
  "get_billable_size key_size a =
     u64 (length (accounts a) * billable_size_v 24 + length (waits a) * billable_size_v 16
       + (\<Sum>k\<leftarrow>keys a. billable_size_v 8 + key_size (kw_key k)))"

text \<open>
  The three loops of \<open>validate\<close> share one shape: \<open>prev\<close> is the element before, \<open>ok\<close> the order
  it must have with the next one; the total weight is a 32-bit number.
\<close>

fun weigh :: "('a \<Rightarrow> 'a \<Rightarrow> bool) \<Rightarrow> ('a \<Rightarrow> nat) \<Rightarrow> 'a option \<Rightarrow> 'a list \<Rightarrow> nat \<Rightarrow> nat option" where
  "weigh ok w prev [] total_weight = Some total_weight"
| "weigh ok w prev (x # xs) total_weight =
     (if (case prev of None \<Rightarrow> False | Some p \<Rightarrow> \<not> ok p x) then None
      else weigh ok w (Some x) xs (u32 (total_weight + w x)))"

definition validate :: "('k::linorder) authority \<Rightarrow> bool" where
  "validate auth =
     (if length (keys auth) + length (accounts auth) + length (waits auth) > 2 ^ 16 then False
      else if threshold auth = 0 then False
      else
        case weigh (\<lambda>p k. kw_key p < kw_key k) kw_weight None (keys auth) 0 of
          None \<Rightarrow> False
        | Some total_weight \<Rightarrow>
            (case weigh (\<lambda>p a. \<not> plw_permission p \<ge> plw_permission a) plw_weight None (accounts auth) total_weight of
               None \<Rightarrow> False
             | Some total_weight \<Rightarrow>
                 if waits auth \<noteq> [] \<and> wait_sec (hd (waits auth)) = 0 then False
                 else
                   case weigh (\<lambda>p w. \<not> wait_sec p \<ge> wait_sec w) ww_weight None (waits auth) total_weight of
                     None \<Rightarrow> False
                   | Some total_weight \<Rightarrow> total_weight \<ge> threshold auth))"

section \<open>The checker\<close>

datatype 'k meta_permission =
    Account permission_level_weight
  | Key "'k key_weight"
  | Wait wait_weight

fun meta_weight :: "'k meta_permission \<Rightarrow> nat" where
  "meta_weight (Account a) = plw_weight a"
| "meta_weight (Key k) = kw_weight k"
| "meta_weight (Wait w) = ww_weight w"

fun which :: "'k meta_permission \<Rightarrow> nat" where
  "which (Account _) = 0"
| "which (Key _) = 1"
| "which (Wait _) = 2"

definition meta_permission_comparator :: "'k meta_permission \<Rightarrow> 'k meta_permission \<Rightarrow> bool" where
  "meta_permission_comparator l r \<longleftrightarrow>
     meta_weight l > meta_weight r \<or> meta_weight l = meta_weight r \<and> which l > which r"

text \<open>Insertion into the \<open>flat_multiset\<close>: after the elements that are not behind it.\<close>

fun insert_meta :: "'k meta_permission \<Rightarrow> 'k meta_permission list \<Rightarrow> 'k meta_permission list" where
  "insert_meta p [] = [p]"
| "insert_meta p (q # qs) = (if meta_permission_comparator p q then p # q # qs else q # insert_meta p qs)"

definition meta_permissions :: "'k authority \<Rightarrow> 'k meta_permission list" where
  "meta_permissions a =
     fold insert_meta (map Account (accounts a))
       (fold insert_meta (map Key (keys a))
         (fold insert_meta (map Wait (waits a)) []))"

datatype permission_cache_status = being_evaluated | permission_unsatisfied | permission_satisfied

type_synonym permission_cache = "permission_level \<rightharpoonup> permission_cache_status"

text \<open>What does not change during a check, and what does.\<close>

record 'k authority_checker =
  permission_to_authority :: "permission_level \<Rightarrow> 'k authority result"
  provided_keys :: "'k list"
  provided_permissions :: "permission_level list"
  recursion_depth_limit :: nat

record checker_state =
  used_keys_flags :: "bool list"
  cached_permissions :: permission_cache

definition permission_status_in_cache :: "permission_cache \<Rightarrow> permission_level \<Rightarrow> permission_cache_status option" where
  "permission_status_in_cache perms level =
     (case perms level of
        Some st \<Rightarrow> Some st
      | None \<Rightarrow> perms (permission_level (actor level) 0))"

definition initialize_permission_cache :: "permission_level list \<Rightarrow> permission_cache" where
  "initialize_permission_cache ps = (\<lambda>p. if p \<in> set ps then Some permission_satisfied else None)"

text \<open>Position of a key among the provided ones (\<open>boost::find\<close>).\<close>

fun find_key :: "'k \<Rightarrow> 'k list \<Rightarrow> nat option" where
  "find_key k [] = None"
| "find_key k (x # xs) = (if x = k then Some 0 else map_option Suc (find_key k xs))"

text \<open>
  \<open>satisfied_authority\<close> walks the permissions of an authority by falling weight, \<open>visit\<close> adds the
  weight of one of them and recurses into the authority of another permission.  A missing
  permission counts as unsatisfied; every other exception goes through.  The used keys are put back
  unless the authority is satisfied.
\<close>

function satisfied_authority :: "'k authority_checker \<Rightarrow> int \<Rightarrow> 'k authority \<Rightarrow> nat \<Rightarrow> checker_state \<Rightarrow> bool result \<times> checker_state"
  and tally :: "'k authority_checker \<Rightarrow> int \<Rightarrow> 'k meta_permission list \<Rightarrow> nat \<Rightarrow> nat \<Rightarrow> nat \<Rightarrow> checker_state \<Rightarrow> bool result \<times> checker_state"
  and visit :: "'k authority_checker \<Rightarrow> int \<Rightarrow> 'k meta_permission \<Rightarrow> nat \<Rightarrow> nat \<Rightarrow> checker_state \<Rightarrow> nat result \<times> checker_state"
where
  "satisfied_authority c delay auth depth s =
     (case tally c delay (meta_permissions auth) (threshold auth) depth 0 s of
        (Inr True, s') \<Rightarrow> (Inr True, s')
      | (r, s') \<Rightarrow> (r, s'\<lparr>used_keys_flags := used_keys_flags s\<rparr>))"
| "tally c delay [] thresh depth total_weight s = (Inr False, s)"
| "tally c delay (p # ps) thresh depth total_weight s =
     (case visit c delay p depth total_weight s of
        (Inl e, s) \<Rightarrow> (Inl e, s)
      | (Inr total_weight, s) \<Rightarrow>
          if total_weight \<ge> thresh then (Inr True, s) else tally c delay ps thresh depth total_weight s)"
| "visit c delay (Wait w) depth total_weight s =
     (Inr (if delay \<ge> int (wait_sec w) * 1000000 then u32 (total_weight + ww_weight w) else total_weight), s)"
| "visit c delay (Key k) depth total_weight s =
     (case find_key (kw_key k) (provided_keys c) of
        Some i \<Rightarrow> (Inr (u32 (total_weight + kw_weight k)), s\<lparr>used_keys_flags := (used_keys_flags s)[i := True]\<rparr>)
      | None \<Rightarrow> (Inr total_weight, s))"
| "visit c delay (Account a) depth total_weight s =
     (case permission_status_in_cache (cached_permissions s) (plw_permission a) of
        None \<Rightarrow>
          if depth < recursion_depth_limit c then
            (case permission_to_authority c (plw_permission a) of
               Inl e \<Rightarrow> if e = permission_query_exception then (Inr total_weight, s) else (Inl e, s)
             | Inr auth \<Rightarrow>
                 (case satisfied_authority c delay auth (depth + 1)
                     (s\<lparr>cached_permissions := (cached_permissions s)(plw_permission a \<mapsto> being_evaluated)\<rparr>) of
                    (Inl e, s) \<Rightarrow> (Inl e, s)
                  | (Inr True, s) \<Rightarrow> (Inr (u32 (total_weight + plw_weight a)),
                      s\<lparr>cached_permissions := (cached_permissions s)(plw_permission a \<mapsto> permission_satisfied)\<rparr>)
                  | (Inr False, s) \<Rightarrow> (Inr total_weight,
                      s\<lparr>cached_permissions := (cached_permissions s)(plw_permission a \<mapsto> permission_unsatisfied)\<rparr>)))
          else (Inr total_weight, s)
      | Some permission_satisfied \<Rightarrow> (Inr (u32 (total_weight + plw_weight a)), s)
      | Some _ \<Rightarrow> (Inr total_weight, s))"
  by pat_completeness auto

text \<open>The recursion ends because the depth limit is approached.\<close>

termination
  by (relation "measures [
      \<lambda>x. case x of Inl (c, _, _, depth, _) \<Rightarrow> recursion_depth_limit c - depth
        | Inr (Inl (c, _, _, _, depth, _, _)) \<Rightarrow> recursion_depth_limit c - depth
        | Inr (Inr (c, _, _, depth, _, _)) \<Rightarrow> recursion_depth_limit c - depth,
      \<lambda>x. case x of Inl _ \<Rightarrow> 2 | Inr (Inl _) \<Rightarrow> 1 | Inr (Inr _) \<Rightarrow> 0,
      \<lambda>x. case x of Inr (Inl (_, _, ps, _, _, _, _)) \<Rightarrow> length ps | _ \<Rightarrow> 0]") auto

text \<open>
  The public interface: a fresh cache for every question, the used keys live on from one question
  to the next.
\<close>

definition make_used_keys :: "'k list \<Rightarrow> bool list" where
  "make_used_keys provided = replicate (length provided) False"

definition satisfied :: "'k authority_checker \<Rightarrow> int \<Rightarrow> permission_level \<Rightarrow> bool list \<Rightarrow> bool result \<times> bool list" where
  "satisfied c delay p used =
     (case visit c delay (Account \<lparr>plw_permission = p, plw_weight = 1\<rparr>) 0 0
         \<lparr>used_keys_flags = used, cached_permissions = initialize_permission_cache (provided_permissions c)\<rparr> of
        (Inl e, s) \<Rightarrow> (Inl e, used_keys_flags s)
      | (Inr total_weight, s) \<Rightarrow> (Inr (total_weight > 0), used_keys_flags s))"

definition satisfied_auth :: "'k authority_checker \<Rightarrow> int \<Rightarrow> 'k authority \<Rightarrow> bool list \<Rightarrow> bool result \<times> bool list" where
  "satisfied_auth c delay auth used =
     (case satisfied_authority c delay auth 0
         \<lparr>used_keys_flags = used, cached_permissions = initialize_permission_cache (provided_permissions c)\<rparr> of
        (r, s) \<Rightarrow> (r, used_keys_flags s))"

definition all_keys_used :: "bool list \<Rightarrow> bool" where
  "all_keys_used used \<longleftrightarrow> list_all (\<lambda>b. b = True) used"

definition filter_data_by_marker :: "'a list \<Rightarrow> bool list \<Rightarrow> bool \<Rightarrow> 'a list" where
  "filter_data_by_marker xs markers m = map snd (filter (\<lambda>p. fst p = m) (zip markers xs))"

definition used_keys :: "'k authority_checker \<Rightarrow> bool list \<Rightarrow> 'k list" where
  "used_keys c used = filter_data_by_marker (provided_keys c) used True"

definition unused_keys :: "'k authority_checker \<Rightarrow> bool list \<Rightarrow> 'k list" where
  "unused_keys c used = filter_data_by_marker (provided_keys c) used False"

section \<open>What it means to be entitled\<close>

text \<open>The weight of the factors that count, where \<open>good\<close> are the permissions taken as satisfied.\<close>

fun granted :: "'k authority_checker \<Rightarrow> int \<Rightarrow> (permission_level \<Rightarrow> bool) \<Rightarrow> 'k meta_permission \<Rightarrow> nat" where
  "granted c delay good (Wait w) = (if delay \<ge> int (wait_sec w) * 1000000 then ww_weight w else 0)"
| "granted c delay good (Key k) = (if kw_key k \<in> set (provided_keys c) then kw_weight k else 0)"
| "granted c delay good (Account a) = (if good (plw_permission a) then plw_weight a else 0)"

definition granted_weight :: "'k authority_checker \<Rightarrow> int \<Rightarrow> (permission_level \<Rightarrow> bool) \<Rightarrow> 'k authority \<Rightarrow> nat" where
  "granted_weight c delay good auth = (\<Sum>p\<leftarrow>map Wait (waits auth) @ map Key (keys auth) @ map Account (accounts auth). granted c delay good p)"

text \<open>
  A permission is entitled when it was provided, when its account was provided with the empty
  permission name, or when the entitled factors of its authority reach the threshold.
\<close>

inductive entitled :: "'k authority_checker \<Rightarrow> int \<Rightarrow> permission_level \<Rightarrow> bool" for c delay where
  entitled_provided: "p \<in> set (provided_permissions c) \<Longrightarrow> entitled c delay p"
| entitled_wildcard: "permission_level (actor p) 0 \<in> set (provided_permissions c) \<Longrightarrow> entitled c delay p"
| entitled_authority: "permission_to_authority c p = Inr auth \<Longrightarrow> (\<And>q. good q \<Longrightarrow> entitled c delay q) \<Longrightarrow>
    threshold auth \<le> granted_weight c delay good auth \<Longrightarrow> entitled c delay p"

text \<open>The lookup never returns an authority for an empty permission name.\<close>

definition named_lookup :: "'k authority_checker \<Rightarrow> bool" where
  "named_lookup c \<longleftrightarrow> (\<forall>a auth. permission_to_authority c (permission_level a 0) \<noteq> Inr auth)"

definition cache_sound :: "'k authority_checker \<Rightarrow> int \<Rightarrow> permission_cache \<Rightarrow> bool" where
  "cache_sound c delay m \<longleftrightarrow> (\<forall>p. m p = Some permission_satisfied \<longrightarrow>
     (if permission p = 0 then p \<in> set (provided_permissions c) else entitled c delay p))"

lemma cache_sound_status:
  assumes "cache_sound c delay m" and "permission_status_in_cache m p = Some permission_satisfied"
  shows "entitled c delay p"
proof (cases "m p")
  case None
  then have "m (permission_level (actor p) 0) = Some permission_satisfied"
    using assms(2) by (simp add: permission_status_in_cache_def)
  then have "permission_level (actor p) 0 \<in> set (provided_permissions c)"
    using assms(1) by (force simp: cache_sound_def)
  then show ?thesis by (rule entitled_wildcard)
next
  case (Some st)
  then show ?thesis using assms by (auto simp: permission_status_in_cache_def cache_sound_def entitled_provided split: if_splits)
qed

lemma cache_sound_init: "cache_sound c delay (initialize_permission_cache (provided_permissions c))"
  by (auto simp: cache_sound_def initialize_permission_cache_def entitled_provided)

lemma find_key_Some: "find_key k xs = Some i \<Longrightarrow> i < length xs \<and> xs ! i = k"
  by (induction xs arbitrary: i) (auto split: if_splits)

lemma find_key_mem: "find_key k xs = Some i \<Longrightarrow> k \<in> set xs"
  using find_key_Some nth_mem by metis

lemma find_key_None: "find_key k xs = None \<longleftrightarrow> k \<notin> set xs"
  by (induction xs) auto

lemma mset_insert_meta [simp]: "mset (insert_meta p qs) = add_mset p (mset qs)"
  by (induction qs) auto

lemma mset_fold_insert_meta: "mset (fold insert_meta ps qs) = mset ps + mset qs"
  by (induction ps arbitrary: qs) auto

lemma mset_meta_permissions:
  "mset (meta_permissions a) = mset (map Wait (waits a) @ map Key (keys a) @ map Account (accounts a))"
  by (simp add: meta_permissions_def mset_fold_insert_meta)

lemma sum_meta_permissions: "(\<Sum>p\<leftarrow>meta_permissions a. granted c delay good p) = granted_weight c delay good a"
  unfolding granted_weight_def sum_mset_sum_list [symmetric] mset_map mset_meta_permissions ..

text \<open>One induction over the three functions: the cache stays sound and no weight is invented.\<close>

lemma checker_sound:
  assumes n: "named_lookup c"
  shows "satisfied_authority c delay auth depth s = (r, s') \<Longrightarrow> cache_sound c delay (cached_permissions s) \<Longrightarrow>
      cache_sound c delay (cached_permissions s') \<and> (r = Inr True \<longrightarrow> threshold auth \<le> granted_weight c delay (entitled c delay) auth)"
    and "tally c delay ps thresh depth total_weight s = (r, s') \<Longrightarrow> cache_sound c delay (cached_permissions s) \<Longrightarrow>
      cache_sound c delay (cached_permissions s')
      \<and> (r = Inr True \<longrightarrow> thresh \<le> total_weight + (\<Sum>p\<leftarrow>ps. granted c delay (entitled c delay) p))"
    and "visit c delay p depth total_weight s = (t, s') \<Longrightarrow> cache_sound c delay (cached_permissions s) \<Longrightarrow>
      cache_sound c delay (cached_permissions s')
      \<and> (\<forall>w. t = Inr w \<longrightarrow> w \<le> total_weight + granted c delay (entitled c delay) p)"
  using n
proof (induction c delay auth depth s and c delay ps thresh depth total_weight s and c delay p depth total_weight s
    arbitrary: r s' and r s' and t s' rule: satisfied_authority_tally_visit.induct)
  case (1 c delay auth depth s)
  obtain r1 s1 where t: "tally c delay (meta_permissions auth) (threshold auth) depth 0 s = (r1, s1)"
    by fastforce
  from "1.IH" [OF t "1.prems"(2,3)] "1.prems"(1) t show ?case
    by (auto simp: sum_meta_permissions split: sum.splits bool.splits)
next
  case (2 c delay thresh depth total_weight s)
  then show ?case by auto
next
  case (3 c delay p ps thresh depth total_weight s)
  obtain t1 s1 where v: "visit c delay p depth total_weight s = (t1, s1)" by fastforce
  show ?case
  proof (cases t1)
    case (Inl e)
    then show ?thesis using "3.IH"(1) [OF v "3.prems"(2,3)] "3.prems"(1) v by auto
  next
    case (Inr w)
    note vis = "3.IH"(1) [OF v "3.prems"(2,3)]
    show ?thesis
    proof (cases "w \<ge> thresh")
      case True
      then show ?thesis using vis "3.prems"(1) v Inr by auto
    next
      case False
      then have rec: "tally c delay ps thresh depth w s1 = (r, s')" using "3.prems"(1) v Inr by simp
      have "cache_sound c delay (cached_permissions s1)" using vis by simp
      from "3.IH"(2) [OF v [symmetric] Inr False rec this "3.prems"(3)] vis Inr show ?thesis by fastforce
    qed
  qed
next
  case (4 c delay w depth total_weight s)
  then show ?case using u32_le [of "total_weight + ww_weight w"] by auto
next
  case (5 c delay k depth total_weight s)
  then show ?case using u32_le [of "total_weight + kw_weight k"]
    by (auto simp: find_key_None dest!: find_key_Some nth_mem split: option.splits)
next
  case (6 c delay a depth total_weight s)
  let ?p = "plw_permission a" and ?m = "cached_permissions s"
  note weight_le = u32_le [of "total_weight + plw_weight a"]
  show ?case
  proof (cases "permission_status_in_cache ?m ?p")
    case (Some st)
    then show ?thesis using "6.prems" weight_le cache_sound_status [of c delay ?m ?p]
      by (cases st) auto
  next
    case None
    show ?thesis
    proof (cases "depth < recursion_depth_limit c")
      case False
      then show ?thesis using "6.prems" None by auto
    next
      case True
      show ?thesis
      proof (cases "permission_to_authority c ?p")
        case (Inl e)
        then show ?thesis using "6.prems" None True by (auto split: if_splits)
      next
        case (Inr auth)
        let ?s0 = "s\<lparr>cached_permissions := ?m(?p \<mapsto> being_evaluated)\<rparr>"
        obtain r1 s1 where sat: "satisfied_authority c delay auth (depth + 1) ?s0 = (r1, s1)" by fastforce
        have "cache_sound c delay (cached_permissions ?s0)" using "6.prems"(2) by (simp add: cache_sound_def)
        note sound = "6.IH" [OF None True Inr sat this "6.prems"(3)]
        have named: "permission ?p \<noteq> 0"
          using Inr "6.prems"(3) by (cases ?p) (auto simp: named_lookup_def)
        have ent: "entitled c delay ?p" if "r1 = Inr True"
          using entitled_authority [OF Inr, of "entitled c delay"] sound that by simp
        have upd: "cache_sound c delay ((cached_permissions s1)(?p \<mapsto> permission_satisfied))" if "r1 = Inr True"
          using sound ent that named by (simp add: cache_sound_def)
        have upd': "cache_sound c delay ((cached_permissions s1)(?p \<mapsto> permission_unsatisfied))"
          using sound by (simp add: cache_sound_def)
        show ?thesis
          using "6.prems"(1) None True Inr sat sound ent upd upd' weight_le
          by (auto split: sum.splits bool.splits)
      qed
    qed
  qed
qed

section \<open>Used keys\<close>

text \<open>Marks are only added, and an authority that is not satisfied leaves them as they were.\<close>

definition marks_kept :: "bool list \<Rightarrow> bool list \<Rightarrow> bool" where
  "marks_kept u v \<longleftrightarrow> list_all2 (\<longrightarrow>) u v"

lemma marks_refl [simp]: "marks_kept u u"
  by (simp add: marks_kept_def list_all2_conv_all_nth)

lemma marks_trans: "marks_kept u v \<Longrightarrow> marks_kept v w \<Longrightarrow> marks_kept u w"
  unfolding marks_kept_def by (rule list_all2_trans) auto

lemma marks_mark: "marks_kept u (u[i := True])"
  by (simp add: marks_kept_def list_all2_conv_all_nth) (metis nth_list_update_eq nth_list_update_neq)

lemma checker_marks:
  shows "satisfied_authority c delay auth depth s = (r, s') \<Longrightarrow> marks_kept (used_keys_flags s) (used_keys_flags s')
      \<and> (r \<noteq> Inr True \<longrightarrow> used_keys_flags s' = used_keys_flags s)"
    and "tally c delay ps thresh depth total_weight s = (r, s') \<Longrightarrow> marks_kept (used_keys_flags s) (used_keys_flags s')"
    and "visit c delay p depth total_weight s = (t, s') \<Longrightarrow> marks_kept (used_keys_flags s) (used_keys_flags s')"
proof (induction c delay auth depth s and c delay ps thresh depth total_weight s and c delay p depth total_weight s
    arbitrary: r s' and r s' and t s' rule: satisfied_authority_tally_visit.induct)
  case (1 c delay auth depth s)
  obtain r1 s1 where "tally c delay (meta_permissions auth) (threshold auth) depth 0 s = (r1, s1)"
    by fastforce
  with "1.IH" [OF this] "1.prems" show ?case by (auto split: sum.splits bool.splits)
next
  case (2 c delay thresh depth total_weight s)
  then show ?case by auto
next
  case (3 c delay p ps thresh depth total_weight s)
  obtain t1 s1 where v: "visit c delay p depth total_weight s = (t1, s1)" by fastforce
  show ?case
  proof (cases t1)
    case (Inl e)
    then show ?thesis using "3.IH"(1) [OF v] "3.prems" v by auto
  next
    case (Inr w)
    then show ?thesis
      using "3.IH"(1) [OF v] "3.IH"(2) [OF v [symmetric] Inr, of r s'] "3.prems" v
      by (auto split: if_splits intro: marks_trans)
  qed
next
  case (4 c delay w depth total_weight s)
  then show ?case by auto
next
  case (5 c delay k depth total_weight s)
  then show ?case by (auto simp: marks_mark split: option.splits)
next
  case (6 c delay a depth total_weight s)
  show ?case
  proof (cases "permission_status_in_cache (cached_permissions s) (plw_permission a) = None \<and> depth < recursion_depth_limit c")
    case True
    then show ?thesis
    proof (cases "permission_to_authority c (plw_permission a)")
      case (Inl e)
      then show ?thesis using "6.prems" True by (auto split: if_splits)
    next
      case (Inr auth)
      let ?s0 = "s\<lparr>cached_permissions := (cached_permissions s)(plw_permission a \<mapsto> being_evaluated)\<rparr>"
      obtain r1 s1 where "satisfied_authority c delay auth (depth + 1) ?s0 = (r1, s1)" by fastforce
      with "6.IH" [OF conjunct1 [OF True] conjunct2 [OF True] Inr this] "6.prems" True Inr show ?thesis
        by (auto split: sum.splits bool.splits)
    qed
  next
    case False
    then show ?thesis using "6.prems"
      by (auto split: if_splits option.splits permission_cache_status.splits)
  qed
qed

lemma satisfied_marks: "satisfied c delay p used = (r, used') \<Longrightarrow> marks_kept used used'"
proof -
  assume run: "satisfied c delay p used = (r, used')"
  let ?s = "\<lparr>used_keys_flags = used, cached_permissions = initialize_permission_cache (provided_permissions c)\<rparr>"
  obtain t s where "visit c delay (Account \<lparr>plw_permission = p, plw_weight = 1\<rparr>) 0 0 ?s = (t, s)" by fastforce
  with checker_marks(3) [OF this] run show ?thesis by (auto simp: satisfied_def split: sum.splits)
qed

section \<open>Authorities decided without recursion\<close>

text \<open>Here every account factor was provided, so the greedy tally is exact.\<close>

definition provided :: "'k authority_checker \<Rightarrow> permission_level \<Rightarrow> bool" where
  "provided c p \<longleftrightarrow> p \<in> set (provided_permissions c) \<or> permission_level (actor p) 0 \<in> set (provided_permissions c)"

lemma provided_status:
  "permission_status_in_cache (initialize_permission_cache (provided_permissions c)) p = (if provided c p then Some permission_satisfied else None)"
  by (simp add: permission_status_in_cache_def initialize_permission_cache_def provided_def)

fun direct :: "'k authority_checker \<Rightarrow> 'k meta_permission \<Rightarrow> bool" where
  "direct c (Account a) \<longleftrightarrow> provided c (plw_permission a)"
| "direct c _ \<longleftrightarrow> True"

lemma granted_le: "granted c delay good p \<le> meta_weight p"
  by (cases p) auto

lemma visit_direct:
  assumes "direct c p" and "cached_permissions s = initialize_permission_cache (provided_permissions c)"
    and "total_weight + meta_weight p < 2 ^ 32"
  shows "\<exists>s'. visit c delay p depth total_weight s = (Inr (total_weight + granted c delay (provided c) p), s')
    \<and> cached_permissions s' = cached_permissions s"
  using assms
  by (cases p) (auto simp: provided_status find_key_None split: option.split dest!: find_key_mem)

lemma tally_direct:
  assumes "\<forall>p\<in>set ps. direct c p" and "cached_permissions s = initialize_permission_cache (provided_permissions c)"
    and "total_weight + (\<Sum>p\<leftarrow>ps. meta_weight p) < 2 ^ 32" and "total_weight < thresh"
  shows "\<exists>s'. tally c delay ps thresh depth total_weight s =
    (Inr (thresh \<le> total_weight + (\<Sum>p\<leftarrow>ps. granted c delay (provided c) p)), s')"
  using assms
proof (induction ps arbitrary: total_weight s)
  case Nil
  then show ?case by simp
next
  case (Cons p ps)
  obtain s1 where v: "visit c delay p depth total_weight s = (Inr (total_weight + granted c delay (provided c) p), s1)"
    and c1: "cached_permissions s1 = initialize_permission_cache (provided_permissions c)"
    using visit_direct [of c p s total_weight delay depth] Cons.prems by auto
  let ?t = "total_weight + granted c delay (provided c) p"
  show ?case
  proof (cases "thresh \<le> ?t")
    case True
    then show ?thesis using v by simp
  next
    case False
    have "?t + (\<Sum>p\<leftarrow>ps. meta_weight p) < 2 ^ 32" using Cons.prems(3) granted_le [of c delay "provided c" p] by simp
    then obtain s' where "tally c delay ps thresh depth ?t s1 =
        (Inr (thresh \<le> ?t + (\<Sum>p\<leftarrow>ps. granted c delay (provided c) p)), s')"
      using Cons.IH [of s1 ?t] Cons.prems(1) c1 False by auto
    then show ?thesis using v False by (simp add: add.assoc)
  qed
qed

section \<open>Validation\<close>

text \<open>The loop of \<open>validate\<close>: the elements are in strictly rising order and the weights add up.\<close>

lemma weigh_spec:
  assumes "t + (\<Sum>x\<leftarrow>xs. w x) < 2 ^ 32"
  shows "weigh ok w prev xs t =
    (if successively ok (case prev of None \<Rightarrow> xs | Some p \<Rightarrow> p # xs) then Some (t + (\<Sum>x\<leftarrow>xs. w x)) else None)"
  using assms
proof (induction xs arbitrary: prev t)
  case Nil
  then show ?case by (simp split: option.split)
next
  case (Cons x xs)
  have t: "t + w x < 2 ^ 32" using Cons.prems by simp
  have "weigh ok w (Some x) xs (t + w x) =
      (if successively ok (x # xs) then Some (t + w x + (\<Sum>x\<leftarrow>xs. w x)) else None)"
    using Cons.IH [of "t + w x" "Some x"] Cons.prems by simp
  then show ?case using t by (auto simp: add.assoc split: option.split)
qed

text \<open>The factors of an authority, whose weights are 16-bit numbers.\<close>

definition factors :: "'k authority \<Rightarrow> 'k meta_permission list" where
  "factors auth = map Wait (waits auth) @ map Key (keys auth) @ map Account (accounts auth)"

definition weights16 :: "'k authority \<Rightarrow> bool" where
  "weights16 auth \<longleftrightarrow> (\<forall>p\<in>set (factors auth). meta_weight p < 2 ^ 16)"

definition all_weight :: "'k authority \<Rightarrow> nat" where
  "all_weight auth = (\<Sum>p\<leftarrow>factors auth. meta_weight p)"

lemma all_weight_sums:
  "all_weight auth = (\<Sum>k\<leftarrow>keys auth. kw_weight k) + (\<Sum>a\<leftarrow>accounts auth. plw_weight a) + (\<Sum>w\<leftarrow>waits auth. ww_weight w)"
  by (simp add: all_weight_def factors_def comp_def)

lemma sum_list_le_length: "\<forall>x\<in>set xs. f x \<le> (m :: nat) \<Longrightarrow> (\<Sum>x\<leftarrow>xs. f x) \<le> length xs * m"
  by (induction xs) auto

lemma all_weight_bound:
  assumes "weights16 auth" and "length (factors auth) \<le> 2 ^ 16"
  shows "all_weight auth < 2 ^ 32"
proof -
  have "all_weight auth \<le> length (factors auth) * (2 ^ 16 - 1)"
    unfolding all_weight_def using assms(1) by (intro sum_list_le_length) (auto simp: weights16_def)
  also have "\<dots> \<le> 2 ^ 16 * (2 ^ 16 - 1)" using assms(2) by simp
  finally show ?thesis by simp
qed

lemma tally_factors:
  assumes "weights16 auth" and "length (factors auth) \<le> 2 ^ 16" and "0 < threshold auth"
    and "\<forall>p\<in>set (factors auth). direct c p"
  shows "\<exists>used'. satisfied_auth c delay auth used = (Inr (threshold auth \<le> granted_weight c delay (provided c) auth), used')"
proof -
  let ?s = "\<lparr>used_keys_flags = used, cached_permissions = initialize_permission_cache (provided_permissions c)\<rparr>"
  have m: "mset (meta_permissions auth) = mset (factors auth)" by (simp add: mset_meta_permissions factors_def)
  have "(\<Sum>p\<leftarrow>meta_permissions auth. meta_weight p) = all_weight auth"
    unfolding all_weight_def sum_mset_sum_list [symmetric] mset_map m ..
  moreover have "set (meta_permissions auth) = set (factors auth)" using mset_eq_setD [OF m] .
  ultimately obtain s' where "tally c delay (meta_permissions auth) (threshold auth) 0 0 ?s =
      (Inr (threshold auth \<le> granted_weight c delay (provided c) auth), s')"
    using tally_direct [of "meta_permissions auth" c ?s 0 "threshold auth" delay 0] all_weight_bound [OF assms(1,2)] assms(3,4)
    by (auto simp: sum_meta_permissions)
  then show ?thesis by (auto simp: satisfied_auth_def split: bool.split)
qed

text \<open>The answer of the checker, for one permission.\<close>

lemma checker_grants_only_entitled_aux:
  assumes "named_lookup c" and "satisfied c delay p used = (Inr True, used')"
  shows "entitled c delay p \<and> marks_kept used used'"
proof -
  let ?s = "\<lparr>used_keys_flags = used, cached_permissions = initialize_permission_cache (provided_permissions c)\<rparr>"
  obtain t s where v: "visit c delay (Account \<lparr>plw_permission = p, plw_weight = 1\<rparr>) 0 0 ?s = (Inr t, s)" "t > 0"
    using assms(2) by (auto simp: satisfied_def split: prod.splits sum.splits)
  have "t \<le> granted c delay (entitled c delay) (Account \<lparr>plw_permission = p, plw_weight = 1\<rparr> :: 'a meta_permission)"
    using checker_sound(3) [OF assms(1) v(1)] cache_sound_init [of c delay] by simp
  then have "entitled c delay p" using v(2) by (auto split: if_splits)
  then show ?thesis using satisfied_marks [OF assms(2)] by simp
qed

section \<open>Properties\<close>

text \<open>C3. The checker is sound: if it answers that a permission is satisfied, the provided keys,
  permissions and delay really entitle to it, through a finite derivation in which every authority
  on the way reaches its threshold.  Neither the cache nor the recursion limit nor the wrap-around
  of the weights can grant what is not there.\<close>

theorem checker_grants_only_entitled:
  assumes "named_lookup c" and "satisfied c delay p used = (Inr True, used')"
  shows "entitled c delay p \<and> marks_kept used used'"
  using assms by (rule checker_grants_only_entitled_aux)

text \<open>Two accounts: account 7 needs account 8 and key 1 together, account 8 needs key 2.\<close>

definition demo_lookup :: "permission_level \<Rightarrow> nat authority result" where
  "demo_lookup p =
     (if p = permission_level 7 1 then
        Inr \<lparr>threshold = 2, keys = [\<lparr>kw_key = 1, kw_weight = 1\<rparr>],
             accounts = [\<lparr>plw_permission = permission_level 8 1, plw_weight = 1\<rparr>], waits = []\<rparr>
      else if p = permission_level 8 1 then Inr (authority_of_key 2 0)
      else Inl permission_query_exception)"

lemmas checker_run = satisfied_def permission_status_in_cache_def initialize_permission_cache_def meta_permissions_def
  meta_permission_comparator_def authority_of_key_def

definition demo_checker :: "nat list \<Rightarrow> nat authority_checker" where
  "demo_checker ks = \<lparr>permission_to_authority = demo_lookup, provided_keys = ks, provided_permissions = [], recursion_depth_limit = 6\<rparr>"

lemma demo_named: "named_lookup (demo_checker ks)"
  by (simp add: named_lookup_def demo_checker_def demo_lookup_def)

theorem checker_grants_only_entitled_witness:
  "named_lookup (demo_checker [1, 2]) \<and> satisfied (demo_checker [1, 2]) 0 (permission_level 7 1) [False, False] = (Inr True, [True, True])
   \<and> entitled (demo_checker [1, 2]) 0 (permission_level 7 1)"
proof -
  have run: "satisfied (demo_checker [1, 2]) 0 (permission_level 7 1) [False, False] = (Inr True, [True, True])"
    by (simp add: checker_run demo_checker_def demo_lookup_def)
  show ?thesis using run demo_named checker_grants_only_entitled [OF demo_named run] by blast
qed

text \<open>C30. \<open>validate\<close> accepts exactly the authorities with at most 65536 factors, a positive
  threshold, strictly rising keys, permissions and waits (the first one not zero), whose weights
  together reach the threshold; and an accepted authority can be satisfied: with all keys, all
  permissions and the longest wait provided, the checker says yes.\<close>

theorem validate_means_satisfiable:
  assumes "weights16 auth"
  shows "(validate auth \<longleftrightarrow> length (factors auth) \<le> 2 ^ 16 \<and> 0 < threshold auth
      \<and> successively (\<lambda>a b. kw_key a < kw_key b) (keys auth)
      \<and> successively (\<lambda>a b. plw_permission a < plw_permission b) (accounts auth)
      \<and> successively (\<lambda>a b. wait_sec a < wait_sec b) (waits auth) \<and> (waits auth \<noteq> [] \<longrightarrow> wait_sec (hd (waits auth)) \<noteq> 0)
      \<and> threshold auth \<le> all_weight auth)
    \<and> (validate auth \<longrightarrow> (\<forall>c delay used. kw_key ` set (keys auth) \<subseteq> set (provided_keys c) \<longrightarrow>
        (\<forall>a\<in>set (accounts auth). provided c (plw_permission a)) \<longrightarrow> (\<forall>w\<in>set (waits auth). int (wait_sec w) * 1000000 \<le> delay) \<longrightarrow>
        (\<exists>used'. satisfied_auth c delay auth used = (Inr True, used'))))"
proof -
  have len: "length (factors auth) = length (keys auth) + length (accounts auth) + length (waits auth)" by (simp add: factors_def)
  have iff: "validate auth \<longleftrightarrow> length (factors auth) \<le> 2 ^ 16 \<and> 0 < threshold auth
      \<and> successively (\<lambda>a b. kw_key a < kw_key b) (keys auth)
      \<and> successively (\<lambda>a b. plw_permission a < plw_permission b) (accounts auth)
      \<and> successively (\<lambda>a b. wait_sec a < wait_sec b) (waits auth) \<and> (waits auth \<noteq> [] \<longrightarrow> wait_sec (hd (waits auth)) \<noteq> 0)
      \<and> threshold auth \<le> all_weight auth"
  proof (cases "length (factors auth) \<le> 2 ^ 16")
    case True
    note b = all_weight_bound [OF assms True, unfolded all_weight_sums]
    then show ?thesis using True
      by (simp add: validate_def weigh_spec len all_weight_sums not_le)
  next
    case False
    then show ?thesis by (simp add: validate_def len)
  qed
  moreover have "\<exists>used'. satisfied_auth c delay auth used = (Inr True, used')"
    if v: "validate auth" and k: "kw_key ` set (keys auth) \<subseteq> set (provided_keys c)"
      and a: "\<forall>a\<in>set (accounts auth). provided c (plw_permission a)"
      and w: "\<forall>w\<in>set (waits auth). int (wait_sec w) * 1000000 \<le> delay" for c :: "'a authority_checker" and delay used
  proof -
    have "granted c delay (provided c) p = meta_weight p \<and> direct c p" if "p \<in> set (factors auth)" for p
      using that k a w by (auto simp: factors_def)
    then have "granted_weight c delay (provided c) auth = all_weight auth" "\<forall>p\<in>set (factors auth). direct c p"
      by (auto simp: granted_weight_def all_weight_def factors_def [symmetric] intro!: arg_cong [where f = sum_list] map_cong)
    then show ?thesis using tally_factors [OF assms, of c delay used] v iff by auto
  qed
  ultimately show ?thesis by blast
qed

definition two_of_three :: "nat authority" where
  "two_of_three = \<lparr>threshold = 2, keys = [\<lparr>kw_key = 3, kw_weight = 1\<rparr>, \<lparr>kw_key = 5, kw_weight = 1\<rparr>],
     accounts = [\<lparr>plw_permission = permission_level 8 1, plw_weight = 1\<rparr>], waits = [\<lparr>wait_sec = 10, ww_weight = 1\<rparr>]\<rparr>"

theorem validate_means_satisfiable_witness:
  "weights16 two_of_three \<and> validate two_of_three \<and>
   (\<exists>used'. satisfied_auth \<lparr>permission_to_authority = demo_lookup, provided_keys = [3, 5],
      provided_permissions = [permission_level 8 0], recursion_depth_limit = 6\<rparr> 10000000 two_of_three [False, False] = (Inr True, used'))"
proof -
  have w: "weights16 two_of_three" by (simp add: weights16_def factors_def two_of_three_def)
  have v: "validate two_of_three"
    by (simp add: validate_def two_of_three_def less_permission_level_def less_eq_permission_level_def)
  let ?c = "\<lparr>permission_to_authority = demo_lookup, provided_keys = [3, 5],
      provided_permissions = [permission_level 8 0], recursion_depth_limit = 6\<rparr>"
  have "kw_key ` set (keys two_of_three) \<subseteq> set (provided_keys ?c)"
    "\<forall>a\<in>set (accounts two_of_three). provided ?c (plw_permission a)"
    "\<forall>w\<in>set (waits two_of_three). int (wait_sec w) * 1000000 \<le> 10000000"
    by (simp_all add: two_of_three_def provided_def)
  then show ?thesis using w v validate_means_satisfiable [OF w] by blast
qed

text \<open>
  A key that is needed can be reported as irrelevant.  Account 9 asks for account 7 with weight 2 or
  account 8 with weight 1.  While account 7 is tried, account 8 is satisfied with key 2 and cached;
  account 7 fails for want of key 1 and the marks are put back; account 8 then counts from the cache
  without key 2 being marked.  Without key 2 the permission would not be satisfied at all.
\<close>

definition nested_lookup :: "permission_level \<Rightarrow> nat authority result" where
  "nested_lookup p =
     (if p = permission_level 9 1 then
        Inr \<lparr>threshold = 1, keys = [], accounts = [\<lparr>plw_permission = permission_level 7 1, plw_weight = 2\<rparr>,
          \<lparr>plw_permission = permission_level 8 1, plw_weight = 1\<rparr>], waits = []\<rparr>
      else demo_lookup p)"

definition nested_checker :: "nat list \<Rightarrow> nat authority_checker" where
  "nested_checker ks = \<lparr>permission_to_authority = nested_lookup, provided_keys = ks, provided_permissions = [], recursion_depth_limit = 6\<rparr>"

theorem needed_key_reported_unused:
  "satisfied (nested_checker [2]) 0 (permission_level 9 1) [False] = (Inr True, [False])
   \<and> satisfied (nested_checker []) 0 (permission_level 9 1) [] = (Inr False, [])"
  by (simp add: checker_run nested_checker_def nested_lookup_def demo_lookup_def)

end
