(* ===== verification/Authorization.thy ===== *)
theory Authorization
  imports Authority Tables
begin

text \<open>
  The authorization manager (\<^verbatim>\<open>libraries/chain/authorization_manager.cpp\<close>,
  \<open>permission_object.hpp\<close>, \<open>permission_link_object.hpp\<close>): the permissions of every account as
  trees, links from actions to permissions, and the check whether the declared authorizations of
  the actions of a transaction are relevant and satisfied.  Unpacking the data of the native actions
  is the parameter \<open>native_data\<close>; the callback that watches the time is the one that does nothing.
\<close>

section \<open>State\<close>

record permission_usage_object =
  usage_oid :: nat
  last_used :: int

record 'k permission_object =
  perm_id :: nat
  usage_id :: nat
  parent :: nat
  owner :: name
  perm_name :: name
  last_updated :: int
  auth :: "'k authority"

record permission_link_object =
  link_account :: name
  link_code :: name
  message_type :: name
  required_permission :: name

text \<open>A deferred transaction, packed, and the authorizations of its actions as they are unpacked from it.\<close>

record generated_transaction_object =
  trx_id :: nat
  sender :: name
  sender_id :: nat
  payer :: name
  delay_until :: int
  expires :: int
  published :: int
  packed_trx :: "8 word list"
  trx_authorizations :: "permission_level list list"

abbreviation packed_size :: "generated_transaction_object \<Rightarrow> nat" where
  "packed_size g \<equiv> length (packed_trx g)"

record 'k auth_db =
  permissions :: "'k permission_object list"
  next_permission_id :: nat
  usages :: "permission_usage_object list"
  next_usage_id :: nat
  links :: "permission_link_object list"
  generated :: "generated_transaction_object list"
  pending_block_time :: int
  max_transaction_delay :: nat
  max_authority_depth :: nat

definition owner_key :: "'k permission_object \<Rightarrow> name \<times> name" where
  "owner_key p = (owner p, perm_name p)"

definition action_key :: "permission_link_object \<Rightarrow> name \<times> name \<times> name" where
  "action_key l = (link_account l, link_code l, message_type l)"

definition system_account_name :: name where "system_account_name = string_to_name ''eosio''"
definition active_name :: name where "active_name = string_to_name ''active''"
definition owner_name :: name where "owner_name = string_to_name ''owner''"
definition eosio_any_name :: name where "eosio_any_name = string_to_name ''eosio.any''"
definition eosio_code_name :: name where "eosio_code_name = string_to_name ''eosio.code''"

definition updateauth_name :: name where "updateauth_name = string_to_name ''updateauth''"
definition deleteauth_name :: name where "deleteauth_name = string_to_name ''deleteauth''"
definition linkauth_name :: name where "linkauth_name = string_to_name ''linkauth''"
definition unlinkauth_name :: name where "unlinkauth_name = string_to_name ''unlinkauth''"
definition canceldelay_name :: name where "canceldelay_name = string_to_name ''canceldelay''"

section \<open>Permission objects\<close>

text \<open>
  The walk up the parents in \<open>satisfies\<close>.  The fuel is the number of rows: a walk that is longer
  has met a row twice and would go on for ever, and a loop without effects that does not end is
  undefined in C++, as is the dereference of a parent that is not there.
\<close>

fun walk :: "'k permission_object list \<Rightarrow> nat \<Rightarrow> nat \<Rightarrow> nat \<Rightarrow> bool result" where
  "walk rows i q 0 = Inl undefined_behaviour"
| "walk rows i q (Suc fuel) =
     (case tbl_find perm_id q rows of
        None \<Rightarrow> Inl undefined_behaviour
      | Some p \<Rightarrow>
          if i = parent p then Inr True
          else if parent p = 0 then Inr False
          else walk rows i (parent p) fuel)"

definition satisfies :: "'k permission_object \<Rightarrow> 'k permission_object \<Rightarrow> 'k permission_object list \<Rightarrow> bool result" where
  "satisfies p other rows =
     (if owner p \<noteq> owner other then Inr False
      else if perm_id p = perm_id other \<or> perm_id p = parent other then Inr True
      else walk rows (perm_id p) (parent other) (length rows))"

section \<open>The manager\<close>

text \<open>Row 0 is reserved, so that 0 can stand for the absence of a parent.\<close>

definition empty_authority :: "'k authority" where
  "empty_authority = \<lparr>threshold = 0, keys = [], accounts = [], waits = []\<rparr>"

definition initialize_database :: "'k auth_db \<Rightarrow> 'k auth_db" where
  "initialize_database db =
     db\<lparr>permissions := permissions db @
          [\<lparr>perm_id = next_permission_id db, usage_id = 0, parent = 0, owner = 0, perm_name = 0, last_updated = 0,
            auth = empty_authority\<rparr>],
        next_permission_id := next_permission_id db + 1\<rparr>"

definition create_permission ::
    "name \<Rightarrow> name \<Rightarrow> nat \<Rightarrow> 'k authority \<Rightarrow> int \<Rightarrow> 'k auth_db \<Rightarrow> ('k permission_object \<times> 'k auth_db) result" where
  "create_permission account nm par au initial_creation_time db =
     (let creation_time = (if initial_creation_time = 0 then pending_block_time db else initial_creation_time);
          perm_usage = \<lparr>usage_oid = next_usage_id db, last_used = creation_time\<rparr>;
          db = db\<lparr>usages := usages db @ [perm_usage], next_usage_id := next_usage_id db + 1\<rparr>;
          perm = \<lparr>perm_id = next_permission_id db, usage_id = usage_oid perm_usage, parent = par, owner = account,
            perm_name = nm, last_updated = creation_time, auth = au\<rparr>
      in bind_r (tbl_create owner_key perm (permissions db)) (\<lambda>rows.
         Inr (perm, db\<lparr>permissions := rows, next_permission_id := next_permission_id db + 1\<rparr>)))"

definition modify_permission :: "'k permission_object \<Rightarrow> 'k authority \<Rightarrow> 'k auth_db \<Rightarrow> 'k auth_db" where
  "modify_permission p au db =
     db\<lparr>permissions := tbl_modify perm_id (perm_id p)
          (\<lambda>po. po\<lparr>auth := au, last_updated := pending_block_time db\<rparr>) (permissions db)\<rparr>"

definition remove_permission :: "'k permission_object \<Rightarrow> 'k auth_db \<Rightarrow> 'k auth_db result" where
  "remove_permission p db =
     bind_r (eos_assert (\<not> list_ex (\<lambda>c. parent c = perm_id p) (permissions db)) action_validate_exception) (\<lambda>_.
     bind_r (tbl_get usage_oid (usage_id p) (usages db)) (\<lambda>_.
     Inr (db\<lparr>usages := tbl_remove usage_oid (usage_id p) (usages db),
             permissions := tbl_remove perm_id (perm_id p) (permissions db)\<rparr>)))"

definition update_permission_usage :: "'k permission_object \<Rightarrow> 'k auth_db \<Rightarrow> 'k auth_db result" where
  "update_permission_usage p db =
     bind_r (tbl_get usage_oid (usage_id p) (usages db)) (\<lambda>puo.
     Inr (db\<lparr>usages := tbl_modify usage_oid (usage_oid puo) (\<lambda>u. u\<lparr>last_used := pending_block_time db\<rparr>) (usages db)\<rparr>))"

definition get_permission_last_used :: "'k permission_object \<Rightarrow> 'k auth_db \<Rightarrow> int result" where
  "get_permission_last_used p db = bind_r (tbl_get usage_oid (usage_id p) (usages db)) (\<lambda>u. Inr (last_used u))"

definition find_permission :: "permission_level \<Rightarrow> 'k auth_db \<Rightarrow> 'k permission_object option result" where
  "find_permission level db =
     bind_r (eos_assert (\<not> name_empty (actor level) \<and> \<not> name_empty (permission level)) invalid_permission) (\<lambda>_.
     Inr (tbl_find owner_key (actor level, permission level) (permissions db)))"

text \<open>A missing row is an \<open>out_of_range\<close> of the database, rethrown as \<open>permission_query_exception\<close>.\<close>

definition get_permission :: "permission_level \<Rightarrow> 'k auth_db \<Rightarrow> 'k permission_object result" where
  "get_permission level db =
     bind_r (eos_assert (\<not> name_empty (actor level) \<and> \<not> name_empty (permission level)) invalid_permission) (\<lambda>_.
     option_to_result permission_query_exception
       (tbl_find owner_key (actor level, permission level) (permissions db)))"

definition lookup_linked_permission :: "name \<Rightarrow> name \<Rightarrow> name \<Rightarrow> 'k auth_db \<Rightarrow> name option" where
  "lookup_linked_permission authorizer_account scope act_name db =
     (case tbl_find action_key (authorizer_account, scope, act_name) (links db) of
        Some link \<Rightarrow> Some (required_permission link)
      | None \<Rightarrow> map_option required_permission (tbl_find action_key (authorizer_account, scope, 0) (links db)))"

definition lookup_minimum_permission :: "name \<Rightarrow> name \<Rightarrow> name \<Rightarrow> 'k auth_db \<Rightarrow> name option result" where
  "lookup_minimum_permission authorizer_account scope act_name db =
     bind_r
       (if scope = system_account_name
        then eos_assert (act_name \<noteq> updateauth_name \<and> act_name \<noteq> deleteauth_name \<and> act_name \<noteq> linkauth_name
          \<and> act_name \<noteq> unlinkauth_name \<and> act_name \<noteq> canceldelay_name) unlinkable_min_permission_action
        else Inr ()) (\<lambda>_.
     Inr (case lookup_linked_permission authorizer_account scope act_name db of
            None \<Rightarrow> Some active_name
          | Some linked_permission \<Rightarrow> if linked_permission = eosio_any_name then None else Some linked_permission))"

subsection \<open>The native actions\<close>

record 'k updateauth =
  ua_account :: name
  ua_permission :: name
  ua_parent :: name
  ua_auth :: "'k authority"

record deleteauth =
  da_account :: name
  da_permission :: name

record linkauth =
  la_account :: name
  la_code :: name
  la_type :: name
  la_requirement :: name

record unlinkauth =
  ul_account :: name
  ul_code :: name
  ul_type :: name

record canceldelay =
  canceling_auth :: permission_level
  cd_trx_id :: nat

definition single_auth :: "permission_level list \<Rightarrow> permission_level result" where
  "single_auth auths = (case auths of [a] \<Rightarrow> Inr a | _ \<Rightarrow> Inl irrelevant_auth_exception)"

text \<open>The declared permission must be the wanted one or an ancestor of it.\<close>

definition require_satisfies :: "permission_level \<Rightarrow> 'k permission_object \<Rightarrow> 'k auth_db \<Rightarrow> unit result" where
  "require_satisfies a min_permission db =
     bind_r (get_permission a db) (\<lambda>p.
     bind_r (satisfies p min_permission (permissions db)) (\<lambda>b.
     eos_assert b irrelevant_auth_exception))"

definition check_updateauth_authorization :: "'k updateauth \<Rightarrow> permission_level list \<Rightarrow> 'k auth_db \<Rightarrow> unit result" where
  "check_updateauth_authorization update auths db =
     bind_r (single_auth auths) (\<lambda>a.
     bind_r (eos_assert (actor a = ua_account update) irrelevant_auth_exception) (\<lambda>_.
     bind_r (find_permission (permission_level (ua_account update) (ua_permission update)) db) (\<lambda>found.
     bind_r (case found of Some p \<Rightarrow> Inr p
             | None \<Rightarrow> get_permission (permission_level (ua_account update) (ua_parent update)) db) (\<lambda>min_permission.
     require_satisfies a min_permission db))))"

definition check_deleteauth_authorization :: "deleteauth \<Rightarrow> permission_level list \<Rightarrow> 'k auth_db \<Rightarrow> unit result" where
  "check_deleteauth_authorization del auths db =
     bind_r (single_auth auths) (\<lambda>a.
     bind_r (eos_assert (actor a = da_account del) irrelevant_auth_exception) (\<lambda>_.
     bind_r (get_permission (permission_level (da_account del) (da_permission del)) db) (\<lambda>min_permission.
     require_satisfies a min_permission db)))"

definition check_linkauth_authorization :: "linkauth \<Rightarrow> permission_level list \<Rightarrow> 'k auth_db \<Rightarrow> unit result" where
  "check_linkauth_authorization link auths db =
     bind_r (single_auth auths) (\<lambda>a.
     bind_r (eos_assert (actor a = la_account link) irrelevant_auth_exception) (\<lambda>_.
     bind_r (eos_assert (la_type link \<noteq> updateauth_name) action_validate_exception) (\<lambda>_.
     bind_r (eos_assert (la_type link \<noteq> deleteauth_name) action_validate_exception) (\<lambda>_.
     bind_r (eos_assert (la_type link \<noteq> linkauth_name) action_validate_exception) (\<lambda>_.
     bind_r (eos_assert (la_type link \<noteq> unlinkauth_name) action_validate_exception) (\<lambda>_.
     bind_r (eos_assert (la_type link \<noteq> canceldelay_name) action_validate_exception) (\<lambda>_.
     bind_r (lookup_minimum_permission (la_account link) (la_code link) (la_type link) db) (\<lambda>linked.
     case linked of
       None \<Rightarrow> Inr ()
     | Some linked_permission_name \<Rightarrow>
         bind_r (get_permission (permission_level (la_account link) linked_permission_name) db) (\<lambda>min_permission.
         require_satisfies a min_permission db)))))))))"

definition check_unlinkauth_authorization :: "unlinkauth \<Rightarrow> permission_level list \<Rightarrow> 'k auth_db \<Rightarrow> unit result" where
  "check_unlinkauth_authorization unlink auths db =
     bind_r (single_auth auths) (\<lambda>a.
     bind_r (eos_assert (actor a = ul_account unlink) irrelevant_auth_exception) (\<lambda>_.
     bind_r (option_to_result transaction_exception
        (lookup_linked_permission (ul_account unlink) (ul_code unlink) (ul_type unlink) db)) (\<lambda>unlinked.
     if unlinked = eosio_any_name then Inr ()
     else
       bind_r (get_permission (permission_level (ul_account unlink) unlinked) db) (\<lambda>min_permission.
       require_satisfies a min_permission db))))"

definition check_canceldelay_authorization :: "canceldelay \<Rightarrow> permission_level list \<Rightarrow> 'k auth_db \<Rightarrow> int result" where
  "check_canceldelay_authorization cancel auths db =
     bind_r (single_auth auths) (\<lambda>a.
     bind_r (get_permission a db) (\<lambda>p.
     bind_r (get_permission (canceling_auth cancel) db) (\<lambda>min_permission.
     bind_r (satisfies p min_permission (permissions db)) (\<lambda>b.
     bind_r (eos_assert b irrelevant_auth_exception) (\<lambda>_.
     bind_r (option_to_result tx_not_found (tbl_find trx_id (cd_trx_id cancel) (generated db))) (\<lambda>itr.
     bind_r (eos_assert (sender itr = 0) tx_not_found) (\<lambda>_.
     bind_r (eos_assert (list_ex (list_ex (\<lambda>x. x = canceling_auth cancel)) (trx_authorizations itr))
        action_validate_exception) (\<lambda>_.
     Inr (delay_until itr - published itr)))))))))"

subsection \<open>Checking a transaction\<close>

record 'd action =
  act_account :: name
  act_name :: name
  authorization :: "permission_level list"
  data :: 'd

text \<open>Unpacking of the action data (\<open>data_as\<close>), a parameter.\<close>

record ('k, 'd) native_data =
  as_updateauth :: "'d \<Rightarrow> 'k updateauth result"
  as_deleteauth :: "'d \<Rightarrow> deleteauth result"
  as_linkauth :: "'d \<Rightarrow> linkauth result"
  as_unlinkauth :: "'d \<Rightarrow> unlinkauth result"
  as_canceldelay :: "'d \<Rightarrow> canceldelay result"

definition make_auth_checker :: "'k list \<Rightarrow> permission_level list \<Rightarrow> 'k auth_db \<Rightarrow> 'k authority_checker" where
  "make_auth_checker ks perms db =
     \<lparr>permission_to_authority = (\<lambda>p. bind_r (get_permission p db) (\<lambda>r. Inr (auth r))),
      provided_keys = ks, provided_permissions = perms, recursion_depth_limit = max_authority_depth db\<rparr>"

definition microseconds_maximum :: int where "microseconds_maximum = 2 ^ 63 - 1"

definition effective_delay :: "int \<Rightarrow> 'k auth_db \<Rightarrow> int" where
  "effective_delay provided_delay db =
     (if provided_delay \<ge> int (max_transaction_delay db) * 1000000 then microseconds_maximum else provided_delay)"

text \<open>The special cases of the native actions: whether the action is one, and the delay it gets.\<close>

definition check_native :: "('k, 'd) native_data \<Rightarrow> 'd action \<Rightarrow> int \<Rightarrow> 'k auth_db \<Rightarrow> (bool \<times> int) result" where
  "check_native nd act delay db =
     (if act_account act \<noteq> system_account_name then Inr (False, delay)
      else if act_name act = updateauth_name then
        bind_r (as_updateauth nd (data act)) (\<lambda>u.
        bind_r (check_updateauth_authorization u (authorization act) db) (\<lambda>_. Inr (True, delay)))
      else if act_name act = deleteauth_name then
        bind_r (as_deleteauth nd (data act)) (\<lambda>d.
        bind_r (check_deleteauth_authorization d (authorization act) db) (\<lambda>_. Inr (True, delay)))
      else if act_name act = linkauth_name then
        bind_r (as_linkauth nd (data act)) (\<lambda>l.
        bind_r (check_linkauth_authorization l (authorization act) db) (\<lambda>_. Inr (True, delay)))
      else if act_name act = unlinkauth_name then
        bind_r (as_unlinkauth nd (data act)) (\<lambda>l.
        bind_r (check_unlinkauth_authorization l (authorization act) db) (\<lambda>_. Inr (True, delay)))
      else if act_name act = canceldelay_name then
        bind_r (as_canceldelay nd (data act)) (\<lambda>c.
        bind_r (check_canceldelay_authorization c (authorization act) db) (\<lambda>d. Inr (True, max delay d)))
      else Inr (False, delay))"

definition add_to_satisfy :: "permission_level \<Rightarrow> int \<Rightarrow> (permission_level \<times> int) list \<Rightarrow> (permission_level \<times> int) list" where
  "add_to_satisfy p delay m =
     (case map_of m p of
        None \<Rightarrow> flat_set p delay m
      | Some d \<Rightarrow> if d > delay then flat_set p delay m else m)"

definition check_relevant :: "'d action \<Rightarrow> permission_level \<Rightarrow> 'k auth_db \<Rightarrow> unit result" where
  "check_relevant act declared_auth db =
     bind_r (lookup_minimum_permission (actor declared_auth) (act_account act) (act_name act) db) (\<lambda>min_permission_name.
     case min_permission_name of
       None \<Rightarrow> Inr ()
     | Some n \<Rightarrow>
         bind_r (get_permission (permission_level (actor declared_auth) n) db) (\<lambda>min_permission.
         require_satisfies declared_auth min_permission db))"

definition check_declared ::
    "bool \<Rightarrow> 'd action \<Rightarrow> int \<Rightarrow> 'k auth_db \<Rightarrow> permission_level \<Rightarrow> (permission_level \<times> int) list \<Rightarrow> (permission_level \<times> int) list result" where
  "check_declared special_case act delay db declared_auth m =
     bind_r (if special_case then Inr () else check_relevant act declared_auth db) (\<lambda>_.
     Inr (add_to_satisfy declared_auth delay m))"

definition check_action ::
    "('k, 'd) native_data \<Rightarrow> int \<Rightarrow> 'k auth_db \<Rightarrow> 'd action \<Rightarrow> (permission_level \<times> int) list \<Rightarrow> (permission_level \<times> int) list result" where
  "check_action nd delay db act m =
     bind_r (check_native nd act delay db) (\<lambda>(special_case, delay).
     fold_r (check_declared special_case act delay db) (authorization act) m)"

definition require_satisfied :: "'k authority_checker \<Rightarrow> permission_level \<times> int \<Rightarrow> bool list \<Rightarrow> bool list result" where
  "require_satisfied c pd used =
     (case satisfied c (snd pd) (fst pd) used of
        (Inl e, _) \<Rightarrow> Inl e
      | (Inr b, used) \<Rightarrow> if b then Inr used else Inl unsatisfied_authorization)"

definition check_authorization ::
    "('k, 'd) native_data \<Rightarrow> 'd action list \<Rightarrow> 'k list \<Rightarrow> permission_level list \<Rightarrow> int \<Rightarrow> bool \<Rightarrow> 'k auth_db \<Rightarrow> unit result" where
  "check_authorization nd actions ks perms provided_delay allow_unused_keys db =
     (let checker = make_auth_checker ks perms db in
      bind_r (fold_r (check_action nd (effective_delay provided_delay db) db) actions []) (\<lambda>permissions_to_satisfy.
      bind_r (fold_r (require_satisfied checker) permissions_to_satisfy (make_used_keys ks)) (\<lambda>used.
      if allow_unused_keys then Inr () else eos_assert (all_keys_used used) tx_irrelevant_sig)))"

definition check_authorization_permission ::
    "name \<Rightarrow> name \<Rightarrow> 'k list \<Rightarrow> permission_level list \<Rightarrow> int \<Rightarrow> bool \<Rightarrow> 'k auth_db \<Rightarrow> unit result" where
  "check_authorization_permission account perm ks perms provided_delay allow_unused_keys db =
     bind_r (require_satisfied (make_auth_checker ks perms db)
        (permission_level account perm, effective_delay provided_delay db) (make_used_keys ks)) (\<lambda>used.
     if allow_unused_keys then Inr () else eos_assert (all_keys_used used) tx_irrelevant_sig)"

definition get_required_keys :: "'d action list \<Rightarrow> 'k list \<Rightarrow> int \<Rightarrow> 'k auth_db \<Rightarrow> 'k list result" where
  "get_required_keys actions candidate_keys provided_delay db =
     (let checker = make_auth_checker candidate_keys [] db in
      bind_r (fold_r (\<lambda>act. fold_r (\<lambda>p. require_satisfied checker (p, provided_delay)) (authorization act))
        actions (make_used_keys candidate_keys)) (\<lambda>used.
      Inr (used_keys checker used)))"

section \<open>The permission trees\<close>

text \<open>
  Parents come before their children, row 0 is its own parent, ids are unique: each walk up ends.
\<close>

definition forest_ok :: "'k auth_db \<Rightarrow> bool" where
  "forest_ok db \<longleftrightarrow> tbl_unique perm_id (permissions db) \<and> tbl_unique owner_key (permissions db)
     \<and> (\<forall>r\<in>set (permissions db). perm_id r < next_permission_id db
         \<and> (\<exists>p\<in>set (permissions db). perm_id p = parent r)
         \<and> (if perm_id r = 0 then parent r = 0 \<and> owner r = 0 else parent r < perm_id r))"

definition parent_rel :: "'k permission_object list \<Rightarrow> (nat \<times> nat) set" where
  "parent_rel rows = {(perm_id r, parent r) |r. r \<in> set rows \<and> perm_id r \<noteq> 0}"

lemma forest_lookup:
  assumes "forest_ok db" and "r \<in> set (permissions db)"
  shows "tbl_find perm_id (perm_id r) (permissions db) = Some r"
  using assms tbl_find_unique by (simp add: forest_ok_def tbl_find_unique)

lemma parent_rel_step:
  assumes "forest_ok db" and "r \<in> set (permissions db)" and "perm_id r \<noteq> 0"
  shows "(perm_id r, q) \<in> parent_rel (permissions db) \<longleftrightarrow> q = parent r"
proof
  assume "(perm_id r, q) \<in> parent_rel (permissions db)"
  then obtain r' where r': "r' \<in> set (permissions db)" "perm_id r' = perm_id r" "parent r' = q"
    by (auto simp: parent_rel_def)
  then have "r' = r" using forest_lookup [OF assms(1)] assms(2) by (metis option.inject)
  then show "q = parent r" using r'(3) by simp
qed (use assms in \<open>auto simp: parent_rel_def\<close>)

lemma parent_rel_0: "(0, q) \<notin> parent_rel rows"
  by (auto simp: parent_rel_def)

text \<open>The walk decides reachability upwards; the rows with a smaller id bound its length.\<close>

lemma walk_spec:
  assumes ok: "forest_ok db" and "q \<in> perm_id ` set (permissions db)" and "i \<noteq> 0"
    and "card {x \<in> perm_id ` set (permissions db). x \<le> q} \<le> fuel"
  shows "walk (permissions db) i q fuel = Inr ((q, i) \<in> (parent_rel (permissions db))\<^sup>+)"
  using assms(2-)
proof (induction q arbitrary: fuel rule: less_induct)
  case (less q)
  let ?rows = "permissions db" and ?R = "parent_rel (permissions db)"
  let ?ids = "\<lambda>q. {x \<in> perm_id ` set (permissions db). x \<le> q}"
  obtain r where r: "r \<in> set ?rows" "perm_id r = q" using less.prems(1) by blast
  have fin: "finite (?ids q)" by simp
  have "q \<in> ?ids q" using less.prems(1) by simp
  then have "card (?ids q) \<noteq> 0" using fin by (auto simp only: card_eq_0_iff)
  then obtain f where f: "fuel = Suc f" using less.prems(3) by (cases fuel) auto
  have find: "tbl_find perm_id q ?rows = Some r" using forest_lookup [OF ok r(1)] r(2) by simp
  show ?case
  proof (cases "q = 0")
    case True
    then have "parent r = 0" using ok r by (auto simp: forest_ok_def)
    moreover have "(q, i) \<notin> ?R\<^sup>+" using True parent_rel_0 by (metis tranclD)
    ultimately show ?thesis using f find less.prems(2) by simp
  next
    case False
    then have lt: "parent r < q" and par: "parent r \<in> perm_id ` set ?rows"
      using ok r by (auto simp: forest_ok_def) force
    have step: "(q, x) \<in> ?R \<longleftrightarrow> x = parent r" for x
      using parent_rel_step [OF ok r(1)] r(2) False by simp
    have up: "(q, i) \<in> ?R\<^sup>+ \<longleftrightarrow> i = parent r \<or> (parent r, i) \<in> ?R\<^sup>+"
      by (metis step tranclD trancl.r_into_trancl trancl_into_trancl2 rtranclD)
    have "?ids (parent r) \<subseteq> ?ids q" "q \<notin> ?ids (parent r)" using lt by auto
    then have "?ids (parent r) \<subset> ?ids q" using \<open>q \<in> ?ids q\<close> by blast
    then have "card (?ids (parent r)) < card (?ids q)" using fin by (simp add: psubset_card_mono)
    then have "walk ?rows i (parent r) f = Inr ((parent r, i) \<in> ?R\<^sup>+)"
      using less.IH [OF lt par less.prems(2)] less.prems(3) f by simp
    moreover have "(parent r, i) \<notin> ?R\<^sup>+" if "parent r = 0" using that parent_rel_0 by (metis tranclD)
    ultimately show ?thesis using f find up by simp
  qed
qed

lemma satisfies_spec:
  assumes ok: "forest_ok db" and o: "other \<in> set (permissions db)" and i: "perm_id p \<noteq> 0" "perm_id other \<noteq> 0"
  shows "satisfies p other (permissions db) =
    Inr (owner p = owner other \<and> (perm_id other, perm_id p) \<in> (parent_rel (permissions db))\<^sup>*)"
proof -
  let ?R = "parent_rel (permissions db)"
  have par: "parent other \<in> perm_id ` set (permissions db)" using ok o by (force simp: forest_ok_def)
  have "card {x \<in> perm_id ` set (permissions db). x \<le> parent other} \<le> card (perm_id ` set (permissions db))"
    by (intro card_mono) auto
  also have "\<dots> \<le> card (set (permissions db))" by (intro card_image_le) simp
  also have "\<dots> \<le> length (permissions db)" by (rule card_length)
  finally have w: "walk (permissions db) (perm_id p) (parent other) (length (permissions db)) = Inr ((parent other, perm_id p) \<in> ?R\<^sup>+)"
    by (intro walk_spec [OF ok par i(1)])
  have step: "(perm_id other, x) \<in> ?R \<longleftrightarrow> x = parent other" for x using parent_rel_step [OF ok o i(2)] .
  have "(perm_id other, perm_id p) \<in> ?R\<^sup>* \<longleftrightarrow> perm_id p = perm_id other \<or> perm_id p = parent other \<or> (parent other, perm_id p) \<in> ?R\<^sup>+"
    by (metis step converse_rtranclE rtrancl.rtrancl_refl rtranclD trancl_into_rtrancl converse_rtrancl_into_rtrancl)
  then show ?thesis using w by (auto simp: satisfies_def)
qed

subsection \<open>The operations keep the trees\<close>

lemma create_permission_ok:
  assumes ok: "forest_ok db" and par: "par \<in> perm_id ` set (permissions db)" and pos: "0 < next_permission_id db"
    and run: "create_permission account nm par au t db = Inr (p, db')"
  shows "forest_ok db' \<and> permissions db' = permissions db @ [p] \<and> owner_key p = (account, nm) \<and> parent p = par
    \<and> perm_id p = next_permission_id db \<and> auth p = au \<and> next_permission_id db' = next_permission_id db + 1"
proof -
  have new: "tbl_find owner_key (account, nm) (permissions db) = None" "owner_key p = (account, nm)"
    and db': "permissions db' = permissions db @ [p]" "next_permission_id db' = next_permission_id db + 1"
    and p: "perm_id p = next_permission_id db" "parent p = par" "auth p = au"
    using run by (auto simp: create_permission_def Let_def result_simps tbl_create_eq_Inr owner_key_def)
  have lt: "\<forall>r\<in>set (permissions db). perm_id r < next_permission_id db" using ok by (simp add: forest_ok_def)
  then have "tbl_find perm_id (perm_id p) (permissions db) = None" using p(1) by (auto simp: tbl_find_None)
  then have u: "tbl_unique perm_id (permissions db')" "tbl_unique owner_key (permissions db')"
    using ok new db' tbl_unique_create [of perm_id "permissions db" p] tbl_unique_create [of owner_key "permissions db" p]
    by (simp_all add: forest_ok_def)
  have parlt: "par < next_permission_id db" using par lt by auto
  have "\<forall>r\<in>set (permissions db'). perm_id r < next_permission_id db' \<and> (\<exists>q\<in>set (permissions db'). perm_id q = parent r)
      \<and> (if perm_id r = 0 then parent r = 0 \<and> owner r = 0 else parent r < perm_id r)"
    using ok par p parlt pos unfolding db' forest_ok_def by force
  then show ?thesis using u new(2) db' p parlt pos by (simp add: forest_ok_def)
qed

text \<open>The invariant only looks at the shape of the rows.\<close>

definition shape :: "'k permission_object \<Rightarrow> nat \<times> nat \<times> name \<times> name" where
  "shape r = (perm_id r, parent r, owner_key r)"

lemma forest_ok_shape:
  "forest_ok db \<longleftrightarrow> (let sh = map shape (permissions db) in distinct (map fst sh) \<and> distinct (map (snd \<circ> snd) sh)
     \<and> (\<forall>x\<in>set sh. fst x < next_permission_id db \<and> fst (snd x) \<in> fst ` set sh
         \<and> (if fst x = 0 then fst (snd x) = 0 \<and> fst (snd (snd x)) = 0 else fst (snd x) < fst x)))"
proof -
  have "(\<exists>q\<in>set (permissions db). perm_id q = parent r) \<longleftrightarrow> parent r \<in> perm_id ` set (permissions db)" for r :: "'a permission_object"
    by (metis image_iff)
  moreover have "fst ` set (map shape (permissions db)) = perm_id ` set (permissions db)"
    by (simp add: shape_def image_image)
  ultimately show ?thesis by (simp add: forest_ok_def tbl_unique_def Let_def) (simp add: shape_def owner_key_def [abs_def] comp_def)
qed

lemma forest_ok_cong:
  assumes "map shape (permissions db') = map shape (permissions db)" and "next_permission_id db' = next_permission_id db"
  shows "forest_ok db' \<longleftrightarrow> forest_ok db"
  by (simp only: forest_ok_shape assms)

lemma modify_permission_ok: "forest_ok (modify_permission p au db) \<longleftrightarrow> forest_ok db"
  by (rule forest_ok_cong) (auto simp: modify_permission_def tbl_modify_def shape_def owner_key_def)

lemma remove_permission_ok:
  assumes ok: "forest_ok db" and run: "remove_permission p db = Inr db'"
  shows "forest_ok db' \<and> permissions db' = filter (\<lambda>r. perm_id r \<noteq> perm_id p) (permissions db)"
proof -
  have nochild: "\<forall>c\<in>set (permissions db). parent c \<noteq> perm_id p"
    and db': "permissions db' = tbl_remove perm_id (perm_id p) (permissions db)" "next_permission_id db' = next_permission_id db"
    using run by (auto simp: remove_permission_def result_simps list_ex_iff)
  have "tbl_unique perm_id (permissions db')" "tbl_unique owner_key (permissions db')"
    using ok unfolding db' by (auto simp: forest_ok_def tbl_unique_def tbl_remove_def distinct_map_filter)
  moreover have "\<forall>r\<in>set (permissions db'). \<exists>q\<in>set (permissions db'). perm_id q = parent r"
    using ok nochild by (fastforce simp: db' tbl_remove_def forest_ok_def)
  ultimately show ?thesis using ok by (auto simp: forest_ok_def db' tbl_remove_def)
qed

section \<open>Entitlement\<close>

lemma granted_mono:
  assumes "delay \<le> delay'" and "\<And>p. good p \<Longrightarrow> good' p"
  shows "granted c delay good x \<le> granted c delay' good' x"
  using assms by (cases x) auto

lemma granted_weight_mono:
  assumes "delay \<le> delay'" and "\<And>p. good p \<Longrightarrow> good' p"
  shows "granted_weight c delay good a \<le> granted_weight c delay' good' a"
  unfolding granted_weight_def by (rule sum_list_mono) (rule granted_mono [OF assms])

text \<open>A longer delay never takes an entitlement away.\<close>

lemma entitled_mono: "entitled c delay p \<Longrightarrow> delay \<le> delay' \<Longrightarrow> entitled c delay' p"
proof (induction rule: entitled.induct)
  case (entitled_authority p auth good)
  have "threshold auth \<le> granted_weight c delay' good auth"
    by (rule order_trans [OF entitled_authority.hyps(3) granted_weight_mono [OF entitled_authority.prems]])
  then show ?case using entitled.entitled_authority [of c p auth good delay'] entitled_authority by simp
qed (auto intro: entitled.intros)

lemma make_auth_checker_named: "named_lookup (make_auth_checker ks perms db)"
  by (auto simp: named_lookup_def make_auth_checker_def get_permission_def name_empty_def bind_r_def)

lemma map_of_add_to_satisfy:
  "map_of (add_to_satisfy p delay m) =
     (map_of m)(p \<mapsto> (case map_of m p of None \<Rightarrow> delay | Some d \<Rightarrow> min d delay))"
  by (auto simp: add_to_satisfy_def map_of_flat_set fun_eq_iff min_def split: option.split)

lemma flat_ok_add_to_satisfy: "flat_ok m \<Longrightarrow> flat_ok (add_to_satisfy p delay m)"
  by (simp add: add_to_satisfy_def flat_ok_set split: option.split)

text \<open>The map of permissions to satisfy: every declared permission is there with a delay that is not larger.\<close>

definition covers :: "(permission_level \<times> int) list \<Rightarrow> permission_level \<Rightarrow> int \<Rightarrow> bool" where
  "covers m p delay \<longleftrightarrow> (\<exists>d. map_of m p = Some d \<and> d \<le> delay)"

lemma covers_add: "covers (add_to_satisfy p delay m) p delay"
  by (auto simp: covers_def map_of_add_to_satisfy split: option.split)

lemma covers_mono: "covers m q d \<Longrightarrow> covers (add_to_satisfy p delay m) q d"
  by (auto simp: covers_def map_of_add_to_satisfy split: option.split)

lemma check_declared_loop:
  assumes "fold_r (check_declared special_case act delay db) ps m = Inr m'"
  shows "(\<forall>q d. covers m q d \<longrightarrow> covers m' q d)
    \<and> (\<forall>p\<in>set ps. covers m' p delay \<and> (\<not> special_case \<longrightarrow> check_relevant act p db = Inr ())) \<and> (flat_ok m \<longrightarrow> flat_ok m')"
  using assms
proof (induction ps arbitrary: m)
  case Nil
  then show ?case by simp
next
  case (Cons p ps)
  obtain m1 where step: "check_declared special_case act delay db p m = Inr m1"
    and loop: "fold_r (check_declared special_case act delay db) ps m1 = Inr m'"
    using Cons.prems by (auto simp: result_simps)
  have rel: "\<not> special_case \<longrightarrow> check_relevant act p db = Inr ()" and m1: "m1 = add_to_satisfy p delay m"
    using step by (auto simp: check_declared_def result_simps split: if_splits)
  have rest: "fold_r (check_declared special_case act delay db) ps (add_to_satisfy p delay m) = Inr m'"
    using loop m1 by simp
  from Cons.IH [OF rest] rel covers_add [of p delay m] covers_mono [of m] flat_ok_add_to_satisfy [of m p delay]
  show ?case by auto
qed

text \<open>What an action's check establishes.\<close>

definition action_checked :: "('k, 'd) native_data \<Rightarrow> int \<Rightarrow> 'k auth_db \<Rightarrow> (permission_level \<times> int) list \<Rightarrow> 'd action \<Rightarrow> bool" where
  "action_checked nd delay db m act \<longleftrightarrow> (\<exists>special_case d. check_native nd act delay db = Inr (special_case, d)
     \<and> (\<forall>p\<in>set (authorization act). covers m p d \<and> (\<not> special_case \<longrightarrow> check_relevant act p db = Inr ())))"

lemma check_action_loop:
  assumes "fold_r (check_action nd delay db) acts m = Inr m'"
  shows "(\<forall>q d. covers m q d \<longrightarrow> covers m' q d) \<and> (\<forall>act\<in>set acts. action_checked nd delay db m' act)
    \<and> (flat_ok m \<longrightarrow> flat_ok m')"
  using assms
proof (induction acts arbitrary: m)
  case Nil
  then show ?case by simp
next
  case (Cons act acts)
  obtain m1 where step: "check_action nd delay db act m = Inr m1"
    and rest: "fold_r (check_action nd delay db) acts m1 = Inr m'"
    using Cons.prems by (auto simp: result_simps)
  obtain sc d where n: "check_native nd act delay db = Inr (sc, d)"
    and l: "fold_r (check_declared sc act d db) (authorization act) m = Inr m1"
    using step by (auto simp: check_action_def result_simps)
  note one = check_declared_loop [OF l] and more = Cons.IH [OF rest]
  have "action_checked nd delay db m' act" using n one more by (auto simp: action_checked_def)
  then show ?case using one more by auto
qed

lemma require_satisfied_loop:
  assumes "fold_r (require_satisfied c) m used = Inr used'" and "named_lookup c"
  shows "(\<forall>pd\<in>set m. entitled c (snd pd) (fst pd)) \<and> marks_kept used used'"
  using assms(1)
proof (induction m arbitrary: used)
  case Nil
  then show ?case by simp
next
  case (Cons pd m)
  obtain used1 where step: "require_satisfied c pd used = Inr used1" and rest: "fold_r (require_satisfied c) m used1 = Inr used'"
    using Cons.prems by (auto simp: result_simps)
  have s: "satisfied c (snd pd) (fst pd) used = (Inr True, used1)"
    using step by (auto simp: require_satisfied_def split: prod.splits sum.splits if_splits)
  from checker_grants_only_entitled_aux [OF assms(2) s] Cons.IH [OF rest] marks_trans show ?case by auto
qed

text \<open>What the comparison with the least permission establishes.\<close>

lemma get_permission_row:
  assumes "get_permission level db = Inr r"
  shows "r \<in> set (permissions db) \<and> owner_key r = (actor level, permission level) \<and> owner r \<noteq> 0"
proof -
  have f: "tbl_find owner_key (actor level, permission level) (permissions db) = Some r" and n: "actor level \<noteq> 0"
    using assms by (auto simp: get_permission_def name_empty_def result_simps option_to_result_def split: option.splits)
  then show ?thesis using tbl_find_Some [OF f] n by (auto simp: owner_key_def)
qed

definition at_least :: "'k auth_db \<Rightarrow> permission_level \<Rightarrow> permission_level \<Rightarrow> bool" where
  "at_least db a b \<longleftrightarrow> (\<exists>p q. get_permission a db = Inr p \<and> get_permission b db = Inr q \<and> actor a = actor b
     \<and> (perm_id q, perm_id p) \<in> (parent_rel (permissions db))\<^sup>*)"

lemma require_satisfies_spec:
  assumes "forest_ok db" and "get_permission b db = Inr q"
  shows "require_satisfies a q db = Inr () \<longleftrightarrow> at_least db a b"
proof (cases "get_permission a db")
  case (Inl e)
  then show ?thesis by (simp add: require_satisfies_def at_least_def bind_r_def)
next
  case (Inr p)
  note p = get_permission_row [OF Inr] and q = get_permission_row [OF assms(2)]
  have "perm_id p \<noteq> 0" "perm_id q \<noteq> 0" using p q assms(1) by (metis forest_ok_def)+
  then have s: "satisfies p q (permissions db) =
      Inr (owner p = owner q \<and> (perm_id q, perm_id p) \<in> (parent_rel (permissions db))\<^sup>*)"
    using satisfies_spec [OF assms(1), of q p] q by blast
  have "owner p = actor a" "owner q = actor b" using p q by (auto simp: owner_key_def)
  then show ?thesis using Inr s assms(2) by (auto simp: require_satisfies_def at_least_def result_simps)
qed

text \<open>An authorization is relevant to an action when it is the least permission the account asks for, or an ancestor.\<close>

definition relevant :: "'k auth_db \<Rightarrow> 'd action \<Rightarrow> permission_level \<Rightarrow> bool" where
  "relevant db act p \<longleftrightarrow> (case lookup_minimum_permission (actor p) (act_account act) (act_name act) db of
     Inl _ \<Rightarrow> False | Inr None \<Rightarrow> True | Inr (Some n) \<Rightarrow> at_least db p (permission_level (actor p) n))"

lemma check_relevant_spec: "forest_ok db \<Longrightarrow> check_relevant act p db = Inr () \<longleftrightarrow> relevant db act p"
  by (auto simp: check_relevant_def relevant_def bind_r_def require_satisfies_spec at_least_def split: sum.split option.split)

lemma check_authorization_entitles:
  assumes ok: "forest_ok db" and run: "check_authorization nd actions ks perms delay allow_unused db = Inr ()"
  shows "\<forall>act\<in>set actions. \<exists>special_case d. check_native nd act (effective_delay delay db) db = Inr (special_case, d)
      \<and> effective_delay delay db \<le> d \<and> (\<forall>p\<in>set (authorization act). entitled (make_auth_checker ks perms db) d p
          \<and> (\<not> special_case \<longrightarrow> relevant db act p))"
proof -
  let ?c = "make_auth_checker ks perms db" and ?d = "effective_delay delay db"
  obtain m used where m: "fold_r (check_action nd ?d db) actions [] = Inr m"
    and used: "fold_r (require_satisfied ?c) m (make_used_keys ks) = Inr used"
    using run by (auto simp: check_authorization_def result_simps split: if_splits)
  have ent: "entitled ?c d p" if "covers m p d" for p d
  proof -
    obtain d' where "map_of m p = Some d'" "d' \<le> d" using \<open>covers m p d\<close> by (auto simp: covers_def)
    then show ?thesis using require_satisfied_loop [OF used make_auth_checker_named] map_of_SomeD entitled_mono by fastforce
  qed
  have "\<exists>special_case d. check_native nd act ?d db = Inr (special_case, d) \<and> ?d \<le> d
      \<and> (\<forall>p\<in>set (authorization act). entitled ?c d p \<and> (\<not> special_case \<longrightarrow> relevant db act p))" if "act \<in> set actions" for act
  proof -
    obtain sc d where n: "check_native nd act ?d db = Inr (sc, d)"
      and p: "\<forall>p\<in>set (authorization act). covers m p d \<and> (\<not> sc \<longrightarrow> check_relevant act p db = Inr ())"
      using check_action_loop [OF m] \<open>act \<in> set actions\<close> by (auto simp: action_checked_def)
    have "?d \<le> d" using n by (auto simp: check_native_def result_simps split: if_splits)
    then show ?thesis using n p ent check_relevant_spec [OF ok] by blast
  qed
  then show ?thesis by blast
qed

subsection \<open>The rules of the native actions\<close>

text \<open>The actions of the system account that have a rule of their own and cannot be linked.\<close>

definition special_action :: "'d action \<Rightarrow> bool" where
  "special_action act \<longleftrightarrow> act_account act = system_account_name
     \<and> act_name act \<in> {updateauth_name, deleteauth_name, linkauth_name, unlinkauth_name, canceldelay_name}"

text \<open>
  What each of them asks for: a single authorization of the affected account, by the permission that is changed,
  deleted, linked or unlinked, or by an ancestor of it; a permission that does not exist yet is created under the
  authority of its parent; a delayed transaction is cancelled by a permission above one that authorized it.
\<close>

definition updateauth_rule :: "'k updateauth \<Rightarrow> permission_level \<Rightarrow> 'k auth_db \<Rightarrow> bool" where
  "updateauth_rule u a db \<longleftrightarrow> actor a = ua_account u
     \<and> at_least db a (permission_level (ua_account u)
         (if tbl_find owner_key (ua_account u, ua_permission u) (permissions db) = None then ua_parent u else ua_permission u))"

definition deleteauth_rule :: "deleteauth \<Rightarrow> permission_level \<Rightarrow> 'k auth_db \<Rightarrow> bool" where
  "deleteauth_rule d a db \<longleftrightarrow> actor a = da_account d \<and> at_least db a (permission_level (da_account d) (da_permission d))"

definition linkauth_rule :: "linkauth \<Rightarrow> permission_level \<Rightarrow> 'k auth_db \<Rightarrow> bool" where
  "linkauth_rule l a db \<longleftrightarrow> actor a = la_account l
     \<and> la_type l \<notin> {updateauth_name, deleteauth_name, linkauth_name, unlinkauth_name, canceldelay_name}
     \<and> (lookup_minimum_permission (la_account l) (la_code l) (la_type l) db = Inr None
        \<or> (\<exists>n. lookup_minimum_permission (la_account l) (la_code l) (la_type l) db = Inr (Some n)
              \<and> at_least db a (permission_level (la_account l) n)))"

definition unlinkauth_rule :: "unlinkauth \<Rightarrow> permission_level \<Rightarrow> 'k auth_db \<Rightarrow> bool" where
  "unlinkauth_rule l a db \<longleftrightarrow> actor a = ul_account l
     \<and> (\<exists>n. lookup_linked_permission (ul_account l) (ul_code l) (ul_type l) db = Some n
          \<and> (n = eosio_any_name \<or> at_least db a (permission_level (ul_account l) n)))"

definition canceldelay_rule :: "canceldelay \<Rightarrow> permission_level \<Rightarrow> 'k auth_db \<Rightarrow> int \<Rightarrow> bool" where
  "canceldelay_rule c a db d \<longleftrightarrow> at_least db a (canceling_auth c)
     \<and> (\<exists>g. tbl_find trx_id (cd_trx_id c) (generated db) = Some g \<and> sender g = 0
          \<and> (\<exists>as\<in>set (trx_authorizations g). canceling_auth c \<in> set as) \<and> d = delay_until g - published g)"

definition native_rule :: "('k, 'd) native_data \<Rightarrow> 'd action \<Rightarrow> int \<Rightarrow> 'k auth_db \<Rightarrow> int \<Rightarrow> bool" where
  "native_rule nd act delay db d \<longleftrightarrow> (\<exists>a. authorization act = [a] \<and>
     (if act_name act = updateauth_name then \<exists>u. as_updateauth nd (data act) = Inr u \<and> updateauth_rule u a db \<and> d = delay
      else if act_name act = deleteauth_name then \<exists>x. as_deleteauth nd (data act) = Inr x \<and> deleteauth_rule x a db \<and> d = delay
      else if act_name act = linkauth_name then \<exists>l. as_linkauth nd (data act) = Inr l \<and> linkauth_rule l a db \<and> d = delay
      else if act_name act = unlinkauth_name then \<exists>l. as_unlinkauth nd (data act) = Inr l \<and> unlinkauth_rule l a db \<and> d = delay
      else \<exists>c e. as_canceldelay nd (data act) = Inr c \<and> canceldelay_rule c a db e \<and> d = max delay e))"

lemma single_auth_Inr [simp]: "single_auth as = Inr a \<longleftrightarrow> as = [a]"
  by (auto simp: single_auth_def split: list.splits)

lemma updateauth_checked:
  assumes "forest_ok db" and "check_updateauth_authorization u as db = Inr ()"
  shows "\<exists>a. as = [a] \<and> updateauth_rule u a db"
proof -
  obtain a found p where a: "as = [a]" "actor a = ua_account u"
    and f: "find_permission (permission_level (ua_account u) (ua_permission u)) db = Inr found"
    and p: "(case found of Some p \<Rightarrow> Inr p | None \<Rightarrow> get_permission (permission_level (ua_account u) (ua_parent u)) db) = Inr p"
    and r: "require_satisfies a p db = Inr ()"
    using assms(2) by (auto simp: check_updateauth_authorization_def result_simps)
  let ?n = "if tbl_find owner_key (ua_account u, ua_permission u) (permissions db) = None then ua_parent u else ua_permission u"
  have "get_permission (permission_level (ua_account u) ?n) db = Inr p"
    using f p by (auto simp: find_permission_def get_permission_def result_simps split: option.splits)
  then show ?thesis using a r require_satisfies_spec [OF assms(1)] by (auto simp: updateauth_rule_def)
qed

lemma deleteauth_checked:
  assumes "forest_ok db" and "check_deleteauth_authorization x as db = Inr ()"
  shows "\<exists>a. as = [a] \<and> deleteauth_rule x a db"
  using assms(2) require_satisfies_spec [OF assms(1)]
  by (auto simp: check_deleteauth_authorization_def result_simps deleteauth_rule_def)

lemma linkauth_checked:
  assumes "forest_ok db" and "check_linkauth_authorization l as db = Inr ()"
  shows "\<exists>a. as = [a] \<and> linkauth_rule l a db"
  using assms(2) require_satisfies_spec [OF assms(1)]
  by (auto simp: check_linkauth_authorization_def result_simps linkauth_rule_def split: option.splits)

lemma unlinkauth_checked:
  assumes "forest_ok db" and "check_unlinkauth_authorization l as db = Inr ()"
  shows "\<exists>a. as = [a] \<and> unlinkauth_rule l a db"
  using assms(2) require_satisfies_spec [OF assms(1)]
  by (auto simp: check_unlinkauth_authorization_def result_simps unlinkauth_rule_def option_to_result_def split: option.splits if_splits)

lemma canceldelay_checked:
  assumes "forest_ok db" and "check_canceldelay_authorization c as db = Inr d"
  shows "\<exists>a. as = [a] \<and> canceldelay_rule c a db d"
proof -
  obtain a p q g where a: "as = [a]" and q: "get_permission (canceling_auth c) db = Inr q" and "get_permission a db = Inr p"
    and "satisfies p q (permissions db) = Inr True"
    and g: "tbl_find trx_id (cd_trx_id c) (generated db) = Some g" "sender g = 0"
      "list_ex (list_ex (\<lambda>x. x = canceling_auth c)) (trx_authorizations g)" "d = delay_until g - published g"
    using assms(2) by (auto simp: check_canceldelay_authorization_def result_simps option_to_result_def split: option.splits)
  then have "require_satisfies a q db = Inr ()" by (simp add: require_satisfies_def)
  then have "at_least db a (canceling_auth c)" using require_satisfies_spec [OF assms(1) q] by simp
  then show ?thesis using a g by (auto simp: canceldelay_rule_def list_ex_iff)
qed

lemma check_native_spec:
  assumes "forest_ok db" and "check_native nd act delay db = Inr (special_case, d)"
  shows "special_case = special_action act" and "special_action act \<Longrightarrow> native_rule nd act delay db d"
    and "\<not> special_action act \<Longrightarrow> d = delay"
  using assms(2)
  by (auto simp: check_native_def special_action_def native_rule_def result_simps split: if_splits
      dest!: updateauth_checked [OF assms(1)] deleteauth_checked [OF assms(1)] linkauth_checked [OF assms(1)]
        unlinkauth_checked [OF assms(1)] canceldelay_checked [OF assms(1)])

section \<open>Properties\<close>


text \<open>One account (7) with its two standard permissions; key 1 is its owner, key 2 its active key.\<close>

definition one_account :: "nat auth_db" where
  "one_account =
     \<lparr>permissions =
        [\<lparr>perm_id = 0, usage_id = 0, parent = 0, owner = 0, perm_name = 0, last_updated = 0, auth = empty_authority\<rparr>,
         \<lparr>perm_id = 1, usage_id = 0, parent = 0, owner = 7, perm_name = owner_name, last_updated = 5, auth = authority_of_key 1 0\<rparr>,
         \<lparr>perm_id = 2, usage_id = 1, parent = 1, owner = 7, perm_name = active_name, last_updated = 5, auth = authority_of_key 2 0\<rparr>],
      next_permission_id = 3, usages = [\<lparr>usage_oid = 0, last_used = 5\<rparr>, \<lparr>usage_oid = 1, last_used = 5\<rparr>], next_usage_id = 2,
      links = [], generated = [], pending_block_time = 9, max_transaction_delay = 100, max_authority_depth = 6\<rparr>"

lemma standard_names: "owner_name = 12044502819693133824" "active_name = 3617214756542218240"
    "system_account_name = 6138663577826885632"
  by (code_simp, code_simp, code_simp)

definition no_native :: "(nat, unit) native_data" where
  "no_native = \<lparr>as_updateauth = (\<lambda>_. Inl transaction_exception), as_deleteauth = (\<lambda>_. Inl transaction_exception),
     as_linkauth = (\<lambda>_. Inl transaction_exception), as_unlinkauth = (\<lambda>_. Inl transaction_exception),
     as_canceldelay = (\<lambda>_. Inl transaction_exception)\<rparr>"

lemma one_account_ok: "forest_ok one_account"
  by (simp add: forest_ok_def one_account_def tbl_unique_def owner_key_def standard_names)

lemmas authorization_run = check_authorization_def check_action_def check_native_def check_declared_def check_relevant_def
  lookup_minimum_permission_def lookup_linked_permission_def get_permission_def name_empty_def require_satisfies_def
  satisfies_def tbl_find_def owner_key_def action_key_def one_account_def add_to_satisfy_def effective_delay_def make_auth_checker_def
  require_satisfied_def make_used_keys_def all_keys_used_def option_to_result_def bind_r_def eos_assert_def eosio_any_name_def

text \<open>A change of the active permission, next to an ordinary action.\<close>

definition update_active :: "(nat, unit) native_data" where
  "update_active = no_native\<lparr>as_updateauth := (\<lambda>_. Inr \<lparr>ua_account = 7, ua_permission = active_name, ua_parent = owner_name,
     ua_auth = authority_of_key 3 0\<rparr>)\<rparr>"

definition two_actions :: "unit action list" where
  "two_actions = [\<lparr>act_account = 8, act_name = 9, authorization = [permission_level 7 owner_name], data = ()\<rparr>,
     \<lparr>act_account = system_account_name, act_name = updateauth_name, authorization = [permission_level 7 owner_name], data = ()\<rparr>]"

lemma native_names: "updateauth_name = 15371467950649982976"
  by code_simp


end
