(* ===== verification/NativeContract.thy ===== *)
theory NativeContract
  imports Authorization Resources Headers
begin

text \<open>
  The native actions of the system account (\<^verbatim>\<open>libraries/chain/eosio_contract.cpp\<close>):
  creating accounts, setting code and ABI, changing permissions and links, cancelling delayed
  transactions, together with the parts of \<open>apply_context\<close> and \<open>transaction_context\<close> they call
  (authorization marks, RAM billing).  The authorization manager and the resource limits manager are
  those of \<open>Authorization\<close> and \<open>Resources\<close>.  Hashing and validating code, the packed size of a
  key, and the decoding of the action data are parameters.  A throw ends the transaction and undoes
  it, so a failing handler returns no state.
\<close>

section \<open>State\<close>

type_synonym bytes = "8 word list"

record 'h account_object =
  acc_name :: name
  vm_type :: nat
  vm_version :: nat
  privileged :: bool
  last_code_update :: int
  code_version :: 'h
  creation_date :: nat
  code :: bytes
  abi :: bytes

record account_sequence_object =
  seq_name :: name
  recv_sequence :: nat
  auth_sequence :: nat
  code_sequence :: nat
  abi_sequence :: nat

record 'k newaccount =
  na_creator :: name
  na_name :: name
  na_owner :: "'k authority"
  na_active :: "'k authority"

record setcode =
  sc_account :: name
  sc_vmtype :: nat
  sc_vmversion :: nat
  sc_code :: bytes

record setabi =
  sa_account :: name
  sa_abi :: bytes

text \<open>What the handlers need from outside this code.\<close>

record ('k, 'h) native_env =
  key_size :: "'k \<Rightarrow> nat"
  code_hash :: "bytes \<Rightarrow> 'h"
  null_hash :: 'h
  wasm_validate :: "bytes \<Rightarrow> unit result"
  is_producing_block :: bool
  key_blacklist :: "'k list"

text \<open>
  The database tables the handlers change, and what the contexts of the action and of the
  transaction keep: the authorizations used, the RAM deltas per account, the accounts whose RAM
  limit is checked at the end.
\<close>

record ('k, 'h) apply_context =
  auth_tables :: "'k auth_db"
  resource_tables :: resource_db
  account_tbl :: "'h account_object list"
  sequence_tbl :: "account_sequence_object list"
  used_authorizations :: "bool list"
  account_ram_deltas :: "(name \<times> int) list"
  validate_ram_usage :: "name set"

section \<open>The context of an action\<close>

fun first_actor :: "name \<Rightarrow> permission_level list \<Rightarrow> nat option" where
  "first_actor account [] = None"
| "first_actor account (a # as) = (if actor a = account then Some 0 else map_option Suc (first_actor account as))"

definition require_authorization ::
    "name \<Rightarrow> permission_level list \<Rightarrow> ('k, 'h) apply_context \<Rightarrow> ('k, 'h) apply_context result" where
  "require_authorization account auths ctx =
     (case first_actor account auths of
        Some i \<Rightarrow> Inr (ctx\<lparr>used_authorizations := (used_authorizations ctx)[i := True]\<rparr>)
      | None \<Rightarrow> Inl missing_auth_exception)"

definition is_account :: "name \<Rightarrow> ('k, 'h) apply_context \<Rightarrow> bool" where
  "is_account account ctx \<longleftrightarrow> tbl_find acc_name account (account_tbl ctx) \<noteq> None"

definition trx_add_ram_usage :: "name \<Rightarrow> int \<Rightarrow> ('k, 'h) apply_context \<Rightarrow> ('k, 'h) apply_context result" where
  "trx_add_ram_usage account ram_delta ctx =
     bind_r (add_pending_ram_usage account ram_delta (resource_tables ctx)) (\<lambda>r.
     let ctx = ctx\<lparr>resource_tables := r\<rparr> in
     Inr (if ram_delta > 0 then ctx\<lparr>validate_ram_usage := insert account (validate_ram_usage ctx)\<rparr> else ctx))"

definition add_ram_usage :: "name \<Rightarrow> int \<Rightarrow> ('k, 'h) apply_context \<Rightarrow> ('k, 'h) apply_context result" where
  "add_ram_usage account ram_delta ctx =
     bind_r (trx_add_ram_usage account ram_delta ctx) (\<lambda>ctx.
     Inr (ctx\<lparr>account_ram_deltas := flat_set account
       (case map_of (account_ram_deltas ctx) account of None \<Rightarrow> ram_delta | Some d \<Rightarrow> d + ram_delta) (account_ram_deltas ctx)\<rparr>))"

definition sender_key :: "generated_transaction_object \<Rightarrow> name \<times> nat" where
  "sender_key g = (sender g, sender_id g)"

text \<open>The billed sizes of the rows, rounded up to the billing unit.\<close>

definition permission_object_size :: nat where
  "permission_object_size = billable_size_v (billable_size_v (3 * 16 + 4) + 64 + 5 * 32)"

definition permission_link_object_size :: nat where
  "permission_link_object_size = billable_size_v (40 + 3 * 32)"

definition generated_transaction_object_size :: nat where
  "generated_transaction_object_size = billable_size_v (96 + 4 + 5 * 32)"

definition cancel_deferred_transaction ::
    "nat \<Rightarrow> name \<Rightarrow> ('k, 'h) apply_context \<Rightarrow> (bool \<times> ('k, 'h) apply_context) result" where
  "cancel_deferred_transaction s_id sndr ctx =
     (case tbl_find sender_key (sndr, s_id) (generated (auth_tables ctx)) of
        None \<Rightarrow> Inr (False, ctx)
      | Some gto \<Rightarrow>
          bind_r (add_ram_usage (payer gto) (- int (generated_transaction_object_size + packed_size gto)) ctx) (\<lambda>ctx.
          Inr (True, ctx\<lparr>auth_tables := (auth_tables ctx)\<lparr>generated :=
            tbl_remove sender_key (sndr, s_id) (generated (auth_tables ctx))\<rparr>\<rparr>)))"

section \<open>The handlers\<close>

text \<open>The two high 64-bit words of the 256-bit id, the last one on top.\<close>

definition transaction_id_to_sender_id :: "nat \<Rightarrow> nat" where
  "transaction_id_to_sender_id tid = tid div 2 ^ 192 mod 2 ^ 64 * 2 ^ 64 + tid div 2 ^ 128 mod 2 ^ 64"

definition check_key_list :: "('k, 'h) native_env \<Rightarrow> 'k \<Rightarrow> unit result" where
  "check_key_list env k = eos_assert (k \<notin> set (key_blacklist env)) key_blacklist_exception"

text \<open>Only a missing row is turned into \<open>action_validate_exception\<close>; an empty name throws as it is.\<close>

definition check_authority_account :: "('k, 'h) apply_context \<Rightarrow> permission_level_weight \<Rightarrow> unit result" where
  "check_authority_account ctx a =
     (let p = plw_permission a in
      bind_r (eos_assert (is_account (actor p) ctx) action_validate_exception) (\<lambda>_.
      if permission p = owner_name \<or> permission p = active_name then Inr ()
      else if permission p = eosio_code_name then Inr ()
      else case get_permission p (auth_tables ctx) of
             Inr _ \<Rightarrow> Inr ()
           | Inl e \<Rightarrow> Inl (if e = permission_query_exception then action_validate_exception else e)))"

definition validate_authority_precondition ::
    "('k, 'h) native_env \<Rightarrow> 'k authority \<Rightarrow> ('k, 'h) apply_context \<Rightarrow> unit result" where
  "validate_authority_precondition env au ctx =
     bind_r (fold_r (\<lambda>a _. check_authority_account ctx a) (accounts au) ()) (\<lambda>_.
     if is_producing_block env then fold_r (\<lambda>p _. check_key_list env (kw_key p)) (keys au) () else Inr ())"

definition eosio_prefix :: "name \<Rightarrow> bool" where
  "eosio_prefix n \<longleftrightarrow> take 6 (name_to_string n) = ''eosio.''"

definition on_auth :: "('k auth_db \<Rightarrow> ('a \<times> 'k auth_db) result) \<Rightarrow> ('k, 'h) apply_context \<Rightarrow> ('a \<times> ('k, 'h) apply_context) result" where
  "on_auth f ctx = bind_r (f (auth_tables ctx)) (\<lambda>(x, db). Inr (x, ctx\<lparr>auth_tables := db\<rparr>))"

definition apply_eosio_newaccount ::
    "('k, 'h) native_env \<Rightarrow> permission_level list \<Rightarrow> 'k::linorder newaccount \<Rightarrow> ('k, 'h) apply_context \<Rightarrow> ('k, 'h) apply_context result" where
  "apply_eosio_newaccount env auths create ctx =
     bind_r (require_authorization (na_creator create) auths ctx) (\<lambda>ctx.
     bind_r (eos_assert (validate (na_owner create)) action_validate_exception) (\<lambda>_.
     bind_r (eos_assert (validate (na_active create)) action_validate_exception) (\<lambda>_.
     bind_r (eos_assert (\<not> name_empty (na_name create)) action_validate_exception) (\<lambda>_.
     bind_r (eos_assert (length (name_to_string (na_name create)) \<le> 12) action_validate_exception) (\<lambda>_.
     bind_r (tbl_get acc_name (na_creator create) (account_tbl ctx)) (\<lambda>creator.
     bind_r (if \<not> privileged creator then eos_assert (\<not> eosio_prefix (na_name create)) action_validate_exception else Inr ()) (\<lambda>_.
     bind_r (eos_assert (tbl_find acc_name (na_name create) (account_tbl ctx) = None) account_name_exists_exception) (\<lambda>_.
     bind_r (tbl_create acc_name
         \<lparr>acc_name = na_name create, vm_type = 0, vm_version = 0, privileged = False, last_code_update = 0,
          code_version = null_hash env, creation_date = set_time_point (pending_block_time (auth_tables ctx)), code = [], abi = []\<rparr>
         (account_tbl ctx)) (\<lambda>accts.
     bind_r (tbl_create seq_name
         \<lparr>seq_name = na_name create, recv_sequence = 0, auth_sequence = 0, code_sequence = 0, abi_sequence = 0\<rparr>
         (sequence_tbl ctx)) (\<lambda>seqs.
     let ctx = ctx\<lparr>account_tbl := accts, sequence_tbl := seqs\<rparr> in
     bind_r (fold_r (\<lambda>au _. validate_authority_precondition env au ctx) [na_owner create, na_active create] ()) (\<lambda>_.
     bind_r (on_auth (create_permission (na_name create) owner_name 0 (na_owner create) 0) ctx) (\<lambda>(owner_permission, ctx).
     bind_r (on_auth (create_permission (na_name create) active_name (perm_id owner_permission) (na_active create) 0) ctx)
       (\<lambda>(active_permission, ctx).
     bind_r (initialize_account (na_name create) (resource_tables ctx)) (\<lambda>res.
     let ram_delta = s64 (2048 + 2 * int permission_object_size + int (get_billable_size (key_size env) (auth owner_permission))
           + int (get_billable_size (key_size env) (auth active_permission)))
     in add_ram_usage (na_name create) ram_delta (ctx\<lparr>resource_tables := res\<rparr>)))))))))))))))"

definition apply_eosio_setcode ::
    "('k, 'h) native_env \<Rightarrow> permission_level list \<Rightarrow> setcode \<Rightarrow> ('k, 'h) apply_context \<Rightarrow> ('k, 'h) apply_context result" where
  "apply_eosio_setcode env auths act ctx =
     bind_r (require_authorization (sc_account act) auths ctx) (\<lambda>ctx.
     bind_r (eos_assert (sc_vmtype act = 0) invalid_contract_vm_type) (\<lambda>_.
     bind_r (eos_assert (sc_vmversion act = 0) invalid_contract_vm_version) (\<lambda>_.
     bind_r (if length (sc_code act) > 0
             then bind_r (wasm_validate env (sc_code act)) (\<lambda>_. Inr (code_hash env (sc_code act)))
             else Inr (null_hash env)) (\<lambda>code_id.
     bind_r (tbl_get acc_name (sc_account act) (account_tbl ctx)) (\<lambda>account.
     let code_size = int (length (sc_code act));
         old_size = int (length (code account)) * 10;
         new_size = code_size * 10
     in
     bind_r (eos_assert (code_version account \<noteq> code_id) set_exact_code) (\<lambda>_.
     let ctx = ctx\<lparr>account_tbl := tbl_modify acc_name (sc_account act)
           (\<lambda>a. a\<lparr>last_code_update := pending_block_time (auth_tables ctx), code_version := code_id, code := sc_code act\<rparr>)
           (account_tbl ctx)\<rparr>
     in
     bind_r (tbl_get seq_name (sc_account act) (sequence_tbl ctx)) (\<lambda>_.
     let ctx = ctx\<lparr>sequence_tbl := tbl_modify seq_name (sc_account act)
           (\<lambda>aso. aso\<lparr>code_sequence := u64 (code_sequence aso + 1)\<rparr>) (sequence_tbl ctx)\<rparr>
     in if new_size \<noteq> old_size then add_ram_usage (sc_account act) (new_size - old_size) ctx else Inr ctx)))))))"

definition apply_eosio_setabi ::
    "permission_level list \<Rightarrow> setabi \<Rightarrow> ('k, 'h) apply_context \<Rightarrow> ('k, 'h) apply_context result" where
  "apply_eosio_setabi auths act ctx =
     bind_r (require_authorization (sa_account act) auths ctx) (\<lambda>ctx.
     bind_r (tbl_get acc_name (sa_account act) (account_tbl ctx)) (\<lambda>account.
     let abi_size = int (length (sa_abi act));
         old_size = int (length (abi account));
         new_size = abi_size;
         ctx = ctx\<lparr>account_tbl := tbl_modify acc_name (sa_account act) (\<lambda>a. a\<lparr>abi := sa_abi act\<rparr>) (account_tbl ctx)\<rparr>
     in
     bind_r (tbl_get seq_name (sa_account act) (sequence_tbl ctx)) (\<lambda>_.
     let ctx = ctx\<lparr>sequence_tbl := tbl_modify seq_name (sa_account act)
           (\<lambda>aso. aso\<lparr>abi_sequence := u64 (abi_sequence aso + 1)\<rparr>) (sequence_tbl ctx)\<rparr>
     in if new_size \<noteq> old_size then add_ram_usage (sa_account act) (new_size - old_size) ctx else Inr ctx)))"

definition apply_eosio_updateauth ::
    "('k, 'h) native_env \<Rightarrow> permission_level list \<Rightarrow> 'k::linorder updateauth \<Rightarrow> ('k, 'h) apply_context \<Rightarrow> ('k, 'h) apply_context result" where
  "apply_eosio_updateauth env auths update ctx =
     bind_r (require_authorization (ua_account update) auths ctx) (\<lambda>ctx.
     bind_r (eos_assert (\<not> name_empty (ua_permission update)) action_validate_exception) (\<lambda>_.
     bind_r (eos_assert (\<not> eosio_prefix (ua_permission update)) action_validate_exception) (\<lambda>_.
     bind_r (eos_assert (ua_permission update \<noteq> ua_parent update) action_validate_exception) (\<lambda>_.
     bind_r (tbl_get acc_name (ua_account update) (account_tbl ctx)) (\<lambda>_.
     bind_r (eos_assert (validate (ua_auth update)) action_validate_exception) (\<lambda>_.
     bind_r (if ua_permission update = active_name
             then eos_assert (ua_parent update = owner_name) action_validate_exception else Inr ()) (\<lambda>_.
     bind_r (if ua_permission update = owner_name
             then eos_assert (name_empty (ua_parent update)) action_validate_exception
             else eos_assert (\<not> name_empty (ua_parent update)) action_validate_exception) (\<lambda>_.
     bind_r (if length (waits (ua_auth update)) > 0
             then eos_assert (wait_sec (last (waits (ua_auth update))) \<le> max_transaction_delay (auth_tables ctx))
               action_validate_exception
             else Inr ()) (\<lambda>_.
     bind_r (validate_authority_precondition env (ua_auth update) ctx) (\<lambda>_.
     bind_r (find_permission (permission_level (ua_account update) (ua_permission update)) (auth_tables ctx)) (\<lambda>found.
     bind_r (if ua_permission update \<noteq> owner_name
             then bind_r (get_permission (permission_level (ua_account update) (ua_parent update)) (auth_tables ctx)) (\<lambda>p.
               Inr (perm_id p))
             else Inr 0) (\<lambda>parent_id.
     case found of
       Some p \<Rightarrow>
         bind_r (eos_assert (parent_id = parent p) action_validate_exception) (\<lambda>_.
         let old_size = s64 (int (permission_object_size + get_billable_size (key_size env) (auth p)));
             ctx = ctx\<lparr>auth_tables := modify_permission p (ua_auth update) (auth_tables ctx)\<rparr>;
             new_size = s64 (int (permission_object_size + get_billable_size (key_size env) (ua_auth update)))
         in add_ram_usage (permission_object.owner p) (new_size - old_size) ctx)
     | None \<Rightarrow>
         bind_r (on_auth (create_permission (ua_account update) (ua_permission update) parent_id (ua_auth update) 0) ctx) (\<lambda>(p, ctx).
         let new_size = s64 (int (permission_object_size + get_billable_size (key_size env) (auth p)))
         in add_ram_usage (ua_account update) new_size ctx)))))))))))))"

text \<open>The rows of the index \<open>by_permission_name\<close> with this account and permission.\<close>

definition linked_to :: "name \<Rightarrow> name \<Rightarrow> permission_link_object list \<Rightarrow> bool" where
  "linked_to account perm ls \<longleftrightarrow> list_ex (\<lambda>l. link_account l = account \<and> required_permission l = perm) ls"

definition apply_eosio_deleteauth ::
    "('k, 'h) native_env \<Rightarrow> permission_level list \<Rightarrow> deleteauth \<Rightarrow> ('k, 'h) apply_context \<Rightarrow> ('k, 'h) apply_context result" where
  "apply_eosio_deleteauth env auths remove ctx =
     bind_r (require_authorization (da_account remove) auths ctx) (\<lambda>ctx.
     bind_r (eos_assert (da_permission remove \<noteq> active_name) action_validate_exception) (\<lambda>_.
     bind_r (eos_assert (da_permission remove \<noteq> owner_name) action_validate_exception) (\<lambda>_.
     bind_r (eos_assert (\<not> linked_to (da_account remove) (da_permission remove) (links (auth_tables ctx))) action_validate_exception) (\<lambda>_.
     bind_r (get_permission (permission_level (da_account remove) (da_permission remove)) (auth_tables ctx)) (\<lambda>p.
     let old_size = s64 (int (permission_object_size + get_billable_size (key_size env) (auth p))) in
     bind_r (remove_permission p (auth_tables ctx)) (\<lambda>db.
     add_ram_usage (da_account remove) (- old_size) (ctx\<lparr>auth_tables := db\<rparr>)))))))"

text \<open>The required permission is looked up by its name over the permissions of all accounts.\<close>

definition apply_eosio_linkauth ::
    "permission_level list \<Rightarrow> linkauth \<Rightarrow> ('k, 'h) apply_context \<Rightarrow> ('k, 'h) apply_context result" where
  "apply_eosio_linkauth auths requirement ctx =
     bind_r (eos_assert (\<not> name_empty (la_requirement requirement)) action_validate_exception) (\<lambda>_.
     bind_r (require_authorization (la_account requirement) auths ctx) (\<lambda>ctx.
     bind_r (eos_assert (is_account (la_account requirement) ctx) account_query_exception) (\<lambda>_.
     bind_r (eos_assert (is_account (la_code requirement) ctx) account_query_exception) (\<lambda>_.
     bind_r (if la_requirement requirement \<noteq> eosio_any_name
             then eos_assert (list_ex (\<lambda>p. perm_name p = la_requirement requirement) (permissions (auth_tables ctx)))
               permission_query_exception
             else Inr ()) (\<lambda>_.
     let link_key = (la_account requirement, la_code requirement, la_type requirement);
         db = auth_tables ctx
     in
     case tbl_find action_key link_key (links db) of
       Some link \<Rightarrow>
         bind_r (eos_assert (required_permission link \<noteq> la_requirement requirement) action_validate_exception) (\<lambda>_.
         Inr (ctx\<lparr>auth_tables := db\<lparr>links := tbl_modify action_key link_key
           (\<lambda>l. l\<lparr>required_permission := la_requirement requirement\<rparr>) (links db)\<rparr>\<rparr>))
     | None \<Rightarrow>
         let l = \<lparr>link_account = la_account requirement, link_code = la_code requirement,
                  message_type = la_type requirement, required_permission = la_requirement requirement\<rparr>
         in
         bind_r (tbl_create action_key l (links db)) (\<lambda>ls.
         add_ram_usage (link_account l) (int permission_link_object_size) (ctx\<lparr>auth_tables := db\<lparr>links := ls\<rparr>\<rparr>)))))))"

definition apply_eosio_unlinkauth ::
    "permission_level list \<Rightarrow> unlinkauth \<Rightarrow> ('k, 'h) apply_context \<Rightarrow> ('k, 'h) apply_context result" where
  "apply_eosio_unlinkauth auths unlink ctx =
     bind_r (require_authorization (ul_account unlink) auths ctx) (\<lambda>ctx.
     let link_key = (ul_account unlink, ul_code unlink, ul_type unlink) in
     bind_r (option_to_result action_validate_exception (tbl_find action_key link_key (links (auth_tables ctx)))) (\<lambda>link.
     bind_r (add_ram_usage (link_account link) (- int permission_link_object_size) ctx) (\<lambda>ctx.
     Inr (ctx\<lparr>auth_tables := (auth_tables ctx)\<lparr>links := tbl_remove action_key link_key (links (auth_tables ctx))\<rparr>\<rparr>))))"

definition apply_eosio_canceldelay ::
    "permission_level list \<Rightarrow> canceldelay \<Rightarrow> ('k, 'h) apply_context \<Rightarrow> ('k, 'h) apply_context result" where
  "apply_eosio_canceldelay auths cancel ctx =
     bind_r (require_authorization (actor (canceling_auth cancel)) auths ctx) (\<lambda>ctx.
     bind_r (cancel_deferred_transaction (transaction_id_to_sender_id (cd_trx_id cancel)) 0 ctx) (\<lambda>(_, ctx).
     Inr ctx))"

text \<open>The registered handlers: one per native action.\<close>

datatype 'k native_action =
    Newaccount "'k newaccount"
  | Setcode setcode
  | Setabi setabi
  | Updateauth "'k updateauth"
  | Deleteauth deleteauth
  | Linkauth linkauth
  | Unlinkauth unlinkauth
  | Canceldelay canceldelay

fun apply_handler ::
    "('k, 'h) native_env \<Rightarrow> permission_level list \<Rightarrow> 'k::linorder native_action \<Rightarrow> ('k, 'h) apply_context \<Rightarrow> ('k, 'h) apply_context result" where
  "apply_handler env auths (Newaccount a) = apply_eosio_newaccount env auths a"
| "apply_handler env auths (Setcode a) = apply_eosio_setcode env auths a"
| "apply_handler env auths (Setabi a) = apply_eosio_setabi auths a"
| "apply_handler env auths (Updateauth a) = apply_eosio_updateauth env auths a"
| "apply_handler env auths (Deleteauth a) = apply_eosio_deleteauth env auths a"
| "apply_handler env auths (Linkauth a) = apply_eosio_linkauth auths a"
| "apply_handler env auths (Unlinkauth a) = apply_eosio_unlinkauth auths a"
| "apply_handler env auths (Canceldelay a) = apply_eosio_canceldelay auths a"

section \<open>The permission tree of an account\<close>

text \<open>
  Every account has an owner permission without a parent and an active permission below it; all its
  other permissions hang below these; permissions belong to accounts.
\<close>

definition standard_permissions :: "'k permission_object list \<Rightarrow> name \<Rightarrow> bool" where
  "standard_permissions rows a \<longleftrightarrow> (\<exists>ow\<in>set rows. \<exists>ac\<in>set rows. owner_key ow = (a, owner_name) \<and> parent ow = 0
     \<and> owner_key ac = (a, active_name) \<and> parent ac = perm_id ow)"

definition permission_placed :: "name set \<Rightarrow> 'k permission_object list \<Rightarrow> 'k permission_object \<Rightarrow> bool" where
  "permission_placed A rows r \<longleftrightarrow> permission_object.owner r \<in> A \<and> perm_name r \<noteq> 0 \<and> (parent r = 0 \<longleftrightarrow> perm_name r = owner_name)
     \<and> (parent r \<noteq> 0 \<longrightarrow> (\<exists>q\<in>set rows. perm_id q = parent r \<and> permission_object.owner q = permission_object.owner r))"

definition tree_ok :: "name set \<Rightarrow> 'k auth_db \<Rightarrow> bool" where
  "tree_ok A db \<longleftrightarrow> forest_ok db \<and> 0 \<in> perm_id ` set (permissions db) \<and> 0 \<notin> A
     \<and> (\<forall>a\<in>A. standard_permissions (permissions db) a)
     \<and> (\<forall>r\<in>set (permissions db). perm_id r \<noteq> 0 \<longrightarrow> permission_placed A (permissions db) r)"

lemma tree_ok_next: "tree_ok A db \<Longrightarrow> 0 < next_permission_id db"
  by (auto simp: tree_ok_def forest_ok_def)

lemma tree_ok_row_id: "tree_ok A db \<Longrightarrow> r \<in> set (permissions db) \<Longrightarrow> permission_object.owner r \<noteq> 0 \<Longrightarrow> perm_id r \<noteq> 0"
  by (metis tree_ok_def forest_ok_def)

lemma standard_mono: "standard_permissions rows a \<Longrightarrow> set rows \<subseteq> set rows' \<Longrightarrow> standard_permissions rows' a"
  by (auto simp: standard_permissions_def)

lemma placed_mono: "permission_placed A rows r \<Longrightarrow> set rows \<subseteq> set rows' \<Longrightarrow> A \<subseteq> B \<Longrightarrow> permission_placed B rows' r"
  by (auto simp: permission_placed_def)

text \<open>Adding a permission below another one of the same account.\<close>

lemma tree_ok_create:
  assumes t: "tree_ok A db" and q: "q \<in> set (permissions db)" "permission_object.owner q = a" and a: "a \<in> A"
    and nm: "nm \<noteq> 0" "nm \<noteq> owner_name"
    and run: "create_permission a nm (perm_id q) au tm db = Inr (p, db')"
  shows "tree_ok A db'"
proof -
  have ok: "forest_ok db" using t by (simp add: tree_ok_def)
  have "permission_object.owner q \<noteq> 0" using q(2) a t by (auto simp: tree_ok_def)
  then have id: "perm_id q \<noteq> 0" by (rule tree_ok_row_id [OF t q(1)])
  note c = create_permission_ok [OF ok _ tree_ok_next [OF t] run]
  have c: "forest_ok db'" "permissions db' = permissions db @ [p]" "owner_key p = (a, nm)" "parent p = perm_id q"
    using c q(1) by auto
  have sub: "set (permissions db) \<subseteq> set (permissions db')" using c(2) by auto
  have "permission_placed A (permissions db') p"
    using c q a nm id by (auto simp: permission_placed_def owner_key_def)
  moreover have "permission_placed A (permissions db') r" if "r \<in> set (permissions db)" "perm_id r \<noteq> 0" for r
    using placed_mono [OF _ sub order_refl] that t by (simp add: tree_ok_def)
  ultimately show ?thesis
    using t c standard_mono [OF _ sub] by (auto simp: tree_ok_def)
qed

text \<open>A new account gets its two permissions at once.\<close>

lemma tree_ok_new_account:
  assumes t: "tree_ok A db" and n: "n \<noteq> 0"
    and ow: "create_permission n owner_name 0 au1 tm db = Inr (p, db1)"
    and ac: "create_permission n active_name (perm_id p) au2 tm db1 = Inr (q, db2)"
  shows "tree_ok (insert n A) db2 \<and> permissions db2 = permissions db @ [p, q] \<and> owner_key p = (n, owner_name)
    \<and> owner_key q = (n, active_name) \<and> auth p = au1 \<and> auth q = au2 \<and> perm_id p \<noteq> 0 \<and> perm_id q \<noteq> 0"
proof -
  have ok: "forest_ok db" and z: "0 \<in> perm_id ` set (permissions db)" using t by (auto simp: tree_ok_def)
  have c1: "forest_ok db1" "permissions db1 = permissions db @ [p]" "owner_key p = (n, owner_name)" "parent p = 0"
      "perm_id p = next_permission_id db" "auth p = au1" "0 < next_permission_id db1"
    using create_permission_ok [OF ok z tree_ok_next [OF t] ow] by auto
  have c2: "forest_ok db2" "permissions db2 = permissions db1 @ [q]" "owner_key q = (n, active_name)" "parent q = perm_id p"
      "perm_id q = next_permission_id db1" "auth q = au2"
    using create_permission_ok [OF c1(1) _ c1(7) ac] c1(2) by auto
  have ids: "perm_id p \<noteq> 0" "perm_id q \<noteq> 0" using c1 c2 tree_ok_next [OF t] by auto
  have names: "owner_name \<noteq> active_name" "owner_name \<noteq> 0" "active_name \<noteq> 0" by (simp_all add: standard_names)
  have sub: "set (permissions db) \<subseteq> set (permissions db2)" using c1(2) c2(2) by auto
  have "permission_placed (insert n A) (permissions db2) p" "permission_placed (insert n A) (permissions db2) q"
    using c1 c2 ids names by (auto simp: permission_placed_def owner_key_def)
  moreover have "permission_placed (insert n A) (permissions db2) r" if "r \<in> set (permissions db)" "perm_id r \<noteq> 0" for r
    using placed_mono [OF _ sub subset_insertI [of A n]] that t by (simp add: tree_ok_def)
  moreover have "standard_permissions (permissions db2) n" using c1 c2 by (auto simp: standard_permissions_def)
  moreover have "\<forall>a\<in>A. standard_permissions (permissions db2) a" using standard_mono [OF _ sub] t by (auto simp: tree_ok_def)
  moreover have "0 \<in> perm_id ` set (permissions db2)" using z c1(2) c2(2) by auto
  ultimately show ?thesis using t n c1 c2 ids by (auto simp: tree_ok_def)
qed

text \<open>The tree only looks at the shape of the rows.\<close>

lemma same_image_member: "map f xs = map f ys \<Longrightarrow> x \<in> set xs \<Longrightarrow> \<exists>y\<in>set ys. f y = f x"
proof -
  assume "map f xs = map f ys" and "x \<in> set xs"
  then have "f x \<in> set (map f ys)" by (metis imageI list.set_map)
  then show ?thesis by auto
qed

lemma tree_ok_cong:
  fixes db db' :: "'k auth_db"
  assumes "map shape (permissions db') = map shape (permissions db)" and "next_permission_id db' = next_permission_id db"
  shows "tree_ok A db' \<longleftrightarrow> tree_ok A db"
proof -
  have half: "tree_ok A db \<Longrightarrow> tree_ok A db'" if s: "map shape (permissions db') = map shape (permissions db)"
      "next_permission_id db' = next_permission_id db" for db db' :: "'k auth_db"
  proof -
    assume t: "tree_ok A db"
    note up = same_image_member [OF s(1) [symmetric]] and down = same_image_member [OF s(1)]
    have placed: "permission_placed A (permissions db') r'"
      if r: "shape r = shape r'" and p: "permission_placed A (permissions db) r" for r r'
    proof (cases "parent r = 0")
      case True
      then show ?thesis using r p by (auto simp: permission_placed_def shape_def owner_key_def)
    next
      case False
      then obtain q where "q \<in> set (permissions db)" "perm_id q = parent r" "permission_object.owner q = permission_object.owner r"
        using p by (auto simp: permission_placed_def)
      then show ?thesis using r p up [of q] by (auto simp: permission_placed_def shape_def owner_key_def)
    qed
    have "standard_permissions (permissions db') a" if a: "a \<in> A" for a
    proof -
      obtain ow ac where oa: "ow \<in> set (permissions db)" "ac \<in> set (permissions db)" "owner_key ow = (a, owner_name)" "parent ow = 0"
          "owner_key ac = (a, active_name)" "parent ac = perm_id ow"
        using t a unfolding tree_ok_def standard_permissions_def by blast
      obtain ow' ac' where "ow' \<in> set (permissions db')" "ac' \<in> set (permissions db')" "shape ow' = shape ow" "shape ac' = shape ac"
        using up oa(1,2) by blast
      then show ?thesis using oa unfolding standard_permissions_def shape_def by (metis prod.inject)
    qed
    moreover have "permission_placed A (permissions db') r'" if "r' \<in> set (permissions db')" "perm_id r' \<noteq> 0" for r'
      using down [OF that(1)] placed t that(2) by (metis tree_ok_def shape_def fst_conv)
    moreover have "0 \<in> perm_id ` set (permissions db')"
      using t up by (force simp: tree_ok_def shape_def)
    ultimately show "tree_ok A db'" using t forest_ok_cong [OF s] by (simp add: tree_ok_def)
  qed
  show ?thesis using half [OF assms] half [OF assms [symmetric]] by blast
qed

lemma tree_ok_modify: "tree_ok A (modify_permission p au db) \<longleftrightarrow> tree_ok A db"
  by (rule tree_ok_cong) (auto simp: modify_permission_def tbl_modify_def shape_def owner_key_def)

text \<open>Only permissions other than owner and active are removed, and only leaves.\<close>

lemma tree_ok_remove:
  assumes t: "tree_ok A db" and p: "p \<in> set (permissions db)" "perm_name p \<noteq> owner_name" "perm_name p \<noteq> active_name" "perm_id p \<noteq> 0"
    and run: "remove_permission p db = Inr db'"
  shows "tree_ok A db' \<and> permissions db' = tbl_remove perm_id (perm_id p) (permissions db)"
proof -
  have ok: "forest_ok db" using t by (simp add: tree_ok_def)
  have r: "forest_ok db'" and rows: "permissions db' = filter (\<lambda>r. perm_id r \<noteq> perm_id p) (permissions db)"
    using remove_permission_ok [OF ok run] by auto
  have nochild: "\<forall>c\<in>set (permissions db). parent c \<noteq> perm_id p"
    using run by (auto simp: remove_permission_def result_simps list_ex_iff)
  have same: "r = p" if "r \<in> set (permissions db)" "perm_id r = perm_id p" for r
    using forest_lookup [OF ok] that p(1) by (metis option.inject)
  have in': "r \<in> set (permissions db')" if "r \<in> set (permissions db)" "r \<noteq> p" for r
    using that same rows by auto
  have "standard_permissions (permissions db') a" if a: "a \<in> A" for a
  proof -
    obtain ow ac where oa: "ow \<in> set (permissions db)" "ac \<in> set (permissions db)" "owner_key ow = (a, owner_name)" "parent ow = 0"
        "owner_key ac = (a, active_name)" "parent ac = perm_id ow"
      using t a unfolding tree_ok_def standard_permissions_def by blast
    then have "ow \<noteq> p" "ac \<noteq> p" using p by (auto simp: owner_key_def)
    then show ?thesis using oa in' unfolding standard_permissions_def by blast
  qed
  moreover have "permission_placed A (permissions db') r" if r: "r \<in> set (permissions db')" "perm_id r \<noteq> 0" for r
  proof -
    have db: "r \<in> set (permissions db)" using r(1) rows by simp
    then have pl: "permission_placed A (permissions db) r" using t r(2) by (simp add: tree_ok_def)
    moreover have "\<exists>q\<in>set (permissions db'). perm_id q = parent r \<and> permission_object.owner q = permission_object.owner r"
      if n: "parent r \<noteq> 0"
    proof -
      obtain q where "q \<in> set (permissions db)" "perm_id q = parent r" "permission_object.owner q = permission_object.owner r"
        using pl n by (auto simp: permission_placed_def)
      then show ?thesis using nochild db in' by (metis)
    qed
    ultimately show ?thesis by (simp add: permission_placed_def)
  qed
  moreover have "0 \<in> perm_id ` set (permissions db')"
    using t p(4) by (auto simp: tree_ok_def rows)
  ultimately show ?thesis using t r by (simp add: tree_ok_def rows tbl_remove_def)
qed

text \<open>The owner permission is an ancestor of every permission of its account.\<close>

lemma owner_above:
  assumes t: "tree_ok A db" and r: "r \<in> set (permissions db)" "permission_object.owner r = a" "a \<in> A"
    and ow: "ow \<in> set (permissions db)" "owner_key ow = (a, owner_name)"
  shows "(perm_id r, perm_id ow) \<in> (parent_rel (permissions db))\<^sup>*"
  using r
proof (induction "perm_id r" arbitrary: r rule: less_induct)
  case less
  have ok: "forest_ok db" using t by (simp add: tree_ok_def)
  have "permission_object.owner r \<noteq> 0" using less.prems t by (auto simp: tree_ok_def)
  then have id: "perm_id r \<noteq> 0" by (rule tree_ok_row_id [OF t less.prems(1)])
  then have pl: "permission_placed A (permissions db) r" using t less.prems(1) by (simp add: tree_ok_def)
  show ?case
  proof (cases "parent r = 0")
    case True
    then have "owner_key r = owner_key ow" using pl less.prems ow by (auto simp: permission_placed_def owner_key_def)
    moreover have "tbl_unique owner_key (permissions db)" using ok by (simp add: forest_ok_def)
    ultimately have "r = ow" using tbl_find_unique less.prems(1) ow(1) by (metis option.inject)
    then show ?thesis by simp
  next
    case False
    then obtain q where q: "q \<in> set (permissions db)" "perm_id q = parent r" "permission_object.owner q = a"
      using pl less.prems(2) by (auto simp: permission_placed_def)
    have "parent r < perm_id r" using ok less.prems(1) id by (auto simp: forest_ok_def)
    then have "(perm_id q, perm_id ow) \<in> (parent_rel (permissions db))\<^sup>*" using less.hyps [of q] q less.prems(3) by simp
    moreover have "(perm_id r, perm_id q) \<in> parent_rel (permissions db)" using less.prems(1) id q(2) by (auto simp: parent_rel_def)
    ultimately show ?thesis by (rule converse_rtrancl_into_rtrancl [rotated])
  qed
qed

section \<open>RAM\<close>

definition ram_of :: "name \<Rightarrow> resource_db \<Rightarrow> int" where
  "ram_of a db = (case tbl_find usage_owner a (usage_tbl db) of None \<Rightarrow> 0 | Some u \<Rightarrow> int (ram_usage u))"

definition ram_table_ok :: "resource_db \<Rightarrow> bool" where
  "ram_table_ok db \<longleftrightarrow> tbl_unique usage_owner (usage_tbl db) \<and> (\<forall>u\<in>set (usage_tbl db). ram_usage u < 2 ^ 64)"

lemma add_pending_ram_usage_billed:
  assumes run: "add_pending_ram_usage a d db = Inr db'" and ok: "ram_table_ok db" and d: "- (2 ^ 63) < d" "d < 2 ^ 63"
  shows "ram_table_ok db' \<and> ram_of b db' = ram_of b db + (if b = a then d else 0)"
proof (cases "d = 0")
  case True
  then show ?thesis using run ok by (simp add: add_pending_ram_usage_def)
next
  case False
  obtain u where f: "tbl_find usage_owner a (usage_tbl db) = Some u"
    and up: "d \<le> 0 \<or> nat d \<le> uint64_max - ram_usage u" and lo: "0 \<le> d \<or> nat (- d) \<le> ram_usage u"
    and db': "db' = db\<lparr>usage_tbl := tbl_modify usage_owner a (\<lambda>_. u\<lparr>ram_usage := int_to_u64 (int (ram_usage u) + d)\<rparr>) (usage_tbl db)\<rparr>"
    using run False by (auto simp: add_pending_ram_usage_def modify_usage_def result_simps)
  have u: "u \<in> set (usage_tbl db)" "usage_owner u = a" using tbl_find_Some [OF f] by auto
  then have "ram_usage u < 2 ^ 64" using ok by (simp add: ram_table_ok_def)
  then have r: "int_to_u64 (int (ram_usage u) + d) = nat (int (ram_usage u) + d)" "int (ram_usage u) + d < 2 ^ 64" "0 \<le> int (ram_usage u) + d"
    using up lo by (auto simp: int_to_u64_def)
  let ?u = "u\<lparr>ram_usage := nat (int (ram_usage u) + d)\<rparr>"
  have k: "usage_owner ?u = a" using u(2) by simp
  have "tbl_unique usage_owner (usage_tbl db')"
    using ok tbl_unique_replace [of usage_owner ?u a, OF k] r(1) by (simp add: db' ram_table_ok_def)
  moreover have "\<forall>x\<in>set (usage_tbl db'). ram_usage x < 2 ^ 64"
    using ok r by (auto simp: db' ram_table_ok_def tbl_modify_def nat_less_iff)
  moreover have "ram_of b db' = ram_of b db + (if b = a then d else 0)"
    using r f tbl_find_replace [of usage_owner ?u a, OF k] by (simp add: db' ram_of_def)
  ultimately show ?thesis by (simp add: ram_table_ok_def)
qed

lemma add_ram_usage_billed:
  assumes run: "add_ram_usage a d ctx = Inr ctx'" and ok: "ram_table_ok (resource_tables ctx)" and d: "- (2 ^ 63) < d" "d < 2 ^ 63"
  shows "ram_table_ok (resource_tables ctx') \<and> ram_of b (resource_tables ctx') = ram_of b (resource_tables ctx) + (if b = a then d else 0)
    \<and> auth_tables ctx' = auth_tables ctx \<and> account_tbl ctx' = account_tbl ctx \<and> sequence_tbl ctx' = sequence_tbl ctx"
proof -
  obtain r where r: "add_pending_ram_usage a d (resource_tables ctx) = Inr r" and "resource_tables ctx' = r"
      "auth_tables ctx' = auth_tables ctx" "account_tbl ctx' = account_tbl ctx" "sequence_tbl ctx' = sequence_tbl ctx"
    using run by (auto simp: add_ram_usage_def trx_add_ram_usage_def result_simps Let_def)
  then show ?thesis using add_pending_ram_usage_billed [OF r ok d] by simp
qed

lemma require_authorization_frame:
  assumes "require_authorization a auths ctx = Inr ctx'"
  shows "\<exists>used. ctx' = ctx\<lparr>used_authorizations := used\<rparr> \<and> a \<in> actor ` set auths"
proof -
  have "first_actor a auths = Some i \<Longrightarrow> a \<in> actor ` set auths" for i
    by (induction auths arbitrary: i) (auto split: if_splits)
  then show ?thesis using assms by (auto simp: require_authorization_def split: option.splits)
qed

section \<open>What the tables cost\<close>

text \<open>The RAM an account owns through the rows of the native tables.\<close>

definition account_cost :: "name \<Rightarrow> 'h account_object \<Rightarrow> int" where
  "account_cost a r = (if acc_name r = a then 2048 + int (length (code r)) * 10 + int (length (abi r)) else 0)"

definition permission_cost :: "('k, 'h) native_env \<Rightarrow> name \<Rightarrow> 'k permission_object \<Rightarrow> int" where
  "permission_cost env a r =
     (if perm_id r \<noteq> 0 \<and> permission_object.owner r = a then int (permission_object_size + get_billable_size (key_size env) (auth r)) else 0)"

definition link_cost :: "name \<Rightarrow> permission_link_object \<Rightarrow> int" where
  "link_cost a l = (if link_account l = a then int permission_link_object_size else 0)"

definition deferred_cost :: "name \<Rightarrow> generated_transaction_object \<Rightarrow> int" where
  "deferred_cost a g = (if payer g = a then int (generated_transaction_object_size + packed_size g) else 0)"

definition footprint :: "('k, 'h) native_env \<Rightarrow> 'h account_object list \<Rightarrow> 'k auth_db \<Rightarrow> name \<Rightarrow> int" where
  "footprint env accts db a = (\<Sum>r\<leftarrow>accts. account_cost a r) + (\<Sum>r\<leftarrow>permissions db. permission_cost env a r)
     + (\<Sum>l\<leftarrow>links db. link_cost a l) + (\<Sum>g\<leftarrow>generated db. deferred_cost a g)"

definition account_small :: "'h account_object \<Rightarrow> bool" where
  "account_small r \<longleftrightarrow> length (code r) < 2 ^ 32 \<and> length (abi r) < 2 ^ 32"

definition tables_ok :: "('k, 'h) native_env \<Rightarrow> 'h account_object list \<Rightarrow> 'k auth_db \<Rightarrow> bool" where
  "tables_ok env accts db \<longleftrightarrow> tree_ok (acc_name ` set accts) db
     \<and> tbl_unique acc_name accts \<and> tbl_unique action_key (links db) \<and> tbl_unique sender_key (generated db)
     \<and> link_account ` set (links db) \<subseteq> acc_name ` set accts \<and> payer ` set (generated db) \<subseteq> acc_name ` set accts
     \<and> (\<forall>r\<in>set (permissions db). get_billable_size (key_size env) (auth r) \<le> 2 ^ 40)
     \<and> (\<forall>g\<in>set (generated db). packed_size g < 2 ^ 32) \<and> (\<forall>r\<in>set accts. account_small r)"

text \<open>A step keeps the tables in order and bills every account exactly what its rows cost more or less.\<close>

definition step_ok :: "('k, 'h) native_env \<Rightarrow> ('k, 'h) apply_context \<Rightarrow> ('k, 'h) apply_context \<Rightarrow> bool" where
  "step_ok env ctx ctx' \<longleftrightarrow> tables_ok env (account_tbl ctx') (auth_tables ctx') \<and> ram_table_ok (resource_tables ctx')
     \<and> (\<forall>a. ram_of a (resource_tables ctx') - ram_of a (resource_tables ctx) =
          footprint env (account_tbl ctx') (auth_tables ctx') a - footprint env (account_tbl ctx) (auth_tables ctx) a)"

lemma step_okI:
  assumes bill: "add_ram_usage n d c1 = Inr c2" and "ram_table_ok (resource_tables c1)" and d: "- (2 ^ 63) < d" "d < 2 ^ 63"
    and "\<And>a. ram_of a (resource_tables c1) = ram_of a (resource_tables ctx)"
    and "resource_tables ctx' = resource_tables c2" and "tables_ok env (account_tbl ctx') (auth_tables ctx')"
    and "\<And>a. footprint env (account_tbl ctx') (auth_tables ctx') a = footprint env (account_tbl ctx) (auth_tables ctx) a + (if a = n then d else 0)"
  shows "step_ok env ctx ctx'"
  using assms add_ram_usage_billed [OF bill assms(2) d] by (simp add: step_ok_def)

lemma sizes: "permission_object_size = 288" "permission_link_object_size = 144" "generated_transaction_object_size = 272"
  by (simp_all add: permission_object_size_def permission_link_object_size_def generated_transaction_object_size_def billable_size_v_def)

lemma validated_size:
  assumes "validate au" and "\<forall>k. ks k < 2 ^ 16"
  shows "get_billable_size ks au \<le> 2 ^ 40"
proof -
  have n: "length (keys au) + length (accounts au) + length (waits au) \<le> 2 ^ 16"
    using assms(1) by (simp add: validate_def split: if_splits)
  have "(\<Sum>k\<leftarrow>xs. billable_size_v 8 + ks (kw_key k)) \<le> length xs * (16 + 2 ^ 16)" for xs :: "'a key_weight list"
  proof (induction xs)
    case (Cons x xs)
    have "ks (kw_key x) < 2 ^ 16" using assms(2) by blast
    then show ?case using Cons by (simp add: billable_size_v_def)
  qed simp
  from this [of "keys au"] n have "length (accounts au) * billable_size_v 24 + length (waits au) * billable_size_v 16
      + (\<Sum>k\<leftarrow>keys au. billable_size_v 8 + ks (kw_key k)) \<le> 2 ^ 40"
    by (simp add: billable_size_v_def)
  then show ?thesis unfolding get_billable_size_def using u64_le le_trans by blast
qed

lemma small_size: "get_billable_size ks au \<le> 2 ^ 40 \<Longrightarrow> s64 (int (permission_object_size + get_billable_size ks au))
    = int (permission_object_size + get_billable_size ks au)"
  by (simp add: s64_def sizes)

subsection \<open>Links and delayed transactions\<close>

text \<open>Changes that leave the permission rows alone.\<close>

lemma tree_ok_frame:
  assumes "permissions db' = permissions db" and "next_permission_id db' = next_permission_id db"
  shows "tree_ok A db' \<longleftrightarrow> tree_ok A db"
  using assms by (simp add: tree_ok_def forest_ok_def)

lemma canceldelay_step:
  assumes ok: "tables_ok env (account_tbl ctx) (auth_tables ctx)" "ram_table_ok (resource_tables ctx)"
    and run: "apply_eosio_canceldelay auths cancel ctx = Inr ctx'"
  shows "step_ok env ctx ctx'"
proof -
  let ?k = "(0, transaction_id_to_sender_id (cd_trx_id cancel))" and ?db = "auth_tables ctx"
  obtain used r where cd: "cancel_deferred_transaction (transaction_id_to_sender_id (cd_trx_id cancel)) 0
      (ctx\<lparr>used_authorizations := used\<rparr>) = Inr (r, ctx')"
    using run require_authorization_frame by (fastforce simp: apply_eosio_canceldelay_def result_simps)
  show ?thesis
  proof (cases "tbl_find sender_key ?k (generated ?db)")
    case None
    then show ?thesis using cd ok by (auto simp: cancel_deferred_transaction_def step_ok_def)
  next
    case (Some g)
    let ?rest = "tbl_remove sender_key ?k (generated ?db)" and ?d = "int (generated_transaction_object_size + packed_size g)"
    obtain c2 where bill: "add_ram_usage (payer g) (- ?d) (ctx\<lparr>used_authorizations := used\<rparr>) = Inr c2"
      and ctx': "ctx' = c2\<lparr>auth_tables := (auth_tables c2)\<lparr>generated := tbl_remove sender_key ?k (generated (auth_tables c2))\<rparr>\<rparr>"
      using cd Some by (auto simp: cancel_deferred_transaction_def result_simps)
    have g: "g \<in> set (generated ?db)" using tbl_find_Some [OF Some] by simp
    then have small: "- (2 ^ 63) < - ?d" "- ?d < 2 ^ 63" using ok(1) by (auto simp: tables_ok_def sizes)
    have same: "auth_tables c2 = ?db" "account_tbl c2 = account_tbl ctx"
      using add_ram_usage_billed [OF bill _ small] ok(2) by simp_all
    have cost: "footprint env (account_tbl ctx') (auth_tables ctx') a =
        footprint env (account_tbl ctx) ?db a + (if a = payer g then - ?d else 0)" for a
    proof -
      have "(\<Sum>g\<leftarrow>?rest. deferred_cost a g) + deferred_cost a g = (\<Sum>g\<leftarrow>generated ?db. deferred_cost a g)"
        using ok(1) by (intro sum_list_remove [OF _ Some]) (simp add: tables_ok_def)
      moreover have "deferred_cost a g = (if a = payer g then ?d else 0)" by (simp add: deferred_cost_def)
      ultimately show ?thesis by (simp add: ctx' same footprint_def split: if_splits)
    qed
    have "tables_ok env (account_tbl ctx') (auth_tables ctx')"
      using ok(1) tree_ok_frame [of "?db\<lparr>generated := ?rest\<rparr>" ?db] tbl_unique_remove [of sender_key "generated ?db" ?k]
      by (auto simp: ctx' same tables_ok_def tbl_remove_def)
    from step_okI [OF bill _ small _ _ this] cost show ?thesis using ok(2) by (simp add: ctx')
  qed
qed

lemma unlinkauth_step:
  assumes ok: "tables_ok env (account_tbl ctx) (auth_tables ctx)" "ram_table_ok (resource_tables ctx)"
    and run: "apply_eosio_unlinkauth auths unlink ctx = Inr ctx'"
  shows "step_ok env ctx ctx'"
proof -
  let ?k = "(ul_account unlink, ul_code unlink, ul_type unlink)" and ?db = "auth_tables ctx" and ?d = "int permission_link_object_size"
  obtain used l c2 where l: "tbl_find action_key ?k (links ?db) = Some l"
    and bill: "add_ram_usage (link_account l) (- ?d) (ctx\<lparr>used_authorizations := used\<rparr>) = Inr c2"
    and ctx': "ctx' = c2\<lparr>auth_tables := (auth_tables c2)\<lparr>links := tbl_remove action_key ?k (links (auth_tables c2))\<rparr>\<rparr>"
    using run require_authorization_frame by (fastforce simp: apply_eosio_unlinkauth_def result_simps Let_def)
  have small: "- (2 ^ 63) < - ?d" "- ?d < 2 ^ 63" by (simp_all add: sizes)
  have same: "auth_tables c2 = ?db" "account_tbl c2 = account_tbl ctx"
    using add_ram_usage_billed [OF bill _ small] ok(2) by simp_all
  have cost: "footprint env (account_tbl ctx') (auth_tables ctx') a =
      footprint env (account_tbl ctx) ?db a + (if a = link_account l then - ?d else 0)" for a
  proof -
    have "(\<Sum>l\<leftarrow>tbl_remove action_key ?k (links ?db). link_cost a l) + link_cost a l = (\<Sum>l\<leftarrow>links ?db. link_cost a l)"
      using ok(1) by (intro sum_list_remove [OF _ l]) (simp add: tables_ok_def)
    moreover have "link_cost a l = (if a = link_account l then ?d else 0)" by (simp add: link_cost_def)
    ultimately show ?thesis by (simp add: ctx' same footprint_def split: if_splits)
  qed
  have "tables_ok env (account_tbl ctx') (auth_tables ctx')"
    using ok(1) tree_ok_frame [of "?db\<lparr>links := tbl_remove action_key ?k (links ?db)\<rparr>" ?db] tbl_unique_remove [of action_key "links ?db" ?k]
    by (auto simp: ctx' same tables_ok_def tbl_remove_def)
  from step_okI [OF bill _ small _ _ this] cost show ?thesis using ok(2) by (simp add: ctx')
qed

lemma is_account_iff: "is_account a ctx \<longleftrightarrow> a \<in> acc_name ` set (account_tbl ctx)"
  using tbl_find_None [of acc_name a "account_tbl ctx"] by (auto simp: is_account_def)

lemma linkauth_step:
  assumes ok: "tables_ok env (account_tbl ctx) (auth_tables ctx)" "ram_table_ok (resource_tables ctx)"
    and run: "apply_eosio_linkauth auths req ctx = Inr ctx'"
  shows "step_ok env ctx ctx'"
proof -
  let ?k = "(la_account req, la_code req, la_type req)" and ?db = "auth_tables ctx" and ?d = "int permission_link_object_size"
  have acct: "la_account req \<in> acc_name ` set (account_tbl ctx)"
    using run require_authorization_frame by (fastforce simp: apply_eosio_linkauth_def result_simps is_account_iff)
  have uniq: "tbl_unique action_key (links ?db)" using ok(1) by (simp add: tables_ok_def)
  show ?thesis
  proof (cases "tbl_find action_key ?k (links ?db)")
    case (Some l)
    let ?f = "\<lambda>l. l\<lparr>required_permission := la_requirement req\<rparr>"
    obtain used where ctx': "ctx' = ctx\<lparr>used_authorizations := used, auth_tables := ?db\<lparr>links := tbl_modify action_key ?k ?f (links ?db)\<rparr>\<rparr>"
      using run Some require_authorization_frame by (fastforce simp: apply_eosio_linkauth_def result_simps Let_def)
    have key: "action_key (?f l) = action_key l" for l by (simp add: action_key_def)
    have "map (link_cost a) (tbl_modify action_key ?k ?f (links ?db)) = map (link_cost a) (links ?db)" for a
      by (auto simp: tbl_modify_def link_cost_def)
    then have cost: "footprint env (account_tbl ctx') (auth_tables ctx') a = footprint env (account_tbl ctx) ?db a" for a
      by (simp add: ctx' footprint_def)
    have "tables_ok env (account_tbl ctx') (auth_tables ctx')"
      using ok(1) tree_ok_frame [of "?db\<lparr>links := tbl_modify action_key ?k ?f (links ?db)\<rparr>" ?db]
        tbl_unique_modify [of action_key ?f ?k "links ?db", OF key]
      by (auto simp: ctx' tables_ok_def tbl_modify_def)
    then show ?thesis using cost ok(2) by (simp add: step_ok_def ctx')
  next
    case None
    let ?l = "\<lparr>link_account = la_account req, link_code = la_code req, message_type = la_type req, required_permission = la_requirement req\<rparr>"
    obtain used where bill: "add_ram_usage (la_account req) ?d (ctx\<lparr>used_authorizations := used, auth_tables := ?db\<lparr>links := links ?db @ [?l]\<rparr>\<rparr>) = Inr ctx'"
      using run None require_authorization_frame
      by (fastforce simp: apply_eosio_linkauth_def result_simps Let_def tbl_create_eq_Inr action_key_def)
    have small: "- (2 ^ 63) < ?d" "?d < 2 ^ 63" by (simp_all add: sizes)
    have same: "auth_tables ctx' = ?db\<lparr>links := links ?db @ [?l]\<rparr>" "account_tbl ctx' = account_tbl ctx"
      using add_ram_usage_billed [OF bill _ small] ok(2) by simp_all
    have cost: "footprint env (account_tbl ctx') (auth_tables ctx') a =
        footprint env (account_tbl ctx) ?db a + (if a = la_account req then ?d else 0)" for a
      by (simp add: same footprint_def link_cost_def)
    have "tbl_find action_key (action_key ?l) (links ?db) = None" using None by (simp add: action_key_def)
    then have "tables_ok env (account_tbl ctx') (auth_tables ctx')"
      using ok(1) acct tree_ok_frame [of "?db\<lparr>links := links ?db @ [?l]\<rparr>" ?db] tbl_unique_create [OF uniq]
      by (auto simp: same tables_ok_def)
    from step_okI [OF bill _ small _ _ this] cost show ?thesis using ok(2) by simp
  qed
qed

subsection \<open>Code and ABI\<close>

text \<open>A change of an account row that keeps its name.\<close>

lemma account_change_step:
  assumes ok: "tables_ok env (account_tbl ctx) (auth_tables ctx)" "ram_table_ok (resource_tables ctx)"
    and acct: "tbl_find acc_name n (account_tbl ctx) = Some r" and f: "\<And>r. acc_name (f r) = acc_name r" "account_small (f r)"
    and c1: "account_tbl c1 = tbl_modify acc_name n f (account_tbl ctx)" "auth_tables c1 = auth_tables ctx"
      "resource_tables c1 = resource_tables ctx"
    and d: "d = int (length (code (f r))) * 10 + int (length (abi (f r))) - (int (length (code r)) * 10 + int (length (abi r)))"
    and run: "(if d \<noteq> 0 then add_ram_usage n d c1 else Inr c1) = Inr ctx'"
  shows "step_ok env ctx ctx'"
proof -
  let ?accts = "tbl_modify acc_name n f (account_tbl ctx)"
  have r: "r \<in> set (account_tbl ctx)" "acc_name r = n" using tbl_find_Some [OF acct] by auto
  have uniq: "tbl_unique acc_name (account_tbl ctx)" using ok(1) by (simp add: tables_ok_def)
  have "map acc_name ?accts = map acc_name (account_tbl ctx)" using f(1) by (simp add: tbl_modify_def)
  then have names: "acc_name ` set ?accts = acc_name ` set (account_tbl ctx)" by (metis list.set_map)
  have only: "x = r" if "x \<in> set (account_tbl ctx)" "acc_name x = n" for x
    using tbl_find_unique [OF uniq that(1)] that(2) acct by simp
  have small: "\<forall>x\<in>set ?accts. account_small x"
    using ok(1) f(2) only by (auto simp: tables_ok_def tbl_modify_def)
  have t: "tables_ok env ?accts (auth_tables ctx)"
    using ok(1) names small tbl_unique_modify [of acc_name f n "account_tbl ctx", OF f(1)] by (simp add: tables_ok_def)
  have range: "- (2 ^ 63) < d" "d < 2 ^ 63" using ok(1) r(1) f(2) d by (auto simp: tables_ok_def account_small_def)
  have cost: "footprint env ?accts (auth_tables ctx) a = footprint env (account_tbl ctx) (auth_tables ctx) a + (if a = n then d else 0)" for a
  proof -
    have "(\<Sum>x\<leftarrow>?accts. account_cost a x) + account_cost a r = (\<Sum>x\<leftarrow>account_tbl ctx. account_cost a x) + account_cost a (f r)"
      by (rule sum_list_modify [OF uniq acct])
    moreover have "account_cost a (f r) - account_cost a r = (if a = n then d else 0)"
      using f(1) r(2) d by (simp add: account_cost_def)
    ultimately show ?thesis by (simp add: footprint_def)
  qed
  show ?thesis
  proof (cases "d = 0")
    case True
    then show ?thesis using run t cost ok(2) c1 by (simp add: step_ok_def)
  next
    case False
    then have bill: "add_ram_usage n d c1 = Inr ctx'" using run by simp
    have "account_tbl ctx' = ?accts" "auth_tables ctx' = auth_tables ctx"
      using add_ram_usage_billed [OF bill _ range] ok(2) c1 by simp_all
    then show ?thesis using step_okI [OF bill _ range, of ctx ctx' env] t cost ok(2) c1 by simp
  qed
qed


lemma require_authorization_same:
  assumes "require_authorization a auths ctx = Inr ctx'"
  shows "auth_tables ctx' = auth_tables ctx" "resource_tables ctx' = resource_tables ctx" "account_tbl ctx' = account_tbl ctx"
    "sequence_tbl ctx' = sequence_tbl ctx" "a \<in> actor ` set auths"
  using require_authorization_frame [OF assms] by auto

lemma setcode_step:
  assumes ok: "tables_ok env (account_tbl ctx) (auth_tables ctx)" "ram_table_ok (resource_tables ctx)"
    and run: "apply_eosio_setcode env auths act ctx = Inr ctx'" and len: "length (sc_code act) < 2 ^ 32"
  shows "step_ok env ctx ctx'"
proof -
  let ?d = "\<lambda>r. int (length (sc_code act)) * 10 - int (length (code r)) * 10"
  obtain c0 where c0: "require_authorization (sc_account act) auths ctx = Inr c0"
    using run by (auto simp: apply_eosio_setcode_def result_simps)
  note same = require_authorization_same [OF c0]

  let ?f = "\<lambda>code_id a. a\<lparr>last_code_update := pending_block_time (auth_tables c0), code_version := code_id, code := sc_code act\<rparr>"
  let ?c1 = "\<lambda>code_id. c0\<lparr>account_tbl := tbl_modify acc_name (sc_account act) (?f code_id) (account_tbl c0),
      sequence_tbl := tbl_modify seq_name (sc_account act) (\<lambda>aso. aso\<lparr>code_sequence := u64 (code_sequence aso + 1)\<rparr>) (sequence_tbl c0)\<rparr>"
  obtain code_id r where r: "tbl_find acc_name (sc_account act) (account_tbl c0) = Some r"
    and bill: "(if ?d r \<noteq> 0 then add_ram_usage (sc_account act) (?d r) (?c1 code_id) else Inr (?c1 code_id)) = Inr ctx'"
    using run by (auto simp: apply_eosio_setcode_def c0 result_simps Let_def cong: if_cong)
  have small: "account_small (?f code_id r)" using ok(1) tbl_find_Some [OF r] len same(3) by (auto simp: tables_ok_def account_small_def)
  show ?thesis
    by (rule account_change_step [where f = "?f code_id", OF ok r [unfolded same(3)] _ small _ _ _ _ bill]) (simp_all add: same)
qed

lemma setabi_step:
  assumes ok: "tables_ok env (account_tbl ctx) (auth_tables ctx)" "ram_table_ok (resource_tables ctx)"
    and run: "apply_eosio_setabi auths act ctx = Inr ctx'" and len: "length (sa_abi act) < 2 ^ 32"
  shows "step_ok env ctx ctx'"
proof -
  let ?d = "\<lambda>r. int (length (sa_abi act)) - int (length (abi r))"
  obtain c0 where c0: "require_authorization (sa_account act) auths ctx = Inr c0"
    using run by (auto simp: apply_eosio_setabi_def result_simps)
  note same = require_authorization_same [OF c0]
  let ?c1 = "c0\<lparr>account_tbl := tbl_modify acc_name (sa_account act) (\<lambda>a. a\<lparr>abi := sa_abi act\<rparr>) (account_tbl c0),
      sequence_tbl := tbl_modify seq_name (sa_account act) (\<lambda>aso. aso\<lparr>abi_sequence := u64 (abi_sequence aso + 1)\<rparr>) (sequence_tbl c0)\<rparr>"
  obtain r where r: "tbl_find acc_name (sa_account act) (account_tbl c0) = Some r"
    and bill: "(if ?d r \<noteq> 0 then add_ram_usage (sa_account act) (?d r) ?c1 else Inr ?c1) = Inr ctx'"
    using run by (auto simp: apply_eosio_setabi_def c0 result_simps Let_def cong: if_cong)
  have small: "account_small (r\<lparr>abi := sa_abi act\<rparr>)" using ok(1) tbl_find_Some [OF r] len same(3) by (auto simp: tables_ok_def account_small_def)
  show ?thesis
    by (rule account_change_step [where f = "\<lambda>a. a\<lparr>abi := sa_abi act\<rparr>", OF ok r [unfolded same(3)] _ small _ _ _ _ bill]) (simp_all add: same)
qed

subsection \<open>Permissions\<close>

lemma tables_ok_permissions:
  assumes "tables_ok env accts db" and "tree_ok (acc_name ` set accts) db'" and "links db' = links db" and "generated db' = generated db"
    and "\<forall>r\<in>set (permissions db'). get_billable_size (key_size env) (auth r) \<le> 2 ^ 40"
  shows "tables_ok env accts db'"
  using assms by (simp add: tables_ok_def)

lemma create_permission_frame:
  assumes "create_permission n nm par au tm db = Inr (p, db')"
  shows "links db' = links db \<and> generated db' = generated db \<and> permissions db' = permissions db @ [p]
    \<and> perm_id p = next_permission_id db \<and> owner_key p = (n, nm) \<and> auth p = au"
  using assms by (auto simp: create_permission_def Let_def result_simps tbl_create_eq_Inr owner_key_def)

lemma deleteauth_step:
  assumes ok: "tables_ok env (account_tbl ctx) (auth_tables ctx)" "ram_table_ok (resource_tables ctx)"
    and run: "apply_eosio_deleteauth env auths rm ctx = Inr ctx'"
  shows "step_ok env ctx ctx'"
proof -
  let ?db = "auth_tables ctx" and ?size = "\<lambda>p. int (permission_object_size + get_billable_size (key_size env) (auth p))"
  obtain c0 where c0: "require_authorization (da_account rm) auths ctx = Inr c0"
    using run by (auto simp: apply_eosio_deleteauth_def result_simps)
  note same = require_authorization_same [OF c0]
  obtain p db where nm: "da_permission rm \<noteq> active_name" "da_permission rm \<noteq> owner_name"
    and p: "get_permission (permission_level (da_account rm) (da_permission rm)) ?db = Inr p"
    and db: "remove_permission p ?db = Inr db"
    and bill: "add_ram_usage (da_account rm) (- s64 (?size p)) (c0\<lparr>auth_tables := db\<rparr>) = Inr ctx'"
    using run by (auto simp: apply_eosio_deleteauth_def c0 same result_simps Let_def)
  have row: "p \<in> set (permissions ?db)" "owner_key p = (da_account rm, da_permission rm)" "permission_object.owner p \<noteq> 0"
    using get_permission_row [OF p] by auto
  have tree: "tree_ok (acc_name ` set (account_tbl ctx)) ?db" using ok(1) by (simp add: tables_ok_def)
  have id: "perm_id p \<noteq> 0" by (rule tree_ok_row_id [OF tree row(1,3)])
  have t: "tree_ok (acc_name ` set (account_tbl ctx)) db" and rows: "permissions db = tbl_remove perm_id (perm_id p) (permissions ?db)"
    using tree_ok_remove [OF tree row(1) _ _ id db] row(2) nm by (auto simp: owner_key_def)
  have rest: "links db = links ?db" "generated db = generated ?db"
    using db by (auto simp: remove_permission_def result_simps)
  have size: "get_billable_size (key_size env) (auth p) \<le> 2 ^ 40" using ok(1) row(1) by (simp add: tables_ok_def)
  then have small: "- (2 ^ 63) < - s64 (?size p)" "- s64 (?size p) < 2 ^ 63"
    unfolding small_size [OF size] by (simp_all add: sizes)
  have after: "account_tbl ctx' = account_tbl ctx" "auth_tables ctx' = db"
    using add_ram_usage_billed [OF bill _ small] ok(2) same by simp_all
  have find: "tbl_find perm_id (perm_id p) (permissions ?db) = Some p" and uniq: "tbl_unique perm_id (permissions ?db)"
    using forest_lookup [OF _ row(1)] tree by (auto simp: tree_ok_def forest_ok_def)
  have cost: "footprint env (account_tbl ctx') (auth_tables ctx') a =
      footprint env (account_tbl ctx) ?db a + (if a = da_account rm then - s64 (?size p) else 0)" for a
  proof -
    have "(\<Sum>r\<leftarrow>permissions db. permission_cost env a r) + permission_cost env a p = (\<Sum>r\<leftarrow>permissions ?db. permission_cost env a r)"
      unfolding rows by (rule sum_list_remove [OF uniq find])
    moreover have "permission_cost env a p = (if a = da_account rm then s64 (?size p) else 0)"
      unfolding small_size [OF size] using row(2) id by (auto simp: permission_cost_def owner_key_def)
    ultimately show ?thesis by (simp add: after footprint_def rest split: if_splits)
  qed
  have "tables_ok env (account_tbl ctx') (auth_tables ctx')"
    unfolding after using ok(1) by (intro tables_ok_permissions [OF ok(1) t rest]) (auto simp: rows tbl_remove_def tables_ok_def)
  from step_okI [OF bill _ small _ _ this] cost show ?thesis using ok(2) same by simp
qed

text \<open>\<open>updateauth\<close>, for a permission that is there and for a new one.\<close>

lemma modify_permission_step:
  assumes ok: "tables_ok env (account_tbl ctx) (auth_tables ctx)" "ram_table_ok (resource_tables ctx)"
    and row: "p \<in> set (permissions (auth_tables ctx))" "perm_id p \<noteq> 0"
    and au: "get_billable_size (key_size env) au \<le> 2 ^ 40"
    and c0: "auth_tables c0 = auth_tables ctx" "resource_tables c0 = resource_tables ctx" "account_tbl c0 = account_tbl ctx"
    and bill: "add_ram_usage (permission_object.owner p)
        (s64 (int (permission_object_size + get_billable_size (key_size env) au))
          - s64 (int (permission_object_size + get_billable_size (key_size env) (auth p))))
        (c0\<lparr>auth_tables := modify_permission p au (auth_tables ctx)\<rparr>) = Inr ctx'"
  shows "step_ok env ctx ctx'"
proof -
  let ?db = "auth_tables ctx" and ?size = "\<lambda>au. int (permission_object_size + get_billable_size (key_size env) au)"
  let ?new = "modify_permission p au ?db" and ?f = "\<lambda>po. po\<lparr>auth := au, last_updated := pending_block_time ?db\<rparr>"
  let ?d = "s64 (?size au) - s64 (?size (auth p))"
  have size: "get_billable_size (key_size env) (auth p) \<le> 2 ^ 40" using ok(1) row(1) by (simp add: tables_ok_def)
  have d: "?d = ?size au - ?size (auth p)" unfolding small_size [OF size] small_size [OF au] ..
  have small: "- (2 ^ 63) < ?d" "?d < 2 ^ 63" unfolding d using size au by simp_all
  have after: "account_tbl ctx' = account_tbl ctx" "auth_tables ctx' = ?new"
    using add_ram_usage_billed [OF bill _ small] ok(2) c0 by simp_all
  have tree: "tree_ok (acc_name ` set (account_tbl ctx)) ?db" using ok(1) by (simp add: tables_ok_def)
  have find: "tbl_find perm_id (perm_id p) (permissions ?db) = Some p" and uniq: "tbl_unique perm_id (permissions ?db)"
    using forest_lookup [OF _ row(1)] tree by (auto simp: tree_ok_def forest_ok_def)
  have rows: "permissions ?new = tbl_modify perm_id (perm_id p) ?f (permissions ?db)" "links ?new = links ?db" "generated ?new = generated ?db"
    by (simp_all add: modify_permission_def)
  have cost: "footprint env (account_tbl ctx') (auth_tables ctx') a =
      footprint env (account_tbl ctx) ?db a + (if a = permission_object.owner p then ?d else 0)" for a
  proof -
    have "(\<Sum>r\<leftarrow>permissions ?new. permission_cost env a r) + permission_cost env a p =
        (\<Sum>r\<leftarrow>permissions ?db. permission_cost env a r) + permission_cost env a (?f p)"
      unfolding rows(1) by (rule sum_list_modify [OF uniq find])
    moreover have "permission_cost env a (?f p) - permission_cost env a p = (if a = permission_object.owner p then ?d else 0)"
      unfolding d using row(2) by (auto simp: permission_cost_def)
    ultimately show ?thesis by (simp add: after footprint_def rows(2,3))
  qed
  have "tables_ok env (account_tbl ctx') (auth_tables ctx')"
    unfolding after using ok(1) au tree
    by (intro tables_ok_permissions [OF ok(1) _ rows(2,3)]) (auto simp: tree_ok_modify rows(1) tbl_modify_def tables_ok_def)
  from step_okI [OF bill _ small _ _ this] cost show ?thesis using ok(2) c0 by simp
qed

lemma create_permission_step:
  assumes ok: "tables_ok env (account_tbl ctx) (auth_tables ctx)" "ram_table_ok (resource_tables ctx)"
    and q: "q \<in> set (permissions (auth_tables ctx))" "permission_object.owner q = n" and n: "n \<in> acc_name ` set (account_tbl ctx)"
    and nm: "nm \<noteq> 0" "nm \<noteq> owner_name" and au: "get_billable_size (key_size env) au \<le> 2 ^ 40"
    and c0: "auth_tables c0 = auth_tables ctx" "resource_tables c0 = resource_tables ctx" "account_tbl c0 = account_tbl ctx"
    and p: "create_permission n nm (perm_id q) au tm (auth_tables ctx) = Inr (p, db)"
    and bill: "add_ram_usage n (s64 (int (permission_object_size + get_billable_size (key_size env) au))) (c0\<lparr>auth_tables := db\<rparr>) = Inr ctx'"
  shows "step_ok env ctx ctx'"
proof -
  let ?size = "int (permission_object_size + get_billable_size (key_size env) au)"
  have small: "- (2 ^ 63) < s64 ?size" "s64 ?size < 2 ^ 63" unfolding small_size [OF au] using au by (simp_all add: sizes)
  have after: "account_tbl ctx' = account_tbl ctx" "auth_tables ctx' = db"
    using add_ram_usage_billed [OF bill _ small] ok(2) c0 by simp_all
  note f = create_permission_frame [OF p]
  have tree: "tree_ok (acc_name ` set (account_tbl ctx)) (auth_tables ctx)" using ok(1) by (simp add: tables_ok_def)
  have id: "perm_id p \<noteq> 0" using tree_ok_next [OF tree] f by simp
  have cost: "footprint env (account_tbl ctx') (auth_tables ctx') a =
      footprint env (account_tbl ctx) (auth_tables ctx) a + (if a = n then s64 ?size else 0)" for a
    unfolding small_size [OF au] using f id by (simp add: after footprint_def permission_cost_def owner_key_def)
  have "tables_ok env (account_tbl ctx') (auth_tables ctx')"
    unfolding after using ok(1) au f tree_ok_create [OF tree q n nm p]
    by (intro tables_ok_permissions [OF ok(1)]) (auto simp: tables_ok_def)
  from step_okI [OF bill _ small _ _ this] cost show ?thesis using ok(2) c0 by simp
qed

lemma updateauth_step:
  assumes ok: "tables_ok env (account_tbl ctx) (auth_tables ctx)" "ram_table_ok (resource_tables ctx)"
    and ks: "\<forall>k. key_size env k < 2 ^ 16" and run: "apply_eosio_updateauth env auths up ctx = Inr ctx'"
  shows "step_ok env ctx ctx'"
proof -
  let ?db = "auth_tables ctx" and ?size = "\<lambda>au. int (permission_object_size + get_billable_size (key_size env) au)"
  obtain c0 where c0: "require_authorization (ua_account up) auths ctx = Inr c0"
    using run by (auto simp: apply_eosio_updateauth_def result_simps)
  note same = require_authorization_same [OF c0]
  obtain r parent_id where nm: "ua_permission up \<noteq> 0" and r: "tbl_find acc_name (ua_account up) (account_tbl c0) = Some r"
    and v: "validate (ua_auth up)"
    and par: "(if ua_permission up \<noteq> owner_name
             then bind_r (get_permission (permission_level (ua_account up) (ua_parent up)) (auth_tables c0)) (\<lambda>p. Inr (perm_id p)) else Inr 0) = Inr parent_id"
    and go: "(case tbl_find owner_key (ua_account up, ua_permission up) (permissions (auth_tables c0)) of
       Some p \<Rightarrow> bind_r (eos_assert (parent_id = parent p) action_validate_exception) (\<lambda>_.
         add_ram_usage (permission_object.owner p) (s64 (?size (ua_auth up)) - s64 (?size (auth p)))
           (c0\<lparr>auth_tables := modify_permission p (ua_auth up) (auth_tables c0)\<rparr>))
     | None \<Rightarrow> bind_r (on_auth (create_permission (ua_account up) (ua_permission up) parent_id (ua_auth up) 0) c0) (\<lambda>(p, ctx).
         add_ram_usage (ua_account up) (s64 (?size (auth p))) ctx)) = Inr ctx'"
    using run by (auto simp: apply_eosio_updateauth_def c0 result_simps Let_def find_permission_def name_empty_def cong: if_cong option.case_cong)
  note r = r [unfolded same] and par = par [unfolded same] and go = go [unfolded same]
  have au: "get_billable_size (key_size env) (ua_auth up) \<le> 2 ^ 40" by (rule validated_size [OF v ks])
  have tree: "tree_ok (acc_name ` set (account_tbl ctx)) ?db" using ok(1) by (simp add: tables_ok_def)
  have n: "ua_account up \<in> acc_name ` set (account_tbl ctx)" using tbl_find_Some [OF r] by (metis imageI)
  then have n0: "ua_account up \<noteq> 0" using tree by (auto simp: tree_ok_def)
  show ?thesis
  proof (cases "tbl_find owner_key (ua_account up, ua_permission up) (permissions ?db)")
    case (Some p)
    then have row: "p \<in> set (permissions ?db)" "permission_object.owner p \<noteq> 0"
      using tbl_find_Some [OF Some] n0 by (auto simp: owner_key_def)
    have bill: "add_ram_usage (permission_object.owner p) (s64 (?size (ua_auth up)) - s64 (?size (auth p)))
        (c0\<lparr>auth_tables := modify_permission p (ua_auth up) ?db\<rparr>) = Inr ctx'"
      using go Some by (simp add: result_simps)
    show ?thesis by (rule modify_permission_step [OF ok row(1) tree_ok_row_id [OF tree row] au same(1-3) bill])
  next
    case None
    have "ua_permission up \<noteq> owner_name"
    proof
      assume "ua_permission up = owner_name"
      moreover have "standard_permissions (permissions ?db) (ua_account up)" using tree n by (auto simp: tree_ok_def)
      ultimately show False using None by (force simp: standard_permissions_def tbl_find_None)
    qed
    moreover from this obtain q where q: "get_permission (permission_level (ua_account up) (ua_parent up)) ?db = Inr q" "parent_id = perm_id q"
      using par by (auto simp: result_simps)
    moreover have "q \<in> set (permissions ?db)" "permission_object.owner q = ua_account up"
      using get_permission_row [OF q(1)] by (auto simp: owner_key_def)
    moreover obtain p db where p: "create_permission (ua_account up) (ua_permission up) (perm_id q) (ua_auth up) 0 ?db = Inr (p, db)"
      and b: "add_ram_usage (ua_account up) (s64 (?size (auth p))) (c0\<lparr>auth_tables := db\<rparr>) = Inr ctx'"
      using go None q(2) by (auto simp: on_auth_def same result_simps)
    moreover have "auth p = ua_auth up" using create_permission_frame [OF p] by simp
    ultimately show ?thesis using create_permission_step [OF ok _ _ n nm _ au same(1-3) p, of ctx'] by simp
  qed
qed

subsection \<open>New accounts\<close>

lemma initialize_account_ram:
  assumes "initialize_account n db = Inr db'" and "ram_table_ok db"
  shows "ram_table_ok db' \<and> ram_of a db' = ram_of a db"
proof -
  let ?u = "\<lparr>usage_owner = n, net_usage = empty_usage, cpu_usage = empty_usage, ram_usage = 0\<rparr>"
  have u: "usage_tbl db' = usage_tbl db @ [?u]" and new: "tbl_find usage_owner n (usage_tbl db) = None"
    using assms(1) by (auto simp: initialize_account_def initialize_account_xos_def result_simps Let_def tbl_create_eq_Inr)
  show ?thesis
    using assms(2) new tbl_unique_create [of usage_owner "usage_tbl db" ?u]
    by (auto simp: ram_table_ok_def ram_of_def u tbl_find_append split: option.split)
qed

lemma newaccount_step:
  assumes ok: "tables_ok env (account_tbl ctx) (auth_tables ctx)" "ram_table_ok (resource_tables ctx)"
    and ks: "\<forall>k. key_size env k < 2 ^ 16" and run: "apply_eosio_newaccount env auths create ctx = Inr ctx'"
  shows "step_ok env ctx ctx'"
proof -
  let ?db = "auth_tables ctx" and ?n = "na_name create" and ?size = "\<lambda>au. int (get_billable_size (key_size env) au)"
  let ?row = "\<lparr>acc_name = ?n, vm_type = 0, vm_version = 0, privileged = False, last_code_update = 0,
     code_version = null_hash env, creation_date = set_time_point (pending_block_time ?db), code = [], abi = []\<rparr>"
  obtain c0 where c0: "require_authorization (na_creator create) auths ctx = Inr c0"
    using run by (auto simp: apply_eosio_newaccount_def result_simps)
  note same = require_authorization_same [OF c0]
  obtain seqs p db1 q db2 res where v: "validate (na_owner create)" "validate (na_active create)" and n0: "?n \<noteq> 0"
    and new: "tbl_find acc_name ?n (account_tbl ctx) = None"
    and p: "create_permission ?n owner_name 0 (na_owner create) 0 ?db = Inr (p, db1)"
    and q: "create_permission ?n active_name (perm_id p) (na_active create) 0 db1 = Inr (q, db2)"
    and res: "initialize_account ?n (resource_tables ctx) = Inr res"
    and bill: "add_ram_usage ?n (s64 (2048 + 2 * int permission_object_size + ?size (auth p) + ?size (auth q)))
      (c0\<lparr>account_tbl := account_tbl ctx @ [?row], sequence_tbl := seqs, auth_tables := db2, resource_tables := res\<rparr>) = Inr ctx'"
    using run by (auto simp: apply_eosio_newaccount_def c0 same result_simps Let_def on_auth_def tbl_create_eq_Inr name_empty_def)
  have tree: "tree_ok (acc_name ` set (account_tbl ctx)) ?db" using ok(1) by (simp add: tables_ok_def)
  note t = tree_ok_new_account [OF tree n0 p q]
  let ?d = "2048 + 2 * int permission_object_size + ?size (auth p) + ?size (auth q)"
  have au: "get_billable_size (key_size env) (auth p) \<le> 2 ^ 40" "get_billable_size (key_size env) (auth q) \<le> 2 ^ 40"
    using t validated_size [OF v(1) ks] validated_size [OF v(2) ks] by simp_all
  then have d: "s64 ?d = ?d" by (simp add: s64_def sizes)
  have small: "- (2 ^ 63) < s64 ?d" "s64 ?d < 2 ^ 63" unfolding d using au by (simp_all add: sizes)
  have r: "ram_table_ok res" "ram_of a res = ram_of a (resource_tables ctx)" for a
    using initialize_account_ram [OF res ok(2)] by auto
  have after: "account_tbl ctx' = account_tbl ctx @ [?row]" "auth_tables ctx' = db2"
    using add_ram_usage_billed [OF bill _ small] r by simp_all
  have fr: "links db2 = links ?db" "generated db2 = generated ?db"
    using create_permission_frame [OF p] create_permission_frame [OF q] by auto
  have cost: "footprint env (account_tbl ctx') (auth_tables ctx') a =
      footprint env (account_tbl ctx) ?db a + (if a = ?n then s64 ?d else 0)" for a
    unfolding d using t fr by (auto simp: after footprint_def account_cost_def permission_cost_def owner_key_def)
  have "tables_ok env (account_tbl ctx') (auth_tables ctx')"
    using ok(1) t fr au tbl_unique_create [of acc_name "account_tbl ctx" ?row] new
    by (auto simp: after tables_ok_def account_small_def)
  from step_okI [OF bill _ small _ _ this] cost show ?thesis using r by simp
qed

section \<open>Properties\<close>

text \<open>Code and ABI are blobs of less than 4 GB.\<close>

fun data_small :: "'k native_action \<Rightarrow> bool" where
  "data_small (Setcode a) \<longleftrightarrow> length (sc_code a) < 2 ^ 32"
| "data_small (Setabi a) \<longleftrightarrow> length (sa_abi a) < 2 ^ 32"
| "data_small _ \<longleftrightarrow> True"

lemma apply_handler_step:
  assumes "tables_ok env (account_tbl ctx) (auth_tables ctx)" and "ram_table_ok (resource_tables ctx)"
    and "\<forall>k. key_size env k < 2 ^ 16" and "data_small act" and "apply_handler env auths act ctx = Inr ctx'"
  shows "step_ok env ctx ctx'"
  using assms by (cases act)
    (auto intro: newaccount_step setcode_step setabi_step updateauth_step deleteauth_step linkauth_step unlinkauth_step canceldelay_step)

definition run_actions ::
    "('k, 'h) native_env \<Rightarrow> (permission_level list \<times> 'k::linorder native_action) list \<Rightarrow> ('k, 'h) apply_context \<Rightarrow> ('k, 'h) apply_context result" where
  "run_actions env = fold_r (\<lambda>(auths, act). apply_handler env auths act)"

text \<open>The same amount more or less is billed to every account as its rows cost more or less.\<close>

definition ram_moves_along :: "('k, 'h) native_env \<Rightarrow> ('k, 'h) apply_context \<Rightarrow> ('k, 'h) apply_context \<Rightarrow> bool" where
  "ram_moves_along env ctx ctx' \<longleftrightarrow> (\<forall>a. ram_of a (resource_tables ctx') - ram_of a (resource_tables ctx)
     = footprint env (account_tbl ctx') (auth_tables ctx') a - footprint env (account_tbl ctx) (auth_tables ctx) a)"

lemma run_actions_steps:
  assumes start: "tables_ok env (account_tbl ctx) (auth_tables ctx)" "ram_table_ok (resource_tables ctx)"
    and env: "\<forall>k. key_size env k < 2 ^ 16" "\<forall>(auths, act)\<in>set acts. data_small act"
    and run: "run_actions env acts ctx = Inr ctx'"
  shows "tables_ok env (account_tbl ctx') (auth_tables ctx') \<and> ram_table_ok (resource_tables ctx') \<and> ram_moves_along env ctx ctx'"
proof -
  let ?P = "\<lambda>c. tables_ok env (account_tbl c) (auth_tables c) \<and> ram_table_ok (resource_tables c) \<and> ram_moves_along env ctx c"
  show ?thesis
  proof (rule fold_r_invariant [OF run [unfolded run_actions_def], of ?P])
    fix x c c'
    assume x: "x \<in> set acts" and P: "?P c" and step: "(case x of (auths, act) \<Rightarrow> apply_handler env auths act) c = Inr c'"
    obtain auths act where xa: "x = (auths, act)" by (cases x)
    have small: "data_small act" using env(2) x xa by auto
    have "step_ok env c c'" using apply_handler_step [OF _ _ env(1) small, of c auths c'] P step xa by simp
    then have s: "tables_ok env (account_tbl c') (auth_tables c')" "ram_table_ok (resource_tables c')" "ram_moves_along env c c'"
      by (simp_all add: step_ok_def ram_moves_along_def)
    have "ram_moves_along env ctx c'"
      unfolding ram_moves_along_def
    proof
      fix a
      show "ram_of a (resource_tables c') - ram_of a (resource_tables ctx)
          = footprint env (account_tbl c') (auth_tables c') a - footprint env (account_tbl ctx) (auth_tables ctx) a"
        using spec [OF s(3) [unfolded ram_moves_along_def], of a] spec [OF conjunct2 [OF conjunct2 [OF P], unfolded ram_moves_along_def], of a] by linarith
    qed
    then show "?P c'" using s by blast
  qed (use start in \<open>simp add: ram_moves_along_def\<close>)
qed

text \<open>C4. Whatever native actions run, in any order: each account keeps an owner permission without a
  parent and an active permission directly below it, every permission belongs to an account that is
  there, and the owner permission satisfies each permission of its account, so the owner can always
  take any of them back.\<close>

theorem accounts_keep_their_trees:
  assumes "tables_ok env (account_tbl ctx) (auth_tables ctx)" and "ram_table_ok (resource_tables ctx)"
    and "\<forall>k. key_size env k < 2 ^ 16" and "\<forall>(auths, act)\<in>set acts. data_small act"
    and "run_actions env acts ctx = Inr ctx'" and a: "a \<in> acc_name ` set (account_tbl ctx')"
  shows "standard_permissions (permissions (auth_tables ctx')) a
    \<and> (\<exists>ow\<in>set (permissions (auth_tables ctx')). owner_key ow = (a, owner_name)
        \<and> (\<forall>r\<in>set (permissions (auth_tables ctx')). permission_object.owner r = a \<longrightarrow>
             satisfies ow r (permissions (auth_tables ctx')) = Inr True))
    \<and> (\<forall>r\<in>set (permissions (auth_tables ctx')). perm_id r \<noteq> 0 \<longrightarrow> permission_object.owner r \<in> acc_name ` set (account_tbl ctx'))"
proof -
  let ?db = "auth_tables ctx'" and ?A = "acc_name ` set (account_tbl ctx')"
  have t: "tree_ok ?A ?db" using run_actions_steps [OF assms(1-5)] by (simp add: tables_ok_def)
  then have ok: "forest_ok ?db" and "a \<noteq> 0" and std: "standard_permissions (permissions ?db) a" using a by (auto simp: tree_ok_def)
  obtain ow where ow: "ow \<in> set (permissions ?db)" "owner_key ow = (a, owner_name)" using std by (auto simp: standard_permissions_def)
  have "satisfies ow r (permissions ?db) = Inr True" if r: "r \<in> set (permissions ?db)" "permission_object.owner r = a" for r
  proof -
    have o: "permission_object.owner ow = a" using ow(2) by (simp add: owner_key_def)
    have "perm_id ow \<noteq> 0" "perm_id r \<noteq> 0"
      using tree_ok_row_id [OF t ow(1)] tree_ok_row_id [OF t r(1)] o r(2) \<open>a \<noteq> 0\<close> by simp_all
    then show ?thesis using satisfies_spec [OF ok r(1)] owner_above [OF t r a ow] o r(2) by simp
  qed
  moreover have "\<forall>r\<in>set (permissions ?db). perm_id r \<noteq> 0 \<longrightarrow> permission_object.owner r \<in> ?A"
    using t by (auto simp: tree_ok_def permission_placed_def)
  ultimately show ?thesis using std ow by blast
qed

text \<open>C21. RAM is billed by exact differences: over any run of native actions, what an account is billed changes by exactly what
  its rows in the native tables cost more or less (the account itself, ten times its code, its ABI, its permissions, links and
  delayed transactions).  Nothing is assumed of what was billed before, which may include rows of contracts and lack the
  rows that genesis makes without billing them.\<close>

theorem ram_billed_by_difference:
  assumes "tables_ok env (account_tbl ctx) (auth_tables ctx)" and "ram_table_ok (resource_tables ctx)"
    and "\<forall>k. key_size env k < 2 ^ 16" and "\<forall>(auths, act)\<in>set acts. data_small act"
    and "run_actions env acts ctx = Inr ctx'"
  shows "ram_of a (resource_tables ctx') - ram_of a (resource_tables ctx)
    = footprint env (account_tbl ctx') (auth_tables ctx') a - footprint env (account_tbl ctx) (auth_tables ctx) a"
  using run_actions_steps [OF assms] by (simp add: ram_moves_along_def)

text \<open>Account 7 alone, billed for its two permissions of one 34-byte key each.\<close>

definition demo_env :: "(nat, nat) native_env" where
  "demo_env = \<lparr>key_size = (\<lambda>_. 34), code_hash = length, null_hash = 0, wasm_validate = (\<lambda>_. Inr ()),
     is_producing_block = True, key_blacklist = []\<rparr>"

definition demo_context :: "(nat, nat) apply_context" where
  "demo_context = \<lparr>auth_tables = one_account,
     resource_tables = empty_resource_db\<lparr>usage_tbl :=
       [\<lparr>usage_owner = 7, net_usage = empty_usage, cpu_usage = empty_usage, ram_usage = 2724\<rparr>]\<rparr>,
     account_tbl = [\<lparr>acc_name = 7, vm_type = 0, vm_version = 0, privileged = False, last_code_update = 0, code_version = 0,
       creation_date = 0, code = [], abi = []\<rparr>],
     sequence_tbl = [\<lparr>seq_name = 7, recv_sequence = 0, auth_sequence = 0, code_sequence = 0, abi_sequence = 0\<rparr>],
     used_authorizations = [False], account_ram_deltas = [], validate_ram_usage = {}\<rparr>"

definition demo_actions :: "(permission_level list \<times> nat native_action) list" where
  "demo_actions =
     [([permission_level 7 active_name],
        Linkauth \<lparr>la_account = 7, la_code = 7, la_type = 9, la_requirement = active_name\<rparr>),
      ([permission_level 7 active_name], Setcode \<lparr>sc_account = 7, sc_vmtype = 0, sc_vmversion = 0, sc_code = [1, 2, 3]\<rparr>),
      ([permission_level 7 active_name], Unlinkauth \<lparr>ul_account = 7, ul_code = 7, ul_type = 9\<rparr>)]"

lemma demo_start:
  "tables_ok demo_env (account_tbl demo_context) (auth_tables demo_context)" "ram_table_ok (resource_tables demo_context)"
  "\<forall>k. key_size demo_env k < 2 ^ 16" "\<forall>(auths, act)\<in>set demo_actions. data_small act"
  by (auto simp: tables_ok_def demo_env_def demo_context_def one_account_def tree_ok_def tbl_unique_def
    standard_permissions_def permission_placed_def owner_key_def standard_names authority_of_key_def empty_authority_def get_billable_size_def billable_size_v_def
    account_small_def ram_table_ok_def demo_actions_def forest_ok_def)

lemmas handler_run = run_actions_def demo_actions_def apply_eosio_linkauth_def apply_eosio_setcode_def apply_eosio_unlinkauth_def
  require_authorization_def is_account_def add_ram_usage_def trx_add_ram_usage_def add_pending_ram_usage_def modify_usage_def
  tbl_get_def tbl_find_def tbl_create_def tbl_modify_def tbl_remove_def action_key_def name_empty_def int_to_u64_def Let_def demo_env_def demo_context_def
  one_account_def empty_resource_db_def

lemma demo_run: "\<exists>ctx. run_actions demo_env demo_actions demo_context = Inr ctx \<and> acc_name ` set (account_tbl ctx) = {7}
    \<and> ram_of 7 (resource_tables ctx) = 2754"
  by (simp add: handler_run standard_names sizes ram_of_def int64_bounds eosio_any_name_def)

theorem accounts_keep_their_trees_witness:
  "\<exists>ctx ow. run_actions demo_env demo_actions demo_context = Inr ctx \<and> owner_key ow = (7, owner_name)
     \<and> ow \<in> set (permissions (auth_tables ctx)) \<and> satisfies ow ow (permissions (auth_tables ctx)) = Inr True"
proof -
  obtain ctx where run: "run_actions demo_env demo_actions demo_context = Inr ctx" and a: "7 \<in> acc_name ` set (account_tbl ctx)"
    using demo_run by blast
  from accounts_keep_their_trees [OF demo_start run a] run show ?thesis by (auto simp: owner_key_def)
qed

text \<open>Three bytes of code are paid for with thirty; the link is gone again.\<close>

theorem ram_billed_by_difference_witness:
  "\<exists>ctx. run_actions demo_env demo_actions demo_context = Inr ctx \<and> ram_of 7 (resource_tables demo_context) = 2724 \<and> ram_of 7 (resource_tables ctx) = 2754
     \<and> footprint demo_env (account_tbl ctx) (auth_tables ctx) 7 = footprint demo_env (account_tbl demo_context) (auth_tables demo_context) 7 + 30"
proof -
  obtain ctx where run: "run_actions demo_env demo_actions demo_context = Inr ctx" and r: "ram_of 7 (resource_tables ctx) = 2754"
    using demo_run by blast
  have s: "ram_of 7 (resource_tables demo_context) = 2724" by (simp add: demo_context_def ram_of_def tbl_find_def)
  from ram_billed_by_difference [OF demo_start run, of 7] run r s show ?thesis by simp
qed

end
