(* ===== verification/ContractTables.thy ===== *)
theory ContractTables
  imports NativeContract "HOL-Library.Product_Lexorder"
begin

text \<open>
  The tables a contract keeps (\<^verbatim>\<open>libraries/chain/apply_context.cpp\<close> and
  \<open>apply_context.hpp\<close>, \<open>contract_table_objects.hpp\<close>): rows under a primary key, the rows of a
  secondary index, the iterators by which contract code names them, and the RAM billed for them.
  A pointer to a row is the id of the row; reading a pointer whose row is gone is undefined.  The
  secondary index is generic in its key, as the template is.  Iterators are the \<open>int\<close> handed to the
  contract: not negative for a row, below -1 for the end of a table, -1 for no table; a step back from
  the least \<open>int\<close> negates it, which is undefined.
\<close>

section \<open>Rows\<close>

record table_id_object =
  tab_id :: nat
  tab_code :: name
  tab_scope :: name
  tab_table :: name
  tab_payer :: name
  tab_count :: nat

record key_value_object =
  kv_id :: nat
  kv_tab :: nat
  primary_key :: nat
  kv_payer :: name
  kv_value :: bytes

record 's index_object =
  ix_id :: nat
  ix_tab :: nat
  ix_primary :: nat
  ix_payer :: name
  secondary_key :: 's

definition table_key :: "table_id_object \<Rightarrow> name \<times> name \<times> name" where
  "table_key t = (tab_code t, tab_scope t, tab_table t)"

definition scope_primary :: "key_value_object \<Rightarrow> nat \<times> nat" where
  "scope_primary o1 = (kv_tab o1, primary_key o1)"

definition by_primary :: "'s index_object \<Rightarrow> nat \<times> nat" where
  "by_primary o1 = (ix_tab o1, ix_primary o1)"

definition by_secondary :: "'s index_object \<Rightarrow> nat \<times> 's \<times> nat" where
  "by_secondary o1 = (ix_tab o1, secondary_key o1, ix_primary o1)"

definition table_id_object_size :: nat where "table_id_object_size = billable_size_v (44 + 32 * 2)"
definition key_value_object_size :: nat where "key_value_object_size = billable_size_v (32 + 8 + 4 + 32 * 2)"
definition index64_object_size :: nat where "index64_object_size = billable_size_v (24 + 8 + 32 * 3)"
definition index128_object_size :: nat where "index128_object_size = billable_size_v (24 + 16 + 32 * 3)"
definition index256_object_size :: nat where "index256_object_size = billable_size_v (24 + 32 + 32 * 3)"

text \<open>Moving in an ordered index: the first row at or after a key, after a key, and the last one before it.\<close>

definition at_key :: "('r \<Rightarrow> 'o::linorder) \<Rightarrow> 'o set \<Rightarrow> ('o set \<Rightarrow> 'o) \<Rightarrow> 'r list \<Rightarrow> 'r option" where
  "at_key key ks pick rows = (if ks = {} then None else tbl_find key (pick ks) rows)"

definition lower_bound :: "('r \<Rightarrow> 'o::linorder) \<Rightarrow> 'o \<Rightarrow> 'r list \<Rightarrow> 'r option" where
  "lower_bound key k rows = at_key key {k' \<in> key ` set rows. k \<le> k'} Min rows"

definition upper_bound :: "('r \<Rightarrow> 'o::linorder) \<Rightarrow> 'o \<Rightarrow> 'r list \<Rightarrow> 'r option" where
  "upper_bound key k rows = at_key key {k' \<in> key ` set rows. k < k'} Min rows"

definition row_before :: "('r \<Rightarrow> 'o::linorder) \<Rightarrow> 'o \<Rightarrow> 'r list \<Rightarrow> 'r option" where
  "row_before key k rows = at_key key {k' \<in> key ` set rows. k' < k} Max rows"

text \<open>\<open>--idx.upper_bound(tab->id)\<close>: the last row of this table or an earlier one.\<close>

definition last_up_to :: "('r \<Rightarrow> 'o::linorder) \<Rightarrow> ('r \<Rightarrow> nat) \<Rightarrow> nat \<Rightarrow> 'r list \<Rightarrow> 'r option" where
  "last_up_to key tab t rows = at_key key (key ` {r \<in> set rows. tab r \<le> t}) Max rows"

section \<open>The iterator cache\<close>

record iterator_cache =
  table_cache :: "(nat \<times> int) list"
  end_iterator_to_table :: "nat list"
  iterator_to_object :: "nat option list"
  object_to_iterator :: "nat \<rightharpoonup> nat"

definition empty_cache :: iterator_cache where
  "empty_cache = \<lparr>table_cache = [], end_iterator_to_table = [], iterator_to_object = [], object_to_iterator = Map.empty\<rparr>"

text \<open>Negating the least \<open>int\<close> overflows; the code states the precondition that the iterator is above it, and nothing checks it.\<close>

definition end_iterator_to_index :: "int \<Rightarrow> nat result" where
  "end_iterator_to_index ei = (if ei \<le> - (2 ^ 31) then Inl undefined_behaviour else Inr (nat (- ei - 2)))"

definition index_to_end_iterator :: "nat \<Rightarrow> int" where "index_to_end_iterator indx = - (int indx + 2)"

definition cache_table :: "nat \<Rightarrow> iterator_cache \<Rightarrow> int \<times> iterator_cache" where
  "cache_table tobj c =
     (case map_of (table_cache c) tobj of
        Some ei \<Rightarrow> (ei, c)
      | None \<Rightarrow>
          let ei = index_to_end_iterator (length (end_iterator_to_table c)) in
          (ei, c\<lparr>end_iterator_to_table := end_iterator_to_table c @ [tobj], table_cache := (tobj, ei) # table_cache c\<rparr>))"

text \<open>Reading the pointer that the cache holds.\<close>

definition deref :: "('r \<Rightarrow> nat) \<Rightarrow> nat \<Rightarrow> 'r list \<Rightarrow> 'r result" where
  "deref rid i rows = option_to_result undefined_behaviour (tbl_find rid i rows)"

definition get_table :: "nat \<Rightarrow> iterator_cache \<Rightarrow> table_id_object list \<Rightarrow> table_id_object result" where
  "get_table i c tabs =
     (case map_of (table_cache c) i of None \<Rightarrow> Inl table_not_in_cache | Some _ \<Rightarrow> deref tab_id i tabs)"

definition get_end_iterator_by_table_id :: "nat \<Rightarrow> iterator_cache \<Rightarrow> int result" where
  "get_end_iterator_by_table_id i c = option_to_result table_not_in_cache (map_of (table_cache c) i)"

definition find_table_by_end_iterator :: "int \<Rightarrow> iterator_cache \<Rightarrow> nat option result" where
  "find_table_by_end_iterator ei c =
     bind_r (eos_assert (ei < - 1) invalid_table_iterator) (\<lambda>_.
     bind_r (end_iterator_to_index ei) (\<lambda>indx.
     Inr (if indx \<ge> length (end_iterator_to_table c) then None else Some (end_iterator_to_table c ! indx))))"

definition cache_get :: "('r \<Rightarrow> nat) \<Rightarrow> int \<Rightarrow> iterator_cache \<Rightarrow> 'r list \<Rightarrow> 'r result" where
  "cache_get rid it c rows =
     bind_r (eos_assert (it \<noteq> - 1) invalid_table_iterator) (\<lambda>_.
     bind_r (eos_assert (it \<ge> 0) table_operation_not_permitted) (\<lambda>_.
     bind_r (eos_assert (it < int (length (iterator_to_object c))) invalid_table_iterator) (\<lambda>_.
     bind_r (option_to_result table_operation_not_permitted (iterator_to_object c ! nat it)) (\<lambda>obj.
     deref rid obj rows))))"

definition cache_remove :: "int \<Rightarrow> iterator_cache \<Rightarrow> iterator_cache result" where
  "cache_remove it c =
     bind_r (eos_assert (it \<noteq> - 1) invalid_table_iterator) (\<lambda>_.
     bind_r (eos_assert (it \<ge> 0) table_operation_not_permitted) (\<lambda>_.
     bind_r (eos_assert (it < int (length (iterator_to_object c))) invalid_table_iterator) (\<lambda>_.
     case iterator_to_object c ! nat it of
       None \<Rightarrow> Inr c
     | Some obj \<Rightarrow> Inr (c\<lparr>iterator_to_object := (iterator_to_object c)[nat it := None],
         object_to_iterator := (object_to_iterator c)(obj := None)\<rparr>))))"

definition cache_add :: "nat \<Rightarrow> iterator_cache \<Rightarrow> int \<times> iterator_cache" where
  "cache_add obj c =
     (case object_to_iterator c obj of
        Some it \<Rightarrow> (int it, c)
      | None \<Rightarrow> (int (length (iterator_to_object c)),
          c\<lparr>iterator_to_object := iterator_to_object c @ [Some obj],
            object_to_iterator := (object_to_iterator c)(obj \<mapsto> length (iterator_to_object c))\<rparr>))"

section \<open>State\<close>

record exec_env =
  receiver :: name
  act_code :: name
  act_auths :: "permission_level list"
  is_privileged :: bool
  ram_billing_in_notify_allowed :: bool
  index_size :: nat

record ('k, 'h, 's) contract_db =
  base :: "('k, 'h) apply_context"
  tables :: "table_id_object list"
  next_table_id :: nat
  key_values :: "key_value_object list"
  next_kv_id :: nat
  keyval_cache :: iterator_cache
  index_objects :: "'s index_object list"
  next_index_id :: nat
  itr_cache :: iterator_cache

section \<open>Tables and billing\<close>

definition update_db_usage :: "exec_env \<Rightarrow> name \<Rightarrow> int \<Rightarrow> ('k, 'h, 's) contract_db \<Rightarrow> ('k, 'h, 's) contract_db result" where
  "update_db_usage e who delta d =
     bind_r (if delta > 0 \<and> \<not> (is_privileged e \<or> who = receiver e) then
               bind_r (eos_assert (ram_billing_in_notify_allowed e \<or> receiver e = act_code e)
                 subjective_block_production_exception) (\<lambda>_.
               require_authorization who (act_auths e) (base d))
             else Inr (base d)) (\<lambda>ctx.
     bind_r (add_ram_usage who delta ctx) (\<lambda>ctx.
     Inr (d\<lparr>base := ctx\<rparr>)))"

definition find_table :: "name \<Rightarrow> name \<Rightarrow> name \<Rightarrow> ('k, 'h, 's) contract_db \<Rightarrow> table_id_object option" where
  "find_table contract scope table d = tbl_find table_key (contract, scope, table) (tables d)"

definition find_or_create_table :: "exec_env \<Rightarrow> name \<Rightarrow> name \<Rightarrow> name \<Rightarrow> name \<Rightarrow>
    ('k, 'h, 's) contract_db \<Rightarrow> (table_id_object \<times> ('k, 'h, 's) contract_db) result" where
  "find_or_create_table e contract scope table who d =
     (case tbl_find table_key (contract, scope, table) (tables d) of
        Some existing_tid \<Rightarrow> Inr (existing_tid, d)
      | None \<Rightarrow>
          bind_r (update_db_usage e who (int table_id_object_size) d) (\<lambda>d.
          let t = \<lparr>tab_id = next_table_id d, tab_code = contract, tab_scope = scope, tab_table = table, tab_payer = who, tab_count = 0\<rparr> in
          bind_r (tbl_create table_key t (tables d)) (\<lambda>ts.
          Inr (t, d\<lparr>tables := ts, next_table_id := next_table_id d + 1\<rparr>))))"

definition remove_table :: "exec_env \<Rightarrow> table_id_object \<Rightarrow> ('k, 'h, 's) contract_db \<Rightarrow> ('k, 'h, 's) contract_db result" where
  "remove_table e tid d =
     bind_r (update_db_usage e (tab_payer tid) (- int table_id_object_size) d) (\<lambda>d.
     Inr (d\<lparr>tables := tbl_remove tab_id (tab_id tid) (tables d)\<rparr>))"

text \<open>\<open>++t.count\<close> and \<open>--t.count\<close> of a 32-bit count.\<close>

definition count_up :: "nat \<Rightarrow> ('k, 'h, 's) contract_db \<Rightarrow> ('k, 'h, 's) contract_db" where
  "count_up t d = d\<lparr>tables := tbl_modify tab_id t (\<lambda>t. t\<lparr>tab_count := u32 (tab_count t + 1)\<rparr>) (tables d)\<rparr>"

definition count_down :: "nat \<Rightarrow> ('k, 'h, 's) contract_db \<Rightarrow> ('k, 'h, 's) contract_db" where
  "count_down t d = d\<lparr>tables := tbl_modify tab_id t (\<lambda>t. t\<lparr>tab_count := u32 (tab_count t + (2 ^ 32 - 1))\<rparr>) (tables d)\<rparr>"

text \<open>A table that counts no row any more is removed.\<close>

definition drop_if_empty :: "exec_env \<Rightarrow> nat \<Rightarrow> ('k, 'h, 's) contract_db \<Rightarrow> ('k, 'h, 's) contract_db result" where
  "drop_if_empty e t d =
     bind_r (deref tab_id t (tables d)) (\<lambda>table_obj.
     if tab_count table_obj = 0 then remove_table e table_obj d else Inr d)"

section \<open>Rows under a primary key\<close>

definition db_store_i64 :: "exec_env \<Rightarrow> name \<Rightarrow> name \<Rightarrow> name \<Rightarrow> name \<Rightarrow> nat \<Rightarrow> bytes \<Rightarrow>
    ('k, 'h, 's) contract_db \<Rightarrow> (int \<times> ('k, 'h, 's) contract_db) result" where
  "db_store_i64 e contract scope table who id1 buffer d =
     bind_r (find_or_create_table e contract scope table who d) (\<lambda>(tab, d).
     bind_r (eos_assert (who \<noteq> 0) invalid_table_payer) (\<lambda>_.
     let obj = \<lparr>kv_id = next_kv_id d, kv_tab = tab_id tab, primary_key = id1, kv_payer = who, kv_value = buffer\<rparr> in
     bind_r (tbl_create scope_primary obj (key_values d)) (\<lambda>kvs.
     let d = count_up (tab_id tab) (d\<lparr>key_values := kvs, next_kv_id := next_kv_id d + 1\<rparr>) in
     bind_r (update_db_usage e who (int (length buffer + key_value_object_size)) d) (\<lambda>d.
     let c = snd (cache_table (tab_id tab) (keyval_cache d));
         (it, c) = cache_add (kv_id obj) c
     in Inr (it, d\<lparr>keyval_cache := c\<rparr>)))))"

definition db_update_i64 :: "exec_env \<Rightarrow> int \<Rightarrow> name \<Rightarrow> bytes \<Rightarrow> ('k, 'h, 's) contract_db \<Rightarrow> ('k, 'h, 's) contract_db result" where
  "db_update_i64 e it who buffer d =
     bind_r (cache_get kv_id it (keyval_cache d) (key_values d)) (\<lambda>obj.
     bind_r (get_table (kv_tab obj) (keyval_cache d) (tables d)) (\<lambda>table_obj.
     bind_r (eos_assert (tab_code table_obj = receiver e) table_access_violation) (\<lambda>_.
     let overhead = int key_value_object_size;
         old_size = int (length (kv_value obj)) + overhead;
         new_size = int (length buffer) + overhead;
         who = (if who = 0 then kv_payer obj else who)
     in
     bind_r (if kv_payer obj \<noteq> who then
               bind_r (update_db_usage e (kv_payer obj) (- old_size) d) (\<lambda>d.
               update_db_usage e who new_size d)
             else if old_size \<noteq> new_size then update_db_usage e (kv_payer obj) (new_size - old_size) d
             else Inr d) (\<lambda>d.
     Inr (d\<lparr>key_values := tbl_modify kv_id (kv_id obj) (\<lambda>o1. o1\<lparr>kv_value := buffer, kv_payer := who\<rparr>) (key_values d)\<rparr>)))))"

definition db_remove_i64 :: "exec_env \<Rightarrow> int \<Rightarrow> ('k, 'h, 's) contract_db \<Rightarrow> ('k, 'h, 's) contract_db result" where
  "db_remove_i64 e it d =
     bind_r (cache_get kv_id it (keyval_cache d) (key_values d)) (\<lambda>obj.
     bind_r (get_table (kv_tab obj) (keyval_cache d) (tables d)) (\<lambda>table_obj.
     bind_r (eos_assert (tab_code table_obj = receiver e) table_access_violation) (\<lambda>_.
     bind_r (update_db_usage e (kv_payer obj) (- int (length (kv_value obj) + key_value_object_size)) d) (\<lambda>d.
     let d = count_down (tab_id table_obj) d;
         d = d\<lparr>key_values := tbl_remove kv_id (kv_id obj) (key_values d)\<rparr>
     in
     bind_r (drop_if_empty e (tab_id table_obj) d) (\<lambda>d.
     bind_r (cache_remove it (keyval_cache d)) (\<lambda>c.
     Inr (d\<lparr>keyval_cache := c\<rparr>)))))))"

text \<open>The size the call returns and the bytes it copies.\<close>

definition db_get_i64 :: "int \<Rightarrow> nat \<Rightarrow> ('k, 'h, 's) contract_db \<Rightarrow> (nat \<times> bytes) result" where
  "db_get_i64 it buffer_size d =
     bind_r (cache_get kv_id it (keyval_cache d) (key_values d)) (\<lambda>obj.
     let s = length (kv_value obj) in
     if buffer_size = 0 then Inr (s, [])
     else let copy_size = min buffer_size s in Inr (copy_size, take copy_size (kv_value obj)))"

text \<open>Adding the row that was found to the cache; the primary key is the second result where one is written.\<close>

definition add_found :: "('r \<Rightarrow> nat) \<Rightarrow> ('r \<Rightarrow> nat) \<Rightarrow> 'r \<Rightarrow> iterator_cache \<Rightarrow> int \<times> nat option \<times> iterator_cache" where
  "add_found rid prim r c = (let (it, c) = cache_add (rid r) c in (it, Some (prim r), c))"

text \<open>
  The step functions of the primary index and of the two orders of a secondary index differ only in
  the order (\<open>key\<close>); each is an instance of these two.
\<close>

definition next_in :: "('r \<Rightarrow> nat) \<Rightarrow> ('r \<Rightarrow> nat) \<Rightarrow> ('r \<Rightarrow> nat) \<Rightarrow> ('r \<Rightarrow> 'o::linorder) \<Rightarrow> int \<Rightarrow> 'r list \<Rightarrow> iterator_cache \<Rightarrow>
    (int \<times> nat option \<times> iterator_cache) result" where
  "next_in rid tab prim key it rows c =
     (if it < - 1 then Inr (- 1, None, c)
      else
        bind_r (cache_get rid it c rows) (\<lambda>obj.
        case upper_bound key (key obj) rows of
          Some r \<Rightarrow>
            if tab r \<noteq> tab obj then bind_r (get_end_iterator_by_table_id (tab obj) c) (\<lambda>ei. Inr (ei, None, c))
            else Inr (add_found rid prim r c)
        | None \<Rightarrow> bind_r (get_end_iterator_by_table_id (tab obj) c) (\<lambda>ei. Inr (ei, None, c))))"

definition previous_in :: "('r \<Rightarrow> nat) \<Rightarrow> ('r \<Rightarrow> nat) \<Rightarrow> ('r \<Rightarrow> nat) \<Rightarrow> ('r \<Rightarrow> 'o::linorder) \<Rightarrow> int \<Rightarrow> 'r list \<Rightarrow> table_id_object list \<Rightarrow>
    iterator_cache \<Rightarrow> (int \<times> nat option \<times> iterator_cache) result" where
  "previous_in rid tab prim key it rows tabs c =
     (if it < - 1 then
        bind_r (find_table_by_end_iterator it c) (\<lambda>ptr.
        bind_r (option_to_result invalid_table_iterator ptr) (\<lambda>i.
        bind_r (deref tab_id i tabs) (\<lambda>t.
        case last_up_to key tab (tab_id t) rows of
          None \<Rightarrow> Inr (- 1, None, c)
        | Some r \<Rightarrow> if tab r \<noteq> tab_id t then Inr (- 1, None, c) else Inr (add_found rid prim r c))))
      else
        bind_r (cache_get rid it c rows) (\<lambda>obj.
        case row_before key (key obj) rows of
          None \<Rightarrow> Inr (- 1, None, c)
        | Some r \<Rightarrow> if tab r \<noteq> tab obj then Inr (- 1, None, c) else Inr (add_found rid prim r c)))"

text \<open>The searches: the end of the table when nothing is found, -1 when there is no table.\<close>

definition search_in :: "('r \<Rightarrow> nat) \<Rightarrow> ('r \<Rightarrow> nat) \<Rightarrow> (nat \<Rightarrow> 'r option) \<Rightarrow> table_id_object option \<Rightarrow> iterator_cache \<Rightarrow>
    int \<times> 'r option \<times> iterator_cache" where
  "search_in rid tab search found c =
     (case found of
        None \<Rightarrow> (- 1, None, c)
      | Some t \<Rightarrow>
          let (table_end_itr, c) = cache_table (tab_id t) c in
          case search (tab_id t) of
            None \<Rightarrow> (table_end_itr, None, c)
          | Some r \<Rightarrow>
              if tab r \<noteq> tab_id t then (table_end_itr, None, c)
              else let (it, c) = cache_add (rid r) c in (it, Some r, c))"

definition db_next_i64 :: "int \<Rightarrow> ('k, 'h, 's) contract_db \<Rightarrow> (int \<times> nat option \<times> ('k, 'h, 's) contract_db) result" where
  "db_next_i64 it d =
     bind_r (next_in kv_id kv_tab primary_key scope_primary it (key_values d) (keyval_cache d)) (\<lambda>(r, p, c).
     Inr (r, p, d\<lparr>keyval_cache := c\<rparr>))"

definition db_previous_i64 :: "int \<Rightarrow> ('k, 'h, 's) contract_db \<Rightarrow> (int \<times> nat option \<times> ('k, 'h, 's) contract_db) result" where
  "db_previous_i64 it d =
     bind_r (previous_in kv_id kv_tab primary_key scope_primary it (key_values d) (tables d) (keyval_cache d)) (\<lambda>(r, p, c).
     Inr (r, p, d\<lparr>keyval_cache := c\<rparr>))"

definition on_keyval :: "(iterator_cache \<Rightarrow> int \<times> key_value_object option \<times> iterator_cache) \<Rightarrow> ('k, 'h, 's) contract_db \<Rightarrow>
    int \<times> ('k, 'h, 's) contract_db" where
  "on_keyval f d = (case f (keyval_cache d) of (it, _, c) \<Rightarrow> (it, d\<lparr>keyval_cache := c\<rparr>))"

definition db_find_i64 :: "name \<Rightarrow> name \<Rightarrow> name \<Rightarrow> nat \<Rightarrow> ('k, 'h, 's) contract_db \<Rightarrow> int \<times> ('k, 'h, 's) contract_db" where
  "db_find_i64 contract scope table id1 d =
     on_keyval (search_in kv_id kv_tab (\<lambda>t. tbl_find scope_primary (t, id1) (key_values d)) (find_table contract scope table d)) d"

definition db_lowerbound_i64 :: "name \<Rightarrow> name \<Rightarrow> name \<Rightarrow> nat \<Rightarrow> ('k, 'h, 's) contract_db \<Rightarrow> int \<times> ('k, 'h, 's) contract_db" where
  "db_lowerbound_i64 contract scope table id1 d =
     on_keyval (search_in kv_id kv_tab (\<lambda>t. lower_bound scope_primary (t, id1) (key_values d)) (find_table contract scope table d)) d"

definition db_upperbound_i64 :: "name \<Rightarrow> name \<Rightarrow> name \<Rightarrow> nat \<Rightarrow> ('k, 'h, 's) contract_db \<Rightarrow> int \<times> ('k, 'h, 's) contract_db" where
  "db_upperbound_i64 contract scope table id1 d =
     on_keyval (search_in kv_id kv_tab (\<lambda>t. upper_bound scope_primary (t, id1) (key_values d)) (find_table contract scope table d)) d"

definition db_end_i64 :: "name \<Rightarrow> name \<Rightarrow> name \<Rightarrow> ('k, 'h, 's) contract_db \<Rightarrow> int \<times> ('k, 'h, 's) contract_db" where
  "db_end_i64 contract scope table d =
     (case find_table contract scope table d of
        None \<Rightarrow> (- 1, d)
      | Some tab \<Rightarrow> (case cache_table (tab_id tab) (keyval_cache d) of (ei, c) \<Rightarrow> (ei, d\<lparr>keyval_cache := c\<rparr>)))"

section \<open>A secondary index\<close>

definition store :: "exec_env \<Rightarrow> name \<Rightarrow> name \<Rightarrow> name \<Rightarrow> nat \<Rightarrow> 's \<Rightarrow>
    ('k, 'h, 's) contract_db \<Rightarrow> (int \<times> ('k, 'h, 's) contract_db) result" where
  "store e scope table who id1 v d =
     bind_r (eos_assert (who \<noteq> 0) invalid_table_payer) (\<lambda>_.
     bind_r (find_or_create_table e (receiver e) scope table who d) (\<lambda>(tab, d).
     let obj = \<lparr>ix_id = next_index_id d, ix_tab = tab_id tab, ix_primary = id1, ix_payer = who, secondary_key = v\<rparr> in
     bind_r (tbl_create by_primary obj (index_objects d)) (\<lambda>ixs.
     let d = count_up (tab_id tab) (d\<lparr>index_objects := ixs, next_index_id := next_index_id d + 1\<rparr>) in
     bind_r (update_db_usage e who (int (index_size e)) d) (\<lambda>d.
     let c = snd (cache_table (tab_id tab) (itr_cache d));
         (it, c) = cache_add (ix_id obj) c
     in Inr (it, d\<lparr>itr_cache := c\<rparr>)))))"

definition remove :: "exec_env \<Rightarrow> int \<Rightarrow> ('k, 'h, 's) contract_db \<Rightarrow> ('k, 'h, 's) contract_db result" where
  "remove e it d =
     bind_r (cache_get ix_id it (itr_cache d) (index_objects d)) (\<lambda>obj.
     bind_r (update_db_usage e (ix_payer obj) (- int (index_size e)) d) (\<lambda>d.
     bind_r (get_table (ix_tab obj) (itr_cache d) (tables d)) (\<lambda>table_obj.
     bind_r (eos_assert (tab_code table_obj = receiver e) table_access_violation) (\<lambda>_.
     let d = count_down (tab_id table_obj) d;
         d = d\<lparr>index_objects := tbl_remove ix_id (ix_id obj) (index_objects d)\<rparr>
     in
     bind_r (drop_if_empty e (tab_id table_obj) d) (\<lambda>d.
     bind_r (cache_remove it (itr_cache d)) (\<lambda>c.
     Inr (d\<lparr>itr_cache := c\<rparr>)))))))"

definition update :: "exec_env \<Rightarrow> int \<Rightarrow> name \<Rightarrow> 's \<Rightarrow> ('k, 'h, 's) contract_db \<Rightarrow> ('k, 'h, 's) contract_db result" where
  "update e it who secondary d =
     bind_r (cache_get ix_id it (itr_cache d) (index_objects d)) (\<lambda>obj.
     bind_r (get_table (ix_tab obj) (itr_cache d) (tables d)) (\<lambda>table_obj.
     bind_r (eos_assert (tab_code table_obj = receiver e) table_access_violation) (\<lambda>_.
     let who = (if who = 0 then ix_payer obj else who);
         billing_size = int (index_size e)
     in
     bind_r (if ix_payer obj \<noteq> who then
               bind_r (update_db_usage e (ix_payer obj) (- billing_size) d) (\<lambda>d.
               update_db_usage e who billing_size d)
             else Inr d) (\<lambda>d.
     Inr (d\<lparr>index_objects := tbl_modify ix_id (ix_id obj) (\<lambda>o1. o1\<lparr>secondary_key := secondary, ix_payer := who\<rparr>) (index_objects d)\<rparr>)))))"

text \<open>The first row in the order of the index whose table and secondary key match.\<close>

definition find_by_secondary :: "nat \<Rightarrow> 's::linorder \<Rightarrow> 's index_object list \<Rightarrow> 's index_object option" where
  "find_by_secondary t v rows =
     at_key by_secondary (by_secondary ` {r \<in> set rows. ix_tab r = t \<and> secondary_key r = v}) Min rows"

definition lower_secondary :: "nat \<Rightarrow> 's::linorder \<Rightarrow> 's index_object list \<Rightarrow> 's index_object option" where
  "lower_secondary t v rows =
     at_key by_secondary (by_secondary ` {r \<in> set rows. (t, v) \<le> (ix_tab r, secondary_key r)}) Min rows"

definition upper_secondary :: "nat \<Rightarrow> 's::linorder \<Rightarrow> 's index_object list \<Rightarrow> 's index_object option" where
  "upper_secondary t v rows =
     at_key by_secondary (by_secondary ` {r \<in> set rows. (t, v) < (ix_tab r, secondary_key r)}) Min rows"

text \<open>
  What a search hands back: the iterator, and the primary and the secondary key of the row if there is
  one (the code writes those of the two that its caller does not know already).
\<close>

definition on_index :: "(iterator_cache \<Rightarrow> int \<times> 's index_object option \<times> iterator_cache) \<Rightarrow> ('k, 'h, 's) contract_db \<Rightarrow>
    int \<times> (nat \<times> 's) option \<times> ('k, 'h, 's) contract_db" where
  "on_index f d = (case f (itr_cache d) of (it, r, c) \<Rightarrow>
     (it, map_option (\<lambda>r. (ix_primary r, secondary_key r)) r, d\<lparr>itr_cache := c\<rparr>))"

definition find_secondary :: "name \<Rightarrow> name \<Rightarrow> name \<Rightarrow> 's::linorder \<Rightarrow> ('k, 'h, 's) contract_db \<Rightarrow> int \<times> (nat \<times> 's) option \<times> ('k, 'h, 's) contract_db" where
  "find_secondary contract scope table v d =
     on_index (search_in ix_id ix_tab (\<lambda>t. find_by_secondary t v (index_objects d)) (find_table contract scope table d)) d"

definition lowerbound_secondary :: "name \<Rightarrow> name \<Rightarrow> name \<Rightarrow> 's::linorder \<Rightarrow> ('k, 'h, 's) contract_db \<Rightarrow> int \<times> (nat \<times> 's) option \<times> ('k, 'h, 's) contract_db" where
  "lowerbound_secondary contract scope table v d =
     on_index (search_in ix_id ix_tab (\<lambda>t. lower_secondary t v (index_objects d)) (find_table contract scope table d)) d"

definition upperbound_secondary :: "name \<Rightarrow> name \<Rightarrow> name \<Rightarrow> 's::linorder \<Rightarrow> ('k, 'h, 's) contract_db \<Rightarrow> int \<times> (nat \<times> 's) option \<times> ('k, 'h, 's) contract_db" where
  "upperbound_secondary contract scope table v d =
     on_index (search_in ix_id ix_tab (\<lambda>t. upper_secondary t v (index_objects d)) (find_table contract scope table d)) d"

definition end_secondary :: "name \<Rightarrow> name \<Rightarrow> name \<Rightarrow> ('k, 'h, 's) contract_db \<Rightarrow> int \<times> ('k, 'h, 's) contract_db" where
  "end_secondary contract scope table d =
     (case find_table contract scope table d of
        None \<Rightarrow> (- 1, d)
      | Some tab \<Rightarrow> (case cache_table (tab_id tab) (itr_cache d) of (ei, c) \<Rightarrow> (ei, d\<lparr>itr_cache := c\<rparr>)))"

definition next_secondary :: "int \<Rightarrow> ('k, 'h, 's::linorder) contract_db \<Rightarrow> (int \<times> nat option \<times> ('k, 'h, 's) contract_db) result" where
  "next_secondary it d =
     bind_r (next_in ix_id ix_tab ix_primary by_secondary it (index_objects d) (itr_cache d)) (\<lambda>(r, p, c).
     Inr (r, p, d\<lparr>itr_cache := c\<rparr>))"

definition previous_secondary :: "int \<Rightarrow> ('k, 'h, 's::linorder) contract_db \<Rightarrow> (int \<times> nat option \<times> ('k, 'h, 's) contract_db) result" where
  "previous_secondary it d =
     bind_r (previous_in ix_id ix_tab ix_primary by_secondary it (index_objects d) (tables d) (itr_cache d)) (\<lambda>(r, p, c).
     Inr (r, p, d\<lparr>itr_cache := c\<rparr>))"

definition find_primary :: "name \<Rightarrow> name \<Rightarrow> name \<Rightarrow> nat \<Rightarrow> ('k, 'h, 's) contract_db \<Rightarrow> int \<times> (nat \<times> 's) option \<times> ('k, 'h, 's) contract_db" where
  "find_primary contract scope table p d =
     on_index (search_in ix_id ix_tab (\<lambda>t. tbl_find by_primary (t, p) (index_objects d)) (find_table contract scope table d)) d"

definition lowerbound_primary :: "name \<Rightarrow> name \<Rightarrow> name \<Rightarrow> nat \<Rightarrow> ('k, 'h, 's) contract_db \<Rightarrow> int \<times> (nat \<times> 's) option \<times> ('k, 'h, 's) contract_db" where
  "lowerbound_primary contract scope table p d =
     on_index (search_in ix_id ix_tab (\<lambda>t. lower_bound by_primary (t, p) (index_objects d)) (find_table contract scope table d)) d"

definition upperbound_primary :: "name \<Rightarrow> name \<Rightarrow> name \<Rightarrow> nat \<Rightarrow> ('k, 'h, 's) contract_db \<Rightarrow> int \<times> (nat \<times> 's) option \<times> ('k, 'h, 's) contract_db" where
  "upperbound_primary contract scope table p d =
     on_index (search_in ix_id ix_tab (\<lambda>t. upper_bound by_primary (t, p) (index_objects d)) (find_table contract scope table d)) d"

definition next_primary :: "int \<Rightarrow> ('k, 'h, 's) contract_db \<Rightarrow> (int \<times> nat option \<times> ('k, 'h, 's) contract_db) result" where
  "next_primary it d =
     bind_r (next_in ix_id ix_tab ix_primary by_primary it (index_objects d) (itr_cache d)) (\<lambda>(r, p, c).
     Inr (r, p, d\<lparr>itr_cache := c\<rparr>))"

definition previous_primary :: "int \<Rightarrow> ('k, 'h, 's) contract_db \<Rightarrow> (int \<times> nat option \<times> ('k, 'h, 's) contract_db) result" where
  "previous_primary it d =
     bind_r (previous_in ix_id ix_tab ix_primary by_primary it (index_objects d) (tables d) (itr_cache d)) (\<lambda>(r, p, c).
     Inr (r, p, d\<lparr>itr_cache := c\<rparr>))"

definition index_get :: "int \<Rightarrow> ('k, 'h, 's) contract_db \<Rightarrow> (nat \<times> 's) result" where
  "index_get it d =
     bind_r (cache_get ix_id it (itr_cache d) (index_objects d)) (\<lambda>obj. Inr (ix_primary obj, secondary_key obj))"

section \<open>Moving in an index\<close>

lemma at_Min_Some:
  assumes "at_key key ks Min rows = Some r" and "finite ks"
  shows "r \<in> set rows \<and> key r \<in> ks \<and> (\<forall>k\<in>ks. key r \<le> k)"
proof -
  have ne: "ks \<noteq> {}" and f: "tbl_find key (Min ks) rows = Some r" using assms(1) by (auto simp: at_key_def split: if_splits)
  show ?thesis using tbl_find_Some [OF f] Min_in [OF assms(2) ne] Min_le [OF assms(2)] by simp
qed

lemma at_Min_None:
  assumes "at_key key ks Min rows = None" and "finite ks" and "ks \<subseteq> key ` set rows"
  shows "ks = {}"
proof (rule ccontr)
  assume ne: "ks \<noteq> {}"
  then have "Min ks \<notin> key ` set rows" using assms(1) by (simp add: at_key_def tbl_find_None)
  then show False using Min_in [OF assms(2) ne] assms(3) by blast
qed

lemma at_Max_Some:
  assumes "at_key key ks Max rows = Some r" and "finite ks"
  shows "r \<in> set rows \<and> key r \<in> ks \<and> (\<forall>k\<in>ks. k \<le> key r)"
proof -
  have ne: "ks \<noteq> {}" and f: "tbl_find key (Max ks) rows = Some r" using assms(1) by (auto simp: at_key_def split: if_splits)
  show ?thesis using tbl_find_Some [OF f] Max_in [OF assms(2) ne] Max_ge [OF assms(2)] by simp
qed

lemma at_Max_None:
  assumes "at_key key ks Max rows = None" and "finite ks" and "ks \<subseteq> key ` set rows"
  shows "ks = {}"
proof (rule ccontr)
  assume ne: "ks \<noteq> {}"
  then have "Max ks \<notin> key ` set rows" using assms(1) by (simp add: at_key_def tbl_find_None)
  then show False using Max_in [OF assms(2) ne] assms(3) by blast
qed

lemma lower_bound_Some:
  "lower_bound key k rows = Some r \<Longrightarrow> r \<in> set rows \<and> k \<le> key r \<and> (\<forall>x\<in>set rows. k \<le> key x \<longrightarrow> key r \<le> key x)"
  unfolding lower_bound_def by (drule at_Min_Some) auto

lemma lower_bound_None: "lower_bound key k rows = None \<Longrightarrow> x \<in> set rows \<Longrightarrow> key x < k"
  unfolding lower_bound_def by (drule at_Min_None) auto

lemma upper_bound_Some:
  "upper_bound key k rows = Some r \<Longrightarrow> r \<in> set rows \<and> k < key r \<and> (\<forall>x\<in>set rows. k < key x \<longrightarrow> key r \<le> key x)"
  unfolding upper_bound_def by (drule at_Min_Some) auto

lemma upper_bound_None: "upper_bound key k rows = None \<Longrightarrow> x \<in> set rows \<Longrightarrow> key x \<le> k"
  unfolding upper_bound_def by (drule at_Min_None) auto

lemma row_before_Some:
  "row_before key k rows = Some r \<Longrightarrow> r \<in> set rows \<and> key r < k \<and> (\<forall>x\<in>set rows. key x < k \<longrightarrow> key x \<le> key r)"
  unfolding row_before_def by (drule at_Max_Some) auto

lemma row_before_None: "row_before key k rows = None \<Longrightarrow> x \<in> set rows \<Longrightarrow> k \<le> key x"
  unfolding row_before_def by (drule at_Max_None) auto

lemma last_up_to_Some:
  "last_up_to key tab t rows = Some r \<Longrightarrow> (\<exists>x\<in>set rows. key x = key r \<and> tab x \<le> t) \<and> r \<in> set rows
     \<and> (\<forall>x\<in>set rows. tab x \<le> t \<longrightarrow> key x \<le> key r)"
  unfolding last_up_to_def by (drule at_Max_Some, simp) (force simp: image_iff)

lemma last_up_to_None: "last_up_to key tab t rows = None \<Longrightarrow> x \<in> set rows \<Longrightarrow> t < tab x"
  unfolding last_up_to_def by (drule at_Max_None) auto

section \<open>The cache is a bijection\<close>

text \<open>
  Row iterators and cached rows correspond one to one, every cached row is there and its table is
  cached; end iterators and cached tables correspond one to one.
\<close>

definition cache_ok :: "('r \<Rightarrow> nat) \<Rightarrow> ('r \<Rightarrow> nat) \<Rightarrow> 'r list \<Rightarrow> iterator_cache \<Rightarrow> bool" where
  "cache_ok rid tab rows c \<longleftrightarrow>
     (\<forall>obj i. object_to_iterator c obj = Some i \<longleftrightarrow> i < length (iterator_to_object c) \<and> iterator_to_object c ! i = Some obj)
     \<and> (\<forall>obj\<in>dom (object_to_iterator c). \<exists>r\<in>set rows. rid r = obj \<and> tab r \<in> dom (map_of (table_cache c)))
     \<and> (\<forall>t ei. map_of (table_cache c) t = Some ei \<longleftrightarrow>
          (\<exists>i<length (end_iterator_to_table c). end_iterator_to_table c ! i = t \<and> ei = index_to_end_iterator i))"

lemma empty_cache_ok: "cache_ok rid tab rows empty_cache"
  by (simp add: cache_ok_def empty_cache_def)

lemma end_iterator_inverse [simp]:
  "- (2 ^ 31) < index_to_end_iterator i \<Longrightarrow> end_iterator_to_index (index_to_end_iterator i) = Inr i" "index_to_end_iterator i < - 1"
  by (simp_all add: end_iterator_to_index_def index_to_end_iterator_def)

text \<open>Iterators that are good stay good.\<close>

definition keeps :: "('r \<Rightarrow> nat) \<Rightarrow> 'r list \<Rightarrow> iterator_cache \<Rightarrow> iterator_cache \<Rightarrow> bool" where
  "keeps rid rows c c' \<longleftrightarrow> (\<forall>it r. cache_get rid it c rows = Inr r \<longrightarrow> cache_get rid it c' rows = Inr r)
     \<and> (\<forall>t ei. map_of (table_cache c) t = Some ei \<longrightarrow> map_of (table_cache c') t = Some ei)"

lemma keeps_refl [simp]: "keeps rid rows c c"
  by (simp add: keeps_def)

lemma keeps_trans: "keeps rid rows c1 c2 \<Longrightarrow> keeps rid rows c2 c3 \<Longrightarrow> keeps rid rows c1 c3"
  by (simp add: keeps_def)

lemma cache_get_iff:
  "cache_get rid it c rows = Inr r \<longleftrightarrow>
     0 \<le> it \<and> nat it < length (iterator_to_object c) \<and> (\<exists>obj. iterator_to_object c ! nat it = Some obj \<and> tbl_find rid obj rows = Some r)"
  by (auto simp: cache_get_def deref_def result_simps)

lemma cache_table_ok:
  assumes ok: "cache_ok rid tab rows c" and run: "cache_table t c = (ei, c')"
  shows "cache_ok rid tab rows c' \<and> map_of (table_cache c') t = Some ei \<and> ei < - 1 \<and> keeps rid rows c c'
    \<and> object_to_iterator c' = object_to_iterator c"
proof (cases "map_of (table_cache c) t")
  case (Some e)
  then show ?thesis using ok run by (auto simp: cache_table_def cache_ok_def)
next
  case None
  have new: "t \<notin> set (end_iterator_to_table c)"
    using ok None by (metis cache_ok_def in_set_conv_nth option.distinct(1))
  let ?e = "end_iterator_to_table c"
  have c': "c' = c\<lparr>end_iterator_to_table := ?e @ [t], table_cache := (t, ei) # table_cache c\<rparr>" "ei = index_to_end_iterator (length ?e)"
    using run None by (auto simp: cache_table_def Let_def)
  have "map_of (table_cache c') x = Some y \<longleftrightarrow> (\<exists>i<length (?e @ [t]). (?e @ [t]) ! i = x \<and> y = index_to_end_iterator i)" for x y
  proof (cases "x = t")
    case True
    then show ?thesis using new by (auto simp: c' nth_append less_Suc_eq in_set_conv_nth split: if_splits)
  next
    case False
    have "map_of (table_cache c) x = Some y \<longleftrightarrow> (\<exists>i<length ?e. ?e ! i = x \<and> y = index_to_end_iterator i)"
      using ok by (simp add: cache_ok_def)
    then show ?thesis using False by (simp add: c'(1) nth_append Ex_less_Suc cong: conj_cong)
  qed
  moreover have "\<forall>obj\<in>dom (object_to_iterator c'). \<exists>r\<in>set rows. rid r = obj \<and> tab r \<in> dom (map_of (table_cache c'))"
  proof -
    have "dom (map_of (table_cache c)) \<subseteq> dom (map_of (table_cache c'))" "object_to_iterator c' = object_to_iterator c"
      by (auto simp: c'(1))
    moreover have "\<forall>obj\<in>dom (object_to_iterator c). \<exists>r\<in>set rows. rid r = obj \<and> tab r \<in> dom (map_of (table_cache c))"
      using ok by (simp add: cache_ok_def)
    ultimately show ?thesis by (metis subsetD)
  qed
  moreover have "keeps rid rows c c'" using None by (auto simp: keeps_def cache_get_iff c')
  ultimately show ?thesis using ok by (simp add: cache_ok_def c')
qed

lemma cache_add_ok:
  assumes ok: "cache_ok rid tab rows c" and r: "tbl_find rid (rid r) rows = Some r" "tab r \<in> dom (map_of (table_cache c))"
    and run: "cache_add (rid r) c = (it, c')"
  shows "cache_ok rid tab rows c' \<and> cache_get rid it c' rows = Inr r \<and> keeps rid rows c c' \<and> table_cache c' = table_cache c"
proof (cases "object_to_iterator c (rid r)")
  case (Some i)
  then have "i < length (iterator_to_object c) \<and> iterator_to_object c ! i = Some (rid r)" using ok by (simp add: cache_ok_def)
  then show ?thesis using Some ok r run by (auto simp: cache_add_def cache_get_iff)
next
  case None
  let ?i = "iterator_to_object c"
  have c': "c' = c\<lparr>iterator_to_object := ?i @ [Some (rid r)], object_to_iterator := (object_to_iterator c)(rid r \<mapsto> length ?i)\<rparr>"
    and it: "it = int (length ?i)" using run None by (auto simp: cache_add_def)
  have "object_to_iterator c' obj = Some i \<longleftrightarrow> i < length (?i @ [Some (rid r)]) \<and> (?i @ [Some (rid r)]) ! i = Some obj" for obj i
  proof (cases "obj = rid r")
    case True
    have "i < length ?i \<Longrightarrow> ?i ! i \<noteq> Some (rid r)" using ok None by (metis cache_ok_def option.distinct(1))
    then show ?thesis using True by (auto simp: c' nth_append less_Suc_eq)
  next
    case False
    then show ?thesis using ok by (auto simp: c' cache_ok_def nth_append less_Suc_eq)
  qed
  moreover have "\<forall>obj\<in>dom (object_to_iterator c'). \<exists>x\<in>set rows. rid x = obj \<and> tab x \<in> dom (map_of (table_cache c'))"
    using ok tbl_find_Some [OF r(1)] r(2) by (fastforce simp: cache_ok_def c')
  moreover have "keeps rid rows c c'" by (auto simp: keeps_def cache_get_iff c' nth_append)
  moreover have "cache_get rid it c' rows = Inr r" using r(1) by (simp add: cache_get_iff c' it nth_append)
  ultimately show ?thesis using ok by (simp add: cache_ok_def c')
qed

section \<open>Ordered views\<close>

text \<open>
  What the step functions need of an order of the rows: the rows of one table stand together.  Then
  a step goes to the neighbour of the row in its table and never out of the table.
\<close>

locale ordered_view =
  fixes rid tab prim :: "'r \<Rightarrow> nat" and key :: "'r \<Rightarrow> 'o::linorder"
  assumes tab_mono: "key r \<le> key r' \<Longrightarrow> tab r \<le> tab r'"
begin

lemma good_iterator:
  assumes "cache_ok rid tab rows c" and "cache_get rid it c rows = Inr obj" and "tbl_unique rid rows"
  shows "obj \<in> set rows \<and> (\<exists>ei. map_of (table_cache c) (tab obj) = Some ei)"
proof -
  obtain i where i: "iterator_to_object c ! nat it = Some i" "nat it < length (iterator_to_object c)" and f: "tbl_find rid i rows = Some obj"
    using assms(2) by (auto simp: cache_get_iff)
  then have "object_to_iterator c i = Some (nat it)" using assms(1) by (simp add: cache_ok_def)
  then obtain r where r: "r \<in> set rows" "rid r = i" "tab r \<in> dom (map_of (table_cache c))"
    using assms(1) unfolding cache_ok_def by blast
  have "r = obj" using tbl_find_unique [OF assms(3) r(1)] f r(2) by simp
  then show ?thesis using r by auto
qed

lemma add_found_ok:
  assumes "cache_ok rid tab rows c" and "tbl_unique rid rows" and "r \<in> set rows" and "map_of (table_cache c) (tab r) = Some ei"
  obtains it c' where "add_found rid prim r c = (it, Some (prim r), c')" "cache_ok rid tab rows c'"
    "cache_get rid it c' rows = Inr r" "keeps rid rows c c'"
proof -
  obtain it c' where add: "cache_add (rid r) c = (it, c')" by (cases "cache_add (rid r) c")
  have "tbl_find rid (rid r) rows = Some r" using tbl_find_unique [OF assms(2,3)] .
  from cache_add_ok [OF assms(1) this _ add] assms(4) add show ?thesis
    by (intro that) (auto simp: add_found_def)
qed

lemma next_in_spec:
  assumes ok: "cache_ok rid tab rows c" and obj: "cache_get rid it c rows = Inr obj" and u: "tbl_unique rid rows"
  shows "(\<exists>r it' c'. next_in rid tab prim key it rows c = Inr (it', Some (prim r), c') \<and> r \<in> set rows \<and> tab r = tab obj \<and> key obj < key r
        \<and> (\<forall>x\<in>set rows. key obj < key x \<longrightarrow> key r \<le> key x)
        \<and> cache_ok rid tab rows c' \<and> cache_get rid it' c' rows = Inr r \<and> keeps rid rows c c')
    \<or> (\<exists>ei. next_in rid tab prim key it rows c = Inr (ei, None, c) \<and> map_of (table_cache c) (tab obj) = Some ei
        \<and> (\<forall>x\<in>set rows. tab x = tab obj \<longrightarrow> key x \<le> key obj))"
proof -
  obtain ei where o: "obj \<in> set rows" "map_of (table_cache c) (tab obj) = Some ei" using good_iterator [OF assms] by blast
  have it: "\<not> it < - 1" using obj by (auto simp: cache_get_iff)
  have e: "get_end_iterator_by_table_id (tab obj) c = Inr ei" using o(2) by (simp add: get_end_iterator_by_table_id_def)
  show ?thesis
  proof (cases "upper_bound key (key obj) rows")
    case None
    have "next_in rid tab prim key it rows c = Inr (ei, None, c)" by (simp add: next_in_def it obj None e)
    then show ?thesis using o(2) upper_bound_None [OF None] by blast
  next
    case (Some r)
    have r: "r \<in> set rows" "key obj < key r" "\<forall>x\<in>set rows. key obj < key x \<longrightarrow> key r \<le> key x" using upper_bound_Some [OF Some] by auto
    show ?thesis
    proof (cases "tab r = tab obj")
      case True
      then obtain it' c' where "add_found rid prim r c = (it', Some (prim r), c')" "cache_ok rid tab rows c'"
          "cache_get rid it' c' rows = Inr r" "keeps rid rows c c'"
        using add_found_ok [OF ok u r(1)] o(2) by metis
      moreover from this have "next_in rid tab prim key it rows c = Inr (it', Some (prim r), c')" by (simp add: next_in_def it obj Some True)
      ultimately show ?thesis using r True by blast
    next
      case False
      have "next_in rid tab prim key it rows c = Inr (ei, None, c)" by (simp add: next_in_def it obj Some False e)
      moreover have "key x \<le> key obj" if x: "x \<in> set rows" "tab x = tab obj" for x
      proof (rule ccontr)
        assume "\<not> key x \<le> key obj"
        then have "key r \<le> key x" using r(3) x(1) by simp
        then have "tab r \<le> tab x" "tab obj \<le> tab r" using tab_mono r(2) by auto
        then show False using x(2) False by simp
      qed
      ultimately show ?thesis using o(2) by blast
    qed
  qed
qed

lemma previous_in_spec:
  assumes ok: "cache_ok rid tab rows c" and obj: "cache_get rid it c rows = Inr obj" and u: "tbl_unique rid rows"
  shows "(\<exists>r it' c'. previous_in rid tab prim key it rows tabs c = Inr (it', Some (prim r), c') \<and> r \<in> set rows \<and> tab r = tab obj \<and> key r < key obj
        \<and> (\<forall>x\<in>set rows. key x < key obj \<longrightarrow> key x \<le> key r)
        \<and> cache_ok rid tab rows c' \<and> cache_get rid it' c' rows = Inr r \<and> keeps rid rows c c')
    \<or> (previous_in rid tab prim key it rows tabs c = Inr (- 1, None, c) \<and> (\<forall>x\<in>set rows. tab x = tab obj \<longrightarrow> key obj \<le> key x))"
proof -
  obtain ei where o: "obj \<in> set rows" "map_of (table_cache c) (tab obj) = Some ei" using good_iterator [OF assms] by blast
  have it: "\<not> it < - 1" using obj by (auto simp: cache_get_iff)
  show ?thesis
  proof (cases "row_before key (key obj) rows")
    case None
    have "previous_in rid tab prim key it rows tabs c = Inr (- 1, None, c)" by (simp add: previous_in_def it obj None)
    then show ?thesis using row_before_None [OF None] by blast
  next
    case (Some r)
    have r: "r \<in> set rows" "key r < key obj" "\<forall>x\<in>set rows. key x < key obj \<longrightarrow> key x \<le> key r" using row_before_Some [OF Some] by auto
    show ?thesis
    proof (cases "tab r = tab obj")
      case True
      then obtain it' c' where "add_found rid prim r c = (it', Some (prim r), c')" "cache_ok rid tab rows c'"
          "cache_get rid it' c' rows = Inr r" "keeps rid rows c c'"
        using add_found_ok [OF ok u r(1)] o(2) by metis
      moreover from this have "previous_in rid tab prim key it rows tabs c = Inr (it', Some (prim r), c')"
        by (simp add: previous_in_def it obj Some True)
      ultimately show ?thesis using r True by blast
    next
      case False
      have "previous_in rid tab prim key it rows tabs c = Inr (- 1, None, c)" by (simp add: previous_in_def it obj Some False)
      moreover have "key obj \<le> key x" if x: "x \<in> set rows" "tab x = tab obj" for x
      proof (rule ccontr)
        assume "\<not> key obj \<le> key x"
        then have "key x \<le> key r" using r(3) x(1) by simp
        then have "tab x \<le> tab r" "tab r \<le> tab obj" using tab_mono r(2) by auto
        then show False using x(2) False by simp
      qed
      ultimately show ?thesis by blast
    qed
  qed
qed

text \<open>From the end of a table that is still there, a step back reaches its last row, if it has one.\<close>

lemma previous_in_end:
  assumes ok: "cache_ok rid tab rows c" and u: "tbl_unique rid rows"
    and t: "t \<in> set tabs" "tbl_unique tab_id tabs" and ei: "map_of (table_cache c) (tab_id t) = Some ei" "- (2 ^ 31) < ei"
  shows "(\<exists>r it' c'. previous_in rid tab prim key ei rows tabs c = Inr (it', Some (prim r), c') \<and> r \<in> set rows \<and> tab r = tab_id t
        \<and> (\<forall>x\<in>set rows. tab x = tab_id t \<longrightarrow> key x \<le> key r)
        \<and> cache_ok rid tab rows c' \<and> cache_get rid it' c' rows = Inr r \<and> keeps rid rows c c')
    \<or> (previous_in rid tab prim key ei rows tabs c = Inr (- 1, None, c) \<and> (\<forall>x\<in>set rows. tab x \<noteq> tab_id t))"
proof -
  obtain i where i: "i < length (end_iterator_to_table c)" "end_iterator_to_table c ! i = tab_id t" "ei = index_to_end_iterator i"
    using ok ei(1) by (auto simp: cache_ok_def)
  have find: "find_table_by_end_iterator ei c = Inr (Some (tab_id t))" using i ei(2) by (simp add: find_table_by_end_iterator_def)
  have d: "deref tab_id (tab_id t) tabs = Inr t" using tbl_find_unique [OF t(2,1)] by (simp add: deref_def)
  have it: "ei < - 1" using i(3) by simp
  show ?thesis
  proof (cases "last_up_to key tab (tab_id t) rows")
    case None
    have "previous_in rid tab prim key ei rows tabs c = Inr (- 1, None, c)" by (simp add: previous_in_def it find d None)
    then show ?thesis using last_up_to_None [OF None] by (metis less_irrefl)
  next
    case (Some r)
    have r: "\<exists>x\<in>set rows. key x = key r \<and> tab x \<le> tab_id t" "r \<in> set rows" "\<forall>x\<in>set rows. tab x \<le> tab_id t \<longrightarrow> key x \<le> key r"
      using last_up_to_Some [OF Some] by auto
    have le: "tab r \<le> tab_id t" using r(1) tab_mono by (metis order_refl order_trans)
    show ?thesis
    proof (cases "tab r = tab_id t")
      case True
      then obtain it' c' where "add_found rid prim r c = (it', Some (prim r), c')" "cache_ok rid tab rows c'"
          "cache_get rid it' c' rows = Inr r" "keeps rid rows c c'"
        using add_found_ok [OF ok u r(2)] ei(1) by metis
      moreover from this have "previous_in rid tab prim key ei rows tabs c = Inr (it', Some (prim r), c')"
        by (simp add: previous_in_def it find d Some True)
      ultimately show ?thesis using r True by (metis order_refl)
    next
      case False
      have "previous_in rid tab prim key ei rows tabs c = Inr (- 1, None, c)" by (simp add: previous_in_def it find d Some False)
      moreover have "tab x \<noteq> tab_id t" if x: "x \<in> set rows" for x
        using r(3) x tab_mono [of x r] le False by (metis order_refl le_antisym)
      ultimately show ?thesis by blast
    qed
  qed
qed

end

interpretation kv: ordered_view kv_id kv_tab primary_key scope_primary
  by unfold_locales (auto simp: scope_primary_def less_eq_prod_def)

interpretation ixp: ordered_view ix_id ix_tab ix_primary by_primary
  by unfold_locales (auto simp: by_primary_def less_eq_prod_def)

interpretation ixs: ordered_view ix_id ix_tab ix_primary by_secondary
  by unfold_locales (auto simp: by_secondary_def less_eq_prod_def)

section \<open>Bookkeeping of the tables\<close>

text \<open>\<open>f\<close> counts the rows of each table, over the primary rows and the secondary index.\<close>

definition tabs_ok :: "table_id_object list \<Rightarrow> nat \<Rightarrow> (nat \<Rightarrow> nat) \<Rightarrow> bool" where
  "tabs_ok tabs nt f \<longleftrightarrow> tbl_unique tab_id tabs \<and> tbl_unique table_key tabs \<and> (\<forall>t\<in>set tabs. tab_id t < nt \<and> tab_count t = f (tab_id t))
     \<and> (\<forall>i. 0 < f i \<longleftrightarrow> i \<in> tab_id ` set tabs) \<and> (\<forall>i. f i < 2 ^ 32)"

definition up :: "nat \<Rightarrow> table_id_object list \<Rightarrow> table_id_object list" where
  "up i tabs = tbl_modify tab_id i (\<lambda>t. t\<lparr>tab_count := u32 (tab_count t + 1)\<rparr>) tabs"

definition down :: "nat \<Rightarrow> table_id_object list \<Rightarrow> table_id_object list" where
  "down i tabs = tbl_modify tab_id i (\<lambda>t. t\<lparr>tab_count := u32 (tab_count t + (2 ^ 32 - 1))\<rparr>) tabs"

lemma count_up_eq: "count_up i d = d\<lparr>tables := up i (tables d)\<rparr>" and count_down_eq: "count_down i d = d\<lparr>tables := down i (tables d)\<rparr>"
  by (simp_all add: count_up_def count_down_def up_def down_def)

definition table_ids :: "table_id_object list \<Rightarrow> (name \<times> name \<times> name) \<rightharpoonup> nat" where
  "table_ids tabs k = map_option tab_id (tbl_find table_key k tabs)"

lemma recount:
  fixes g :: "table_id_object \<Rightarrow> nat"
  shows "map tab_id (tbl_modify tab_id i (\<lambda>t. t\<lparr>tab_count := g t\<rparr>) tabs) = map tab_id tabs"
    "map table_key (tbl_modify tab_id i (\<lambda>t. t\<lparr>tab_count := g t\<rparr>) tabs) = map table_key tabs"
    "map tab_payer (tbl_modify tab_id i (\<lambda>t. t\<lparr>tab_count := g t\<rparr>) tabs) = map tab_payer tabs"
    "table_ids (tbl_modify tab_id i (\<lambda>t. t\<lparr>tab_count := g t\<rparr>) tabs) = table_ids tabs"
proof -
  let ?m = "tbl_modify tab_id i (\<lambda>t. t\<lparr>tab_count := g t\<rparr>)"
  show "map tab_id (?m tabs) = map tab_id tabs" "map table_key (?m tabs) = map table_key tabs" "map tab_payer (?m tabs) = map tab_payer tabs"
    by (auto simp: tbl_modify_def table_key_def)
  show "table_ids (?m tabs) = table_ids tabs"
    by (rule ext, induction tabs) (auto simp: table_ids_def tbl_find_Cons tbl_modify_def table_key_def)
qed

lemma tabs_ok_recount:
  assumes ok: "tabs_ok tabs nt f" and g: "\<And>t. t \<in> set tabs \<Longrightarrow> tab_id t = i \<Longrightarrow> g t = n" and n: "0 < n" "n < 2 ^ 32" and i: "i \<in> tab_id ` set tabs"
  shows "tabs_ok (tbl_modify tab_id i (\<lambda>t. t\<lparr>tab_count := g t\<rparr>) tabs) nt (f(i := n))"
proof -
  let ?m = "tbl_modify tab_id i (\<lambda>t. t\<lparr>tab_count := g t\<rparr>) tabs"
  have ids: "tab_id ` set ?m = tab_id ` set tabs" using recount(1) [of i g tabs] by (metis list.set_map)
  have "\<forall>t\<in>set ?m. tab_id t < nt \<and> tab_count t = (f(i := n)) (tab_id t)"
    using ok g by (auto simp: tabs_ok_def tbl_modify_def)
  then show ?thesis using ok n i ids recount(1,2) [of i g tabs] by (auto simp: tabs_ok_def tbl_unique_def)
qed

lemma tabs_ok_up:
  assumes "tabs_ok tabs nt f" and "i \<in> tab_id ` set tabs" and "f i + 1 < 2 ^ 32"
  shows "tabs_ok (up i tabs) nt (f(i := f i + 1))"
  unfolding up_def using assms by (intro tabs_ok_recount) (auto simp: tabs_ok_def)

text \<open>A new table, with its first row.\<close>

lemma tabs_ok_new:
  assumes ok: "tabs_ok tabs nt f" and new: "tbl_find table_key (table_key t) tabs = None" and t: "tab_id t = nt" "tab_count t = 0"
  shows "tabs_ok (up nt (tabs @ [t])) (nt + 1) (f(nt := 1)) \<and> f nt = 0"
proof -
  have fresh: "nt \<notin> tab_id ` set tabs" using ok by (auto simp: tabs_ok_def)
  then have "up nt tabs = tabs" by (simp add: up_def tbl_modify_id)
  then have u: "up nt (tabs @ [t]) = tabs @ [t\<lparr>tab_count := 1\<rparr>]" using t by (simp add: up_def tbl_modify_def u32_def)
  have "tbl_find tab_id (tab_id t) tabs = None" using fresh t(1) by (simp add: tbl_find_None)
  then have "tbl_unique tab_id (tabs @ [t])" "tbl_unique table_key (tabs @ [t])"
    using ok new by (auto simp: tabs_ok_def intro: tbl_unique_create)
  then have "tbl_unique tab_id (tabs @ [t\<lparr>tab_count := 1\<rparr>])" "tbl_unique table_key (tabs @ [t\<lparr>tab_count := 1\<rparr>])"
    by (simp_all add: tbl_unique_def table_key_def)
  then show ?thesis using ok fresh t by (auto simp: tabs_ok_def u)
qed

text \<open>One row less; the table goes with its last row.\<close>

lemma tabs_ok_down:
  assumes ok: "tabs_ok tabs nt f" and t: "tbl_find tab_id i tabs = Some t"
  shows "\<exists>t'. tbl_find tab_id i (down i tabs) = Some t' \<and> table_key t' = table_key t \<and> tab_id t' = i \<and> tab_payer t' = tab_payer t
    \<and> tab_count t' = f i - 1 \<and> (if f i = 1 then tabs_ok (tbl_remove tab_id i (down i tabs)) nt (f(i := 0)) else tabs_ok (down i tabs) nt (f(i := f i - 1)))"
proof -
  let ?g = "\<lambda>t. u32 (tab_count t + (2 ^ 32 - 1))" and ?t = "t\<lparr>tab_count := f i - 1\<rparr>"
  have tt: "t \<in> set tabs" "tab_id t = i" using tbl_find_Some [OF t] by auto
  have pos: "0 < f i" "f i < 2 ^ 32" using ok tt by (auto simp: tabs_ok_def)
  have g: "?g x = f i - 1" if "x \<in> set tabs" "tab_id x = i" for x
  proof -
    have "tab_count x = f i" using ok that by (auto simp: tabs_ok_def)
    moreover have "u32 (f i + (2 ^ 32 - 1)) = f i - 1"
      using pos by (simp add: u32_def mod_if)
    ultimately show ?thesis by simp
  qed
  have "tbl_find tab_id i (down i tabs) = Some (t\<lparr>tab_count := ?g t\<rparr>)"
    unfolding down_def using t by (subst tbl_find_modify) auto
  then have find: "tbl_find tab_id i (down i tabs) = Some ?t" using g [OF tt] by simp
  moreover have "tabs_ok (down i tabs) nt (f(i := f i - 1))" if "f i \<noteq> 1"
    unfolding down_def using that pos tt by (intro tabs_ok_recount [OF ok g]) auto
  moreover have "tabs_ok (tbl_remove tab_id i (down i tabs)) nt (f(i := 0))" if "f i = 1"
  proof -
    have rest: "tbl_remove tab_id i (down i tabs) = tbl_remove tab_id i tabs"
      by (induction tabs) (auto simp: down_def tbl_remove_def tbl_modify_def)
    have "tab_id ` set (tbl_remove tab_id i tabs) = tab_id ` set tabs - {i}" by (auto simp: tbl_remove_def)
    moreover have "\<forall>x\<in>set (tbl_remove tab_id i tabs). tab_id x < nt \<and> tab_count x = (f(i := 0)) (tab_id x)"
      using ok by (auto simp: tabs_ok_def tbl_remove_def)
    ultimately show ?thesis
      using ok tbl_unique_remove [of tab_id tabs i] unfolding rest
      by (auto simp: tabs_ok_def tbl_unique_def tbl_remove_def distinct_map_filter)
  qed
  ultimately show ?thesis using tt by (auto simp: table_key_def)
qed

section \<open>Bookkeeping of the rows\<close>

definition rows_ok :: "('r \<Rightarrow> nat) \<Rightarrow> ('r \<Rightarrow> nat) \<Rightarrow> ('r \<Rightarrow> 'o) \<Rightarrow> 'r list \<Rightarrow> nat \<Rightarrow> iterator_cache \<Rightarrow> bool" where
  "rows_ok rid tab key rows n c \<longleftrightarrow> tbl_unique rid rows \<and> tbl_unique key rows \<and> (\<forall>r\<in>set rows. rid r < n) \<and> cache_ok rid tab rows c"

text \<open>An iterator still names the same row, which may have been changed by \<open>f\<close>.\<close>

lemma cache_ok_rows:
  assumes "cache_ok rid tab rows c" and "\<And>r. r \<in> set rows \<Longrightarrow> \<exists>r'\<in>set rows'. rid r' = rid r \<and> tab r' = tab r"
  shows "cache_ok rid tab rows' c"
proof -
  have "\<exists>r\<in>set rows'. rid r = obj \<and> tab r \<in> dom (map_of (table_cache c))" if o: "obj \<in> dom (object_to_iterator c)" for obj
  proof -
    obtain r where r: "r \<in> set rows" "rid r = obj" "tab r \<in> dom (map_of (table_cache c))"
      using assms(1) o unfolding cache_ok_def by blast
    obtain r' where "r' \<in> set rows'" "rid r' = rid r" "tab r' = tab r" using assms(2) [OF r(1)] by blast
    then show ?thesis using r by metis
  qed
  then show ?thesis using assms(1) by (simp add: cache_ok_def)
qed

lemma rows_ok_insert:
  assumes ok: "rows_ok rid tab key rows n c" and r: "rid r = n" and new: "tbl_find key (key r) rows = None"
    and run: "cache_add n (snd (cache_table (tab r) c)) = (it, c')"
  shows "rows_ok rid tab key (rows @ [r]) (n + 1) c' \<and> cache_get rid it c' (rows @ [r]) = Inr r
    \<and> (\<forall>j x. cache_get rid j c rows = Inr x \<longrightarrow> cache_get rid j c' (rows @ [r]) = Inr x)"
proof -
  let ?rows = "rows @ [r]"
  have fresh: "tbl_find rid n rows = None" using ok by (auto simp: rows_ok_def tbl_find_None)
  have u: "tbl_unique rid ?rows" "tbl_unique key ?rows"
    using ok new fresh r by (auto simp: rows_ok_def intro: tbl_unique_create)
  have c0: "cache_ok rid tab ?rows c" by (rule cache_ok_rows [of rid tab rows]) (use ok in \<open>auto simp: rows_ok_def\<close>)
  obtain ei c1 where c1: "cache_table (tab r) c = (ei, c1)" by (cases "cache_table (tab r) c")
  note t = cache_table_ok [OF c0 c1]
  then have t1: "cache_ok rid tab ?rows c1" and t2: "tab r \<in> dom (map_of (table_cache c1))" by auto
  have add: "cache_add (rid r) c1 = (it, c')" using run r c1 by simp
  have find: "tbl_find rid (rid r) ?rows = Some r" using tbl_find_unique [OF u(1)] by simp
  have a: "cache_ok rid tab ?rows c' \<and> cache_get rid it c' ?rows = Inr r \<and> keeps rid ?rows c1 c'"
    using cache_add_ok [OF t1 find t2 add] by blast
  have "cache_get rid j c ?rows = Inr x" if "cache_get rid j c rows = Inr x" for j x
    using that fresh by (auto simp: cache_get_iff tbl_find_append)
  moreover have "keeps rid ?rows c c'" using keeps_trans t a by blast
  ultimately show ?thesis using ok u a r by (auto simp: rows_ok_def keeps_def)
qed

lemma rows_ok_modify:
  assumes ok: "rows_ok rid tab key rows n c" and f: "\<And>r. rid (f r) = rid r" "\<And>r. tab (f r) = tab r" "\<And>r. key (f r) = key r"
  shows "rows_ok rid tab key (tbl_modify rid i f rows) n c
    \<and> (\<forall>j x. cache_get rid j c rows = Inr x \<longrightarrow> cache_get rid j c (tbl_modify rid i f rows) = Inr (if rid x = i then f x else x))"
proof -
  let ?rows = "tbl_modify rid i f rows"
  have m: "map rid ?rows = map rid rows" "map key ?rows = map key rows" using f by (auto simp: tbl_modify_def)
  have "\<exists>r'\<in>set ?rows. rid r' = rid r \<and> tab r' = tab r" if "r \<in> set rows" for r
    using that f by (intro bexI [of _ "if rid r = i then f r else r"]) (auto simp: tbl_modify_def)
  then have "cache_ok rid tab ?rows c" using ok by (auto simp: rows_ok_def intro: cache_ok_rows [of rid tab rows])
  moreover have "cache_get rid j c ?rows = Inr (if rid x = i then f x else x)" if g: "cache_get rid j c rows = Inr x" for j x
  proof -
    obtain obj where o: "iterator_to_object c ! nat j = Some obj" and x: "tbl_find rid obj rows = Some x" and j: "0 \<le> j" "nat j < length (iterator_to_object c)"
      using g by (auto simp: cache_get_iff)
    have "tbl_find rid obj ?rows = Some (if rid x = i then f x else x)"
      using x tbl_find_Some [OF x] tbl_find_modify [of rid f obj i rows, OF f(1)] by (auto simp: tbl_find_modify f)
    then show ?thesis using o j by (simp add: cache_get_iff)
  qed
  moreover have "\<forall>r\<in>set ?rows. rid r < n" using ok f by (auto simp: rows_ok_def tbl_modify_def)
  ultimately show ?thesis using ok m by (simp add: rows_ok_def tbl_unique_def)
qed

lemma rows_ok_remove:
  assumes ok: "rows_ok rid tab key rows n c" and g: "cache_get rid it c rows = Inr r"
  shows "\<exists>c'. cache_remove it c = Inr c' \<and> rows_ok rid tab key (tbl_remove rid (rid r) rows) n c'
    \<and> (\<forall>j x. j \<noteq> it \<longrightarrow> cache_get rid j c rows = Inr x \<longrightarrow> cache_get rid j c' (tbl_remove rid (rid r) rows) = Inr x)
    \<and> cache_get rid it c' (tbl_remove rid (rid r) rows) = Inl table_operation_not_permitted"
proof -
  let ?rows = "tbl_remove rid (rid r) rows"
  obtain obj where o: "iterator_to_object c ! nat it = Some obj" and x: "tbl_find rid obj rows = Some r" and it: "0 \<le> it" "nat it < length (iterator_to_object c)"
    using g by (auto simp: cache_get_iff)
  have obj: "obj = rid r" using tbl_find_Some [OF x] by simp
  let ?c = "c\<lparr>iterator_to_object := (iterator_to_object c)[nat it := None], object_to_iterator := (object_to_iterator c)(obj := None)\<rparr>"
  have run: "cache_remove it c = Inr ?c" using o it by (simp add: cache_remove_def eos_assert_def)
  have inv: "object_to_iterator c o1 = Some i \<longleftrightarrow> i < length (iterator_to_object c) \<and> iterator_to_object c ! i = Some o1" for o1 i
    using ok by (simp add: rows_ok_def cache_ok_def)
  have here: "object_to_iterator c obj = Some (nat it)" using inv o it by simp
  have other: "iterator_to_object c ! i \<noteq> Some obj" if "i < length (iterator_to_object c)" "i \<noteq> nat it" for i
    using inv here that by (metis option.inject)
  have inv': "object_to_iterator ?c o1 = Some i \<longleftrightarrow> i < length (iterator_to_object ?c) \<and> iterator_to_object ?c ! i = Some o1" for o1 i
  proof (cases "i = nat it")
    case True
    then show ?thesis using it inv here o by (auto simp: inv)
  next
    case False
    then show ?thesis using inv other by auto
  qed
  have "\<forall>o1\<in>dom (object_to_iterator ?c). \<exists>x\<in>set ?rows. rid x = o1 \<and> tab x \<in> dom (map_of (table_cache ?c))"
  proof
    fix o1
    assume "o1 \<in> dom (object_to_iterator ?c)"
    then have d: "o1 \<in> dom (object_to_iterator c)" "o1 \<noteq> rid r" using obj by (auto split: if_splits)
    then obtain x where "x \<in> set rows" "rid x = o1" "tab x \<in> dom (map_of (table_cache c))"
      using ok unfolding rows_ok_def cache_ok_def by blast
    then show "\<exists>x\<in>set ?rows. rid x = o1 \<and> tab x \<in> dom (map_of (table_cache ?c))" using d(2) by (auto simp: tbl_remove_def)
  qed
  then have c: "cache_ok rid tab ?rows ?c" using ok inv' unfolding rows_ok_def cache_ok_def by simp
  have u: "tbl_unique rid ?rows" "tbl_unique key ?rows" "\<forall>r\<in>set ?rows. rid r < n"
    using ok by (auto simp: rows_ok_def tbl_unique_def tbl_remove_def distinct_map_filter)
  have keep: "cache_get rid j ?c ?rows = Inr y" if j: "j \<noteq> it" "cache_get rid j c rows = Inr y" for j y
  proof -
    obtain o1 where o1: "iterator_to_object c ! nat j = Some o1" "tbl_find rid o1 rows = Some y" "0 \<le> j" "nat j < length (iterator_to_object c)"
      using j(2) by (auto simp: cache_get_iff)
    have ne: "nat j \<noteq> nat it" using j(1) o1(3) it(1) by auto
    then have "o1 \<noteq> rid r" using other [of "nat j"] o1 obj by auto
    then show ?thesis using o1 ne by (auto simp: cache_get_iff tbl_find_remove)
  qed
  have gone: "cache_get rid it ?c ?rows = Inl table_operation_not_permitted"
    using it by (simp add: cache_get_def eos_assert_def)
  show ?thesis using run c u keep gone by (auto simp: rows_ok_def)
qed

section \<open>What the contract sees\<close>

text \<open>A table as a map from primary keys, for the primary rows and for the secondary index alike.\<close>

definition view_of :: "table_id_object list \<Rightarrow> ('r \<Rightarrow> nat \<times> nat) \<Rightarrow> ('r \<Rightarrow> 'v) \<Rightarrow> 'r list \<Rightarrow> name \<times> name \<times> name \<Rightarrow> nat \<rightharpoonup> 'v" where
  "view_of tabs key val rows k p =
     (case table_ids tabs k of None \<Rightarrow> None | Some i \<Rightarrow> map_option val (tbl_find key (i, p) rows))"

text \<open>Changing the tables without losing a row does not change what is seen.\<close>

lemma view_of_tables:
  assumes "\<And>k' i. table_ids tabs k' = Some i \<Longrightarrow> i \<in> (fst \<circ> key) ` set rows \<Longrightarrow> table_ids tabs' k' = Some i"
    and "\<And>k' i. table_ids tabs' k' = Some i \<Longrightarrow> i \<in> (fst \<circ> key) ` set rows \<Longrightarrow> table_ids tabs k' = Some i"
  shows "view_of tabs' key val rows = view_of tabs key val rows"
proof (intro ext)
  fix k' p
  have none: "tbl_find key (i, p) rows = None" if "i \<notin> (fst \<circ> key) ` set rows" for i
    unfolding tbl_find_None using that by (metis comp_apply fst_conv imageE imageI)
  show "view_of tabs' key val rows k' p = view_of tabs key val rows k' p"
  proof (cases "\<exists>i. (table_ids tabs k' = Some i \<or> table_ids tabs' k' = Some i) \<and> i \<in> (fst \<circ> key) ` set rows")
    case True
    then obtain i where "table_ids tabs k' = Some i" "table_ids tabs' k' = Some i" using assms by blast
    then show ?thesis by (simp add: view_of_def)
  next
    case False
    have "view_of T key val rows k' p = None" if "\<forall>i. table_ids T k' = Some i \<longrightarrow> i \<notin> (fst \<circ> key) ` set rows" for T
      using that none by (auto simp: view_of_def split: option.split)
    then show ?thesis using False by metis
  qed
qed

lemma view_of_insert:
  assumes k: "table_ids tabs k = Some i" and inj: "\<And>k'. table_ids tabs k' = Some i \<Longrightarrow> k' = k"
    and r: "key r = (i, p)" and new: "tbl_find key (key r) rows = None"
  shows "view_of tabs key val (rows @ [r]) = (view_of tabs key val rows)(k := (view_of tabs key val rows k)(p \<mapsto> val r))
    \<and> view_of tabs key val rows k p = None"
proof
  show "view_of tabs key val (rows @ [r]) = (view_of tabs key val rows)(k := (view_of tabs key val rows k)(p \<mapsto> val r))"
  proof (intro ext)
    fix k' p'
    show "view_of tabs key val (rows @ [r]) k' p' = ((view_of tabs key val rows)(k := (view_of tabs key val rows k)(p \<mapsto> val r))) k' p'"
    proof (cases "table_ids tabs k' = Some i")
      case True
      then have "k' = k" by (rule inj)
      then show ?thesis using k r new by (auto simp: view_of_def tbl_find_append split: option.split)
    next
      case False
      then have "k' \<noteq> k" using k by auto
      then show ?thesis using False r by (auto simp: view_of_def tbl_find_append split: option.split)
    qed
  qed
  show "view_of tabs key val rows k p = None" using k r new by (simp add: view_of_def)
qed

lemma find_by_key_modify:
  assumes "tbl_unique rid rows" "tbl_unique key rows" "r \<in> set rows" and f: "\<And>x. key (f x) = key x"
  shows "tbl_find key kk (tbl_modify rid (rid r) f rows) = (if kk = key r then Some (f r) else tbl_find key kk rows)"
proof -
  have "tbl_modify rid (rid r) f rows = tbl_modify key (key r) f rows"
    unfolding tbl_modify_def using assms(1-3) by (intro map_cong) (auto simp: tbl_unique_def distinct_map dest: inj_onD)
  then show ?thesis using tbl_find_modify [of key f kk "key r" rows, OF f] tbl_find_unique [OF assms(2,3)] by simp
qed

lemma find_by_key_remove:
  assumes "tbl_unique rid rows" "tbl_unique key rows" "r \<in> set rows"
  shows "tbl_find key kk (tbl_remove rid (rid r) rows) = (if kk = key r then None else tbl_find key kk rows)"
proof -
  have "tbl_remove rid (rid r) rows = tbl_remove key (key r) rows"
    unfolding tbl_remove_def using assms by (intro filter_cong) (auto simp: tbl_unique_def distinct_map dest: inj_onD)
  then show ?thesis by (simp add: tbl_find_remove)
qed

lemma view_of_change:
  assumes k: "table_ids tabs k = Some i" and inj: "\<And>k'. table_ids tabs k' = Some i \<Longrightarrow> k' = k"
    and find: "\<And>kk. tbl_find key kk rows' = (if kk = (i, p) then x else tbl_find key kk rows)"
  shows "view_of tabs key val rows' = (view_of tabs key val rows)(k := (view_of tabs key val rows k)(p := map_option val x))"
proof (intro ext)
  fix k' p'
  show "view_of tabs key val rows' k' p' = ((view_of tabs key val rows)(k := (view_of tabs key val rows k)(p := map_option val x))) k' p'"
  proof (cases "table_ids tabs k' = Some i")
    case True
    then have "k' = k" by (rule inj)
    then show ?thesis using k find by (auto simp: view_of_def)
  next
    case False
    then have "k' \<noteq> k" using k by auto
    then show ?thesis using False find by (auto simp: view_of_def split: option.split)
  qed
qed

lemma table_ids_inj:
  assumes "tbl_unique tab_id tabs" and "table_ids tabs k = Some i" and "table_ids tabs k' = Some i"
  shows "k' = k"
proof -
  obtain t t' where t: "tbl_find table_key k tabs = Some t" "tab_id t = i" and t': "tbl_find table_key k' tabs = Some t'" "tab_id t' = i"
    using assms(2,3) by (auto simp: table_ids_def)
  have "t = t'" using assms(1) tbl_find_Some [OF t(1)] tbl_find_Some [OF t'(1)] t(2) t'(2)
    by (metis option.inject tbl_find_unique)
  then show ?thesis using tbl_find_Some [OF t(1)] tbl_find_Some [OF t'(1)] by simp
qed

lemma table_ids_member:
  assumes "tbl_unique table_key tabs" and "t \<in> set tabs"
  shows "table_ids tabs (table_key t) = Some (tab_id t)"
  using tbl_find_unique [OF assms] by (simp add: table_ids_def)

section \<open>The state of a contract database\<close>

definition refs :: "('k, 'h, 's) contract_db \<Rightarrow> nat \<Rightarrow> nat" where
  "refs d i = count_list (map kv_tab (key_values d)) i + count_list (map ix_tab (index_objects d)) i"

definition db_ok :: "('k, 'h, 's) contract_db \<Rightarrow> bool" where
  "db_ok d \<longleftrightarrow> tabs_ok (tables d) (next_table_id d) (refs d)
     \<and> rows_ok kv_id kv_tab scope_primary (key_values d) (next_kv_id d) (keyval_cache d)
     \<and> rows_ok ix_id ix_tab by_primary (index_objects d) (next_index_id d) (itr_cache d)
     \<and> (\<forall>r\<in>set (key_values d). length (kv_value r) < 2 ^ 32)"

definition table_view :: "('k, 'h, 's) contract_db \<Rightarrow> name \<times> name \<times> name \<Rightarrow> nat \<rightharpoonup> name \<times> bytes" where
  "table_view d = view_of (tables d) scope_primary (\<lambda>r. (kv_payer r, kv_value r)) (key_values d)"

definition index_view :: "('k, 'h, 's) contract_db \<Rightarrow> name \<times> name \<times> name \<Rightarrow> nat \<rightharpoonup> name \<times> 's" where
  "index_view d = view_of (tables d) by_primary (\<lambda>r. (ix_payer r, secondary_key r)) (index_objects d)"

text \<open>What the rows and tables cost each payer, and what is billed.\<close>

definition table_cost :: "name \<Rightarrow> table_id_object \<Rightarrow> int" where
  "table_cost a t = (if tab_payer t = a then int table_id_object_size else 0)"

definition kv_cost :: "name \<Rightarrow> key_value_object \<Rightarrow> int" where
  "kv_cost a r = (if kv_payer r = a then int (length (kv_value r) + key_value_object_size) else 0)"

definition ix_cost :: "exec_env \<Rightarrow> name \<Rightarrow> 's index_object \<Rightarrow> int" where
  "ix_cost e a r = (if ix_payer r = a then int (index_size e) else 0)"

definition cost :: "exec_env \<Rightarrow> ('k, 'h, 's) contract_db \<Rightarrow> name \<Rightarrow> int" where
  "cost e d a = (\<Sum>t\<leftarrow>tables d. table_cost a t) + (\<Sum>r\<leftarrow>key_values d. kv_cost a r) + (\<Sum>r\<leftarrow>index_objects d. ix_cost e a r)"

abbreviation ram :: "('k, 'h, 's) contract_db \<Rightarrow> name \<Rightarrow> int" where
  "ram d a \<equiv> ram_of a (resource_tables (base d))"

abbreviation ram_ok :: "('k, 'h, 's) contract_db \<Rightarrow> bool" where
  "ram_ok d \<equiv> ram_table_ok (resource_tables (base d))"

definition billed :: "exec_env \<Rightarrow> ('k, 'h, 's) contract_db \<Rightarrow> ('k, 'h, 's) contract_db \<Rightarrow> bool" where
  "billed e d d' \<longleftrightarrow> ram_ok d' \<and> (\<forall>a. ram d' a - ram d a = cost e d' a - cost e d a)"

lemma update_db_usage_billed:
  assumes run: "update_db_usage e who n d = Inr d'" and ok: "ram_ok d" and n: "- (2 ^ 63) < n" "n < 2 ^ 63"
  shows "(\<exists>b. d' = d\<lparr>base := b\<rparr>) \<and> ram_ok d' \<and> (\<forall>a. ram d' a = ram d a + (if a = who then n else 0))"
proof -
  obtain c0 c1 where c0: "c0 = base d \<or> require_authorization who (act_auths e) (base d) = Inr c0"
    and c1: "add_ram_usage who n c0 = Inr c1" and d': "d' = d\<lparr>base := c1\<rparr>"
    using run by (auto simp: update_db_usage_def result_simps split: if_splits)
  have "resource_tables c0 = resource_tables (base d)" using c0 require_authorization_same(2) by auto
  then show ?thesis using add_ram_usage_billed [OF c1 _ n] ok d' by auto
qed


lemma sizes_tables: "table_id_object_size = 112" "key_value_object_size = 112"
  by (simp_all add: table_id_object_size_def key_value_object_size_def billable_size_v_def)

lemma sum_recount:
  fixes g :: "table_id_object \<Rightarrow> nat"
  shows "(\<Sum>t\<leftarrow>tbl_modify tab_id i (\<lambda>t. t\<lparr>tab_count := g t\<rparr>) tabs. table_cost a t) = (\<Sum>t\<leftarrow>tabs. table_cost a t)"
  by (rule arg_cong [where f = sum_list]) (auto simp: tbl_modify_def table_cost_def)

text \<open>Opening a table for one more row.\<close>

definition opened :: "('k, 'h, 's) contract_db \<Rightarrow> name \<times> name \<times> name \<Rightarrow> nat \<Rightarrow> ('k, 'h, 's) contract_db \<Rightarrow> bool" where
  "opened d k i d1 \<longleftrightarrow> tabs_ok (up i (tables d1)) (next_table_id d1) ((refs d)(i := refs d i + 1))
    \<and> table_ids (tables d1) k = Some i \<and> (table_ids (tables d) k = Some i \<or> table_ids (tables d) k = None)
    \<and> (\<forall>k'. k' \<noteq> k \<longrightarrow> table_ids (tables d1) k' = table_ids (tables d) k') \<and> (table_ids (tables d) k = None \<longrightarrow> refs d i = 0)
    \<and> (\<exists>b ts n. d1 = d\<lparr>base := b, tables := ts, next_table_id := n\<rparr>) \<and> ram_ok d1
    \<and> (\<forall>a. ram d1 a - ram d a = (\<Sum>t\<leftarrow>tables d1. table_cost a t) - (\<Sum>t\<leftarrow>tables d. table_cost a t))"

lemma open_table:
  assumes ok: "db_ok d" "ram_ok d" and room: "\<And>i. refs d i + 1 < 2 ^ 32"
    and run: "find_or_create_table e c s t who d = Inr (tab, d1)"
  shows "opened d (c, s, t) (tab_id tab) d1"
proof (cases "tbl_find table_key (c, s, t) (tables d)")
  case (Some x)
  have tabs: "tabs_ok (tables d) (next_table_id d) (refs d)" using ok(1) by (simp add: db_ok_def)
  have "tab = x" "d1 = d" using run Some by (auto simp: find_or_create_table_def)
  then show ?thesis
    using tabs_ok_up [OF tabs _ room, of "tab_id x"] tbl_find_Some [OF Some] Some ok(2)
    by (auto simp: opened_def table_ids_def intro!: exI [of _ "base d"] exI [of _ "tables d"] exI [of _ "next_table_id d"])
next
  case None
  have tabs: "tabs_ok (tables d) (next_table_id d) (refs d)" using ok(1) by (simp add: db_ok_def)
  let ?t = "\<lparr>tab_id = next_table_id d, tab_code = c, tab_scope = s, tab_table = t, tab_payer = who, tab_count = 0\<rparr>"
  obtain d0 where bill: "update_db_usage e who (int table_id_object_size) d = Inr d0"
    and t: "bind_r (tbl_create table_key (?t\<lparr>tab_id := next_table_id d0\<rparr>) (tables d0)) (\<lambda>ts.
      Inr (?t\<lparr>tab_id := next_table_id d0\<rparr>, d0\<lparr>tables := ts, next_table_id := next_table_id d0 + 1\<rparr>)) = Inr (tab, d1)"
    using run None by (auto simp: find_or_create_table_def result_simps Let_def)
  obtain b where d0: "d0 = d\<lparr>base := b\<rparr>" and r: "ram_ok d0" "\<And>a. ram d0 a = ram d a + (if a = who then int table_id_object_size else 0)"
    using update_db_usage_billed [OF bill ok(2)] by (auto simp: sizes_tables)
  have tab: "tab = ?t" and d1: "d1 = d\<lparr>base := b, tables := tables d @ [?t], next_table_id := next_table_id d + 1\<rparr>"
    using t by (auto simp: d0 result_simps tbl_create_eq_Inr)
  have key: "table_key ?t = (c, s, t)" by (simp add: table_key_def)
  have new: "tabs_ok (up (next_table_id d) (tables d @ [?t])) (next_table_id d + 1) ((refs d)(next_table_id d := 1))"
    and z: "refs d (next_table_id d) = 0"
    using tabs_ok_new [OF tabs, of ?t] None key by auto
  have "table_ids (tables d @ [?t]) k' = (if k' = (c, s, t) then Some (next_table_id d) else table_ids (tables d) k')" for k'
    using None key by (auto simp: table_ids_def tbl_find_append split: option.split)
  then show ?thesis
    using new z None r by (auto simp: opened_def tab d1 table_ids_def d0 table_cost_def)
qed

lemma refs_member: "i \<in> kv_tab ` set (key_values d) \<union> ix_tab ` set (index_objects d) \<Longrightarrow> 0 < refs d i"
  by (auto simp: refs_def image_iff count_list_0_iff intro!: gr0I)

lemma opened_view:
  assumes "db_ok d" and o: "opened d k i d1" and rows: "(fst \<circ> key) ` set rows \<subseteq> {i. 0 < refs d i}"
  shows "view_of (tables d1) key val rows = view_of (tables d) key val rows"
proof (rule view_of_tables)
  fix k' j
  assume j: "j \<in> (fst \<circ> key) ` set rows"
  then have pos: "0 < refs d j" using rows by blast
  have ids: "table_ids (tables d1) k = Some i" "table_ids (tables d) k = Some i \<or> table_ids (tables d) k = None \<and> refs d i = 0"
      "k' \<noteq> k \<Longrightarrow> table_ids (tables d1) k' = table_ids (tables d) k'"
    using o unfolding opened_def by blast+
  { assume "table_ids (tables d) k' = Some j"
    then show "table_ids (tables d1) k' = Some j" using ids by (cases "k' = k") auto }
  { assume "table_ids (tables d1) k' = Some j"
    then show "table_ids (tables d) k' = Some j" using ids pos by (cases "k' = k") auto }
qed

section \<open>The writing operations\<close>

definition points :: "('k, 'h, 's) contract_db \<Rightarrow> int \<Rightarrow> name \<times> name \<times> name \<Rightarrow> nat \<Rightarrow> bool" where
  "points d it k p \<longleftrightarrow> (\<exists>r i. cache_get kv_id it (keyval_cache d) (key_values d) = Inr r
     \<and> table_ids (tables d) k = Some i \<and> scope_primary r = (i, p))"

definition index_points :: "('k, 'h, 's) contract_db \<Rightarrow> int \<Rightarrow> name \<times> name \<times> name \<Rightarrow> nat \<Rightarrow> bool" where
  "index_points d it k p \<longleftrightarrow> (\<exists>r i. cache_get ix_id it (itr_cache d) (index_objects d) = Inr r
     \<and> table_ids (tables d) k = Some i \<and> by_primary r = (i, p))"

lemma key_tables:
  "(fst \<circ> scope_primary) ` set (key_values d) \<subseteq> {i. 0 < refs d i}" "(fst \<circ> by_primary) ` set (index_objects d) \<subseteq> {i. 0 < refs d i}"
  using refs_member [of _ d] by (auto simp: scope_primary_def by_primary_def)

lemma up_ids: "table_ids (up i ts) = table_ids ts" and down_ids: "table_ids (down i ts) = table_ids ts"
  unfolding up_def down_def by (rule recount(4))+

lemma up_cost: "(\<Sum>t\<leftarrow>up i ts. table_cost a t) = (\<Sum>t\<leftarrow>ts. table_cost a t)"
  and down_cost: "(\<Sum>t\<leftarrow>down i ts. table_cost a t) = (\<Sum>t\<leftarrow>ts. table_cost a t)"
  unfolding up_def down_def by (rule sum_recount)+

lemma view_of_same_ids: "table_ids tabs' = table_ids tabs \<Longrightarrow> view_of tabs' key val rows = view_of tabs key val rows"
  by (rule ext)+ (simp add: view_of_def)

lemma db_store_ok:
  assumes ok: "db_ok d" "ram_ok d" and room: "\<And>i. refs d i + 1 < 2 ^ 32" and len: "length buffer < 2 ^ 32"
    and run: "db_store_i64 e c s t who p buffer d = Inr (it, d')"
  shows "db_ok d' \<and> billed e d d' \<and> table_view d (c, s, t) p = None \<and> points d' it (c, s, t) p
    \<and> table_view d' = (table_view d)((c, s, t) := (table_view d (c, s, t))(p \<mapsto> (who, buffer))) \<and> index_view d' = index_view d"
proof -
  let ?k = "(c, s, t)"
  obtain tab d1 where tab: "find_or_create_table e c s t who d = Inr (tab, d1)"
    using run by (auto simp: db_store_i64_def result_simps)
  define i where "i = tab_id tab"
  note o = open_table [OF ok room tab, folded i_def]
  obtain b ts nt where d1: "d1 = d\<lparr>base := b, tables := ts, next_table_id := nt\<rparr>" using o unfolding opened_def by blast
  let ?r = "\<lparr>kv_id = next_kv_id d, kv_tab = i, primary_key = p, kv_payer = who, kv_value = buffer\<rparr>"
  let ?d2 = "d1\<lparr>key_values := key_values d @ [?r], next_kv_id := next_kv_id d + 1, tables := up i ts\<rparr>"
  obtain d3 cc where new: "tbl_find scope_primary (scope_primary ?r) (key_values d) = None"
    and bill: "update_db_usage e who (int (length buffer + key_value_object_size)) ?d2 = Inr d3"
    and cc: "cache_add (next_kv_id d) (snd (cache_table i (keyval_cache d3))) = (it, cc)" and d': "d' = d3\<lparr>keyval_cache := cc\<rparr>"
    using run by (auto simp: db_store_i64_def tab i_def [symmetric] d1 result_simps tbl_create_eq_Inr count_up_eq Let_def split_beta prod_eq_iff)
  obtain b3 where d3: "d3 = ?d2\<lparr>base := b3\<rparr>" and r3: "ram_ok d3" "\<And>a. ram d3 a = ram d1 a + (if a = who then int (length buffer + key_value_object_size) else 0)"
  proof -
    have "ram_ok ?d2" using o d1 by (simp add: opened_def)
    from update_db_usage_billed [OF bill this] that show ?thesis using len d1 by (auto simp: sizes_tables)
  qed
  have d'': "d' = d\<lparr>base := b3, tables := up i ts, next_table_id := nt, key_values := key_values d @ [?r], next_kv_id := next_kv_id d + 1,
      keyval_cache := cc\<rparr>" by (simp add: d' d3 d1)
  have "rows_ok kv_id kv_tab scope_primary (key_values d) (next_kv_id d) (keyval_cache d)" using ok(1) by (simp add: db_ok_def)
  from rows_ok_insert [OF this _ new] cc
  have rows: "rows_ok kv_id kv_tab scope_primary (key_values d @ [?r]) (next_kv_id d + 1) cc"
    and get: "cache_get kv_id it cc (key_values d @ [?r]) = Inr ?r"
    by (simp_all add: d3 d1)
  have refs: "refs d' = (refs d)(i := refs d i + 1)" by (rule ext) (simp add: d'' refs_def)
  have tabs: "tabs_ok (up i ts) nt ((refs d)(i := refs d i + 1))" and ids: "table_ids ts ?k = Some i"
    using o by (auto simp: opened_def d1)
  have "db_ok d'" using ok(1) tabs rows refs len by (simp add: db_ok_def) (simp add: d'')
  moreover have "billed e d d'"
  proof -
    have "ram d1 a - ram d a = (\<Sum>t\<leftarrow>ts. table_cost a t) - (\<Sum>t\<leftarrow>tables d. table_cost a t)" for a
      using o by (auto simp: opened_def d1)
    moreover have "cost e d' a = (\<Sum>t\<leftarrow>ts. table_cost a t) + (\<Sum>r\<leftarrow>key_values d. kv_cost a r) + kv_cost a ?r + (\<Sum>r\<leftarrow>index_objects d. ix_cost e a r)" for a
      by (simp add: cost_def d'' up_cost)
    ultimately show ?thesis using r3 by (simp add: billed_def cost_def d' kv_cost_def d1)
  qed
  moreover have "points d' it ?k p" using get ids by (simp add: points_def d'' up_ids scope_primary_def)
  moreover have "index_view d' = index_view d"
    using opened_view [OF ok(1) o key_tables(2)] by (simp add: index_view_def d'' view_of_same_ids [OF up_ids] d1)
  moreover have "table_view d' = (table_view d)(?k := (table_view d ?k)(p \<mapsto> (who, buffer))) \<and> table_view d ?k p = None"
  proof -
    have inj: "k' = ?k" if "table_ids ts k' = Some i" for k'
      using table_ids_inj [of "up i ts" ?k i k'] tabs ids that by (simp add: tabs_ok_def up_ids)
    have "view_of ts scope_primary (\<lambda>r. (kv_payer r, kv_value r)) (key_values d) = table_view d"
      using opened_view [OF ok(1) o key_tables(1)] by (simp add: table_view_def d1)
    then show ?thesis
      using view_of_insert [OF ids inj, where r = ?r and rows = "key_values d" and key = scope_primary and p = p and val = "\<lambda>r. (kv_payer r, kv_value r)"] new
      by (simp add: table_view_def d'' view_of_same_ids [OF up_ids] scope_primary_def)
  qed
  ultimately show ?thesis by blast
qed

text \<open>The row behind an iterator, its table, and what the contract sees there.\<close>

lemma iterator_row:
  assumes ok: "db_ok d" and g: "cache_get kv_id it (keyval_cache d) (key_values d) = Inr r"
  obtains t where "r \<in> set (key_values d)" "tbl_find tab_id (kv_tab r) (tables d) = Some t" "tab_id t = kv_tab r"
    "get_table (kv_tab r) (keyval_cache d) (tables d) = Inr t" "table_ids (tables d) (table_key t) = Some (kv_tab r)"
    "points d it (table_key t) (primary_key r)" "table_view d (table_key t) (primary_key r) = Some (kv_payer r, kv_value r)"
proof -
  have rows: "tbl_unique kv_id (key_values d)" "tbl_unique scope_primary (key_values d)" "cache_ok kv_id kv_tab (key_values d) (keyval_cache d)"
    using ok by (auto simp: db_ok_def rows_ok_def)
  obtain ei where r: "r \<in> set (key_values d)" and ei: "map_of (table_cache (keyval_cache d)) (kv_tab r) = Some ei"
    using kv.good_iterator [OF rows(3) g rows(1)] by blast
  have tabs: "tbl_unique tab_id (tables d)" "tbl_unique table_key (tables d)" using ok by (auto simp: db_ok_def tabs_ok_def)
  have "0 < refs d (kv_tab r)" using r by (intro refs_member) blast
  then obtain t where t: "t \<in> set (tables d)" "tab_id t = kv_tab r" using ok by (auto simp: db_ok_def tabs_ok_def)
  have f: "tbl_find tab_id (kv_tab r) (tables d) = Some t" using tbl_find_unique [OF tabs(1) t(1)] t(2) by simp
  have ids: "table_ids (tables d) (table_key t) = Some (kv_tab r)" using table_ids_member [OF tabs(2) t(1)] t(2) by simp
  have "get_table (kv_tab r) (keyval_cache d) (tables d) = Inr t" using ei f by (simp add: get_table_def deref_def)
  moreover have "points d it (table_key t) (primary_key r)" using g ids by (simp add: points_def scope_primary_def)
  moreover have "table_view d (table_key t) (primary_key r) = Some (kv_payer r, kv_value r)"
    using ids tbl_find_unique [OF rows(2) r] by (simp add: table_view_def view_of_def scope_primary_def)
  ultimately show ?thesis using that r f t(2) ids by blast
qed

lemma index_row:
  assumes ok: "db_ok d" and g: "cache_get ix_id it (itr_cache d) (index_objects d) = Inr r"
  obtains t where "r \<in> set (index_objects d)" "tbl_find tab_id (ix_tab r) (tables d) = Some t" "tab_id t = ix_tab r"
    "get_table (ix_tab r) (itr_cache d) (tables d) = Inr t" "table_ids (tables d) (table_key t) = Some (ix_tab r)"
    "index_points d it (table_key t) (ix_primary r)" "index_view d (table_key t) (ix_primary r) = Some (ix_payer r, secondary_key r)"
proof -
  have rows: "tbl_unique ix_id (index_objects d)" "tbl_unique by_primary (index_objects d)" "cache_ok ix_id ix_tab (index_objects d) (itr_cache d)"
    using ok by (auto simp: db_ok_def rows_ok_def)
  obtain ei where r: "r \<in> set (index_objects d)" and ei: "map_of (table_cache (itr_cache d)) (ix_tab r) = Some ei"
    using ixp.good_iterator [OF rows(3) g rows(1)] by blast
  have tabs: "tbl_unique tab_id (tables d)" "tbl_unique table_key (tables d)" using ok by (auto simp: db_ok_def tabs_ok_def)
  have "0 < refs d (ix_tab r)" using r by (intro refs_member) blast
  then obtain t where t: "t \<in> set (tables d)" "tab_id t = ix_tab r" using ok by (auto simp: db_ok_def tabs_ok_def)
  have f: "tbl_find tab_id (ix_tab r) (tables d) = Some t" using tbl_find_unique [OF tabs(1) t(1)] t(2) by simp
  have ids: "table_ids (tables d) (table_key t) = Some (ix_tab r)" using table_ids_member [OF tabs(2) t(1)] t(2) by simp
  have "get_table (ix_tab r) (itr_cache d) (tables d) = Inr t" using ei f by (simp add: get_table_def deref_def)
  moreover have "index_points d it (table_key t) (ix_primary r)" using g ids by (simp add: index_points_def by_primary_def)
  moreover have "index_view d (table_key t) (ix_primary r) = Some (ix_payer r, secondary_key r)"
    using ids tbl_find_unique [OF rows(2) r] by (simp add: index_view_def view_of_def by_primary_def)
  ultimately show ?thesis using that r f t(2) ids by blast
qed

text \<open>Closing a table after one row is gone.\<close>

lemma drop_ok:
  assumes tabs: "tabs_ok ts nt f" and t: "tbl_find tab_id i ts = Some t"
    and d2: "tables d2 = down i ts" "next_table_id d2 = nt" "refs d2 = f(i := f i - 1)" "ram_ok d2"
    and run: "drop_if_empty e i d2 = Inr d3"
  shows "tabs_ok (tables d3) nt (refs d2) \<and> (\<exists>b. d3 = d2\<lparr>base := b, tables := tables d3\<rparr>) \<and> ram_ok d3
    \<and> (\<forall>a. ram d3 a - ram d2 a = (\<Sum>t\<leftarrow>tables d3. table_cost a t) - (\<Sum>t\<leftarrow>ts. table_cost a t))
    \<and> (\<forall>k j. 0 < refs d2 j \<longrightarrow> (table_ids (tables d3) k = Some j \<longleftrightarrow> table_ids ts k = Some j))"
proof -
  obtain t' where t': "tbl_find tab_id i (down i ts) = Some t'" "tab_id t' = i" "tab_payer t' = tab_payer t" "tab_count t' = f i - 1"
    and ok: "if f i = 1 then tabs_ok (tbl_remove tab_id i (down i ts)) nt (f(i := 0)) else tabs_ok (down i ts) nt (f(i := f i - 1))"
    using tabs_ok_down [OF tabs t] by blast
  have pos: "0 < f i" using tabs tbl_find_Some [OF t] by (auto simp: tabs_ok_def)
  show ?thesis
  proof (cases "f i = 1")
    case False
    then have "tab_count t' \<noteq> 0" using t'(4) pos by simp
    then have "d3 = d2" using run t'(1) by (simp add: drop_if_empty_def deref_def d2(1))
    then show ?thesis using ok False d2 by (auto simp: down_ids down_cost intro!: exI [of _ "base d2"])
  next
    case True
    then have "remove_table e t' d2 = Inr d3" using run t' by (simp add: drop_if_empty_def deref_def d2(1))
    then obtain d0 where bill: "update_db_usage e (tab_payer t) (- int table_id_object_size) d2 = Inr d0"
      and d3: "d3 = d0\<lparr>tables := tbl_remove tab_id i (tables d0)\<rparr>"
      using t' by (auto simp: remove_table_def result_simps)
    obtain b where d0: "d0 = d2\<lparr>base := b\<rparr>" and r: "ram_ok d0" "\<And>a. ram d0 a = ram d2 a + (if a = tab_payer t then - int table_id_object_size else 0)"
      using update_db_usage_billed [OF bill d2(4)] by (auto simp: sizes_tables)
    have tabs3: "tables d3 = tbl_remove tab_id i (down i ts)" by (simp add: d3 d0 d2(1))
    have u: "tbl_unique tab_id (down i ts)" "tbl_unique table_key (down i ts)"
      using tabs recount(1,2) unfolding down_def tabs_ok_def tbl_unique_def by metis+
    have c: "ram d3 a - ram d2 a = (\<Sum>t\<leftarrow>tables d3. table_cost a t) - (\<Sum>t\<leftarrow>ts. table_cost a t)" for a
    proof -
      have "(\<Sum>t\<leftarrow>tables d3. table_cost a t) + table_cost a t' = (\<Sum>t\<leftarrow>ts. table_cost a t)"
        using sum_list_remove [OF u(1) t'(1), of "table_cost a"] by (simp add: tabs3 down_cost)
      moreover have "ram d3 a = ram d2 a - table_cost a t'" using r(2) [of a] t'(3) by (simp add: d3 table_cost_def)
      ultimately show ?thesis by linarith
    qed
    have "table_ids (tables d3) k = Some j \<longleftrightarrow> table_ids ts k = Some j" if "0 < refs d2 j" for k j
    proof -
      have "j \<noteq> i" using that True by (auto simp: d2(3))
      then have "table_ids (tables d3) k = Some j \<longleftrightarrow> table_ids (down i ts) k = Some j"
        using find_by_key_remove [OF u(1,2), of t' k] tbl_find_Some [OF t'(1)] t'(2) tbl_find_unique [OF u(2), of t']
        by (auto simp: table_ids_def tabs3 split: if_splits)
      then show ?thesis by (simp add: down_ids)
    qed
    then show ?thesis using ok True d2 r c by (auto simp: tabs3 d3 d0)
  qed
qed


lemma count_list_remove:
  assumes "tbl_unique rid rows" and "tbl_find rid i rows = Some r"
  shows "count_list (map tab (tbl_remove rid i rows)) j + (if tab r = j then 1 else 0) = count_list (map tab rows) j"
proof -
  have "count_list (map tab xs) j = (\<Sum>x\<leftarrow>xs. if tab x = j then 1 else 0)" for xs by (induction xs) auto
  then show ?thesis using sum_list_remove [OF assms, of "\<lambda>x. if tab x = j then 1 else (0 :: nat)"] by simp
qed

lemma db_remove_ok:
  assumes ok: "db_ok d" "ram_ok d" and run: "db_remove_i64 e it d = Inr d'"
  shows "\<exists>k p. points d it k p \<and> fst k = receiver e \<and> db_ok d' \<and> billed e d d'
    \<and> table_view d' = (table_view d)(k := (table_view d k)(p := None)) \<and> index_view d' = index_view d
    \<and> db_get_i64 it n d' = Inl table_operation_not_permitted"
proof -
  obtain r where g: "cache_get kv_id it (keyval_cache d) (key_values d) = Inr r"
    using run by (auto simp: db_remove_i64_def result_simps)
  obtain t where r: "r \<in> set (key_values d)" and t: "tbl_find tab_id (kv_tab r) (tables d) = Some t" "tab_id t = kv_tab r"
      "get_table (kv_tab r) (keyval_cache d) (tables d) = Inr t" and ids: "table_ids (tables d) (table_key t) = Some (kv_tab r)"
      and pt: "points d it (table_key t) (primary_key r)"
    using iterator_row [OF ok(1) g] by blast
  let ?i = "kv_tab r" and ?size = "int (length (kv_value r) + key_value_object_size)"
  have rows: "rows_ok kv_id kv_tab scope_primary (key_values d) (next_kv_id d) (keyval_cache d)" using ok(1) by (simp add: db_ok_def)
  then have u: "tbl_unique kv_id (key_values d)" "tbl_unique scope_primary (key_values d)" by (auto simp: rows_ok_def)
  have find: "tbl_find kv_id (kv_id r) (key_values d) = Some r" by (rule tbl_find_unique [OF u(1) r])
  obtain c where c: "cache_remove it (keyval_cache d) = Inr c"
      "rows_ok kv_id kv_tab scope_primary (tbl_remove kv_id (kv_id r) (key_values d)) (next_kv_id d) c"
      "cache_get kv_id it c (tbl_remove kv_id (kv_id r) (key_values d)) = Inl table_operation_not_permitted"
    using rows_ok_remove [OF rows g] by blast
  have rec: "tab_code t = receiver e" using run by (auto simp: db_remove_i64_def g t(3) result_simps)
  obtain d1 d3 where bill: "update_db_usage e (kv_payer r) (- ?size) d = Inr d1"
    and drop: "drop_if_empty e ?i (d1\<lparr>tables := down ?i (tables d1), key_values := tbl_remove kv_id (kv_id r) (key_values d1)\<rparr>) = Inr d3"
    and d': "\<exists>c'. cache_remove it (keyval_cache d3) = Inr c' \<and> d' = d3\<lparr>keyval_cache := c'\<rparr>"
    using run by (auto simp: db_remove_i64_def g t(2,3) rec result_simps Let_def count_down_eq)
  have small: "- (2 ^ 63) < - ?size" "- ?size < 2 ^ 63" using ok(1) r by (auto simp: db_ok_def sizes_tables)
  obtain b where d1: "d1 = d\<lparr>base := b\<rparr>" and r1: "ram_ok d1" "\<And>a. ram d1 a = ram d a + (if a = kv_payer r then - ?size else 0)"
    using update_db_usage_billed [OF bill ok(2) small] by auto
  let ?d2 = "d1\<lparr>tables := down ?i (tables d), key_values := tbl_remove kv_id (kv_id r) (key_values d)\<rparr>"
  have d3: "drop_if_empty e ?i ?d2 = Inr d3" using drop by (simp add: d1)
  have refs2: "refs ?d2 = (refs d)(?i := refs d ?i - 1)"
  proof
    fix j
    show "refs ?d2 j = ((refs d)(?i := refs d ?i - 1)) j"
      using count_list_remove [OF u(1) find, of kv_tab j] by (auto simp: refs_def d1 split: if_splits)
  qed
  have tabs: "tabs_ok (tables d) (next_table_id d) (refs d)" using ok(1) by (simp add: db_ok_def)
  have same2: "tables ?d2 = down ?i (tables d)" "next_table_id ?d2 = next_table_id d" "ram_ok ?d2" using r1(1) by (simp_all add: d1)
  note dropped = drop_ok [OF tabs t(1) same2(1,2) refs2 same2(3) d3]
  have d3tabs: "tabs_ok (tables d3) (next_table_id d) (refs ?d2)" and frame: "\<exists>b. d3 = ?d2\<lparr>base := b, tables := tables d3\<rparr>" and r3: "ram_ok d3"
    and cost3: "\<And>a. ram d3 a - ram ?d2 a = (\<Sum>t\<leftarrow>tables d3. table_cost a t) - (\<Sum>t\<leftarrow>tables d. table_cost a t)"
    and ids3: "\<And>k j. 0 < refs ?d2 j \<Longrightarrow> (table_ids (tables d3) k = Some j \<longleftrightarrow> table_ids (tables d) k = Some j)"
    using dropped by blast+
  obtain b3 where b3: "d3 = ?d2\<lparr>base := b3, tables := tables d3\<rparr>" using frame by blast
  have caches: "keyval_cache d3 = keyval_cache d" by (subst b3) (simp add: d1)
  then have d'': "d' = d3\<lparr>keyval_cache := c\<rparr>" using d' c(1) by auto
  have f': "key_values d' = tbl_remove kv_id (kv_id r) (key_values d)" "index_objects d' = index_objects d" "keyval_cache d' = c"
      "itr_cache d' = itr_cache d" "next_kv_id d' = next_kv_id d" "next_index_id d' = next_index_id d" "next_table_id d' = next_table_id d"
      "tables d' = tables d3" "base d' = base d3"
    unfolding d'' by (subst b3, simp add: d1)+
  have refs': "refs d' = refs ?d2" by (rule ext) (simp add: refs_def f' d1)
  have "db_ok d'"
    using ok(1) d3tabs c(2) refs' f' by (auto simp: db_ok_def tbl_remove_def)
  moreover have "billed e d d'"
  proof -
    have "cost e d' a - cost e d a = (\<Sum>t\<leftarrow>tables d3. table_cost a t) - (\<Sum>t\<leftarrow>tables d. table_cost a t) - kv_cost a r" for a
      using sum_list_remove [OF u(1) find, of "kv_cost a"] by (simp add: cost_def f')
    moreover have "ram ?d2 a = ram d a - kv_cost a r" for a using r1(2) [of a] by (simp add: kv_cost_def d1)
    ultimately have "ram d' a - ram d a = cost e d' a - cost e d a" for a using cost3 [of a] by (simp add: f'(9))
    then show ?thesis using r3 by (simp add: billed_def f'(9))
  qed
  moreover have "index_view d' = index_view d"
    unfolding index_view_def f' using key_tables(2) [of d'] ids3 by (intro view_of_tables) (auto simp: f' refs')
  moreover have "table_view d' = (table_view d)(table_key t := (table_view d (table_key t))(primary_key r := None))"
  proof -
    have fm: "tbl_find scope_primary kk (tbl_remove kv_id (kv_id r) (key_values d)) =
        (if kk = (kv_tab r, primary_key r) then None else tbl_find scope_primary kk (key_values d))" for kk
      using find_by_key_remove [OF u r, of kk] by (simp add: scope_primary_def)
    have "table_view d' = view_of (tables d) scope_primary (\<lambda>r. (kv_payer r, kv_value r)) (key_values d')"
      unfolding table_view_def using key_tables(1) [of d'] ids3 by (intro view_of_tables) (auto simp: f' refs')
    also have "\<dots> = (table_view d)(table_key t := (table_view d (table_key t))(primary_key r := map_option (\<lambda>r. (kv_payer r, kv_value r)) (None :: key_value_object option)))"
      unfolding table_view_def f' using fm tabs
      by (intro view_of_change [OF ids, where x = None]) (auto simp: tabs_ok_def intro: table_ids_inj [OF _ ids])
    finally show ?thesis by simp
  qed
  moreover have "db_get_i64 it n d' = Inl table_operation_not_permitted" using c(3) by (simp add: db_get_i64_def f')
  ultimately show ?thesis using pt rec by (auto simp: table_key_def)
qed


text \<open>Moving the bill for a row from one payer to another, or changing its size.\<close>

lemma rebill:
  assumes ok: "ram_ok d" and n: "0 \<le> old" "old < 2 ^ 63" "0 \<le> new" "new < 2 ^ 63"
    and run: "(if p \<noteq> q then bind_r (update_db_usage e p (- old) d) (update_db_usage e q new)
      else if old \<noteq> new then update_db_usage e p (new - old) d else Inr d) = Inr d'"
  shows "(\<exists>b. d' = d\<lparr>base := b\<rparr>) \<and> ram_ok d' \<and> (\<forall>a. ram d' a - ram d a = (if a = q then new else 0) - (if a = p then old else 0))"
proof (cases "p = q")
  case False
  then obtain d1 where u1: "update_db_usage e p (- old) d = Inr d1" and u2: "update_db_usage e q new d1 = Inr d'"
    using run by (auto simp: result_simps)
  obtain b where d1: "d1 = d\<lparr>base := b\<rparr>" and r1: "ram_ok d1" "\<And>a. ram d1 a = ram d a + (if a = p then - old else 0)"
    using update_db_usage_billed [OF u1 ok] n by auto
  show ?thesis using update_db_usage_billed [OF u2 r1(1)] r1(2) n d1 False by auto
next
  case True
  show ?thesis
  proof (cases "old = new")
    case True
    then show ?thesis using run \<open>p = q\<close> ok by (auto intro!: exI [of _ "base d"])
  next
    case False
    then have "update_db_usage e p (new - old) d = Inr d'" using run True by simp
    from update_db_usage_billed [OF this ok] show ?thesis using n True by auto
  qed
qed

lemma db_update_ok:
  assumes ok: "db_ok d" "ram_ok d" and len: "length buffer < 2 ^ 32" and run: "db_update_i64 e it who buffer d = Inr d'"
  shows "\<exists>k p old v. points d it k p \<and> fst k = receiver e \<and> table_view d k p = Some (old, v) \<and> db_ok d' \<and> billed e d d'
    \<and> table_view d' = (table_view d)(k := (table_view d k)(p \<mapsto> (if who = 0 then old else who, buffer))) \<and> index_view d' = index_view d
    \<and> points d' it k p"
proof -
  obtain r where g: "cache_get kv_id it (keyval_cache d) (key_values d) = Inr r"
    using run by (auto simp: db_update_i64_def result_simps)
  obtain t where r: "r \<in> set (key_values d)"
      "get_table (kv_tab r) (keyval_cache d) (tables d) = Inr t" and ids: "table_ids (tables d) (table_key t) = Some (kv_tab r)"
      and pt: "points d it (table_key t) (primary_key r)" "table_view d (table_key t) (primary_key r) = Some (kv_payer r, kv_value r)"
    using iterator_row [OF ok(1) g] by blast
  let ?q = "if who = 0 then kv_payer r else who" and ?k = "table_key t"
  let ?old = "int (length (kv_value r)) + int key_value_object_size" and ?new = "int (length buffer) + int key_value_object_size"
  let ?f = "\<lambda>o1. o1\<lparr>kv_value := buffer, kv_payer := ?q\<rparr>"
  obtain d1 where rec: "tab_code t = receiver e"
    and bill: "(if kv_payer r \<noteq> ?q then bind_r (update_db_usage e (kv_payer r) (- ?old) d) (update_db_usage e ?q ?new)
      else if ?old \<noteq> ?new then update_db_usage e (kv_payer r) (?new - ?old) d else Inr d) = Inr d1"
    and d': "d' = d1\<lparr>key_values := tbl_modify kv_id (kv_id r) ?f (key_values d1)\<rparr>"
    using run by (auto simp: db_update_i64_def g r(2) result_simps Let_def cong: if_cong)
  have small: "0 \<le> ?old" "?old < 2 ^ 63" "0 \<le> ?new" "?new < 2 ^ 63" using ok(1) r(1) len by (auto simp: db_ok_def sizes_tables)
  obtain b where d1: "d1 = d\<lparr>base := b\<rparr>" and r1: "ram_ok d1"
      "\<And>a. ram d1 a - ram d a = (if a = ?q then ?new else 0) - (if a = kv_payer r then ?old else 0)"
    using rebill [OF ok(2) small bill] by blast
  have rows: "rows_ok kv_id kv_tab scope_primary (key_values d) (next_kv_id d) (keyval_cache d)" using ok(1) by (simp add: db_ok_def)
  then have u: "tbl_unique kv_id (key_values d)" "tbl_unique scope_primary (key_values d)" by (auto simp: rows_ok_def)
  have find: "tbl_find kv_id (kv_id r) (key_values d) = Some r" by (rule tbl_find_unique [OF u(1) r(1)])
  have d'': "d' = d\<lparr>base := b, key_values := tbl_modify kv_id (kv_id r) ?f (key_values d)\<rparr>" by (simp add: d' d1)
  have m: "map kv_tab (key_values d') = map kv_tab (key_values d)" by (auto simp: d'' tbl_modify_def)
  have refs': "refs d' = refs d" by (rule ext) (simp add: refs_def m, simp add: d'')
  have key: "\<And>x. scope_primary (?f x) = scope_primary x" by (simp add: scope_primary_def)
  note rm = rows_ok_modify [OF rows, of ?f "kv_id r"]
  have "db_ok d'" using ok(1) refs' rm len key by (auto simp: db_ok_def d'' tbl_modify_def)
  moreover have "billed e d d'"
  proof -
    have "cost e d' a - cost e d a = kv_cost a (?f r) - kv_cost a r" for a
      using sum_list_modify [OF u(1) find, of "kv_cost a" ?f] by (simp add: cost_def d'')
    then show ?thesis using r1 by (simp add: billed_def d'' d1 kv_cost_def)
  qed
  moreover have "table_view d' = (table_view d)(?k := (table_view d ?k)(primary_key r := map_option (\<lambda>r. (kv_payer r, kv_value r)) (Some (?f r))))"
  proof -
    have fm: "tbl_find scope_primary kk (tbl_modify kv_id (kv_id r) ?f (key_values d)) =
        (if kk = (kv_tab r, primary_key r) then Some (?f r) else tbl_find scope_primary kk (key_values d))" for kk
      using find_by_key_modify [OF u r(1), of ?f kk] key by (simp add: scope_primary_def)
    have eq: "table_view d' = view_of (tables d) scope_primary (\<lambda>r. (kv_payer r, kv_value r)) (tbl_modify kv_id (kv_id r) ?f (key_values d))"
      by (simp add: table_view_def d'')
    show ?thesis unfolding eq unfolding table_view_def
      using fm ok(1) by (intro view_of_change [OF ids]) (auto simp: db_ok_def tabs_ok_def intro: table_ids_inj [OF _ ids])
  qed
  moreover have "index_view d' = index_view d" by (simp add: index_view_def d'')
  moreover have "points d' it ?k (primary_key r)"
  proof -
    have "cache_get kv_id it (keyval_cache d) (tbl_modify kv_id (kv_id r) ?f (key_values d)) = Inr (?f r)"
      using rm g key by auto
    then show ?thesis using ids by (simp add: points_def d'' scope_primary_def)
  qed
  ultimately show ?thesis using pt rec by (intro exI [of _ ?k] exI [of _ "primary_key r"] exI [of _ "kv_payer r"] exI [of _ "kv_value r"]) (simp add: table_key_def)
qed

end
