(* ===== verification/ContractIndex.thy ===== *)
theory ContractIndex
  imports ContractTables
begin

text \<open>
  The secondary index of a contract table (\<^verbatim>\<open>generic_index\<close> in
  \<^verbatim>\<open>libraries/chain/include/eosio/chain/apply_context.hpp\<close>) keeps the database in order as the primary
  rows do; what the searches and steps return, in terms of what the contract sees; and the whole
  interface of a contract to its tables as one operation type, which refines maps from primary keys.
\<close>

section \<open>The writing operations of a secondary index\<close>

lemma store_ok:
  assumes ok: "db_ok d" "ram_ok d" and room: "\<And>i. refs d i + 1 < 2 ^ 32" and len: "index_size e < 2 ^ 63"
    and run: "store e s t who p v d = Inr (it, d')"
  shows "db_ok d' \<and> billed e d d' \<and> index_view d (receiver e, s, t) p = None \<and> index_points d' it (receiver e, s, t) p
    \<and> index_view d' = (index_view d)((receiver e, s, t) := (index_view d (receiver e, s, t))(p \<mapsto> (who, v))) \<and> table_view d' = table_view d"
proof -
  let ?k = "(receiver e, s, t)"
  obtain tab d1 where tab: "find_or_create_table e (receiver e) s t who d = Inr (tab, d1)"
    using run by (auto simp: store_def result_simps)
  define i where "i = tab_id tab"
  note o = open_table [OF ok room tab, folded i_def]
  obtain b ts nt where d1: "d1 = d\<lparr>base := b, tables := ts, next_table_id := nt\<rparr>" using o unfolding opened_def by blast
  let ?r = "\<lparr>ix_id = next_index_id d, ix_tab = i, ix_primary = p, ix_payer = who, secondary_key = v\<rparr>"
  let ?d2 = "d1\<lparr>index_objects := index_objects d @ [?r], next_index_id := next_index_id d + 1, tables := up i ts\<rparr>"
  obtain d3 cc where new: "tbl_find by_primary (by_primary ?r) (index_objects d) = None"
    and bill: "update_db_usage e who (int (index_size e)) ?d2 = Inr d3"
    and cc: "cache_add (next_index_id d) (snd (cache_table i (itr_cache d3))) = (it, cc)" and d': "d' = d3\<lparr>itr_cache := cc\<rparr>"
    using run by (auto simp: store_def tab i_def [symmetric] d1 result_simps tbl_create_eq_Inr count_up_eq Let_def split_beta prod_eq_iff)
  obtain b3 where d3: "d3 = ?d2\<lparr>base := b3\<rparr>" and r3: "ram_ok d3" "\<And>a. ram d3 a = ram d1 a + (if a = who then int (index_size e) else 0)"
  proof -
    have "ram_ok ?d2" using o d1 by (simp add: opened_def)
    from update_db_usage_billed [OF bill this] that show ?thesis using len d1 by (auto simp: sizes_tables)
  qed
  have d'': "d' = d\<lparr>base := b3, tables := up i ts, next_table_id := nt, index_objects := index_objects d @ [?r], next_index_id := next_index_id d + 1,
      itr_cache := cc\<rparr>" by (simp add: d' d3 d1)
  have "rows_ok ix_id ix_tab by_primary (index_objects d) (next_index_id d) (itr_cache d)" using ok(1) by (simp add: db_ok_def)
  from rows_ok_insert [OF this _ new] cc
  have rows: "rows_ok ix_id ix_tab by_primary (index_objects d @ [?r]) (next_index_id d + 1) cc"
    and get: "cache_get ix_id it cc (index_objects d @ [?r]) = Inr ?r"
    by (simp_all add: d3 d1)
  have refs: "refs d' = (refs d)(i := refs d i + 1)" by (rule ext) (simp add: d'' refs_def)
  have tabs: "tabs_ok (up i ts) nt ((refs d)(i := refs d i + 1))" and ids: "table_ids ts ?k = Some i"
    using o by (auto simp: opened_def d1)
  have "db_ok d'" using ok(1) tabs rows refs len by (simp add: db_ok_def) (simp add: d'')
  moreover have "billed e d d'"
  proof -
    have "ram d1 a - ram d a = (\<Sum>t\<leftarrow>ts. table_cost a t) - (\<Sum>t\<leftarrow>tables d. table_cost a t)" for a
      using o by (auto simp: opened_def d1)
    moreover have "cost e d' a = (\<Sum>t\<leftarrow>ts. table_cost a t) + (\<Sum>r\<leftarrow>key_values d. kv_cost a r) + (\<Sum>r\<leftarrow>index_objects d. ix_cost e a r) + ix_cost e a ?r" for a
      by (simp add: cost_def d'' up_cost)
    ultimately show ?thesis using r3 by (simp add: billed_def cost_def d' ix_cost_def d1)
  qed
  moreover have "index_points d' it ?k p" using get ids by (simp add: index_points_def d'' up_ids by_primary_def)
  moreover have "table_view d' = table_view d"
    using opened_view [OF ok(1) o key_tables(1)] by (simp add: table_view_def d'' view_of_same_ids [OF up_ids] d1)
  moreover have "index_view d' = (index_view d)(?k := (index_view d ?k)(p \<mapsto> (who, v))) \<and> index_view d ?k p = None"
  proof -
    have inj: "k' = ?k" if "table_ids ts k' = Some i" for k'
      using table_ids_inj [of "up i ts" ?k i k'] tabs ids that by (simp add: tabs_ok_def up_ids)
    have "view_of ts by_primary (\<lambda>r. (ix_payer r, secondary_key r)) (index_objects d) = index_view d"
      using opened_view [OF ok(1) o key_tables(2)] by (simp add: index_view_def d1)
    then show ?thesis
      using view_of_insert [OF ids inj, where r = ?r and rows = "index_objects d" and key = by_primary and p = p and val = "\<lambda>r. (ix_payer r, secondary_key r)"] new
      by (simp add: index_view_def d'' view_of_same_ids [OF up_ids] by_primary_def)
  qed
  ultimately show ?thesis by blast
qed

lemma remove_ok:
  fixes d d' :: "('k, 'h, 's) contract_db"
  assumes ok: "db_ok d" "ram_ok d" and len: "index_size e < 2 ^ 63" and run: "remove e it d = Inr d'"
  shows "\<exists>k p. index_points d it k p \<and> fst k = receiver e \<and> db_ok d' \<and> billed e d d'
    \<and> index_view d' = (index_view d)(k := (index_view d k)(p := None)) \<and> table_view d' = table_view d
    \<and> index_get it d' = Inl table_operation_not_permitted"
proof -
  obtain r where g: "cache_get ix_id it (itr_cache d) (index_objects d) = Inr r"
    using run by (auto simp: remove_def result_simps)
  obtain t where r: "r \<in> set (index_objects d)" and t: "tbl_find tab_id (ix_tab r) (tables d) = Some t" "tab_id t = ix_tab r"
      "get_table (ix_tab r) (itr_cache d) (tables d) = Inr t" and ids: "table_ids (tables d) (table_key t) = Some (ix_tab r)"
      and pt: "index_points d it (table_key t) (ix_primary r)"
    using index_row [OF ok(1) g] by blast
  let ?i = "ix_tab r" and ?size = "int (index_size e)"
  have rows: "rows_ok ix_id ix_tab by_primary (index_objects d) (next_index_id d) (itr_cache d)" using ok(1) by (simp add: db_ok_def)
  then have u: "tbl_unique ix_id (index_objects d)" "tbl_unique by_primary (index_objects d)" by (auto simp: rows_ok_def)
  have find: "tbl_find ix_id (ix_id r) (index_objects d) = Some r" by (rule tbl_find_unique [OF u(1) r])
  obtain c where c: "cache_remove it (itr_cache d) = Inr c"
      "rows_ok ix_id ix_tab by_primary (tbl_remove ix_id (ix_id r) (index_objects d)) (next_index_id d) c"
      "cache_get ix_id it c (tbl_remove ix_id (ix_id r) (index_objects d)) = Inl table_operation_not_permitted"
    using rows_ok_remove [OF rows g] by blast
  have small: "- (2 ^ 63) < - ?size" "- ?size < 2 ^ 63" using len by simp_all
  obtain d1 where bill: "update_db_usage e (ix_payer r) (- ?size) d = Inr d1" using run by (auto simp: remove_def g result_simps)
  obtain b where d1: "d1 = d\<lparr>base := b\<rparr>" and r1: "ram_ok d1" "\<And>a. ram d1 a = ram d a + (if a = ix_payer r then - ?size else 0)"
    using update_db_usage_billed [OF bill ok(2) small] by auto
  have t1: "get_table (ix_tab r) (itr_cache d1) (tables d1) = Inr t" using t(3) by (simp add: d1)
  obtain d3 where rec: "tab_code t = receiver e"
    and drop: "drop_if_empty e ?i (d1\<lparr>tables := down ?i (tables d1), index_objects := tbl_remove ix_id (ix_id r) (index_objects d1)\<rparr>) = Inr d3"
    and d': "\<exists>c'. cache_remove it (itr_cache d3) = Inr c' \<and> d' = d3\<lparr>itr_cache := c'\<rparr>"
    using run by (auto simp: remove_def g bill t1 t(2) result_simps Let_def count_down_eq)
  let ?d2 = "d1\<lparr>tables := down ?i (tables d), index_objects := tbl_remove ix_id (ix_id r) (index_objects d)\<rparr>"
  have d3: "drop_if_empty e ?i ?d2 = Inr d3" using drop by (simp add: d1)
  have refs2: "refs ?d2 = (refs d)(?i := refs d ?i - 1)"
  proof
    fix j
    show "refs ?d2 j = ((refs d)(?i := refs d ?i - 1)) j"
      using count_list_remove [OF u(1) find, of ix_tab j] by (auto simp: refs_def d1 split: if_splits)
  qed
  have tabs: "tabs_ok (tables d) (next_table_id d) (refs d)" using ok(1) by (simp add: db_ok_def)
  have same2: "tables ?d2 = down ?i (tables d)" "next_table_id ?d2 = next_table_id d" "ram_ok ?d2" using r1(1) by (simp_all add: d1)
  note dropped = drop_ok [OF tabs t(1) same2(1,2) refs2 same2(3) d3]
  have d3tabs: "tabs_ok (tables d3) (next_table_id d) (refs ?d2)" and frame: "\<exists>b. d3 = ?d2\<lparr>base := b, tables := tables d3\<rparr>" and r3: "ram_ok d3"
    and cost3: "\<And>a. ram d3 a - ram ?d2 a = (\<Sum>t\<leftarrow>tables d3. table_cost a t) - (\<Sum>t\<leftarrow>tables d. table_cost a t)"
    and ids3: "\<And>k j. 0 < refs ?d2 j \<Longrightarrow> (table_ids (tables d3) k = Some j \<longleftrightarrow> table_ids (tables d) k = Some j)"
    using dropped by blast+
  obtain b3 where b3: "d3 = ?d2\<lparr>base := b3, tables := tables d3\<rparr>" using frame by blast
  have caches: "itr_cache d3 = itr_cache d" by (subst b3) (simp add: d1)
  then have d'': "d' = d3\<lparr>itr_cache := c\<rparr>" using d' c(1) by auto
  have f': "index_objects d' = tbl_remove ix_id (ix_id r) (index_objects d)" "key_values d' = key_values d" "itr_cache d' = c"
      "keyval_cache d' = keyval_cache d" "next_index_id d' = next_index_id d" "next_kv_id d' = next_kv_id d" "next_table_id d' = next_table_id d"
      "tables d' = tables d3" "base d' = base d3"
    unfolding d'' by (subst b3, simp add: d1)+
  have refs': "refs d' = refs ?d2" by (rule ext) (simp add: refs_def f' d1)
  have "db_ok d'"
    using ok(1) d3tabs c(2) refs' f' by (auto simp: db_ok_def tbl_remove_def)
  moreover have "billed e d d'"
  proof -
    have "cost e d' a - cost e d a = (\<Sum>t\<leftarrow>tables d3. table_cost a t) - (\<Sum>t\<leftarrow>tables d. table_cost a t) - ix_cost e a r" for a
      using sum_list_remove [OF u(1) find, of "ix_cost e a"] by (simp add: cost_def f')
    moreover have "ram ?d2 a = ram d a - ix_cost e a r" for a using r1(2) [of a] by (simp add: ix_cost_def d1)
    ultimately have "ram d' a - ram d a = cost e d' a - cost e d a" for a using cost3 [of a] by (simp add: f'(9))
    then show ?thesis using r3 by (simp add: billed_def f'(9))
  qed
  moreover have "table_view d' = table_view d"
    unfolding table_view_def f' using key_tables(1) [of d'] ids3 by (intro view_of_tables) (auto simp: f' refs')
  moreover have "index_view d' = (index_view d)(table_key t := (index_view d (table_key t))(ix_primary r := None))"
  proof -
    have fm: "tbl_find by_primary kk (tbl_remove ix_id (ix_id r) (index_objects d)) =
        (if kk = (ix_tab r, ix_primary r) then None else tbl_find by_primary kk (index_objects d))" for kk
      using find_by_key_remove [OF u r, of kk] by (simp add: by_primary_def)
    have "index_view d' = view_of (tables d) by_primary (\<lambda>r. (ix_payer r, secondary_key r)) (index_objects d')"
      unfolding index_view_def using key_tables(2) [of d'] ids3 by (intro view_of_tables) (auto simp: f' refs')
    also have "\<dots> = (index_view d)(table_key t := (index_view d (table_key t))(ix_primary r := map_option (\<lambda>r. (ix_payer r, secondary_key r)) (None :: 's index_object option)))"
      unfolding index_view_def f' using fm tabs
      by (intro view_of_change [OF ids, where x = None]) (auto simp: tabs_ok_def intro: table_ids_inj [OF _ ids])
    finally show ?thesis by simp
  qed
  moreover have "index_get it d' = Inl table_operation_not_permitted" using c(3) by (simp add: index_get_def f')
  ultimately show ?thesis using pt rec by (auto simp: table_key_def)
qed

lemma update_ok:
  assumes ok: "db_ok d" "ram_ok d" and len: "index_size e < 2 ^ 63" and run: "update e it who v d = Inr d'"
  shows "\<exists>k p old w. index_points d it k p \<and> fst k = receiver e \<and> index_view d k p = Some (old, w) \<and> db_ok d' \<and> billed e d d'
    \<and> index_view d' = (index_view d)(k := (index_view d k)(p \<mapsto> (if who = 0 then old else who, v))) \<and> table_view d' = table_view d
    \<and> index_points d' it k p"
proof -
  obtain r where g: "cache_get ix_id it (itr_cache d) (index_objects d) = Inr r"
    using run by (auto simp: update_def result_simps)
  obtain t where r: "r \<in> set (index_objects d)"
      "get_table (ix_tab r) (itr_cache d) (tables d) = Inr t" and ids: "table_ids (tables d) (table_key t) = Some (ix_tab r)"
      and pt: "index_points d it (table_key t) (ix_primary r)" "index_view d (table_key t) (ix_primary r) = Some (ix_payer r, secondary_key r)"
    using index_row [OF ok(1) g] by blast
  let ?q = "if who = 0 then ix_payer r else who" and ?k = "table_key t"
  let ?old = "int (index_size e)" and ?new = "int (index_size e)"
  let ?f = "\<lambda>o1. o1\<lparr>secondary_key := v, ix_payer := ?q\<rparr>"
  obtain d1 where rec: "tab_code t = receiver e"
    and bill: "(if ix_payer r \<noteq> ?q then bind_r (update_db_usage e (ix_payer r) (- ?old) d) (update_db_usage e ?q ?new)
      else if ?old \<noteq> ?new then update_db_usage e (ix_payer r) (?new - ?old) d else Inr d) = Inr d1"
    and d': "d' = d1\<lparr>index_objects := tbl_modify ix_id (ix_id r) ?f (index_objects d1)\<rparr>"
    using run by (auto simp: update_def g r(2) result_simps Let_def cong: if_cong)
  have small: "0 \<le> ?old" "?old < 2 ^ 63" "0 \<le> ?new" "?new < 2 ^ 63" using len by simp_all
  obtain b where d1: "d1 = d\<lparr>base := b\<rparr>" and r1: "ram_ok d1"
      "\<And>a. ram d1 a - ram d a = (if a = ?q then ?new else 0) - (if a = ix_payer r then ?old else 0)"
    using rebill [OF ok(2) small bill] by blast
  have rows: "rows_ok ix_id ix_tab by_primary (index_objects d) (next_index_id d) (itr_cache d)" using ok(1) by (simp add: db_ok_def)
  then have u: "tbl_unique ix_id (index_objects d)" "tbl_unique by_primary (index_objects d)" by (auto simp: rows_ok_def)
  have find: "tbl_find ix_id (ix_id r) (index_objects d) = Some r" by (rule tbl_find_unique [OF u(1) r(1)])
  have d'': "d' = d\<lparr>base := b, index_objects := tbl_modify ix_id (ix_id r) ?f (index_objects d)\<rparr>" by (simp add: d' d1)
  have m: "map ix_tab (index_objects d') = map ix_tab (index_objects d)" by (auto simp: d'' tbl_modify_def)
  have refs': "refs d' = refs d" by (rule ext) (simp add: refs_def m, simp add: d'')
  have key: "\<And>x. by_primary (?f x) = by_primary x" by (simp add: by_primary_def)
  note rm = rows_ok_modify [OF rows, of ?f "ix_id r"]
  have "db_ok d'" using ok(1) refs' rm len key by (auto simp: db_ok_def d'' tbl_modify_def)
  moreover have "billed e d d'"
  proof -
    have "cost e d' a - cost e d a = ix_cost e a (?f r) - ix_cost e a r" for a
      using sum_list_modify [OF u(1) find, of "ix_cost e a" ?f] by (simp add: cost_def d'')
    then show ?thesis using r1 by (simp add: billed_def d'' d1 ix_cost_def)
  qed
  moreover have "index_view d' = (index_view d)(?k := (index_view d ?k)(ix_primary r := map_option (\<lambda>r. (ix_payer r, secondary_key r)) (Some (?f r))))"
  proof -
    have fm: "tbl_find by_primary kk (tbl_modify ix_id (ix_id r) ?f (index_objects d)) =
        (if kk = (ix_tab r, ix_primary r) then Some (?f r) else tbl_find by_primary kk (index_objects d))" for kk
      using find_by_key_modify [OF u r(1), of ?f kk] key by (simp add: by_primary_def)
    have eq: "index_view d' = view_of (tables d) by_primary (\<lambda>r. (ix_payer r, secondary_key r)) (tbl_modify ix_id (ix_id r) ?f (index_objects d))"
      by (simp add: index_view_def d'')
    show ?thesis unfolding eq unfolding index_view_def
      using fm ok(1) by (intro view_of_change [OF ids]) (auto simp: db_ok_def tabs_ok_def intro: table_ids_inj [OF _ ids])
  qed
  moreover have "table_view d' = table_view d" by (simp add: table_view_def d'')
  moreover have "index_points d' it ?k (ix_primary r)"
  proof -
    have "cache_get ix_id it (itr_cache d) (tbl_modify ix_id (ix_id r) ?f (index_objects d)) = Inr (?f r)"
      using rm g key by auto
    then show ?thesis using ids by (simp add: index_points_def d'' by_primary_def)
  qed
  ultimately show ?thesis using pt rec by (intro exI [of _ ?k] exI [of _ "ix_primary r"] exI [of _ "ix_payer r"] exI [of _ "secondary_key r"]) (simp add: table_key_def)
qed


section \<open>Searching\<close>

context ordered_view
begin

lemma search_in_spec:
  assumes ok: "cache_ok rid tab rows c" and u: "tbl_unique rid rows"
    and s: "\<And>t r. search t = Some r \<Longrightarrow> r \<in> set rows" and run: "search_in rid tab search (Some t) c = (it, res, c')"
  shows "cache_ok rid tab rows c' \<and> keeps rid rows c c'
    \<and> (case res of
         Some r \<Rightarrow> search (tab_id t) = Some r \<and> tab r = tab_id t \<and> cache_get rid it c' rows = Inr r
       | None \<Rightarrow> map_of (table_cache c') (tab_id t) = Some it \<and> it < - 1 \<and> (\<forall>r. search (tab_id t) = Some r \<longrightarrow> tab r \<noteq> tab_id t))"
proof -
  obtain ei c1 where c1: "cache_table (tab_id t) c = (ei, c1)" by (cases "cache_table (tab_id t) c")
  note t = cache_table_ok [OF ok c1]
  show ?thesis
  proof (cases "\<exists>r. search (tab_id t) = Some r \<and> tab r = tab_id t")
    case True
    then obtain r where r: "search (tab_id t) = Some r" "tab r = tab_id t" by blast
    obtain j c2 where add: "cache_add (rid r) c1 = (j, c2)" by (cases "cache_add (rid r) c1")
    have res: "it = j" "res = Some r" "c' = c2" using run r c1 add by (auto simp: search_in_def)
    have "tbl_find rid (rid r) rows = Some r" using tbl_find_unique [OF u s [OF r(1)]] .
    moreover have "cache_ok rid tab rows c1" "tab r \<in> dom (map_of (table_cache c1))" using t r(2) by auto
    ultimately have "cache_ok rid tab rows c2 \<and> cache_get rid j c2 rows = Inr r \<and> keeps rid rows c1 c2"
      using cache_add_ok [of rid tab rows c1 r j c2] add by blast
    then show ?thesis using res r t keeps_trans by auto
  next
    case False
    then have "it = ei" "res = None" "c' = c1" using run c1 by (auto simp: search_in_def split: option.splits if_splits)
    then show ?thesis using t False by auto
  qed
qed

end

text \<open>The rows of a table, by what the contract sees.\<close>

lemma view_of_rows:
  assumes ids: "table_ids tabs k = Some i" and u: "tbl_unique key rows"
  shows "p \<in> dom (view_of tabs key val rows k) \<longleftrightarrow> (\<exists>r\<in>set rows. key r = (i, p))"
proof -
  have "p \<in> dom (view_of tabs key val rows k) \<longleftrightarrow> tbl_find key (i, p) rows \<noteq> None" using ids by (auto simp: view_of_def)
  then show ?thesis unfolding tbl_find_None image_iff by metis
qed

text \<open>An end iterator of a table of the contract.\<close>

definition at_end :: "('k, 'h, 's) contract_db \<Rightarrow> int \<Rightarrow> name \<times> name \<times> name \<Rightarrow> bool" where
  "at_end d it k \<longleftrightarrow> (\<exists>i. table_ids (tables d) k = Some i \<and> map_of (table_cache (keyval_cache d)) i = Some it)"

definition same_but_cache :: "('k, 'h, 's) contract_db \<Rightarrow> ('k, 'h, 's) contract_db \<Rightarrow> bool" where
  "same_but_cache d d' \<longleftrightarrow> (\<exists>c. d' = d\<lparr>keyval_cache := c\<rparr> \<and> cache_ok kv_id kv_tab (key_values d) c \<and> keeps kv_id (key_values d) (keyval_cache d) c)"

lemma same_but_cache_ok: "same_but_cache d d' \<Longrightarrow> db_ok d \<Longrightarrow> db_ok d'"
  by (auto simp: same_but_cache_def db_ok_def rows_ok_def refs_def [abs_def])

lemma same_but_cache_views: "same_but_cache d d' \<Longrightarrow> table_view d' = table_view d \<and> index_view d' = index_view d \<and> base d' = base d \<and> cost e d' a = cost e d a"
  by (auto simp: same_but_cache_def table_view_def index_view_def cost_def)

lemma same_but_cache_points: "same_but_cache d d' \<Longrightarrow> points d it k p \<Longrightarrow> points d' it k p"
  by (auto simp: same_but_cache_def points_def keeps_def)

lemma same_but_cache_end: "same_but_cache d d' \<Longrightarrow> at_end d it k \<Longrightarrow> at_end d' it k"
  by (auto simp: same_but_cache_def at_end_def keeps_def)

text \<open>One step forward from a row: the row with the next primary key, or the end of the table.\<close>

lemma db_next_spec:
  assumes ok: "db_ok d" and p: "points d it k p"
  shows "\<exists>it' q d'. db_next_i64 it d = Inr (it', q, d') \<and> same_but_cache d d'
    \<and> (case q of Some p' \<Rightarrow> points d' it' k p' \<and> p < p' \<and> p' \<in> dom (table_view d k) \<and> (\<forall>x\<in>dom (table_view d k). p < x \<longrightarrow> p' \<le> x)
       | None \<Rightarrow> at_end d' it' k \<and> (\<forall>x\<in>dom (table_view d k). x \<le> p))"
proof -
  have rows: "tbl_unique kv_id (key_values d)" "tbl_unique scope_primary (key_values d)" "cache_ok kv_id kv_tab (key_values d) (keyval_cache d)"
    using ok by (auto simp: db_ok_def rows_ok_def)
  obtain r i where g: "cache_get kv_id it (keyval_cache d) (key_values d) = Inr r" and i: "table_ids (tables d) k = Some i"
    and r: "kv_tab r = i" "primary_key r = p" using p by (auto simp: points_def scope_primary_def)
  have dom: "x \<in> dom (table_view d k) \<longleftrightarrow> (\<exists>r\<in>set (key_values d). scope_primary r = (i, x))" for x
    unfolding table_view_def by (rule view_of_rows [OF i rows(2)])
  show ?thesis
  proof (rule disjE [OF kv.next_in_spec [OF rows(3) g rows(1)]], goal_cases)
    case 1
    then obtain y it' c' where y: "next_in kv_id kv_tab primary_key scope_primary it (key_values d) (keyval_cache d) = Inr (it', Some (primary_key y), c')"
        "y \<in> set (key_values d)" "kv_tab y = kv_tab r" "scope_primary r < scope_primary y"
        and least: "\<And>x. x \<in> set (key_values d) \<Longrightarrow> scope_primary r < scope_primary x \<Longrightarrow> scope_primary y \<le> scope_primary x"
        and c': "cache_ok kv_id kv_tab (key_values d) c'" "cache_get kv_id it' c' (key_values d) = Inr y" "keeps kv_id (key_values d) (keyval_cache d) c'"
      by blast
    have "\<forall>x\<in>dom (table_view d k). p < x \<longrightarrow> primary_key y \<le> x"
    proof (intro ballI impI)
      fix x assume "x \<in> dom (table_view d k)" "p < x"
      then obtain z where "z \<in> set (key_values d)" "scope_primary z = (i, x)" using dom by blast
      then show "primary_key y \<le> x" using least [of z] r y(3) \<open>p < x\<close> by (simp add: scope_primary_def less_prod_def less_eq_prod_def)
    qed
    moreover have "primary_key y \<in> dom (table_view d k)" using dom y(2,3) r by (auto simp: scope_primary_def)
    moreover have "p < primary_key y" using y(3,4) r by (simp add: scope_primary_def less_prod_def)
    ultimately show ?case using y c' r i by (auto simp: db_next_i64_def same_but_cache_def points_def scope_primary_def)
  next
    case 2
    then obtain ei where ei: "next_in kv_id kv_tab primary_key scope_primary it (key_values d) (keyval_cache d) = Inr (ei, None, keyval_cache d)"
        "map_of (table_cache (keyval_cache d)) (kv_tab r) = Some ei"
        and last: "\<And>x. x \<in> set (key_values d) \<Longrightarrow> kv_tab x = kv_tab r \<Longrightarrow> scope_primary x \<le> scope_primary r" by blast
    have "\<forall>x\<in>dom (table_view d k). x \<le> p"
    proof
      fix x assume "x \<in> dom (table_view d k)"
      then obtain z where "z \<in> set (key_values d)" "scope_primary z = (i, x)" using dom by blast
      then show "x \<le> p" using last [of z] r by (simp add: scope_primary_def less_eq_prod_def)
    qed
    then show ?case using ei r i rows(3) by (auto simp: db_next_i64_def same_but_cache_def at_end_def intro!: exI [of _ "keyval_cache d"])
  qed
qed


text \<open>One step back from a row, and from the end of a table that is still there.\<close>

lemma db_previous_spec:
  assumes ok: "db_ok d" and p: "points d it k p"
  shows "\<exists>it' q d'. db_previous_i64 it d = Inr (it', q, d') \<and> same_but_cache d d'
    \<and> (case q of Some p' \<Rightarrow> points d' it' k p' \<and> p' < p \<and> p' \<in> dom (table_view d k) \<and> (\<forall>x\<in>dom (table_view d k). x < p \<longrightarrow> x \<le> p')
       | None \<Rightarrow> it' = - 1 \<and> (\<forall>x\<in>dom (table_view d k). p \<le> x))"
proof -
  have rows: "tbl_unique kv_id (key_values d)" "tbl_unique scope_primary (key_values d)" "cache_ok kv_id kv_tab (key_values d) (keyval_cache d)"
    using ok by (auto simp: db_ok_def rows_ok_def)
  obtain r i where g: "cache_get kv_id it (keyval_cache d) (key_values d) = Inr r" and i: "table_ids (tables d) k = Some i"
    and r: "kv_tab r = i" "primary_key r = p" using p by (auto simp: points_def scope_primary_def)
  have dom: "x \<in> dom (table_view d k) \<longleftrightarrow> (\<exists>r\<in>set (key_values d). scope_primary r = (i, x))" for x
    unfolding table_view_def by (rule view_of_rows [OF i rows(2)])
  show ?thesis
  proof (rule disjE [OF kv.previous_in_spec [OF rows(3) g rows(1), of "tables d"]], goal_cases)
    case 1
    then obtain y it' c' where y: "previous_in kv_id kv_tab primary_key scope_primary it (key_values d) (tables d) (keyval_cache d) = Inr (it', Some (primary_key y), c')"
        "y \<in> set (key_values d)" "kv_tab y = kv_tab r" "scope_primary y < scope_primary r"
        and most: "\<And>x. x \<in> set (key_values d) \<Longrightarrow> scope_primary x < scope_primary r \<Longrightarrow> scope_primary x \<le> scope_primary y"
        and c': "cache_ok kv_id kv_tab (key_values d) c'" "cache_get kv_id it' c' (key_values d) = Inr y" "keeps kv_id (key_values d) (keyval_cache d) c'"
      by blast
    have "\<forall>x\<in>dom (table_view d k). x < p \<longrightarrow> x \<le> primary_key y"
    proof (intro ballI impI)
      fix x assume "x \<in> dom (table_view d k)" "x < p"
      then obtain z where "z \<in> set (key_values d)" "scope_primary z = (i, x)" using dom by blast
      then show "x \<le> primary_key y" using most [of z] r y(3) \<open>x < p\<close> by (simp add: scope_primary_def less_prod_def less_eq_prod_def)
    qed
    moreover have "primary_key y \<in> dom (table_view d k)" using dom y(2,3) r by (auto simp: scope_primary_def)
    moreover have "primary_key y < p" using y(3,4) r by (simp add: scope_primary_def less_prod_def)
    ultimately show ?case using y c' r i by (auto simp: db_previous_i64_def same_but_cache_def points_def scope_primary_def)
  next
    case 2
    have "\<forall>x\<in>dom (table_view d k). p \<le> x"
    proof
      fix x assume "x \<in> dom (table_view d k)"
      then obtain z where "z \<in> set (key_values d)" "scope_primary z = (i, x)" using dom by blast
      then show "p \<le> x" using 2 r by (auto simp: scope_primary_def less_eq_prod_def)
    qed
    then show ?case using 2 rows(3) by (auto simp: db_previous_i64_def same_but_cache_def intro!: exI [of _ "keyval_cache d"])
  qed
qed

lemma db_previous_end_spec:
  assumes ok: "db_ok d" and p: "at_end d it k" and int: "- (2 ^ 31) < it"
  shows "\<exists>it' q d'. db_previous_i64 it d = Inr (it', q, d') \<and> same_but_cache d d'
    \<and> (case q of Some p' \<Rightarrow> points d' it' k p' \<and> p' \<in> dom (table_view d k) \<and> (\<forall>x\<in>dom (table_view d k). x \<le> p')
       | None \<Rightarrow> it' = - 1 \<and> dom (table_view d k) = {})"
proof -
  have rows: "tbl_unique kv_id (key_values d)" "tbl_unique scope_primary (key_values d)" "cache_ok kv_id kv_tab (key_values d) (keyval_cache d)"
    using ok by (auto simp: db_ok_def rows_ok_def)
  obtain i where i: "table_ids (tables d) k = Some i" "map_of (table_cache (keyval_cache d)) i = Some it" using p by (auto simp: at_end_def)
  obtain t where t: "t \<in> set (tables d)" "tab_id t = i" using i(1) tbl_find_Some [of table_key k "tables d"] by (auto simp: table_ids_def)
  have ut: "tbl_unique tab_id (tables d)" using ok by (simp add: db_ok_def tabs_ok_def)
  have ei: "map_of (table_cache (keyval_cache d)) (tab_id t) = Some it" using i(2) t(2) by simp
  have dom: "x \<in> dom (table_view d k) \<longleftrightarrow> (\<exists>r\<in>set (key_values d). scope_primary r = (i, x))" for x
    unfolding table_view_def by (rule view_of_rows [OF i(1) rows(2)])
  show ?thesis
  proof (rule disjE [OF kv.previous_in_end [OF rows(3,1) t(1) ut ei int]], goal_cases)
    case 1
    then obtain y it' c' where y: "previous_in kv_id kv_tab primary_key scope_primary it (key_values d) (tables d) (keyval_cache d) = Inr (it', Some (primary_key y), c')"
        "y \<in> set (key_values d)" "kv_tab y = i"
        and most: "\<And>x. x \<in> set (key_values d) \<Longrightarrow> kv_tab x = i \<Longrightarrow> scope_primary x \<le> scope_primary y"
        and c': "cache_ok kv_id kv_tab (key_values d) c'" "cache_get kv_id it' c' (key_values d) = Inr y" "keeps kv_id (key_values d) (keyval_cache d) c'"
      using t(2) by blast
    have "\<forall>x\<in>dom (table_view d k). x \<le> primary_key y"
    proof
      fix x assume "x \<in> dom (table_view d k)"
      then obtain z where "z \<in> set (key_values d)" "scope_primary z = (i, x)" using dom by blast
      then show "x \<le> primary_key y" using most [of z] y(3) by (auto simp: scope_primary_def less_eq_prod_def)
    qed
    moreover have "primary_key y \<in> dom (table_view d k)" using dom y(2,3) by (auto simp: scope_primary_def)
    ultimately show ?case using y c' i by (auto simp: db_previous_i64_def same_but_cache_def points_def scope_primary_def)
  next
    case 2
    have "x \<notin> dom (table_view d k)" for x unfolding dom using 2 t(2) by (auto simp: scope_primary_def)
    then show ?case using 2 rows(3) by (auto simp: db_previous_i64_def same_but_cache_def intro!: exI [of _ "keyval_cache d"])
  qed
qed


text \<open>A search: the first key of the table with \<open>P\<close>, the end of the table, or no table.\<close>

definition found_first :: "('k, 'h, 's) contract_db \<Rightarrow> ('k, 'h, 's) contract_db \<Rightarrow> int \<Rightarrow> name \<times> name \<times> name \<Rightarrow> (nat \<Rightarrow> bool) \<Rightarrow> bool" where
  "found_first d d' it k P \<longleftrightarrow> same_but_cache d d'
     \<and> (if \<exists>x\<in>dom (table_view d k). P x
        then \<exists>q\<in>dom (table_view d k). P q \<and> (\<forall>x\<in>dom (table_view d k). P x \<longrightarrow> q \<le> x) \<and> points d' it k q
        else if table_ids (tables d) k = None then it = - 1 else at_end d' it k)"

lemma search_found_first:
  assumes ok: "db_ok d" and run: "on_keyval (search_in kv_id kv_tab search (find_table c s t d)) d = (it, d')"
    and some: "\<And>i r. search i = Some r \<Longrightarrow> r \<in> set (key_values d) \<and> (kv_tab r = i \<longrightarrow>
      P (primary_key r) \<and> (\<forall>x\<in>set (key_values d). kv_tab x = i \<longrightarrow> P (primary_key x) \<longrightarrow> primary_key r \<le> primary_key x))"
    and none: "\<And>i x. x \<in> set (key_values d) \<Longrightarrow> kv_tab x = i \<Longrightarrow> P (primary_key x) \<Longrightarrow> \<exists>r. search i = Some r \<and> kv_tab r = i"
  shows "found_first d d' it (c, s, t) P"
proof (cases "find_table c s t d")
  case None
  then have "it = - 1" "d' = d" using run by (auto simp: on_keyval_def search_in_def)
  moreover have "table_ids (tables d) (c, s, t) = None" using None by (simp add: find_table_def table_ids_def)
  moreover from this have "dom (table_view d (c, s, t)) = {}" by (auto simp: table_view_def view_of_def)
  ultimately show ?thesis using ok
    by (auto simp: found_first_def same_but_cache_def db_ok_def rows_ok_def intro!: exI [of _ "keyval_cache d"])
next
  case (Some tt)
  let ?i = "tab_id tt"
  have rows: "tbl_unique kv_id (key_values d)" "tbl_unique scope_primary (key_values d)" "cache_ok kv_id kv_tab (key_values d) (keyval_cache d)"
    using ok by (auto simp: db_ok_def rows_ok_def)
  obtain res c' where r: "search_in kv_id kv_tab search (Some tt) (keyval_cache d) = (it, res, c')" and d': "d' = d\<lparr>keyval_cache := c'\<rparr>"
    using run Some by (auto simp: on_keyval_def split: prod.splits)
  have i: "table_ids (tables d) (c, s, t) = Some ?i" using Some by (simp add: find_table_def table_ids_def)
  have dom: "x \<in> dom (table_view d (c, s, t)) \<longleftrightarrow> (\<exists>r\<in>set (key_values d). scope_primary r = (?i, x))" for x
    unfolding table_view_def by (rule view_of_rows [OF i rows(2)])
  note spec = kv.search_in_spec [OF rows(3,1) _ r]
  have s: "same_but_cache d d'" using spec some by (auto simp: same_but_cache_def d')
  show ?thesis
  proof (cases res)
    case None
    then have e: "map_of (table_cache c') ?i = Some it" "\<And>r. search ?i = Some r \<Longrightarrow> kv_tab r \<noteq> ?i" using spec some by auto
    have "\<not> P x" if x: "x \<in> dom (table_view d (c, s, t))" for x
    proof
      assume P: "P x"
      obtain y where "y \<in> set (key_values d)" "kv_tab y = ?i" "primary_key y = x" using x dom by (auto simp: scope_primary_def)
      then obtain z where "search ?i = Some z" "kv_tab z = ?i" using none [of y ?i] P by blast
      then show False using e(2) by blast
    qed
    then show ?thesis using s i e(1) by (auto simp: found_first_def at_end_def d')
  next
    case (Some y)
    then have y: "search ?i = Some y" "kv_tab y = ?i" "cache_get kv_id it c' (key_values d) = Inr y" using spec some by auto
    let ?q = "primary_key y"
    have least: "y \<in> set (key_values d)" "P ?q" "\<And>x. x \<in> set (key_values d) \<Longrightarrow> kv_tab x = ?i \<Longrightarrow> P (primary_key x) \<Longrightarrow> ?q \<le> primary_key x"
      using some [OF y(1)] y(2) by auto
    have "?q \<in> dom (table_view d (c, s, t))" using dom least(1) y(2) by (auto simp: scope_primary_def)
    moreover have "\<forall>x\<in>dom (table_view d (c, s, t)). P x \<longrightarrow> ?q \<le> x"
    proof (intro ballI impI)
      fix x assume "x \<in> dom (table_view d (c, s, t))" "P x"
      then obtain z where "z \<in> set (key_values d)" "kv_tab z = ?i" "primary_key z = x" using dom by (auto simp: scope_primary_def)
      then show "?q \<le> x" using least(3) [of z] \<open>P x\<close> by simp
    qed
    moreover have "points d' it (c, s, t) ?q" using y i by (simp add: points_def d' scope_primary_def)
    ultimately show ?thesis using s least(2) unfolding found_first_def by metis
  qed
qed

lemma db_find_spec:
  assumes ok: "db_ok d" and run: "db_find_i64 c s t p d = (it, d')"
  shows "found_first d d' it (c, s, t) (\<lambda>x. x = p)"
proof (rule search_found_first [OF ok run [unfolded db_find_i64_def]])
  fix i r assume "tbl_find scope_primary (i, p) (key_values d) = Some r"
  then show "r \<in> set (key_values d) \<and> (kv_tab r = i \<longrightarrow> primary_key r = p
      \<and> (\<forall>x\<in>set (key_values d). kv_tab x = i \<longrightarrow> primary_key x = p \<longrightarrow> primary_key r \<le> primary_key x))"
    by (auto dest!: tbl_find_Some simp: scope_primary_def)
next
  fix i x assume x: "x \<in> set (key_values d)" "kv_tab x = i" "primary_key x = p"
  have "tbl_unique scope_primary (key_values d)" using ok by (simp add: db_ok_def rows_ok_def)
  from tbl_find_unique [OF this x(1)] show "\<exists>r. tbl_find scope_primary (i, p) (key_values d) = Some r \<and> kv_tab r = i"
    using x by (auto simp: scope_primary_def)
qed

lemma db_lowerbound_spec:
  assumes ok: "db_ok d" and run: "db_lowerbound_i64 c s t p d = (it, d')"
  shows "found_first d d' it (c, s, t) (\<lambda>x. p \<le> x)"
proof (rule search_found_first [OF ok run [unfolded db_lowerbound_i64_def]])
  fix i r assume r: "lower_bound scope_primary (i, p) (key_values d) = Some r"
  have "r \<in> set (key_values d)" "(i, p) \<le> scope_primary r"
      "\<And>x. x \<in> set (key_values d) \<Longrightarrow> (i, p) \<le> scope_primary x \<Longrightarrow> scope_primary r \<le> scope_primary x"
    using lower_bound_Some [OF r] by blast+
  then show "r \<in> set (key_values d) \<and> (kv_tab r = i \<longrightarrow> p \<le> primary_key r
      \<and> (\<forall>x\<in>set (key_values d). kv_tab x = i \<longrightarrow> p \<le> primary_key x \<longrightarrow> primary_key r \<le> primary_key x))"
    unfolding scope_primary_def less_eq_prod_def fst_conv snd_conv by (metis less_irrefl order_refl)
next
  fix i x assume x: "x \<in> set (key_values d)" "kv_tab x = i" "p \<le> primary_key x"
  then have le: "(i, p) \<le> scope_primary x" by (simp add: scope_primary_def less_eq_prod_def)
  then obtain r where r: "lower_bound scope_primary (i, p) (key_values d) = Some r"
    using lower_bound_None [of scope_primary "(i, p)" "key_values d" x] x(1) by (cases "lower_bound scope_primary (i, p) (key_values d)") auto
  have "(i, p) \<le> scope_primary r" "scope_primary r \<le> scope_primary x" using lower_bound_Some [OF r] x(1) le by auto
  then show "\<exists>r. lower_bound scope_primary (i, p) (key_values d) = Some r \<and> kv_tab r = i"
    using r x(2) by (auto simp: scope_primary_def less_eq_prod_def)
qed

lemma db_upperbound_spec:
  assumes ok: "db_ok d" and run: "db_upperbound_i64 c s t p d = (it, d')"
  shows "found_first d d' it (c, s, t) (\<lambda>x. p < x)"
proof (rule search_found_first [OF ok run [unfolded db_upperbound_i64_def]])
  fix i r assume r: "upper_bound scope_primary (i, p) (key_values d) = Some r"
  have "r \<in> set (key_values d)" "(i, p) < scope_primary r"
      "\<And>x. x \<in> set (key_values d) \<Longrightarrow> (i, p) < scope_primary x \<Longrightarrow> scope_primary r \<le> scope_primary x"
    using upper_bound_Some [OF r] by blast+
  then show "r \<in> set (key_values d) \<and> (kv_tab r = i \<longrightarrow> p < primary_key r
      \<and> (\<forall>x\<in>set (key_values d). kv_tab x = i \<longrightarrow> p < primary_key x \<longrightarrow> primary_key r \<le> primary_key x))"
    unfolding scope_primary_def less_eq_prod_def less_prod_def fst_conv snd_conv by (metis less_irrefl order_refl)
next
  fix i x assume x: "x \<in> set (key_values d)" "kv_tab x = i" "p < primary_key x"
  then have le: "(i, p) < scope_primary x" by (simp add: scope_primary_def less_prod_def)
  then obtain r where r: "upper_bound scope_primary (i, p) (key_values d) = Some r"
    using upper_bound_None [of scope_primary "(i, p)" "key_values d" x] x(1) by (cases "upper_bound scope_primary (i, p) (key_values d)") auto
  have "(i, p) < scope_primary r" "scope_primary r \<le> scope_primary x" using upper_bound_Some [OF r] x(1) le by auto
  then show "\<exists>r. upper_bound scope_primary (i, p) (key_values d) = Some r \<and> kv_tab r = i"
    using r x(2) by (auto simp: scope_primary_def less_eq_prod_def less_prod_def)
qed

end
