(* ===== verification/TableOps.thy ===== *)
theory TableOps
  imports ContractIndex
begin

text \<open>
  The whole interface of a contract to its tables as one operation type: any sequence of operations,
  by any receivers, keeps the database in order, bills exactly what is stored, and acts on what the
  contract sees as the operations of a map do.
\<close>

section \<open>Operations\<close>

datatype 's table_op =
    Begin
  | Store name name name nat bytes
  | Update int name bytes
  | Remove int
  | Find name name name nat
  | Lowerbound name name name nat
  | Upperbound name name name nat
  | End name name name
  | Next int
  | Previous int
  | Index_store name name name nat 's
  | Index_update int name 's
  | Index_remove int
  | Index_find name name name 's
  | Index_lowerbound name name name 's
  | Index_upperbound name name name 's
  | Index_end name name name
  | Index_next int
  | Index_previous int
  | Index_find_primary name name name nat
  | Index_lowerbound_primary name name name nat
  | Index_upperbound_primary name name name nat
  | Index_next_primary int
  | Index_previous_primary int

text \<open>\<open>Begin\<close> is the construction of an \<open>apply_context\<close>, with empty iterator caches.\<close>

fun apply_op :: "exec_env \<Rightarrow> 's::linorder table_op \<Rightarrow> ('k, 'h, 's) contract_db \<Rightarrow> ('k, 'h, 's) contract_db result" where
  "apply_op e Begin d = Inr (d\<lparr>keyval_cache := empty_cache, itr_cache := empty_cache\<rparr>)"
| "apply_op e (Store s t who p v) d = bind_r (db_store_i64 e (receiver e) s t who p v d) (\<lambda>(_, d). Inr d)"
| "apply_op e (Update it who v) d = db_update_i64 e it who v d"
| "apply_op e (Remove it) d = db_remove_i64 e it d"
| "apply_op e (Find c s t p) d = Inr (snd (db_find_i64 c s t p d))"
| "apply_op e (Lowerbound c s t p) d = Inr (snd (db_lowerbound_i64 c s t p d))"
| "apply_op e (Upperbound c s t p) d = Inr (snd (db_upperbound_i64 c s t p d))"
| "apply_op e (End c s t) d = Inr (snd (db_end_i64 c s t d))"
| "apply_op e (Next it) d = bind_r (db_next_i64 it d) (\<lambda>(_, _, d). Inr d)"
| "apply_op e (Previous it) d = bind_r (db_previous_i64 it d) (\<lambda>(_, _, d). Inr d)"
| "apply_op e (Index_store s t who p v) d = bind_r (store e s t who p v d) (\<lambda>(_, d). Inr d)"
| "apply_op e (Index_update it who v) d = update e it who v d"
| "apply_op e (Index_remove it) d = remove e it d"
| "apply_op e (Index_find c s t v) d = Inr (snd (snd (find_secondary c s t v d)))"
| "apply_op e (Index_lowerbound c s t v) d = Inr (snd (snd (lowerbound_secondary c s t v d)))"
| "apply_op e (Index_upperbound c s t v) d = Inr (snd (snd (upperbound_secondary c s t v d)))"
| "apply_op e (Index_end c s t) d = Inr (snd (end_secondary c s t d))"
| "apply_op e (Index_next it) d = bind_r (next_secondary it d) (\<lambda>(_, _, d). Inr d)"
| "apply_op e (Index_previous it) d = bind_r (previous_secondary it d) (\<lambda>(_, _, d). Inr d)"
| "apply_op e (Index_find_primary c s t p) d = Inr (snd (snd (find_primary c s t p d)))"
| "apply_op e (Index_lowerbound_primary c s t p) d = Inr (snd (snd (lowerbound_primary c s t p d)))"
| "apply_op e (Index_upperbound_primary c s t p) d = Inr (snd (snd (upperbound_primary c s t p d)))"
| "apply_op e (Index_next_primary it) d = bind_r (next_primary it d) (\<lambda>(_, _, d). Inr d)"
| "apply_op e (Index_previous_primary it) d = bind_r (previous_primary it d) (\<lambda>(_, _, d). Inr d)"

fun apply_ops :: "(exec_env \<times> 's::linorder table_op) list \<Rightarrow> ('k, 'h, 's) contract_db \<Rightarrow> ('k, 'h, 's) contract_db result" where
  "apply_ops [] d = Inr d"
| "apply_ops ((e, op1) # ops) d = bind_r (apply_op e op1 d) (apply_ops ops)"

text \<open>Buffers come from the linear memory of a contract and are shorter than 4 GiB.\<close>

fun op_fits :: "'s table_op \<Rightarrow> bool" where
  "op_fits (Store s t who p v) = (length v < 2 ^ 32)"
| "op_fits (Update it who v) = (length v < 2 ^ 32)"
| "op_fits _ = True"

section \<open>The specification\<close>

text \<open>The table and the primary key of the row an iterator names.\<close>

definition row_at :: "('k, 'h, 's) contract_db \<Rightarrow> int \<rightharpoonup> (name \<times> name \<times> name) \<times> nat" where
  "row_at d it = (case cache_get kv_id it (keyval_cache d) (key_values d) of
     Inl _ \<Rightarrow> None | Inr r \<Rightarrow> map_option (\<lambda>t. (table_key t, primary_key r)) (tbl_find tab_id (kv_tab r) (tables d)))"

definition index_row_at :: "('k, 'h, 's) contract_db \<Rightarrow> int \<rightharpoonup> (name \<times> name \<times> name) \<times> nat" where
  "index_row_at d it = (case cache_get ix_id it (itr_cache d) (index_objects d) of
     Inl _ \<Rightarrow> None | Inr r \<Rightarrow> map_option (\<lambda>t. (table_key t, ix_primary r)) (tbl_find tab_id (ix_tab r) (tables d)))"

text \<open>Writing and erasing the row named by an iterator, in a family of maps; the payer 0 stands for the old one.\<close>

definition put_row :: "((name \<times> name \<times> name) \<times> nat) option \<Rightarrow> name \<Rightarrow> 'v \<Rightarrow> (name \<times> name \<times> name \<Rightarrow> nat \<rightharpoonup> name \<times> 'v) \<Rightarrow>
    name \<times> name \<times> name \<Rightarrow> nat \<rightharpoonup> name \<times> 'v" where
  "put_row at who v T = (case at of None \<Rightarrow> T
     | Some (k, p) \<Rightarrow> T(k := (T k)(p \<mapsto> (if who = 0 then fst (the (T k p)) else who, v))))"

definition erase_row :: "((name \<times> name \<times> name) \<times> nat) option \<Rightarrow> (name \<times> name \<times> name \<Rightarrow> nat \<rightharpoonup> name \<times> 'v) \<Rightarrow>
    name \<times> name \<times> name \<Rightarrow> nat \<rightharpoonup> name \<times> 'v" where
  "erase_row at T = (case at of None \<Rightarrow> T | Some (k, p) \<Rightarrow> T(k := (T k)(p := None)))"

fun table_spec :: "exec_env \<Rightarrow> 's table_op \<Rightarrow> (int \<rightharpoonup> (name \<times> name \<times> name) \<times> nat) \<Rightarrow>
    (name \<times> name \<times> name \<Rightarrow> nat \<rightharpoonup> name \<times> bytes) \<Rightarrow> name \<times> name \<times> name \<Rightarrow> nat \<rightharpoonup> name \<times> bytes" where
  "table_spec e (Store s t who p v) at T = put_row (Some ((receiver e, s, t), p)) who v T"
| "table_spec e (Update it who v) at T = put_row (at it) who v T"
| "table_spec e (Remove it) at T = erase_row (at it) T"
| "table_spec e _ at T = T"

fun index_spec :: "exec_env \<Rightarrow> 's table_op \<Rightarrow> (int \<rightharpoonup> (name \<times> name \<times> name) \<times> nat) \<Rightarrow>
    (name \<times> name \<times> name \<Rightarrow> nat \<rightharpoonup> name \<times> 's) \<Rightarrow> name \<times> name \<times> name \<Rightarrow> nat \<rightharpoonup> name \<times> 's" where
  "index_spec e (Index_store s t who p v) at I = put_row (Some ((receiver e, s, t), p)) who v I"
| "index_spec e (Index_update it who v) at I = put_row (at it) who v I"
| "index_spec e (Index_remove it) at I = erase_row (at it) I"
| "index_spec e _ at I = I"

section \<open>Reading operations only grow the caches\<close>

context ordered_view
begin

lemma next_in_keeps:
  assumes ok: "cache_ok rid tab rows c" and u: "tbl_unique rid rows" and run: "next_in rid tab prim key it rows c = Inr (it', q, c')"
  shows "cache_ok rid tab rows c'"
proof (cases "it < - 1")
  case True
  then show ?thesis using ok run by (simp add: next_in_def)
next
  case False
  then obtain obj where "cache_get rid it c rows = Inr obj" using run by (auto simp: next_in_def result_simps)
  from next_in_spec [OF ok this u] run ok show ?thesis by fastforce
qed

lemma end_of_table:
  assumes ok: "cache_ok rid tab rows c" and "find_table_by_end_iterator it c = Inr (Some i)"
  shows "map_of (table_cache c) i = Some it" and "- (2 ^ 31) < it"
proof -
  obtain n where i: "it < - 1" "end_iterator_to_index it = Inr n" "n < length (end_iterator_to_table c)" "end_iterator_to_table c ! n = i"
    using assms(2) by (auto simp: find_table_by_end_iterator_def result_simps split: if_splits)
  have "index_to_end_iterator n = it" using i(1,2) by (auto simp: index_to_end_iterator_def end_iterator_to_index_def split: if_splits)
  then show "map_of (table_cache c) i = Some it" using ok i unfolding cache_ok_def by metis
  show "- (2 ^ 31) < it" using i(2) by (auto simp: end_iterator_to_index_def split: if_splits)
qed

lemma previous_in_keeps:
  assumes ok: "cache_ok rid tab rows c" and u: "tbl_unique rid rows" and ut: "tbl_unique tab_id tabs"
    and run: "previous_in rid tab prim key it rows tabs c = Inr (it', q, c')"
  shows "cache_ok rid tab rows c'"
proof (cases "it < - 1")
  case True
  then obtain i t where i: "find_table_by_end_iterator it c = Inr (Some i)" "deref tab_id i tabs = Inr t"
    using run by (auto simp: previous_in_def result_simps)
  have t: "t \<in> set tabs" "tab_id t = i" using i(2) by (auto simp: deref_def dest!: tbl_find_Some)
  from previous_in_end [OF ok u t(1) ut, of it] end_of_table [OF ok i(1)] t(2) run ok show ?thesis by fastforce
next
  case False
  then obtain obj where "cache_get rid it c rows = Inr obj" using run by (auto simp: previous_in_def result_simps)
  from previous_in_spec [OF ok this u, of tabs] run ok show ?thesis by fastforce
qed

lemma search_in_keeps:
  assumes ok: "cache_ok rid tab rows c" and u: "tbl_unique rid rows" and s: "\<And>t r. search t = Some r \<Longrightarrow> r \<in> set rows"
    and run: "search_in rid tab search found c = (it, res, c')"
  shows "cache_ok rid tab rows c'"
proof (cases found)
  case None
  then show ?thesis using ok run by (simp add: search_in_def)
next
  case (Some t)
  then show ?thesis using search_in_spec [OF ok u, of search t it res c'] s run by blast
qed

end


fun writes :: "'s table_op \<Rightarrow> bool" where
  "writes (Store s t who p v) = True"
| "writes (Update it who v) = True"
| "writes (Remove it) = True"
| "writes (Index_store s t who p v) = True"
| "writes (Index_update it who v) = True"
| "writes (Index_remove it) = True"
| "writes _ = False"

definition only_caches :: "('k, 'h, 's) contract_db \<Rightarrow> ('k, 'h, 's) contract_db \<Rightarrow> bool" where
  "only_caches d d' \<longleftrightarrow> (\<exists>c1 c2. d' = d\<lparr>keyval_cache := c1, itr_cache := c2\<rparr>
     \<and> cache_ok kv_id kv_tab (key_values d) c1 \<and> cache_ok ix_id ix_tab (index_objects d) c2)"

lemma only_caches_ok:
  assumes "only_caches d d'" and "db_ok d"
  shows "db_ok d' \<and> table_view d' = table_view d \<and> index_view d' = index_view d \<and> base d' = base d \<and> cost e d' a = cost e d a"
  using assms by (auto simp: only_caches_def db_ok_def rows_ok_def refs_def [abs_def] table_view_def index_view_def cost_def)

lemma only_cachesI:
  assumes ok: "db_ok d"
  shows "cache_ok kv_id kv_tab (key_values d) c \<Longrightarrow> only_caches d (d\<lparr>keyval_cache := c\<rparr>)"
    "cache_ok ix_id ix_tab (index_objects d) c' \<Longrightarrow> only_caches d (d\<lparr>itr_cache := c'\<rparr>)" "only_caches d d"
proof -
  have c: "cache_ok kv_id kv_tab (key_values d) (keyval_cache d)" "cache_ok ix_id ix_tab (index_objects d) (itr_cache d)"
    using ok by (auto simp: db_ok_def rows_ok_def)
  show "only_caches d (d\<lparr>keyval_cache := c\<rparr>)" if "cache_ok kv_id kv_tab (key_values d) c"
    using that c(2) unfolding only_caches_def by (intro exI [of _ c] exI [of _ "itr_cache d"]) simp
  show "only_caches d (d\<lparr>itr_cache := c'\<rparr>)" if "cache_ok ix_id ix_tab (index_objects d) c'"
    using that c(1) unfolding only_caches_def by (intro exI [of _ "keyval_cache d"] exI [of _ c']) simp
  show "only_caches d d" using c unfolding only_caches_def by (intro exI [of _ "keyval_cache d"] exI [of _ "itr_cache d"]) simp
qed

lemma index_searches_find_rows:
  "find_by_secondary i v rows = Some r \<Longrightarrow> r \<in> set rows"
  "lower_secondary i v rows = Some r \<Longrightarrow> r \<in> set rows"
  "upper_secondary i v rows = Some r \<Longrightarrow> r \<in> set rows"
  unfolding find_by_secondary_def lower_secondary_def upper_secondary_def by (drule at_Min_Some; simp)+

lemmas searches_find_rows = index_searches_find_rows lower_bound_Some [THEN conjunct1] upper_bound_Some [THEN conjunct1] tbl_find_Some [THEN conjunct1]

lemma search_only_caches:
  assumes ok: "db_ok d" and s: "\<And>i r. search i = Some r \<Longrightarrow> r \<in> set (key_values d)"
  shows "only_caches d (snd (on_keyval (search_in kv_id kv_tab search found) d))"
proof -
  obtain it res c where "search_in kv_id kv_tab search found (keyval_cache d) = (it, res, c)" by (metis prod_cases3)
  moreover from kv.search_in_keeps [OF _ _ _ this] s ok have "cache_ok kv_id kv_tab (key_values d) c"
    by (auto simp: db_ok_def rows_ok_def)
  ultimately show ?thesis using only_cachesI(1) [OF ok] by (simp add: on_keyval_def)
qed

lemma index_search_only_caches:
  assumes ok: "db_ok d" and s: "\<And>i r. search i = Some r \<Longrightarrow> r \<in> set (index_objects d)"
  shows "only_caches d (snd (snd (on_index (search_in ix_id ix_tab search found) d)))"
proof -
  obtain it res c where "search_in ix_id ix_tab search found (itr_cache d) = (it, res, c)" by (metis prod_cases3)
  moreover from ixp.search_in_keeps [OF _ _ _ this] s ok have "cache_ok ix_id ix_tab (index_objects d) c"
    by (auto simp: db_ok_def rows_ok_def)
  ultimately show ?thesis using only_cachesI(2) [OF ok] by (simp add: on_index_def)
qed

lemma end_only_caches:
  assumes ok: "db_ok d"
  shows "only_caches d (snd (db_end_i64 c s t d))" "only_caches d (snd (end_secondary c s t d))"
proof -
  have ok1: "cache_ok kv_id kv_tab (key_values d) (keyval_cache d)" and ok2: "cache_ok ix_id ix_tab (index_objects d) (itr_cache d)"
    using ok by (auto simp: db_ok_def rows_ok_def)
  have c1: "cache_ok kv_id kv_tab (key_values d) (snd (cache_table i (keyval_cache d)))" for i
    using cache_table_ok [OF ok1, of i] by (metis prod.collapse)
  have c2: "cache_ok ix_id ix_tab (index_objects d) (snd (cache_table i (itr_cache d)))" for i
    using cache_table_ok [OF ok2, of i] by (metis prod.collapse)
  show "only_caches d (snd (db_end_i64 c s t d))"
    using only_cachesI(1,3) [OF ok] c1 by (auto simp: db_end_i64_def split_beta split: option.split)
  show "only_caches d (snd (end_secondary c s t d))"
    using only_cachesI(2,3) [OF ok] c2 by (auto simp: end_secondary_def split_beta split: option.split)
qed

lemma step_only_caches:
  assumes ok: "db_ok d"
  shows "db_next_i64 it d = Inr (j, q, d') \<Longrightarrow> only_caches d d'" "db_previous_i64 it d = Inr (j, q, d') \<Longrightarrow> only_caches d d'"
    "next_primary it d = Inr (j, q, d') \<Longrightarrow> only_caches d d'" "previous_primary it d = Inr (j, q, d') \<Longrightarrow> only_caches d d'"
proof -
  have r: "cache_ok kv_id kv_tab (key_values d) (keyval_cache d)" "tbl_unique kv_id (key_values d)"
    "cache_ok ix_id ix_tab (index_objects d) (itr_cache d)" "tbl_unique ix_id (index_objects d)" "tbl_unique tab_id (tables d)"
    using ok by (auto simp: db_ok_def rows_ok_def tabs_ok_def)
  show "db_next_i64 it d = Inr (j, q, d') \<Longrightarrow> only_caches d d'"
    using kv.next_in_keeps [OF r(1,2)] only_cachesI(1) [OF ok] by (auto simp: db_next_i64_def result_simps)
  show "db_previous_i64 it d = Inr (j, q, d') \<Longrightarrow> only_caches d d'"
    using kv.previous_in_keeps [OF r(1,2,5)] only_cachesI(1) [OF ok] by (auto simp: db_previous_i64_def result_simps)
  show "next_primary it d = Inr (j, q, d') \<Longrightarrow> only_caches d d'"
    using ixp.next_in_keeps [OF r(3,4)] only_cachesI(2) [OF ok] by (auto simp: next_primary_def result_simps)
  show "previous_primary it d = Inr (j, q, d') \<Longrightarrow> only_caches d d'"
    using ixp.previous_in_keeps [OF r(3,4,5)] only_cachesI(2) [OF ok] by (auto simp: previous_primary_def result_simps)
qed

lemma secondary_step_only_caches:
  assumes ok: "db_ok d"
  shows "next_secondary it d = Inr (j, q, d') \<Longrightarrow> only_caches d d'" "previous_secondary it d = Inr (j, q, d') \<Longrightarrow> only_caches d d'"
proof -
  have r: "cache_ok kv_id kv_tab (key_values d) (keyval_cache d)"
    "cache_ok ix_id ix_tab (index_objects d) (itr_cache d)" "tbl_unique ix_id (index_objects d)" "tbl_unique tab_id (tables d)"
    using ok by (auto simp: db_ok_def rows_ok_def tabs_ok_def)
  show "next_secondary it d = Inr (j, q, d') \<Longrightarrow> only_caches d d'"
    using ixs.next_in_keeps [OF r(2,3)] only_cachesI(2) [OF ok] by (auto simp: next_secondary_def result_simps)
  show "previous_secondary it d = Inr (j, q, d') \<Longrightarrow> only_caches d d'"
    using ixs.previous_in_keeps [OF r(2,3,4)] only_cachesI(2) [OF ok] by (auto simp: previous_secondary_def result_simps)
qed

lemma reads_only_caches:
  assumes ok: "db_ok d" and run: "apply_op e op1 d = Inr d'" and read: "\<not> writes op1"
  shows "only_caches d d'"
proof (cases op1)
  case Begin
  then have "d' = d\<lparr>keyval_cache := empty_cache, itr_cache := empty_cache\<rparr>" using run by simp
  then show ?thesis unfolding only_caches_def by (intro exI [of _ empty_cache]) (simp add: empty_cache_ok)
qed (use run read end_only_caches [OF ok] step_only_caches [OF ok] secondary_step_only_caches [OF ok]
      search_only_caches [OF ok searches_find_rows(6)] search_only_caches [OF ok searches_find_rows(4)] search_only_caches [OF ok searches_find_rows(5)]
      index_search_only_caches [OF ok searches_find_rows(1)] index_search_only_caches [OF ok searches_find_rows(2)] index_search_only_caches [OF ok searches_find_rows(3)]
      index_search_only_caches [OF ok searches_find_rows(4)] index_search_only_caches [OF ok searches_find_rows(5)] index_search_only_caches [OF ok searches_find_rows(6)]
    in \<open>auto simp: result_simps db_find_i64_def db_lowerbound_i64_def db_upperbound_i64_def find_secondary_def lowerbound_secondary_def
      upperbound_secondary_def find_primary_def lowerbound_primary_def upperbound_primary_def\<close>)


section \<open>Every operation refines the specification\<close>

lemma points_row_at: "db_ok d \<Longrightarrow> points d it k p \<Longrightarrow> row_at d it = Some (k, p)"
proof -
  assume ok: "db_ok d" and p: "points d it k p"
  obtain r i where g: "cache_get kv_id it (keyval_cache d) (key_values d) = Inr r" and i: "table_ids (tables d) k = Some i" "kv_tab r = i" "primary_key r = p"
    using p by (auto simp: points_def scope_primary_def)
  obtain t where t: "tbl_find table_key k (tables d) = Some t" "tab_id t = i" using i(1) by (auto simp: table_ids_def)
  have "tbl_unique tab_id (tables d)" using ok by (simp add: db_ok_def tabs_ok_def)
  from tbl_find_unique [OF this, of t] tbl_find_Some [OF t(1)] t(2) i g show ?thesis by (auto simp: row_at_def)
qed

lemma index_points_row_at: "db_ok d \<Longrightarrow> index_points d it k p \<Longrightarrow> index_row_at d it = Some (k, p)"
proof -
  assume ok: "db_ok d" and p: "index_points d it k p"
  obtain r i where g: "cache_get ix_id it (itr_cache d) (index_objects d) = Inr r" and i: "table_ids (tables d) k = Some i" "ix_tab r = i" "ix_primary r = p"
    using p by (auto simp: index_points_def by_primary_def)
  obtain t where t: "tbl_find table_key k (tables d) = Some t" "tab_id t = i" using i(1) by (auto simp: table_ids_def)
  have "tbl_unique tab_id (tables d)" using ok by (simp add: db_ok_def tabs_ok_def)
  from tbl_find_unique [OF this, of t] tbl_find_Some [OF t(1)] t(2) i g show ?thesis by (auto simp: index_row_at_def)
qed

definition row_count :: "('k, 'h, 's) contract_db \<Rightarrow> nat" where
  "row_count d = length (key_values d) + length (index_objects d)"

lemma refs_le_rows: "refs d i \<le> row_count d"
  using count_le_length [of "map kv_tab (key_values d)" i] count_le_length [of "map ix_tab (index_objects d)" i]
  by (simp add: refs_def row_count_def)

text \<open>Only the tables of the receiver change.\<close>

definition foreign_same :: "exec_env \<Rightarrow> (name \<times> name \<times> name \<Rightarrow> nat \<rightharpoonup> 'v) \<Rightarrow> (name \<times> name \<times> name \<Rightarrow> nat \<rightharpoonup> 'v) \<Rightarrow> bool" where
  "foreign_same e T T' \<longleftrightarrow> (\<forall>k. fst k \<noteq> receiver e \<longrightarrow> T' k = T k)"

lemma store_payer:
  "db_store_i64 e c s t who p v d = Inr x \<Longrightarrow> who \<noteq> 0" "store e s t who p w d = Inr x \<Longrightarrow> who \<noteq> 0"
  by (auto simp: db_store_i64_def store_def result_simps)

definition step_ok :: "exec_env \<Rightarrow> 's table_op \<Rightarrow> ('k, 'h, 's) contract_db \<Rightarrow> ('k, 'h, 's) contract_db \<Rightarrow> bool" where
  "step_ok e op1 d d' \<longleftrightarrow> db_ok d' \<and> billed e d d'
     \<and> table_view d' = table_spec e op1 (row_at d) (table_view d) \<and> index_view d' = index_spec e op1 (index_row_at d) (index_view d)
     \<and> foreign_same e (table_view d) (table_view d') \<and> foreign_same e (index_view d) (index_view d')"

lemma apply_op_step_ok:
  assumes ok: "db_ok d" "ram_ok d" and size: "index_size e < 2 ^ 63" and room: "row_count d + 1 < 2 ^ 32" and fits: "op_fits op1"
    and run: "apply_op e op1 d = Inr d'"
  shows "step_ok e op1 d d'"
proof (cases "writes op1")
  case False
  have o: "only_caches d d'" by (rule reads_only_caches [OF ok(1) run False])
  have "table_spec e op1 at T = T" "index_spec e op1 at' I = I" for at T at' I using False by (cases op1; simp)+
  then show ?thesis using only_caches_ok [OF o ok(1)] ok(2) by (auto simp: step_ok_def billed_def foreign_same_def)
next
  case True
  have room': "refs d i + 1 < 2 ^ 32" for i using refs_le_rows [of d i] room by linarith
  show ?thesis
  proof (cases op1)
    case (Store s t who p v)
    then obtain it where r: "db_store_i64 e (receiver e) s t who p v d = Inr (it, d')" using run by (auto simp: result_simps)
    have "length v < 2 ^ 32" using fits Store by simp
    from db_store_ok [OF ok room' this r] store_payer(1) [OF r] Store show ?thesis
      by (auto simp: step_ok_def put_row_def foreign_same_def)
  next
    case (Update it who v)
    then have r: "db_update_i64 e it who v d = Inr d'" and l: "length v < 2 ^ 32" using run fits by auto
    from db_update_ok [OF ok l r] points_row_at [OF ok(1), of it] Update show ?thesis
      by (auto simp: step_ok_def put_row_def foreign_same_def)
  next
    case (Remove it)
    then have r: "db_remove_i64 e it d = Inr d'" using run by auto
    from db_remove_ok [OF ok r, where n = 0] points_row_at [OF ok(1), of it] Remove show ?thesis
      by (auto simp: step_ok_def erase_row_def foreign_same_def)
  next
    case (Index_store s t who p v)
    then obtain it where r: "store e s t who p v d = Inr (it, d')" using run by (auto simp: result_simps)
    from store_ok [OF ok room' size r] store_payer(2) [OF r] Index_store show ?thesis
      by (auto simp: step_ok_def put_row_def foreign_same_def)
  next
    case (Index_update it who v)
    then have r: "update e it who v d = Inr d'" using run by auto
    from update_ok [OF ok size r] index_points_row_at [OF ok(1), of it] Index_update show ?thesis
      by (auto simp: step_ok_def put_row_def foreign_same_def)
  next
    case (Index_remove it)
    then have r: "remove e it d = Inr d'" using run by auto
    from remove_ok [OF ok size r] index_points_row_at [OF ok(1), of it] Index_remove show ?thesis
      by (auto simp: step_ok_def erase_row_def foreign_same_def)
  qed (use True in simp_all)
qed


section \<open>Sequences of operations\<close>

lemma bill_rows: "update_db_usage e who n d = Inr d' \<Longrightarrow> key_values d' = key_values d \<and> index_objects d' = index_objects d"
  by (auto simp: update_db_usage_def result_simps)

lemma open_rows:
  "find_or_create_table e c s t who d = Inr (tab, d') \<Longrightarrow> key_values d' = key_values d \<and> index_objects d' = index_objects d"
  by (auto simp: find_or_create_table_def result_simps Let_def split: option.splits dest!: bill_rows)

lemma drop_rows: "drop_if_empty e i d = Inr d' \<Longrightarrow> key_values d' = key_values d \<and> index_objects d' = index_objects d"
  by (auto simp: drop_if_empty_def remove_table_def result_simps split: if_splits dest!: bill_rows)

lemma tbl_remove_length: "length (tbl_remove f i xs) \<le> length xs"
  by (simp add: tbl_remove_def)

lemma apply_op_rows:
  assumes run: "apply_op e op1 d = Inr d'" and ok: "db_ok d"
  shows "row_count d' \<le> row_count d + 1"
proof (cases "writes op1")
  case False
  from reads_only_caches [OF ok run False] show ?thesis by (auto simp: only_caches_def row_count_def)
next
  case True
  then show ?thesis
    using run tbl_remove_length [of kv_id _ "key_values d"] tbl_remove_length [of ix_id _ "index_objects d"] by (cases op1)
      (auto simp: row_count_def db_store_i64_def db_update_i64_def db_remove_i64_def store_def update_def remove_def result_simps Let_def
        count_up_eq count_down_eq tbl_create_eq_Inr tbl_modify_def split_beta le_SucI split: if_splits dest!: bill_rows open_rows drop_rows)
qed


lemma cost_size: "index_size e' = index_size e \<Longrightarrow> cost e' d a = cost e d a"
  unfolding cost_def ix_cost_def by (simp cong: if_cong)

definition ops_fit :: "nat \<Rightarrow> (exec_env \<times> 's table_op) list \<Rightarrow> bool" where
  "ops_fit n ops \<longleftrightarrow> (\<forall>(e, op1)\<in>set ops. op_fits op1 \<and> index_size e = n)"

lemma apply_ops_invariant:
  assumes "db_ok d" "ram_ok d" "index_size e < 2 ^ 63" "ops_fit (index_size e) ops" "row_count d + length ops < 2 ^ 32" "apply_ops ops d = Inr d'"
  shows "db_ok d' \<and> billed e d d'"
  using assms
proof (induction ops arbitrary: d)
  case Nil
  then show ?case by (simp add: billed_def)
next
  case (Cons x ops)
  obtain e1 op1 where x: "x = (e1, op1)" by (cases x)
  have f: "op_fits op1" "index_size e1 = index_size e" using Cons.prems(4) by (auto simp: ops_fit_def x)
  obtain d1 where r: "apply_op e1 op1 d = Inr d1" "apply_ops ops d1 = Inr d'" using Cons.prems(6) by (auto simp: x result_simps)
  have s: "step_ok e1 op1 d d1"
    using Cons.prems f r(1) by (intro apply_op_step_ok) auto
  then have 1: "db_ok d1" "billed e d d1" unfolding step_ok_def billed_def cost_size [OF f(2)] by blast+
  then have 2: "ram_ok d1" by (simp add: billed_def)
  have 3: "row_count d1 + length ops < 2 ^ 32" using apply_op_rows [OF r(1) Cons.prems(1)] Cons.prems(5) by simp
  have 4: "ops_fit (index_size e) ops" using Cons.prems(4) by (simp add: ops_fit_def)
  from Cons.IH [OF 1(1) 2 Cons.prems(3) 4 3 r(2)] have "db_ok d'" "billed e d1 d'" by auto
  moreover have "ram d' a - ram d a = cost e d' a - cost e d a" for a
  proof -
    have "ram d1 a - ram d a = cost e d1 a - cost e d a" "ram d' a - ram d1 a = cost e d' a - cost e d1 a"
      using 1(2) \<open>billed e d1 d'\<close> unfolding billed_def by blast+
    then show ?thesis by linarith
  qed
  ultimately show ?case unfolding billed_def by blast
qed

section \<open>Dangling pointers\<close>

text \<open>An end iterator whose table is gone: the cache still holds the pointer to it.\<close>

definition stale_end :: "int \<Rightarrow> iterator_cache \<Rightarrow> table_id_object list \<Rightarrow> bool" where
  "stale_end it c tabs \<longleftrightarrow> it < - 1 \<and> (\<exists>i. find_table_by_end_iterator it c = Inr (Some i) \<and> i \<notin> tab_id ` set tabs)"

text \<open>Such an iterator, or the least \<open>int\<close>, which is no end iterator of anything and cannot be negated.\<close>

definition bad_end :: "int \<Rightarrow> iterator_cache \<Rightarrow> table_id_object list \<Rightarrow> bool" where
  "bad_end it c tabs \<longleftrightarrow> it \<le> - (2 ^ 31) \<or> stale_end it c tabs"

fun steps_from_bad_end :: "'s table_op \<Rightarrow> ('k, 'h, 's) contract_db \<Rightarrow> bool" where
  "steps_from_bad_end (Previous it) d = bad_end it (keyval_cache d) (tables d)"
| "steps_from_bad_end (Index_previous it) d = bad_end it (itr_cache d) (tables d)"
| "steps_from_bad_end (Index_previous_primary it) d = bad_end it (itr_cache d) (tables d)"
| "steps_from_bad_end _ d = False"

abbreviation ub :: "'a result \<Rightarrow> bool" where "ub r \<equiv> r = Inl undefined_behaviour"

lemma ub_bind: "ub (bind_r r f) \<longleftrightarrow> ub r \<or> (\<exists>x. r = Inr x \<and> ub (f x))"
  by (cases r) auto

lemma ub_assert [simp]: "err \<noteq> undefined_behaviour \<Longrightarrow> \<not> ub (eos_assert b err)"
  by (simp add: eos_assert_def)

lemma ub_tables: "\<not> ub (tbl_create key r rows)" "\<not> ub (tbl_get key k rows)"
  by (auto simp: tbl_create_def tbl_get_def split: option.split)

lemma ub_modify_usage: "(\<And>u. \<not> ub (f u)) \<Longrightarrow> \<not> ub (modify_usage a f db)"
  by (auto simp: modify_usage_def ub_bind ub_tables split: option.split)

lemma ub_pending: "- (2 ^ 63) < n \<Longrightarrow> \<not> ub (add_pending_ram_usage a n db)"
  using ub_modify_usage by (auto simp: add_pending_ram_usage_def ub_bind ub_tables int64_bounds)

lemma ub_require: "\<not> ub (require_authorization a auths ctx)"
  by (simp add: require_authorization_def split: option.split)

lemma ub_bill: "- (2 ^ 63) < n \<Longrightarrow> \<not> ub (update_db_usage e who n d)"
  using ub_pending [of n] by (auto simp: update_db_usage_def ub_bind ub_require add_ram_usage_def trx_add_ram_usage_def Let_def split: if_splits)

lemma ub_cache_get:
  assumes "cache_ok rid tab rows c" "tbl_unique rid rows"
  shows "\<not> ub (cache_get rid it c rows)"
proof
  assume u: "ub (cache_get rid it c rows)"
  obtain obj where o: "0 \<le> it" "nat it < length (iterator_to_object c)" "iterator_to_object c ! nat it = Some obj" "tbl_find rid obj rows = None"
    using u by (auto simp: cache_get_def deref_def ub_bind result_simps)
  then have "object_to_iterator c obj = Some (nat it)" using assms(1) by (simp add: cache_ok_def)
  then obtain r where "r \<in> set rows" "rid r = obj" using assms(1) unfolding cache_ok_def by blast
  then show False using o(4) unfolding tbl_find_None by blast
qed


context ordered_view
begin

lemma ub_next_in: "cache_ok rid tab rows c \<Longrightarrow> tbl_unique rid rows \<Longrightarrow> \<not> ub (next_in rid tab prim key it rows c)"
  using ub_cache_get [of rid tab rows c it]
  by (auto simp: next_in_def ub_bind get_end_iterator_by_table_id_def split: option.splits if_splits)

lemma ub_previous_in:
  assumes "cache_ok rid tab rows c" "tbl_unique rid rows"
  shows "ub (previous_in rid tab prim key it rows tabs c) \<longleftrightarrow> bad_end it c tabs"
proof (cases "it < - 1")
  case True
  have f: "ub (find_table_by_end_iterator it c) \<longleftrightarrow> it \<le> - (2 ^ 31)" using True by (simp add: find_table_by_end_iterator_def end_iterator_to_index_def)
  have d: "ub (deref tab_id i tabs) \<longleftrightarrow> i \<notin> tab_id ` set tabs" for i by (auto simp: deref_def tbl_find_None)
  have t: "\<not> ub (case last_up_to key tab t rows of None \<Rightarrow> Inr x | Some r \<Rightarrow> if P r then Inr y else Inr (z r))" for t P x y z
    by (simp split: option.split)
  show ?thesis using True by (auto simp: previous_in_def ub_bind f d t stale_end_def bad_end_def)
next
  case False
  then show ?thesis using ub_cache_get [OF assms, of it] by (auto simp: previous_in_def ub_bind stale_end_def bad_end_def split: option.splits)
qed

end

lemma ub_drop: "i \<in> tab_id ` set (tables d) \<Longrightarrow> \<not> ub (drop_if_empty e i d)"
  by (auto simp: drop_if_empty_def ub_bind deref_def tbl_find_None remove_table_def ub_bill sizes_tables)

lemma ub_open: "\<not> ub (find_or_create_table e c s t who d)"
  by (simp add: find_or_create_table_def ub_bind ub_bill ub_tables Let_def split: option.split)

lemma bill_tables: "update_db_usage e who n d = Inr d' \<Longrightarrow> tables d' = tables d \<and> keyval_cache d' = keyval_cache d \<and> itr_cache d' = itr_cache d"
  by (auto simp: update_db_usage_def result_simps)

lemma down_members: "tab_id ` set (down i ts) = tab_id ` set ts"
  unfolding down_def using recount(1) by (metis list.set_map)

lemma ub_cache_remove: "\<not> ub (cache_remove it c)"
  by (simp add: cache_remove_def ub_bind split: option.split)

lemma ub_caches:
  assumes "db_ok d"
  shows "\<not> ub (cache_get kv_id it (keyval_cache d) (key_values d))" "\<not> ub (cache_get ix_id it (itr_cache d) (index_objects d))"
proof -
  have r: "cache_ok kv_id kv_tab (key_values d) (keyval_cache d)" "tbl_unique kv_id (key_values d)"
      "cache_ok ix_id ix_tab (index_objects d) (itr_cache d)" "tbl_unique ix_id (index_objects d)"
    using assms by (auto simp: db_ok_def rows_ok_def)
  show "\<not> ub (cache_get kv_id it (keyval_cache d) (key_values d))" by (rule ub_cache_get [OF r(1,2)])
  show "\<not> ub (cache_get ix_id it (itr_cache d) (index_objects d))" by (rule ub_cache_get [OF r(3,4)])
qed

lemma ub_update:
  assumes ok: "db_ok d" and size: "index_size e < 2 ^ 63"
  shows "\<not> ub (db_update_i64 e it who v d)" "\<not> ub (update e it who w d)"
proof -
  note c = ub_caches [OF ok, of it]
  show "\<not> ub (db_update_i64 e it who v d)"
  proof (cases "cache_get kv_id it (keyval_cache d) (key_values d)")
    case (Inr r)
    obtain t where t: "get_table (kv_tab r) (keyval_cache d) (tables d) = Inr t" and r: "r \<in> set (key_values d)" using iterator_row [OF ok Inr] by metis
    have "length (kv_value r) < 2 ^ 32" using ok r by (simp add: db_ok_def)
    then show ?thesis by (auto simp: db_update_i64_def Inr t ub_bind Let_def ub_bill sizes_tables split: if_splits)
  qed (use c(1) in \<open>simp add: db_update_i64_def\<close>)
  show "\<not> ub (update e it who w d)"
  proof (cases "cache_get ix_id it (itr_cache d) (index_objects d)")
    case (Inr r)
    obtain t where t: "get_table (ix_tab r) (itr_cache d) (tables d) = Inr t" using index_row [OF ok Inr] by metis
    then show ?thesis
      using size by (auto simp: update_def Inr t ub_bind Let_def ub_bill split: if_splits)
  qed (use c(2) in \<open>simp add: update_def\<close>)
qed

lemma ub_remove:
  assumes ok: "db_ok d" and size: "index_size e < 2 ^ 63"
  shows "\<not> ub (db_remove_i64 e it d)" "\<not> ub (remove e it d)"
proof -
  note c = ub_caches [OF ok, of it]
  show "\<not> ub (db_remove_i64 e it d)"
  proof (cases "cache_get kv_id it (keyval_cache d) (key_values d)")
    case (Inr r)
    obtain t where t: "get_table (kv_tab r) (keyval_cache d) (tables d) = Inr t" "tbl_find tab_id (kv_tab r) (tables d) = Some t"
      and r: "r \<in> set (key_values d)" using iterator_row [OF ok Inr] by metis
    have "length (kv_value r) < 2 ^ 32" using ok r by (simp add: db_ok_def)
    moreover have "tab_id t \<in> tab_id ` set (tables d)" using tbl_find_Some [OF t(2)] by blast
    ultimately show ?thesis
      by (auto simp: db_remove_i64_def Inr t ub_bind Let_def ub_bill sizes_tables count_down_eq down_members ub_cache_remove
        dest!: bill_tables ub_drop [THEN notE, rotated])
  qed (use c(1) in \<open>simp add: db_remove_i64_def\<close>)
  show "\<not> ub (remove e it d)"
  proof (cases "cache_get ix_id it (itr_cache d) (index_objects d)")
    case (Inr r)
    obtain t where t: "get_table (ix_tab r) (itr_cache d) (tables d) = Inr t" "tbl_find tab_id (ix_tab r) (tables d) = Some t"
      using index_row [OF ok Inr] by metis
    have "tab_id t \<in> tab_id ` set (tables d)" using tbl_find_Some [OF t(2)] by blast
    then show ?thesis using size
      by (auto simp: remove_def Inr t ub_bind Let_def ub_bill count_down_eq down_members ub_cache_remove
        dest!: bill_tables ub_drop [THEN notE, rotated])
  qed (use c(2) in \<open>simp add: remove_def\<close>)
qed

lemma ub_store: "\<not> ub (db_store_i64 e c s t who p v d)" "\<not> ub (store e s t who p w d)"
  by (auto simp: db_store_i64_def store_def ub_bind ub_open ub_tables ub_bill Let_def split_beta)


section \<open>The contract of the tables\<close>

text \<open>C5. Refinement: an operation of a contract on its tables acts on what the contract sees (for every
  table a map from primary keys to payer and value, and the same for the secondary index) exactly as
  the specification on maps says: a store or update writes the named row and nothing else, a removal
  erases it, and finding and stepping change nothing. Tables of other accounts never change.\<close>

theorem contract_tables_refine_maps:
  assumes "db_ok d" "ram_ok d" and "index_size e < 2 ^ 63" and "row_count d + 1 < 2 ^ 32" and "op_fits op1"
    and "apply_op e op1 d = Inr d'"
  shows "table_view d' = table_spec e op1 (row_at d) (table_view d) \<and> index_view d' = index_spec e op1 (index_row_at d) (index_view d)
    \<and> foreign_same e (table_view d) (table_view d') \<and> foreign_same e (index_view d) (index_view d')"
  using apply_op_step_ok [OF assms] unfolding step_ok_def by blast

text \<open>C13. Any sequence of table operations, by any receivers, keeps the database consistent (row counts of
  the tables, uniqueness of keys, iterator caches that name existing rows, no empty table left) and
  changes each account's billed RAM by exactly the change of what its rows and tables cost.\<close>

theorem contract_tables_stay_consistent:
  assumes "db_ok d" "ram_ok d" and "index_size e < 2 ^ 63" and "ops_fit (index_size e) ops" and "row_count d + length ops < 2 ^ 32"
    and "apply_ops ops d = Inr d'"
  shows "db_ok d' \<and> (\<forall>a. ram d' a - ram d a = cost e d' a - cost e d a)"
  using apply_ops_invariant [OF assms] by (simp add: billed_def)

text \<open>C14. In a consistent database a table operation has undefined behaviour in two cases only, and then
  always: stepping back from an end iterator whose table has been removed since (a dangling pointer is read), and
  stepping back from the least \<open>int\<close> (its negation overflows).\<close>

theorem table_operation_undefined_iff:
  assumes ok: "db_ok d" and size: "index_size e < 2 ^ 63"
  shows "apply_op e op1 d = Inl undefined_behaviour \<longleftrightarrow> steps_from_bad_end op1 d"
proof -
  have r: "cache_ok kv_id kv_tab (key_values d) (keyval_cache d)" "tbl_unique kv_id (key_values d)"
      "cache_ok ix_id ix_tab (index_objects d) (itr_cache d)" "tbl_unique ix_id (index_objects d)"
    using ok by (auto simp: db_ok_def rows_ok_def)
  note steps = kv.ub_next_in [OF r(1,2)] kv.ub_previous_in [OF r(1,2)] ixp.ub_next_in [OF r(3,4)] ixp.ub_previous_in [OF r(3,4)]
    ixs.ub_next_in [OF r(3,4)] ixs.ub_previous_in [OF r(3,4)]
  show ?thesis
    by (cases op1) (auto simp: ub_bind ub_store ub_update [OF ok size] ub_remove [OF ok size] steps split_beta
      db_next_i64_def db_previous_i64_def next_primary_def previous_primary_def next_secondary_def previous_secondary_def)
qed

text \<open>C20. Iteration follows the primary keys: from a row, next and previous succeed and give the row with the
  next larger or smaller key of the same table, the end of the table after the last row and -1 before
  the first; a lower bound gives the first row at or after the key, or the end of the table.\<close>

theorem table_iteration_in_key_order:
  assumes "db_ok d" and "points d it (c, s, t) p"
  shows "(\<exists>it' q d'. db_next_i64 it d = Inr (it', q, d') \<and> same_but_cache d d'
      \<and> (case q of Some p' \<Rightarrow> points d' it' (c, s, t) p' \<and> p < p' \<and> p' \<in> dom (table_view d (c, s, t))
               \<and> (\<forall>x\<in>dom (table_view d (c, s, t)). p < x \<longrightarrow> p' \<le> x)
         | None \<Rightarrow> at_end d' it' (c, s, t) \<and> (\<forall>x\<in>dom (table_view d (c, s, t)). x \<le> p)))
    \<and> (\<exists>it' q d'. db_previous_i64 it d = Inr (it', q, d') \<and> same_but_cache d d'
      \<and> (case q of Some p' \<Rightarrow> points d' it' (c, s, t) p' \<and> p' < p \<and> p' \<in> dom (table_view d (c, s, t))
               \<and> (\<forall>x\<in>dom (table_view d (c, s, t)). x < p \<longrightarrow> x \<le> p')
         | None \<Rightarrow> it' = - 1 \<and> (\<forall>x\<in>dom (table_view d (c, s, t)). p \<le> x)))
    \<and> (case db_lowerbound_i64 c s t l d of (it', d') \<Rightarrow> found_first d d' it' (c, s, t) (\<lambda>y. l \<le> y))"
  using db_next_spec [OF assms] db_previous_spec [OF assms] db_lowerbound_spec [OF assms(1), of c s t l]
  by (intro conjI) (auto split: prod.split)

text \<open>A database with one account, and a run over it.\<close>

definition demo_db :: "(nat, nat, nat) contract_db" where
  "demo_db = \<lparr>base = demo_context, tables = [], next_table_id = 0, key_values = [], next_kv_id = 0, keyval_cache = empty_cache,
     index_objects = [], next_index_id = 0, itr_cache = empty_cache\<rparr>"

definition demo_exec :: exec_env where
  "demo_exec = \<lparr>receiver = 7, act_code = 7, act_auths = [permission_level 7 active_name], is_privileged = False,
     ram_billing_in_notify_allowed = False, index_size = index64_object_size\<rparr>"

definition demo_ops :: "(exec_env \<times> nat table_op) list" where
  "demo_ops = [(demo_exec, Begin), (demo_exec, Store 1 2 7 5 [1, 2]), (demo_exec, Index_store 1 3 7 5 42), (demo_exec, Store 1 2 7 3 [9]),
     (demo_exec, Remove 1), (demo_exec, Update 0 0 [4, 4, 4])]"

lemma demo_db_ok: "db_ok demo_db" "ram_ok demo_db" "index_size demo_exec < 2 ^ 63" "ops_fit (index_size demo_exec) demo_ops" "row_count demo_db = 0"
  by (simp_all add: db_ok_def demo_db_def tabs_ok_def refs_def rows_ok_def tbl_unique_def cache_ok_def empty_cache_def
    demo_exec_def index64_object_size_def billable_size_v_def ops_fit_def demo_ops_def row_count_def
    demo_context_def ram_table_ok_def)


lemmas table_run = demo_ops_def demo_db_def demo_exec_def demo_context_def empty_resource_db_def db_store_i64_def db_update_i64_def db_remove_i64_def store_def
  find_or_create_table_def update_db_usage_def count_up_def count_down_def drop_if_empty_def deref_def remove_table_def
  cache_table_def cache_add_def cache_get_def cache_remove_def get_table_def empty_cache_def index_to_end_iterator_def
  require_authorization_def add_ram_usage_def trx_add_ram_usage_def add_pending_ram_usage_def modify_usage_def
  tbl_get_def tbl_find_def tbl_create_def tbl_modify_def tbl_remove_def table_key_def scope_primary_def by_primary_def
  int_to_u64_def u32_def Let_def index64_object_size_def billable_size_v_def sizes_tables int64_bounds

lemma demo_table_run:
  "\<exists>d. apply_ops demo_ops demo_db = Inr d \<and> table_view d (7, 1, 2) 5 = Some (7, [4, 4, 4]) \<and> table_view d (7, 1, 2) 3 = None
     \<and> index_view d (7, 1, 3) 5 = Some (7, 42) \<and> ram d 7 - ram demo_db 7 = 112 + 115 + 112 + 128 \<and> points d 0 (7, 1, 2) 5"
  by (simp add: table_run table_view_def index_view_def view_of_def table_ids_def ram_of_def points_def)


theorem contract_tables_refine_maps_witness:
  "\<exists>d. apply_op demo_exec (Store 1 2 7 5 [1, 2]) demo_db = Inr d \<and> table_view d (7, 1, 2) 5 = Some (7, [1, 2])"
proof -
  obtain d where d: "apply_op demo_exec (Store 1 2 7 5 [1, 2]) demo_db = Inr d" by (simp add: table_run)
  from contract_tables_refine_maps [OF demo_db_ok(1-3) _ _ d] demo_db_ok(5) d show ?thesis
    by (auto simp: put_row_def demo_exec_def)
qed

theorem contract_tables_stay_consistent_witness:
  "\<exists>d. apply_ops demo_ops demo_db = Inr d \<and> db_ok d \<and> ram d 7 - ram demo_db 7 = cost demo_exec d 7"
proof -
  obtain d where d: "apply_ops demo_ops demo_db = Inr d" using demo_table_run by blast
  have "cost demo_exec demo_db 7 = 0" by (simp add: cost_def demo_db_def)
  moreover have "row_count demo_db + length demo_ops < 2 ^ 32" using demo_db_ok(5) by (simp add: demo_ops_def)
  ultimately show ?thesis using contract_tables_stay_consistent [OF demo_db_ok(1-4) _ d] d by auto
qed

theorem table_iteration_in_key_order_witness:
  "\<exists>d. apply_ops demo_ops demo_db = Inr d \<and> (\<exists>it q d'. db_next_i64 0 d = Inr (it, q, d') \<and> same_but_cache d d')"
proof -
  obtain d where d: "apply_ops demo_ops demo_db = Inr d" "points d 0 (7, 1, 2) 5" using demo_table_run by blast
  have "row_count demo_db + length demo_ops < 2 ^ 32" using demo_db_ok(5) by (simp add: demo_ops_def)
  then have ok: "db_ok d" using apply_ops_invariant [OF demo_db_ok(1-4) _ d(1)] by blast
  show ?thesis using table_iteration_in_key_order [OF ok d(2)] d(1) by blast
qed

text \<open>The end iterator of a table outlives it: a contract that removes the last row and steps back from the end.\<close>

definition stale_ops :: "(exec_env \<times> nat table_op) list" where
  "stale_ops = [(demo_exec, Store 1 2 7 5 [1, 2]), (demo_exec, End 7 1 2), (demo_exec, Remove 0)]"

theorem table_operation_undefined_iff_witness:
  "\<exists>d. apply_ops stale_ops demo_db = Inr d \<and> apply_op demo_exec (Previous (- 2)) d = Inl undefined_behaviour
     \<and> apply_op demo_exec (Previous (- (2 ^ 31))) d = Inl undefined_behaviour
     \<and> apply_op demo_exec (Next (- 2)) d \<noteq> Inl undefined_behaviour"
proof -
  obtain d where d: "apply_ops stale_ops demo_db = Inr d" "steps_from_bad_end (Previous (- 2)) d"
    by (simp add: table_run stale_ops_def db_end_i64_def find_table_def bad_end_def stale_end_def find_table_by_end_iterator_def end_iterator_to_index_def)
  have "ops_fit (index_size demo_exec) stale_ops" "row_count demo_db + length stale_ops < 2 ^ 32"
    using demo_db_ok(5) by (simp_all add: ops_fit_def stale_ops_def)
  then have ok: "db_ok d" using apply_ops_invariant [OF demo_db_ok(1-3) _ _ d(1)] by blast
  show ?thesis
    using table_operation_undefined_iff [OF ok demo_db_ok(3), of "Previous (- 2)"]
      table_operation_undefined_iff [OF ok demo_db_ok(3), of "Previous (- (2 ^ 31))"]
      table_operation_undefined_iff [OF ok demo_db_ok(3), of "Next (- 2)"] d by (auto simp: bad_end_def)
qed

end
