(* ===== verification/ForkDb.thy ===== *)
theory ForkDb
  imports HeaderState Tables "HOL-Library.Product_Lexorder"
begin

text \<open>
  The fork database (\<^verbatim>\<open>libraries/chain/fork_database.cpp\<close>): the block states that are not yet
  irreversible, with the best one as head.  A \<open>block_state_ptr\<close> is the id of the block; the object
  lives in \<open>objects\<close> as long as somebody may hold the pointer.  The multi-index container is the list of
  ids in the order of insertion (which is the order inside an equal range of \<open>by_prev\<close>) and the two
  ordered sequences \<open>by_block_num\<close> and \<open>by_lib_block_num\<close>; an element goes behind its equals, and
  is moved by \<open>modify\<close> only when it is out of place.  Blocks announced as irreversible are logged.
\<close>

section \<open>Block states\<close>

text \<open>A transaction kept with a block is its signed id, the key under which it is taken back when the block is popped.\<close>

record ('k, 's, 'b) block_state = "('k, 's) block_header_state" +
  blk :: "'b option"
  validated :: bool
  in_current_chain :: bool
  trxs :: "sha256 list"

definition prev :: "('k, 's, 'b) block_state \<Rightarrow> block_id_type" where
  "prev b = previous (header b)"

text \<open>\<open>block_state(prev, b, trust)\<close>; \<open>hdr\<close> is the signed header a block starts with.\<close>

definition block_state_next :: "('k, 's) crypto \<Rightarrow> ('b \<Rightarrow> ('k, 's) signed_block_header) \<Rightarrow> ('k, 's, 'b) block_state \<Rightarrow> 'b \<Rightarrow> bool \<Rightarrow>
    ('k, 's, 'b) block_state result" where
  "block_state_next c hdr p b trust =
     bind_r (next_state c (hdr b) trust (block_header_state.truncate p)) (\<lambda>s.
     Inr (block_header_state.extend s \<lparr>blk = Some b, validated = False, in_current_chain = False, trxs = []\<rparr>))"

section \<open>The container\<close>

record ('k, 's, 'b) fork_db =
  objects :: "block_id_type \<rightharpoonup> ('k, 's, 'b) block_state"
  index :: "block_id_type list"
  by_block_num :: "block_id_type list"
  by_lib_block_num :: "block_id_type list"
  head_ptr :: "block_id_type option"
  irreversible_log :: "block_id_type list"

definition empty_fork_db :: "('k, 's, 'b) fork_db" where
  "empty_fork_db = \<lparr>objects = Map.empty, index = [], by_block_num = [], by_lib_block_num = [], head_ptr = None, irreversible_log = []\<rparr>"

definition obj :: "('k, 's, 'b) fork_db \<Rightarrow> block_id_type \<Rightarrow> ('k, 's, 'b) block_state" where
  "obj db i = the (objects db i)"

definition num_key :: "('k, 's, 'b) block_state \<Rightarrow> nat \<times> bool" where
  "num_key b = (block_num b, \<not> in_current_chain b)"

definition lib_key :: "('k, 's, 'b) block_state \<Rightarrow> int \<times> int \<times> int" where
  "lib_key b = (- int (dpos_irreversible_blocknum b), - int (bft_irreversible_blocknum b), - int (block_num b))"

definition link :: "(block_id_type \<Rightarrow> 'o::linorder) \<Rightarrow> block_id_type \<Rightarrow> block_id_type list \<Rightarrow> block_id_type list" where
  "link key i xs = takeWhile (\<lambda>j. key j \<le> key i) xs @ i # dropWhile (\<lambda>j. key j \<le> key i) xs"

definition relink :: "(block_id_type \<Rightarrow> 'o::linorder) \<Rightarrow> block_id_type \<Rightarrow> block_id_type list \<Rightarrow> block_id_type list" where
  "relink key i xs = (if sorted (map key xs) then xs else link key i (remove1 i xs))"

definition insert_block :: "('k, 's, 'b) block_state \<Rightarrow> ('k, 's, 'b) fork_db \<Rightarrow> bool \<times> ('k, 's, 'b) fork_db" where
  "insert_block s db =
     (if bs_id s \<in> set (index db) then (False, db)
      else
        let db = db\<lparr>objects := (objects db)(bs_id s \<mapsto> s)\<rparr> in
        (True, db\<lparr>index := index db @ [bs_id s],
           by_block_num := link (num_key \<circ> obj db) (bs_id s) (by_block_num db),
           by_lib_block_num := link (lib_key \<circ> obj db) (bs_id s) (by_lib_block_num db)\<rparr>))"

definition poke :: "block_id_type \<Rightarrow> (('k, 's, 'b) block_state \<Rightarrow> ('k, 's, 'b) block_state) \<Rightarrow> ('k, 's, 'b) fork_db \<Rightarrow> ('k, 's, 'b) fork_db" where
  "poke i f db = db\<lparr>objects := (objects db)(i \<mapsto> f (obj db i))\<rparr>"

definition modify_block :: "block_id_type \<Rightarrow> (('k, 's, 'b) block_state \<Rightarrow> ('k, 's, 'b) block_state) \<Rightarrow> ('k, 's, 'b) fork_db \<Rightarrow> ('k, 's, 'b) fork_db" where
  "modify_block i f db =
     (let db = poke i f db in
      db\<lparr>by_block_num := relink (num_key \<circ> obj db) i (by_block_num db),
         by_lib_block_num := relink (lib_key \<circ> obj db) i (by_lib_block_num db)\<rparr>)"

definition erase_block :: "block_id_type \<Rightarrow> ('k, 's, 'b) fork_db \<Rightarrow> ('k, 's, 'b) fork_db" where
  "erase_block i db = db\<lparr>index := remove1 i (index db), by_block_num := remove1 i (by_block_num db),
     by_lib_block_num := remove1 i (by_lib_block_num db)\<rparr>"

text \<open>Reading through an iterator or pointer of the container.\<close>

definition at_iter :: "block_id_type option \<Rightarrow> ('k, 's, 'b) fork_db \<Rightarrow> ('k, 's, 'b) block_state result" where
  "at_iter it db = option_to_result undefined_behaviour
     (case it of None \<Rightarrow> None | Some i \<Rightarrow> if i \<in> set (index db) then objects db i else None)"

definition first :: "block_id_type list \<Rightarrow> block_id_type option" where
  "first xs = (case xs of [] \<Rightarrow> None | i # _ \<Rightarrow> Some i)"

definition children :: "block_id_type \<Rightarrow> ('k, 's, 'b) fork_db \<Rightarrow> block_id_type list" where
  "children i db = filter (\<lambda>j. prev (obj db j) = i) (index db)"

section \<open>Operations\<close>

definition get_block :: "block_id_type \<Rightarrow> ('k, 's, 'b) fork_db \<Rightarrow> ('k, 's, 'b) block_state option" where
  "get_block i db = (if i \<in> set (index db) then objects db i else None)"

definition get_block_in_current_chain_by_num :: "nat \<Rightarrow> ('k, 's, 'b) fork_db \<Rightarrow> ('k, 's, 'b) block_state option" where
  "get_block_in_current_chain_by_num n db =
     (case find (\<lambda>j. n \<le> block_num (obj db j)) (by_block_num db) of
        None \<Rightarrow> None
      | Some i \<Rightarrow> if block_num (obj db i) \<noteq> n \<or> \<not> in_current_chain (obj db i) then None else Some (obj db i))"

text \<open>The state is inserted before its id is checked, and stays when the check throws.\<close>

definition fork_set :: "('k, 's) crypto \<Rightarrow> ('k, 's, 'b) block_state \<Rightarrow> (('k, 's, 'b) fork_db, unit) act" where
  "fork_set c s =
     bind_s (\<lambda>db. case insert_block s db of (inserted, db) \<Rightarrow> (Inr inserted, db)) (\<lambda>inserted.
     then_s (require (bs_id s = header_id c (block_header.truncate (header s))) fork_database_exception) (
     then_s (require inserted fork_database_exception) (
     updates (\<lambda>db. case head_ptr db of
         None \<Rightarrow> db\<lparr>head_ptr := Some (bs_id s)\<rparr>
       | Some h \<Rightarrow> if block_num (obj db h) < block_num s then db\<lparr>head_ptr := Some (bs_id s)\<rparr> else db))))"

text \<open>\<open>my->head = *my->index.get<by_lib_block_num>().begin()\<close>\<close>

definition take_best_head :: "('k, 's, 'b) fork_db \<Rightarrow> ('k, 's, 'b) fork_db result" where
  "take_best_head db = bind_r (at_iter (first (by_lib_block_num db)) db) (\<lambda>b. Inr (db\<lparr>head_ptr := Some (bs_id b)\<rparr>))"

text \<open>The queue of \<open>remove\<close> from its next element on.\<close>

function remove_loop :: "block_id_type list \<Rightarrow> ('k, 's, 'b) fork_db \<Rightarrow> ('k, 's, 'b) fork_db" where
  "remove_loop [] db = db"
| "remove_loop (i # remove_queue) db = (let db = erase_block i db in remove_loop (remove_queue @ children i db) db)"
  by pat_completeness auto
termination
proof (relation "measures [\<lambda>(q, db). length (index db), \<lambda>(q, db). length (filter (\<lambda>i. i \<notin> set (index db)) q)]", goal_cases)
  case 1
  show ?case by simp
next
  case (2 i q db x)
  then show ?case
  proof (cases "i \<in> set (index db)")
    case True
    then have "length (index x) < length (index db)" using 2 length_pos_if_in_set [OF True] by (simp add: erase_block_def length_remove1)
    then show ?thesis by simp
  next
    case False
    then have "index x = index db" using 2 by (simp add: erase_block_def remove1_idem)
    moreover have "filter (\<lambda>i. i \<notin> set (index x)) (children i x) = []" by (simp add: children_def filter_empty_conv)
    ultimately show ?thesis using False by simp
  qed
qed

definition remove :: "block_id_type \<Rightarrow> ('k, 's, 'b) fork_db \<Rightarrow> ('k, 's, 'b) fork_db result" where
  "remove i db = take_best_head (remove_loop [i] db)"

definition set_validity :: "block_id_type \<Rightarrow> bool \<Rightarrow> ('k, 's, 'b) fork_db \<Rightarrow> ('k, 's, 'b) fork_db result" where
  "set_validity h valid db = (if \<not> valid then remove h db else Inr (poke h (\<lambda>b. b\<lparr>validated := True\<rparr>) db))"

definition mark_in_current_chain :: "block_id_type \<Rightarrow> bool \<Rightarrow> ('k, 's, 'b) fork_db \<Rightarrow> ('k, 's, 'b) fork_db result" where
  "mark_in_current_chain h flag db =
     (if in_current_chain (obj db h) = flag then Inr db
      else
        bind_r (eos_assert (h \<in> set (index db)) fork_db_block_not_found) (\<lambda>_.
        Inr (modify_block h (\<lambda>b. b\<lparr>in_current_chain := flag\<rparr>) db)))"


text \<open>
  The second loop of \<open>prune\<close>: \<open>nitr\<close> is moved on before the block it stood on is removed with its
  descendants, and then read, also when its own block was among them.
\<close>

definition after_in :: "block_id_type \<Rightarrow> block_id_type list \<Rightarrow> block_id_type option" where
  "after_in i xs = first (drop 1 (dropWhile (\<lambda>j. j \<noteq> i) xs))"

lemma remove_loop_length:
  "length (index (remove_loop q db)) \<le> length (index db)"
  "i \<in> set q \<Longrightarrow> i \<in> set (index db) \<Longrightarrow> length (index (remove_loop q db)) < length (index db)"
proof (induction q db rule: remove_loop.induct)
  case (2 j q db)
  let ?db = "erase_block j db"
  have le: "length (index ?db) \<le> length (index db)" by (simp add: erase_block_def length_remove1)
  { case 1
    then show ?case using 2(1) [OF refl] le by (simp add: Let_def)
  next
    case 2
    show ?case
    proof (cases "j \<in> set (index db)")
      case True
      then have "length (index ?db) < length (index db)" using length_pos_if_in_set [OF True] by (simp add: erase_block_def length_remove1)
      then show ?thesis using \<open>\<And>x. x = ?db \<Longrightarrow> length (index (remove_loop (q @ children j x) x)) \<le> length (index x)\<close> [OF refl] by (simp add: Let_def)
    next
      case False
      then have "index ?db = index db" by (simp add: erase_block_def remove1_idem)
      then show ?thesis using 2 False \<open>\<And>x. x = ?db \<Longrightarrow> i \<in> set (q @ children j x) \<Longrightarrow> i \<in> set (index x) \<Longrightarrow>
        length (index (remove_loop (q @ children j x) x)) < length (index x)\<close> [OF refl] by (auto simp: Let_def)
    qed
  }
qed simp_all

lemma remove_length: "remove i db = Inr db' \<Longrightarrow> i \<in> set (index db) \<Longrightarrow> length (index db') < length (index db)"
  using remove_loop_length(2) [of i "[i]" db] by (auto simp: remove_def take_best_head_def result_simps)

function prune_rest :: "nat \<Rightarrow> block_id_type option \<Rightarrow> ('k, 's, 'b) fork_db \<Rightarrow> ('k, 's, 'b) fork_db result" where
  "prune_rest num None db = Inr db"
| "prune_rest num (Some i) db =
     (if i \<notin> set (index db) then Inl undefined_behaviour
      else if block_num (obj db i) \<noteq> num then Inr db
      else
        let nitr = after_in i (by_block_num db) in
        case remove i db of Inl e \<Rightarrow> Inl e | Inr db \<Rightarrow> prune_rest num nitr db)"
  by pat_completeness auto
termination
  by (relation "measure (\<lambda>(num, nitr, db). length (index db))") (auto simp: remove_length)

text \<open>\<open>prune(h)\<close> from line 255 on.\<close>

definition prune_level :: "block_id_type \<Rightarrow> ('k, 's, 'b) fork_db \<Rightarrow> ('k, 's, 'b) fork_db result" where
  "prune_level h db =
     (let num = block_num (obj db h);
          db = (if h \<in> set (index db) then erase_block h (db\<lparr>irreversible_log := irreversible_log db @ [h]\<rparr>) else db)
      in prune_rest num (find (\<lambda>j. num \<le> block_num (obj db j)) (by_block_num db)) db)"

lemma prune_rest_length: "prune_rest num nitr db = Inr db' \<Longrightarrow> length (index db') \<le> length (index db)"
proof (induction num nitr db rule: prune_rest.induct)
  case (2 num i db)
  then show ?case using remove_length [of i db] by (fastforce split: if_splits sum.splits simp: Let_def)
qed simp

lemma prune_level_length:
  assumes "prune_level h db = Inr db'" and "h \<in> set (index db)"
  shows "length (index db') < length (index db)"
proof -
  let ?db = "erase_block h (db\<lparr>irreversible_log := irreversible_log db @ [h]\<rparr>)"
  have "length (index ?db) < length (index db)" using length_pos_if_in_set [OF assms(2)] assms(2) by (simp add: erase_block_def length_remove1)
  then show ?thesis using assms prune_rest_length by (fastforce simp: prune_level_def Let_def)
qed

text \<open>
  The first loop of \<open>prune\<close>. It calls \<open>prune\<close> on the first block by number, whose own first
  loop then ends at once (lemma \<open>prune_loop_unfold\<close> gives the equation as the code has it).
\<close>

function prune_loop :: "nat \<Rightarrow> ('k, 's, 'b) fork_db \<Rightarrow> ('k, 's, 'b) fork_db result" where
  "prune_loop num db =
     (case first (by_block_num db) of
        None \<Rightarrow> Inr db
      | Some i \<Rightarrow>
          if i \<notin> set (index db) then Inl undefined_behaviour
          else if block_num (obj db i) < num then
            case prune_level i db of Inl e \<Rightarrow> Inl e | Inr db \<Rightarrow> prune_loop num db
          else Inr db)"
  by pat_completeness auto
termination
  by (relation "measure (\<lambda>(num, db). length (index db))") (auto simp: prune_level_length)

declare prune_loop.simps [simp del]

definition prune :: "block_id_type \<Rightarrow> ('k, 's, 'b) fork_db \<Rightarrow> ('k, 's, 'b) fork_db result" where
  "prune h db = bind_r (prune_loop (block_num (obj db h)) db) (prune_level h)"


definition add_state :: "('k, 's, 'b) block_state \<Rightarrow> ('k, 's, 'b) fork_db \<Rightarrow> ('k, 's, 'b) fork_db result" where
  "add_state n db =
     (case insert_block n db of (inserted, db) \<Rightarrow>
     bind_r (eos_assert inserted fork_database_exception) (\<lambda>_.
     bind_r (take_best_head db) (\<lambda>db.
     bind_r (at_iter (head_ptr db) db) (\<lambda>h.
     let lib = dpos_irreversible_blocknum h in
     bind_r (at_iter (first (by_block_num db)) db) (\<lambda>oldest.
     if block_num oldest < lib then prune (bs_id oldest) db else Inr db)))))"

definition add_block :: "('k, 's) crypto \<Rightarrow> ('b \<Rightarrow> ('k, 's) signed_block_header) \<Rightarrow> 'b option \<Rightarrow> bool \<Rightarrow> ('k, 's, 'b) fork_db \<Rightarrow>
    (block_id_type \<times> ('k, 's, 'b) fork_db) result" where
  "add_block c hdr b trust db =
     bind_r (option_to_result fork_database_exception b) (\<lambda>b.
     bind_r (eos_assert (head_ptr db \<noteq> None) fork_db_block_not_found) (\<lambda>_.
     bind_r (eos_assert (get_block (header_id c (block_header.truncate (hdr b))) db = None) fork_database_exception) (\<lambda>_.
     bind_r (option_to_result unlinkable_block_exception (get_block (previous (hdr b)) db)) (\<lambda>prior.
     bind_r (block_state_next c hdr prior b trust) (\<lambda>n.
     bind_r (add_state n db) (\<lambda>db. Inr (bs_id n, db)))))))"

text \<open>
  \<open>fetch_branch_from\<close>: a block that is not there is a null pointer, which the loops read (also to
  build the message of the assertion that should report it).
\<close>

partial_function (option) walk_back :: "('k, 's, 'b) fork_db \<Rightarrow> nat \<Rightarrow> ('k, 's, 'b) block_state \<Rightarrow> ('k, 's, 'b) block_state list \<Rightarrow>
    (('k, 's, 'b) block_state \<times> ('k, 's, 'b) block_state list) result option" where
  "walk_back db n b acc =
     (if block_num b > n then
        case get_block (prev b) db of
          None \<Rightarrow> Some (Inl undefined_behaviour)
        | Some b' \<Rightarrow> walk_back db n b' (acc @ [b])
      else Some (Inr (b, acc)))"

partial_function (option) walk_both :: "('k, 's, 'b) fork_db \<Rightarrow> ('k, 's, 'b) block_state \<Rightarrow> ('k, 's, 'b) block_state \<Rightarrow>
    ('k, 's, 'b) block_state list \<Rightarrow> ('k, 's, 'b) block_state list \<Rightarrow> (('k, 's, 'b) block_state list \<times> ('k, 's, 'b) block_state list) result option" where
  "walk_both db b1 b2 acc1 acc2 =
     (if prev b1 \<noteq> prev b2 then
        case get_block (prev b1) db of
          None \<Rightarrow> Some (Inl undefined_behaviour)
        | Some b1' \<Rightarrow> (case get_block (prev b2) db of
              None \<Rightarrow> Some (Inl undefined_behaviour)
            | Some b2' \<Rightarrow> walk_both db b1' b2' (acc1 @ [b1]) (acc2 @ [b2]))
      else Some (Inr (acc1 @ [b1], acc2 @ [b2])))"

definition fetch_branch_from :: "block_id_type \<Rightarrow> block_id_type \<Rightarrow> ('k, 's, 'b) fork_db \<Rightarrow>
    (('k, 's, 'b) block_state list \<times> ('k, 's, 'b) block_state list) result option" where
  "fetch_branch_from first_id second_id db =
     (case (get_block first_id db, get_block second_id db) of
        (Some first_branch, Some second_branch) \<Rightarrow>
          (case walk_back db (block_num second_branch) first_branch [] of
             None \<Rightarrow> None
           | Some (Inl e) \<Rightarrow> Some (Inl e)
           | Some (Inr (first_branch, acc1)) \<Rightarrow>
               (case walk_back db (block_num first_branch) second_branch [] of
                  None \<Rightarrow> None
                | Some (Inl e) \<Rightarrow> Some (Inl e)
                | Some (Inr (second_branch, acc2)) \<Rightarrow> walk_both db first_branch second_branch acc1 acc2))
      | _ \<Rightarrow> Some (Inl undefined_behaviour))"

text \<open>One layer of \<open>set_bft_irreversible\<close>: the updated ids and the database.\<close>

fun raise_bft :: "nat \<Rightarrow> block_id_type list \<Rightarrow> ('k, 's, 'b) fork_db \<Rightarrow> block_id_type list \<times> ('k, 's, 'b) fork_db" where
  "raise_bft num [] db = ([], db)"
| "raise_bft num (j # js) db =
     (if bft_irreversible_blocknum (obj db j) < num then
        let (updated, db) = raise_bft num js (modify_block j (\<lambda>b. b\<lparr>bft_irreversible_blocknum := num\<rparr>) db) in (j # updated, db)
      else raise_bft num js db)"

fun bft_layer :: "nat \<Rightarrow> block_id_type list \<Rightarrow> ('k, 's, 'b) fork_db \<Rightarrow> block_id_type list \<times> ('k, 's, 'b) fork_db" where
  "bft_layer num [] db = ([], db)"
| "bft_layer num (i # layer) db =
     (let (up1, db) = raise_bft num (children i db) db;
          (up2, db) = bft_layer num layer db
      in (up1 @ up2, db))"

text \<open>The blocks whose mark is still below \<open>num\<close>.\<close>

definition below :: "nat \<Rightarrow> ('k, 's, 'b) fork_db \<Rightarrow> nat" where
  "below num db = length (filter (\<lambda>j. bft_irreversible_blocknum (obj db j) < num) (index db))"

lemma obj_modify: "obj (modify_block i f db) j = (if j = i then f (obj db i) else obj db j)"
  by (simp add: modify_block_def poke_def obj_def Let_def)

lemma modify_frame [simp]:
  "index (modify_block i f db) = index db" "head_ptr (modify_block i f db) = head_ptr db" "irreversible_log (modify_block i f db) = irreversible_log db"
  "dom (objects (modify_block i f db)) = insert i (dom (objects db))"
  by (auto simp: modify_block_def poke_def Let_def)

lemma below_modify:
  assumes "i \<in> set (index db)" "bft_irreversible_blocknum (obj db i) < num"
  shows "below num (modify_block i (\<lambda>b. b\<lparr>bft_irreversible_blocknum := num\<rparr>) db) < below num db"
proof -
  let ?P = "\<lambda>j. bft_irreversible_blocknum (obj db j) < num"
  have "filter (\<lambda>j. j \<noteq> i \<and> ?P j) (index db) = filter (\<lambda>j. j \<noteq> i) (filter ?P (index db))" by (simp add: conj_commute)
  moreover have "length (filter (\<lambda>j. j \<noteq> i) (filter ?P (index db))) < length (filter ?P (index db))"
    using assms by (intro length_filter_less [of i]) auto
  moreover have "(\<lambda>j. bft_irreversible_blocknum (obj (modify_block i (\<lambda>b. b\<lparr>bft_irreversible_blocknum := num\<rparr>) db) j) < num) = (\<lambda>j. j \<noteq> i \<and> ?P j)"
    by (auto simp: obj_modify)
  ultimately show ?thesis by (simp add: below_def)
qed

lemma raise_bft_below:
  assumes "raise_bft num js db = (up, db')" "set js \<subseteq> set (index db)"
  shows "index db' = index db \<and> below num db' + length up \<le> below num db"
  using assms
proof (induction js arbitrary: db up)
  case (Cons j js)
  show ?case
  proof (cases "bft_irreversible_blocknum (obj db j) < num")
    case True
    let ?db = "modify_block j (\<lambda>b. b\<lparr>bft_irreversible_blocknum := num\<rparr>) db"
    obtain up1 where r: "raise_bft num js ?db = (up1, db')" "up = j # up1" using Cons.prems(1) True by (auto split: prod.splits)
    have "below num ?db < below num db" using below_modify [OF _ True] Cons.prems(2) by auto
    then show ?thesis using Cons.IH [OF r(1)] Cons.prems(2) r(2) by simp
  next
    case False
    then show ?thesis using Cons by simp
  qed
qed simp

lemma bft_layer_below:
  "bft_layer num layer db = (up, db') \<Longrightarrow> index db' = index db \<and> below num db' + length up \<le> below num db"
proof (induction layer arbitrary: db up)
  case (Cons i layer)
  obtain up1 db1 up2 where r: "raise_bft num (children i db) db = (up1, db1)" "bft_layer num layer db1 = (up2, db')" "up = up1 @ up2"
    using Cons.prems by (auto split: prod.splits)
  have "set (children i db) \<subseteq> set (index db)" by (auto simp: children_def)
  from raise_bft_below [OF r(1) this] Cons.IH [OF r(2)] r(3) show ?case by simp
qed simp

function bft_loop :: "nat \<Rightarrow> block_id_type list \<Rightarrow> ('k, 's, 'b) fork_db \<Rightarrow> ('k, 's, 'b) fork_db" where
  "bft_loop num queue db =
     (if queue = [] then db else case bft_layer num queue db of (queue, db) \<Rightarrow> bft_loop num queue db)"
  by pat_completeness auto
termination
proof (relation "measures [\<lambda>(num, queue, db). below num db, \<lambda>(num, queue, db). length queue]", goal_cases)
  case (2 num queue db up db')
  then have r: "bft_layer num queue db = (up, db')" "queue \<noteq> []" by auto
  from bft_layer_below [OF r(1)] r(2) show ?case by (cases up) auto
qed simp

declare bft_loop.simps [simp del]

definition set_bft_irreversible :: "block_id_type \<Rightarrow> ('k, 's, 'b) fork_db \<Rightarrow> ('k, 's, 'b) fork_db result" where
  "set_bft_irreversible i db =
     bind_r (at_iter (Some i) db) (\<lambda>b.
     Inr (bft_loop (block_num b) [i] (modify_block i (\<lambda>b. b\<lparr>bft_irreversible_blocknum := block_num b\<rparr>) db)))"

definition add_header_confirmation :: "('k, 's) crypto \<Rightarrow> 's header_confirmation \<Rightarrow> ('k, 's, 'b) fork_db \<Rightarrow> ('k, 's, 'b) fork_db result" where
  "add_header_confirmation c conf db =
     bind_r (option_to_result fork_db_block_not_found (get_block (conf_block_id conf) db)) (\<lambda>b.
     bind_r (add_confirmation c conf (block_header_state.truncate b)) (\<lambda>s.
     let db = poke (conf_block_id conf) (\<lambda>b. b\<lparr>confirmations := confirmations s\<rparr>) db;
         b = obj db (conf_block_id conf)
     in if bft_irreversible_blocknum b < block_num b \<and> length (confirmations b) \<ge> length (producers (active_schedule b)) * 2 div 3 + 1
        then set_bft_irreversible (conf_block_id conf) db else Inr db))"

section \<open>Closing and opening\<close>

text \<open>
  What \<open>close\<close> writes to the file (\<open>order\<close> is the order in which the hashed index is walked) and what
  the constructor reads back; packing and unpacking of a block state is taken to be faithful.
\<close>

definition saved :: "block_id_type list \<Rightarrow> ('k, 's, 'b) fork_db \<Rightarrow> ('k, 's, 'b) block_state list \<times> block_id_type" where
  "saved order db = (map (obj db) order, case head_ptr db of None \<Rightarrow> null_digest | Some h \<Rightarrow> h)"

definition close :: "('k, 's, 'b) fork_db \<Rightarrow> ('k, 's, 'b) fork_db result" where
  "close db =
     (if length (index db) = 0 then Inr db
      else
        bind_r (option_to_result undefined_behaviour (head_ptr db)) (\<lambda>h.
        let lib = dpos_irreversible_blocknum (obj db h) in
        bind_r (at_iter (first (by_block_num db)) db) (\<lambda>oldest.
        bind_r (if block_num oldest \<le> lib then prune (bs_id oldest) db else Inr db) (\<lambda>db.
        Inr (db\<lparr>index := [], by_block_num := [], by_lib_block_num := []\<rparr>)))))"

definition open_saved :: "('k, 's) crypto \<Rightarrow> ('k, 's, 'b) block_state list \<times> block_id_type \<Rightarrow> (('k, 's, 'b) fork_db, unit) act" where
  "open_saved c file =
     then_s (for_each (fork_set c) (fst file)) (
     updates (\<lambda>db. db\<lparr>head_ptr := map_option bs_id (get_block (snd file) db)\<rparr>))"


section \<open>The ordered sequences\<close>

definition seq_ok :: "(block_id_type \<Rightarrow> 'o::linorder) \<Rightarrow> block_id_type set \<Rightarrow> block_id_type list \<Rightarrow> bool" where
  "seq_ok key A xs \<longleftrightarrow> distinct xs \<and> set xs = A \<and> sorted (map key xs)"

lemma seq_ok_cong: "(\<And>i. i \<in> A \<Longrightarrow> key i = key' i) \<Longrightarrow> seq_ok key A xs \<Longrightarrow> seq_ok key' A xs"
  unfolding seq_ok_def by (metis list.map_cong0)

lemma sorted_join: "sorted xs \<Longrightarrow> sorted ys \<Longrightarrow> (\<forall>x\<in>set xs. x \<le> k) \<Longrightarrow> (\<forall>y\<in>set ys. k \<le> y) \<Longrightarrow> sorted (xs @ k # ys)"
  by (fastforce simp: sorted_append)

lemma link_ok:
  assumes ok: "seq_ok key A xs" and i: "i \<notin> A"
  shows "seq_ok key (insert i A) (link key i xs)"
proof -
  let ?P = "\<lambda>j. key j \<le> key i"
  have x: "distinct xs" "set xs = A" "sorted (map key xs)" using ok by (auto simp: seq_ok_def)
  have split: "xs = takeWhile ?P xs @ dropWhile ?P xs" by simp
  have s: "sorted (map key (takeWhile ?P xs))" "sorted (map key (dropWhile ?P xs))"
    using x(3) by (metis map_append sorted_append split)+
  have le: "\<forall>j\<in>set (takeWhile ?P xs). key j \<le> key i" by (meson set_takeWhileD)
  have ge: "\<forall>j\<in>set (dropWhile ?P xs). key i \<le> key j"
  proof (cases "dropWhile ?P xs")
    case Nil
    then show ?thesis by (metis empty_iff empty_set)
  next
    case (Cons y ys)
    then have "key i < key y" using hd_dropWhile [of ?P xs] by (simp add: not_le)
    moreover have "\<forall>l\<in>set (y # ys). key y \<le> key l" using s(2) unfolding Cons by auto
    ultimately show ?thesis unfolding Cons by fastforce
  qed
  have "set (takeWhile ?P xs @ dropWhile ?P xs) = A" by (subst takeWhile_dropWhile_id) (rule x(2))
  moreover have "distinct (takeWhile ?P xs @ dropWhile ?P xs)" by (subst takeWhile_dropWhile_id) (rule x(1))
  moreover have "sorted (map key (takeWhile ?P xs @ i # dropWhile ?P xs))"
    unfolding map_append list.map by (rule sorted_join [OF s]) (use le ge in auto)
  ultimately show ?thesis using i unfolding seq_ok_def link_def set_append distinct_append by (simp, blast)
qed

lemma erase_seq_ok: "seq_ok key A xs \<Longrightarrow> seq_ok key (A - {i}) (remove1 i xs)"
proof -
  assume "seq_ok key A xs"
  then have x: "distinct xs" "set xs = A" "sorted (map key xs)" by (auto simp: seq_ok_def)
  have "sorted (map key (filter ((\<noteq>) i) xs))" using x(3) by (rule sorted_filter)
  then show ?thesis using x by (auto simp: seq_ok_def distinct_remove1_removeAll removeAll_filter_not_eq)
qed

lemma relink_ok:
  assumes ok: "seq_ok key A xs" and same: "\<And>j. j \<in> A \<Longrightarrow> j \<noteq> i \<Longrightarrow> key' j = key j" and i: "i \<in> A"
  shows "seq_ok key' A (relink key' i xs)"
proof (cases "sorted (map key' xs)")
  case True
  then show ?thesis using ok by (simp add: seq_ok_def relink_def)
next
  case False
  have "seq_ok key (A - {i}) (remove1 i xs)" by (rule erase_seq_ok [OF ok])
  then have "seq_ok key' (A - {i}) (remove1 i xs)" by (rule seq_ok_cong [rotated]) (use same in auto)
  from link_ok [OF this, of i] i False show ?thesis by (simp add: relink_def insert_absorb)
qed

section \<open>The container is consistent\<close>

definition fork_ok :: "('k, 's, 'b) fork_db \<Rightarrow> bool" where
  "fork_ok db \<longleftrightarrow> distinct (index db) \<and> (\<forall>i\<in>set (index db). \<exists>b. objects db i = Some b \<and> bs_id b = i)
     \<and> seq_ok (num_key \<circ> obj db) (set (index db)) (by_block_num db)
     \<and> seq_ok (lib_key \<circ> obj db) (set (index db)) (by_lib_block_num db)"

lemma fork_ok_obj: "fork_ok db \<Longrightarrow> i \<in> set (index db) \<Longrightarrow> objects db i = Some (obj db i) \<and> bs_id (obj db i) = i"
  by (auto simp: fork_ok_def obj_def)

lemma fork_ok_get: "fork_ok db \<Longrightarrow> get_block i db = (if i \<in> set (index db) then Some (obj db i) else None)"
  using fork_ok_obj by (auto simp: get_block_def)

lemma fork_ok_at: "fork_ok db \<Longrightarrow> i \<in> set (index db) \<Longrightarrow> at_iter (Some i) db = Inr (obj db i)"
  using fork_ok_obj by (auto simp: at_iter_def)

lemma empty_ok: "fork_ok empty_fork_db"
  by (simp add: fork_ok_def empty_fork_db_def seq_ok_def)

lemma first_iff: "first xs = Some i \<longleftrightarrow> (\<exists>ys. xs = i # ys)" "first xs = None \<longleftrightarrow> xs = []"
  by (auto simp: first_def split: list.splits)

lemma first_least: "seq_ok key A xs \<Longrightarrow> first xs = Some i \<Longrightarrow> i \<in> A \<and> (\<forall>j\<in>A. key i \<le> key j)"
  by (auto simp: seq_ok_def first_iff)

lemma first_exists: "seq_ok key A xs \<Longrightarrow> A \<noteq> {} \<Longrightarrow> \<exists>i. first xs = Some i"
  by (cases xs) (auto simp: seq_ok_def first_def)

lemma insert_ok:
  assumes ok: "fork_ok db" and run: "insert_block s db = (True, db')"
  shows "fork_ok db' \<and> bs_id s \<notin> set (index db) \<and> index db' = index db @ [bs_id s] \<and> obj db' (bs_id s) = s
    \<and> (\<forall>j. j \<noteq> bs_id s \<longrightarrow> obj db' j = obj db j) \<and> head_ptr db' = head_ptr db \<and> irreversible_log db' = irreversible_log db"
proof -
  let ?i = "bs_id s" and ?o = "db\<lparr>objects := (objects db)(bs_id s \<mapsto> s)\<rparr>"
  have new: "?i \<notin> set (index db)" and d: "db' = db\<lparr>objects := (objects db)(?i \<mapsto> s), index := index db @ [?i],
      by_block_num := link (num_key \<circ> obj ?o) ?i (by_block_num db), by_lib_block_num := link (lib_key \<circ> obj ?o) ?i (by_lib_block_num db)\<rparr>"
    using run by (auto simp: insert_block_def Let_def split: if_splits)
  have o: "obj ?o j = (if j = ?i then s else obj db j)" for j by (simp add: obj_def)
  have o': "obj db' = obj ?o" by (rule ext) (simp add: obj_def d)
  have n: "seq_ok (num_key \<circ> obj ?o) (set (index db)) (by_block_num db)"
    by (rule seq_ok_cong [of _ "num_key \<circ> obj db"]) (use ok new o in \<open>auto simp: fork_ok_def\<close>)
  have l: "seq_ok (lib_key \<circ> obj ?o) (set (index db)) (by_lib_block_num db)"
    by (rule seq_ok_cong [of _ "lib_key \<circ> obj db"]) (use ok new o in \<open>auto simp: fork_ok_def\<close>)
  have f: "index db' = index db @ [?i]" "by_block_num db' = link (num_key \<circ> obj ?o) ?i (by_block_num db)"
      "by_lib_block_num db' = link (lib_key \<circ> obj ?o) ?i (by_lib_block_num db)" "objects db' = (objects db)(?i \<mapsto> s)"
    by (simp_all add: d)
  have "set (index db') = insert ?i (set (index db))" "distinct (index db')" using ok new by (auto simp: f fork_ok_def)
  moreover have "\<forall>j\<in>set (index db'). \<exists>b. objects db' j = Some b \<and> bs_id b = j" using ok by (auto simp: f fork_ok_def)
  ultimately have "fork_ok db'"
    using link_ok [OF n new] link_ok [OF l new] unfolding fork_ok_def o' f(2,3) by simp
  then show ?thesis using new o o' by (simp add: f) (simp add: d)
qed

lemma modify_ok:
  assumes ok: "fork_ok db" and i: "i \<in> set (index db)" and f: "\<And>b. bs_id (f b) = bs_id b"
  shows "fork_ok (modify_block i f db)"
proof -
  let ?d = "modify_block i f db"
  have p: "obj (poke i f db) = obj ?d" by (rule ext) (simp add: modify_block_def poke_def obj_def Let_def)
  have n: "by_block_num ?d = relink (num_key \<circ> obj ?d) i (by_block_num db)" "by_lib_block_num ?d = relink (lib_key \<circ> obj ?d) i (by_lib_block_num db)"
    using p by (simp_all add: modify_block_def Let_def) (simp_all add: poke_def)
  have "\<forall>j\<in>set (index db). \<exists>b. objects ?d j = Some b \<and> bs_id b = j"
    using fork_ok_obj [OF ok] i f by (auto simp: modify_block_def poke_def Let_def)
  moreover have "seq_ok (num_key \<circ> obj ?d) (set (index db)) (relink (num_key \<circ> obj ?d) i (by_block_num db))"
    using ok i by (intro relink_ok [of "num_key \<circ> obj db"]) (auto simp: fork_ok_def obj_modify)
  moreover have "seq_ok (lib_key \<circ> obj ?d) (set (index db)) (relink (lib_key \<circ> obj ?d) i (by_lib_block_num db))"
    using ok i by (intro relink_ok [of "lib_key \<circ> obj db"]) (auto simp: fork_ok_def obj_modify)
  ultimately show ?thesis using ok by (simp add: fork_ok_def n)
qed

lemma obj_erase [simp]: "obj (erase_block i db) = obj db" "objects (erase_block i db) = objects db"
    "head_ptr (erase_block i db) = head_ptr db" "irreversible_log (erase_block i db) = irreversible_log db" "index (erase_block i db) = remove1 i (index db)"
  by (auto simp: erase_block_def obj_def fun_eq_iff)

lemma erase_seqs [simp]: "by_block_num (erase_block i db) = remove1 i (by_block_num db)" "by_lib_block_num (erase_block i db) = remove1 i (by_lib_block_num db)"
  by (simp_all add: erase_block_def)

lemma erase_ok: "fork_ok db \<Longrightarrow> fork_ok (erase_block i db) \<and> set (index (erase_block i db)) = set (index db) - {i}"
  using erase_seq_ok [of "num_key \<circ> obj db" "set (index db)" "by_block_num db" i]
    erase_seq_ok [of "lib_key \<circ> obj db" "set (index db)" "by_lib_block_num db" i]
  by (auto simp: fork_ok_def)


section \<open>Removing a branch\<close>

text \<open>A block and everything in the container that builds on it.\<close>

inductive_set branch_of :: "('k, 's, 'b) fork_db \<Rightarrow> block_id_type \<Rightarrow> block_id_type set" for db i where
  branch_root: "i \<in> branch_of db i"
| branch_step: "x \<in> branch_of db i \<Longrightarrow> j \<in> set (index db) \<Longrightarrow> prev (obj db j) = x \<Longrightarrow> j \<in> branch_of db i"

lemma branch_erase:
  assumes "x \<in> branch_of (erase_block i db) k"
  shows "x \<in> branch_of db k"
  using assms
proof induction
  case (branch_step x j)
  have "j \<in> set (index db)" "prev (obj db j) = x" using branch_step.hyps(2,3) notin_set_remove1 [of j "index db" i] by auto
  with branch_step.IH show ?case by (rule branch_of.branch_step)
qed (rule branch_of.branch_root)

lemma branch_cases:
  assumes "x \<in> branch_of db i"
  shows "x = i \<or> (\<exists>c\<in>set (children i db). x \<in> branch_of db c)"
  using assms
proof induction
  case (branch_step x j)
  show ?case
  proof (cases "x = i")
    case True
    then have "j \<in> set (children i db)" using branch_step.hyps by (simp add: children_def)
    then show ?thesis using branch_of.branch_root by blast
  next
    case False
    then obtain c where "c \<in> set (children i db)" "x \<in> branch_of db c" using branch_step.IH by blast
    then show ?thesis using branch_of.branch_step branch_step.hyps by blast
  qed
qed simp

lemma branch_split:
  assumes "x \<in> branch_of db k"
  shows "x = i \<or> x \<in> branch_of (erase_block i db) k \<or> (\<exists>c\<in>set (children i (erase_block i db)). x \<in> branch_of (erase_block i db) c)"
  using assms
proof induction
  case branch_root
  then show ?case by (simp add: branch_of.branch_root)
next
  case (branch_step x j)
  let ?d = "erase_block i db"
  show ?case
  proof (cases "j = i")
    case False
    then have j: "j \<in> set (index ?d)" "prev (obj ?d j) = x" using branch_step.hyps by simp_all
    show ?thesis
    proof (cases "x = i")
      case True
      then have "j \<in> set (children i ?d)" using j by (simp add: children_def)
      then show ?thesis using branch_of.branch_root by blast
    next
      case False
      then show ?thesis using branch_step.IH j branch_of.branch_step by metis
    qed
  qed simp
qed

lemma branch_child: "c \<in> set (children i db) \<Longrightarrow> x \<in> branch_of db c \<Longrightarrow> x \<in> branch_of db i"
proof (rule branch_of.induct [of x db c])
  assume c: "c \<in> set (children i db)"
  then show "c \<in> branch_of db i" by (auto simp: children_def intro: branch_of.intros)
qed (auto intro: branch_of.branch_step)

lemma remove_loop_spec:
  assumes "fork_ok db"
  shows "fork_ok (remove_loop q db) \<and> set (index (remove_loop q db)) = set (index db) - (\<Union>i\<in>set q. branch_of db i)
    \<and> obj (remove_loop q db) = obj db \<and> head_ptr (remove_loop q db) = head_ptr db \<and> irreversible_log (remove_loop q db) = irreversible_log db
    \<and> (\<exists>A. by_block_num (remove_loop q db) = filter A (by_block_num db))"
  using assms
proof (induction q db rule: remove_loop.induct)
  case (1 db)
  then show ?case by (auto intro!: exI [of _ "\<lambda>_. True"])
next
  case (2 i q db)
  let ?d = "erase_block i db" and ?q = "q @ children i (erase_block i db)"
  have d: "fork_ok ?d" "set (index ?d) = set (index db) - {i}" using erase_ok [OF 2(2)] by auto
  have u: "(\<Union>k\<in>set (i # q). branch_of db k) = insert i (\<Union>k\<in>set ?q. branch_of ?d k)"
  proof
    show "(\<Union>k\<in>set (i # q). branch_of db k) \<subseteq> insert i (\<Union>k\<in>set ?q. branch_of ?d k)"
    proof
      fix x assume "x \<in> (\<Union>k\<in>set (i # q). branch_of db k)"
      then obtain k where k: "k = i \<or> k \<in> set q" "x \<in> branch_of db k" by auto
      from branch_split [OF k(2), of i] k(1) branch_cases [of _ ?d i] show "x \<in> insert i (\<Union>k\<in>set ?q. branch_of ?d k)" by auto
    qed
    show "insert i (\<Union>k\<in>set ?q. branch_of ?d k) \<subseteq> (\<Union>k\<in>set (i # q). branch_of db k)"
    proof
      fix x assume "x \<in> insert i (\<Union>k\<in>set ?q. branch_of ?d k)"
      then consider "x = i" | k where "k \<in> set q" "x \<in> branch_of ?d k" | k where "k \<in> set (children i ?d)" "x \<in> branch_of ?d k"
        by auto
      then show "x \<in> (\<Union>k\<in>set (i # q). branch_of db k)"
      proof cases
        case 1
        then show ?thesis using branch_of.branch_root by auto
      next
        case 2
        then show ?thesis using branch_erase [of x i db] by auto
      next
        case 3
        then have "x \<in> branch_of db i" using branch_child branch_erase by blast
        then show ?thesis by simp
      qed
    qed
  qed
  obtain A where A: "by_block_num (remove_loop ?q ?d) = filter A (by_block_num ?d)" using 2(1) [OF refl d(1)] by blast
  have "distinct (by_block_num db)" using 2(2) by (simp add: fork_ok_def seq_ok_def)
  then have "by_block_num ?d = filter (\<lambda>j. j \<noteq> i) (by_block_num db)"
    by (simp add: distinct_remove1_removeAll removeAll_filter_not_eq) (metis)
  then have "by_block_num (remove_loop (i # q) db) = filter (\<lambda>j. j \<noteq> i \<and> A j) (by_block_num db)" using A by (simp add: Let_def)
  then show ?case using 2(1) [OF refl d(1)] d u by (auto simp: Let_def)
qed


section \<open>The head is the best block\<close>

definition best :: "('k, 's, 'b) fork_db \<Rightarrow> block_id_type \<Rightarrow> bool" where
  "best db h \<longleftrightarrow> h \<in> set (index db) \<and> (\<forall>i\<in>set (index db). lib_key (obj db h) \<le> lib_key (obj db i))"

definition head_best :: "('k, 's, 'b) fork_db \<Rightarrow> bool" where
  "head_best db \<longleftrightarrow> (\<exists>h. head_ptr db = Some h \<and> best db h)"

lemma take_best_head_ok:
  assumes ok: "fork_ok db"
  shows "take_best_head db = (if index db = [] then Inl undefined_behaviour else Inr (db\<lparr>head_ptr := first (by_lib_block_num db)\<rparr>))"
    and "index db \<noteq> [] \<Longrightarrow> \<exists>h. first (by_lib_block_num db) = Some h \<and> best db h"
proof -
  have l: "seq_ok (lib_key \<circ> obj db) (set (index db)) (by_lib_block_num db)" using ok by (simp add: fork_ok_def)
  show h: "\<exists>h. first (by_lib_block_num db) = Some h \<and> best db h" if "index db \<noteq> []"
    using first_exists [OF l] first_least [OF l] that by (auto simp: best_def)
  show "take_best_head db = (if index db = [] then Inl undefined_behaviour else Inr (db\<lparr>head_ptr := first (by_lib_block_num db)\<rparr>))"
  proof (cases "index db = []")
    case True
    then have "by_lib_block_num db = []" using l by (simp add: seq_ok_def)
    then show ?thesis using True by (simp add: take_best_head_def at_iter_def first_def)
  next
    case False
    then obtain h where "first (by_lib_block_num db) = Some h" "h \<in> set (index db)" using h by (auto simp: best_def)
    then show ?thesis using False fork_ok_at [OF ok] fork_ok_obj [OF ok] by (simp add: take_best_head_def)
  qed
qed

lemma fork_ok_head [simp]: "fork_ok (db\<lparr>head_ptr := h\<rparr>) = fork_ok db" "fork_ok (db\<lparr>irreversible_log := l\<rparr>) = fork_ok db"
  "obj (db\<lparr>head_ptr := h\<rparr>) = obj db" "obj (db\<lparr>irreversible_log := l\<rparr>) = obj db"
  "best (db\<lparr>head_ptr := h\<rparr>) = best db"
  by (auto simp: fork_ok_def obj_def fun_eq_iff best_def comp_def)

lemma remove_spec:
  assumes ok: "fork_ok db"
  shows "if set (index db) \<subseteq> branch_of db i then remove i db = Inl undefined_behaviour
    else \<exists>db'. remove i db = Inr db' \<and> fork_ok db' \<and> head_best db' \<and> set (index db') = set (index db) - branch_of db i \<and> obj db' = obj db
      \<and> irreversible_log db' = irreversible_log db \<and> (\<exists>A. by_block_num db' = filter A (by_block_num db))"
proof -
  let ?d = "remove_loop [i] db"
  have d: "fork_ok ?d" "set (index ?d) = set (index db) - branch_of db i" "obj ?d = obj db" "irreversible_log ?d = irreversible_log db"
      "\<exists>A. by_block_num ?d = filter A (by_block_num db)"
    using remove_loop_spec [OF ok, of "[i]"] by auto
  have e: "index ?d = [] \<longleftrightarrow> set (index db) \<subseteq> branch_of db i" using d(2) by (metis Diff_eq_empty_iff set_empty)
  show ?thesis
  proof (cases "index ?d = []")
    case True
    then show ?thesis using e take_best_head_ok(1) [OF d(1)] by (simp add: remove_def)
  next
    case False
    obtain h where h: "first (by_lib_block_num ?d) = Some h" "best ?d h" using take_best_head_ok(2) [OF d(1) False] by blast
    then have "remove i db = Inr (?d\<lparr>head_ptr := Some h\<rparr>)" using take_best_head_ok(1) [OF d(1)] False by (simp add: remove_def)
    then show ?thesis using e False d h(2) by (simp add: head_best_def)
  qed
qed

lemma remove_loop_objects: "objects (remove_loop q db) = objects db"
  by (induction q db rule: remove_loop.induct) (simp_all add: Let_def)

lemma remove_objects: "remove i db = Inr db' \<Longrightarrow> objects db' = objects db"
  using remove_loop_objects [of "[i]" db] by (auto simp: remove_def take_best_head_def result_simps)

lemma remove_Inr:
  assumes "fork_ok db" "remove i db = Inr db'"
  shows "fork_ok db'" "head_best db'" "set (index db') = set (index db) - branch_of db i" "obj db' = obj db"
    "irreversible_log db' = irreversible_log db" "\<exists>A. by_block_num db' = filter A (by_block_num db)"
  using remove_spec [OF assms(1), of i] assms(2) by (auto split: if_splits)

lemma head_best_erase:
  assumes "head_best db" "head_ptr db \<noteq> Some i" "fork_ok db"
  shows "head_best (erase_block i db)"
  using assms erase_ok [of db i] by (auto simp: head_best_def best_def)

lemma prune_rest_ok:
  assumes "prune_rest num nitr db = Inr db'" "fork_ok db"
  shows "fork_ok db' \<and> set (index db') \<subseteq> set (index db) \<and> obj db' = obj db \<and> irreversible_log db' = irreversible_log db \<and> (head_best db \<longrightarrow> head_best db')"
  using assms
proof (induction num nitr db rule: prune_rest.induct)
  case (2 num i db)
  show ?case
  proof (cases "block_num (obj db i) = num \<and> i \<in> set (index db)")
    case True
    then obtain d1 where r: "remove i db = Inr d1" "prune_rest num (after_in i (by_block_num db)) d1 = Inr db'"
      using 2(2) by (auto simp: Let_def split: sum.splits)
    note d1 = remove_Inr [OF 2(3) r(1)]
    show ?thesis using 2(1) [OF _ _ refl r(1,2) d1(1)] True d1 by auto
  next
    case False
    then show ?thesis using 2(2,3) by (auto split: if_splits)
  qed
qed auto

end
