(* ===== verification/ForkChain.thy ===== *)
theory ForkChain
  imports ForkDb
begin

text \<open>
  What the fork database guarantees: it holds a tree of blocks over one irreversible block, the head is
  the best block, branches meet, and irreversibility reaches exactly the blocks it should.
\<close>

section \<open>Pruning\<close>

lemma prune_level_ok:
  assumes run: "prune_level h db = Inr db'" and ok: "fork_ok db"
  shows "fork_ok db' \<and> set (index db') \<subseteq> set (index db) - {h} \<and> obj db' = obj db
    \<and> irreversible_log db' = irreversible_log db @ (if h \<in> set (index db) then [h] else []) \<and> (head_best db \<longrightarrow> head_ptr db \<noteq> Some h \<longrightarrow> head_best db')"
proof (cases "h \<in> set (index db)")
  case True
  let ?d = "erase_block h (db\<lparr>irreversible_log := irreversible_log db @ [h]\<rparr>)"
  have d: "fork_ok ?d" "set (index ?d) = set (index db) - {h}" "obj ?d = obj db" using erase_ok [of "db\<lparr>irreversible_log := irreversible_log db @ [h]\<rparr>" h] ok by auto
  have r: "prune_rest (block_num (obj db h)) (find (\<lambda>j. block_num (obj db h) \<le> block_num (obj ?d j)) (by_block_num ?d)) ?d = Inr db'"
    using run True by (simp add: prune_level_def Let_def)
  have "head_best ?d" if "head_best db" "head_ptr db \<noteq> Some h"
    using that head_best_erase [of "db\<lparr>irreversible_log := irreversible_log db @ [h]\<rparr>" h] ok by (simp add: head_best_def best_def)
  then show ?thesis using prune_rest_ok [OF r d(1)] d True by auto
next
  case False
  then show ?thesis using run ok prune_rest_ok by (fastforce simp: prune_level_def Let_def)
qed

lemma prune_loop_ok:
  assumes "prune_loop num db = Inr db'" "fork_ok db"
  shows "fork_ok db' \<and> set (index db') \<subseteq> set (index db) \<and> obj db' = obj db \<and> (\<forall>i\<in>set (index db'). num \<le> block_num (obj db i))"
  using assms
proof (induction num db rule: prune_loop.induct)
  case (1 num db)
  have n: "seq_ok (num_key \<circ> obj db) (set (index db)) (by_block_num db)" using 1(3) by (simp add: fork_ok_def)
  show ?case
  proof (cases "first (by_block_num db)")
    case None
    then have "set (index db) = {}" using n by (auto simp: first_iff seq_ok_def)
    then show ?thesis using 1(2,3) None by (subst (asm) prune_loop.simps) simp
  next
    case (Some i)
    have i: "i \<in> set (index db)" "\<forall>j\<in>set (index db). block_num (obj db i) \<le> block_num (obj db j)"
      using first_least [OF n Some] by (auto simp: num_key_def less_eq_prod_def less_imp_le)
    show ?thesis
    proof (cases "block_num (obj db i) < num")
      case False
      then have "db' = db" using 1(2) Some i(1) by (subst (asm) prune_loop.simps) simp
      then show ?thesis using 1(3) i False by (auto intro: order_trans [of num])
    next
      case True
      then obtain d1 where r: "prune_level i db = Inr d1" "prune_loop num d1 = Inr db'"
        using 1(2) Some i(1) by (subst (asm) prune_loop.simps) (auto split: sum.splits)
      note d1 = prune_level_ok [OF r(1) 1(3)]
      show ?thesis using 1(1) [OF Some _ True r] i(1) d1 by auto
    qed
  qed
qed

text \<open>The first block by number is pruned without a round of the first loop; so the recursion is the one of the code.\<close>

lemma prune_first:
  assumes ok: "fork_ok db" and f: "first (by_block_num db) = Some i"
  shows "prune i db = prune_level i db"
proof -
  have "i \<in> set (index db)" using ok first_least [OF _ f] by (auto simp: fork_ok_def)
  then have "prune_loop (block_num (obj db i)) db = Inr db" using f by (subst prune_loop.simps) simp
  then show ?thesis by (simp add: prune_def)
qed

lemma prune_loop_unfold:
  assumes "fork_ok db"
  shows "prune_loop num db = (case first (by_block_num db) of None \<Rightarrow> Inr db
    | Some i \<Rightarrow> if block_num (obj db i) < num then bind_r (prune i db) (prune_loop num) else Inr db)"
proof (cases "first (by_block_num db)")
  case (Some i)
  have "i \<in> set (index db)" using assms first_least [OF _ Some] by (auto simp: fork_ok_def)
  then show ?thesis using Some prune_first [OF assms Some] by (subst prune_loop.simps) (simp split: sum.split)
qed (simp add: prune_loop.simps)

section \<open>A tree over one block\<close>

text \<open>Every block is above number \<open>n\<close>; the lowest ones build on \<open>root\<close>, the others on a block of the container.\<close>

definition rooted :: "block_id_type \<Rightarrow> nat \<Rightarrow> ('k, 's, 'b) fork_db \<Rightarrow> bool" where
  "rooted root n db \<longleftrightarrow> (\<forall>i\<in>set (index db). n < block_num (obj db i) \<and>
     (if block_num (obj db i) = n + 1 then prev (obj db i) = root
      else prev (obj db i) \<in> set (index db) \<and> block_num (obj db (prev (obj db i))) + 1 = block_num (obj db i)))"

definition orphan_free :: "('k, 's, 'b) fork_db \<Rightarrow> ('k, 's, 'b) fork_db \<Rightarrow> bool" where
  "orphan_free db db' \<longleftrightarrow> (\<forall>i\<in>set (index db'). prev (obj db i) \<in> set (index db) \<longrightarrow> prev (obj db i) \<in> set (index db'))"

lemma remove_orphan_free: "fork_ok db \<Longrightarrow> remove i db = Inr db' \<Longrightarrow> orphan_free db db'"
  using remove_Inr(3) [of db i db'] branch_of.branch_step [of _ db i] by (auto simp: orphan_free_def)

lemma orphan_free_rooted:
  assumes o: "orphan_free db db'" and sub: "set (index db') \<subseteq> set (index db)" and obj: "obj db' = obj db" and r: "rooted root n db"
  shows "rooted root n db'"
  unfolding rooted_def obj
proof
  fix i assume i: "i \<in> set (index db')"
  then have "i \<in> set (index db)" using sub by blast
  then have "n < block_num (obj db i)" "if block_num (obj db i) = n + 1 then prev (obj db i) = root
      else prev (obj db i) \<in> set (index db) \<and> block_num (obj db (prev (obj db i))) + 1 = block_num (obj db i)"
    using r unfolding rooted_def by blast+
  moreover have "prev (obj db i) \<in> set (index db) \<Longrightarrow> prev (obj db i) \<in> set (index db')" using o i unfolding orphan_free_def by blast
  ultimately show "n < block_num (obj db i) \<and> (if block_num (obj db i) = n + 1 then prev (obj db i) = root
      else prev (obj db i) \<in> set (index db') \<and> block_num (obj db (prev (obj db i))) + 1 = block_num (obj db i))"
    by presburger
qed

lemma orphan_free_trans:
  "orphan_free d1 d2 \<Longrightarrow> orphan_free d2 d3 \<Longrightarrow> set (index d3) \<subseteq> set (index d2) \<Longrightarrow> obj d2 = obj d1 \<Longrightarrow> orphan_free d1 d3"
  unfolding orphan_free_def by auto

text \<open>The second loop of \<open>prune\<close> empties the level.\<close>

lemma find_filter_after:
  assumes "find P xs = Some i" "distinct xs" "\<not> A i" "after_in i xs = Some j" "A j" "P j"
  shows "find P (filter A xs) = Some j"
  using assms
proof (induction xs)
  case (Cons x xs)
  show ?case
  proof (cases "P x")
    case True
    then have "x = i" using Cons.prems(1) by simp
    then obtain ys where "xs = j # ys" using Cons.prems(4) by (auto simp: after_in_def first_iff)
    then show ?thesis using \<open>x = i\<close> Cons.prems by simp
  next
    case False
    then have "find P xs = Some i" "i \<noteq> x" using Cons.prems(1) find_SomeD [of P xs i] Cons.prems(2) by auto
    then show ?thesis using Cons False by (auto simp: after_in_def)
  qed
qed simp

lemma find_filter_last:
  assumes "find P xs = Some i" "distinct xs" "\<not> A i" "after_in i xs = None"
  shows "find P (filter A xs) = None"
  using assms
proof (induction xs)
  case (Cons x xs)
  show ?case
  proof (cases "P x")
    case True
    then have "x = i" using Cons.prems(1) by simp
    then have "xs = []" using Cons.prems(4) by (auto simp: after_in_def first_iff)
    then show ?thesis using \<open>x = i\<close> Cons.prems by simp
  next
    case False
    then have "find P xs = Some i" "i \<noteq> x" using Cons.prems(1) find_SomeD [of P xs i] Cons.prems(2) by auto
    then show ?thesis using Cons False by (auto simp: after_in_def)
  qed
qed simp


lemma num_least_from:
  assumes "seq_ok (num_key \<circ> obj db) A xs" and "find (\<lambda>j. num \<le> block_num (obj db j)) xs = Some i" and "j \<in> A" "num \<le> block_num (obj db j)"
  shows "block_num (obj db i) \<le> block_num (obj db j)"
proof -
  have "sorted (map (num_key \<circ> obj db) xs)" "j \<in> set xs" using assms(1,3) by (auto simp: seq_ok_def)
  then show ?thesis using assms(2,4)
  proof (induction xs)
    case (Cons x xs)
    then show ?case by (auto simp: num_key_def less_eq_prod_def split: if_splits)
  qed simp
qed

lemma after_in_sorted: "sorted (map key xs) \<Longrightarrow> after_in i xs = Some j \<Longrightarrow> i \<in> set xs \<Longrightarrow> key i \<le> key j"
proof (induction xs)
  case (Cons x xs)
  then show ?case by (cases "x = i") (auto simp: after_in_def first_iff)
qed simp

lemma prune_rest_level:
  assumes "prune_rest num nitr db = Inr db'" "fork_ok db" "nitr = find (\<lambda>j. num \<le> block_num (obj db j)) (by_block_num db)"
  shows "orphan_free db db' \<and> (\<forall>j\<in>set (index db'). block_num (obj db j) \<noteq> num)"
  using assms
proof (induction num nitr db rule: prune_rest.induct)
  case (1 num db)
  have "set (by_block_num db) = set (index db)" using 1(2) by (simp add: fork_ok_def seq_ok_def)
  moreover have "\<And>j. j \<in> set (by_block_num db) \<Longrightarrow> \<not> num \<le> block_num (obj db j)" using 1(3) [symmetric] by (auto simp: find_None_iff)
  ultimately show ?case using 1 by (auto simp: orphan_free_def)
next
  case (2 num i db)
  let ?P = "\<lambda>j. num \<le> block_num (obj db j)"
  have seq: "seq_ok (num_key \<circ> obj db) (set (index db)) (by_block_num db)" and f: "find ?P (by_block_num db) = Some i" using 2(3,4) by (auto simp: fork_ok_def)
  have i: "i \<in> set (index db)" "num \<le> block_num (obj db i)" using find_SomeD [OF f] seq by (auto simp: seq_ok_def)
  show ?case
  proof (cases "block_num (obj db i) = num")
    case False
    then have "db' = db" using 2(2) i by simp
    moreover have "block_num (obj db j) \<noteq> num" if "j \<in> set (index db)" for j
      using num_least_from [OF seq f that] False i by auto
    ultimately show ?thesis by (simp add: orphan_free_def)
  next
    case True
    let ?n = "after_in i (by_block_num db)"
    obtain d1 where r: "remove i db = Inr d1" "prune_rest num ?n d1 = Inr db'" using 2(2) i True by (auto simp: Let_def split: sum.splits)
    note d1 = remove_Inr [OF 2(3) r(1)]
    obtain A where A: "by_block_num d1 = filter A (by_block_num db)" using d1(6) by blast
    have set1: "set (by_block_num d1) = set (index d1)" "set (by_block_num db) = set (index db)" "distinct (by_block_num db)"
      using d1(1) 2(3) by (auto simp: fork_ok_def seq_ok_def)
    have "i \<notin> set (index d1)" using d1(3) branch_of.branch_root by auto
    then have Ai: "\<not> A i" using A set1 i(1) by auto
    have n: "?n = find (\<lambda>j. num \<le> block_num (obj d1 j)) (by_block_num d1)"
    proof (cases ?n)
      case None
      then show ?thesis using find_filter_last [OF f set1(3), of A] Ai A d1(4) by simp
    next
      case (Some j)
      have jd: "j \<in> set (index d1)" using r(2) Some by (cases "j \<in> set (index d1)") auto
      then have "A j" "j \<in> set (index db)" using A set1 by (auto simp: d1(3))
      moreover have "?P j" using after_in_sorted [OF _ Some] seq set1 i by (fastforce simp: seq_ok_def num_key_def less_eq_prod_def)
      ultimately show ?thesis using find_filter_after [OF f set1(3), of A j] Ai A d1(4) Some by simp
    qed
    have "orphan_free d1 db' \<and> (\<forall>j\<in>set (index db'). block_num (obj d1 j) \<noteq> num)"
      using 2(1) [OF _ _ refl r d1(1) n] i True by simp
    then show ?thesis using orphan_free_trans [OF remove_orphan_free [OF 2(3) r(1)]] prune_rest_ok [OF r(2) d1(1)] d1(4) by auto
  qed
qed


lemma lowest_level:
  assumes ok: "fork_ok db" and r: "rooted root n db" and f: "first (by_block_num db) = Some i"
  shows "i \<in> set (index db) \<and> block_num (obj db i) = n + 1"
proof -
  have i: "i \<in> set (index db)" "\<forall>j\<in>set (index db). block_num (obj db i) \<le> block_num (obj db j)"
    using ok first_least [OF _ f] by (fastforce simp: fork_ok_def num_key_def less_eq_prod_def)+
  have "block_num (obj db i) = n + 1"
  proof (rule ccontr)
    assume "block_num (obj db i) \<noteq> n + 1"
    then have "prev (obj db i) \<in> set (index db)" "block_num (obj db (prev (obj db i))) + 1 = block_num (obj db i)"
      using r i(1) unfolding rooted_def by metis+
    then show False using i(2) by force
  qed
  then show ?thesis using i by simp
qed

lemma prune_level_rooted:
  assumes ok: "fork_ok db" and r: "rooted root n db" and h: "h \<in> set (index db)" "block_num (obj db h) = n + 1"
    and run: "prune_level h db = Inr db'"
  shows "rooted h (n + 1) db'"
proof -
  let ?d = "erase_block h (db\<lparr>irreversible_log := irreversible_log db @ [h]\<rparr>)"
  have d: "fork_ok ?d" "set (index ?d) = set (index db) - {h}" "obj ?d = obj db" using erase_ok [of "db\<lparr>irreversible_log := irreversible_log db @ [h]\<rparr>" h] ok by auto
  have rest: "prune_rest (n + 1) (find (\<lambda>j. n + 1 \<le> block_num (obj ?d j)) (by_block_num ?d)) ?d = Inr db'"
    using run h by (simp add: prune_level_def Let_def)
  have o: "orphan_free ?d db'" "\<And>j. j \<in> set (index db') \<Longrightarrow> block_num (obj db j) \<noteq> n + 1" using prune_rest_level [OF rest d(1) refl] d(3) by auto
  have s: "set (index db') \<subseteq> set (index ?d)" "obj db' = obj db" using prune_rest_ok [OF rest d(1)] d(3) by auto
  show ?thesis unfolding rooted_def s(2)
  proof
    fix j assume j: "j \<in> set (index db')"
    have jd: "j \<in> set (index db)" "j \<noteq> h" using j s(1) d(2) by auto
    have b: "n < block_num (obj db j)" "block_num (obj db j) \<noteq> n + 1" using r jd(1) o(2) [OF j] unfolding rooted_def by auto
    then have p: "prev (obj db j) \<in> set (index db)" "block_num (obj db (prev (obj db j))) + 1 = block_num (obj db j)"
      using r jd(1) unfolding rooted_def by metis+
    have keep: "prev (obj db j) \<noteq> h \<Longrightarrow> prev (obj db j) \<in> set (index db')"
      using o(1) j p(1) d(2,3) unfolding orphan_free_def by auto
    show "n + 1 < block_num (obj db j) \<and> (if block_num (obj db j) = n + 1 + 1 then prev (obj db j) = h
        else prev (obj db j) \<in> set (index db') \<and> block_num (obj db (prev (obj db j))) + 1 = block_num (obj db j))"
      using b p keep o(2) [of "prev (obj db j)"] h(2) by (cases "prev (obj db j) = h") auto
  qed
qed

section \<open>The invariant\<close>

text \<open>The blocks announced as irreversible are one chain that ends at the block everything else builds on.\<close>

definition announced :: "block_id_type \<Rightarrow> ('k, 's, 'b) fork_db \<Rightarrow> bool" where
  "announced root db \<longleftrightarrow> successively (\<lambda>i j. prev (obj db j) = i) (irreversible_log db)
     \<and> (\<forall>i\<in>set (irreversible_log db). num_from_id i \<le> num_from_id root) \<and> (irreversible_log db \<noteq> [] \<longrightarrow> last (irreversible_log db) = root)"

definition fork_inv :: "('k, 's, 'b) fork_db \<Rightarrow> bool" where
  "fork_inv db \<longleftrightarrow> fork_ok db \<and> (\<exists>root n. rooted root n db \<and> num_from_id root = n \<and> announced root db)
     \<and> (\<forall>i\<in>set (index db). hs_ok (block_header_state.truncate (obj db i)))"

lemma announced_cong:
  assumes "irreversible_log db' = irreversible_log db" "\<And>j. j \<in> set (irreversible_log db) \<Longrightarrow> prev (obj db' j) = prev (obj db j)"
  shows "announced root db' = announced root db"
proof -
  have "successively (\<lambda>i j. prev (obj db' j) = i) (irreversible_log db) = successively (\<lambda>i j. prev (obj db j) = i) (irreversible_log db)"
    by (rule successively_cong) (use assms(2) in auto)
  then show ?thesis by (simp add: announced_def assms(1))
qed

lemma announced_next:
  assumes "announced root db" "irreversible_log db' = irreversible_log db @ [h]" "obj db' = obj db" "prev (obj db h) = root" "num_from_id root \<le> num_from_id h"
  shows "announced h db'"
  using assms by (auto simp: announced_def successively_append_iff)

lemma hs_ok_lib: "hs_ok (block_header_state.truncate b) \<Longrightarrow> dpos_irreversible_blocknum b \<le> block_num b"
  by (auto simp: hs_ok_def block_header_state.truncate_def)

lemma truncate_fields [simp]:
  "block_num (block_header_state.truncate b) = block_num b" "bs_id (block_header_state.truncate b) = bs_id b"
  "header (block_header_state.truncate b) = header b"
  by (simp_all add: block_header_state.truncate_def)

text \<open>A block that builds on a block of the container.\<close>

definition extends :: "('k, 's, 'b) fork_db \<Rightarrow> ('k, 's, 'b) block_state \<Rightarrow> bool" where
  "extends db s \<longleftrightarrow> prev s \<in> set (index db) \<and> block_num s = block_num (obj db (prev s)) + 1 \<and> hs_ok (block_header_state.truncate s)"

lemma insert_rooted:
  assumes ok: "fork_ok db" and r: "rooted root n db" and e: "extends db s" and ins: "insert_block s db = (True, db')"
  shows "rooted root n db'"
proof -
  note d = insert_ok [OF ok ins]
  have new: "bs_id s \<notin> set (index db)" using d by blast
  have o: "obj db' j = (if j = bs_id s then s else obj db j)" for j using d by simp
  have "n < block_num (obj db (prev s))" using r e unfolding rooted_def extends_def by blast
  moreover have "prev (obj db j) \<noteq> bs_id s" if "prev (obj db j) \<in> set (index db)" for j using that new by auto
  ultimately show ?thesis using r e new d unfolding rooted_def extends_def by (auto simp: o)
qed

lemma add_state_inv:
  assumes inv: "fork_inv db" and e: "extends db s" and run: "add_state s db = Inr db'"
  shows "fork_inv db' \<and> head_best db' \<and> (\<forall>j. obj db' j = (if j = bs_id s then s else obj db j))
    \<and> set (index db') \<subseteq> insert (bs_id s) (set (index db)) \<and> bs_id s \<notin> set (index db)"
proof -
  have ok: "fork_ok db" using inv by (simp add: fork_inv_def)
  obtain root n where r: "rooted root n db" "num_from_id root = n" "announced root db" using inv by (auto simp: fork_inv_def)
  obtain d1 where ins: "insert_block s db = (True, d1)" using run by (cases "insert_block s db") (auto simp: add_state_def result_simps)
  note d1 = insert_ok [OF ok ins]
  have o: "obj d1 j = (if j = bs_id s then s else obj db j)" for j using d1 by simp
  have ne: "index d1 \<noteq> []" using d1 by simp
  obtain h where h: "first (by_lib_block_num d1) = Some h" "best d1 h" using take_best_head_ok(2) [of d1] d1 ne by blast
  let ?d = "d1\<lparr>head_ptr := Some h\<rparr>"
  have d: "fork_ok ?d" "head_best ?d" "rooted root n ?d" "obj ?d = obj d1" "index ?d = index d1"
    using d1 h insert_rooted [OF ok r(1) e ins] by (auto simp: head_best_def rooted_def)
  have hs: "\<forall>i\<in>set (index d1). hs_ok (block_header_state.truncate (obj d1 i))"
    using inv d1 e by (auto simp: fork_inv_def extends_def o)
  have "n < num_from_id (bs_id s)" using r(1) e unfolding rooted_def extends_def hs_ok_def by fastforce
  then have new: "bs_id s \<notin> set (irreversible_log db)" using r(2,3) unfolding announced_def by force
  have log: "irreversible_log ?d = irreversible_log db" using d1 by simp
  have "announced root ?d = announced root db"
    by (rule announced_cong [OF log]) (use new d(4) o in auto)
  then have ann: "announced root ?d" using r(3) by simp
  have hd: "h \<in> set (index d1)" "at_iter (head_ptr ?d) ?d = Inr (obj d1 h)" using h(2) fork_ok_at [OF d(1)] by (auto simp: best_def)
  obtain i where i: "first (by_block_num ?d) = Some i" using first_exists [of "num_key \<circ> obj d1" "set (index d1)" "by_block_num d1"] d1 ne by (auto simp: fork_ok_def)
  have low: "i \<in> set (index ?d)" "block_num (obj ?d i) = n + 1" using lowest_level [OF d(1,3) i] by auto
  have at: "at_iter (first (by_block_num ?d)) ?d = Inr (obj ?d i)" "bs_id (obj ?d i) = i" using fork_ok_at [OF d(1) low(1)] fork_ok_obj [OF d(1) low(1)] i by auto
  have run': "(if block_num (obj d1 i) < dpos_irreversible_blocknum (obj d1 h) then prune i ?d else Inr ?d) = Inr db'"
    using run take_best_head_ok(1) [of d1] d1 ne h(1) hd(2) at by (simp add: add_state_def ins cong: if_cong)
  show ?thesis
  proof (cases "block_num (obj d1 i) < dpos_irreversible_blocknum (obj d1 h)")
    case True
    have p: "prune_level i ?d = Inr db'" using run' True prune_first [OF d(1) i] by simp
    have "h \<noteq> i" using True hs_ok_lib hs hd(1) by fastforce
    then have l: "fork_ok db'" "head_best db'" "set (index db') \<subseteq> set (index d1)" "obj db' = obj d1" using prune_level_ok [OF p d(1)] d by auto
    then have "\<forall>i\<in>set (index db'). hs_ok (block_header_state.truncate (obj db' i))" using hs by (metis subsetD)
    moreover have "num_from_id i = n + 1" using hs low d(4,5) at(2) by (auto simp: hs_ok_def)
    moreover have "rooted i (n + 1) db'" by (rule prune_level_rooted [OF d(1,3) low p])
    moreover have "announced i db'"
    proof (rule announced_next [OF ann])
      show "irreversible_log db' = irreversible_log ?d @ [i]" using prune_level_ok [OF p d(1)] low(1) by simp
      show "prev (obj ?d i) = root" using d(3) low unfolding rooted_def by metis
    qed (use l d(4) r(2) \<open>num_from_id i = n + 1\<close> in simp_all)
    ultimately have "\<exists>root m. rooted root m db' \<and> num_from_id root = m" "fork_inv db'" using l unfolding fork_inv_def by blast+
    then show ?thesis using l d1 by (auto simp: o)
  next
    case False
    then have "db' = ?d" using run' by simp
    then show ?thesis using d hs r(2) ann d1 by (auto simp: fork_inv_def o)
  qed
qed


lemma remove_inv:
  assumes inv: "fork_inv db" and run: "remove i db = Inr db'"
  shows "fork_inv db' \<and> head_best db'"
proof -
  have ok: "fork_ok db" using inv by (simp add: fork_inv_def)
  note d = remove_Inr [OF ok run]
  obtain root n where r: "rooted root n db" "num_from_id root = n" "announced root db" using inv by (auto simp: fork_inv_def)
  have "announced root db' = announced root db" by (rule announced_cong) (simp_all add: d)
  moreover have "rooted root n db'" using orphan_free_rooted [OF remove_orphan_free [OF ok run] _ _ r(1)] d by auto
  ultimately have "\<exists>root n. rooted root n db' \<and> num_from_id root = n \<and> announced root db'" using r by blast
  then show ?thesis using inv d by (auto simp: fork_inv_def)
qed

text \<open>Changes of an object that touch neither its number nor its link.\<close>

definition mild :: "(('k, 's, 'b) block_state \<Rightarrow> ('k, 's, 'b) block_state) \<Rightarrow> bool" where
  "mild f \<longleftrightarrow> (\<forall>b. bs_id (f b) = bs_id b \<and> block_num (f b) = block_num b \<and> prev (f b) = prev b
     \<and> hs_ok (block_header_state.truncate (f b)) = hs_ok (block_header_state.truncate b))"

lemma mild_updates:
  "mild (\<lambda>b. b\<lparr>in_current_chain := v\<rparr>)" "mild (\<lambda>b. b\<lparr>validated := v\<rparr>)" "mild (\<lambda>b. b\<lparr>confirmations := cs\<rparr>)"
  "mild (\<lambda>b. b\<lparr>bft_irreversible_blocknum := n\<rparr>)" "mild (\<lambda>b. b\<lparr>bft_irreversible_blocknum := block_num b\<rparr>)"
  by (simp_all add: mild_def prev_def hs_ok_def block_header_state.truncate_def)

lemma rooted_cong:
  assumes "index db' = index db" "\<And>j. j \<in> set (index db) \<Longrightarrow> block_num (obj db' j) = block_num (obj db j) \<and> prev (obj db' j) = prev (obj db j)"
  shows "rooted root n db' = rooted root n db"
  using assms unfolding rooted_def by (auto 0 3)

lemma modify_inv:
  assumes inv: "fork_inv db" and i: "i \<in> set (index db)" and f: "mild f"
  shows "fork_inv (modify_block i f db)"
proof -
  have "fork_ok (modify_block i f db)" using inv i f by (intro modify_ok) (auto simp: fork_inv_def mild_def)
  moreover have "rooted root n (modify_block i f db) = rooted root n db" for root n
    using f by (intro rooted_cong) (auto simp: obj_modify mild_def)
  moreover have "announced root (modify_block i f db) = announced root db" for root
    using f by (intro announced_cong) (auto simp: obj_modify mild_def)
  ultimately show ?thesis using inv f by (auto simp: fork_inv_def obj_modify mild_def)
qed

lemma poke_inv:
  assumes inv: "fork_inv db" and f: "mild f" and keys: "\<And>b. num_key (f b) = num_key b" "\<And>b. lib_key (f b) = lib_key b"
  shows "fork_inv (poke i f db)"
proof -
  have o: "obj (poke i f db) j = (if j = i then f (obj db i) else obj db j)" for j by (simp add: poke_def obj_def)
  have s: "index (poke i f db) = index db" "by_block_num (poke i f db) = by_block_num db" "by_lib_block_num (poke i f db) = by_lib_block_num db"
    by (simp_all add: poke_def)
  have k: "num_key \<circ> obj (poke i f db) = num_key \<circ> obj db" "lib_key \<circ> obj (poke i f db) = lib_key \<circ> obj db"
    using keys by (auto simp: o)
  have ok: "fork_ok db" using inv by (simp add: fork_inv_def)
  have "\<forall>j\<in>set (index db). \<exists>b. objects (poke i f db) j = Some b \<and> bs_id b = j"
    using fork_ok_obj [OF ok] f by (auto simp: poke_def mild_def)
  then have "fork_ok (poke i f db)" using ok unfolding fork_ok_def k s by blast
  moreover have "rooted root n (poke i f db) = rooted root n db" for root n
    using f s by (intro rooted_cong) (auto simp: o mild_def)
  moreover have "announced root (poke i f db) = announced root db" for root
    using f by (intro announced_cong) (auto simp: o mild_def, simp add: poke_def)
  ultimately show ?thesis using inv f by (auto simp: fork_inv_def s o mild_def)
qed

lemma head_best_cong:
  assumes "index db' = index db" "head_ptr db' = head_ptr db" "\<And>j. j \<in> set (index db) \<Longrightarrow> lib_key (obj db' j) = lib_key (obj db j)"
  shows "head_best db' = head_best db"
  using assms by (auto simp: head_best_def best_def)

lemma mark_inv:
  assumes "fork_inv db" and "mark_in_current_chain h flag db = Inr db'"
  shows "fork_inv db' \<and> head_best db' = head_best db"
proof (cases "in_current_chain (obj db h) = flag")
  case True
  then show ?thesis using assms by (simp add: mark_in_current_chain_def)
next
  case False
  then have h: "h \<in> set (index db)" and d: "db' = modify_block h (\<lambda>b. b\<lparr>in_current_chain := flag\<rparr>) db"
    using assms(2) by (auto simp: mark_in_current_chain_def result_simps)
  have "head_best db' = head_best db" unfolding d by (intro head_best_cong) (auto simp: obj_modify lib_key_def)
  then show ?thesis using modify_inv [OF assms(1) h mild_updates(1)] d by simp
qed

lemma set_validity_inv:
  assumes "fork_inv db" and "set_validity h valid db = Inr db'"
  shows "fork_inv db' \<and> (head_best db \<longrightarrow> head_best db')"
proof (cases valid)
  case True
  then have d: "db' = poke h (\<lambda>b. b\<lparr>validated := True\<rparr>) db" using assms(2) by (simp add: set_validity_def)
  have "head_best db' = head_best db" unfolding d by (intro head_best_cong) (auto simp: poke_def obj_def lib_key_def)
  moreover have "fork_inv db'" unfolding d by (rule poke_inv [OF assms(1) mild_updates(2)]) (simp_all add: num_key_def lib_key_def)
  ultimately show ?thesis by simp
next
  case False
  then show ?thesis using assms(2) remove_inv [OF assms(1), of h db'] by (simp add: set_validity_def)
qed


text \<open>A new block starts with the confirmed irreversible number of its predecessor.\<close>

lemma set_confirmed_loop_bft: "bft_irreversible_blocknum (set_confirmed_loop i n s) = bft_irreversible_blocknum s"
  by (induction i n s rule: set_confirmed_loop.induct) (auto simp: Let_def)

lemma next_state_bft:
  assumes "next_state c h trust s = Inr s'"
  shows "bft_irreversible_blocknum s' = bft_irreversible_blocknum s"
proof -
  obtain g promoted q r where "generate_next c (timestamp h) s = Inr g"
    and mp: "maybe_promote_pending (set_confirmed (confirmed h) g) = (promoted, q)"
    and ap: "apply_new_producers c h promoted q = Inr r" and s': "s' = seal c h r"
    using next_state_steps [OF assms] .
  then have "bft_irreversible_blocknum g = bft_irreversible_blocknum s" by (auto simp: generate_next_def result_simps Let_def)
  moreover have "bft_irreversible_blocknum (set_confirmed n g) = bft_irreversible_blocknum g" for n
    by (simp add: set_confirmed_def set_confirmed_loop_bft)
  moreover have "bft_irreversible_blocknum q = bft_irreversible_blocknum (set_confirmed (confirmed h) g)"
    using mp by (auto simp: maybe_promote_pending_def Let_def split: if_splits)
  moreover have "bft_irreversible_blocknum r = bft_irreversible_blocknum q"
    using ap by (auto simp: apply_new_producers_def set_new_producers_def result_simps split: option.splits)
  ultimately show ?thesis by (simp add: s' seal_def)
qed

lemma block_state_next_ok:
  assumes run: "block_state_next c hdr p b trust = Inr s" and ok: "hs_ok (block_header_state.truncate p)" and room: "block_num p + 1 < 2 ^ 32"
  shows "hs_ok (block_header_state.truncate s) \<and> block_num s = block_num p + 1 \<and> prev s = bs_id p
    \<and> bft_irreversible_blocknum s = bft_irreversible_blocknum p"
proof -
  obtain t where t: "next_state c (hdr b) trust (block_header_state.truncate p) = Inr t"
    and s: "s = block_header_state.extend t \<lparr>blk = Some b, validated = False, in_current_chain = False, trxs = []\<rparr>"
    using run by (auto simp: block_state_next_def result_simps)
  have f: "block_header_state.truncate s = t" "block_num s = block_num t" "header s = header t" "bft_irreversible_blocknum s = bft_irreversible_blocknum t"
    by (simp_all add: s block_header_state.truncate_def block_header_state.extend_def)
  have room': "block_num (block_header_state.truncate p) + 1 < 2 ^ 32" using room by simp
  note n = next_state_ok [OF t ok room']
  have "bft_irreversible_blocknum t = bft_irreversible_blocknum (block_header_state.truncate p)" by (rule next_state_bft [OF t])
  then show ?thesis using n(1,2,7) f by (simp add: prev_def block_header_state.truncate_def)
qed

lemma add_block_inv:
  assumes inv: "fork_inv db" and room: "\<forall>i\<in>set (index db). block_num (obj db i) + 1 < 2 ^ 32" and run: "add_block c hdr b trust db = Inr (i, db')"
  shows "fork_inv db' \<and> head_best db'"
proof -
  obtain p b0 s where p: "get_block (previous (hdr b0)) db = Some p" and s: "block_state_next c hdr p b0 trust = Inr s"
    and r: "add_state s db = Inr db'" using run by (auto simp: add_block_def result_simps)
  have ok: "fork_ok db" using inv by (simp add: fork_inv_def)
  have pi: "p = obj db (bs_id p)" "bs_id p \<in> set (index db)"
    using p fork_ok_get [OF ok] fork_ok_obj [OF ok] by (auto split: if_splits)
  have "hs_ok (block_header_state.truncate p)" "block_num p + 1 < 2 ^ 32" using inv room pi by (auto simp: fork_inv_def)
  from block_state_next_ok [OF s this] pi have "extends db s" by (auto simp: extends_def)
  from add_state_inv [OF inv this r] show ?thesis by blast
qed

section \<open>Irreversibility by confirmations\<close>

definition raise :: "nat \<Rightarrow> ('k, 's, 'b) block_state \<Rightarrow> ('k, 's, 'b) block_state" where
  "raise num b = (if bft_irreversible_blocknum b < num then b\<lparr>bft_irreversible_blocknum := num\<rparr> else b)"

lemma raise_simps [simp]: "raise num (raise num b) = raise num b" "prev (raise num b) = prev b"
  by (simp_all add: raise_def prev_def)

lemma raise_bft_spec:
  assumes "fork_inv db" "set js \<subseteq> set (index db)" "raise_bft num js db = (up, db')"
  shows "fork_inv db' \<and> index db' = index db \<and> head_ptr db' = head_ptr db \<and> (\<forall>j. obj db' j = (if j \<in> set js then raise num (obj db j) else obj db j))
    \<and> set up = {j\<in>set js. bft_irreversible_blocknum (obj db j) < num}"
  using assms
proof (induction js arbitrary: db up)
  case (Cons j js)
  show ?case
  proof (cases "bft_irreversible_blocknum (obj db j) < num")
    case True
    let ?d = "modify_block j (\<lambda>b. b\<lparr>bft_irreversible_blocknum := num\<rparr>) db"
    obtain up1 where r: "raise_bft num js ?d = (up1, db')" "up = j # up1" using Cons.prems(3) True by (auto split: prod.splits)
    have inv: "fork_inv ?d" using modify_inv [OF Cons.prems(1) _ mild_updates(4)] Cons.prems(2) by simp
    have o: "obj ?d x = (if x = j then raise num (obj db j) else obj db x)" for x using True by (simp add: obj_modify raise_def)
    have IH: "fork_inv db' \<and> index db' = index ?d \<and> head_ptr db' = head_ptr ?d \<and> (\<forall>x. obj db' x = (if x \<in> set js then raise num (obj ?d x) else obj ?d x))
        \<and> set up1 = {x\<in>set js. bft_irreversible_blocknum (obj ?d x) < num}"
      by (rule Cons.IH [OF inv _ r(1)]) (use Cons.prems(2) in simp)
    have "set up = {x\<in>set (j # js). bft_irreversible_blocknum (obj db x) < num}"
      using IH r(2) True by (auto simp: o raise_def split: if_splits)
    then show ?thesis using IH by (auto simp: o)
  next
    case False
    then have r: "raise_bft num js db = (up, db')" "raise num (obj db j) = obj db j" using Cons.prems(3) by (auto simp: raise_def)
    have "fork_inv db' \<and> index db' = index db \<and> head_ptr db' = head_ptr db \<and> (\<forall>x. obj db' x = (if x \<in> set js then raise num (obj db x) else obj db x))
        \<and> set up = {x\<in>set js. bft_irreversible_blocknum (obj db x) < num}"
      by (rule Cons.IH [OF Cons.prems(1) _ r(1)]) (use Cons.prems(2) in simp)
    then show ?thesis using False r(2) by auto
  qed
qed simp

definition kids :: "('k, 's, 'b) fork_db \<Rightarrow> block_id_type set \<Rightarrow> block_id_type set" where
  "kids db A = {j\<in>set (index db). prev (obj db j) \<in> A}"

lemma bft_layer_spec:
  assumes "fork_inv db" "bft_layer num layer db = (up, db')"
  shows "fork_inv db' \<and> index db' = index db \<and> head_ptr db' = head_ptr db
    \<and> (\<forall>j. obj db' j = (if j \<in> kids db (set layer) then raise num (obj db j) else obj db j))
    \<and> set up = {j\<in>kids db (set layer). bft_irreversible_blocknum (obj db j) < num}"
  using assms
proof (induction layer arbitrary: db up)
  case Nil
  then show ?case by (simp add: kids_def)
next
  case (Cons i layer)
  obtain up1 d1 up2 where r: "raise_bft num (children i db) db = (up1, d1)" "bft_layer num layer d1 = (up2, db')" "up = up1 @ up2"
    using Cons.prems by (auto split: prod.splits)
  have c: "set (children i db) = kids db {i}" by (auto simp: children_def kids_def)
  have "set (children i db) \<subseteq> set (index db)" by (auto simp: children_def)
  note d1 = raise_bft_spec [OF Cons.prems(1) this r(1), unfolded c]
  have p: "prev (obj d1 j) = prev (obj db j)" for j using d1 by simp
  have ix: "index d1 = index db" using d1 by blast
  have k: "kids d1 A = kids db A" for A by (simp only: kids_def p ix)
  have IH: "fork_inv db' \<and> index db' = index d1 \<and> head_ptr db' = head_ptr d1
      \<and> (\<forall>j. obj db' j = (if j \<in> kids db (set layer) then raise num (obj d1 j) else obj d1 j))
      \<and> set up2 = {j\<in>kids db (set layer). bft_irreversible_blocknum (obj d1 j) < num}"
    using Cons.IH [OF _ r(2)] d1 unfolding k by blast
  have u: "kids db (set (i # layer)) = kids db {i} \<union> kids db (set layer)" by (auto simp: kids_def)
  have "obj db' j = (if j \<in> kids db (set (i # layer)) then raise num (obj db j) else obj db j)" for j
    unfolding u using IH d1 by simp
  moreover have "set up = {j\<in>kids db (set (i # layer)). bft_irreversible_blocknum (obj db j) < num}"
    unfolding u using IH d1 r(3) by (auto simp: raise_def split: if_splits)
  ultimately show ?case using IH d1 by simp
qed


lemma branch_mono:
  assumes "x \<in> branch_of db i" "index db' = index db" "\<And>j. prev (obj db' j) = prev (obj db j)"
  shows "x \<in> branch_of db' i"
  using assms(1) by induction (use assms(2,3) in \<open>auto intro: branch_of.intros\<close>)

lemma branch_cong:
  assumes "index db' = index db" "\<And>j. prev (obj db' j) = prev (obj db j)"
  shows "branch_of db' i = branch_of db i"
  using branch_mono [of _ db i db'] branch_mono [of _ db' i db] assms by auto

lemma bft_loop_spec:
  assumes "fork_inv db"
  shows "\<exists>S. fork_inv (bft_loop num q db) \<and> index (bft_loop num q db) = index db \<and> head_ptr (bft_loop num q db) = head_ptr db
    \<and> (\<forall>j. obj (bft_loop num q db) j = (if j \<in> S then raise num (obj db j) else obj db j))
    \<and> kids db (set q) \<subseteq> S \<and> (\<forall>x\<in>S. bft_irreversible_blocknum (obj db x) < num \<longrightarrow> kids db {x} \<subseteq> S)
    \<and> S \<subseteq> (\<Union>x\<in>set q. branch_of db x) \<inter> set (index db)"
  using assms
proof (induction num q db rule: bft_loop.induct)
  case (1 num q db)
  show ?case
  proof (cases "q = []")
    case True
    then show ?thesis using 1(2) by (subst bft_loop.simps)+ (auto simp: kids_def intro!: exI [of _ "{}"])
  next
    case False
    obtain up d1 where l: "bft_layer num q db = (up, d1)" by (cases "bft_layer num q db")
    note d1 = bft_layer_spec [OF 1(2) l]
    let ?K = "kids db (set q)" and ?r = "bft_loop num up d1"
    have step: "bft_loop num q db = ?r" using False l by (subst bft_loop.simps) simp
    have ix: "index d1 = index db" and p: "\<And>j. prev (obj d1 j) = prev (obj db j)" using d1 by simp_all
    have k: "kids d1 A = kids db A" for A by (simp only: kids_def ix p)
    have b: "branch_of d1 x = branch_of db x" for x by (rule branch_cong [OF ix p])
    obtain S where S: "fork_inv ?r" "index ?r = index d1" "head_ptr ?r = head_ptr d1" "\<And>j. obj ?r j = (if j \<in> S then raise num (obj d1 j) else obj d1 j)"
        "kids db (set up) \<subseteq> S" "\<And>x. x \<in> S \<Longrightarrow> bft_irreversible_blocknum (obj d1 x) < num \<Longrightarrow> kids db {x} \<subseteq> S"
        "S \<subseteq> (\<Union>x\<in>set up. branch_of db x) \<inter> set (index db)"
      using 1(1) [OF False l [symmetric]] d1 unfolding k b ix by blast
    have up: "set up = {j\<in>?K. bft_irreversible_blocknum (obj db j) < num}" using d1 by blast
    have "obj ?r j = (if j \<in> ?K \<union> S then raise num (obj db j) else obj db j)" for j using S(4) d1 by simp
    moreover have "kids db {x} \<subseteq> ?K \<union> S" if x: "x \<in> ?K \<union> S" "bft_irreversible_blocknum (obj db x) < num" for x
    proof (cases "x \<in> ?K")
      case True
      then have "kids db {x} \<subseteq> kids db (set up)" using up x(2) by (auto simp: kids_def)
      then show ?thesis using S(5) by blast
    next
      case False
      then show ?thesis using S(6) [of x] x d1 by auto
    qed
    moreover have "?K \<subseteq> (\<Union>x\<in>set q. branch_of db x) \<inter> set (index db)"
      by (auto simp: kids_def intro: branch_of.branch_step [OF branch_of.branch_root])
    moreover have "S \<subseteq> (\<Union>x\<in>set q. branch_of db x)"
    proof
      fix y assume "y \<in> S"
      then obtain x where x: "x \<in> set up" "y \<in> branch_of db x" using S(7) by blast
      then have "x \<in> set (children (prev (obj db x)) db)" "prev (obj db x) \<in> set q" using up by (auto simp: kids_def children_def)
      then show "y \<in> (\<Union>x\<in>set q. branch_of db x)" using branch_child x(2) by blast
    qed
    ultimately show ?thesis unfolding step using S d1 by (intro exI [of _ "?K \<union> S"]) auto
  qed
qed

text \<open>A block never has a lower confirmed irreversible number than its predecessor.\<close>

definition bft_mono :: "('k, 's, 'b) fork_db \<Rightarrow> bool" where
  "bft_mono db \<longleftrightarrow> (\<forall>j\<in>set (index db). prev (obj db j) \<in> set (index db) \<longrightarrow>
     bft_irreversible_blocknum (obj db (prev (obj db j))) \<le> bft_irreversible_blocknum (obj db j))"

lemma set_bft_spec:
  assumes inv: "fork_inv db" and mono: "bft_mono db" and i: "i \<in> set (index db)" and up: "bft_irreversible_blocknum (obj db i) \<le> block_num (obj db i)"
  shows "\<exists>db'. set_bft_irreversible i db = Inr db' \<and> fork_inv db' \<and> index db' = index db \<and> head_ptr db' = head_ptr db
    \<and> (\<forall>j\<in>set (index db). obj db' j = (if j \<in> branch_of db i then raise (block_num (obj db i)) (obj db j) else obj db j)) \<and> bft_mono db'"
proof -
  let ?n = "block_num (obj db i)"
  let ?d = "modify_block i (\<lambda>b. b\<lparr>bft_irreversible_blocknum := block_num b\<rparr>) db"
  have ok: "fork_ok db" using inv by (simp add: fork_inv_def)
  have run: "set_bft_irreversible i db = Inr (bft_loop ?n [i] ?d)" using fork_ok_at [OF ok i] by (simp add: set_bft_irreversible_def)
  have o: "obj ?d j = (if j = i then raise ?n (obj db i) else obj db j)" for j using up by (auto simp: obj_modify raise_def)
  have p: "prev (obj ?d j) = prev (obj db j)" for j by (simp add: o)
  have k: "kids ?d A = kids db A" for A by (simp only: kids_def p modify_frame)
  have b: "branch_of ?d x = branch_of db x" for x by (rule branch_cong) (simp_all add: p)
  have inv1: "fork_inv ?d" by (rule modify_inv [OF inv i mild_updates(5)])
  let ?r = "bft_loop ?n [i] ?d"
  obtain S where S: "fork_inv ?r" "index ?r = index db" "head_ptr ?r = head_ptr db" "\<And>j. obj ?r j = (if j \<in> S then raise ?n (obj ?d j) else obj ?d j)"
      "kids db {i} \<subseteq> S" "\<And>x. x \<in> S \<Longrightarrow> bft_irreversible_blocknum (obj ?d x) < ?n \<Longrightarrow> kids db {x} \<subseteq> S" "S \<subseteq> branch_of db i \<inter> set (index db)"
    using bft_loop_spec [OF inv1, of ?n "[i]"] unfolding k b by (auto simp: k b)
  have r: "obj ?r j = (if j \<in> insert i S then raise ?n (obj db j) else obj db j)" for j using S(4) by (simp add: o)
  have high: "j \<in> insert i S \<or> ?n \<le> bft_irreversible_blocknum (obj db j)" if "j \<in> branch_of db i" for j
    using that
  proof induction
    case (branch_step x j)
    show ?case
    proof (cases "?n \<le> bft_irreversible_blocknum (obj db x) \<and> x \<in> set (index db)")
      case True
      then show ?thesis using mono branch_step.hyps(2,3) unfolding bft_mono_def by (metis order_trans)
    next
      case False
      have "x \<in> set (index db)" using branch_step.hyps(1) i by cases auto
      then have low: "\<not> ?n \<le> bft_irreversible_blocknum (obj db x)" using False by blast
      then have "x \<in> insert i S" using branch_step.IH by blast
      moreover have "kids db {x} \<subseteq> S" if "x \<noteq> i" "x \<in> S" using S(6) [of x] that low by (simp add: o)
      ultimately have "kids db {x} \<subseteq> S" using S(5) by blast
      then show ?thesis using branch_step.hyps by (auto simp: kids_def)
    qed
  qed simp
  have res: "obj ?r j = (if j \<in> branch_of db i then raise ?n (obj db j) else obj db j)" for j
    using high [of j] S(7) branch_of.branch_root [of i db] by (auto simp: r raise_def)
  have "bft_mono ?r" unfolding bft_mono_def
  proof (intro ballI impI)
    fix j assume j: "j \<in> set (index ?r)" "prev (obj ?r j) \<in> set (index ?r)"
    have pj: "prev (obj ?r j) = prev (obj db j)" by (simp add: res)
    have "bft_irreversible_blocknum (obj db (prev (obj db j))) \<le> bft_irreversible_blocknum (obj db j)" using mono j S(2) pj by (simp add: bft_mono_def)
    moreover have "prev (obj db j) \<in> branch_of db i \<Longrightarrow> j \<in> branch_of db i" using branch_of.branch_step j(1) S(2) by metis
    ultimately show "bft_irreversible_blocknum (obj ?r (prev (obj ?r j))) \<le> bft_irreversible_blocknum (obj ?r j)"
      unfolding pj by (auto simp: res raise_def)
  qed
  then show ?thesis using run S res by blast
qed


section \<open>Branches\<close>

text \<open>A branch, newest block first: each block builds on the next one, and all are in the container.\<close>

fun branch :: "('k, 's, 'b) fork_db \<Rightarrow> ('k, 's, 'b) block_state list \<Rightarrow> bool" where
  "branch db [] = True"
| "branch db [b] = (get_block (bs_id b) db = Some b)"
| "branch db (b # b' # bs) = (get_block (bs_id b) db = Some b \<and> prev b = bs_id b' \<and> branch db (b' # bs))"

lemma branch_Cons: "bs \<noteq> [] \<Longrightarrow> branch db (b # bs) \<longleftrightarrow> get_block (bs_id b) db = Some b \<and> prev b = bs_id (hd bs) \<and> branch db bs"
  by (cases bs) auto

lemma branch_append: "bs \<noteq> [] \<Longrightarrow> branch db (as @ bs) \<longleftrightarrow> branch db as \<and> branch db bs \<and> (as \<noteq> [] \<longrightarrow> prev (last as) = bs_id (hd bs))"
  by (induction db as rule: branch.induct) (auto simp: neq_Nil_conv)

definition in_db :: "('k, 's, 'b) fork_db \<Rightarrow> ('k, 's, 'b) block_state \<Rightarrow> bool" where
  "in_db db b \<longleftrightarrow> get_block (bs_id b) db = Some b"

lemma in_db_iff:
  assumes ok: "fork_ok db"
  shows "in_db db b \<longleftrightarrow> (\<exists>i\<in>set (index db). b = obj db i)"
  unfolding in_db_def fork_ok_get [OF ok] using fork_ok_obj [OF ok] by (auto split: if_splits intro: sym)

lemma predecessor:
  assumes ok: "fork_ok db" and r: "rooted root n db" and b: "in_db db b" "n + 1 < block_num b"
  obtains b' where "get_block (prev b) db = Some b'" "in_db db b'" "block_num b' + 1 = block_num b" "bs_id b' = prev b"
proof -
  obtain i where i: "i \<in> set (index db)" "b = obj db i" using b(1) in_db_iff [OF ok] by blast
  have p: "prev b \<in> set (index db)" "block_num (obj db (prev b)) + 1 = block_num b" using r i b(2) unfolding rooted_def by auto
  then show ?thesis using that [of "obj db (prev b)"] fork_ok_get [OF ok, of "prev b"] fork_ok_obj [OF ok p(1)] by (auto simp: in_db_def)
qed

lemma walk_back_spec:
  assumes ok: "fork_ok db" and r: "rooted root n db" and low: "n < m" and b: "in_db db b" "m \<le> block_num b"
  shows "\<exists>bs b'. walk_back db m b acc = Some (Inr (b', acc @ bs)) \<and> in_db db b' \<and> block_num b' = m \<and> branch db (bs @ [b'])
    \<and> hd (bs @ [b']) = b \<and> (\<forall>x\<in>set bs. m < block_num x)"
  using b
proof (induction "block_num b - m" arbitrary: b acc)
  case 0
  then show ?case by (intro exI [of _ "[]"]) (subst walk_back.simps, simp add: in_db_def)
next
  case (Suc d)
  then have gt: "m < block_num b" "n + 1 < block_num b" using low by auto
  obtain b1 where b1: "get_block (prev b) db = Some b1" "in_db db b1" "block_num b1 + 1 = block_num b" "bs_id b1 = prev b"
    using predecessor [OF ok r Suc(3) gt(2)] by blast
  have "d = block_num b1 - m" "m \<le> block_num b1" using Suc(2) b1(3) gt(1) by auto
  then obtain bs b' where w: "walk_back db m b1 (acc @ [b]) = Some (Inr (b', (acc @ [b]) @ bs))" "in_db db b'" "block_num b' = m" "branch db (bs @ [b'])"
      "hd (bs @ [b']) = b1" "\<forall>x\<in>set bs. m < block_num x"
    using Suc(1) [of b1 "acc @ [b]"] b1(2) by blast
  have "walk_back db m b acc = walk_back db m b1 (acc @ [b])" using gt b1 by (subst walk_back.simps) simp
  moreover have "branch db ((b # bs) @ [b'])" using w(4,5) Suc(3) b1(4) by (cases bs) (auto simp: in_db_def)
  ultimately show ?case using w gt by (intro exI [of _ "b # bs"] exI [of _ b']) auto
qed

text \<open>Two branches that end at one predecessor and share no block before their last.\<close>

definition branches_meet :: "('k, 's, 'b) fork_db \<Rightarrow> block_id_type \<Rightarrow> block_id_type \<Rightarrow> ('k, 's, 'b) block_state list \<Rightarrow> ('k, 's, 'b) block_state list \<Rightarrow> bool" where
  "branches_meet db i j p1 p2 \<longleftrightarrow> p1 \<noteq> [] \<and> p2 \<noteq> [] \<and> branch db p1 \<and> branch db p2 \<and> bs_id (hd p1) = i \<and> bs_id (hd p2) = j
     \<and> prev (last p1) = prev (last p2) \<and> block_num (last p1) = block_num (last p2)
     \<and> (\<forall>x\<in>set (butlast p1). \<forall>y\<in>set p2. x \<noteq> y) \<and> (\<forall>x\<in>set p1. \<forall>y\<in>set (butlast p2). x \<noteq> y)"

text \<open>Two blocks of one number: walk back until they share the predecessor.\<close>

lemma walk_both_spec:
  assumes ok: "fork_ok db" and r: "rooted root n db" and "in_db db b1" "in_db db b2" "block_num b1 = block_num b2"
  shows "\<exists>p1 p2. walk_both db b1 b2 acc1 acc2 = Some (Inr (acc1 @ p1, acc2 @ p2)) \<and> branches_meet db (bs_id b1) (bs_id b2) p1 p2
    \<and> hd p1 = b1 \<and> hd p2 = b2 \<and> (\<forall>x\<in>set p1. block_num x \<le> block_num b1) \<and> (\<forall>x\<in>set p2. block_num x \<le> block_num b1)"
  using assms(3-5)
proof (induction "block_num b1" arbitrary: b1 b2 acc1 acc2 rule: less_induct)
  case less
  show ?case
  proof (cases "prev b1 = prev b2")
    case True
    then have "walk_both db b1 b2 acc1 acc2 = Some (Inr (acc1 @ [b1], acc2 @ [b2]))" by (subst walk_both.simps) simp
    moreover have "branches_meet db (bs_id b1) (bs_id b2) [b1] [b2]" using less(2-4) True by (simp add: branches_meet_def in_db_def)
    ultimately show ?thesis using less(4) by fastforce
  next
    case False
    have gt: "n + 1 < block_num b1"
    proof (rule ccontr)
      assume "\<not> n + 1 < block_num b1"
      moreover obtain i j where "i \<in> set (index db)" "b1 = obj db i" "j \<in> set (index db)" "b2 = obj db j" using less(2,3) in_db_iff [OF ok] by blast
      ultimately show False using r False less(4) unfolding rooted_def by (metis Suc_eq_plus1 not_less_eq less_antisym)
    qed
    obtain c1 where c1: "get_block (prev b1) db = Some c1" "in_db db c1" "block_num c1 + 1 = block_num b1" "bs_id c1 = prev b1"
      using predecessor [OF ok r less(2) gt] by blast
    obtain c2 where c2: "get_block (prev b2) db = Some c2" "in_db db c2" "block_num c2 + 1 = block_num b2" "bs_id c2 = prev b2"
      using predecessor [OF ok r less(3)] gt less(4) by metis
    have lt: "block_num c1 < block_num b1" "block_num c1 = block_num c2" using c1(3) c2(3) less(4) by auto
    obtain p1 p2 where p: "walk_both db c1 c2 (acc1 @ [b1]) (acc2 @ [b2]) = Some (Inr ((acc1 @ [b1]) @ p1, (acc2 @ [b2]) @ p2))"
        and m: "branches_meet db (bs_id c1) (bs_id c2) p1 p2" and h: "hd p1 = c1" "hd p2 = c2"
        and low: "\<forall>x\<in>set p1. block_num x \<le> block_num c1" "\<forall>x\<in>set p2. block_num x \<le> block_num c1"
      using less(1) [OF lt(1) c1(2) c2(2) lt(2), of "acc1 @ [b1]" "acc2 @ [b2]"] by blast
    have w: "walk_both db b1 b2 acc1 acc2 = Some (Inr (acc1 @ b1 # p1, acc2 @ b2 # p2))"
      using False c1(1) c2(1) p by (subst walk_both.simps) simp
    have ne: "p1 \<noteq> []" "p2 \<noteq> []" "b1 \<noteq> b2" using m False by (auto simp: branches_meet_def)
    have "branch db p1" "branch db p2" using m by (auto simp: branches_meet_def)
    then have br: "branch db (b1 # p1)" "branch db (b2 # p2)" using ne(1,2) h less(2,3) c1(4) c2(4) by (simp_all add: branch_Cons in_db_def)
    have out: "b1 \<notin> set p2" "b2 \<notin> set p1" using low lt less(4) by fastforce+
    have "branches_meet db (bs_id b1) (bs_id b2) (b1 # p1) (b2 # p2)"
    proof -
      have "x \<noteq> y" if "x \<in> set (butlast (b1 # p1))" "y \<in> set (b2 # p2)" for x y
        using that m ne out in_set_butlastD [of x p1] unfolding branches_meet_def by (auto split: if_splits)
      moreover have "x \<noteq> y" if "x \<in> set (b1 # p1)" "y \<in> set (butlast (b2 # p2))" for x y
        using that m ne out in_set_butlastD [of y p2] unfolding branches_meet_def by (auto split: if_splits)
      moreover have "prev (last p1) = prev (last p2)" "block_num (last p1) = block_num (last p2)" using m by (simp_all add: branches_meet_def)
      ultimately show ?thesis unfolding branches_meet_def last_ConsR [OF ne(1)] last_ConsR [OF ne(2)] list.sel using br by blast
    qed
    moreover have "\<forall>x\<in>set (b1 # p1). block_num x \<le> block_num b1" "\<forall>x\<in>set (b2 # p2). block_num x \<le> block_num b1" using low lt less(4) by auto
    ultimately show ?thesis using w by (metis list.sel(1))
  qed
qed

lemma branches_meet_longer:
  assumes "branches_meet db (bs_id (hd p1)) j p1 p2" "branch db (bs @ [hd p1])" "\<And>x y. x \<in> set bs \<Longrightarrow> y \<in> set p2 \<Longrightarrow> x \<noteq> y"
  shows "branches_meet db (bs_id (hd (bs @ [hd p1]))) j (bs @ p1) p2"
proof -
  have h: "hd (bs @ p1) = hd (bs @ [hd p1])" using assms(1) by (cases bs) (auto simp: branches_meet_def)
  have b: "branch db (bs @ p1)"
    using assms(1,2) branch_append [of p1 db bs] branch_append [of "[hd p1]" db bs] by (auto simp: branches_meet_def)
  have "\<And>x y. x \<in> set bs \<Longrightarrow> y \<in> set (butlast p2) \<Longrightarrow> x \<noteq> y" using assms(3) in_set_butlastD by metis
  then show ?thesis using assms(1,3) b unfolding branches_meet_def h [symmetric] by (auto simp: butlast_append)
qed

lemma branches_meet_sym: "branches_meet db i j p1 p2 \<Longrightarrow> branches_meet db j i p2 p1"
  unfolding branches_meet_def by metis

lemma fetch_branch_spec:
  assumes inv: "fork_inv db" and i: "i \<in> set (index db)" and j: "j \<in> set (index db)"
  shows "\<exists>p1 p2. fetch_branch_from i j db = Some (Inr (p1, p2)) \<and> branches_meet db i j p1 p2"
proof -
  have ok: "fork_ok db" using inv by (simp add: fork_inv_def)
  obtain root n where r: "rooted root n db" using inv by (auto simp: fork_inv_def)
  let ?a = "obj db i" and ?b = "obj db j"
  have a: "in_db db ?a" "bs_id ?a = i" "get_block i db = Some ?a" "n < block_num ?a"
    using i in_db_iff [OF ok] fork_ok_obj [OF ok] fork_ok_get [OF ok] r by (auto simp: rooted_def)
  have b: "in_db db ?b" "bs_id ?b = j" "get_block j db = Some ?b" "n < block_num ?b"
    using j in_db_iff [OF ok] fork_ok_obj [OF ok] fork_ok_get [OF ok] r by (auto simp: rooted_def)
  have stay: "walk_back db m x acc = Some (Inr (x, acc))" if "block_num x \<le> m" for m x acc using that by (subst walk_back.simps) simp
  show ?thesis
  proof (cases "block_num ?b \<le> block_num ?a")
    case True
    obtain bs a' where w: "walk_back db (block_num ?b) ?a [] = Some (Inr (a', bs))" "in_db db a'" "block_num a' = block_num ?b" "branch db (bs @ [a'])"
        "hd (bs @ [a']) = ?a" "\<forall>x\<in>set bs. block_num ?b < block_num x"
      using walk_back_spec [OF ok r b(4) a(1) True, of "[]"] by auto
    obtain p1 p2 where p: "walk_both db a' ?b bs [] = Some (Inr (bs @ p1, p2))" "branches_meet db (bs_id a') j p1 p2" "hd p1 = a'"
        "\<forall>x\<in>set p2. block_num x \<le> block_num a'"
      using walk_both_spec [OF ok r w(2) b(1) w(3), of bs "[]"] b(2) by auto
    have f: "fetch_branch_from i j db = Some (Inr (bs @ p1, p2))"
      using a(3) b(3) w(1,3) p(1) by (simp add: fetch_branch_from_def stay)
    have m: "branches_meet db (bs_id (hd p1)) j p1 p2" using p by simp
    have "x \<noteq> y" if "x \<in> set bs" "y \<in> set p2" for x y using that w(3,6) p(4) by fastforce
    then have "branches_meet db i j (bs @ p1) p2" using branches_meet_longer [OF m, of bs] w(4,5) p(3) a(2) by simp
    then show ?thesis using f by blast
  next
    case False
    obtain bs b' where w: "walk_back db (block_num ?a) ?b [] = Some (Inr (b', bs))" "in_db db b'" "block_num b' = block_num ?a" "branch db (bs @ [b'])"
        "hd (bs @ [b']) = ?b" "\<forall>x\<in>set bs. block_num ?a < block_num x"
      using walk_back_spec [OF ok r a(4) b(1), of "[]"] False by auto
    obtain p1 p2 where p: "walk_both db ?a b' [] bs = Some (Inr (p1, bs @ p2))" "branches_meet db i (bs_id b') p1 p2" "hd p2 = b'"
        "\<forall>x\<in>set p1. block_num x \<le> block_num ?a"
      using walk_both_spec [OF ok r a(1) w(2) w(3) [symmetric], of "[]" bs] a(2) by auto
    have f: "fetch_branch_from i j db = Some (Inr (p1, bs @ p2))"
      using a(3) b(3) w(1,3) p(1) False by (simp add: fetch_branch_from_def stay)
    have m: "branches_meet db (bs_id (hd p2)) i p2 p1" using branches_meet_sym [OF p(2)] p(3) by simp
    have "x \<noteq> y" if "x \<in> set bs" "y \<in> set p1" for x y using that w(6) p(4) by fastforce
    then have "branches_meet db j i (bs @ p2) p1" using branches_meet_longer [OF m, of bs] w(4,5) p(3) b(2) by simp
    then show ?thesis using f branches_meet_sym by blast
  qed
qed

section \<open>Runs of the fork database\<close>

datatype ('s, 'b) fork_op =
    Add_block "'b option" bool
  | Add_confirmation "'s header_confirmation"
  | Set_validity block_id_type bool
  | Mark_in_current_chain block_id_type bool
  | Remove_branch block_id_type

fun fork_step :: "('k, 's) crypto \<Rightarrow> ('b \<Rightarrow> ('k, 's) signed_block_header) \<Rightarrow> ('s, 'b) fork_op \<Rightarrow> ('k, 's, 'b) fork_db \<Rightarrow> ('k, 's, 'b) fork_db result" where
  "fork_step c hdr (Add_block b trust) db = bind_r (add_block c hdr b trust db) (\<lambda>(_, db). Inr db)"
| "fork_step c hdr (Add_confirmation conf) db = add_header_confirmation c conf db"
| "fork_step c hdr (Set_validity h valid) db = set_validity h valid db"
| "fork_step c hdr (Mark_in_current_chain h flag) db = mark_in_current_chain h flag db"
| "fork_step c hdr (Remove_branch i) db = remove i db"

text \<open>The confirmed irreversible numbers fit the tree.\<close>

definition fork_state :: "('k, 's, 'b) fork_db \<Rightarrow> bool" where
  "fork_state db \<longleftrightarrow> fork_inv db \<and> bft_mono db \<and> (\<forall>i\<in>set (index db). bft_irreversible_blocknum (obj db i) \<le> block_num (obj db i))"

lemma fork_state_subset:
  assumes "fork_state db" "fork_inv db'" "set (index db') \<subseteq> set (index db)" "obj db' = obj db"
  shows "fork_state db'"
  using assms by (auto simp: fork_state_def bft_mono_def)


lemma fork_state_cong:
  assumes st: "fork_state db" and inv: "fork_inv db'" and ix: "index db' = index db"
    and same: "\<And>j. prev (obj db' j) = prev (obj db j) \<and> block_num (obj db' j) = block_num (obj db j) \<and> bft_irreversible_blocknum (obj db' j) = bft_irreversible_blocknum (obj db j)"
  shows "fork_state db'"
  using st inv by (simp add: fork_state_def bft_mono_def ix same)

text \<open>No block of the container builds on a block that is only now added.\<close>

lemma no_link_to_new:
  assumes inv: "fork_inv db" and e: "extends db s" and j: "j \<in> set (index db)" and new: "bs_id s \<notin> set (index db)"
  shows "prev (obj db j) \<noteq> bs_id s"
proof
  assume p: "prev (obj db j) = bs_id s"
  obtain root n where r: "rooted root n db" "num_from_id root = n" using inv by (auto simp: fork_inv_def)
  have "block_num (obj db j) = n + 1" using r(1) j p new unfolding rooted_def by metis
  then have "bs_id s = root" using r(1) j p unfolding rooted_def by metis
  moreover have "num_from_id (bs_id s) = block_num s" using e by (simp add: extends_def hs_ok_def)
  moreover have "n + 1 < block_num s" using r(1) e unfolding rooted_def extends_def by auto
  ultimately show False using r(2) by simp
qed

lemma add_block_state:
  assumes st: "fork_state db" and room: "\<forall>i\<in>set (index db). block_num (obj db i) + 1 < 2 ^ 32" and run: "add_block c hdr b trust db = Inr (i, db')"
  shows "fork_state db' \<and> head_best db' \<and> (\<forall>m. (\<forall>j\<in>set (index db). block_num (obj db j) < m) \<longrightarrow> (\<forall>j\<in>set (index db'). block_num (obj db' j) < m + 1))"
proof -
  have inv: "fork_inv db" using st by (simp add: fork_state_def)
  have ok: "fork_ok db" using inv by (simp add: fork_inv_def)
  obtain p b0 s where p: "get_block (previous (hdr b0)) db = Some p" and s: "block_state_next c hdr p b0 trust = Inr s"
    and r: "add_state s db = Inr db'" using run by (auto simp: add_block_def result_simps)
  have pi: "p = obj db (bs_id p)" "bs_id p \<in> set (index db)"
    using p fork_ok_get [OF ok] fork_ok_obj [OF ok] by (auto split: if_splits)
  have "hs_ok (block_header_state.truncate p)" "block_num p + 1 < 2 ^ 32" using inv room pi by (auto simp: fork_inv_def)
  note n = block_state_next_ok [OF s this]
  then have e: "extends db s" using pi by (auto simp: extends_def)
  note a = add_state_inv [OF inv e r]
  have sub: "set (index db') \<subseteq> insert (bs_id s) (set (index db))" and new: "bs_id s \<notin> set (index db)" using a by blast+
  have o: "obj db' j = (if j = bs_id s then s else obj db j)" for j using a by blast
  have bs: "bft_irreversible_blocknum (obj db (prev s)) \<le> bft_irreversible_blocknum s" "bft_irreversible_blocknum s \<le> block_num s"
      "prev s \<in> set (index db)" "block_num s = block_num (obj db (prev s)) + 1"
    using n pi st by (auto simp: fork_state_def)
  have "bft_mono db'" unfolding bft_mono_def
  proof (intro ballI impI)
    fix j assume j: "j \<in> set (index db')" "prev (obj db' j) \<in> set (index db')"
    show "bft_irreversible_blocknum (obj db' (prev (obj db' j))) \<le> bft_irreversible_blocknum (obj db' j)"
    proof (cases "j = bs_id s")
      case True
      then show ?thesis using bs(1,3) new by (auto simp: o)
    next
      case False
      then have jd: "j \<in> set (index db)" using j sub by auto
      have "prev (obj db j) \<noteq> bs_id s" by (rule no_link_to_new [OF inv e jd new])
      then have "prev (obj db j) \<in> set (index db)" using j(2) False sub by (auto simp: o)
      then have "bft_irreversible_blocknum (obj db (prev (obj db j))) \<le> bft_irreversible_blocknum (obj db j)" using st jd by (simp add: fork_state_def bft_mono_def)
      then show ?thesis using False \<open>prev (obj db j) \<noteq> bs_id s\<close> by (simp add: o)
    qed
  qed
  moreover have "\<forall>i\<in>set (index db'). bft_irreversible_blocknum (obj db' i) \<le> block_num (obj db' i)" using st bs(2) sub by (auto simp: fork_state_def o)
  moreover have "\<forall>j\<in>set (index db'). block_num (obj db' j) < m + 1" if "\<forall>j\<in>set (index db). block_num (obj db j) < m" for m
    using that bs(3,4) sub by (auto simp: o less_Suc_eq)
  ultimately show ?thesis using a by (auto simp: fork_state_def)
qed


lemma branch_numbers:
  assumes inv: "fork_inv db" and "j \<in> branch_of db i" and i: "i \<in> set (index db)"
  shows "j \<in> set (index db) \<and> block_num (obj db i) \<le> block_num (obj db j)"
  using assms(2)
proof induction
  case (branch_step x j)
  obtain root n where r: "rooted root n db" "num_from_id root = n" using inv by (auto simp: fork_inv_def)
  have x: "x \<in> set (index db)" using branch_step.IH by blast
  have "block_num (obj db j) = n + 1 \<Longrightarrow> x = root" using r(1) branch_step.hyps unfolding rooted_def by metis
  moreover have "x \<noteq> root"
  proof
    assume "x = root"
    moreover have "num_from_id x = block_num (obj db x)" using inv x fork_ok_obj [of db x] by (auto simp: fork_inv_def hs_ok_def)
    ultimately show False using r x unfolding rooted_def by (metis less_irrefl)
  qed
  ultimately have "block_num (obj db x) + 1 = block_num (obj db j)" using r(1) branch_step.hyps unfolding rooted_def by metis
  then show ?case using branch_step by simp
qed (use i in simp)

lemma remove_state:
  assumes st: "fork_state db" and run: "remove i db = Inr db'"
  shows "fork_state db' \<and> head_best db' \<and> set (index db') \<subseteq> set (index db) \<and> obj db' = obj db"
proof -
  have inv: "fork_inv db" using st by (simp add: fork_state_def)
  then have ok: "fork_ok db" by (simp add: fork_inv_def)
  note d = remove_Inr [OF ok run]
  show ?thesis using remove_inv [OF inv run] fork_state_subset [OF st] d by auto
qed

lemma confirmation_state:
  fixes db db' :: "('k, 's, 'b) fork_db"
  assumes st: "fork_state db" and run: "add_header_confirmation c conf db = Inr db'"
  shows "fork_state db' \<and> index db' = index db \<and> head_ptr db' = head_ptr db \<and> (\<forall>j\<in>set (index db). block_num (obj db' j) = block_num (obj db j))"
proof -
  let ?i = "conf_block_id conf"
  obtain b and s :: "('k, 's) block_header_state" where b: "get_block ?i db = Some b"
    and r: "(let db = poke ?i (\<lambda>b. b\<lparr>confirmations := confirmations s\<rparr>) db; b = obj db ?i
     in if bft_irreversible_blocknum b < block_num b \<and> length (confirmations b) \<ge> length (producers (active_schedule b)) * 2 div 3 + 1
        then set_bft_irreversible ?i db else Inr db) = Inr db'"
    using run unfolding add_header_confirmation_def by (auto simp: result_simps)
  let ?d = "poke ?i (\<lambda>b. b\<lparr>confirmations := confirmations s\<rparr>) db"
  have inv: "fork_inv db" using st by (simp add: fork_state_def)
  have i: "?i \<in> set (index db)" using b by (auto simp: get_block_def split: if_splits)
  have inv1: "fork_inv ?d" by (rule poke_inv [OF inv mild_updates(3)]) (simp_all add: num_key_def lib_key_def)
  have ix: "index ?d = index db" "head_ptr ?d = head_ptr db" by (simp_all add: poke_def)
  have o: "prev (obj ?d j) = prev (obj db j) \<and> block_num (obj ?d j) = block_num (obj db j)
      \<and> bft_irreversible_blocknum (obj ?d j) = bft_irreversible_blocknum (obj db j)" for j by (simp add: poke_def obj_def prev_def)
  have st1: "fork_state ?d" by (rule fork_state_cong [OF st inv1 ix(1) o])
  show ?thesis
  proof (cases "bft_irreversible_blocknum (obj ?d ?i) < block_num (obj ?d ?i) \<and> length (confirmations (obj ?d ?i)) \<ge> length (producers (active_schedule (obj ?d ?i))) * 2 div 3 + 1")
    case False
    then have "db' = ?d" using r by (simp only: Let_def if_False sum.inject)
    then show ?thesis using st1 ix o by simp
  next
    case True
    then have run1: "set_bft_irreversible ?i ?d = Inr db'" using r by (simp only: Let_def simp_thms if_True)
    obtain d2 where d2: "set_bft_irreversible ?i ?d = Inr d2" "fork_inv d2" "index d2 = index ?d" "head_ptr d2 = head_ptr ?d"
        "\<And>j. j \<in> set (index ?d) \<Longrightarrow> obj d2 j = (if j \<in> branch_of ?d ?i then raise (block_num (obj ?d ?i)) (obj ?d j) else obj ?d j)" "bft_mono d2"
      using set_bft_spec [OF inv1 _ _ less_imp_le, of ?i] True st1 i ix by (auto simp: fork_state_def)
    have "d2 = db'" using run1 d2(1) by simp
    have n: "block_num (obj db' j) = block_num (obj db j)" if "j \<in> set (index db)" for j
      using d2(5) [of j] that ix o \<open>d2 = db'\<close> by (simp add: raise_def)
    have "bft_irreversible_blocknum (obj db' j) \<le> block_num (obj db' j)" if j: "j \<in> set (index db)" for j
    proof -
      have "block_num (obj ?d ?i) \<le> block_num (obj ?d j)" if "j \<in> branch_of ?d ?i" using branch_numbers [OF inv1 that] i ix by simp
      then show ?thesis using d2(5) [of j] j ix st1 \<open>d2 = db'\<close> by (auto simp: raise_def fork_state_def)
    qed
    then show ?thesis using d2 ix n \<open>d2 = db'\<close> by (simp add: fork_state_def)
  qed
qed


fun confirms :: "('s, 'b) fork_op \<Rightarrow> bool" where
  "confirms (Add_confirmation conf) = True"
| "confirms _ = False"

lemma fork_step_state:
  assumes st: "fork_state db" and room: "\<forall>i\<in>set (index db). block_num (obj db i) < m" "m < 2 ^ 32" and run: "fork_step c hdr op1 db = Inr db'"
  shows "fork_state db' \<and> (\<forall>i\<in>set (index db'). block_num (obj db' i) < m + 1) \<and> (head_best db \<longrightarrow> \<not> confirms op1 \<longrightarrow> head_best db')"
proof (cases op1)
  case (Add_block b trust)
  then obtain i where r: "add_block c hdr b trust db = Inr (i, db')" using run by (auto simp: result_simps)
  have "\<forall>i\<in>set (index db). block_num (obj db i) + 1 < 2 ^ 32" using room by force
  from add_block_state [OF st this r] room(1) show ?thesis by blast
next
  case (Add_confirmation conf)
  then have r: "add_header_confirmation c conf db = Inr db'" using run by simp
  from confirmation_state [OF st r] room(1) Add_confirmation show ?thesis by fastforce
next
  case (Set_validity h valid)
  show ?thesis
  proof (cases valid)
    case False
    then have "remove h db = Inr db'" using run Set_validity by (simp add: set_validity_def)
    from remove_state [OF st this] room(1) show ?thesis by fastforce
  next
    case True
    then have d: "db' = poke h (\<lambda>b. b\<lparr>validated := True\<rparr>) db" using run Set_validity by (simp add: set_validity_def)
    have inv: "fork_inv db" "set_validity h valid db = Inr db'" using st run Set_validity by (auto simp: fork_state_def)
    have ix: "index db' = index db" by (simp add: d poke_def)
    have o: "prev (obj db' j) = prev (obj db j) \<and> block_num (obj db' j) = block_num (obj db j)
        \<and> bft_irreversible_blocknum (obj db' j) = bft_irreversible_blocknum (obj db j)" for j by (simp add: d poke_def obj_def prev_def)
    have "fork_state db'" using fork_state_cong [OF st _ ix o] set_validity_inv [OF inv] by blast
    then show ?thesis using set_validity_inv [OF inv] room(1) ix o by fastforce
  qed
next
  case (Mark_in_current_chain h flag)
  then have run': "mark_in_current_chain h flag db = Inr db'" and inv: "fork_inv db" using run st by (auto simp: fork_state_def)
  have ix: "index db' = index db" using run' by (auto simp: mark_in_current_chain_def result_simps split: if_splits)
  have o: "prev (obj db' j) = prev (obj db j) \<and> block_num (obj db' j) = block_num (obj db j)
      \<and> bft_irreversible_blocknum (obj db' j) = bft_irreversible_blocknum (obj db j)" for j
    using run' by (auto simp: mark_in_current_chain_def result_simps obj_modify prev_def split: if_splits)
  have "fork_state db'" using fork_state_cong [OF st _ ix o] mark_inv [OF inv run'] by blast
  then show ?thesis using mark_inv [OF inv run'] room(1) ix o by fastforce
next
  case (Remove_branch i)
  then have "remove i db = Inr db'" using run by simp
  from remove_state [OF st this] room(1) show ?thesis by fastforce
qed

definition fork_run :: "('k, 's) crypto \<Rightarrow> ('b \<Rightarrow> ('k, 's) signed_block_header) \<Rightarrow> ('s, 'b) fork_op list \<Rightarrow> ('k, 's, 'b) fork_db \<Rightarrow> ('k, 's, 'b) fork_db result" where
  "fork_run c hdr = fold_r (fork_step c hdr)"

lemma fork_run_state:
  assumes "fork_state db" "\<forall>i\<in>set (index db). block_num (obj db i) < m" "m + length ops \<le> 2 ^ 32" "fork_run c hdr ops db = Inr db'"
  shows "fork_state db' \<and> (head_best db \<longrightarrow> list_all (\<lambda>op1. \<not> confirms op1) ops \<longrightarrow> head_best db')"
  using assms
proof (induction ops arbitrary: db m)
  case Nil
  then show ?case by (simp add: fork_run_def)
next
  case (Cons op1 ops)
  obtain d1 where r: "fork_step c hdr op1 db = Inr d1" "fork_run c hdr ops d1 = Inr db'" using Cons.prems(4) by (auto simp: fork_run_def result_simps)
  have s: "fork_state d1" "\<forall>i\<in>set (index d1). block_num (obj d1 i) < m + 1" "head_best db \<longrightarrow> \<not> confirms op1 \<longrightarrow> head_best d1"
    using fork_step_state [OF Cons.prems(1,2) _ r(1)] Cons.prems(3) by auto
  from Cons.IH [OF s(1,2) _ r(2)] Cons.prems(3) s(3) show ?case by auto
qed

text \<open>The first block.\<close>

lemma fork_set_first:
  assumes id: "bs_id s = header_id c (block_header.truncate (header s))" and hs: "hs_ok (block_header_state.truncate s)"
    and n: "num_from_id (prev s) + 1 = block_num s" and bft: "bft_irreversible_blocknum s \<le> block_num s" and self: "prev s \<noteq> bs_id s"
  shows "\<exists>db. fork_set c s empty_fork_db = (Inr (), db) \<and> fork_state db \<and> head_best db \<and> index db = [bs_id s] \<and> obj db (bs_id s) = s"
proof -
  obtain d1 where ins: "insert_block s empty_fork_db = (True, d1)" by (simp add: insert_block_def empty_fork_db_def Let_def)
  note d = insert_ok [OF empty_ok ins]
  have ix: "index d1 = [bs_id s]" "head_ptr d1 = None" using d by (simp_all add: empty_fork_db_def)
  let ?d = "d1\<lparr>head_ptr := Some (bs_id s)\<rparr>"
  have run: "fork_set c s empty_fork_db = (Inr (), ?d)" using id ix by (simp add: fork_set_def bind_s_def then_s_def ins act_simps)
  have "rooted (prev s) (num_from_id (prev s)) ?d" using d ix n by (simp add: rooted_def)
  moreover have "announced (prev s) ?d" using d by (simp add: announced_def empty_fork_db_def)
  ultimately have "fork_inv ?d" using d ix hs by (auto simp: fork_inv_def)
  moreover have "bft_mono ?d" using d ix self by (simp add: bft_mono_def)
  ultimately show ?thesis using d ix bft run by (auto simp: fork_state_def head_best_def best_def)
qed

section \<open>Properties of the fork database\<close>

text \<open>A block and two blocks that build on it.\<close>

definition demo_id :: "nat \<Rightarrow> nat \<Rightarrow> block_id_type" where
  "demo_id n k = \<lparr>hash0 = of_nat n * 0x01000000, hash1 = of_nat k, hash2 = 0, hash3 = 0\<rparr>"

definition demo_node :: "nat \<Rightarrow> nat \<Rightarrow> block_id_type \<Rightarrow> (nat, nat, unit) block_state" where
  "demo_node n k p = block_header_state.extend
     (demo_genesis\<lparr>bs_id := demo_id n k, block_num := n, header := (header demo_genesis)\<lparr>previous := p\<rparr>\<rparr>)
     \<lparr>blk = Some (), validated = False, in_current_chain = False, trxs = []\<rparr>"

definition demo_tree :: "(nat, nat, unit) fork_db" where
  "demo_tree =
     \<lparr>objects = [demo_id 3 0 \<mapsto> demo_node 3 0 (demo_id 2 0), demo_id 4 0 \<mapsto> demo_node 4 0 (demo_id 3 0), demo_id 4 2 \<mapsto> demo_node 4 2 (demo_id 3 0)],
      index = [demo_id 3 0, demo_id 4 0, demo_id 4 2], by_block_num = [demo_id 3 0, demo_id 4 0, demo_id 4 2],
      by_lib_block_num = [demo_id 4 0, demo_id 4 2, demo_id 3 0], head_ptr = Some (demo_id 4 0), irreversible_log = []\<rparr>"

lemma demo_ids [simp]: "demo_id 2 0 \<noteq> demo_id 4 0" "demo_id 2 0 \<noteq> demo_id 3 0" "demo_id 2 0 \<noteq> demo_id 4 2" "demo_id 3 0 \<noteq> demo_id 4 k" "demo_id 4 k \<noteq> demo_id 3 0" "demo_id 4 0 \<noteq> demo_id 4 2" "demo_id 4 2 \<noteq> demo_id 4 0"
  "num_from_id (demo_id 3 k) = 3" "num_from_id (demo_id 4 k) = 4" "num_from_id (demo_id 2 0) = 2"
  by (simp_all add: demo_id_def num_from_id_def endian_reverse_u32_def )

lemma demo_node_fields [simp]: "bs_id (demo_node n k p) = demo_id n k" "block_num (demo_node n k p) = n" "prev (demo_node n k p) = p"
  "dpos_irreversible_blocknum (demo_node n k p) = 0" "bft_irreversible_blocknum (demo_node n k p) = 0" "in_current_chain (demo_node n k p) = False"
  "blk (demo_node n k p) = Some ()" "validated (demo_node n k p) = False"
  by (simp_all add: demo_node_def block_header_state.defs prev_def demo_genesis_def)

lemma demo_node_ok: "n = num_from_id (demo_id n k) \<Longrightarrow> hs_ok (block_header_state.truncate (demo_node n k p))"
  by (simp add: hs_ok_def demo_node_def block_header_state.defs demo_genesis_def flat_ok_def)

lemma demo_tree_fields [simp]: "obj demo_tree (demo_id 3 0) = demo_node 3 0 (demo_id 2 0)"
  "obj demo_tree (demo_id 4 0) = demo_node 4 0 (demo_id 3 0)" "obj demo_tree (demo_id 4 2) = demo_node 4 2 (demo_id 3 0)"
  "index demo_tree = [demo_id 3 0, demo_id 4 0, demo_id 4 2]" "by_block_num demo_tree = [demo_id 3 0, demo_id 4 0, demo_id 4 2]"
  "by_lib_block_num demo_tree = [demo_id 4 0, demo_id 4 2, demo_id 3 0]" "head_ptr demo_tree = Some (demo_id 4 0)"
  by (simp_all add: demo_tree_def obj_def)

lemma demo_tree_state: "fork_state demo_tree"
proof -
  have "\<forall>i\<in>set (index demo_tree). \<exists>b. objects demo_tree i = Some b \<and> bs_id b = i" by (simp add: demo_tree_def)
  then have "fork_ok demo_tree" by (simp add: fork_ok_def seq_ok_def num_key_def lib_key_def insert_commute)
  moreover have "rooted (demo_id 2 0) 2 demo_tree" by (simp add: rooted_def)
  moreover have "\<forall>i\<in>set (index demo_tree). hs_ok (block_header_state.truncate (obj demo_tree i))" by (simp add: demo_node_ok)
  moreover have "announced (demo_id 2 0) demo_tree" by (simp add: announced_def demo_tree_def)
  moreover have "num_from_id (demo_id 2 0) = 2" by simp
  ultimately have "fork_inv demo_tree" unfolding fork_inv_def by blast
  then show ?thesis by (simp add: fork_state_def bft_mono_def)
qed


text \<open>
  C10. Whatever sequence of blocks, confirmations, validity verdicts, marks and removals the fork
  database accepts after its first block, it stays a tree over one irreversible block: its three indices agree,
  every block above the lowest level has its predecessor in the container with the number just below, the
  blocks announced as irreversible are one chain without gaps that ends at the block all others build on, and
  confirmed irreversible numbers never fall along a branch. Without confirmations the head is always a
  block that no other beats in (irreversible number, confirmed number, number).
\<close>

theorem fork_database_invariant:
  assumes first: "fork_set c s empty_fork_db = (Inr (), db0)" "hs_ok (block_header_state.truncate s)"
      "num_from_id (prev s) + 1 = block_num s" "bft_irreversible_blocknum s \<le> block_num s"
    and room: "block_num s + length ops < 2 ^ 32" and run: "fork_run c hdr ops db0 = Inr db"
  shows "fork_ok db \<and> (\<exists>root. rooted root (num_from_id root) db \<and> announced root db) \<and> bft_mono db
    \<and> (list_all (\<lambda>op1. \<not> confirms op1) ops \<longrightarrow> head_best db)"
proof -
  have self: "prev s \<noteq> bs_id s" using first(2,3) by (auto simp: hs_ok_def)
  have id: "bs_id s = header_id c (block_header.truncate (header s))"
    using first(1) by (auto simp: fork_set_def bind_s_def then_s_def act_simps split: prod.splits sum.splits if_splits)
  obtain d where "fork_set c s empty_fork_db = (Inr (), d)" "fork_state d" "head_best d" "index d = [bs_id s]" "obj d (bs_id s) = s"
    using fork_set_first [OF id first(2,3,4) self] by blast
  then have d: "fork_state db0" "head_best db0" "\<forall>i\<in>set (index db0). block_num (obj db0 i) < block_num s + 1" using first(1) by auto
  from fork_run_state [OF d(1,3) _ run] room d(2) show ?thesis by (auto simp: fork_state_def fork_inv_def)
qed

definition demo_first :: "(nat, nat, unit) block_state" where
  "demo_first = block_header_state.extend demo_genesis \<lparr>blk = None, validated = False, in_current_chain = False, trxs = []\<rparr>"

theorem fork_database_invariant_witness:
  "\<exists>db0 db. fork_set demo_crypto demo_first empty_fork_db = (Inr (), db0)
     \<and> fork_run demo_crypto (\<lambda>_. demo_header) [Set_validity (bs_id demo_first) True, Mark_in_current_chain (bs_id demo_first) True] db0 = Inr db
     \<and> fork_ok db \<and> head_best db"
proof -
  let ?s = demo_first
  have n0: "num_from_id null_digest = 0" by (simp add: null_digest_def num_from_id_def endian_reverse_u32_def)
  have f: "block_header_state.truncate ?s = demo_genesis" "header ?s = header demo_genesis" "block_num ?s = 1" "bft_irreversible_blocknum ?s = 0"
      "bs_id ?s = bs_id demo_genesis" "prev ?s = null_digest" "in_current_chain ?s = False"
    by (simp_all add: demo_first_def block_header_state.defs demo_genesis_def prev_def empty_header_def)
  have id: "bs_id ?s = header_id demo_crypto (block_header.truncate (header ?s))"
    by (simp add: f header_id_def header_digest_def header_block_num_def demo_genesis_def demo_crypto_def empty_header_def
        block_header.truncate_def n0 u32_def Let_def) (simp add: endian_reverse_u32_def null_digest_def)
  have hs: "hs_ok (block_header_state.truncate ?s)" "num_from_id (prev ?s) + 1 = block_num ?s" "bft_irreversible_blocknum ?s \<le> block_num ?s"
    using demo_genesis_ok f n0 by simp_all
  have "prev ?s \<noteq> bs_id ?s" by (simp add: f demo_genesis_def null_digest_def)
  then obtain db0 where db0: "fork_set demo_crypto ?s empty_fork_db = (Inr (), db0)" "index db0 = [bs_id ?s]"
    using fork_set_first [OF id hs] by blast
  let ?ops = "[Set_validity (bs_id ?s) True, Mark_in_current_chain (bs_id ?s) True]"
  obtain db where db: "fork_run demo_crypto (\<lambda>_. demo_header) ?ops db0 = Inr db"
  proof -
    have "\<exists>d. mark_in_current_chain (bs_id ?s) True x = Inr d" if "index x = [bs_id ?s]" for x :: "(nat, nat, unit) fork_db"
      using that by (simp add: mark_in_current_chain_def eos_assert_def)
    moreover have "index (poke (bs_id ?s) (\<lambda>b. b\<lparr>validated := True\<rparr>) db0) = [bs_id ?s]" using db0(2) by (simp add: poke_def)
    ultimately obtain d where "mark_in_current_chain (bs_id ?s) True (poke (bs_id ?s) (\<lambda>b. b\<lparr>validated := True\<rparr>) db0) = Inr d" by blast
    then show ?thesis using that by (simp add: fork_run_def set_validity_def)
  qed
  from fork_database_invariant [OF db0(1) hs _ db] f(3) db0(1) db show ?thesis by auto
qed

text \<open>
  C11. From any two blocks of the database, \<open>fetch_branch_from\<close> ends and returns their two branches, newest
  block first: each block of a branch builds on the next one, the last blocks have one predecessor and one number,
  and the branches share no other block.
\<close>

theorem fork_branches_meet:
  fixes db :: "('k, 's, 'b) fork_db"
  assumes "fork_state db" "i \<in> set (index db)" "j \<in> set (index db)"
  shows "\<exists>p1 p2. fetch_branch_from i j db = Some (Inr (p1, p2)) \<and> branches_meet db i j p1 p2"
  using assms fetch_branch_spec by (auto simp: fork_state_def)

theorem fork_branches_meet_witness:
  "\<exists>p1 p2. fetch_branch_from (demo_id 4 0) (demo_id 4 2) demo_tree = Some (Inr (p1, p2))
     \<and> branches_meet demo_tree (demo_id 4 0) (demo_id 4 2) p1 p2"
  by (rule fork_branches_meet [OF demo_tree_state]) simp_all

text \<open>
  C32. Removing a block takes it and everything built on it out of the container and nothing else, changes no object
  and leaves a best block as head; the call reads past the end exactly when nothing would be left.
\<close>

theorem fork_remove_exact:
  assumes "fork_state db"
  shows "if set (index db) \<subseteq> branch_of db i then remove i db = Inl undefined_behaviour
    else \<exists>db'. remove i db = Inr db' \<and> fork_state db' \<and> head_best db' \<and> set (index db') = set (index db) - branch_of db i
      \<and> objects db' = objects db \<and> irreversible_log db' = irreversible_log db"
proof -
  have ok: "fork_ok db" using assms by (simp add: fork_state_def fork_inv_def)
  show ?thesis using remove_spec [OF ok, of i] remove_state [OF assms, of i] remove_objects [of i db] by (auto split: if_splits)
qed

theorem fork_remove_exact_witness:
  "\<exists>db'. remove (demo_id 4 0) demo_tree = Inr db' \<and> set (index db') = set (index demo_tree) - branch_of demo_tree (demo_id 4 0) \<and> demo_id 4 2 \<in> set (index db')"
proof -
  have out: "x = demo_id 4 0" if "x \<in> branch_of demo_tree (demo_id 4 0)" for x
    using that by induction auto
  from out [of "demo_id 4 2"] have no: "demo_id 4 2 \<notin> branch_of demo_tree (demo_id 4 0)" by auto
  then have "\<not> set (index demo_tree) \<subseteq> branch_of demo_tree (demo_id 4 0)" by simp

  with no fork_remove_exact [OF demo_tree_state, of "demo_id 4 0"] show ?thesis by auto
qed

text \<open>
  C33. Marking a block irreversible by confirmations raises the confirmed irreversible number of it and of
  every block built on it to at least its number, touches no other block and nothing else of those, and keeps the invariants;
  the head is left alone.
\<close>

theorem fork_bft_exact:
  fixes db :: "('k, 's, 'b) fork_db"
  assumes "fork_state db" "i \<in> set (index db)"
  shows "\<exists>db'. set_bft_irreversible i db = Inr db' \<and> fork_inv db' \<and> bft_mono db' \<and> index db' = index db \<and> head_ptr db' = head_ptr db
    \<and> (\<forall>j\<in>set (index db). obj db' j = (if j \<in> branch_of db i
         then (obj db j)\<lparr>bft_irreversible_blocknum := max (bft_irreversible_blocknum (obj db j)) (block_num (obj db i))\<rparr> else obj db j))"
proof -
  have *: "raise n b = b\<lparr>bft_irreversible_blocknum := max (bft_irreversible_blocknum b) n\<rparr>" for n and b :: "('k, 's, 'b) block_state"
    by (simp add: raise_def max_def)
  show ?thesis using set_bft_spec [of db i] assms unfolding * by (auto simp: fork_state_def)
qed

theorem fork_bft_exact_witness:
  "\<exists>db'. set_bft_irreversible (demo_id 3 0) demo_tree = Inr db' \<and> bft_irreversible_blocknum (obj db' (demo_id 4 2)) = 3"
proof -
  have "demo_id 4 2 \<in> branch_of demo_tree (demo_id 3 0)"
    by (rule branch_of.branch_step [OF branch_of.branch_root]) simp_all
  with fork_bft_exact [OF demo_tree_state, of "demo_id 3 0"] show ?thesis by auto
qed

section \<open>Where the code falls short\<close>

text \<open>After a block is confirmed the head is not chosen again: another block can be better than it.\<close>

lemma confirmed_block_not_head:
  "\<exists>db. set_bft_irreversible (demo_id 4 2) demo_tree = Inr db \<and> head_best demo_tree \<and> \<not> head_best db"
proof -
  have "fork_inv demo_tree" "bft_mono demo_tree" using demo_tree_state by (auto simp: fork_state_def)
  from set_bft_spec [OF this, of "demo_id 4 2"] obtain db where db: "set_bft_irreversible (demo_id 4 2) demo_tree = Inr db"
      "index db = index demo_tree" "head_ptr db = head_ptr demo_tree"
      "\<forall>j\<in>set (index demo_tree). obj db j = (if j \<in> branch_of demo_tree (demo_id 4 2) then raise (block_num (obj demo_tree (demo_id 4 2))) (obj demo_tree j) else obj demo_tree j)"
    by auto
  have "x = demo_id 4 2" if "x \<in> branch_of demo_tree (demo_id 4 2)" for x
    using that by induction auto
  from this [of "demo_id 4 0"] have no: "demo_id 4 0 \<notin> branch_of demo_tree (demo_id 4 2)" by auto
  have "obj db (demo_id 4 2) = raise 4 (demo_node 4 2 (demo_id 3 0))" "obj db (demo_id 4 0) = demo_node 4 0 (demo_id 3 0)"
    using db(4) no branch_of.branch_root [of "demo_id 4 2" demo_tree] by auto
  then have "\<not> head_best db" using db(2,3) by (auto simp: head_best_def best_def raise_def lib_key_def)
  moreover have "head_best demo_tree" by (auto simp: head_best_def best_def lib_key_def)
  ultimately show ?thesis using db(1) by blast
qed

text \<open>
  \<open>prune\<close> reads an erased block: beside the pruned block there is a sibling whose child comes next by number, as when no block of that level is
  marked as in the current chain and the child arrived first.
\<close>

definition demo_siblings :: "(nat, nat, unit) fork_db" where
  "demo_siblings =
     \<lparr>objects = [demo_id 3 0 \<mapsto> demo_node 3 0 (demo_id 2 0), demo_id 3 2 \<mapsto> demo_node 3 2 (demo_id 2 0),
        demo_id 4 2 \<mapsto> demo_node 4 2 (demo_id 3 2), demo_id 4 0 \<mapsto> demo_node 4 0 (demo_id 3 0)],
      index = [demo_id 3 0, demo_id 3 2, demo_id 4 2, demo_id 4 0], by_block_num = [demo_id 3 0, demo_id 3 2, demo_id 4 2, demo_id 4 0],
      by_lib_block_num = [demo_id 4 2, demo_id 4 0, demo_id 3 0, demo_id 3 2], head_ptr = Some (demo_id 4 2), irreversible_log = []\<rparr>"

lemma demo_siblings_state: "fork_state demo_siblings"
proof -
  have n: "demo_id 3 0 \<noteq> demo_id 3 2" "demo_id 3 2 \<noteq> demo_id 3 0" "demo_id 3 2 \<noteq> demo_id 4 k" "demo_id 4 k \<noteq> demo_id 3 2" for k by (simp_all add: demo_id_def)
  have o: "obj demo_siblings (demo_id 3 0) = demo_node 3 0 (demo_id 2 0)" "obj demo_siblings (demo_id 3 2) = demo_node 3 2 (demo_id 2 0)"
      "obj demo_siblings (demo_id 4 2) = demo_node 4 2 (demo_id 3 2)" "obj demo_siblings (demo_id 4 0) = demo_node 4 0 (demo_id 3 0)"
    by (simp_all add: demo_siblings_def obj_def n)
  have f: "index demo_siblings = [demo_id 3 0, demo_id 3 2, demo_id 4 2, demo_id 4 0]" "by_block_num demo_siblings = [demo_id 3 0, demo_id 3 2, demo_id 4 2, demo_id 4 0]"
      "by_lib_block_num demo_siblings = [demo_id 4 2, demo_id 4 0, demo_id 3 0, demo_id 3 2]" by (simp_all add: demo_siblings_def)
  have "\<forall>i\<in>set (index demo_siblings). \<exists>b. objects demo_siblings i = Some b \<and> bs_id b = i" by (simp add: demo_siblings_def n)
  then have "fork_ok demo_siblings" by (simp add: fork_ok_def seq_ok_def num_key_def lib_key_def insert_commute f o n)
  moreover have "rooted (demo_id 2 0) 2 demo_siblings" by (simp add: rooted_def f o)
  moreover have "\<forall>i\<in>set (index demo_siblings). hs_ok (block_header_state.truncate (obj demo_siblings i))" by (simp add: demo_node_ok f o)
  moreover have "announced (demo_id 2 0) demo_siblings" by (simp add: announced_def demo_siblings_def)
  moreover have "num_from_id (demo_id 2 0) = 2" by simp
  ultimately have "fork_inv demo_siblings" unfolding fork_inv_def by blast
  then show ?thesis by (simp add: fork_state_def bft_mono_def f o)
qed

lemma prune_reads_erased_block: "fork_state demo_siblings \<and> prune (demo_id 3 0) demo_siblings = Inl undefined_behaviour"
proof -
  have n: "demo_id 3 0 \<noteq> demo_id 3 2" "demo_id 3 2 \<noteq> demo_id 3 0" "demo_id 3 2 \<noteq> demo_id 4 k" "demo_id 4 k \<noteq> demo_id 3 2"
      "demo_id 2 0 \<noteq> demo_id 3 2" "demo_id 2 0 \<noteq> demo_id 4 2" "demo_id 3 0 \<noteq> demo_id 4 k" for k by (simp_all add: demo_id_def)
  have ok: "fork_ok demo_siblings" using demo_siblings_state by (simp add: fork_state_def fork_inv_def)
  have "prune (demo_id 3 0) demo_siblings = prune_level (demo_id 3 0) demo_siblings"
    by (rule prune_first [OF ok]) (simp add: demo_siblings_def first_def)
  also have "\<dots> = Inl undefined_behaviour"
    by (simp add: prune_level_def demo_siblings_def erase_block_def obj_def n Let_def after_in_def first_def remove_def take_best_head_def children_def at_iter_def option_to_result_def)
  finally show ?thesis using demo_siblings_state by blast
qed

end
