(* ===== verification/ForkSwitch.thy ===== *)
theory ForkSwitch
  imports ForkChain
begin

text \<open>
  How the controller follows the best branch (\<^verbatim>\<open>libraries/chain/controller.cpp\<close>): applying a block in a
  session of the state database, popping blocks, and \<open>maybe_switch_forks\<close>, which unwinds the old
  branch, applies the new one and puts the old one back when a block fails.

  The contents of the state database are an opaque value; \<open>undo_states\<close> are the contents at the start
  of each open session, newest first (theory \<open>Undo\<close> shows that the undo stack of chainbase is such a
  list).  What the transactions of a block do to the contents is the parameter \<open>exec\<close>: the outcome,
  the contents reached, and the transactions the pending block holds by then.  Billing reads the wall clock, so the same block
  applied twice on the same contents may end differently; the executor is therefore told the number of the application,
  counted in \<open>applications\<close>, and nothing is assumed of how its results at different applications are related.
\<close>

section \<open>The controller\<close>

datatype block_status = Irreversible | Validated | Complete | Incomplete

record switch_config =
  speculative :: bool
  disable_replay_opts :: bool
  replaying :: bool

record ('k, 's, 'b, 'd) controller =
  fdb :: "('k, 's, 'b) fork_db"
  chain_head :: block_id_type
  contents :: 'd
  undo_states :: "'d list"
  db_revision :: int
  reversible_blocks :: "nat \<rightharpoonup> 'b"
  unapplied_transactions :: "sha256 set"
  applications :: nat

type_synonym ('b, 'd) executor = "nat \<Rightarrow> block_status \<Rightarrow> 'b \<Rightarrow> 'd \<Rightarrow> unit result \<times> 'd \<times> sha256 list"

definition the_head :: "('k, 's, 'b, 'd) controller \<Rightarrow> ('k, 's, 'b) block_state" where
  "the_head c = obj (fdb c) (chain_head c)"

definition skip_db_sessions :: "switch_config \<Rightarrow> block_status \<Rightarrow> bool" where
  "skip_db_sessions cfg s \<longleftrightarrow> s = Irreversible \<and> \<not> disable_replay_opts cfg"

definition start_session :: "('k, 's, 'b, 'd) controller \<Rightarrow> ('k, 's, 'b, 'd) controller" where
  "start_session c = c\<lparr>undo_states := contents c # undo_states c, db_revision := db_revision c + 1\<rparr>"

definition undo_session :: "('k, 's, 'b, 'd) controller \<Rightarrow> ('k, 's, 'b, 'd) controller" where
  "undo_session c = (case undo_states c of
       [] \<Rightarrow> c
     | d # ds \<Rightarrow> c\<lparr>contents := d, undo_states := ds, db_revision := db_revision c - 1\<rparr>)"

text \<open>A call on the fork database, and an exception handler.\<close>

definition on_fork :: "(('k, 's, 'b) fork_db \<Rightarrow> ('k, 's, 'b) fork_db result) \<Rightarrow> (('k, 's, 'b, 'd) controller, unit) act" where
  "on_fork f c = (case f (fdb c) of Inl e \<Rightarrow> (Inl e, c) | Inr db \<Rightarrow> (Inr (), c\<lparr>fdb := db\<rparr>))"

definition catch_s :: "('s, 'a) act \<Rightarrow> (chain_error \<Rightarrow> ('s, 'a) act) \<Rightarrow> ('s, 'a) act" where
  "catch_s m h s = (case m s of
       (Inl e, s') \<Rightarrow> if e = undefined_behaviour then (Inl e, s') else h e s'
     | (Inr x, s') \<Rightarrow> (Inr x, s'))"

section \<open>Applying and popping a block\<close>

text \<open>Leaving the scope of the pending block, with or without \<open>abort_block\<close> collecting its transactions.\<close>

definition abort_block :: "switch_config \<Rightarrow> bool \<Rightarrow> sha256 list \<Rightarrow> ('k, 's, 'b, 'd) controller \<Rightarrow> ('k, 's, 'b, 'd) controller" where
  "abort_block cfg session ts c =
     (let c = (if speculative cfg then c\<lparr>unapplied_transactions := unapplied_transactions c \<union> set ts\<rparr> else c)
      in if session then undo_session c else c)"

definition commit_block :: "switch_config \<Rightarrow> bool \<Rightarrow> 'b \<Rightarrow> sha256 list \<Rightarrow> (('k, 's, 'b, 'd) controller, unit) act" where
  "commit_block cfg session b ts c =
     (if replaying cfg then (Inr (), c)
      else
        let n = block_num (the_head c) + 1 in
        if reversible_blocks c n \<noteq> None then (Inl logic_error, abort_block cfg session ts c)
        else (Inr (), c\<lparr>reversible_blocks := (reversible_blocks c)(n \<mapsto> b)\<rparr>))"

definition begin_session :: "switch_config \<Rightarrow> block_status \<Rightarrow> (('k, 's, 'b, 'd) controller, unit) act" where
  "begin_session cfg s =
     when_s (\<not> skip_db_sessions cfg s) (
     then_s (\<lambda>c. require (db_revision c = int (block_num (the_head c))) database_exception c) (
     updates start_session))"

definition apply_block :: "switch_config \<Rightarrow> ('b, 'd) executor \<Rightarrow> 'b option \<Rightarrow> block_status \<Rightarrow> (('k, 's, 'b, 'd) controller, unit) act" where
  "apply_block cfg exec b s =
     bind_s (reads (\<lambda>_. option_to_result undefined_behaviour b)) (\<lambda>b.
     let session = \<not> skip_db_sessions cfg s in
     then_s (begin_session cfg s) (\<lambda>c.
     case exec (applications c) s b (contents c) of (r, d, ts) \<Rightarrow>
       let c = c\<lparr>contents := d, applications := applications c + 1\<rparr> in
       case r of
         Inl e \<Rightarrow> (Inl e, abort_block cfg session ts c)
       | Inr _ \<Rightarrow> commit_block cfg session b ts c))"

definition pop_block :: "switch_config \<Rightarrow> (('k, 's, 'b, 'd) controller, unit) act" where
  "pop_block cfg =
     bind_s (reads (\<lambda>c. option_to_result block_validate_exception (get_block (prev (the_head c)) (fdb c)))) (\<lambda>p.
     then_s (updates (\<lambda>c. c\<lparr>reversible_blocks := (reversible_blocks c)(block_num (the_head c) := None)\<rparr>)) (
     then_s (when_s (speculative cfg) (
       then_s (\<lambda>c. require (blk (the_head c) \<noteq> None) block_validate_exception c)
              (updates (\<lambda>c. c\<lparr>unapplied_transactions := unapplied_transactions c \<union> set (trxs (the_head c))\<rparr>)))) (
     updates (\<lambda>c. undo_session (c\<lparr>chain_head := bs_id p\<rparr>)))))"

section \<open>Switching forks\<close>

definition unwind :: "switch_config \<Rightarrow> block_id_type list \<Rightarrow> (('k, 's, 'b, 'd) controller, unit) act" where
  "unwind cfg = for_each (\<lambda>i. then_s (on_fork (mark_in_current_chain i False)) (pop_block cfg))"

definition expect_head :: "block_id_type \<Rightarrow> (('k, 's, 'b, 'd) controller, unit) act" where
  "expect_head i c = require (chain_head c = i) fork_database_exception c"

definition apply_next :: "switch_config \<Rightarrow> ('b, 'd) executor \<Rightarrow> block_id_type \<Rightarrow> (('k, 's, 'b, 'd) controller, unit) act" where
  "apply_next cfg exec i =
     then_s (\<lambda>c. apply_block cfg exec (blk (obj (fdb c) i)) (if validated (obj (fdb c) i) then Validated else Complete) c) (
     then_s (updates (\<lambda>c. c\<lparr>chain_head := i\<rparr>)) (
     then_s (on_fork (mark_in_current_chain i True)) (
     updates (\<lambda>c. c\<lparr>fdb := poke i (\<lambda>b. b\<lparr>validated := True\<rparr>) (fdb c)\<rparr>))))"

definition reapply :: "switch_config \<Rightarrow> ('b, 'd) executor \<Rightarrow> block_id_type list \<Rightarrow> (('k, 's, 'b, 'd) controller, unit) act" where
  "reapply cfg exec = for_each (\<lambda>i.
     then_s (\<lambda>c. apply_block cfg exec (blk (obj (fdb c) i)) Validated c) (
     then_s (updates (\<lambda>c. c\<lparr>chain_head := i\<rparr>))
            (on_fork (mark_in_current_chain i True))))"

text \<open>
  The loop over the new branch, oldest block first; \<open>applied\<close> are the blocks before \<open>ritr\<close>, newest
  first, which is the range from \<open>ritr.base()\<close> on.
\<close>

fun switch_loop :: "switch_config \<Rightarrow> ('b, 'd) executor \<Rightarrow> block_id_type list \<Rightarrow> block_id_type \<Rightarrow> block_id_type list \<Rightarrow> block_id_type list \<Rightarrow>
    (('k, 's, 'b, 'd) controller, unit) act" where
  "switch_loop cfg exec second base applied [] = ret ()"
| "switch_loop cfg exec second base applied (i # rest) =
     bind_s (catch_s (then_s (apply_next cfg exec i) (ret None)) (\<lambda>e. ret (Some e))) (\<lambda>except.
     case except of
       None \<Rightarrow> switch_loop cfg exec second base (i # applied) rest
     | Some e \<Rightarrow>
         then_s (on_fork (set_validity i False)) (
         then_s (unwind cfg applied) (
         then_s (expect_head base) (
         then_s (reapply cfg exec (rev second)) (
         throw e)))))"

definition maybe_switch_forks :: "switch_config \<Rightarrow> ('b, 'd) executor \<Rightarrow> block_status \<Rightarrow> (('k, 's, 'b, 'd) controller, unit) act" where
  "maybe_switch_forks cfg exec s =
     bind_s (reads (\<lambda>c. option_to_result undefined_behaviour (map_option (obj (fdb c)) (head_ptr (fdb c))))) (\<lambda>new_head.
     bind_s (reads (\<lambda>c. Inr (bs_id (the_head c)))) (\<lambda>head_id.
     if prev new_head = head_id then
       catch_s (
         then_s (apply_block cfg exec (blk new_head) s) (
         then_s (on_fork (mark_in_current_chain (bs_id new_head) True)) (
         then_s (on_fork (set_validity (bs_id new_head) True)) (
         updates (\<lambda>c. c\<lparr>chain_head := bs_id new_head\<rparr>)))))
       (\<lambda>e. then_s (on_fork (set_validity (bs_id new_head) False)) (throw e))
     else if bs_id new_head \<noteq> head_id then
       bind_s (reads (\<lambda>c. case fetch_branch_from (bs_id new_head) head_id (fdb c) of None \<Rightarrow> Inl undefined_behaviour | Some r \<Rightarrow> r)) (\<lambda>(first, second).
       then_s (unwind cfg (map bs_id second)) (
       then_s (expect_head (prev (last second)))
              (switch_loop cfg exec (map bs_id second) (prev (last second)) [] (rev (map bs_id first)))))
     else ret ()))"

section \<open>Steps\<close>

text \<open>Two states of the fork database whose objects differ at most in their marks.\<close>

definition alike :: "('k, 's, 'b) fork_db \<Rightarrow> ('k, 's, 'b) fork_db \<Rightarrow> bool" where
  "alike f g \<longleftrightarrow> (\<forall>j. bs_id (obj g j) = bs_id (obj f j) \<and> block_num (obj g j) = block_num (obj f j)
     \<and> prev (obj g j) = prev (obj f j) \<and> blk (obj g j) = blk (obj f j) \<and> lib_key (obj g j) = lib_key (obj f j))"

definition marked :: "('k, 's, 'b, 'd) controller \<Rightarrow> block_id_type \<Rightarrow> bool" where
  "marked c j = in_current_chain (obj (fdb c) j)"

definition checked :: "('k, 's, 'b, 'd) controller \<Rightarrow> block_id_type \<Rightarrow> bool" where
  "checked c j = validated (obj (fdb c) j)"

lemma alike_refl [simp]: "alike f f" by (simp add: alike_def)

lemma alike_trans: "alike f g \<Longrightarrow> alike g h \<Longrightarrow> alike f h" by (simp add: alike_def)

lemma alikeD: "alike f g \<Longrightarrow> block_num (obj g j) = block_num (obj f j)" "alike f g \<Longrightarrow> prev (obj g j) = prev (obj f j)"
  "alike f g \<Longrightarrow> blk (obj g j) = blk (obj f j)"
  by (simp_all add: alike_def)

lemma mark_state:
  assumes st: "fork_state db" and i: "i \<in> set (index db)"
  shows "\<exists>db'. mark_in_current_chain i flag db = Inr db' \<and> fork_state db' \<and> alike db db' \<and> index db' = index db \<and> head_ptr db' = head_ptr db
    \<and> (\<forall>j. in_current_chain (obj db' j) = (if j = i then flag else in_current_chain (obj db j))) \<and> (\<forall>j. validated (obj db' j) = validated (obj db j))"
proof (cases "in_current_chain (obj db i) = flag")
  case True
  then show ?thesis using st by (auto simp: mark_in_current_chain_def)
next
  case False
  let ?d = "modify_block i (\<lambda>b. b\<lparr>in_current_chain := flag\<rparr>) db"
  have run: "mark_in_current_chain i flag db = Inr ?d" using False i by (simp add: mark_in_current_chain_def)
  have inv: "fork_inv ?d" using st i by (intro modify_inv mild_updates) (auto simp: fork_state_def)
  have "fork_state ?d" by (rule fork_state_cong [OF st inv]) (simp_all add: obj_modify prev_def)
  then show ?thesis using run by (auto simp: obj_modify alike_def prev_def lib_key_def)
qed

lemma poke_state:
  assumes st: "fork_state db"
  shows "fork_state (poke i (\<lambda>b. b\<lparr>validated := True\<rparr>) db) \<and> alike db (poke i (\<lambda>b. b\<lparr>validated := True\<rparr>) db)
    \<and> index (poke i (\<lambda>b. b\<lparr>validated := True\<rparr>) db) = index db \<and> head_ptr (poke i (\<lambda>b. b\<lparr>validated := True\<rparr>) db) = head_ptr db
    \<and> (\<forall>j. in_current_chain (obj (poke i (\<lambda>b. b\<lparr>validated := True\<rparr>) db) j) = in_current_chain (obj db j))
    \<and> (\<forall>j. validated (obj (poke i (\<lambda>b. b\<lparr>validated := True\<rparr>) db) j) = (j = i \<or> validated (obj db j)))"
proof -
  let ?d = "poke i (\<lambda>b. b\<lparr>validated := True\<rparr>) db"
  have inv: "fork_inv ?d" using st by (intro poke_inv mild_updates) (auto simp: fork_state_def num_key_def lib_key_def)
  have o: "obj ?d j = (if j = i then (obj db i)\<lparr>validated := True\<rparr> else obj db j)" for j by (simp add: poke_def obj_def)
  have x: "index ?d = index db" "head_ptr ?d = head_ptr db" by (simp_all add: poke_def)
  have "fork_state ?d" by (rule fork_state_cong [OF st inv x(1)]) (simp add: o prev_def)
  then show ?thesis using x by (auto simp: o alike_def prev_def lib_key_def)
qed

lemma linked_numbers:
  assumes st: "fork_state db" and i: "i \<in> set (index db)" "prev (obj db i) \<in> set (index db)"
  shows "block_num (obj db i) = block_num (obj db (prev (obj db i))) + 1"
  using branch_numbers
proof -
  obtain root n where r: "rooted root n db" "num_from_id root = n" using st by (auto simp: fork_state_def fork_inv_def)
  have ok: "fork_ok db" "hs_ok (block_header_state.truncate (obj db (prev (obj db i))))" using st i by (auto simp: fork_state_def fork_inv_def)
  have "n < block_num (obj db (prev (obj db i)))" using r(1) i(2) unfolding rooted_def by blast
  moreover have "block_num (obj db (prev (obj db i))) = num_from_id (prev (obj db i))" using ok fork_ok_obj [OF ok(1) i(2)] by (auto simp: hs_ok_def)
  ultimately have "prev (obj db i) \<noteq> root" using r(2) by auto
  then show ?thesis using r(1) i(1) unfolding rooted_def by (metis)
qed

text \<open>Where the chain stands: head, contents, saved contents, blocks kept as reversible.\<close>

definition stands :: "('k, 's, 'b) fork_db \<Rightarrow> ('k, 's, 'b, 'd) controller \<Rightarrow> block_id_type \<Rightarrow> 'd \<times> 'd list \<times> (nat \<rightharpoonup> 'b) \<Rightarrow> bool" where
  "stands f c h x \<longleftrightarrow> fork_state (fdb c) \<and> alike f (fdb c) \<and> chain_head c = h \<and> db_revision c = int (block_num (obj f h))
     \<and> contents c = fst x \<and> undo_states c = fst (snd x) \<and> reversible_blocks c = snd (snd x)"

text \<open>The same fork database but for marks; the marks of the first set off, those of the second on.\<close>

definition carried :: "('k, 's, 'b, 'd) controller \<Rightarrow> ('k, 's, 'b, 'd) controller \<Rightarrow> bool" where
  "carried c c' \<longleftrightarrow> index (fdb c') = index (fdb c) \<and> head_ptr (fdb c') = head_ptr (fdb c)"

lemma pop_block_run:
  assumes s: "stands f c h (d, d' # ds, m)" and p: "prev (obj f h) \<in> set (index (fdb c))" and h: "h \<in> set (index (fdb c))" and b: "blk (obj f h) \<noteq> None"
  shows "\<exists>c'. pop_block cfg c = (Inr (), c') \<and> stands f c' (prev (obj f h)) (d', ds, m(block_num (obj f h) := None)) \<and> fdb c' = fdb c
    \<and> applications c' = applications c"
proof -
  have st: "fork_state (fdb c)" and a: "alike f (fdb c)" and x: "chain_head c = h" "undo_states c = d' # ds" "reversible_blocks c = m"
      "db_revision c = int (block_num (obj f h))"
    using s by (auto simp: stands_def)
  have ok: "fork_ok (fdb c)" using st by (simp add: fork_state_def fork_inv_def)
  have hd: "prev (the_head c) = prev (obj f h)" "block_num (the_head c) = block_num (obj f h)" "blk (the_head c) \<noteq> None"
    using a x b by (simp_all add: the_head_def alike_def)
  have n: "block_num (obj f h) = block_num (obj f (prev (obj f h))) + 1"
    using linked_numbers [OF st h] p alikeD [OF a] by simp
  have g: "get_block (prev (obj f h)) (fdb c) = Some (obj (fdb c) (prev (obj f h)))" "bs_id (obj (fdb c) (prev (obj f h))) = prev (obj f h)"
    using fork_ok_get [OF ok] fork_ok_obj [OF ok p] p by simp_all
  let ?c = "c\<lparr>reversible_blocks := m(block_num (obj f h) := None)\<rparr>"
  let ?u = "if speculative cfg then ?c\<lparr>unapplied_transactions := unapplied_transactions c \<union> set (trxs (obj (fdb c) h))\<rparr> else ?c"
  have "pop_block cfg c = (Inr (), undo_session (?u\<lparr>chain_head := prev (obj f h)\<rparr>))"
    using hd g x by (auto simp: pop_block_def bind_s_def then_s_def act_simps the_head_def option_to_result_def)
  then show ?thesis using st a x n by (auto simp: stands_def undo_session_def)
qed

lemma apply_block_run:
  assumes s: "stands f c h (d, ds, m)" and e: "exec (applications c) s b d = (Inr (), d', ts)" and k: "s \<noteq> Irreversible" "\<not> replaying cfg" and m: "m (block_num (obj f h) + 1) = None"
  shows "apply_block cfg exec (Some b) s c = (Inr (), c\<lparr>contents := d', applications := Suc (applications c), undo_states := d # ds, db_revision := db_revision c + 1,
      reversible_blocks := m(block_num (obj f h) + 1 \<mapsto> b)\<rparr>)"
proof -
  have x: "contents c = d" "undo_states c = ds" "reversible_blocks c = m" "db_revision c = int (block_num (obj f h))"
      "block_num (obj (fdb c) (chain_head c)) = block_num (obj f h)"
    using s by (auto simp: stands_def alike_def)
  then show ?thesis using e k m
    by (simp add: apply_block_def begin_session_def bind_s_def then_s_def act_simps start_session_def the_head_def option_to_result_def skip_db_sessions_def commit_block_def Let_def)
qed

lemma apply_block_fail:
  assumes s: "stands f c h (d, ds, m)" and e: "exec (applications c) s b d = (Inl err, d', ts)" and k: "s \<noteq> Irreversible"
  shows "\<exists>c'. apply_block cfg exec (Some b) s c = (Inl err, c') \<and> stands f c' h (d, ds, m) \<and> fdb c' = fdb c \<and> applications c' = Suc (applications c)"
proof -
  have x: "contents c = d" "undo_states c = ds" "reversible_blocks c = m" "db_revision c = int (block_num (obj f h))"
      "block_num (obj (fdb c) (chain_head c)) = block_num (obj f h)"
    using s by (auto simp: stands_def alike_def)
  then show ?thesis using e k s
    by (auto simp: apply_block_def begin_session_def bind_s_def then_s_def act_simps start_session_def the_head_def option_to_result_def skip_db_sessions_def
        abort_block_def undo_session_def Let_def stands_def)
qed

section \<open>Unwinding and putting back\<close>

text \<open>The blocks from a head down to a base, which is not among them.\<close>

fun path_down :: "('k, 's, 'b) fork_db \<Rightarrow> block_id_type list \<Rightarrow> block_id_type \<Rightarrow> block_id_type \<Rightarrow> bool" where
  "path_down f [] h base \<longleftrightarrow> h = base"
| "path_down f (i # p) h base \<longleftrightarrow> h = i \<and> path_down f p (prev (obj f i)) base"

fun rewound :: "('k, 's, 'b) fork_db \<Rightarrow> block_id_type list \<Rightarrow> 'd \<times> 'd list \<times> (nat \<rightharpoonup> 'b) \<Rightarrow> 'd \<times> 'd list \<times> (nat \<rightharpoonup> 'b)" where
  "rewound f [] x = x"
| "rewound f (i # p) (d, ds, m) = rewound f p (hd ds, tl ds, m(block_num (obj f i) := None))"

text \<open>For each block contents were saved, and it is among the reversible blocks.\<close>

fun recorded :: "('k, 's, 'b) fork_db \<Rightarrow> block_id_type list \<Rightarrow> 'd \<times> 'd list \<times> (nat \<rightharpoonup> 'b) \<Rightarrow> bool" where
  "recorded f [] x \<longleftrightarrow> True"
| "recorded f (i # p) (d, ds, m) \<longleftrightarrow> ds \<noteq> [] \<and> blk (obj f i) \<noteq> None \<and> m (block_num (obj f i)) = blk (obj f i)
     \<and> recorded f p (hd ds, tl ds, m(block_num (obj f i) := None))"

lemma unwind_ok:
  assumes "stands f c h x" "path_down f p h base" "recorded f p x" "set p \<subseteq> set (index (fdb c))" "base \<in> set (index (fdb c))"
  shows "\<exists>c'. unwind cfg p c = (Inr (), c') \<and> stands f c' base (rewound f p x) \<and> carried c c'
    \<and> (\<forall>j. marked c' j \<longleftrightarrow> marked c j \<and> j \<notin> set p) \<and> (\<forall>j. checked c' j = checked c j) \<and> applications c' = applications c"
  using assms
proof (induction p arbitrary: c h x)
  case Nil
  then show ?case by (simp add: unwind_def act_simps carried_def)
next
  case (Cons i p)
  obtain d ds m where x: "x = (d, ds, m)" by (cases x)
  have r: "ds \<noteq> []" "blk (obj f i) \<noteq> None" "recorded f p (hd ds, tl ds, m(block_num (obj f i) := None))" using Cons.prems(3) x by auto
  have hi: "h = i" and pd: "path_down f p (prev (obj f i)) base" using Cons.prems(2) by auto
  have st: "fork_state (fdb c)" and i: "i \<in> set (index (fdb c))" using Cons.prems(1,4) by (auto simp: stands_def)
  obtain g where g: "mark_in_current_chain i False (fdb c) = Inr g" "fork_state g" "alike (fdb c) g" "index g = index (fdb c)" "head_ptr g = head_ptr (fdb c)"
      "\<And>j. in_current_chain (obj g j) = (if j = i then False else in_current_chain (obj (fdb c) j))" "\<And>j. validated (obj g j) = validated (obj (fdb c) j)"
    using mark_state [OF st i, of False] by auto
  let ?c = "c\<lparr>fdb := g\<rparr>"
  have m: "on_fork (mark_in_current_chain i False) c = (Inr (), ?c)" using g(1) by (simp add: on_fork_def)
  have s1: "stands f ?c i (d, hd ds # tl ds, m)" using Cons.prems(1) g(2,3) r(1) hi x alike_trans [of f "fdb c" g] by (auto simp: stands_def)
  have "prev (obj f i) \<in> set (index (fdb ?c))" using pd Cons.prems(4,5) g(4) by (cases p) auto
  then obtain c1 where c1: "pop_block cfg ?c = (Inr (), c1)" "stands f c1 (prev (obj f i)) (hd ds, tl ds, m(block_num (obj f i) := None))" "fdb c1 = g" "applications c1 = applications c"
    using pop_block_run [OF s1, of cfg] r(2) i g(4) by auto
  obtain c' where c': "unwind cfg p c1 = (Inr (), c')" "stands f c' base (rewound f p (hd ds, tl ds, m(block_num (obj f i) := None)))" "carried c1 c'"
      "\<And>j. marked c' j \<longleftrightarrow> marked c1 j \<and> j \<notin> set p" "\<And>j. checked c' j = checked c1 j" "applications c' = applications c1"
    using Cons.IH [OF c1(2) pd r(3)] Cons.prems(4,5) c1(3) g(4) by auto
  have "unwind cfg (i # p) c = (Inr (), c')" using m c1(1) c'(1) by (simp add: unwind_def then_s_def bind_s_def)
  then show ?case using c' c1(3,4) g x by (auto simp: carried_def marked_def checked_def)
qed


section \<open>Applying the new branch\<close>

fun path_up :: "('k, 's, 'b) fork_db \<Rightarrow> block_id_type \<Rightarrow> block_id_type list \<Rightarrow> bool" where
  "path_up f h [] \<longleftrightarrow> True"
| "path_up f h (i # p) \<longleftrightarrow> prev (obj f i) = h \<and> path_up f i p"

definition raised :: "('k, 's, 'b) fork_db \<Rightarrow> block_id_type \<Rightarrow> (nat \<rightharpoonup> 'b) \<Rightarrow> bool" where
  "raised f h m \<longleftrightarrow> (\<forall>n > block_num (obj f h). m n = None)"

definition status_of :: "('k, 's, 'b) block_state \<Rightarrow> block_status" where
  "status_of b = (if validated b then Validated else Complete)"

text \<open>
  What running a sequence of blocks should come to, the first of them as the application number \<open>k\<close>: the blocks that passed, where
  that leaves the contents, the saved contents and the reversible blocks, and the block that failed with its error.
\<close>

fun run_blocks :: "('b, 'd) executor \<Rightarrow> (block_id_type \<Rightarrow> block_status) \<Rightarrow> ('k, 's, 'b) fork_db \<Rightarrow> nat \<Rightarrow> block_id_type list \<Rightarrow>
    'd \<times> 'd list \<times> (nat \<rightharpoonup> 'b) \<Rightarrow> block_id_type list \<times> ('d \<times> 'd list \<times> (nat \<rightharpoonup> 'b)) \<times> (block_id_type \<times> chain_error) option" where
  "run_blocks exec st f k [] x = ([], x, None)"
| "run_blocks exec st f k (i # p) (d, ds, m) =
     (case exec k (st i) (the (blk (obj f i))) d of
        (Inl e, _) \<Rightarrow> ([], (d, ds, m), Some (i, e))
      | (Inr _, d', _) \<Rightarrow>
          (case run_blocks exec st f (Suc k) p (d', d # ds, m(block_num (obj f i) := blk (obj f i))) of
             (done1, r) \<Rightarrow> (i # done1, r)))"

definition outcome :: "(block_id_type \<times> chain_error) option \<Rightarrow> unit result" where
  "outcome r = (case r of None \<Rightarrow> Inr () | Some (i, e) \<Rightarrow> Inl e)"

lemma outcome_simps [simp]: "outcome None = Inr ()" "outcome (Some (i, e)) = Inl e"
  by (simp_all add: outcome_def)

lemma run_blocks_split:
  assumes "run_blocks exec st f k p x = (ds, y, r)"
  shows "case r of None \<Rightarrow> ds = p | Some (i, e) \<Rightarrow> \<exists>q. p = ds @ i # q"
  using assms
proof (induction exec st f k p x arbitrary: ds y r rule: run_blocks.induct)
  case (2 exec st f k i p d s m)
  obtain u d' ts where e: "exec k (st i) (the (blk (obj f i))) d = (u, d', ts)" by (metis prod_cases3)
  show ?case
  proof (cases u)
    case (Inr v)
    obtain ds1 y1 r1 where n: "run_blocks exec st f (Suc k) p (d', d # s, m(block_num (obj f i) := blk (obj f i))) = (ds1, y1, r1)" by (metis prod_cases3)
    then show ?thesis using "2.IH" [OF e [symmetric] Inr refl n] "2.prems" e Inr by (auto split: option.splits)
  qed (use 2 e in auto)
qed simp

text \<open>Running blocks up from a head keeps a record of them, and popping them leads back.\<close>

lemma run_blocks_records:
  assumes "run_blocks exec st f k p x = (ds, y, r)" "fork_state f" "path_up f h p" "insert h (set p) \<subseteq> set (index f)" "\<forall>i\<in>set p. blk (obj f i) \<noteq> None"
    "raised f h (snd (snd x))" "recorded f a x"
  shows "raised f (last (h # ds)) (snd (snd y)) \<and> recorded f (rev ds @ a) y \<and> rewound f (rev ds @ a) y = rewound f a x"
  using assms
proof (induction exec st f k p x arbitrary: h ds y r a rule: run_blocks.induct)
  case (2 exec st f k i p d s m)
  obtain u d' ts where e: "exec k (st i) (the (blk (obj f i))) d = (u, d', ts)" by (metis prod_cases3)
  show ?case
  proof (cases u)
    case (Inr v)
    let ?x = "(d', d # s, m(block_num (obj f i) := blk (obj f i)))"
    obtain ds1 y1 r1 where n: "run_blocks exec st f (Suc k) p ?x = (ds1, y1, r1)" by (metis prod_cases3)
    have o: "ds = i # ds1" "y = y1" using "2.prems"(1) e Inr n by auto
    have num: "block_num (obj f i) = block_num (obj f h) + 1" using linked_numbers [OF "2.prems"(2), of i] "2.prems"(3,4) by auto
    have m: "m (block_num (obj f i)) = None" "raised f i (snd (snd ?x))" using "2.prems"(6) num by (auto simp: raised_def)
    have a: "recorded f (i # a) ?x" "rewound f (i # a) ?x = rewound f a (d, s, m)" using "2.prems"(5,7) m by (simp_all add: fun_upd_idem)
    have up: "path_up f i p" "insert i (set p) \<subseteq> set (index f)" "\<forall>i\<in>set p. blk (obj f i) \<noteq> None" using "2.prems"(3-5) by auto
    from "2.IH" [OF e [symmetric] Inr refl n "2.prems"(2) up m(2) a(1)] a(2) show ?thesis unfolding o by simp
  qed (use 2 e in auto)
qed simp

text \<open>One block: applied, made the head and marked.\<close>

definition advance :: "switch_config \<Rightarrow> ('b, 'd) executor \<Rightarrow> block_status \<Rightarrow> block_id_type \<Rightarrow> (('k, 's, 'b, 'd) controller, unit) act" where
  "advance cfg exec s i =
     then_s (\<lambda>c. apply_block cfg exec (blk (obj (fdb c) i)) s c) (
     then_s (updates (\<lambda>c. c\<lparr>chain_head := i\<rparr>))
            (on_fork (mark_in_current_chain i True)))"

definition apply_at :: "switch_config \<Rightarrow> ('b, 'd) executor \<Rightarrow> block_status \<Rightarrow> block_id_type \<Rightarrow> (('k, 's, 'b, 'd) controller, unit) act" where
  "apply_at cfg exec s i = then_s (advance cfg exec s i) (updates (\<lambda>c. c\<lparr>fdb := poke i (\<lambda>b. b\<lparr>validated := True\<rparr>) (fdb c)\<rparr>))"


lemma apply_next_at: "apply_next cfg exec i c = apply_at cfg exec (status_of (obj (fdb c) i)) i c"
  by (simp add: apply_next_def apply_at_def advance_def status_of_def then_s_def bind_s_def split: prod.splits sum.splits)

lemma reapply_Cons: "reapply cfg exec (i # p) c = then_s (advance cfg exec Validated i) (reapply cfg exec p) c"
  by (simp add: reapply_def advance_def)

lemma advance_run:
  assumes s: "stands f c h (d, ds, m)" and i: "i \<in> set (index (fdb c))" "h \<in> set (index (fdb c))" "prev (obj f i) = h" and b: "blk (obj f i) \<noteq> None"
    and e: "exec (applications c) st (the (blk (obj f i))) d = (Inr (), d', ts)" and r: "raised f h m" and k: "\<not> replaying cfg" and irr: "st \<noteq> Irreversible"
  shows "\<exists>c'. advance cfg exec st i c = (Inr (), c') \<and> stands f c' i (d', d # ds, m(block_num (obj f i) := blk (obj f i))) \<and> carried c c'
    \<and> raised f i (m(block_num (obj f i) := blk (obj f i))) \<and> applications c' = Suc (applications c)
    \<and> (\<forall>j. marked c' j \<longleftrightarrow> marked c j \<or> j = i) \<and> (\<forall>j. checked c' j = checked c j)"
proof -
  obtain b where b: "blk (obj f i) = Some b" using b by auto
  have fk: "fork_state (fdb c)" and a: "alike f (fdb c)" using s by (auto simp: stands_def)
  have n: "block_num (obj f i) = block_num (obj f h) + 1" using linked_numbers [OF fk i(1)] i(2,3) alikeD [OF a] by simp
  have m: "m (block_num (obj f h) + 1) = None" using r by (simp add: raised_def)
  let ?c2 = "c\<lparr>contents := d', applications := Suc (applications c), undo_states := d # ds, db_revision := db_revision c + 1,
    reversible_blocks := m(block_num (obj f i) \<mapsto> b)\<rparr>"
  have e2: "exec (applications c) st b d = (Inr (), d', ts)" using e b by simp
  from apply_block_run [where exec = exec and b = b, OF s e2 irr k m] n
  have ap: "apply_block cfg exec (blk (obj (fdb c) i)) st c = (Inr (), ?c2)" using b alikeD(3) [OF a] by simp
  obtain g where g: "mark_in_current_chain i True (fdb c) = Inr g" "fork_state g" "alike (fdb c) g" "index g = index (fdb c)" "head_ptr g = head_ptr (fdb c)"
      "\<And>j. in_current_chain (obj g j) = (if j = i then True else in_current_chain (obj (fdb c) j))" "\<And>j. validated (obj g j) = validated (obj (fdb c) j)"
    using mark_state [OF fk i(1), of True] by auto
  let ?c3 = "?c2\<lparr>chain_head := i, fdb := g\<rparr>"
  have "advance cfg exec st i c = (Inr (), ?c3)"
    using ap g(1) by (simp add: advance_def then_s_def bind_s_def act_simps on_fork_def)
  moreover have "stands f ?c3 i (d', d # ds, m(block_num (obj f i) := blk (obj f i)))" using s g(2) alike_trans [OF a g(3)] n b by (simp add: stands_def)
  moreover have "raised f i (m(block_num (obj f i) := blk (obj f i)))" using r n by (auto simp: raised_def)
  ultimately show ?thesis using g by (auto simp: carried_def marked_def checked_def)
qed

lemma advance_fail:
  assumes s: "stands f c h (d, ds, m)" and b: "blk (obj f i) \<noteq> None"
    and e: "exec (applications c) st (the (blk (obj f i))) d = (Inl err, d', ts)" and irr: "st \<noteq> Irreversible"
  shows "\<exists>c'. advance cfg exec st i c = (Inl err, c') \<and> apply_block cfg exec (blk (obj (fdb c) i)) st c = (Inl err, c') \<and> stands f c' h (d, ds, m) \<and> fdb c' = fdb c
    \<and> applications c' = Suc (applications c)"
proof -
  obtain b where b: "blk (obj f i) = Some b" using b by auto
  have e2: "exec (applications c) st b d = (Inl err, d', ts)" using e b by simp
  from apply_block_fail [where exec = exec and b = b, OF s e2 irr] obtain c' where
    "apply_block cfg exec (Some b) st c = (Inl err, c')" "stands f c' h (d, ds, m)" "fdb c' = fdb c" "applications c' = Suc (applications c)" by blast
  moreover have "blk (obj (fdb c) i) = Some b" using s b by (simp add: stands_def alike_def)
  ultimately show ?thesis by (simp add: advance_def then_s_def bind_s_def)
qed

lemma apply_at_run:
  assumes s: "stands f c h (d, ds, m)" and i: "i \<in> set (index (fdb c))" "h \<in> set (index (fdb c))" "prev (obj f i) = h" and b: "blk (obj f i) \<noteq> None"
    and e: "exec (applications c) st (the (blk (obj f i))) d = (Inr (), d', ts)" and r: "raised f h m" and k: "\<not> replaying cfg" and irr: "st \<noteq> Irreversible"
  shows "\<exists>c'. apply_at cfg exec st i c = (Inr (), c') \<and> stands f c' i (d', d # ds, m(block_num (obj f i) := blk (obj f i))) \<and> carried c c'
    \<and> raised f i (m(block_num (obj f i) := blk (obj f i))) \<and> applications c' = Suc (applications c)
    \<and> (\<forall>j. marked c' j \<longleftrightarrow> marked c j \<or> j = i) \<and> (\<forall>j. checked c' j \<longleftrightarrow> checked c j \<or> j = i)"
proof -
  let ?y = "(d', d # ds, m(block_num (obj f i) := blk (obj f i)))"
  obtain c1 where c1: "advance cfg exec st i c = (Inr (), c1)" "stands f c1 i ?y" "carried c c1" "raised f i (m(block_num (obj f i) := blk (obj f i)))"
      "applications c1 = Suc (applications c)" "\<And>j. marked c1 j \<longleftrightarrow> marked c j \<or> j = i" "\<And>j. checked c1 j = checked c j"
    using advance_run [where exec = exec, OF assms] by blast
  have "fork_state (fdb c1)" "alike f (fdb c1)" using c1(2) by (auto simp: stands_def)
  note p = poke_state [OF this(1), of i] and a = this(2)
  let ?c = "c1\<lparr>fdb := poke i (\<lambda>b. b\<lparr>validated := True\<rparr>) (fdb c1)\<rparr>"
  have "apply_at cfg exec st i c = (Inr (), ?c)" using c1(1) by (simp add: apply_at_def then_s_def bind_s_def act_simps)
  moreover have "stands f ?c i ?y" using c1(2) p alike_trans [OF a] by (auto simp: stands_def)
  ultimately show ?thesis using c1 p by (auto simp: carried_def marked_def checked_def)
qed

lemma reapply_run:
  assumes "run_blocks exec (\<lambda>_. Validated) f (applications c) p x = (ds, y, r)" "stands f c h x" "path_up f h p" "insert h (set p) \<subseteq> set (index (fdb c))"
    "\<forall>i\<in>set p. blk (obj f i) \<noteq> None" "raised f h (snd (snd x))" "\<not> replaying cfg"
  shows "\<exists>c'. reapply cfg exec p c = (outcome r, c') \<and> stands f c' (last (h # ds)) y \<and> carried c c'
    \<and> (\<forall>j. marked c' j \<longleftrightarrow> marked c j \<or> j \<in> set ds) \<and> (\<forall>j. checked c' j = checked c j)"
  using assms
proof (induction p arbitrary: c h x ds)
  case Nil
  then show ?case by (simp add: reapply_def act_simps carried_def)
next
  case (Cons i p)
  obtain d s m where x: "x = (d, s, m)" by (cases x)
  have st: "stands f c h (d, s, m)" and ix: "i \<in> set (index (fdb c))" "h \<in> set (index (fdb c))" "prev (obj f i) = h" "blk (obj f i) \<noteq> None" and rs: "raised f h m"
    using Cons.prems x by auto
  obtain u d' ts where e: "exec (applications c) Validated (the (blk (obj f i))) d = (u, d', ts)" by (metis prod_cases3)
  show ?case
  proof (cases u)
    case (Inl err)
    have e1: "exec (applications c) Validated (the (blk (obj f i))) d = (Inl err, d', ts)" using e Inl by simp
    obtain c' where c': "advance cfg exec Validated i c = (Inl err, c')" "stands f c' h (d, s, m)" "fdb c' = fdb c"
      using advance_fail [where exec = exec, OF st ix(4) e1] by auto
    have "ds = []" "y = x" "r = Some (i, err)" using Cons.prems(1) e Inl x by auto
    then show ?thesis using c' x unfolding reapply_Cons by (auto simp: then_s_def bind_s_def carried_def marked_def checked_def)
  next
    case (Inr v)
    have e1: "exec (applications c) Validated (the (blk (obj f i))) d = (Inr (), d', ts)" using e Inr by simp
    let ?x = "(d', d # s, m(block_num (obj f i) := blk (obj f i)))"
    obtain c1 where c1: "advance cfg exec Validated i c = (Inr (), c1)" "stands f c1 i ?x" "carried c c1" "raised f i (snd (snd ?x))"
        "applications c1 = Suc (applications c)" "\<And>j. marked c1 j \<longleftrightarrow> marked c j \<or> j = i" "\<And>j. checked c1 j = checked c j"
      using advance_run [where exec = exec, OF st ix e1 rs Cons.prems(7)] by auto
    obtain ds1 where n: "run_blocks exec (\<lambda>_. Validated) f (applications c1) p ?x = (ds1, y, r)" "ds = i # ds1"
      using Cons.prems(1) e1 x c1(5) by (auto split: prod.splits)
    have "path_up f i p" "insert i (set p) \<subseteq> set (index (fdb c1))" "\<forall>i\<in>set p. blk (obj f i) \<noteq> None"
      using Cons.prems(3-5) c1(3) by (auto simp: carried_def)
    from Cons.IH [OF n(1) c1(2) this c1(4) Cons.prems(7)] obtain c' where c': "reapply cfg exec p c1 = (outcome r, c')" "stands f c' (last (i # ds1)) y" "carried c1 c'"
        "\<And>j. marked c' j \<longleftrightarrow> marked c1 j \<or> j \<in> set ds1" "\<And>j. checked c' j = checked c1 j" by blast
    have "reapply cfg exec (i # p) c = (outcome r, c')" using c1(1) c'(1) unfolding reapply_Cons by (simp add: then_s_def bind_s_def)
    then show ?thesis using c' c1 n(2) by (auto simp: carried_def)
  qed
qed

text \<open>The end of a failed switch: the bad branch is removed, what was applied of it unwound, and the old branch applied again.\<close>

definition failure :: "chain_error \<Rightarrow> (block_id_type \<times> chain_error) option \<Rightarrow> chain_error" where
  "failure e r = (case r of None \<Rightarrow> e | Some (i, e') \<Rightarrow> e')"

lemma put_back:
  fixes c :: "('k, 's, 'b, 'd) controller"
  assumes s: "stands f c h x" "path_down f applied h base" "recorded f applied x" "raised f base (snd (snd (rewound f applied x)))"
    and o: "path_up f base (rev second)" "\<forall>i\<in>set second. blk (obj f i) \<noteq> None" and k: "\<not> replaying cfg"
    and keep: "insert base (set applied \<union> set second) \<subseteq> set (index (fdb c)) - branch_of (fdb c) i"
    and run: "run_blocks exec (\<lambda>_. Validated) f (applications c) (rev second) (rewound f applied x) = (ds, y, r)"
  shows "\<exists>c'. then_s (on_fork (set_validity i False)) (then_s (unwind cfg applied) (then_s (expect_head base) (then_s (reapply cfg exec (rev second)) (throw e)))) c
      = ((Inl (failure e r) :: unit result), c') \<and> stands f c' (last (base # ds)) y \<and> set (index (fdb c')) = set (index (fdb c)) - branch_of (fdb c) i \<and> head_best (fdb c')
    \<and> (\<forall>j. marked c' j \<longleftrightarrow> marked c j \<and> j \<notin> set applied \<or> j \<in> set ds) \<and> (\<forall>j. checked c' j = checked c j)"
proof -
  have st: "fork_state (fdb c)" using s by (simp add: stands_def)
  then have ok: "fork_ok (fdb c)" by (simp add: fork_state_def fork_inv_def)
  have "\<not> set (index (fdb c)) \<subseteq> branch_of (fdb c) i" using keep by blast
  then obtain g where g: "remove i (fdb c) = Inr g" using remove_spec [OF ok, of i] by auto
  note d = remove_Inr [OF ok g]
  let ?c = "c\<lparr>fdb := g\<rparr>"
  have r: "on_fork (set_validity i False) c = (Inr (), ?c)" using g by (simp add: on_fork_def set_validity_def)
  have s1: "stands f ?c h x" using s(1) remove_state [OF st g] by (simp add: stands_def alike_def)
  have sub: "set applied \<subseteq> set (index (fdb ?c))" "set second \<subseteq> set (index (fdb ?c))" "base \<in> set (index (fdb ?c))" using keep d(3) by auto
  obtain c1 where c1: "unwind cfg applied ?c = (Inr (), c1)" "stands f c1 base (rewound f applied x)" "carried ?c c1"
      "\<And>j. marked c1 j \<longleftrightarrow> marked ?c j \<and> j \<notin> set applied" "\<And>j. checked c1 j = checked ?c j" "applications c1 = applications c"
    using unwind_ok [OF s1 s(2,3) sub(1,3), of cfg] by auto
  have h: "expect_head base c1 = (Inr (), c1)" using c1(2) by (simp add: expect_head_def act_simps stands_def)
  have ix: "index (fdb c1) = index g" using c1(3) by (simp add: carried_def)
  have "insert base (set (rev second)) \<subseteq> set (index (fdb c1))" "\<forall>i\<in>set (rev second). blk (obj f i) \<noteq> None" using sub ix o(2) by auto
  from reapply_run [OF run [folded c1(6)] c1(2) o(1) this s(4) k] obtain c' where
    c': "reapply cfg exec (rev second) c1 = (outcome r, c')" "stands f c' (last (base # ds)) y" "carried c1 c'"
      "\<And>j. marked c' j \<longleftrightarrow> marked c1 j \<or> j \<in> set ds" "\<And>j. checked c' j = checked c1 j" by blast
  have "head_best (fdb c') = head_best g"
    by (rule head_best_cong) (use c'(2,3) c1(3) s1 in \<open>auto simp: carried_def stands_def alike_def\<close>)
  then show ?thesis using r c1 c' h d ix
    by (cases r) (auto simp: then_s_def bind_s_def act_simps carried_def marked_def checked_def failure_def)
qed

lemma path_down_numbers:
  assumes "fork_state f" "path_down f p h base" "set p \<subseteq> set (index f)" "base \<in> set (index f)"
  shows "block_num (obj f base) \<le> block_num (obj f h) \<and> (\<forall>j\<in>set p. block_num (obj f j) \<le> block_num (obj f h))"
  using assms
proof (induction p arbitrary: h)
  case (Cons i p)
  have pd: "path_down f p (prev (obj f i)) base" "h = i" "i \<in> set (index f)" using Cons.prems by auto
  then have "prev (obj f i) \<in> set (index f)" using Cons.prems by (cases p) auto
  then have "block_num (obj f i) = block_num (obj f (prev (obj f i))) + 1" using linked_numbers [OF Cons.prems(1) pd(3)] by simp
  then show ?case using Cons.IH [OF Cons.prems(1) pd(1)] Cons.prems pd(2) by auto
qed simp

text \<open>The blocks the old branch rests on are not built on a block that is not of that branch.\<close>

definition apart :: "('k, 's, 'b) fork_db \<Rightarrow> block_id_type list \<Rightarrow> block_id_type list \<Rightarrow> bool" where
  "apart f second rest \<longleftrightarrow> (\<forall>i\<in>set rest. i \<notin> set second \<longrightarrow> set second \<inter> branch_of f i = {})"

lemma switch_loop_ok:
  fixes c :: "('k, 's, 'b, 'd) controller"
  assumes k: "\<not> replaying cfg" and fs: "fork_state f"
    and o: "path_up f base (rev second)" "\<forall>i\<in>set second. blk (obj f i) \<noteq> None" "insert base (set second) \<subseteq> set (index f)" "raised f base (snd (snd x0))"
    and "run_blocks exec (\<lambda>j. status_of (obj f j)) f (applications c) rest x = (ds, y, r)"
      "stands f c h x" "path_down f applied h base" "recorded f applied x" "rewound f applied x = x0" "raised f h (snd (snd x))"
      "h \<in> set (index f)" "path_up f h rest" "set applied \<union> set rest \<subseteq> set (index f)" "index (fdb c) = index f" "distinct rest"
      "\<And>j. j \<in> set rest \<Longrightarrow> checked c j = validated (obj f j)" "\<And>j. j \<in> set rest \<Longrightarrow> blk (obj f j) \<noteq> None"
      "\<And>j. marked c j \<longleftrightarrow> A j \<or> j \<in> set applied" "\<And>j. j \<in> set applied \<union> set rest \<Longrightarrow> \<not> A j" "apart f second rest"
  shows "case r of
      None \<Rightarrow> \<exists>c'. switch_loop cfg exec second base applied rest c = (Inr (), c') \<and> stands f c' (last (h # rest)) y \<and> carried c c'
        \<and> (\<forall>j. marked c' j \<longleftrightarrow> A j \<or> j \<in> set (rev rest @ applied)) \<and> (\<forall>j. checked c' j \<longleftrightarrow> checked c j \<or> j \<in> set rest)
    | Some (i, e) \<Rightarrow> e \<noteq> undefined_behaviour \<longrightarrow> i \<notin> set second \<longrightarrow>
        (case run_blocks exec (\<lambda>_. Validated) f (applications c + length ds + 1) (rev second) x0 of (ds2, y2, r2) \<Rightarrow>
          \<exists>c'. switch_loop cfg exec second base applied rest c = (Inl (failure e r2), c') \<and> stands f c' (last (base # ds2)) y2
            \<and> set (index (fdb c')) = set (index f) - branch_of f i \<and> head_best (fdb c')
            \<and> (\<forall>j. marked c' j \<longleftrightarrow> A j \<or> j \<in> set ds2) \<and> (\<forall>j. checked c j \<longrightarrow> checked c' j))"
  using assms(7-)
proof (induction rest arbitrary: c h x applied ds)
  case Nil
  then show ?case by (auto simp: act_simps carried_def)
next
  case (Cons i rest)
  obtain d s m where x: "x = (d, s, m)" by (cases x)
  have ix: "i \<in> set (index (fdb c))" "h \<in> set (index (fdb c))" "prev (obj f i) = h" "blk (obj f i) \<noteq> None" "checked c i = validated (obj f i)"
    and st: "stands f c h (d, s, m)" and rs: "raised f h m"
    using Cons.prems x by auto
  have so: "status_of (obj (fdb c) i) = status_of (obj f i)" "status_of (obj f i) \<noteq> Irreversible" using ix(5) by (simp_all add: status_of_def checked_def)
  obtain u d' ts where e: "exec (applications c) (status_of (obj f i)) (the (blk (obj f i))) d = (u, d', ts)" by (metis prod_cases3)
  show ?case
  proof (cases u)
    case (Inr v)
    then have e1: "exec (applications c) (status_of (obj f i)) (the (blk (obj f i))) d = (Inr (), d', ts)" using e by simp
    let ?x = "(d', d # s, m(block_num (obj f i) := blk (obj f i)))"
    obtain c1 where c1: "apply_next cfg exec i c = (Inr (), c1)" "stands f c1 i ?x" "carried c c1" "raised f i (snd (snd ?x))"
        "applications c1 = Suc (applications c)" "\<And>j. marked c1 j \<longleftrightarrow> marked c j \<or> j = i" "\<And>j. checked c1 j \<longleftrightarrow> checked c j \<or> j = i"
      using apply_at_run [where exec = exec, OF st ix(1-4) e1 rs k so(2)] unfolding apply_next_at so by auto
    obtain ds1 where n: "run_blocks exec (\<lambda>j. status_of (obj f j)) f (applications c1) rest ?x = (ds1, y, r)" "ds = i # ds1"
      using Cons.prems(1) e1 x c1(5) by (auto split: prod.splits)
    have run: "switch_loop cfg exec second base applied (i # rest) c = switch_loop cfg exec second base (i # applied) rest c1"
      using c1(1) by (simp add: catch_s_def then_s_def bind_s_def act_simps)
    have num: "block_num (obj f i) = block_num (obj f h) + 1" using linked_numbers [OF fs] ix Cons.prems(10) by simp
    have m: "m (block_num (obj f i)) = None" using rs num by (simp add: raised_def)
    have rc: "path_down f (i # applied) i base" "recorded f (i # applied) ?x" "rewound f (i # applied) ?x = x0"
      using Cons.prems(3-5) ix(3,4) m x by (simp_all add: fun_upd_idem)
    have up: "i \<in> set (index f)" "path_up f i rest" "set (i # applied) \<union> set rest \<subseteq> set (index f)" "index (fdb c1) = index f" "distinct rest"
      using Cons.prems(8-11) c1(3) by (auto simp: carried_def)
    have ck: "checked c1 j = validated (obj f j)" if "j \<in> set rest" for j using c1(7) Cons.prems(11,12) that by auto
    have mk: "marked c1 j \<longleftrightarrow> A j \<or> j \<in> set (i # applied)" for j using c1(6) Cons.prems(14) by auto
    have nA: "\<not> A j" if "j \<in> set (i # applied) \<union> set rest" for j using Cons.prems(15) that by auto
    have ap: "apart f second rest" using Cons.prems(16) by (simp add: apart_def)
    have bl: "blk (obj f j) \<noteq> None" if "j \<in> set rest" for j using Cons.prems(13) that by simp
    note ih = Cons.IH [OF n(1) c1(2) rc c1(4) up ck bl mk nA ap]
    have ca: "carried c1 c' \<Longrightarrow> carried c c'" for c' using c1(3) by (simp add: carried_def)
    have ls: "last (h # i # rest) = last (i # rest)" "rev (i # rest) @ applied = rev rest @ i # applied" "applications c + length ds = applications c1 + length ds1"
      using c1(5) n(2) by simp_all
    show ?thesis
    proof (cases r)
      case None
      then obtain c' where c': "switch_loop cfg exec second base (i # applied) rest c1 = (Inr (), c')" "stands f c' (last (i # rest)) y" "carried c1 c'"
          "\<forall>j. marked c' j \<longleftrightarrow> A j \<or> j \<in> set (rev rest @ i # applied)" "\<forall>j. checked c' j \<longleftrightarrow> checked c1 j \<or> j \<in> set rest"
        using ih by auto
      have "\<forall>j. checked c' j \<longleftrightarrow> checked c j \<or> j \<in> set (i # rest)" using c'(5) c1(7) by auto
      then show ?thesis using c' ca unfolding None run ls option.case by blast
    next
      case (Some ie)
      obtain i2 e2 where "ie = (i2, e2)" by (cases ie)
      then show ?thesis using ih c1(7) unfolding Some run ls by (auto split: prod.splits)
    qed
  next
    case (Inl err)
    then have e1: "exec (applications c) (status_of (obj f i)) (the (blk (obj f i))) d = (Inl err, d', ts)" using e by simp
    obtain c1 where c1: "apply_next cfg exec i c = (Inl err, c1)" "stands f c1 h x" "fdb c1 = fdb c" "applications c1 = Suc (applications c)"
      using advance_fail [where exec = exec, OF st ix(4) e1 so(2), of cfg] unfolding apply_next_at so x by (auto simp: apply_at_def then_s_def bind_s_def)
    have o0: "ds = []" "y = x" "r = Some (i, err)" using Cons.prems(1) e1 x by auto
    have br: "branch_of (fdb c1) i = branch_of f i" using Cons.prems(10) c1(2,3) by (intro branch_cong) (auto simp: stands_def alike_def)
    have num: "block_num (obj f i) = block_num (obj f h) + 1" using linked_numbers [OF fs] ix Cons.prems(10) by simp
    have low: "insert base (set applied) \<inter> branch_of f i = {}"
      using path_down_numbers [OF fs Cons.prems(3)] Cons.prems(9) o(3) branch_numbers [of f _ i] fs num ix(1) Cons.prems(10) by (fastforce simp: fork_state_def)
    obtain ds2 y2 r2 where again: "run_blocks exec (\<lambda>_. Validated) f (Suc (applications c)) (rev second) x0 = (ds2, y2, r2)" by (metis prod_cases3)
    have fin: "\<exists>c'. switch_loop cfg exec second base applied (i # rest) c = (Inl (failure err r2), c') \<and> stands f c' (last (base # ds2)) y2
          \<and> set (index (fdb c')) = set (index f) - branch_of f i \<and> head_best (fdb c')
          \<and> (\<forall>j. marked c' j \<longleftrightarrow> A j \<or> j \<in> set ds2) \<and> (\<forall>j. checked c j \<longrightarrow> checked c' j)"
      if ub: "err \<noteq> undefined_behaviour" and sec: "i \<notin> set second"
    proof -
      have kp: "insert base (set applied \<union> set second) \<subseteq> set (index (fdb c1)) - branch_of (fdb c1) i"
        using low sec Cons.prems(9,10,16) o(3) c1(3) unfolding br apart_def by auto
      have rw: "raised f base (snd (snd (rewound f applied x)))" using o(4) Cons.prems(5) by simp
      have rn: "run_blocks exec (\<lambda>_. Validated) f (applications c1) (rev second) (rewound f applied x) = (ds2, y2, r2)" using again c1(4) Cons.prems(5) by simp
      from put_back [where e = err, OF c1(2) Cons.prems(3,4) rw o(1,2) k kp rn] obtain c' where
        c': "then_s (on_fork (set_validity i False)) (then_s (unwind cfg applied) (then_s (expect_head base) (then_s (reapply cfg exec (rev second)) (throw err)))) c1
            = ((Inl (failure err r2) :: unit result), c')" "stands f c' (last (base # ds2)) y2" "set (index (fdb c')) = set (index (fdb c1)) - branch_of (fdb c1) i" "head_best (fdb c')"
          "\<And>j. marked c' j \<longleftrightarrow> marked c1 j \<and> j \<notin> set applied \<or> j \<in> set ds2" "\<And>j. checked c' j = checked c1 j" by blast
      have run: "switch_loop cfg exec second base applied (i # rest) c = (Inl (failure err r2), c')"
        using c1(1) c'(1) ub by (simp add: catch_s_def then_s_def bind_s_def act_simps)
      have mk: "marked c1 j \<longleftrightarrow> A j \<or> j \<in> set applied" for j using Cons.prems(14) c1(3) by (simp add: marked_def)
      have "marked c' j \<longleftrightarrow> A j \<or> j \<in> set ds2" for j using c'(5) mk Cons.prems(15) by auto
      then show ?thesis using run c' br c1(3) Cons.prems(10) by (auto simp: checked_def)
    qed
    then show ?thesis unfolding o0 using again by simp
  qed
qed

section \<open>The chain follows the fork database\<close>

definition chain_state :: "('k, 's, 'b, 'd) controller \<Rightarrow> 'd \<times> 'd list \<times> (nat \<rightharpoonup> 'b)" where
  "chain_state c = (contents c, undo_states c, reversible_blocks c)"

definition ancestor :: "('k, 's, 'b) fork_db \<Rightarrow> block_id_type set \<Rightarrow> block_id_type \<Rightarrow> block_id_type \<Rightarrow> bool" where
  "ancestor f X h j \<longleftrightarrow> (\<exists>p. path_down f p h j \<and> insert j (set p) \<subseteq> X)"

text \<open>
  The controller is in step with the fork database: the head is in it, the database's revision is its number, every
  stretch of reversible blocks below it has saved contents to unwind to, and only ancestors of the head are
  marked as in the current chain.
\<close>

definition in_step :: "('k, 's, 'b, 'd) controller \<Rightarrow> bool" where
  "in_step c \<longleftrightarrow> fork_state (fdb c) \<and> chain_head c \<in> set (index (fdb c)) \<and> db_revision c = int (block_num (the_head c))
     \<and> raised (fdb c) (chain_head c) (reversible_blocks c)
     \<and> (\<forall>p base. path_down (fdb c) p (chain_head c) base \<longrightarrow> insert base (set p) \<subseteq> set (index (fdb c)) \<longrightarrow>
          recorded (fdb c) p (chain_state c) \<and> (\<forall>j\<in>set p. checked c j \<and> marked c j))
     \<and> (\<forall>j\<in>set (index (fdb c)). marked c j \<longrightarrow> ancestor (fdb c) (set (index (fdb c))) (chain_head c) j)"

lemma path_down_cong: "alike f g \<Longrightarrow> path_down g p h base = path_down f p h base"
  by (induction p arbitrary: h) (simp_all add: alike_def)

lemma recorded_cong: "alike f g \<Longrightarrow> recorded g p x = recorded f p x"
  by (induction f p x rule: recorded.induct) (simp_all add: alike_def)

lemma in_step_intro:
  assumes s: "stands f c h x" and h: "h \<in> set (index (fdb c))" and r: "raised f h (snd (snd x))"
    and p: "\<And>p base. path_down f p h base \<Longrightarrow> insert base (set p) \<subseteq> set (index (fdb c)) \<Longrightarrow> recorded f p x \<and> (\<forall>j\<in>set p. checked c j \<and> marked c j)"
    and m: "\<And>j. j \<in> set (index (fdb c)) \<Longrightarrow> marked c j \<Longrightarrow> ancestor f (set (index (fdb c))) h j"
  shows "in_step c"
proof -
  have a: "alike f (fdb c)" and x: "chain_head c = h" "chain_state c = x" "fork_state (fdb c)" "db_revision c = int (block_num (obj f h))"
    using s by (auto simp: stands_def chain_state_def)
  have "raised (fdb c) h (reversible_blocks c)" using r x a by (auto simp: raised_def alike_def chain_state_def)
  then show ?thesis using a x h p m
    by (simp add: in_step_def the_head_def path_down_cong [OF a] recorded_cong [OF a] ancestor_def alike_def)
qed

lemma in_step_stands: "in_step c \<Longrightarrow> stands (fdb c) c (chain_head c) (chain_state c) \<and> chain_head c \<in> set (index (fdb c))
    \<and> raised (fdb c) (chain_head c) (snd (snd (chain_state c)))"
  by (simp add: in_step_def stands_def chain_state_def the_head_def)

lemma path_down_append: "path_down f (p @ q) h base \<longleftrightarrow> (\<exists>b. path_down f p h b \<and> path_down f q b base)"
  by (induction p arbitrary: h) auto

lemma path_down_prefix:
  assumes "path_down f p h b" "path_down f q h b'"
  shows "(\<exists>r. p = q @ r \<and> path_down f r b' b) \<or> (\<exists>r. q = p @ r \<and> path_down f r b b' \<and> r \<noteq> [])"
  using assms
proof (induction p arbitrary: h q)
  case Nil
  then show ?case by (cases q) auto
next
  case (Cons i p)
  then show ?case
  proof (cases q)
    case (Cons j q')
    then show ?thesis using Cons.prems Cons.IH [of "prev (obj f i)" q'] by auto
  qed simp
qed

lemma recorded_append: "recorded f (p @ q) x \<longleftrightarrow> recorded f p x \<and> recorded f q (rewound f p x)"
  by (induction f p x rule: recorded.induct) auto

text \<open>Where unwinding a stretch leads, in terms of what was saved.\<close>

lemma rewound_saved: "recorded f p (d, ds, m) \<Longrightarrow> p \<noteq> [] \<Longrightarrow>
    rewound f p (d, ds, m) = (ds ! (length p - 1), drop (length p) ds, m |` (- (\<lambda>i. block_num (obj f i)) ` set p))"
proof (induction f p "(d, ds, m)" arbitrary: d ds m rule: recorded.induct)
  case (2 f i p d ds m)
  obtain d1 ds1 where ds: "ds = d1 # ds1" using 2 by (cases ds) auto
  have "m |` (- {block_num (obj f i)}) = m(block_num (obj f i) := None)" by (auto simp: restrict_map_def)
  then show ?case using 2 ds by (cases "p = []") (auto simp: restrict_map_def fun_eq_iff Suc_diff_le nth_Cons')
qed simp

lemma path_up_append: "path_up f h (xs @ ys) \<longleftrightarrow> path_up f h xs \<and> path_up f (last (h # xs)) ys"
  by (induction xs arbitrary: h) auto

lemma path_down_up: "path_down f p h base \<Longrightarrow> path_up f base (rev p) \<and> last (base # rev p) = h"
  by (induction p arbitrary: h) (auto simp: path_up_append)

lemma path_up_down: "path_up f base p \<Longrightarrow> path_down f (rev p) (last (base # p)) base"
  by (induction p arbitrary: base rule: rev_induct) (auto simp: path_up_append)

lemma path_down_order:
  assumes "fork_state f" "path_down f p h base" "insert base (set p) \<subseteq> set (index f)"
  shows "distinct p \<and> (\<forall>j\<in>set p. block_num (obj f base) < block_num (obj f j))"
  using assms
proof (induction p arbitrary: h)
  case (Cons i p)
  have pd: "path_down f p (prev (obj f i)) base" "i \<in> set (index f)" using Cons.prems by auto
  then have "prev (obj f i) \<in> set (index f)" using Cons.prems by (cases p) auto
  then have n: "block_num (obj f i) = block_num (obj f (prev (obj f i))) + 1" using linked_numbers [OF Cons.prems(1) pd(2)] by simp
  have le: "block_num (obj f base) \<le> block_num (obj f (prev (obj f i)))" "\<forall>j\<in>set p. block_num (obj f j) \<le> block_num (obj f (prev (obj f i)))"
    using path_down_numbers [OF Cons.prems(1) pd(1)] Cons.prems(3) by auto
  then have "i \<notin> set p" using n by force
  then show ?case using Cons.IH [OF Cons.prems(1) pd(1)] Cons.prems(3) n le by auto
qed simp

lemma branch_path:
  assumes ok: "fork_ok f" and "branch f bs" "bs \<noteq> []"
  shows "path_down f (map bs_id bs) (bs_id (hd bs)) (prev (last bs)) \<and> bs_id ` set bs \<subseteq> set (index f) \<and> (\<forall>b\<in>set bs. obj f (bs_id b) = b)"
  using assms(2-)
proof (induction bs)
  case (Cons b bs)
  have b: "get_block (bs_id b) f = Some b" using Cons.prems by (cases bs) auto
  then have i: "bs_id b \<in> set (index f)" "obj f (bs_id b) = b" using fork_ok_get [OF ok] by (auto split: if_splits)
  show ?case using Cons i by (cases bs) auto
qed simp

text \<open>A block of the new branch that is not of the old one has no block of the old one above it.\<close>

lemma meet_apart:
  assumes fs: "fork_state f" and m: "branches_meet f i j p1 p2" and base: "prev (last p2) \<in> set (index f)"
  shows "apart f (map bs_id p2) (rev (map bs_id p1))"
  unfolding apart_def
proof (intro ballI impI)
  fix x assume x: "x \<in> set (rev (map bs_id p1))" "x \<notin> set (map bs_id p2)"
  have ok: "fork_ok f" using fs by (simp add: fork_state_def fork_inv_def)
  have p: "p1 \<noteq> []" "p2 \<noteq> []" "branch f p1" "branch f p2" "prev (last p1) = prev (last p2)" using m by (auto simp: branches_meet_def)
  note b1 = branch_path [OF ok p(3,1)] and b2 = branch_path [OF ok p(4,2)]
  let ?n = "block_num (obj f (prev (last p2)))"
  have n1: "?n < block_num (obj f x)" "x \<in> set (index f)"
    using path_down_order [OF fs, of "map bs_id p1" "bs_id (hd p1)" "prev (last p1)"] b1 base p(5) x(1) by auto
  have "y \<notin> set (map bs_id p2) \<and> ?n < block_num (obj f y)" if "y \<in> branch_of f x" for y
    using that
  proof induction
    case (branch_step z y)
    have zi: "z \<in> set (index f)" using branch_step.hyps(1) n1(2) by cases auto
    then have num: "block_num (obj f y) = block_num (obj f z) + 1" using linked_numbers [OF fs branch_step.hyps(2)] branch_step.hyps(3) by simp
    moreover have "y \<notin> set (map bs_id p2)"
    proof
      assume "y \<in> set (map bs_id p2)"
      then obtain as bs where as: "map bs_id p2 = as @ y # bs" by (meson split_list)
      then have "path_down f bs z (prev (last p2))" using b2 branch_step.hyps(3) by (auto simp: path_down_append)
      then have "z = prev (last p2) \<or> z \<in> set (map bs_id p2)" using as by (cases bs) auto
      then show False using branch_step.IH by auto
    qed
    ultimately show ?case using branch_step.IH by simp
  qed (use x n1 in simp)
  then show "set (map bs_id p2) \<inter> branch_of f x = {}" by blast
qed

lemma rewound_append: "rewound f (p @ q) x = rewound f q (rewound f p x)"
  by (induction f p x rule: rewound.induct) auto

lemma raised_rewound:
  assumes "fork_state f" "path_down f p h base" "insert base (set p) \<subseteq> set (index f)" "raised f h (snd (snd x))"
  shows "raised f base (snd (snd (rewound f p x)))"
  using assms(2-)
proof (induction p arbitrary: h x)
  case (Cons i p)
  obtain d ds m where x: "x = (d, ds, m)" by (cases x)
  have pd: "path_down f p (prev (obj f i)) base" "i \<in> set (index f)" "h = i" using Cons.prems by auto
  then have "prev (obj f i) \<in> set (index f)" using Cons.prems by (cases p) auto
  then have n: "block_num (obj f i) = block_num (obj f (prev (obj f i))) + 1" using linked_numbers [OF assms(1) pd(2)] by simp
  let ?y = "(hd ds, tl ds, m(block_num (obj f i) := None))"
  have "raised f (prev (obj f i)) (snd (snd ?y))" using Cons.prems(3) pd(3) n by (auto simp: raised_def x)
  from Cons.IH [OF pd(1) _ this] Cons.prems(2) show ?case by (simp add: x)
qed simp

text \<open>Where a marked block lies that is not of the old branch.\<close>

lemma ancestor_below:
  assumes fs: "fork_state f" and a: "ancestor f X h j" and p: "path_down f ids h base" and j: "j \<notin> set ids"
  shows "\<exists>r. path_down f r base j \<and> path_down f (ids @ r) h j \<and> insert j (set (ids @ r)) \<subseteq> X"
proof -
  obtain q where q: "path_down f q h j" "insert j (set q) \<subseteq> X" using a by (auto simp: ancestor_def)
  from path_down_prefix [OF q(1) p] show ?thesis
  proof (elim disjE exE conjE)
    fix r assume "q = ids @ r" "path_down f r base j"
    then show ?thesis using q by blast
  next
    fix r assume r: "ids = q @ r" "path_down f r j base" "r \<noteq> []"
    then have "j \<in> set ids" by (cases r) auto
    then show ?thesis using j by blast
  qed
qed

text \<open>
  The chain leaves a stretch \<open>ids2\<close> for a stretch \<open>ids1\<close> on the same base, while the fork database may lose blocks that are neither in
  the new stretch nor at or below the base.
\<close>

lemma moved_in_step:
  assumes st: "in_step c" and s: "stands (fdb c) c' nh x'" and r: "raised (fdb c) nh (snd (snd x'))"
    and ix: "set (index (fdb c')) \<subseteq> set (index (fdb c))" "insert base (set ids1) \<subseteq> set (index (fdb c'))"
      "\<And>j. j \<in> set (index (fdb c)) \<Longrightarrow> block_num (obj (fdb c) j) \<le> block_num (obj (fdb c) base) \<Longrightarrow> j \<in> set (index (fdb c'))"
    and p1: "path_down (fdb c) ids1 nh base"
    and p2: "path_down (fdb c) ids2 (chain_head c) base" "set ids2 \<subseteq> set (index (fdb c))"
    and rec: "recorded (fdb c) ids1 x'" "rewound (fdb c) ids1 x' = rewound (fdb c) ids2 (chain_state c)"
    and mk: "\<And>j. marked c' j \<longleftrightarrow> marked c j \<and> j \<notin> set ids2 \<or> j \<in> set ids1"
    and ck: "\<And>j. checked c j \<Longrightarrow> checked c' j" "\<And>j. j \<in> set ids1 \<Longrightarrow> checked c' j"
  shows "in_step c'"
proof (rule in_step_intro [OF s _ r])
  let ?f = "fdb c" and ?h = "chain_head c" and ?X = "set (index (fdb c))" and ?Y = "set (index (fdb c'))"
  have fs: "fork_state ?f" using st by (simp add: in_step_def)
  have old: "recorded ?f p (chain_state c) \<and> (\<forall>j\<in>set p. checked c j \<and> marked c j)" if "path_down ?f p ?h b" "insert b (set p) \<subseteq> ?X" for p b
    using st that unfolding in_step_def by blast
  show "nh \<in> ?Y" using p1 ix(2) by (cases ids1) auto
  show "recorded ?f p x' \<and> (\<forall>j\<in>set p. checked c' j \<and> marked c' j)" if p: "path_down ?f p nh b" "insert b (set p) \<subseteq> ?Y" for p b
    using path_down_prefix [OF p(1) p1]
  proof (elim disjE exE conjE)
    fix q assume q: "p = ids1 @ q" "path_down ?f q base b"
    have w: "path_down ?f (ids2 @ q) ?h b" "insert b (set (ids2 @ q)) \<subseteq> ?X" using q p2 p(2) ix(1) by (auto simp: path_down_append)
    note o = old [OF w]
    have "distinct (ids2 @ q)" using path_down_order [OF fs w] by blast
    then show ?thesis using o rec mk ck q(1) by (auto simp: recorded_append)
  next
    fix q assume "ids1 = p @ q"
    then show ?thesis using rec(1) mk ck by (auto simp: recorded_append)
  qed
  show "ancestor ?f ?Y nh j" if j: "j \<in> ?Y" "marked c' j" for j
  proof (cases "j \<in> set ids1")
    case True
    then obtain as bs where "ids1 = as @ j # bs" by (meson split_list)
    then show ?thesis using p1 ix(2) j unfolding ancestor_def by (intro exI [of _ as]) (auto simp: path_down_append)
  next
    case False
    then have j2: "marked c j" "j \<notin> set ids2" using j mk by auto
    then have "ancestor ?f ?X ?h j" using st j(1) ix(1) unfolding in_step_def by auto
    from ancestor_below [OF fs this p2(1) j2(2)] obtain q where q: "path_down ?f q base j" "insert j (set (ids2 @ q)) \<subseteq> ?X" by blast
    have "set q \<subseteq> ?Y" using path_down_numbers [OF fs q(1)] q(2) ix(3) by auto
    then show ?thesis using p1 ix(2) q(1) j(1) unfolding ancestor_def by (intro exI [of _ "ids1 @ q"]) (auto simp: path_down_append)
  qed
qed

lemma branch_above:
  assumes "fork_state f" "i \<in> set (index f)" "block_num (obj f base) < block_num (obj f i)" "block_num (obj f j) \<le> block_num (obj f base)"
  shows "j \<notin> branch_of f i"
  using branch_numbers [of f j i] assms by (fastforce simp: fork_state_def)

section \<open>Properties of fork switching\<close>

lemma on_fork_eq: "on_fork f c = (Inr u, c') \<longleftrightarrow> (\<exists>db. f (fdb c) = Inr db \<and> c' = c\<lparr>fdb := db\<rparr>)"
  by (auto simp: on_fork_def split: sum.splits)

lemma in_step_branch:
  assumes st: "in_step c" and nh: "nh \<in> set (index (fdb c))"
    and fetch: "fetch_branch_from nh (chain_head c) (fdb c) = Some (Inr (p1, p2))" and base: "prev (last p2) \<in> set (index (fdb c))"
  shows "branches_meet (fdb c) nh (chain_head c) p1 p2" "prev (last p1) = prev (last p2)" "p1 \<noteq> []" "p2 \<noteq> []"
    and "path_down (fdb c) (map bs_id p1) nh (prev (last p2))" "bs_id ` set p1 \<subseteq> set (index (fdb c))" "\<And>b. b \<in> set p1 \<Longrightarrow> obj (fdb c) (bs_id b) = b"
    and "path_down (fdb c) (map bs_id p2) (chain_head c) (prev (last p2))" "bs_id ` set p2 \<subseteq> set (index (fdb c))" "\<And>b. b \<in> set p2 \<Longrightarrow> obj (fdb c) (bs_id b) = b"
    and "recorded (fdb c) (map bs_id p2) (chain_state c)" "\<And>b. b \<in> set p2 \<Longrightarrow> validated b" "\<And>j. j \<in> set (map bs_id p2) \<Longrightarrow> marked c j"
    and "\<And>j. j \<in> set (map bs_id p1) \<Longrightarrow> \<not> (marked c j \<and> j \<notin> set (map bs_id p2))"
proof -
  let ?f = "fdb c" and ?h = "chain_head c"
  have fs: "fork_state ?f" using st by (simp add: in_step_def)
  then have ok: "fork_ok ?f" and inv: "fork_inv ?f" by (simp_all add: fork_state_def fork_inv_def)
  show m: "branches_meet ?f nh ?h p1 p2" using fetch_branch_spec [OF inv nh, of ?h] st fetch by (auto simp: in_step_def)
  then show p: "prev (last p1) = prev (last p2)" "p1 \<noteq> []" "p2 \<noteq> []" by (auto simp: branches_meet_def)
  have b: "branch ?f p1" "branch ?f p2" "bs_id (hd p1) = nh" "bs_id (hd p2) = ?h" using m by (auto simp: branches_meet_def)
  show q1: "path_down ?f (map bs_id p1) nh (prev (last p2))" "bs_id ` set p1 \<subseteq> set (index ?f)" "\<And>b. b \<in> set p1 \<Longrightarrow> obj ?f (bs_id b) = b"
    using branch_path [OF ok b(1) p(2)] b p by auto
  show q2: "path_down ?f (map bs_id p2) ?h (prev (last p2))" "bs_id ` set p2 \<subseteq> set (index ?f)" "\<And>b. b \<in> set p2 \<Longrightarrow> obj ?f (bs_id b) = b"
    using branch_path [OF ok b(2) p(3)] b by auto
  have old: "recorded ?f (map bs_id p2) (chain_state c) \<and> (\<forall>j\<in>set (map bs_id p2). checked c j \<and> marked c j)"
    using st q2(1,2) base unfolding in_step_def by auto
  then show "recorded ?f (map bs_id p2) (chain_state c)" "\<And>j. j \<in> set (map bs_id p2) \<Longrightarrow> marked c j" by auto
  show "validated b" if "b \<in> set p2" for b using old that q2(3) [OF that] by (auto simp: checked_def)
  show "\<not> (marked c j \<and> j \<notin> set (map bs_id p2))" if j: "j \<in> set (map bs_id p1)" for j
  proof
    assume a: "marked c j \<and> j \<notin> set (map bs_id p2)"
    then have "ancestor ?f (set (index ?f)) ?h j" using st j q1(2) unfolding in_step_def by auto
    from ancestor_below [OF fs this q2(1)] a obtain r where "path_down ?f r (prev (last p2)) j" "insert j (set (map bs_id p2 @ r)) \<subseteq> set (index ?f)" by blast
    then have "block_num (obj ?f j) \<le> block_num (obj ?f (prev (last p2)))" using path_down_numbers [OF fs] by auto
    moreover have "block_num (obj ?f (prev (last p2))) < block_num (obj ?f j)" using path_down_order [OF fs q1(1)] q1(2) base j by auto
    ultimately show False by simp
  qed
qed

lemma recorded_blocks: "recorded f p x \<Longrightarrow> \<forall>i\<in>set p. blk (obj f i) \<noteq> None"
  by (induction f p x rule: recorded.induct) auto

lemma run_blocks_passed: "run_blocks exec st f k p x = (ds, y, r) \<Longrightarrow> \<exists>q. p = ds @ q"
  using run_blocks_split [of exec st f k p x ds y r] by (cases r) auto

text \<open>After the old branch was applied again, as far as it passed.\<close>

lemma put_back_in_step:
  assumes st: "in_step c" and p2: "path_down (fdb c) ids2 (chain_head c) base" "insert base (set ids2) \<subseteq> set (index (fdb c))"
    and ap: "apart (fdb c) ids2 rest" and i: "i \<in> set rest" "i \<notin> set ids2" "i \<in> set (index (fdb c)) \<and> block_num (obj (fdb c) base) < block_num (obj (fdb c) i)"
    and r0: "raised (fdb c) base (snd (snd (rewound (fdb c) ids2 (chain_state c))))" and bl: "\<forall>j\<in>set ids2. blk (obj (fdb c) j) \<noteq> None"
    and run: "run_blocks exec (\<lambda>_. Validated) (fdb c) k (rev ids2) (rewound (fdb c) ids2 (chain_state c)) = (ds, y, r)"
    and s: "stands (fdb c) c' (last (base # ds)) y" and ix: "set (index (fdb c')) = set (index (fdb c)) - branch_of (fdb c) i"
    and mk: "\<And>j. marked c' j \<longleftrightarrow> marked c j \<and> j \<notin> set ids2 \<or> j \<in> set ds" and ck: "\<And>j. checked c j \<Longrightarrow> checked c' j"
  shows "in_step c'"
proof -
  let ?f = "fdb c"
  have fs: "fork_state ?f" using st by (simp add: in_step_def)
  have up: "path_up ?f base (rev ids2)" using path_down_up [OF p2(1)] by blast
  have rec: "raised ?f (last (base # ds)) (snd (snd y)) \<and> recorded ?f (rev ds @ []) y
      \<and> rewound ?f (rev ds @ []) y = rewound ?f [] (rewound ?f ids2 (chain_state c))"
    by (rule run_blocks_records [OF run fs up _ _ r0]) (use p2(2) bl in auto)
  obtain q where q: "rev ids2 = ds @ q" using run_blocks_passed [OF run] by blast
  then have ids2: "ids2 = rev q @ rev ds" by (simp add: rev_eq_append_conv)
  have pd: "path_down ?f (rev ds) (last (base # ds)) base" by (rule path_up_down) (use up q in \<open>simp add: path_up_append\<close>)
  have low: "j \<notin> branch_of ?f i" if "block_num (obj ?f j) \<le> block_num (obj ?f base)" for j
    using branch_above [OF fs] i(3) that by blast
  have out: "set ids2 \<inter> branch_of ?f i = {}" using ap i(1,2) unfolding apart_def by blast
  have ds: "set ds \<subseteq> set ids2" using ids2 by auto
  have old: "\<forall>j\<in>set ids2. checked c j" using st p2 unfolding in_step_def by blast
  show ?thesis
  proof (rule moved_in_step [OF st s _ _ _ _ pd p2(1)])
    show "insert base (set (rev ds)) \<subseteq> set (index (fdb c'))" using ix p2(2) ds out low [of base] by auto
    show "marked c' j \<longleftrightarrow> marked c j \<and> j \<notin> set ids2 \<or> j \<in> set (rev ds)" for j using mk by simp
    show "checked c' j" if "j \<in> set (rev ds)" for j using that ds old ck by auto
  qed (use rec ix p2(2) low ck in auto)
qed

lemma switch_runs:
  assumes st: "in_step c" and hp: "head_ptr (fdb c) = Some nh" "nh \<in> set (index (fdb c))" and ne: "prev (obj (fdb c) nh) \<noteq> chain_head c" "nh \<noteq> chain_head c"
    and fetch: "fetch_branch_from nh (chain_head c) (fdb c) = Some (Inr (p1, p2))"
    and un: "unwind cfg (map bs_id p2) c = (Inr (), c1)" "chain_head c1 = prev (last p2)"
  shows "maybe_switch_forks cfg exec s c = switch_loop cfg exec (map bs_id p2) (prev (last p2)) [] (rev (map bs_id p1)) c1"
proof -
  have ok: "fork_ok (fdb c)" and h: "chain_head c \<in> set (index (fdb c))" using st by (auto simp: in_step_def fork_state_def fork_inv_def)
  have i: "bs_id (obj (fdb c) nh) = nh" "bs_id (the_head c) = chain_head c" using fork_ok_obj [OF ok] hp(2) h by (auto simp: the_head_def)
  have "expect_head (prev (last p2)) c1 = (Inr (), c1)" using un(2) by (simp add: expect_head_def act_simps)
  then show ?thesis using hp ne i fetch un(1) by (simp add: maybe_switch_forks_def bind_s_def then_s_def act_simps option_to_result_def)
qed

text \<open>Where the chain stood before the blocks of a branch that ends at its head: the contents saved before the oldest of them, what was saved
  before that, and the reversible blocks without them.\<close>

definition fork_point :: "('k, 's, 'b) block_state list \<Rightarrow> ('k, 's, 'b, 'd) controller \<Rightarrow> 'd \<times> 'd list \<times> (nat \<rightharpoonup> 'b)" where
  "fork_point p c = (undo_states c ! (length p - 1), drop (length p) (undo_states c), reversible_blocks c |` (- block_num ` set p))"

text \<open>
  C6. Switching forks. From a controller in step with its fork database, when the new head does not build on the
  old one and the branches meet above the irreversible block, the old branch is popped back to exactly what was saved at the
  fork point and the new branch applied there, block by block. If all its blocks pass, the new head is the head and the chain is
  what they come to. If one throws, exactly that block with everything built on it is gone from the fork database, which has a
  best block as head, and the old branch is applied again from the same fork point: with the clock of these later applications, so its
  contents may come out differently, and a block that passed before may fail now. Either way the exception is passed on (that of the old block
  if it fails) and the chain is what that came to, with the last block that passed as head. The controller is in step again after each of these
  outcomes. Left out are undefined behaviour in the new block, and a failing block that is itself of the old branch.
\<close>

theorem fork_switch_exact:
  assumes st: "in_step c" and k: "\<not> replaying cfg"
    and hp: "head_ptr (fdb c) = Some nh" "nh \<in> set (index (fdb c))" and ne: "prev (obj (fdb c) nh) \<noteq> chain_head c" "nh \<noteq> chain_head c"
    and fetch: "fetch_branch_from nh (chain_head c) (fdb c) = Some (Inr (p1, p2))" and base: "prev (last p2) \<in> set (index (fdb c))"
    and blocks: "\<forall>b\<in>set p1. blk b \<noteq> None"
  shows "case run_blocks exec (\<lambda>j. status_of (obj (fdb c) j)) (fdb c) (applications c) (rev (map bs_id p1)) (fork_point p2 c) of
      (passed, x, None) \<Rightarrow> \<exists>c'. maybe_switch_forks cfg exec s c = (Inr (), c') \<and> chain_head c' = nh \<and> chain_state c' = x \<and> in_step c'
    | (passed, x, Some (i, e)) \<Rightarrow> e \<noteq> undefined_behaviour \<longrightarrow> i \<notin> set (map bs_id p2) \<longrightarrow>
        (case run_blocks exec (\<lambda>_. Validated) (fdb c) (applications c + length passed + 1) (rev (map bs_id p2)) (fork_point p2 c) of
          (again, y, r) \<Rightarrow> \<exists>c'. maybe_switch_forks cfg exec s c = (Inl (failure e r), c') \<and> chain_head c' = last (prev (last p2) # again) \<and> chain_state c' = y
            \<and> set (index (fdb c')) = set (index (fdb c)) - branch_of (fdb c) i \<and> head_best (fdb c') \<and> in_step c')"
proof -
  let ?f = "fdb c" and ?h = "chain_head c" and ?y = "chain_state c" and ?b = "prev (last p2)" and ?i1 = "map bs_id p1" and ?i2 = "map bs_id p2"
  note b = in_step_branch [OF st hp(2) fetch base]
  have fs: "fork_state ?f" and s0: "stands ?f c ?h ?y" "raised ?f ?h (snd (snd ?y))" using st in_step_stands [OF st] by (auto simp: in_step_def)
  have sub: "set ?i1 \<subseteq> set (index ?f)" "set ?i2 \<subseteq> set (index ?f)" "insert ?b (set ?i2) \<subseteq> set (index ?f)" "insert ?b (set ?i1) \<subseteq> set (index ?f)" using b(6,9) base by auto
  let ?x = "rewound ?f ?i2 ?y"
  have "(\<lambda>i. block_num (obj ?f i)) ` set ?i2 = block_num ` set p2" using b(10) by (force simp: image_image)
  then have x0: "fork_point p2 c = ?x"
    using rewound_saved [OF b(11) [unfolded chain_state_def]] b(4) by (simp add: fork_point_def chain_state_def)
  obtain c1 where c1: "unwind cfg ?i2 c = (Inr (), c1)" "stands ?f c1 ?b ?x" "carried c c1" "\<And>j. marked c1 j \<longleftrightarrow> marked c j \<and> j \<notin> set ?i2" "\<And>j. checked c1 j = checked c j"
      "applications c1 = applications c"
    using unwind_ok [OF s0(1) b(8,11) sub(2) base, of cfg] by blast
  have ix1: "index (fdb c1) = index ?f" using c1(3) by (simp add: carried_def)
  have run: "maybe_switch_forks cfg exec s c = switch_loop cfg exec ?i2 ?b [] (rev ?i1) c1"
    by (rule switch_runs [OF st hp ne fetch c1(1)]) (use c1(2) in \<open>simp add: stands_def\<close>)
  have r0: "raised ?f ?b (snd (snd ?x))" by (rule raised_rewound [OF fs b(8) sub(3) s0(2)])
  have up: "path_up ?f ?b (rev ?i1)" "last (?b # rev ?i1) = nh" "path_up ?f ?b (rev ?i2)" using path_down_up [OF b(5)] path_down_up [OF b(8)] by auto
  have di: "distinct (rev ?i1)" "\<forall>j\<in>set ?i1. block_num (obj ?f ?b) < block_num (obj ?f j)" using path_down_order [OF fs b(5) sub(4)] by auto
  have ck: "checked c1 j = validated (obj ?f j)" if "j \<in> set (rev ?i1)" for j using c1(5) by (simp add: checked_def)
  have bl: "blk (obj ?f j) \<noteq> None" if "j \<in> set (rev ?i1)" for j using that blocks b(7) by auto
  have bl2: "\<forall>j\<in>set ?i2. blk (obj ?f j) \<noteq> None" using recorded_blocks [OF b(11)] .
  have ap: "apart ?f ?i2 (rev ?i1)" by (rule meet_apart [OF fs b(1) base])
  have l1: "set [] \<union> set (rev ?i1) \<subseteq> set (index ?f)" "path_down ?f [] ?b ?b" "recorded ?f [] ?x" "rewound ?f [] ?x = ?x" using sub by simp_all
  have mk: "marked c1 j \<longleftrightarrow> marked c j \<and> j \<notin> set ?i2 \<or> j \<in> set []" for j using c1(4) by simp
  have nA: "\<not> (marked c j \<and> j \<notin> set ?i2)" if "j \<in> set [] \<union> set (rev ?i1)" for j using b(14) [of j] that by simp
  obtain ds x r where rn: "run_blocks exec (\<lambda>j. status_of (obj ?f j)) ?f (applications c1) (rev ?i1) ?x = (ds, x, r)" by (metis prod_cases3)
  note loop = switch_loop_ok [OF k fs up(3) bl2 sub(3) r0 rn c1(2) l1(2-4) r0 base up(1) l1(1) ix1 di(1) ck bl mk nA ap]
  have rec: "raised ?f (last (?b # ds)) (snd (snd x)) \<and> recorded ?f (rev ds @ []) x \<and> rewound ?f (rev ds @ []) x = rewound ?f [] ?x"
    by (rule run_blocks_records [OF rn fs up(1) _ _ r0]) (use sub(4) bl in auto)
  show ?thesis
  proof (cases r)
    case None
    have ds: "ds = rev ?i1" using run_blocks_split [OF rn] None by simp
    obtain c' where c': "switch_loop cfg exec ?i2 ?b [] (rev ?i1) c1 = (Inr (), c')" "stands ?f c' nh x" "carried c1 c'"
        "\<And>j. marked c' j \<longleftrightarrow> marked c j \<and> j \<notin> set ?i2 \<or> j \<in> set ?i1" "\<And>j. checked c' j \<longleftrightarrow> checked c1 j \<or> j \<in> set ?i1"
      using loop up(2) unfolding None by auto
    have "in_step c'"
      by (rule moved_in_step [OF st c'(2) _ _ _ _ b(5) b(8) sub(2) _ _ c'(4)])
        (use c'(3,5) c1(5) ix1 rec ds up(2) sub(4) in \<open>auto simp: carried_def\<close>)
    then show ?thesis using c' run rn None x0 c1(6) by (auto simp: stands_def chain_state_def)
  next
    case (Some be)
    obtain i e where be: "be = (i, e)" by (cases be)
    obtain again y r2 where ag: "run_blocks exec (\<lambda>_. Validated) ?f (applications c + length ds + 1) (rev ?i2) ?x = (again, y, r2)" by (metis prod_cases3)
    obtain q where "rev ?i1 = ds @ i # q" using run_blocks_split [OF rn] Some be by auto
    then have "i \<in> set (rev ?i1)" by (metis in_set_conv_decomp)
    then have i: "i \<in> set ?i1" unfolding set_rev .
    have "\<exists>c'. maybe_switch_forks cfg exec s c = (Inl (failure e r2), c') \<and> chain_head c' = last (?b # again) \<and> chain_state c' = y
        \<and> set (index (fdb c')) = set (index ?f) - branch_of ?f i \<and> head_best (fdb c') \<and> in_step c'" if ub: "e \<noteq> undefined_behaviour" "i \<notin> set ?i2"
    proof -
      obtain c' where c': "switch_loop cfg exec ?i2 ?b [] (rev ?i1) c1 = (Inl (failure e r2), c')" "stands ?f c' (last (?b # again)) y"
          "set (index (fdb c')) = set (index ?f) - branch_of ?f i" "head_best (fdb c')" "\<And>j. marked c' j \<longleftrightarrow> marked c j \<and> j \<notin> set ?i2 \<or> j \<in> set again" "\<And>j. checked c1 j \<Longrightarrow> checked c' j"
        using loop ub ag unfolding Some be by (auto simp: c1(6))
      have "in_step c'"
        by (rule put_back_in_step [OF st b(8) sub(3) ap _ ub(2) _ r0 bl2 ag c'(2,3,5)])
          (use i di(2) c'(6) c1(5) sub(1) in auto)
      then show ?thesis using c' run by (auto simp: stands_def chain_state_def)
    qed
    then show ?thesis using Some be x0 rn ag c1(6) by simp
  qed
qed

text \<open>A chain with a fork: the head is the first block over the base, and the fork database prefers the second.\<close>

definition demo_config :: switch_config where
  "demo_config = \<lparr>speculative = True, disable_replay_opts = False, replaying = False\<rparr>"

definition demo_exec :: "(unit, int) executor" where
  "demo_exec k s b d = (Inr (), d + int k, [])"

definition demo_refuses :: "(unit, int) executor" where
  "demo_refuses k s b d = (if s = Complete then (Inl block_validate_exception, d, []) else (Inr (), d + int k, []))"

definition demo_forked :: "(nat, nat, unit) fork_db" where
  "demo_forked = demo_tree\<lparr>objects := (objects demo_tree)(demo_id 4 0 \<mapsto> (demo_node 4 0 (demo_id 3 0))\<lparr>validated := True, in_current_chain := True\<rparr>),
     head_ptr := Some (demo_id 4 2)\<rparr>"

definition demo_chain :: "(nat, nat, unit, int) controller" where
  "demo_chain = \<lparr>fdb = demo_forked, chain_head = demo_id 4 0, contents = 2, undo_states = [0], db_revision = 4, reversible_blocks = [4 \<mapsto> ()], unapplied_transactions = {}, applications = 5\<rparr>"

lemma demo_marks [simp]: "prev (b\<lparr>validated := v, in_current_chain := w\<rparr>) = prev b"
  by (simp add: prev_def)

lemma demo_forked_fields [simp]: "obj demo_forked (demo_id 3 0) = demo_node 3 0 (demo_id 2 0)"
  "obj demo_forked (demo_id 4 0) = (demo_node 4 0 (demo_id 3 0))\<lparr>validated := True, in_current_chain := True\<rparr>"
  "obj demo_forked (demo_id 4 2) = demo_node 4 2 (demo_id 3 0)"
  "index demo_forked = [demo_id 3 0, demo_id 4 0, demo_id 4 2]" "head_ptr demo_forked = Some (demo_id 4 2)"
  by (simp_all add: demo_forked_def demo_tree_def obj_def)

lemma demo_forked_state: "fork_state demo_forked"
proof -
  let ?g = "poke (demo_id 4 0) (\<lambda>b. b\<lparr>validated := True\<rparr>) demo_tree"
  have g: "fork_state ?g" using poke_state [OF demo_tree_state] by blast
  have h: "fork_state (d\<lparr>head_ptr := x\<rparr>) = fork_state d" for d :: "(nat, nat, unit) fork_db" and x
    by (simp add: fork_state_def fork_inv_def rooted_def announced_def bft_mono_def)
  have "demo_id 4 0 \<in> set (index ?g)" by (simp add: poke_def)
  from mark_state [OF g this, of True] obtain d where d: "mark_in_current_chain (demo_id 4 0) True ?g = Inr d" "fork_state d" by blast
  have p: "obj ?g (demo_id 4 0) = (demo_node 4 0 (demo_id 3 0))\<lparr>validated := True\<rparr>" by (simp add: poke_def obj_def) (simp add: obj_def [symmetric])
  have "d = modify_block (demo_id 4 0) (\<lambda>b. b\<lparr>in_current_chain := True\<rparr>) ?g" using d(1) p by (auto simp: mark_in_current_chain_def result_simps)
  then have eq: "demo_forked = d\<lparr>head_ptr := Some (demo_id 4 2)\<rparr>"
    by (simp add: demo_forked_def demo_tree_def modify_block_def poke_def relink_def obj_def Let_def num_key_def lib_key_def)
  show ?thesis unfolding eq h by (rule d(2))
qed

lemma demo_in_step: "in_step demo_chain"
proof (rule in_step_intro)
  show "stands demo_forked demo_chain (demo_id 4 0) (2, [0], [4 \<mapsto> ()])" using demo_forked_state by (simp add: stands_def demo_chain_def)
  show "recorded demo_forked p (2, [0], [4 \<mapsto> ()]) \<and> (\<forall>j\<in>set p. checked demo_chain j \<and> marked demo_chain j)"
    if "path_down demo_forked p (demo_id 4 0) b" "insert b (set p) \<subseteq> set (index (fdb demo_chain))" for p b
  proof -
    have "p = [] \<or> p = [demo_id 4 0] \<or> demo_id 2 0 \<in> insert b (set p)" using that(1) by (cases p; cases "tl p"; cases "tl (tl p)") auto
    moreover have "demo_id 2 0 \<notin> set (index (fdb demo_chain))" by (simp add: demo_chain_def)
    ultimately show ?thesis using that(2) by (auto simp: checked_def marked_def demo_chain_def demo_exec_def)
  qed
qed (auto simp: demo_chain_def raised_def marked_def ancestor_def intro: exI [of _ "[]"])

text \<open>The old block was application 4 or earlier and had left 2; put back as application 6 it leaves 6.\<close>

theorem fork_switch_exact_witness:
  "(\<exists>c'. maybe_switch_forks demo_config demo_exec Complete demo_chain = (Inr (), c') \<and> chain_head c' = demo_id 4 2 \<and> contents c' = 5 \<and> in_step c')
   \<and> (\<exists>c'. maybe_switch_forks demo_config demo_refuses Complete demo_chain = (Inl block_validate_exception, c') \<and> chain_head c' = demo_id 4 0 \<and> contents c' = 6
     \<and> reversible_blocks c' = [4 \<mapsto> ()] \<and> in_step c')"
proof -
  have ok: "fork_ok demo_forked" using demo_forked_state by (simp add: fork_state_def fork_inv_def)
  have f: "fetch_branch_from (demo_id 4 2) (demo_id 4 0) demo_forked = Some (Inr ([obj demo_forked (demo_id 4 2)], [obj demo_forked (demo_id 4 0)]))"
  proof -
    have w: "walk_back demo_forked 4 b [] = Some (Inr (b, []))" if "block_num b = 4" for b using that by (subst walk_back.simps) simp
    have "walk_both demo_forked b b' [] [] = Some (Inr ([b], [b']))" if "prev b = prev b'" for b b' using that by (subst walk_both.simps) simp
    then show ?thesis using w by (simp add: fetch_branch_from_def fork_ok_get [OF ok])
  qed
  have c: "fdb demo_chain = demo_forked" "chain_head demo_chain = demo_id 4 0" "undo_states demo_chain = [0]" "applications demo_chain = 5"
      "reversible_blocks demo_chain = [4 \<mapsto> ()]" by (simp_all add: demo_chain_def)
  note sw = fork_switch_exact [OF demo_in_step, of demo_config "demo_id 4 2" "[obj demo_forked (demo_id 4 2)]" "[obj demo_forked (demo_id 4 0)]" _ Complete]
  have "\<exists>c'. maybe_switch_forks demo_config demo_exec Complete demo_chain = (Inr (), c') \<and> chain_head c' = demo_id 4 2 \<and> contents c' = 5 \<and> in_step c'"
    using sw [of demo_exec] f by (auto simp: c demo_config_def status_of_def demo_exec_def fork_point_def chain_state_def)
  moreover have "\<exists>c'. maybe_switch_forks demo_config demo_refuses Complete demo_chain = (Inl block_validate_exception, c') \<and> chain_head c' = demo_id 4 0 \<and> contents c' = 6
     \<and> reversible_blocks c' = [4 \<mapsto> ()] \<and> in_step c'"
    using sw [of demo_refuses] f by (auto simp: c demo_config_def status_of_def demo_refuses_def fork_point_def chain_state_def failure_def)
  ultimately show ?thesis by blast
qed


definition demo_start :: "(nat, nat, unit, int) controller" where
  "demo_start = \<lparr>fdb = demo_tree, chain_head = demo_id 3 0, contents = 0, undo_states = [], db_revision = 3, reversible_blocks = Map.empty, unapplied_transactions = {}, applications = 5\<rparr>"


end
