(* ===== verification/Packing.thy ===== *)
theory Packing
  imports ContractAssets Authority
begin

text \<open>
  The binary format of contracts (\<^verbatim>\<open>contracts/eosiolib/datastream.hpp\<close>, \<open>varint.hpp\<close>,
  \<open>transaction.hpp\<close>, \<open>action.hpp\<close>): streams over a buffer, variable-length integers, vectors,
  sets, maps and the structures built from them.

  A serializer is a template over the stream, and all it does to the stream is to write; so \<open><<\<close> of
  a type is the list of the chunks it writes, which a buffer stream copies and a size stream counts.
  A deserializer \<open>>>\<close> reads from a buffer stream and may fail.  Sizes and pointers have the 32 bits of
  the contract machine.  That \<open>resize\<close> finds memory for what a stream announces is taken for granted.
\<close>

type_synonym packed = "8 word list"

section \<open>Streams\<close>

record datastream =
  ds_buf :: packed
  ds_pos :: nat

definition ds_over :: "packed \<Rightarrow> datastream" where
  "ds_over b = \<lparr>ds_buf = b, ds_pos = 0\<rparr>"

definition ds_remaining :: "datastream \<Rightarrow> nat" where
  "ds_remaining d = nat ((int (length (ds_buf d)) - int (ds_pos d)) mod 2 ^ 32)"

definition ds_skip :: "nat \<Rightarrow> datastream \<Rightarrow> datastream" where
  "ds_skip s d = d\<lparr>ds_pos := ds_pos d + s\<rparr>"

definition ds_seekp :: "nat \<Rightarrow> datastream \<Rightarrow> bool \<times> datastream" where
  "ds_seekp p d = (p \<le> length (ds_buf d), d\<lparr>ds_pos := p\<rparr>)"

definition ds_tellp :: "datastream \<Rightarrow> nat" where
  "ds_tellp d = u32 (ds_pos d)"

definition ds_valid :: "datastream \<Rightarrow> bool" where
  "ds_valid d \<longleftrightarrow> ds_pos d \<le> length (ds_buf d)"

text \<open>The guards compare modulo the word size; a copy that leaves the buffer is undefined.\<close>

definition ds_read :: "nat \<Rightarrow> datastream \<Rightarrow> (packed \<times> datastream) result" where
  "ds_read s d =
     bind_r (contract_assert (ds_remaining d \<ge> s) ''read'') (\<lambda>_.
     if ds_pos d + s \<le> length (ds_buf d)
     then Inr (take s (drop (ds_pos d) (ds_buf d)), ds_skip s d)
     else Inl undefined_behaviour)"

definition to_int32 :: "nat \<Rightarrow> int" where
  "to_int32 n = (let k = int (u32 n) in if k \<ge> 2 ^ 31 then k - 2 ^ 32 else k)"

definition ds_write :: "packed \<Rightarrow> datastream \<Rightarrow> datastream result" where
  "ds_write b d =
     bind_r (contract_assert (int (length (ds_buf d)) - int (ds_pos d) \<ge> to_int32 (length b)) ''write'') (\<lambda>_.
     if ds_pos d + length b \<le> length (ds_buf d)
     then Inr (ds_skip (length b) (d\<lparr>ds_buf := take (ds_pos d) (ds_buf d) @ b @ drop (ds_pos d + length b) (ds_buf d)\<rparr>))
     else Inl undefined_behaviour)"

definition ds_put :: "8 word \<Rightarrow> datastream \<Rightarrow> datastream result" where
  "ds_put c d =
     bind_r (contract_assert (ds_pos d < length (ds_buf d)) ''put'') (\<lambda>_.
     Inr (ds_skip 1 (d\<lparr>ds_buf := (ds_buf d)[ds_pos d := c]\<rparr>)))"

definition ds_get :: "datastream \<Rightarrow> (8 word \<times> datastream) result" where
  "ds_get d =
     bind_r (contract_assert (ds_pos d < length (ds_buf d)) ''get'') (\<lambda>_.
     Inr (ds_buf d ! ds_pos d, ds_skip 1 d))"

text \<open>The stream that only counts.\<close>

definition size_write :: "packed \<Rightarrow> nat \<Rightarrow> nat" where
  "size_write b n = u32 (n + length b)"

section \<open>Readers\<close>

type_synonym 'a reader = "datastream \<Rightarrow> ('a \<times> datastream) result"

definition ret_d :: "'a \<Rightarrow> 'a reader" where
  "ret_d x d = Inr (x, d)"

definition bind_d :: "'a reader \<Rightarrow> ('a \<Rightarrow> 'b reader) \<Rightarrow> 'b reader" where
  "bind_d m f d = bind_r (m d) (\<lambda>(x, d). f x d)"

definition map_d :: "('a \<Rightarrow> 'b) \<Rightarrow> 'a reader \<Rightarrow> 'b reader" where
  "map_d f m = bind_d m (\<lambda>x. ret_d (f x))"

section \<open>Values\<close>

text \<open>Little-endian bytes of a primitive.\<close>

fun le_bytes :: "nat \<Rightarrow> nat \<Rightarrow> packed" where
  "le_bytes 0 k = []"
| "le_bytes (Suc n) k = of_nat (k mod 256) # le_bytes n (k div 256)"

fun le_value :: "packed \<Rightarrow> nat" where
  "le_value [] = 0"
| "le_value (b # bs) = unat b + 256 * le_value bs"

definition out_prim :: "nat \<Rightarrow> nat \<Rightarrow> packed list" where
  "out_prim n k = [le_bytes n k]"

definition in_prim :: "nat \<Rightarrow> nat reader" where
  "in_prim n = map_d le_value (ds_read n)"

definition out_bool :: "bool \<Rightarrow> packed list" where
  "out_bool b = out_prim 1 (if b then 1 else 0)"

definition in_bool :: "bool reader" where
  "in_bool = map_d (\<lambda>t. t \<noteq> 0) (in_prim 1)"

text \<open>\<open>unsigned_int\<close>: seven bits at a time, the top bit says that more follow.\<close>

fun out_uint :: "nat \<Rightarrow> packed list" where
  "out_uint v =
     (let b = v mod 128; v = v div 128
      in [of_nat (if v > 0 then b + 128 else b)] # (if v > 0 then out_uint v else []))"

declare out_uint.simps [simp del]

text \<open>A shift of a 32-bit value by 32 or more is undefined; \<open>by\<close> gets there before its own width matters.\<close>

function in_varint :: "nat \<Rightarrow> nat \<Rightarrow> nat reader" where
  "in_varint v by1 d =
     (case ds_get d of
        Inl e \<Rightarrow> Inl e
      | Inr (b, d) \<Rightarrow>
          if by1 \<ge> 32 then Inl undefined_behaviour
          else
            let v = v OR u32 (push_bit by1 (unat b mod 128)) in
            if unat b \<ge> 128 then in_varint v (by1 + 7) d else Inr (u32 v, d))"
  by pat_completeness auto
termination by (relation "measure (\<lambda>(v, by1, d). 32 - by1)") auto

declare in_varint.simps [simp del]

definition in_uint :: "nat reader" where
  "in_uint = in_varint 0 0"

text \<open>\<open>signed_int\<close>; the left shift of a negative number is undefined, and so is negating the least one.\<close>

definition zigzag :: "32 word \<Rightarrow> 32 word result" where
  "zigzag v = (if sint v < 0 then Inl undefined_behaviour else Inr (push_bit 1 v XOR signed_drop_bit 31 v))"

definition neg32 :: "32 word \<Rightarrow> 32 word result" where
  "neg32 x = (if sint x = - (2 ^ 31) then Inl undefined_behaviour else Inr (- x))"

definition unzigzag :: "32 word \<Rightarrow> 32 word result" where
  "unzigzag v =
     (let x = (drop_bit 1 v XOR drop_bit 31 v) + (v AND 1)
      in bind_r (if v AND 1 \<noteq> 0 then Inr x else neg32 x) neg32)"

definition out_sint :: "32 word \<Rightarrow> packed list result" where
  "out_sint v = bind_r (zigzag v) (\<lambda>n. Inr (out_uint (unat n)))"

definition in_sint :: "32 word reader" where
  "in_sint = bind_d (in_varint 0 0) (\<lambda>v d. bind_r (unzigzag (of_nat v)) (\<lambda>x. Inr (x, d)))"

text \<open>Members one after the other, as in a tuple or a structure.\<close>

definition out_pair :: "('a \<Rightarrow> packed list) \<Rightarrow> ('b \<Rightarrow> packed list) \<Rightarrow> 'a \<times> 'b \<Rightarrow> packed list" where
  "out_pair out1 out2 p = out1 (fst p) @ out2 (snd p)"

definition in_pair :: "'a reader \<Rightarrow> 'b reader \<Rightarrow> ('a \<times> 'b) reader" where
  "in_pair in1 in2 = bind_d in1 (\<lambda>a. bind_d in2 (\<lambda>b. ret_d (a, b)))"

text \<open>Containers: the number of elements, then the elements.\<close>

fun in_many :: "'a reader \<Rightarrow> nat \<Rightarrow> 'a list reader" where
  "in_many inn 0 = ret_d []"
| "in_many inn (Suc n) = bind_d inn (\<lambda>x. map_d ((#) x) (in_many inn n))"

definition out_array :: "('a \<Rightarrow> packed list) \<Rightarrow> 'a list \<Rightarrow> packed list" where
  "out_array out v = concat (map out v)"

definition in_array :: "nat \<Rightarrow> 'a reader \<Rightarrow> 'a list reader" where
  "in_array n inn = in_many inn n"

definition out_carray :: "('a \<Rightarrow> packed list) \<Rightarrow> 'a list \<Rightarrow> packed list" where
  "out_carray out v = out_uint (u32 (length v)) @ concat (map out v)"

definition in_carray :: "nat \<Rightarrow> 'a reader \<Rightarrow> 'a list reader" where
  "in_carray n inn = bind_d in_uint (\<lambda>s d.
     bind_r (contract_assert (n = s) ''T[] size and unpacked size don't match'') (\<lambda>_. in_many inn n d))"

text \<open>Hashes and keys are written as they lie in memory.\<close>

definition out_fixed :: "packed \<Rightarrow> packed list" where
  "out_fixed h = [h]"

definition in_fixed :: "nat \<Rightarrow> packed reader" where
  "in_fixed n = ds_read n"

definition out_vector :: "('a \<Rightarrow> packed list) \<Rightarrow> 'a list \<Rightarrow> packed list" where
  "out_vector out v = out_uint (u32 (length v)) @ concat (map out v)"

definition in_vector :: "'a reader \<Rightarrow> 'a list reader" where
  "in_vector inn = bind_d in_uint (in_many inn)"

definition out_bytes :: "packed \<Rightarrow> packed list" where
  "out_bytes v = out_uint (u32 (length v)) @ [v]"

definition out_string :: "packed \<Rightarrow> packed list" where
  "out_string v = out_uint (u32 (length v)) @ (if length v \<noteq> 0 then [v] else [])"

definition in_bytes :: "packed reader" where
  "in_bytes = bind_d in_uint ds_read"

definition out_set :: "('a::linorder \<Rightarrow> packed list) \<Rightarrow> 'a set \<Rightarrow> packed list" where
  "out_set out s = out_vector out (sorted_list_of_set s)"

definition in_set :: "'a::linorder reader \<Rightarrow> 'a set reader" where
  "in_set inn = map_d set (in_vector inn)"

text \<open>Entries in the order of the keys; \<open>emplace\<close> keeps the entry that is there.\<close>

definition out_map :: "('k::linorder \<Rightarrow> packed list) \<Rightarrow> ('v \<Rightarrow> packed list) \<Rightarrow> ('k \<rightharpoonup> 'v) \<Rightarrow> packed list" where
  "out_map out1 out2 m = out_vector (out_pair out1 out2) (map (\<lambda>k. (k, the (m k))) (sorted_list_of_set (dom m)))"

definition in_map :: "'k::linorder reader \<Rightarrow> 'v reader \<Rightarrow> ('k \<rightharpoonup> 'v) reader" where
  "in_map in1 in2 = map_d map_of (in_vector (in_pair in1 in2))"

section \<open>Packing and unpacking\<close>

definition pack_size :: "packed list \<Rightarrow> nat" where
  "pack_size cs = fold size_write cs 0"

definition pack :: "packed list \<Rightarrow> packed result" where
  "pack cs = bind_r (fold_r ds_write cs (ds_over (replicate (pack_size cs) 0))) (\<lambda>d. Inr (ds_buf d))"

definition unpack :: "'a reader \<Rightarrow> packed \<Rightarrow> 'a result" where
  "unpack inn b = bind_r (inn (ds_over b)) (\<lambda>(x, _). Inr x)"

section \<open>Transactions\<close>

definition out_permission_level :: "permission_level \<Rightarrow> packed list" where
  "out_permission_level p = out_pair (\<lambda>a. out_prim 8 (unat a)) (\<lambda>a. out_prim 8 (unat a)) (actor p, permission p)"

definition in_permission_level :: "permission_level reader" where
  "in_permission_level = map_d (\<lambda>(a, p). permission_level (of_nat a) (of_nat p)) (in_pair (in_prim 8) (in_prim 8))"

record contract_action =
  ca_account :: "64 word"
  ca_name :: "64 word"
  ca_authorization :: "permission_level list"
  ca_data :: packed

record trx_header =
  expiration :: nat
  ref_block_num :: nat
  ref_block_prefix :: nat
  net_usage_words :: nat
  max_cpu_usage_ms :: nat
  delay_sec :: nat

record contract_trx = trx_header +
  context_free_actions :: "contract_action list"
  actions :: "contract_action list"
  transaction_extensions :: "(nat \<times> packed) list"

definition out_action :: "contract_action \<Rightarrow> packed list" where
  "out_action a = out_prim 8 (unat (ca_account a)) @ out_prim 8 (unat (ca_name a)) @ out_vector out_permission_level (ca_authorization a) @ out_bytes (ca_data a)"

definition in_action :: "contract_action reader" where
  "in_action =
     bind_d (in_prim 8) (\<lambda>a. bind_d (in_prim 8) (\<lambda>n. bind_d (in_vector in_permission_level) (\<lambda>auth. bind_d in_bytes (\<lambda>data.
     ret_d \<lparr>ca_account = of_nat a, ca_name = of_nat n, ca_authorization = auth, ca_data = data\<rparr>))))"

definition out_header :: "('x) trx_header_scheme \<Rightarrow> packed list" where
  "out_header h = out_prim 4 (expiration h) @ out_prim 2 (ref_block_num h) @ out_prim 4 (ref_block_prefix h) @ out_uint (net_usage_words h)
     @ out_prim 1 (max_cpu_usage_ms h) @ out_uint (delay_sec h)"

definition in_header :: "trx_header reader" where
  "in_header =
     bind_d (in_prim 4) (\<lambda>e. bind_d (in_prim 2) (\<lambda>n. bind_d (in_prim 4) (\<lambda>p. bind_d in_uint (\<lambda>w. bind_d (in_prim 1) (\<lambda>c. bind_d in_uint (\<lambda>s.
     ret_d \<lparr>expiration = e, ref_block_num = n, ref_block_prefix = p, net_usage_words = w, max_cpu_usage_ms = c, delay_sec = s\<rparr>))))))"

definition out_extension :: "nat \<times> packed \<Rightarrow> packed list" where
  "out_extension = out_pair (out_prim 2) out_bytes"

definition in_extension :: "(nat \<times> packed) reader" where
  "in_extension = in_pair (in_prim 2) in_bytes"

definition out_trx :: "contract_trx \<Rightarrow> packed list" where
  "out_trx t = out_header t @ out_vector out_action (context_free_actions t) @ out_vector out_action (actions t) @ out_vector out_extension (transaction_extensions t)"

definition in_trx :: "contract_trx reader" where
  "in_trx =
     bind_d in_header (\<lambda>h. bind_d (in_vector in_action) (\<lambda>cfa. bind_d (in_vector in_action) (\<lambda>acts. bind_d (in_vector in_extension) (\<lambda>exts.
     ret_d (trx_header.extend h \<lparr>context_free_actions = cfa, actions = acts, transaction_extensions = exts\<rparr>)))))"

section \<open>Reading back what was written\<close>

definition ds_ok :: "datastream \<Rightarrow> bool" where
  "ds_ok d \<longleftrightarrow> ds_pos d \<le> length (ds_buf d) \<and> length (ds_buf d) < 2 ^ 31"

definition ahead :: "packed \<Rightarrow> datastream \<Rightarrow> bool" where
  "ahead bs d \<longleftrightarrow> ds_ok d \<and> (\<exists>rest. drop (ds_pos d) (ds_buf d) = bs @ rest)"

text \<open>The reader takes these bytes for this value; the values a reader can give, and that it stays in the buffer.\<close>

definition takes :: "'a reader \<Rightarrow> packed \<Rightarrow> 'a \<Rightarrow> bool" where
  "takes inn bs v \<longleftrightarrow> (\<forall>d. ahead bs d \<longrightarrow> inn d = Inr (v, ds_skip (length bs) d))"

definition gives :: "'a reader \<Rightarrow> ('a \<Rightarrow> bool) \<Rightarrow> bool" where
  "gives inn P \<longleftrightarrow> (\<forall>d v d'. ds_ok d \<longrightarrow> inn d = Inr (v, d') \<longrightarrow> P v \<and> ds_ok d' \<and> ds_buf d' = ds_buf d \<and> ds_pos d \<le> ds_pos d')"

named_theorems codec_intros \<open>composition rules of readers\<close>

lemma ahead_append: "ahead (a @ b) d \<longleftrightarrow> ahead a d \<and> ahead b (ds_skip (length a) d)"
proof -
  have "ahead b (ds_skip (length a) d)" if "drop (ds_pos d) (ds_buf d) = a @ b @ rest" "ds_ok d" for rest
  proof -
    have "drop (ds_pos d + length a) (ds_buf d) = b @ rest" using that(1) by (metis add.commute append_eq_conv_conj drop_drop)
    moreover have "length a \<le> length (ds_buf d) - ds_pos d" using arg_cong [OF that(1), of length] by simp
    ultimately show ?thesis using that(2) by (auto simp: ahead_def ds_ok_def ds_skip_def)
  qed
  moreover have "\<exists>rest. drop (ds_pos d) (ds_buf d) = a @ b @ rest"
    if "drop (ds_pos d) (ds_buf d) = a @ r" "drop (ds_pos d + length a) (ds_buf d) = b @ rest" for r rest
    using that by (metis add.commute append_eq_conv_conj drop_drop)
  ultimately show ?thesis by (auto simp: ahead_def ds_skip_def)
qed

lemma skip_skip [simp]: "ds_skip a (ds_skip b d) = ds_skip (b + a) d" "ds_skip 0 d = d"
  by (simp_all add: ds_skip_def add.assoc)

lemma takes_ret [codec_intros]: "takes (ret_d v) [] v"
  by (simp add: takes_def ret_d_def)

lemma takes_bind: "takes m a x \<Longrightarrow> takes (f x) b y \<Longrightarrow> takes (bind_d m f) (a @ b) y"
  by (auto simp: takes_def bind_d_def ahead_append)

lemma takes_bind_last: "takes m a x \<Longrightarrow> takes (f x) [] y \<Longrightarrow> takes (bind_d m f) a y"
  using takes_bind [of m a x f "[]" y] by simp

lemma takes_map: "takes m a x \<Longrightarrow> takes (map_d f m) a (f x)"
  unfolding map_d_def by (rule takes_bind_last) (auto intro: takes_ret)

lemma gives_ret [codec_intros]: "P v \<Longrightarrow> gives (ret_d v) P"
  by (auto simp: gives_def ret_d_def)

lemma gives_bind: "gives m P \<Longrightarrow> (\<And>x. P x \<Longrightarrow> gives (f x) Q) \<Longrightarrow> gives (bind_d m f) Q"
  unfolding gives_def
proof (intro allI impI)
  fix d v d'
  assume m: "\<forall>d v d'. ds_ok d \<longrightarrow> m d = Inr (v, d') \<longrightarrow> P v \<and> ds_ok d' \<and> ds_buf d' = ds_buf d \<and> ds_pos d \<le> ds_pos d'"
    and f: "\<And>x. P x \<Longrightarrow> \<forall>d v d'. ds_ok d \<longrightarrow> f x d = Inr (v, d') \<longrightarrow> Q v \<and> ds_ok d' \<and> ds_buf d' = ds_buf d \<and> ds_pos d \<le> ds_pos d'"
    and ok: "ds_ok d" and run: "bind_d m f d = Inr (v, d')"
  obtain x d1 where x: "m d = Inr (x, d1)" "f x d1 = Inr (v, d')" using run by (auto simp: bind_d_def result_simps)
  have d1: "P x" "ds_ok d1" "ds_buf d1 = ds_buf d" "ds_pos d \<le> ds_pos d1" using m ok x(1) by blast+
  have "Q v" "ds_ok d'" "ds_buf d' = ds_buf d1" "ds_pos d1 \<le> ds_pos d'" using f [OF d1(1)] d1(2) x(2) by blast+
  then show "Q v \<and> ds_ok d' \<and> ds_buf d' = ds_buf d \<and> ds_pos d \<le> ds_pos d'" using d1 by simp
qed

lemma gives_map: "gives m P \<Longrightarrow> (\<And>x. P x \<Longrightarrow> Q (f x)) \<Longrightarrow> gives (map_d f m) Q"
  unfolding map_d_def by (rule gives_bind [where P = P]) (auto intro: gives_ret)

lemma gives_mono: "gives m P \<Longrightarrow> (\<And>x. P x \<Longrightarrow> Q x) \<Longrightarrow> gives m Q"
  unfolding gives_def by blast

text \<open>What a type needs to be packed and unpacked: a serializer, a deserializer and the values it stands for.\<close>

locale codec =
  fixes out :: "'a \<Rightarrow> packed list" and inn :: "'a reader" and rng :: "'a \<Rightarrow> bool"
  assumes in_out: "rng v \<Longrightarrow> takes inn (concat (out v)) v"
    and in_rng: "gives inn rng"
begin

lemma many_takes: "list_all rng vs \<Longrightarrow> takes (in_many inn (length vs)) (concat (concat (map out vs))) vs"
proof (induction vs)
  case Nil
  then show ?case by (simp add: takes_ret)
next
  case (Cons v vs)
  then show ?case using takes_bind [where f = "\<lambda>x. map_d ((#) x) (in_many inn (length vs))", OF in_out takes_map [OF Cons.IH]] by simp
qed

lemma many_gives: "gives (in_many inn n) (\<lambda>vs. length vs = n \<and> list_all rng vs)"
proof (induction n)
  case 0
  show ?case by (simp add: gives_ret)
next
  case (Suc n)
  show ?case unfolding in_many.simps by (rule gives_bind [OF in_rng], rule gives_map [OF Suc.IH]) simp
qed

lemma unpack_pack_exact: "rng v \<Longrightarrow> length (concat (out v)) < 2 ^ 31 \<Longrightarrow> unpack inn (concat (out v)) = Inr v"
  using in_out [of v] by (simp add: takes_def unpack_def ahead_def ds_ok_def ds_over_def)

lemma unpack_in_range: "length b < 2 ^ 31 \<Longrightarrow> unpack inn b = Inr v \<Longrightarrow> rng v"
proof -
  assume b: "length b < 2 ^ 31" "unpack inn b = Inr v"
  obtain d' where "inn (ds_over b) = Inr (v, d')" using b(2) by (auto simp: unpack_def result_simps)
  moreover have "ds_ok (ds_over b)" using b(1) by (simp add: ds_ok_def ds_over_def)
  ultimately show "rng v" using in_rng unfolding gives_def by blast
qed

end

lemma ds_read_takes: "takes (ds_read (length bs)) bs bs"
  unfolding takes_def
proof (intro allI impI)
  fix d assume a: "ahead bs d"
  then obtain rest where r: "drop (ds_pos d) (ds_buf d) = bs @ rest" by (auto simp: ahead_def)
  have ok: "ds_pos d \<le> length (ds_buf d)" "length (ds_buf d) < 2 ^ 31" using a by (auto simp: ahead_def ds_ok_def)
  have len: "length (ds_buf d) - ds_pos d = length bs + length rest" using arg_cong [OF r, of length] by simp
  have "int (length (ds_buf d)) - int (ds_pos d) = int (length (ds_buf d) - ds_pos d)" using ok by simp
  then have "ds_remaining d = length (ds_buf d) - ds_pos d" using ok unfolding ds_remaining_def by (simp only: nat_mod_as_int nat_int) simp
  then show "ds_read (length bs) d = Inr (bs, ds_skip (length bs) d)" using r len ok by (simp add: ds_read_def contract_assert_def)
qed

lemma ds_read_gives: "gives (ds_read n) (\<lambda>b. length b = n)"
  by (auto simp: gives_def ds_read_def ds_ok_def ds_skip_def result_simps contract_assert_def split: if_splits)

lemma le_length [simp]: "length (le_bytes n k) = n"
  by (induction n arbitrary: k) auto

lemma le_value_bytes: "le_value (le_bytes n k) = k mod 256 ^ n"
proof (induction n arbitrary: k)
  case (Suc n)
  have "unat (of_nat (k mod 256) :: 8 word) = k mod 256" by (simp add: unat_of_nat)
  then show ?case using Suc mod_mult2_eq [of k 256 "256 ^ n"] by simp
qed simp

lemma le_value_bound: "le_value bs < 256 ^ length bs"
proof (induction bs)
  case (Cons b bs)
  have "unat b < 256" using unsigned_less [of b] by simp
  then show ?case using Cons by simp
qed simp

interpretation prim: codec "out_prim n" "in_prim n" "\<lambda>k. k < 256 ^ n" for n
proof
  fix v :: nat assume "v < 256 ^ n"
  then show "takes (in_prim n) (concat (out_prim n v)) v"
    using takes_map [OF ds_read_takes, of le_value "le_bytes n v"] by (simp add: in_prim_def out_prim_def le_value_bytes)
next
  show "gives (in_prim n) (\<lambda>k. k < 256 ^ n)"
    unfolding in_prim_def by (rule gives_map [OF ds_read_gives]) (use le_value_bound in auto)
qed

section \<open>Variable-length integers\<close>

lemma or_push_bit: "v < 2 ^ n \<Longrightarrow> v OR push_bit n x = v + x * 2 ^ n" for v x :: nat
proof -
  assume v: "v < 2 ^ n"
  have "int (v OR push_bit n x) = int v OR push_bit n (int x)" by (simp add: of_nat_or_eq of_nat_push_bit)
  also have "\<dots> = concat_bit n (int v) (int x)" using v by (simp add: concat_bit_def take_bit_int_eq_self)
  also have "\<dots> = int v + int x * 2 ^ n" using v by (simp add: concat_bit_eq take_bit_int_eq_self push_bit_eq_mult)
  also have "\<dots> = int (v + x * 2 ^ n)" by simp
  finally show ?thesis by (simp only: of_nat_eq_iff)
qed

lemma ds_get_takes: "takes ds_get [b] b"
  unfolding takes_def
proof (intro allI impI)
  fix d assume "ahead [b] d"
  then obtain rest where r: "drop (ds_pos d) (ds_buf d) = b # rest" by (auto simp: ahead_def)
  then have "ds_pos d < length (ds_buf d)" by (metis drop_all linorder_not_le list.distinct(1))
  moreover have "ds_buf d ! ds_pos d = b" using r by (metis calculation Cons_nth_drop_Suc list.inject)
  ultimately show "ds_get d = Inr (b, ds_skip (length [b]) d)" by (simp add: ds_get_def contract_assert_def)
qed

lemma ds_get_gives: "gives ds_get (\<lambda>_. True)"
  by (auto simp: gives_def ds_get_def ds_ok_def ds_skip_def contract_assert_def result_simps)

lemma varint_takes:
  assumes "v < 2 ^ s" "v + k * 2 ^ s < 2 ^ 32" "s < 32"
  shows "takes (in_varint v s) (concat (out_uint k)) (v + k * 2 ^ s)"
  using assms
proof (induction k arbitrary: v s rule: out_uint.induct)
  case (1 k)
  let ?b = "k mod 128" and ?k = "k div 128"
  let ?w = "of_nat (if ?k > 0 then ?b + 128 else ?b) :: 8 word"
  have uw: "unat ?w = (if ?k > 0 then ?b + 128 else ?b)" by (auto simp: unat_of_nat)
  then have low: "unat ?w mod 128 = ?b" by (simp add: mod_add_self2)
  have k: "k = ?b + ?k * 128" by simp
  have "?b * 2 ^ s \<le> k * 2 ^ s" by simp
  then have bs: "v + ?b * 2 ^ s < 2 ^ 32" using "1.prems"(2) by linarith
  have "?b * 2 ^ s < 2 ^ 32" using bs by linarith
  then have "u32 (push_bit s ?b) = push_bit s ?b" by (simp add: u32_def push_bit_eq_mult)
  then have acc: "v OR u32 (push_bit s (unat ?w mod 128)) = v + ?b * 2 ^ s" using or_push_bit [OF "1.prems"(1)] low by simp
  show ?case unfolding takes_def
  proof (intro allI impI)
    fix d assume a: "ahead (concat (out_uint k)) d"
    let ?rest = "if ?k > 0 then concat (out_uint ?k) else []"
    have o: "concat (out_uint k) = [?w] @ ?rest" by (subst out_uint.simps) (simp add: Let_def)
    have a2: "ahead [?w] d" "ahead ?rest (ds_skip 1 d)" using a unfolding o ahead_append by simp_all
    have g: "ds_get d = Inr (?w, ds_skip 1 d)" using ds_get_takes a2(1) by (auto simp: takes_def)
    show "in_varint v s d = Inr (v + k * 2 ^ s, ds_skip (length (concat (out_uint k))) d)"
    proof (cases "?k > 0")
      case False
      then have "unat ?w < 128" "k = ?b" using uw by auto
      then show ?thesis using g acc bs "1.prems"(3) False unfolding o by (subst in_varint.simps) (simp add: u32_def)
    next
      case True
      have s7: "s + 7 < 32"
      proof (rule ccontr)
        assume "\<not> s + 7 < 32"
        then have "(2::nat) ^ 25 \<le> 2 ^ s" by (intro power_increasing) auto
        moreover have "128 * 2 ^ s \<le> k * 2 ^ s" using True by (intro mult_right_mono) auto
        ultimately have "128 * 2 ^ 25 \<le> k * (2::nat) ^ s" by linarith
        then show False using "1.prems"(2) by simp
      qed
      have p: "(2::nat) ^ (s + 7) = 128 * 2 ^ s" by (simp add: power_add)
      have "?b * 2 ^ s + ?k * 2 ^ (s + 7) = (?b + ?k * 128) * 2 ^ s" by (simp only: p distrib_right mult.assoc)
      then have eq: "v + ?b * 2 ^ s + ?k * 2 ^ (s + 7) = v + k * 2 ^ s" unfolding k [symmetric] by linarith
      have lt: "v + ?b * 2 ^ s < 2 ^ (s + 7)"
      proof -
        have "v + ?b * 2 ^ s < 2 ^ s + ?b * 2 ^ s" using "1.prems"(1) by simp
        also have "\<dots> = (?b + 1) * 2 ^ s" by (simp add: algebra_simps)
        also have "\<dots> \<le> 128 * 2 ^ s" by (intro mult_right_mono) (auto simp: Suc_le_eq)
        finally show ?thesis by (simp add: p)
      qed
      have "takes (in_varint (v + ?b * 2 ^ s) (s + 7)) (concat (out_uint ?k)) (v + k * 2 ^ s)"
        using "1.IH" [OF refl refl, of "v + ?b * 2 ^ s" "s + 7"] True lt eq "1.prems"(2) s7 by simp
      then have "in_varint (v + ?b * 2 ^ s) (s + 7) (ds_skip 1 d) = Inr (v + k * 2 ^ s, ds_skip (length ?rest) (ds_skip 1 d))"
        using a2(2) True by (simp add: takes_def)
      then show ?thesis using g acc "1.prems"(3) True uw unfolding o by (subst in_varint.simps) simp
    qed
  qed
qed

lemma varint_gives: "gives (in_varint v s) (\<lambda>k. k < 2 ^ 32)"
  unfolding gives_def
proof (intro allI impI)
  fix d r d' assume "ds_ok d" "in_varint v s d = Inr (r, d')"
  then show "r < 2 ^ 32 \<and> ds_ok d' \<and> ds_buf d' = ds_buf d \<and> ds_pos d \<le> ds_pos d'"
  proof (induction v s d rule: in_varint.induct)
    case (1 v s d)
    have i: "in_varint v s d = Inr (r, d')" by fact
    obtain b d1 where g: "ds_get d = Inr (b, d1)"
      using i by (cases "ds_get d") (simp_all add: in_varint.simps [of v s d] split: prod.splits)
    have d1: "ds_ok d1" "ds_buf d1 = ds_buf d" "ds_pos d \<le> ds_pos d1"
      using ds_get_gives "1.prems"(1) g unfolding gives_def by blast+
    have s: "\<not> 32 \<le> s" using i unfolding in_varint.simps [of v s d] g by (cases "32 \<le> s") auto
    show ?case
    proof (cases "128 \<le> unat b")
      case True
      then have "in_varint (v OR u32 (push_bit s (unat b mod 128))) (s + 7) d1 = Inr (r, d')"
        using i s unfolding in_varint.simps [of v s d] g by (simp add: Let_def)
      from "1.IH" [OF g refl s refl True d1(1) this] d1 show ?thesis by simp
    next
      case False
      then show ?thesis using i s d1 unfolding in_varint.simps [of v s d] g by (auto simp: Let_def u32_def)
    qed
  qed
qed

interpretation uint: codec out_uint in_uint "\<lambda>k. k < 2 ^ 32"
  by unfold_locales (use varint_takes [of 0 0] varint_gives in \<open>auto simp: in_uint_def\<close>)

text \<open>Both containers of a type: elements after their number.\<close>

context codec begin

lemma vector_codec: "codec (out_vector out) (in_vector inn) (\<lambda>vs. length vs < 2 ^ 32 \<and> list_all rng vs)"
proof
  fix vs assume "length vs < 2 ^ 32 \<and> list_all rng vs"
  then show "takes (in_vector inn) (concat (out_vector out vs)) vs"
    using takes_bind [where f = "in_many inn", OF uint.in_out [of "length vs"] many_takes]
    by (simp add: in_vector_def out_vector_def u32_def)
next
  show "gives (in_vector inn) (\<lambda>vs. length vs < 2 ^ 32 \<and> list_all rng vs)"
    unfolding in_vector_def by (rule gives_bind [OF uint.in_rng], rule gives_mono [OF many_gives]) simp
qed

lemma pair_codec:
  assumes "codec out2 inn2 rng2"
  shows "codec (out_pair out out2) (in_pair inn inn2) (\<lambda>p. rng (fst p) \<and> rng2 (snd p))"
proof
  fix p assume p: "rng (fst p) \<and> rng2 (snd p)"
  have "takes (bind_d inn2 (\<lambda>b. ret_d (fst p, b))) (concat (out2 (snd p))) p"
    by (rule takes_bind_last [OF codec.in_out [OF assms]]) (use p takes_ret in auto)
  then show "takes (in_pair inn inn2) (concat (out_pair out out2 p)) p"
    unfolding in_pair_def out_pair_def concat_append using p by (intro takes_bind [OF in_out]) auto
next
  show "gives (in_pair inn inn2) (\<lambda>p. rng (fst p) \<and> rng2 (snd p))"
    unfolding in_pair_def
    by (rule gives_bind [OF in_rng], rule gives_bind [OF codec.in_rng [OF assms]], rule gives_ret) simp
qed

lemma map_codec:
  assumes "\<And>v. rng2 v \<Longrightarrow> rng (g v) \<and> f (g v) = v" "\<And>x. rng x \<Longrightarrow> rng2 (f x)"
  shows "codec (\<lambda>v. out (g v)) (map_d f inn) rng2"
proof
  fix v assume "rng2 v"
  then show "takes (map_d f inn) (concat (out (g v))) v" using takes_map [OF in_out, of "g v" f] assms(1) by simp
next
  show "gives (map_d f inn) rng2" by (rule gives_map [OF in_rng]) (rule assms(2))
qed

end

context codec begin

lemma array_codec: "codec (out_array out) (in_array n inn) (\<lambda>vs. length vs = n \<and> list_all rng vs)"
  by unfold_locales (use many_takes many_gives in \<open>auto simp: in_array_def out_array_def\<close>)

lemma carray_codec:
  assumes "n < 2 ^ 32"
  shows "codec (out_carray out) (in_carray n inn) (\<lambda>vs. length vs = n \<and> list_all rng vs)"
proof
  fix vs assume v: "length vs = n \<and> list_all rng vs"
  then have "takes (\<lambda>d. bind_r (contract_assert (n = n) ''T[] size and unpacked size don't match'') (\<lambda>_. in_many inn n d))
      (concat (concat (map out vs))) vs"
    using many_takes [of vs] by (simp add: contract_assert_def)
  moreover have "u32 (length vs) = n" using v assms by (simp add: u32_def)
  ultimately show "takes (in_carray n inn) (concat (out_carray out vs)) vs"
    unfolding in_carray_def out_carray_def concat_append using assms by (simp only:) (rule takes_bind [OF uint.in_out])
next
  show "gives (in_carray n inn) (\<lambda>vs. length vs = n \<and> list_all rng vs)"
    unfolding in_carray_def
  proof (rule gives_bind [OF uint.in_rng])
    fix s :: nat
    show "gives (\<lambda>d. bind_r (contract_assert (n = s) ''T[] size and unpacked size don't match'') (\<lambda>_. in_many inn n d))
        (\<lambda>vs. length vs = n \<and> list_all rng vs)"
    proof (cases "n = s")
      case True
      then show ?thesis using many_gives [of n] by (simp add: contract_assert_def)
    next
      case False
      then show ?thesis by (simp add: contract_assert_def gives_def)
    qed
  qed
qed

end

interpretation fixed: codec out_fixed "in_fixed n" "\<lambda>h. length h = n" for n
  by unfold_locales (use ds_read_takes ds_read_gives in \<open>auto simp: out_fixed_def in_fixed_def\<close>)

locale ord_codec = codec out inn rng for out :: "'a::linorder \<Rightarrow> packed list" and inn rng
begin

lemma set_codec: "codec (out_set out) (in_set inn) (\<lambda>s. finite s \<and> card s < 2 ^ 32 \<and> (\<forall>x\<in>s. rng x))"
  unfolding out_set_def [abs_def] in_set_def
proof (rule codec.map_codec [OF vector_codec], goal_cases)
  case (1 s)
  then show ?case by (simp add: list_all_iff)
next
  case (2 xs)
  then show ?case using card_length [of xs] by (auto simp: list_all_iff)
qed

lemma assoc_codec:
  assumes "codec out2 inn2 rng2"
  shows "codec (out_map out out2) (in_map inn inn2)
    (\<lambda>m. finite (dom m) \<and> card (dom m) < 2 ^ 32 \<and> (\<forall>k v. m k = Some v \<longrightarrow> rng k \<and> rng2 v))"
  unfolding out_map_def [abs_def] in_map_def
proof (rule codec.map_codec [OF codec.vector_codec [OF pair_codec [OF assms]]], goal_cases)
  case (1 m)
  then show ?case by (auto simp: list_all_iff dom_def map_of_map_keys)
next
  case (2 xs)
  have "card (dom (map_of xs)) \<le> length xs" by (metis card_image_le card_length dom_map_of_conv_image_fst finite_set le_trans)
  then show ?case using 2 by (auto simp: list_all_iff finite_dom_map_of dest!: map_of_SomeD)
qed

end

interpretation prim_ord: ord_codec "out_prim n" "in_prim n" "\<lambda>k. k < 256 ^ n" for n
  by unfold_locales

interpretation bool: codec out_bool in_bool "\<lambda>_. True"
  unfolding out_bool_def [abs_def] in_bool_def by (rule prim.map_codec) auto

interpretation bytes: codec out_bytes in_bytes "\<lambda>b. length b < 2 ^ 32"
proof
  fix b :: packed assume "length b < 2 ^ 32"
  then show "takes in_bytes (concat (out_bytes b)) b"
    using takes_bind [where f = ds_read, OF uint.in_out [of "length b"] ds_read_takes [of b]]
    by (simp add: in_bytes_def out_bytes_def u32_def)
next
  show "gives in_bytes (\<lambda>b. length b < 2 ^ 32)"
    unfolding in_bytes_def by (rule gives_bind [OF uint.in_rng], rule gives_mono [OF ds_read_gives]) simp
qed

lemma out_string_bytes: "concat (out_string b) = concat (out_bytes b)"
  by (auto simp: out_string_def out_bytes_def)

interpretation str: codec out_string in_bytes "\<lambda>b. length b < 2 ^ 32"
  by unfold_locales (use bytes.in_out bytes.in_rng out_string_bytes in auto)

interpretation word64: codec "\<lambda>w. out_prim 8 (unat (w :: 64 word))" "map_d of_nat (in_prim 8)" "\<lambda>_. True"
proof (rule prim.map_codec)
  show "unat v < 256 ^ 8 \<and> word_of_nat (unat v) = v" for v :: "64 word" using unsigned_less [of v] by simp
qed simp

section \<open>The transaction types\<close>

lemma unat_64 [simp]: "unat (w :: 64 word) < 18446744073709551616"
  using unsigned_less [of w] by simp

lemma takes_ret_eq: "x = v \<Longrightarrow> takes (ret_d x) [] v"
  by (simp add: takes_ret)

interpretation perm: codec out_permission_level in_permission_level "\<lambda>_. True"
proof -
  have "out_permission_level = (\<lambda>p. out_pair (out_prim 8) (out_prim 8) (unat (actor p), unat (permission p)))"
    by (simp add: fun_eq_iff out_permission_level_def out_pair_def)
  moreover have "permission_level (actor v) (permission v) = v" for v by (cases v) simp
  ultimately show "codec out_permission_level in_permission_level (\<lambda>_. True)"
    using codec.map_codec [OF prim.pair_codec [OF prim.codec_axioms],
        of "\<lambda>_. True" "\<lambda>p. (unat (actor p), unat (permission p))" 8 8 "\<lambda>(a, p). permission_level (of_nat a) (of_nat p)"]
    by (simp add: in_permission_level_def)
qed

interpretation perms: codec "out_vector out_permission_level" "in_vector in_permission_level"
  "\<lambda>vs. length vs < 2 ^ 32 \<and> list_all (\<lambda>_. True) vs"
  by (rule perm.vector_codec)

text \<open>The range of a type's members, as the C++ types have it.\<close>

definition action_in_range :: "contract_action \<Rightarrow> bool" where
  "action_in_range a \<longleftrightarrow> length (ca_authorization a) < 2 ^ 32 \<and> length (ca_data a) < 2 ^ 32"

definition header_in_range :: "'x trx_header_scheme \<Rightarrow> bool" where
  "header_in_range h \<longleftrightarrow> expiration h < 2 ^ 32 \<and> ref_block_num h < 2 ^ 16 \<and> ref_block_prefix h < 2 ^ 32
     \<and> net_usage_words h < 2 ^ 32 \<and> max_cpu_usage_ms h < 2 ^ 8 \<and> delay_sec h < 2 ^ 32"

definition trx_in_range :: "contract_trx \<Rightarrow> bool" where
  "trx_in_range t \<longleftrightarrow> header_in_range t
     \<and> length (context_free_actions t) < 2 ^ 32 \<and> list_all action_in_range (context_free_actions t)
     \<and> length (actions t) < 2 ^ 32 \<and> list_all action_in_range (actions t)
     \<and> length (transaction_extensions t) < 2 ^ 32
     \<and> list_all (\<lambda>e. fst e < 2 ^ 16 \<and> length (snd e) < 2 ^ 32) (transaction_extensions t)"

interpretation act: codec out_action in_action action_in_range
proof
  fix a assume "action_in_range a"
  then have r: "length (ca_authorization a) < 2 ^ 32" "length (ca_data a) < 2 ^ 32" by (simp_all add: action_in_range_def)
  have "list_all (\<lambda>_. True) (ca_authorization a)" by (simp add: list_all_iff)
  then show "takes in_action (concat (out_action a)) a"
    unfolding in_action_def out_action_def concat_append using r
    by (intro takes_bind [OF prim.in_out] takes_bind [OF perms.in_out] takes_bind_last [OF bytes.in_out])
      (auto intro!: takes_ret_eq contract_action.equality)
next
  show "gives in_action action_in_range"
    unfolding in_action_def
    by (rule gives_bind [OF prim.in_rng] gives_bind [OF perms.in_rng] gives_bind [OF bytes.in_rng])+
      (auto intro!: gives_ret simp: action_in_range_def)
qed

interpretation hdr: codec out_header in_header "header_in_range :: trx_header \<Rightarrow> bool"
proof
  fix h :: trx_header assume "header_in_range h"
  then have r: "expiration h < 256 ^ 4" "ref_block_num h < 256 ^ 2" "ref_block_prefix h < 256 ^ 4" "net_usage_words h < 2 ^ 32"
    "max_cpu_usage_ms h < 256 ^ 1" "delay_sec h < 2 ^ 32" by (simp_all add: header_in_range_def)
  show "takes in_header (concat (out_header h)) h"
    unfolding in_header_def out_header_def concat_append using r
    by (intro takes_bind [OF prim.in_out] takes_bind [OF uint.in_out] takes_bind_last [OF uint.in_out])
      (auto intro!: takes_ret_eq trx_header.equality)
next
  show "gives in_header header_in_range"
    unfolding in_header_def
    by (rule gives_bind [OF prim.in_rng] gives_bind [OF uint.in_rng])+ (auto intro!: gives_ret simp: header_in_range_def)
qed

interpretation acts: codec "out_vector out_action" "in_vector in_action" "\<lambda>vs. length vs < 2 ^ 32 \<and> list_all action_in_range vs"
  by (rule act.vector_codec)

interpretation ext: codec out_extension in_extension "\<lambda>e. fst e < 256 ^ 2 \<and> length (snd e) < 2 ^ 32"
  unfolding out_extension_def in_extension_def by (rule prim.pair_codec [OF bytes.codec_axioms])

interpretation exts: codec "out_vector out_extension" "in_vector in_extension"
  "\<lambda>vs. length vs < 2 ^ 32 \<and> list_all (\<lambda>e. fst e < 256 ^ 2 \<and> length (snd e) < 2 ^ 32) vs"
  by (rule ext.vector_codec)

interpretation trx: codec out_trx in_trx trx_in_range
proof
  fix t assume r: "trx_in_range t"
  have h: "out_header (trx_header.truncate t) = out_header t" "header_in_range (trx_header.truncate t)"
    using r by (simp_all add: out_header_def trx_in_range_def header_in_range_def trx_header.defs)
  show "takes in_trx (concat (out_trx t)) t"
    unfolding in_trx_def out_trx_def concat_append h(1) [symmetric]
    using r h(2) by (intro takes_bind [OF hdr.in_out] takes_bind [OF acts.in_out] takes_bind_last [OF exts.in_out])
      (auto intro!: takes_ret_eq contract_trx.equality simp: trx_in_range_def trx_header.defs)
next
  show "gives in_trx trx_in_range"
    unfolding in_trx_def
    by (rule gives_bind [OF hdr.in_rng] gives_bind [OF acts.in_rng] gives_bind [OF exts.in_rng])+
      (auto intro!: gives_ret simp: trx_in_range_def header_in_range_def trx_header.defs)
qed

text \<open>Writing into the buffer that the size stream measured.\<close>

lemma pack_size_exact: "length (concat cs) < 2 ^ 32 \<Longrightarrow> pack_size cs = length (concat cs)"
proof -
  have "n + length (concat cs) < 2 ^ 32 \<Longrightarrow> fold size_write cs n = n + length (concat cs)" for n
    by (induction cs arbitrary: n) (auto simp: size_write_def u32_def)
  then show "length (concat cs) < 2 ^ 32 \<Longrightarrow> pack_size cs = length (concat cs)" by (simp add: pack_size_def)
qed

lemma write_chunks:
  "length a + length (concat cs) + length c < 2 ^ 31 \<Longrightarrow>
   fold_r ds_write cs \<lparr>ds_buf = a @ replicate (length (concat cs)) 0 @ c, ds_pos = length a\<rparr>
   = Inr \<lparr>ds_buf = a @ concat cs @ c, ds_pos = length a + length (concat cs)\<rparr>"
proof (induction cs arbitrary: a)
  case (Cons b cs)
  have "ds_write b \<lparr>ds_buf = a @ replicate (length (concat (b # cs))) 0 @ c, ds_pos = length a\<rparr>
      = Inr \<lparr>ds_buf = (a @ b) @ replicate (length (concat cs)) 0 @ c, ds_pos = length (a @ b)\<rparr>"
    using Cons.prems by (simp add: ds_write_def contract_assert_def to_int32_def u32_def Let_def ds_skip_def replicate_add)
  then show ?case using Cons.IH [of "a @ b"] Cons.prems by simp
qed simp

lemma pack_exact: "length (concat cs) < 2 ^ 31 \<Longrightarrow> pack cs = Inr (concat cs)"
  using write_chunks [of "[]" cs "[]"] by (simp add: pack_def pack_size_exact ds_over_def)

section \<open>Signed variable-length integers\<close>

text \<open>Zig-zag coding itself: the sign is the lowest bit, and a set sign complements the other bits.\<close>

definition zigzag_value :: "32 word \<Rightarrow> 32 word" where
  "zigzag_value n = (if odd n then NOT (drop_bit 1 n) else drop_bit 1 n)"

lemma sint_least_iff: "sint x = - (2 ^ 31) \<longleftrightarrow> x = 2 ^ 31" for x :: "32 word"
proof -
  have "sint (2 ^ 31 :: 32 word) = - (2 ^ 31)" by simp
  then show ?thesis by (metis signed_word_eqI)
qed

lemma low_bit: "v AND 1 = (if odd v then 1 else 0)" for v :: "32 word"
  by (simp add: and_one_eq mod2_eq_if)

lemma high_bit: "drop_bit 31 v = (if bit v 31 then 1 else 0)" for v :: "32 word"
proof (rule bit_word_eqI)
  fix i :: nat
  have "bit v (31 + i) \<longleftrightarrow> i = 0 \<and> bit v 31" by (cases i) (auto dest: bit_imp_le_length)
  then show "bit (drop_bit 31 v) i = bit (if bit v 31 then 1 else 0 :: 32 word) i"
    by (simp add: bit_drop_bit_eq bit_1_iff)
qed

lemma half_of: "n = 2 * drop_bit 1 n + (if odd n then 1 else 0)" for n :: "32 word"
  using div_mult_mod_eq [of n 2] by (cases "odd n") (simp_all add: drop_bit_eq_div mod2_eq_if mult.commute)

lemma flipped_high: "\<not> bit (drop_bit 1 n XOR (if bit n 31 then 1 else 0)) 31" for n :: "32 word"
  by (auto simp: bit_xor_iff bit_drop_bit_eq bit_1_iff dest: bit_imp_le_length)

lemma not_least: "\<not> bit x 31 \<Longrightarrow> x \<noteq> 2 ^ 31 \<and> - x \<noteq> 2 ^ 31" for x :: "32 word"
proof -
  assume x: "\<not> bit x 31"
  have b: "bit (2 ^ 31 :: 32 word) 31" by (simp add: bit_exp_iff)
  have m: "- (2 ^ 31) = (2 ^ 31 :: 32 word)" by simp
  have "x = 2 ^ 31" if "- x = 2 ^ 31" using m that by (metis minus_equation_iff)
  then show ?thesis using x b by auto
qed

lemma least_after_flip:
  fixes n :: "32 word"
  assumes "odd n" shows "(drop_bit 1 n XOR (if bit n 31 then 1 else 0)) + 1 = 2 ^ 31 \<longleftrightarrow> n = 0xFFFFFFFD"
proof
  let ?h = "drop_bit 1 n"
  assume "(?h XOR (if bit n 31 then 1 else 0)) + 1 = 2 ^ 31"
  then have e: "?h XOR (if bit n 31 then 1 else 0) = 2 ^ 31 - 1" by (simp add: eq_diff_eq)
  have "?h = (?h XOR (if bit n 31 then 1 else 0)) XOR (if bit n 31 then 1 else 0)" by (simp add: xor.assoc)
  then have "?h = (2 ^ 31 - 1) XOR (if bit n 31 then 1 else 0)" unfolding e .
  then have n: "n = 2 * ((2 ^ 31 - 1) XOR (if bit n 31 then 1 else 0)) + 1" using half_of [of n] assms by simp
  show "n = 0xFFFFFFFD"
  proof (cases "bit n 31")
    case False
    then have "n = 0xFFFFFFFF" using n by simp
    then show ?thesis using False by simp
  qed (use n in simp)
qed simp
text \<open>Decoding looks for the sign at the wrong end: it flips the lowest bit when the highest is set.\<close>

lemma unzigzag_exact:
  "unzigzag n = (if n = 0xFFFFFFFD then Inl undefined_behaviour
     else Inr (zigzag_value n XOR (if bit n 31 then 1 else 0)))"
proof -
  define y where "y = drop_bit 1 n XOR (if bit n 31 then 1 else 0)"
  have u: "unzigzag n = (if odd n then neg32 (y + 1) else bind_r (neg32 y) neg32)"
    unfolding unzigzag_def low_bit high_bit y_def by (simp add: Let_def)
  show ?thesis
  proof (cases "odd n")
    case True
    have "zigzag_value n XOR (if bit n 31 then 1 else 0) = NOT y"
      using True unfolding zigzag_value_def y_def by (simp add: bit.xor_compl_left)
    moreover have "NOT y = - (y + 1)" by (simp add: not_eq_complement)
    ultimately show ?thesis using u True least_after_flip [OF True]
      unfolding neg32_def sint_least_iff y_def [symmetric] by simp
  next
    case False
    have "y \<noteq> 2 ^ 31" "- y \<noteq> 2 ^ 31" using not_least [OF flipped_high [of n]] by (simp_all only: y_def not_False_eq_True)
    moreover have "n \<noteq> 0xFFFFFFFD" using False by auto
    moreover have "zigzag_value n XOR (if bit n 31 then 1 else 0) = y" using False by (simp add: zigzag_value_def y_def)
    ultimately show ?thesis using u False unfolding neg32_def sint_least_iff by simp
  qed
qed

lemma nonneg_bits: "0 \<le> sint v \<longleftrightarrow> \<not> bit v 31" for v :: "32 word"
  by (simp add: not_less [symmetric] bit_last_iff [symmetric])

lemma zigzag_exact:
  "zigzag v = (if sint v < 0 then Inl undefined_behaviour else Inr (2 * v))"
proof -
  have "signed_drop_bit 31 v = 0" if "0 \<le> sint v"
  proof -
    have "\<not> bit v 31" using that nonneg_bits by blast
    moreover have "bit (signed_drop_bit 31 v) i \<longleftrightarrow> i < 32 \<and> bit v 31" for i
      unfolding bit_signed_drop_bit_iff by (cases i) (auto dest: bit_imp_le_length)
    ultimately show ?thesis by (intro bit_word_eqI) simp
  qed
  then show ?thesis by (simp add: zigzag_def push_bit_eq_mult)
qed

lemma double_code:
  fixes v :: "32 word"
  assumes "0 \<le> sint v"
  shows "zigzag_value (2 * v) = v" "bit (2 * v) 31 \<longleftrightarrow> 2 ^ 30 \<le> sint v" "2 * v \<noteq> 0xFFFFFFFD"
proof -
  have v: "\<not> bit v 31" using assms nonneg_bits by blast
  have "drop_bit 1 (push_bit 1 v) = v"
  proof (rule bit_word_eqI)
    fix i :: nat assume "i < LENGTH(32)"
    then show "bit (drop_bit 1 (push_bit 1 v)) i = bit v i"
      using v unfolding bit_drop_bit_eq comp_def bit_push_bit_iff by (cases "i = 31") auto
  qed
  then have d: "drop_bit 1 (2 * v) = v" by (simp add: push_bit_eq_mult mult.commute)
  show "zigzag_value (2 * v) = v" unfolding zigzag_value_def d by simp
  have "even (2 * v)" by simp
  then show "2 * v \<noteq> 0xFFFFFFFD" by (metis odd_numeral)
  have "take_bit 32 (sint v) = sint v" using assms sint_lt [of v] by (simp add: take_bit_int_eq_self_iff)
  then have s: "sint v = uint v" by (simp add: uint_sint)
  have l: "uint v < 2 ^ 31" using sint_lt [of v] s by simp
  have "bit (2 * v) 31 \<longleftrightarrow> bit (push_bit 1 v) 31" by (simp add: push_bit_eq_mult mult.commute)
  also have "\<dots> \<longleftrightarrow> bit v 30" unfolding bit_push_bit_iff by simp
  also have "\<dots> \<longleftrightarrow> odd (uint v div 2 ^ 30)" using bit_iff_odd [of "uint v" 30] by (simp add: bit_uint_iff)
  also have "\<dots> \<longleftrightarrow> 2 ^ 30 \<le> uint v"
  proof (cases "2 ^ 30 \<le> uint v")
    case True then have "uint v div 2 ^ 30 = 1" using l by simp
    then show ?thesis using True by simp
  next
    case False then have "uint v div 2 ^ 30 = 0" by simp
    then show ?thesis using False by simp
  qed
  finally show "bit (2 * v) 31 \<longleftrightarrow> 2 ^ 30 \<le> sint v" unfolding s .
qed

lemma varint_length: "k < 128 ^ n \<Longrightarrow> 0 < n \<Longrightarrow> length (concat (out_uint k)) \<le> n"
proof (induction n arbitrary: k)
  case (Suc n)
  show ?case
  proof (cases "k div 128 > 0")
    case True
    have "k div 128 < 128 ^ n" using Suc.prems(1) by (simp add: less_mult_imp_div_less mult.commute)
    moreover have "n > 0" using True Suc.prems(1) by (cases n) auto
    ultimately show ?thesis using Suc.IH [of "k div 128"] by (subst out_uint.simps) (simp add: Let_def)
  qed (subst out_uint.simps, simp add: Let_def)
qed simp

lemma signed_packed:
  assumes "0 \<le> sint v"
  shows "out_sint v = Inr (out_uint (unat (2 * v)))"
    and "length (concat (out_uint (unat (2 * v)))) \<le> 5"
    and "unpack in_sint (concat (out_uint (unat (2 * v)))) = Inr (if sint v < 2 ^ 30 then v else v XOR 1)"
proof -
  let ?b = "concat (out_uint (unat (2 * v)))"
  have lt: "unat (2 * v) < 2 ^ 32" using unsigned_less [of "2 * v"] by simp
  show "out_sint v = Inr (out_uint (unat (2 * v)))" using assms by (simp add: out_sint_def zigzag_exact)
  show l: "length ?b \<le> 5" using lt by (intro varint_length) auto
  have "ahead ?b (ds_over ?b)" using l by (simp add: ahead_def ds_ok_def ds_over_def)
  moreover have "takes (in_varint 0 0) ?b (unat (2 * v))" using uint.in_out [of "unat (2 * v)"] lt by (simp add: in_uint_def)
  ultimately have "in_varint 0 0 (ds_over ?b) = Inr (unat (2 * v), ds_skip (length ?b) (ds_over ?b))"
    unfolding takes_def by blast
  moreover have "unzigzag (2 * v) = Inr (if sint v < 2 ^ 30 then v else v XOR 1)"
    using double_code [OF assms] by (simp add: unzigzag_exact)
  ultimately show "unpack in_sint ?b = Inr (if sint v < 2 ^ 30 then v else v XOR 1)"
    by (simp add: unpack_def in_sint_def bind_d_def)
qed

section \<open>Properties\<close>

text \<open>C15. Packing a transaction and unpacking the bytes gives the transaction back.  The transaction's numbers fit
  their C++ types, its vectors can be counted in 32 bits and it takes less than half of the address space.  Then
  \<open>pack\<close>, which measures with the counting stream and then writes into a buffer of that size, succeeds and writes
  exactly what the members' serializers write one after the other, and \<open>unpack\<close> of that buffer succeeds and
  returns the transaction, with its header, actions, authorizations, payloads and extensions.\<close>

theorem transaction_pack_roundtrip:
  assumes "trx_in_range t" "length (concat (out_trx t)) < 2 ^ 31"
  shows "\<exists>b. pack (out_trx t) = Inr b \<and> b = concat (out_trx t) \<and> unpack in_trx b = Inr t"
  using pack_exact [OF assms(2)] trx.unpack_pack_exact [OF assms] by simp

definition sample_trx :: contract_trx where
  "sample_trx = \<lparr>expiration = 1500000000, ref_block_num = 513, ref_block_prefix = 70000, net_usage_words = 300,
     max_cpu_usage_ms = 7, delay_sec = 0, context_free_actions = [],
     actions = [\<lparr>ca_account = 6138663577826885632, ca_name = 14829575313431724032,
       ca_authorization = [permission_level 9 10], ca_data = [1, 2, 3]\<rparr>],
     transaction_extensions = [(258, [255])]\<rparr>"

definition sample_bytes :: packed where
  "sample_bytes = [0, 47, 104, 89, 1, 2, 112, 17, 1, 0, 172, 2, 7, 0, 0, 1, 0, 0, 0, 0, 0, 234, 48, 85, 0, 0, 0, 87, 45, 60, 205, 205, 1,
     9, 0, 0, 0, 0, 0, 0, 0, 10, 0, 0, 0, 0, 0, 0, 0, 3, 1, 2, 3, 1, 2, 1, 1, 255]"

lemma le_bytes_numeral [simp]:
  "le_bytes (numeral n) k = of_nat (k mod 256) # le_bytes (pred_numeral n) (k div 256)"
  "le_bytes 1 k = [of_nat (k mod 256)]"
  by (simp_all only: numeral_eq_Suc [of n] One_nat_def le_bytes.simps)

lemmas out_eval = out_trx_def out_header_def out_vector_def out_action_def out_permission_level_def out_pair_def out_bytes_def
  out_extension_def out_prim_def out_uint.simps u32_def

lemma sample_packed: "concat (out_trx sample_trx) = sample_bytes"
  by (simp add: sample_trx_def sample_bytes_def out_eval)

theorem transaction_pack_roundtrip_witness:
  "trx_in_range sample_trx \<and> pack (out_trx sample_trx) = Inr sample_bytes \<and> unpack in_trx sample_bytes = Inr sample_trx"
proof -
  have r: "trx_in_range sample_trx" by (simp add: sample_trx_def trx_in_range_def header_in_range_def action_in_range_def)
  have "length (concat (out_trx sample_trx)) < 2 ^ 31" unfolding sample_packed by (simp add: sample_bytes_def)
  from transaction_pack_roundtrip [OF r this] r show ?thesis unfolding sample_packed by simp
qed

text \<open>C18. Whatever bytes, fewer than \<open>2^31\<close>, are unpacked as a transaction, hostile ones too: when a transaction is
  returned, nothing was read outside of the buffer and the buffer is as it was, each number of the transaction is within
  its C++ type, its vectors have a number of elements that 32 bits count, and if packing it again takes fewer than
  \<open>2^31\<close> bytes, unpacking those gives the same transaction.\<close>

theorem unpacked_transaction_typed:
  assumes "length b < 2 ^ 31" "in_trx (ds_over b) = Inr (t, d)"
  shows "trx_in_range t \<and> ds_buf d = b \<and> ds_pos d \<le> length b
     \<and> (length (concat (out_trx t)) < 2 ^ 31 \<longrightarrow> unpack in_trx (concat (out_trx t)) = Inr t)"
proof -
  have "ds_ok (ds_over b)" using assms(1) by (simp add: ds_ok_def ds_over_def)
  then have "trx_in_range t" "ds_ok d" "ds_buf d = ds_buf (ds_over b)" using trx.in_rng assms(2) unfolding gives_def by blast+
  then show ?thesis using trx.unpack_pack_exact by (simp add: ds_ok_def ds_over_def)
qed

text \<open>C35. Signed variable-length integers.  Packing a negative number shifts it left, which C++ leaves undefined.  Any
  other number packs into at most five bytes, and these unpack to the number when it is below \<open>2^30\<close>; from there on to
  the number with its lowest bit flipped.  The reader's decoding of any word read is the zig-zag value, with its lowest
  bit flipped when the word's highest bit is set, except for \<open>0xFFFFFFFD\<close>, for which it negates the least number: undefined.\<close>

theorem signed_int_roundtrip_iff:
  "(case out_sint v of
      Inl e \<Rightarrow> sint v < 0 \<and> e = undefined_behaviour
    | Inr cs \<Rightarrow> 0 \<le> sint v \<and> length (concat cs) \<le> 5
        \<and> unpack in_sint (concat cs) = Inr (if sint v < 2 ^ 30 then v else v XOR 1))
   \<and> unzigzag n = (if n = 0xFFFFFFFD then Inl undefined_behaviour else Inr (zigzag_value n XOR (if bit n 31 then 1 else 0)))"
proof (cases "sint v < 0")
  case True
  then show ?thesis using unzigzag_exact by (simp add: out_sint_def zigzag_exact)
next
  case False
  then show ?thesis using signed_packed [of v] unzigzag_exact by simp
qed

text \<open>A number written with more bytes than it needs, and bytes after the transaction, are accepted.\<close>

lemma in_many_numeral [simp]: "in_many inn (numeral n) = bind_d inn (\<lambda>x. map_d ((#) x) (in_many inn (pred_numeral n)))"
  by (simp add: numeral_eq_Suc)

lemmas in_eval = in_trx_def in_header_def in_vector_def in_uint_def in_prim_def bind_d_def map_d_def ret_d_def ds_read_def ds_get_def
  ds_over_def ds_remaining_def ds_skip_def contract_assert_def trx_header.defs u32_def

definition padded_bytes :: packed where
  "padded_bytes = [1, 0, 0, 0, 2, 0, 3, 0, 0, 0, 133, 128, 0, 6, 7, 0, 0, 0, 9]"

definition padded_trx :: contract_trx where
  "padded_trx = \<lparr>expiration = 1, ref_block_num = 2, ref_block_prefix = 3, net_usage_words = 5, max_cpu_usage_ms = 6, delay_sec = 7,
     context_free_actions = [], actions = [], transaction_extensions = []\<rparr>"

lemma padded_unpacked: "in_trx (ds_over padded_bytes) = Inr (padded_trx, \<lparr>ds_buf = padded_bytes, ds_pos = 18\<rparr>)"
  by (simp add: padded_bytes_def padded_trx_def in_eval in_varint.simps)

lemma padded_repacked: "concat (out_trx padded_trx) = [1, 0, 0, 0, 2, 0, 3, 0, 0, 0, 5, 6, 7, 0, 0, 0]"
  by (simp add: padded_trx_def out_eval)

theorem unpacked_transaction_typed_witness:
  "in_trx (ds_over padded_bytes) = Inr (padded_trx, \<lparr>ds_buf = padded_bytes, ds_pos = 18\<rparr>) \<and> trx_in_range padded_trx
   \<and> unpack in_trx [1, 0, 0, 0, 2, 0, 3, 0, 0, 0, 5, 6, 7, 0, 0, 0] = Inr padded_trx"
proof -
  have "length padded_bytes < 2 ^ 31" by (simp add: padded_bytes_def)
  from unpacked_transaction_typed [OF this padded_unpacked] show ?thesis
    unfolding padded_repacked using padded_unpacked by simp
qed

section \<open>Where the guards let through what they should stop\<close>

text \<open>After a skip beyond the end the remaining size is huge, and the guard of \<open>read\<close> accepts.\<close>

lemma read_after_skip_unguarded: "ds_read 1 (ds_skip 2 (ds_over [7])) = Inl undefined_behaviour"
  by (simp add: in_eval)

text \<open>Six continuation bytes shift a 32-bit value by more than its width.\<close>

lemma overlong_varint_undefined: "unpack in_uint [128, 128, 128, 128, 128, 0] = Inl undefined_behaviour"
  by (simp add: in_eval in_varint.simps unpack_def)

text \<open>The boundary of the signed numbers that survive.\<close>

lemma signed_int_boundary:
  "unpack in_sint (concat (out_uint (unat (2 * (2 ^ 30 - 1) :: 32 word)))) = Inr (2 ^ 30 - 1)"
  "unpack in_sint (concat (out_uint (unat (2 * 2 ^ 30 :: 32 word)))) = Inr (2 ^ 30 + 1)"
  using signed_packed(3) [of "2 ^ 30 - 1"] signed_packed(3) [of "2 ^ 30"] by simp_all

end
