(* ===== verification/NodeUnpack.thy ===== *)
theory NodeUnpack
  imports Packing Authorization
begin

text \<open>
  How the node reads what contracts wrote (\<^verbatim>\<open>libraries/fc/include/fc/io/datastream.hpp\<close>, \<open>raw.hpp\<close>,
  \<open>container/flat.hpp\<close>, \<^verbatim>\<open>libraries/chain/include/eosio/chain/transaction.hpp\<close>, \<open>action.hpp\<close>) and the check
  that a contract can ask for (\<open>check_transaction_authorization\<close> in
  \<^verbatim>\<open>libraries/chain/wasm_interface.cpp\<close>).

  The format is that of the contract library; the code is another one, with 64-bit sizes, limits on the
  number of elements, and a bound on the length of a variable-length integer.
\<close>

section \<open>Streams\<close>

definition fc_remaining :: "datastream \<Rightarrow> nat" where
  "fc_remaining d = nat ((int (length (ds_buf d)) - int (ds_pos d)) mod 2 ^ 64)"

definition fc_read :: "nat \<Rightarrow> packed reader" where
  "fc_read s d =
     (if fc_remaining d \<ge> s
      then if ds_pos d + s \<le> length (ds_buf d)
        then Inr (take s (drop (ds_pos d) (ds_buf d)), ds_skip s d)
        else Inl undefined_behaviour
      else Inl out_of_range)"

definition fc_get :: "8 word reader" where
  "fc_get d = (if ds_pos d < length (ds_buf d) then Inr (ds_buf d ! ds_pos d, ds_skip 1 d) else Inl out_of_range)"

section \<open>Values\<close>

definition fc_prim :: "nat \<Rightarrow> nat reader" where
  "fc_prim n = map_d le_value (fc_read n)"

text \<open>The loop ends after the fifth byte, whatever its top bit says.\<close>

function fc_varint :: "nat \<Rightarrow> nat \<Rightarrow> nat reader" where
  "fc_varint v by1 d =
     (case fc_get d of
        Inl e \<Rightarrow> Inl e
      | Inr (b, d) \<Rightarrow>
          let v = v OR u32 (push_bit by1 (unat b mod 128)) in
          if unat b \<ge> 128 \<and> by1 + 7 < 32 then fc_varint v (by1 + 7) d else Inr (u32 v, d))"
  by pat_completeness auto
termination by (relation "measure (\<lambda>(v, by1, d). 32 - by1)") auto

declare fc_varint.simps [simp del]

definition fc_uint :: "nat reader" where
  "fc_uint = fc_varint 0 0"

definition fc_assert :: "bool \<Rightarrow> unit reader" where
  "fc_assert c d = (if c then Inr ((), d) else Inl assert_exception)"

definition max_num_array_elements :: nat where "max_num_array_elements = 1024 * 1024"
definition max_size_of_byte_arrays :: nat where "max_size_of_byte_arrays = 20 * 1024 * 1024"

definition fc_bytes :: "packed reader" where
  "fc_bytes = bind_d fc_uint (\<lambda>s. bind_d (fc_assert (s \<le> max_size_of_byte_arrays)) (\<lambda>_. if s \<noteq> 0 then fc_read s else ret_d []))"

definition fc_vector :: "'a reader \<Rightarrow> 'a list reader" where
  "fc_vector inn = bind_d fc_uint (\<lambda>s. bind_d (fc_assert (s \<le> max_num_array_elements)) (\<lambda>_. in_many inn s))"

text \<open>A flat set is the sorted list of its elements.\<close>

definition fc_flat_set :: "'a::linorder reader \<Rightarrow> 'a list reader" where
  "fc_flat_set inn = bind_d fc_uint (\<lambda>s. bind_d (fc_assert (s \<le> max_num_array_elements)) (\<lambda>_.
     map_d (\<lambda>vs. sorted_list_of_set (set vs)) (in_many inn s)))"

definition fc_pair :: "'a reader \<Rightarrow> 'b reader \<Rightarrow> ('a \<times> 'b) reader" where
  "fc_pair in1 in2 = bind_d in1 (\<lambda>a. bind_d in2 (\<lambda>b. ret_d (a, b)))"

section \<open>Transactions\<close>

record node_header =
  tx_expiration :: nat
  tx_ref_block_num :: nat
  tx_ref_block_prefix :: nat
  max_net_usage_words :: nat
  tx_max_cpu_usage_ms :: nat
  tx_delay_sec :: nat

record node_trx = node_header +
  tx_context_free_actions :: "packed action list"
  tx_actions :: "packed action list"
  tx_extensions :: "(nat \<times> packed) list"

definition fc_permission_level :: "permission_level reader" where
  "fc_permission_level = bind_d (fc_prim 8) (\<lambda>a. bind_d (fc_prim 8) (\<lambda>p. ret_d (permission_level (of_nat a) (of_nat p))))"

definition fc_action :: "packed action reader" where
  "fc_action =
     bind_d (fc_prim 8) (\<lambda>a. bind_d (fc_prim 8) (\<lambda>n. bind_d (fc_vector fc_permission_level) (\<lambda>au. bind_d fc_bytes (\<lambda>d.
     ret_d \<lparr>act_account = of_nat a, act_name = of_nat n, authorization = au, data = d\<rparr>))))"

definition fc_header :: "node_header reader" where
  "fc_header =
     bind_d (fc_prim 4) (\<lambda>e. bind_d (fc_prim 2) (\<lambda>n. bind_d (fc_prim 4) (\<lambda>p. bind_d fc_uint (\<lambda>w. bind_d (fc_prim 1) (\<lambda>c. bind_d fc_uint (\<lambda>s.
     ret_d \<lparr>tx_expiration = e, tx_ref_block_num = n, tx_ref_block_prefix = p, max_net_usage_words = w, tx_max_cpu_usage_ms = c, tx_delay_sec = s\<rparr>))))))"

definition fc_trx :: "node_trx reader" where
  "fc_trx =
     bind_d fc_header (\<lambda>h. bind_d (fc_vector fc_action) (\<lambda>cfa. bind_d (fc_vector fc_action) (\<lambda>acts.
     bind_d (fc_vector (fc_pair (fc_prim 2) fc_bytes)) (\<lambda>exts.
     ret_d (node_header.extend h \<lparr>tx_context_free_actions = cfa, tx_actions = acts, tx_extensions = exts\<rparr>)))))"

section \<open>What the node packs\<close>

definition fc_out_bytes :: "packed \<Rightarrow> packed list result" where
  "fc_out_bytes v =
     bind_r (eos_assert (length v \<le> max_size_of_byte_arrays) assert_exception) (\<lambda>_.
     Inr (out_uint (u32 (length v)) @ (if length v \<noteq> 0 then [v] else [])))"

definition fc_out_vector :: "('a \<Rightarrow> packed list result) \<Rightarrow> 'a list \<Rightarrow> packed list result" where
  "fc_out_vector out v =
     bind_r (eos_assert (length v \<le> max_num_array_elements) assert_exception) (\<lambda>_.
     fold_r (\<lambda>x cs. bind_r (out x) (\<lambda>c. Inr (cs @ c))) v (out_uint (u32 (length v))))"

definition fc_out_permission_level :: "permission_level \<Rightarrow> packed list result" where
  "fc_out_permission_level p = Inr (out_prim 8 (unat (actor p)) @ out_prim 8 (unat (permission p)))"

definition fc_out_action :: "packed action \<Rightarrow> packed list result" where
  "fc_out_action a =
     bind_r (fc_out_vector fc_out_permission_level (authorization a)) (\<lambda>au.
     bind_r (fc_out_bytes (data a)) (\<lambda>d.
     Inr (out_prim 8 (unat (act_account a)) @ out_prim 8 (unat (act_name a)) @ au @ d)))"

definition fc_out_header :: "'x node_header_scheme \<Rightarrow> packed list" where
  "fc_out_header h = out_prim 4 (tx_expiration h) @ out_prim 2 (tx_ref_block_num h) @ out_prim 4 (tx_ref_block_prefix h)
     @ out_uint (max_net_usage_words h) @ out_prim 1 (tx_max_cpu_usage_ms h) @ out_uint (tx_delay_sec h)"

definition fc_out_extension :: "nat \<times> packed \<Rightarrow> packed list result" where
  "fc_out_extension e = bind_r (fc_out_bytes (snd e)) (\<lambda>d. Inr (out_prim 2 (fst e) @ d))"

definition fc_out_trx :: "node_trx \<Rightarrow> packed list result" where
  "fc_out_trx t =
     bind_r (fc_out_vector fc_out_action (tx_context_free_actions t)) (\<lambda>cfa.
     bind_r (fc_out_vector fc_out_action (tx_actions t)) (\<lambda>acts.
     bind_r (fc_out_vector fc_out_extension (tx_extensions t)) (\<lambda>exts.
     Inr (fc_out_header t @ cfa @ acts @ exts))))"

section \<open>The check a contract can ask for\<close>

text \<open>The classes derived from \<open>authorization_exception\<close>.\<close>

definition is_authorization_exception :: "chain_error \<Rightarrow> bool" where
  "is_authorization_exception e \<longleftrightarrow> e \<in> {authorization_exception, tx_irrelevant_sig, unsatisfied_authorization, missing_auth_exception,
     irrelevant_auth_exception, invalid_permission, unlinkable_min_permission_action}"

text \<open>The format of public keys is a parameter.\<close>

definition unpack_provided_keys :: "'k::linorder reader \<Rightarrow> packed \<Rightarrow> 'k list result" where
  "unpack_provided_keys fc_key pubkeys_data = (if pubkeys_data = [] then Inr [] else unpack (fc_flat_set fc_key) pubkeys_data)"

definition unpack_provided_permissions :: "packed \<Rightarrow> permission_level list result" where
  "unpack_provided_permissions perms_data = (if perms_data = [] then Inr [] else unpack (fc_flat_set fc_permission_level) perms_data)"

definition check_transaction_authorization ::
    "'k::linorder reader \<Rightarrow> ('k, packed) native_data \<Rightarrow> 'k auth_db \<Rightarrow> packed \<Rightarrow> packed \<Rightarrow> packed \<Rightarrow> bool result" where
  "check_transaction_authorization fc_key nd db trx_data pubkeys_data perms_data =
     bind_r (unpack fc_trx trx_data) (\<lambda>trx.
     bind_r (unpack_provided_keys fc_key pubkeys_data) (\<lambda>ks.
     bind_r (unpack_provided_permissions perms_data) (\<lambda>perms.
     case check_authorization nd (tx_actions trx) ks perms (int (tx_delay_sec trx) * 1000000) False db of
       Inr _ \<Rightarrow> Inr True
     | Inl e \<Rightarrow> if is_authorization_exception e then Inr False else Inl e)))"

section \<open>The node reads the contract's format\<close>

lemma fc_remaining_ok: "ds_ok d \<Longrightarrow> fc_remaining d = length (ds_buf d) - ds_pos d"
proof -
  assume ok: "ds_ok d"
  then have "int (length (ds_buf d)) - int (ds_pos d) = int (length (ds_buf d) - ds_pos d)" by (simp add: ds_ok_def)
  then show ?thesis using ok unfolding fc_remaining_def ds_ok_def by (simp only: nat_mod_as_int nat_int) simp
qed

lemma ds_remaining_ok: "ds_ok d \<Longrightarrow> ds_remaining d = length (ds_buf d) - ds_pos d"
proof -
  assume ok: "ds_ok d"
  then have "int (length (ds_buf d)) - int (ds_pos d) = int (length (ds_buf d) - ds_pos d)" by (simp add: ds_ok_def)
  then show ?thesis using ok unfolding ds_remaining_def ds_ok_def by (simp only: nat_mod_as_int nat_int) simp
qed

text \<open>One reader accepts what another accepted, with the same value and as many bytes.\<close>

definition follows :: "'a reader \<Rightarrow> 'a reader \<Rightarrow> bool" where
  "follows m1 m2 \<longleftrightarrow> (\<forall>d x d'. ds_ok d \<longrightarrow> m1 d = Inr (x, d') \<longrightarrow> m2 d = Inr (x, d'))"

lemma follows_read: "follows (ds_read n) (fc_read n)"
  by (auto simp: follows_def ds_read_def fc_read_def fc_remaining_ok ds_remaining_ok contract_assert_def result_simps split: if_splits)

lemma follows_get: "follows ds_get fc_get"
  by (auto simp: follows_def ds_get_def fc_get_def contract_assert_def result_simps split: if_splits)

lemma follows_bind:
  assumes "follows m1 m2" "gives m1 P" "\<And>x. P x \<Longrightarrow> follows (f x) (g x)"
  shows "follows (bind_d m1 f) (bind_d m2 g)"
  unfolding follows_def
proof (intro allI impI)
  fix d y d' assume ok: "ds_ok d" and run: "bind_d m1 f d = Inr (y, d')"
  obtain x d1 where x: "m1 d = Inr (x, d1)" "f x d1 = Inr (y, d')" using run by (auto simp: bind_d_def result_simps)
  have "P x" "ds_ok d1" using assms(2) ok x(1) unfolding gives_def by blast+
  then have "m2 d = Inr (x, d1)" "g x d1 = Inr (y, d')"
    using assms(1) assms(3) [OF \<open>P x\<close>] ok x unfolding follows_def by blast+
  then show "bind_d m2 g d = Inr (y, d')" by (simp add: bind_d_def)
qed

lemma follows_map: "follows m1 m2 \<Longrightarrow> follows (map_d f m1) (map_d f m2)"
  by (auto simp: follows_def map_d_def bind_d_def ret_d_def bind_r_def split: sum.splits)

lemma follows_refl: "follows m m"
  by (simp add: follows_def)

lemma follows_takes: "follows m1 m2 \<Longrightarrow> takes m1 bs v \<Longrightarrow> takes m2 bs v"
  by (auto simp: follows_def takes_def ahead_def)

lemma follows_prim: "follows (in_prim n) (fc_prim n)"
  unfolding in_prim_def fc_prim_def by (rule follows_map [OF follows_read])

lemma follows_varint: "follows (in_varint v s) (fc_varint v s)"
  unfolding follows_def
proof (intro allI impI)
  fix d x d' assume "ds_ok d" "in_varint v s d = Inr (x, d')"
  then show "fc_varint v s d = Inr (x, d')"
  proof (induction v s d rule: in_varint.induct)
    case (1 v s d)
    have i: "in_varint v s d = Inr (x, d')" by fact
    obtain b d1 where g: "ds_get d = Inr (b, d1)"
      using i by (cases "ds_get d") (simp_all add: in_varint.simps [of v s d] split: prod.splits)
    have g': "fc_get d = Inr (b, d1)" using follows_get "1.prems"(1) g unfolding follows_def by blast
    have d1: "ds_ok d1" using ds_get_gives "1.prems"(1) g unfolding gives_def by blast
    have s: "\<not> 32 \<le> s" using i unfolding in_varint.simps [of v s d] g by (cases "32 \<le> s") auto
    let ?v = "v OR u32 (push_bit s (unat b mod 128))"
    show ?case
    proof (cases "128 \<le> unat b")
      case True
      then have n: "in_varint ?v (s + 7) d1 = Inr (x, d')"
        using i s unfolding in_varint.simps [of v s d] g by (simp add: Let_def)
      have "s + 7 < 32"
      proof (rule ccontr)
        assume "\<not> s + 7 < 32"
        then show False using n unfolding in_varint.simps [of ?v "s + 7" d1] by (cases "ds_get d1") auto
      qed
      then show ?thesis using "1.IH" [OF g refl s refl True d1 n] True
        unfolding fc_varint.simps [of v s d] g' by (simp add: Let_def)
    next
      case False
      then show ?thesis using i s unfolding in_varint.simps [of v s d] fc_varint.simps [of v s d] g g' by (simp add: Let_def)
    qed
  qed
qed

lemma follows_uint: "follows in_uint fc_uint"
  unfolding in_uint_def fc_uint_def by (rule follows_varint)

lemma fc_read_gives: "gives (fc_read n) (\<lambda>b. length b = n)"
  by (auto simp: gives_def fc_read_def ds_ok_def ds_skip_def split: if_splits)

lemma fc_get_gives: "gives fc_get (\<lambda>_. True)"
  by (auto simp: gives_def fc_get_def ds_ok_def ds_skip_def split: if_splits)

lemma fc_assert_gives: "gives (fc_assert c) (\<lambda>_. c)"
  by (auto simp: gives_def fc_assert_def split: if_splits)

lemma fc_assert_takes: "c \<Longrightarrow> takes (fc_assert c) [] ()"
  by (simp add: takes_def fc_assert_def)

lemma fc_varint_gives: "gives (fc_varint v s) (\<lambda>k. k < 2 ^ 32)"
  unfolding gives_def
proof (intro allI impI)
  fix d r d' assume "ds_ok d" "fc_varint v s d = Inr (r, d')"
  then show "r < 2 ^ 32 \<and> ds_ok d' \<and> ds_buf d' = ds_buf d \<and> ds_pos d \<le> ds_pos d'"
  proof (induction v s d rule: fc_varint.induct)
    case (1 v s d)
    have i: "fc_varint v s d = Inr (r, d')" by fact
    obtain b d1 where g: "fc_get d = Inr (b, d1)"
      using i by (cases "fc_get d") (simp_all add: fc_varint.simps [of v s d] split: prod.splits)
    have d1: "ds_ok d1" "ds_buf d1 = ds_buf d" "ds_pos d \<le> ds_pos d1"
      using fc_get_gives "1.prems"(1) g unfolding gives_def by blast+
    show ?case
    proof (cases "128 \<le> unat b \<and> s + 7 < 32")
      case True
      then have n: "fc_varint (v OR u32 (push_bit s (unat b mod 128))) (s + 7) d1 = Inr (r, d')"
        using i unfolding fc_varint.simps [of v s d] g by (simp add: Let_def)
      from "1.IH" [OF g refl refl True d1(1) n] d1 show ?thesis by simp
    next
      case False
      then show ?thesis using i d1 unfolding fc_varint.simps [of v s d] g by (auto simp: Let_def u32_def)
    qed
  qed
qed

interpretation fprim: codec "out_prim n" "fc_prim n" "\<lambda>k. k < 256 ^ n" for n
proof
  show "takes (fc_prim n) (concat (out_prim n v)) v" if "v < 256 ^ n" for v
    using follows_takes [OF follows_prim prim.in_out [OF that]] .
  show "gives (fc_prim n) (\<lambda>k. k < 256 ^ n)"
    unfolding fc_prim_def by (rule gives_map [OF fc_read_gives]) (use le_value_bound in auto)
qed

interpretation fuint: codec out_uint fc_uint "\<lambda>k. k < 2 ^ 32"
proof
  show "takes fc_uint (concat (out_uint v)) v" if "v < 2 ^ 32" for v
    using follows_takes [OF follows_uint uint.in_out [OF that]] .
  show "gives fc_uint (\<lambda>k. k < 2 ^ 32)" unfolding fc_uint_def by (rule fc_varint_gives)
qed

text \<open>Containers, with the node's limits.\<close>

context codec begin

lemma fc_vector_codec: "codec (out_vector out) (fc_vector inn) (\<lambda>vs. length vs \<le> max_num_array_elements \<and> list_all rng vs)"
proof
  fix vs assume v: "length vs \<le> max_num_array_elements \<and> list_all rng vs"
  then have u: "u32 (length vs) = length vs" "length vs < 2 ^ 32" by (simp_all add: u32_def max_num_array_elements_def)
  have "takes (bind_d (fc_assert (length vs \<le> max_num_array_elements)) (\<lambda>_. in_many inn (length vs))) ([] @ concat (concat (map out vs))) vs"
    by (rule takes_bind [OF fc_assert_takes many_takes]) (use v in auto)
  then show "takes (fc_vector inn) (concat (out_vector out vs)) vs"
    unfolding fc_vector_def out_vector_def concat_append u(1) by (intro takes_bind [OF fuint.in_out]) (use u in auto)
next
  show "gives (fc_vector inn) (\<lambda>vs. length vs \<le> max_num_array_elements \<and> list_all rng vs)"
    unfolding fc_vector_def
    by (rule gives_bind [OF fuint.in_rng], rule gives_bind [OF fc_assert_gives], rule gives_mono [OF many_gives]) simp
qed

end

context ord_codec begin

lemma fc_flat_set_takes:
  assumes "length vs \<le> max_num_array_elements" "list_all rng vs"
  shows "takes (fc_flat_set inn) (concat (out_vector out vs)) (sorted_list_of_set (set vs))"
proof -
  have u: "u32 (length vs) = length vs" "length vs < 2 ^ 32" using assms(1) by (simp_all add: u32_def max_num_array_elements_def)
  have "takes (bind_d (fc_assert (length vs \<le> max_num_array_elements)) (\<lambda>_. map_d (\<lambda>vs. sorted_list_of_set (set vs)) (in_many inn (length vs))))
      ([] @ concat (concat (map out vs))) (sorted_list_of_set (set vs))"
    by (rule takes_bind [OF fc_assert_takes takes_map [OF many_takes]]) (use assms in auto)
  then show ?thesis
    unfolding fc_flat_set_def out_vector_def concat_append u(1) by (intro takes_bind [OF fuint.in_out]) (use u in auto)
qed

end

interpretation fbytes: codec out_bytes fc_bytes "\<lambda>b. length b \<le> max_size_of_byte_arrays"
proof
  fix b :: packed assume b: "length b \<le> max_size_of_byte_arrays"
  then have u: "u32 (length b) = length b" "length b < 2 ^ 32" by (simp_all add: u32_def max_size_of_byte_arrays_def)
  have "takes (if length b \<noteq> 0 then fc_read (length b) else ret_d []) b b"
    using follows_takes [OF follows_read ds_read_takes] takes_ret by auto
  then have "takes (bind_d (fc_assert (length b \<le> max_size_of_byte_arrays)) (\<lambda>_. if length b \<noteq> 0 then fc_read (length b) else ret_d [])) ([] @ b) b"
    by (intro takes_bind [OF fc_assert_takes]) (use b in auto)
  then show "takes fc_bytes (concat (out_bytes b)) b"
    unfolding fc_bytes_def out_bytes_def concat_append u(1) by (intro takes_bind [OF fuint.in_out]) (use u in auto)
next
  have g: "gives (if s \<noteq> 0 then fc_read s else ret_d []) (\<lambda>b. length b = s)" for s
    using fc_read_gives [of s] gives_ret [of "\<lambda>b. length b = s" "[]"] by auto
  show "gives fc_bytes (\<lambda>b. length b \<le> max_size_of_byte_arrays)"
    unfolding fc_bytes_def by (intro gives_bind [OF fuint.in_rng] gives_bind [OF fc_assert_gives]) (rule gives_mono [OF g], simp)
qed

text \<open>The contract's view of the node's structures.\<close>

definition contract_of_action :: "packed action \<Rightarrow> contract_action" where
  "contract_of_action a = \<lparr>ca_account = act_account a, ca_name = act_name a, ca_authorization = authorization a, ca_data = data a\<rparr>"

definition contract_of_header :: "'x node_header_scheme \<Rightarrow> trx_header" where
  "contract_of_header h = \<lparr>expiration = tx_expiration h, ref_block_num = tx_ref_block_num h, ref_block_prefix = tx_ref_block_prefix h,
     net_usage_words = max_net_usage_words h, max_cpu_usage_ms = tx_max_cpu_usage_ms h, delay_sec = tx_delay_sec h\<rparr>"

definition contract_of_trx :: "node_trx \<Rightarrow> contract_trx" where
  "contract_of_trx t = trx_header.extend (contract_of_header t)
     \<lparr>context_free_actions = map contract_of_action (tx_context_free_actions t), actions = map contract_of_action (tx_actions t),
      transaction_extensions = tx_extensions t\<rparr>"

definition node_action_in_range :: "packed action \<Rightarrow> bool" where
  "node_action_in_range a \<longleftrightarrow> length (authorization a) \<le> max_num_array_elements \<and> length (data a) \<le> max_size_of_byte_arrays"

definition node_trx_in_range :: "node_trx \<Rightarrow> bool" where
  "node_trx_in_range t \<longleftrightarrow> header_in_range (contract_of_header t)
     \<and> length (tx_context_free_actions t) \<le> max_num_array_elements \<and> list_all node_action_in_range (tx_context_free_actions t)
     \<and> length (tx_actions t) \<le> max_num_array_elements \<and> list_all node_action_in_range (tx_actions t)
     \<and> length (tx_extensions t) \<le> max_num_array_elements
     \<and> list_all (\<lambda>e. fst e < 256 ^ 2 \<and> length (snd e) \<le> max_size_of_byte_arrays) (tx_extensions t)"

interpretation fperm: ord_codec out_permission_level fc_permission_level "\<lambda>_. True"
proof
  fix v show "takes fc_permission_level (concat (out_permission_level v)) v"
    unfolding fc_permission_level_def out_permission_level_def out_pair_def concat_append
    by (intro takes_bind [OF fprim.in_out] takes_bind_last [OF fprim.in_out]) (auto intro!: takes_ret_eq)
next
  show "gives fc_permission_level (\<lambda>_. True)"
    unfolding fc_permission_level_def by (rule gives_bind [OF fprim.in_rng])+ (rule gives_ret, rule TrueI)
qed

interpretation fperms: codec "out_vector out_permission_level" "fc_vector fc_permission_level"
  "\<lambda>vs. length vs \<le> max_num_array_elements \<and> list_all (\<lambda>_. True) vs"
  by (rule fperm.fc_vector_codec)

interpretation fact: codec "\<lambda>a. out_action (contract_of_action a)" fc_action node_action_in_range
proof
  fix a assume "node_action_in_range a"
  then have r: "length (authorization a) \<le> max_num_array_elements" "length (data a) \<le> max_size_of_byte_arrays"
    by (simp_all add: node_action_in_range_def)
  have "list_all (\<lambda>_. True) (authorization a)" by (simp add: list_all_iff)
  then show "takes fc_action (concat (out_action (contract_of_action a))) a"
    unfolding fc_action_def out_action_def concat_append contract_of_action_def contract_action.simps using r
    by (intro takes_bind [OF fprim.in_out] takes_bind [OF fperms.in_out] takes_bind_last [OF fbytes.in_out])
      (auto intro!: takes_ret_eq action.equality)
next
  show "gives fc_action node_action_in_range"
    unfolding fc_action_def
    by (rule gives_bind [OF fprim.in_rng] gives_bind [OF fperms.in_rng] gives_bind [OF fbytes.in_rng])+
      (auto intro!: gives_ret simp: node_action_in_range_def)
qed

interpretation facts: codec "out_vector (\<lambda>a. out_action (contract_of_action a))" "fc_vector fc_action"
  "\<lambda>vs. length vs \<le> max_num_array_elements \<and> list_all node_action_in_range vs"
  by (rule fact.fc_vector_codec)

interpretation fext: codec "out_pair (out_prim 2) out_bytes" "fc_pair (fc_prim 2) fc_bytes"
  "\<lambda>e. fst e < 256 ^ 2 \<and> length (snd e) \<le> max_size_of_byte_arrays"
  unfolding fc_pair_def in_pair_def [symmetric] by (rule fprim.pair_codec [OF fbytes.codec_axioms])

interpretation fexts: codec "out_vector out_extension" "fc_vector (fc_pair (fc_prim 2) fc_bytes)"
  "\<lambda>vs. length vs \<le> max_num_array_elements \<and> list_all (\<lambda>e. fst e < 256 ^ 2 \<and> length (snd e) \<le> max_size_of_byte_arrays) vs"
  unfolding out_extension_def by (rule fext.fc_vector_codec)

interpretation fhdr: codec "\<lambda>h. out_header (contract_of_header h)" fc_header "\<lambda>h. header_in_range (contract_of_header (h :: node_header))"
proof
  fix h :: node_header assume "header_in_range (contract_of_header h)"
  then have r: "tx_expiration h < 256 ^ 4" "tx_ref_block_num h < 256 ^ 2" "tx_ref_block_prefix h < 256 ^ 4" "max_net_usage_words h < 2 ^ 32"
    "tx_max_cpu_usage_ms h < 256 ^ 1" "tx_delay_sec h < 2 ^ 32" by (simp_all add: header_in_range_def contract_of_header_def)
  show "takes fc_header (concat (out_header (contract_of_header h))) h"
    unfolding fc_header_def out_header_def concat_append contract_of_header_def trx_header.simps using r
    by (intro takes_bind [OF fprim.in_out] takes_bind [OF fuint.in_out] takes_bind_last [OF fuint.in_out])
      (auto intro!: takes_ret_eq node_header.equality)
next
  show "gives fc_header (\<lambda>h. header_in_range (contract_of_header h))"
    unfolding fc_header_def
    by (rule gives_bind [OF fprim.in_rng] gives_bind [OF fuint.in_rng])+
      (auto intro!: gives_ret simp: header_in_range_def contract_of_header_def)
qed

lemma out_vector_map: "out_vector out (map f vs) = out_vector (\<lambda>v. out (f v)) vs"
  by (simp add: out_vector_def comp_def)

interpretation ftrx: codec "\<lambda>t. out_trx (contract_of_trx t)" fc_trx node_trx_in_range
proof
  fix t assume r: "node_trx_in_range t"
  have h: "out_header (contract_of_trx t) = out_header (contract_of_header (node_header.truncate t))"
    "header_in_range (contract_of_header (node_header.truncate t))"
    using r by (simp_all add: out_header_def node_trx_in_range_def header_in_range_def contract_of_trx_def contract_of_header_def
        trx_header.defs node_header.defs)
  have o: "out_trx (contract_of_trx t) = out_header (contract_of_trx t) @ out_vector (\<lambda>a. out_action (contract_of_action a)) (tx_context_free_actions t)
     @ out_vector (\<lambda>a. out_action (contract_of_action a)) (tx_actions t) @ out_vector out_extension (tx_extensions t)"
    by (simp add: out_trx_def contract_of_trx_def trx_header.defs out_vector_map)
  show "takes fc_trx (concat (out_trx (contract_of_trx t))) t"
    unfolding fc_trx_def o h(1) concat_append
    using r h(2) by (intro takes_bind [OF fhdr.in_out] takes_bind [OF facts.in_out] takes_bind_last [OF fexts.in_out])
      (auto intro!: takes_ret_eq node_trx.equality simp: node_trx_in_range_def node_header.defs)
next
  show "gives fc_trx node_trx_in_range"
    unfolding fc_trx_def
    by (rule gives_bind [OF fhdr.in_rng] gives_bind [OF facts.in_rng] gives_bind [OF fexts.in_rng])+
      (auto intro!: gives_ret simp: node_trx_in_range_def contract_of_header_def header_in_range_def node_header.defs)
qed

section \<open>What the node packs is what contracts pack\<close>

text \<open>The same bytes; an empty vector is not written at all instead of writing nothing.\<close>

definition packs :: "packed list result \<Rightarrow> packed \<Rightarrow> bool" where
  "packs r b \<longleftrightarrow> (\<exists>cs. r = Inr cs \<and> concat cs = b)"

lemma packs_bytes: "length v \<le> max_size_of_byte_arrays \<Longrightarrow> packs (fc_out_bytes v) (concat (out_bytes v))"
  by (simp add: packs_def fc_out_bytes_def out_bytes_def eos_assert_def)

lemma packs_vector:
  assumes "length v \<le> max_num_array_elements" "\<And>x. x \<in> set v \<Longrightarrow> packs (out1 x) (concat (out2 x))"
  shows "packs (fc_out_vector out1 v) (concat (out_vector out2 v))"
proof -
  have "\<exists>ds. fold_r (\<lambda>x cs. bind_r (out1 x) (\<lambda>c. Inr (cs @ c))) v cs = Inr ds \<and> concat ds = concat cs @ concat (concat (map out2 v))" for cs
    using assms(2)
  proof (induction v arbitrary: cs)
    case (Cons x v)
    obtain c where c: "out1 x = Inr c" "concat c = concat (out2 x)" using Cons.prems [of x] by (auto simp: packs_def)
    obtain ds where "fold_r (\<lambda>x cs. bind_r (out1 x) (\<lambda>c. Inr (cs @ c))) v (cs @ c) = Inr ds" "concat ds = concat (cs @ c) @ concat (concat (map out2 v))"
      using Cons.IH [of "cs @ c"] Cons.prems by auto
    then show ?case using c by simp
  qed simp
  then show ?thesis using assms(1) by (simp add: packs_def fc_out_vector_def eos_assert_def out_vector_def)
qed

lemma packs_action: "node_action_in_range a \<Longrightarrow> packs (fc_out_action a) (concat (out_action (contract_of_action a)))"
proof -
  assume r: "node_action_in_range a"
  have "packs (fc_out_vector fc_out_permission_level (authorization a)) (concat (out_vector out_permission_level (authorization a)))"
    using r by (intro packs_vector) (simp_all add: node_action_in_range_def packs_def fc_out_permission_level_def out_permission_level_def out_pair_def)
  moreover have "packs (fc_out_bytes (data a)) (concat (out_bytes (data a)))" using r by (intro packs_bytes) (simp add: node_action_in_range_def)
  ultimately show ?thesis by (auto simp: packs_def fc_out_action_def out_action_def contract_of_action_def)
qed

lemma packs_trx: "node_trx_in_range t \<Longrightarrow> packs (fc_out_trx t) (concat (out_trx (contract_of_trx t)))"
proof -
  assume r: "node_trx_in_range t"
  have a: "packs (fc_out_vector fc_out_action as) (concat (out_vector (\<lambda>a. out_action (contract_of_action a)) as))"
    if "length as \<le> max_num_array_elements" "list_all node_action_in_range as" for as
    using that by (intro packs_vector packs_action) (auto simp: list_all_iff)
  have e: "packs (fc_out_vector fc_out_extension (tx_extensions t)) (concat (out_vector out_extension (tx_extensions t)))"
  proof (rule packs_vector)
    fix x assume "x \<in> set (tx_extensions t)"
    then have "packs (fc_out_bytes (snd x)) (concat (out_bytes (snd x)))"
      using r by (intro packs_bytes) (auto simp: node_trx_in_range_def list_all_iff)
    then show "packs (fc_out_extension x) (concat (out_extension x))" by (auto simp: packs_def fc_out_extension_def out_extension_def out_pair_def)
  qed (use r in \<open>simp add: node_trx_in_range_def\<close>)
  have h: "fc_out_header t = out_header (contract_of_trx t)"
    by (simp add: fc_out_header_def out_header_def contract_of_trx_def contract_of_header_def trx_header.defs)
  show ?thesis
    using a [of "tx_context_free_actions t"] a [of "tx_actions t"] e r h
    by (auto simp: packs_def fc_out_trx_def out_trx_def contract_of_trx_def trx_header.defs out_vector_map node_trx_in_range_def)
qed

section \<open>The two parsers on arbitrary bytes\<close>

text \<open>
  They end with matching values at the same place or both fail, up to two exceptions: the node refuses
  what is over its limits, and the contract is lost in a variable-length integer of more than five bytes.
\<close>

definition lost :: "chain_error \<Rightarrow> bool" where
  "lost e \<longleftrightarrow> e = undefined_behaviour \<or> e = eosio_assert_message ''get''"

definition agree :: "('a \<Rightarrow> 'b \<Rightarrow> bool) \<Rightarrow> 'a reader \<Rightarrow> 'b reader \<Rightarrow> bool" where
  "agree R m1 m2 \<longleftrightarrow> (\<forall>d. ds_ok d \<longrightarrow>
     (case (m1 d, m2 d) of
        (Inr (x, d1), Inr (y, d2)) \<Rightarrow> R x y \<and> d1 = d2 \<and> ds_ok d1
      | (Inr _, Inl e) \<Rightarrow> e = assert_exception
      | (Inl e, Inr _) \<Rightarrow> lost e
      | (Inl _, Inl _) \<Rightarrow> True))"

lemma agree_bind:
  assumes m: "agree R m1 m2" and f: "\<And>x y. R x y \<Longrightarrow> agree S (f x) (g y)"
  shows "agree S (bind_d m1 f) (bind_d m2 g)"
  unfolding agree_def
proof (intro allI impI)
  fix d assume ok: "ds_ok d"
  note md = m [unfolded agree_def, rule_format, OF ok]
  show "case (bind_d m1 f d, bind_d m2 g d) of (Inr (x, d1), Inr (y, d2)) \<Rightarrow> S x y \<and> d1 = d2 \<and> ds_ok d1
      | (Inr _, Inl e) \<Rightarrow> e = assert_exception | (Inl e, Inr _) \<Rightarrow> lost e | (Inl _, Inl _) \<Rightarrow> True"
  proof (cases "\<exists>x y d1. m1 d = Inr (x, d1) \<and> m2 d = Inr (y, d1) \<and> R x y \<and> ds_ok d1")
    case True
    then obtain x y d1 where s: "m1 d = Inr (x, d1)" "m2 d = Inr (y, d1)" "R x y" "ds_ok d1" by blast
    then show ?thesis using f [OF s(3), unfolded agree_def, rule_format, OF s(4)] by (simp add: bind_d_def)
  next
    case False
    then show ?thesis using md by (cases "m1 d"; cases "m2 d") (auto simp: bind_d_def split: sum.splits)
  qed
qed

lemma agree_ret: "R x y \<Longrightarrow> agree R (ret_d x) (ret_d y)"
  by (simp add: agree_def ret_d_def)

lemma agree_map: "agree R m1 m2 \<Longrightarrow> (\<And>x y. R x y \<Longrightarrow> S (f x) (g y)) \<Longrightarrow> agree S (map_d f m1) (map_d g m2)"
  unfolding map_d_def by (rule agree_bind, assumption) (auto intro: agree_ret)

lemma agree_read: "agree (=) (ds_read n) (fc_read n)"
  by (auto simp: agree_def ds_read_def fc_read_def fc_remaining_ok ds_remaining_ok contract_assert_def bind_r_def ds_ok_def ds_skip_def
      split: if_splits)

lemma agree_prim: "agree (=) (in_prim n) (fc_prim n)"
  unfolding in_prim_def fc_prim_def by (rule agree_map [OF agree_read]) simp

lemma varint_lost: "32 \<le> s \<Longrightarrow> \<exists>e. in_varint v s d = Inl e \<and> lost e"
  by (cases "ds_pos d < length (ds_buf d)") (simp_all add: in_varint.simps [of v s d] lost_def ds_get_def contract_assert_def)

lemma agree_varint: "s < 32 \<Longrightarrow> agree (=) (in_varint v s) (fc_varint v s)"
  unfolding agree_def
proof (intro allI impI)
  fix d assume "s < 32" "ds_ok d"
  then show "case (in_varint v s d, fc_varint v s d) of (Inr (x, d1), Inr (y, d2)) \<Rightarrow> x = y \<and> d1 = d2 \<and> ds_ok d1
      | (Inr _, Inl e) \<Rightarrow> e = assert_exception | (Inl e, Inr _) \<Rightarrow> lost e | (Inl _, Inl _) \<Rightarrow> True"
  proof (induction v s d rule: in_varint.induct)
    case (1 v s d)
    note unfolds = in_varint.simps [of v s d] fc_varint.simps [of v s d]
    show ?case
    proof (cases "ds_pos d < length (ds_buf d)")
      case False
      then show ?thesis unfolding unfolds by (simp add: ds_get_def fc_get_def contract_assert_def)
    next
      case True
      let ?b = "ds_buf d ! ds_pos d" and ?d1 = "ds_skip 1 d"
      have g: "ds_get d = Inr (?b, ?d1)" "fc_get d = Inr (?b, ?d1)" "ds_ok ?d1"
        using True "1.prems"(2) by (simp_all add: ds_get_def fc_get_def contract_assert_def ds_ok_def ds_skip_def)
      let ?v = "v OR u32 (push_bit s (unat ?b mod 128))"
      have s: "\<not> 32 \<le> s" using "1.prems"(1) by simp
      consider "unat ?b < 128" | "128 \<le> unat ?b" "s + 7 < 32" | "128 \<le> unat ?b" "32 \<le> s + 7" by linarith
      then show ?thesis
      proof cases
        case 1
        then show ?thesis using s g(3) unfolding unfolds g by (simp add: Let_def)
      next
        case 2
        then show ?thesis using "1.IH" [OF g(1) refl s refl 2(1) 2(2) g(3)] s unfolding unfolds g by (simp add: Let_def)
      next
        case 3
        obtain e where "in_varint ?v (s + 7) ?d1 = Inl e" "lost e" using varint_lost [OF 3(2)] by blast
        then show ?thesis using 3 s unfolding unfolds g by (simp add: Let_def)
      qed
    qed
  qed
qed

lemma agree_uint: "agree (=) in_uint fc_uint"
  unfolding in_uint_def fc_uint_def by (rule agree_varint) simp

lemma agree_many: "agree R m1 m2 \<Longrightarrow> agree (list_all2 R) (in_many m1 n) (in_many m2 n)"
proof (induction n)
  case (Suc n)
  then show ?case unfolding in_many.simps by (intro agree_bind [OF Suc.prems] agree_map [OF Suc.IH [OF Suc.prems]]) simp
qed (simp add: agree_ret)

text \<open>An assertion that only the node makes.\<close>

lemma agree_limit: "agree R m1 m2 \<Longrightarrow> agree R m1 (bind_d (fc_assert c) (\<lambda>_. m2))"
  by (cases c) (auto simp: agree_def bind_d_def fc_assert_def split: sum.splits)

lemma agree_vector: "agree R m1 m2 \<Longrightarrow> agree (list_all2 R) (in_vector m1) (fc_vector m2)"
  unfolding in_vector_def fc_vector_def by (intro agree_bind [OF agree_uint]) (auto intro!: agree_limit agree_many)

lemma agree_bytes: "agree (=) in_bytes fc_bytes"
proof -
  have r: "agree (=) (ds_read s) (if s \<noteq> 0 then fc_read s else ret_d [])" for s
  proof (cases s)
    case 0
    have "agree (=) (ds_read 0) (ret_d [])" by (simp add: agree_def ds_read_def contract_assert_def ret_d_def ds_ok_def)
    then show ?thesis using 0 by simp
  qed (use agree_read in auto)
  show ?thesis unfolding in_bytes_def fc_bytes_def by (intro agree_bind [OF agree_uint] agree_limit) (simp only: r)
qed

lemma agree_permission_level: "agree (=) in_permission_level fc_permission_level"
proof -
  have "in_permission_level = bind_d (in_prim 8) (\<lambda>a. bind_d (in_prim 8) (\<lambda>p. ret_d (permission_level (of_nat a) (of_nat p))))"
    by (auto simp: fun_eq_iff in_permission_level_def in_pair_def map_d_def bind_d_def ret_d_def bind_r_def split: sum.splits)
  moreover have "agree (=) (bind_d (in_prim 8) (\<lambda>a. bind_d (in_prim 8) (\<lambda>p. ret_d (permission_level (of_nat a) (of_nat p))))) fc_permission_level"
    unfolding fc_permission_level_def by (intro agree_bind [OF agree_prim] agree_ret) simp
  ultimately show ?thesis by simp
qed

lemma agree_action: "agree (\<lambda>x y. x = contract_of_action y) in_action fc_action"
  unfolding in_action_def fc_action_def
  by (intro agree_bind [OF agree_prim] agree_bind [OF agree_vector [OF agree_permission_level]] agree_bind [OF agree_bytes] agree_ret)
    (simp add: contract_of_action_def list.rel_eq)

lemma agree_header: "agree (\<lambda>x y. x = contract_of_header y) in_header fc_header"
  unfolding in_header_def fc_header_def
  by (intro agree_bind [OF agree_prim] agree_bind [OF agree_uint] agree_ret) (simp add: contract_of_header_def)

lemma agree_extension: "agree (=) in_extension (fc_pair (fc_prim 2) fc_bytes)"
  unfolding in_extension_def in_pair_def fc_pair_def
  by (intro agree_bind [OF agree_prim] agree_bind [OF agree_bytes] agree_ret) simp

lemma list_all2_map_eq: "list_all2 (\<lambda>x y. x = f y) xs ys \<longleftrightarrow> xs = map f ys"
  by (auto simp: list_all2_conv_all_nth list_eq_iff_nth_eq)

lemma agree_trx: "agree (\<lambda>x y. x = contract_of_trx y) in_trx fc_trx"
  unfolding in_trx_def fc_trx_def
  by (intro agree_bind [OF agree_header] agree_bind [OF agree_vector [OF agree_action]] agree_bind [OF agree_vector [OF agree_extension]]
      agree_ret) (simp add: contract_of_trx_def list_all2_map_eq list.rel_eq node_header.defs contract_of_header_def)

section \<open>Properties\<close>

text \<open>C16. The contract library and the node read the same transactions.  What the contract library packs, the node
  unpacks to the same transaction, if the sizes are within the node's limits.  And on arbitrary bytes: where the
  contract library returns a transaction the node returns the same one and ends at the same place, or refuses it
  for its limits; where the node returns one the contract library returns the same one, or it is lost in an integer
  with more than five bytes (out of bytes, or shifting by more than the width).\<close>

theorem node_and_contract_agree:
  assumes "length b < 2 ^ 31"
  shows "(\<forall>t d. in_trx (ds_over b) = Inr (t, d) \<longrightarrow>
        (\<exists>u. fc_trx (ds_over b) = Inr (u, d) \<and> t = contract_of_trx u) \<or> fc_trx (ds_over b) = Inl assert_exception)
    \<and> (\<forall>u d. fc_trx (ds_over b) = Inr (u, d) \<longrightarrow> in_trx (ds_over b) = Inr (contract_of_trx u, d)
        \<or> in_trx (ds_over b) = Inl undefined_behaviour \<or> in_trx (ds_over b) = Inl (eosio_assert_message ''get''))
    \<and> (\<forall>u. node_trx_in_range u \<longrightarrow> b = concat (out_trx (contract_of_trx u)) \<longrightarrow>
        Packing.pack (out_trx (contract_of_trx u)) = Inr b \<and> unpack fc_trx b = Inr u)"
proof (intro conjI allI impI)
  have "ds_ok (ds_over b)" using assms by (simp add: ds_ok_def ds_over_def)
  note a = agree_trx [unfolded agree_def, rule_format, OF this]
  show "(\<exists>u. fc_trx (ds_over b) = Inr (u, d) \<and> t = contract_of_trx u) \<or> fc_trx (ds_over b) = Inl assert_exception"
    if "in_trx (ds_over b) = Inr (t, d)" for t d using a that by (cases "fc_trx (ds_over b)") auto
  show "in_trx (ds_over b) = Inr (contract_of_trx u, d) \<or> in_trx (ds_over b) = Inl undefined_behaviour
      \<or> in_trx (ds_over b) = Inl (eosio_assert_message ''get'')"
    if "fc_trx (ds_over b) = Inr (u, d)" for u d using a that by (cases "in_trx (ds_over b)") (auto simp: lost_def)
  show "Packing.pack (out_trx (contract_of_trx u)) = Inr b" if "b = concat (out_trx (contract_of_trx u))" for u
    using pack_exact [of "out_trx (contract_of_trx u)"] assms that by simp
  show "unpack fc_trx b = Inr u" if "node_trx_in_range u" "b = concat (out_trx (contract_of_trx u))" for u
    using ftrx.unpack_pack_exact [of u] assms that by simp
qed

lemmas fc_eval = fc_trx_def fc_header_def fc_vector_def fc_uint_def fc_prim_def fc_assert_def fc_read_def fc_get_def fc_remaining_def
  bind_d_def map_d_def ret_d_def ds_over_def ds_skip_def node_header.defs u32_def max_num_array_elements_def

definition empty_node_trx :: node_trx where
  "empty_node_trx = \<lparr>tx_expiration = 1, tx_ref_block_num = 2, tx_ref_block_prefix = 3, max_net_usage_words = 5, tx_max_cpu_usage_ms = 6,
     tx_delay_sec = 7, tx_context_free_actions = [], tx_actions = [], tx_extensions = []\<rparr>"

definition empty_trx_bytes :: packed where
  "empty_trx_bytes = [1, 0, 0, 0, 2, 0, 3, 0, 0, 0, 5, 6, 7, 0, 0, 0]"

lemma empty_trx_packed: "concat (out_trx (contract_of_trx empty_node_trx)) = empty_trx_bytes"
  by (simp add: empty_node_trx_def empty_trx_bytes_def contract_of_trx_def contract_of_header_def trx_header.defs out_eval)

lemma empty_trx_read:
  "fc_trx (ds_over empty_trx_bytes) = Inr (empty_node_trx, \<lparr>ds_buf = empty_trx_bytes, ds_pos = 16\<rparr>)"
  "in_trx (ds_over empty_trx_bytes) = Inr (contract_of_trx empty_node_trx, \<lparr>ds_buf = empty_trx_bytes, ds_pos = 16\<rparr>)"
  by (simp_all add: empty_node_trx_def empty_trx_bytes_def contract_of_trx_def contract_of_header_def trx_header.defs fc_eval fc_varint.simps
      in_eval in_varint.simps)

theorem node_and_contract_agree_witness:
  "(\<exists>u. fc_trx (ds_over empty_trx_bytes) = Inr (u, \<lparr>ds_buf = empty_trx_bytes, ds_pos = 16\<rparr>) \<and> contract_of_trx empty_node_trx = contract_of_trx u)
   \<and> in_trx (ds_over empty_trx_bytes) = Inr (contract_of_trx empty_node_trx, \<lparr>ds_buf = empty_trx_bytes, ds_pos = 16\<rparr>)
   \<and> unpack fc_trx empty_trx_bytes = Inr empty_node_trx"
proof -
  have len: "length empty_trx_bytes < 2 ^ 31" by (simp add: empty_trx_bytes_def)
  have r: "node_trx_in_range empty_node_trx"
    by (simp add: empty_node_trx_def node_trx_in_range_def header_in_range_def contract_of_header_def)
  show ?thesis using node_and_contract_agree [OF len] empty_trx_read r empty_trx_packed by simp
qed

text \<open>Five bytes that all announce another one: the node takes them for a number, the contract library does not.\<close>

lemma overlong_varint_disagreement:
  "unpack fc_uint [129, 128, 128, 128, 128] = Inr 1"
  "unpack in_uint [129, 128, 128, 128, 128] = Inl (eosio_assert_message ''get'')"
  by (simp_all add: unpack_def fc_eval fc_varint.simps in_eval in_varint.simps)

end
