(* ===== verification/Msig.thy ===== *)
theory Msig
  imports Token NodeUnpack
begin

text \<open>
  The multi-signature contract (\<^verbatim>\<open>contracts/eosio.msig/eosio.msig.cpp\<close>, \<open>eosio.msig.hpp\<close>): transactions are
  proposed, approved by the permissions they need, and executed once the node agrees that the approvals given
  authorize them.  The node does not check the authorization of a deferred transaction that a privileged
  contract sends, so this contract is all that stands between a proposal and its execution.

  An action sees its own authorization, the time of the block and the node's permissions.  A failed
  assertion aborts the transaction.  Who pays for the memory of a row is not modelled, nor is what the node
  does with the transactions sent.
\<close>

section \<open>State\<close>

record proposal =
  proposal_name :: account_name
  packed_transaction :: packed

record approvals_info =
  app_proposal_name :: account_name
  requested_approvals :: "permission_level list"
  provided_approvals :: "permission_level list"

text \<open>Rows with their scope, the proposer.\<close>

definition proposal_key :: "account_name \<times> proposal \<Rightarrow> account_name \<times> account_name" where
  "proposal_key r = (fst r, proposal_name (snd r))"

definition approvals_key :: "account_name \<times> approvals_info \<Rightarrow> account_name \<times> account_name" where
  "approvals_key r = (fst r, app_proposal_name (snd r))"

record deferred =
  df_sender_id :: nat
  df_payer :: account_name
  df_trx :: packed

record msig_state =
  proposals :: "(account_name \<times> proposal) list"
  approvals :: "(account_name \<times> approvals_info) list"
  sent :: "deferred list"

record 'k msig_context =
  act_auth :: "permission_level list"
  now :: nat
  auth_state :: "'k auth_db"
  fc_key :: "'k reader"
  natives :: "('k, packed) native_data"

section \<open>Operations\<close>

definition require_account :: "'k msig_context \<Rightarrow> account_name \<Rightarrow> unit result" where
  "require_account ctx account = eos_assert (list_ex (\<lambda>a. actor a = account) (act_auth ctx)) missing_auth_exception"

definition require_permission :: "'k msig_context \<Rightarrow> permission_level \<Rightarrow> unit result" where
  "require_permission ctx level =
     eos_assert (list_ex (\<lambda>a. actor a = actor level \<and> permission a = permission level) (act_auth ctx)) missing_auth_exception"

definition check_trx :: "('k::linorder) msig_context \<Rightarrow> packed \<Rightarrow> packed \<Rightarrow> bool result" where
  "check_trx ctx trx_data perms_data = check_transaction_authorization (fc_key ctx) (natives ctx) (auth_state ctx) trx_data [] perms_data"

text \<open>What \<open>propose\<close> reads itself: the proposer, the name, the requested approvals, where the transaction is, its header.\<close>

definition read_proposal :: "packed \<Rightarrow> (account_name \<times> account_name \<times> permission_level list \<times> nat \<times> trx_header) result" where
  "read_proposal buffer =
     bind_r (in_prim 8 (ds_over buffer)) (\<lambda>(proposer, ds).
     bind_r (in_prim 8 ds) (\<lambda>(pname, ds).
     bind_r (in_vector in_permission_level ds) (\<lambda>(requested, ds).
     let trx_pos = ds_tellp ds in
     bind_r (in_header ds) (\<lambda>(h, ds).
     Inr (of_nat proposer, of_nat pname, requested, trx_pos, h)))))"

definition propose :: "('k::linorder) msig_context \<Rightarrow> packed \<Rightarrow> msig_state \<Rightarrow> msig_state result" where
  "propose ctx buffer s =
     bind_r (read_proposal buffer) (\<lambda>(proposer, pname, requested, trx_pos, h).
     bind_r (require_account ctx proposer) (\<lambda>_.
     bind_r (contract_assert (expiration h \<ge> now ctx) ''transaction expired'') (\<lambda>_.
     bind_r (contract_assert (tbl_find proposal_key (proposer, pname) (proposals s) = None) ''proposal with the same name exists'') (\<lambda>_.
     bind_r (Packing.pack (out_vector out_permission_level requested)) (\<lambda>packed_requested.
     bind_r (check_trx ctx (drop trx_pos buffer) packed_requested) (\<lambda>res.
     bind_r (contract_assert res ''transaction authorization failed'') (\<lambda>_.
     bind_r (idx_emplace proposal_key (proposer, \<lparr>proposal_name = pname, packed_transaction = drop trx_pos buffer\<rparr>) (proposals s)) (\<lambda>props.
     bind_r (idx_emplace approvals_key
        (proposer, \<lparr>app_proposal_name = pname, requested_approvals = requested, provided_approvals = []\<rparr>) (approvals s)) (\<lambda>apps.
     Inr (s\<lparr>proposals := props, approvals := apps\<rparr>))))))))))"

definition approve :: "'k msig_context \<Rightarrow> account_name \<Rightarrow> account_name \<Rightarrow> permission_level \<Rightarrow> msig_state \<Rightarrow> msig_state result" where
  "approve ctx proposer pname level s =
     bind_r (require_permission ctx level) (\<lambda>_.
     bind_r (idx_get approvals_key (proposer, pname) ''proposal not found'' (approvals s)) (\<lambda>apps.
     bind_r (contract_assert (level \<in> set (requested_approvals (snd apps))) ''approval is not on the list of requested approvals'') (\<lambda>_.
     bind_r (idx_modify approvals_key (proposer, pname)
        (\<lambda>a. Inr (fst a, (snd a)\<lparr>provided_approvals := provided_approvals (snd a) @ [level],
           requested_approvals := remove1 level (requested_approvals (snd a))\<rparr>)) (approvals s)) (\<lambda>rows.
     Inr (s\<lparr>approvals := rows\<rparr>)))))"

definition unapprove :: "'k msig_context \<Rightarrow> account_name \<Rightarrow> account_name \<Rightarrow> permission_level \<Rightarrow> msig_state \<Rightarrow> msig_state result" where
  "unapprove ctx proposer pname level s =
     bind_r (require_permission ctx level) (\<lambda>_.
     bind_r (idx_get approvals_key (proposer, pname) ''proposal not found'' (approvals s)) (\<lambda>apps.
     bind_r (contract_assert (level \<in> set (provided_approvals (snd apps))) ''no approval previously granted'') (\<lambda>_.
     bind_r (idx_modify approvals_key (proposer, pname)
        (\<lambda>a. Inr (fst a, (snd a)\<lparr>requested_approvals := requested_approvals (snd a) @ [level],
           provided_approvals := remove1 level (provided_approvals (snd a))\<rparr>)) (approvals s)) (\<lambda>rows.
     Inr (s\<lparr>approvals := rows\<rparr>)))))"

definition erase_both :: "account_name \<times> account_name \<Rightarrow> msig_state \<Rightarrow> msig_state" where
  "erase_both k s = s\<lparr>proposals := tbl_remove proposal_key k (proposals s), approvals := tbl_remove approvals_key k (approvals s)\<rparr>"

definition cancel :: "'k msig_context \<Rightarrow> account_name \<Rightarrow> account_name \<Rightarrow> account_name \<Rightarrow> msig_state \<Rightarrow> msig_state result" where
  "cancel ctx proposer pname canceler s =
     bind_r (require_account ctx canceler) (\<lambda>_.
     bind_r (idx_get proposal_key (proposer, pname) ''proposal not found'' (proposals s)) (\<lambda>row.
     bind_r
       (if canceler \<noteq> proposer
        then bind_r (unpack in_header (packed_transaction (snd row))) (\<lambda>h.
          contract_assert (expiration h < now ctx) ''cannot cancel until expiration'')
        else Inr ()) (\<lambda>_.
     bind_r (idx_get approvals_key (proposer, pname) ''proposal not found'' (approvals s)) (\<lambda>_.
     Inr (erase_both (proposer, pname) s)))))"

definition msig_sender_id :: "account_name \<Rightarrow> account_name \<Rightarrow> nat" where
  "msig_sender_id proposer pname = push_bit 64 (unat proposer) OR unat pname"

definition exec :: "('k::linorder) msig_context \<Rightarrow> account_name \<Rightarrow> account_name \<Rightarrow> account_name \<Rightarrow> msig_state \<Rightarrow> msig_state result" where
  "exec ctx proposer pname executer s =
     bind_r (require_account ctx executer) (\<lambda>_.
     bind_r (idx_get proposal_key (proposer, pname) ''proposal not found'' (proposals s)) (\<lambda>row.
     bind_r (idx_get approvals_key (proposer, pname) ''proposal not found'' (approvals s)) (\<lambda>apps.
     bind_r (unpack in_header (packed_transaction (snd row))) (\<lambda>h.
     bind_r (contract_assert (expiration h \<ge> now ctx) ''transaction expired'') (\<lambda>_.
     bind_r (Packing.pack (out_vector out_permission_level (provided_approvals (snd apps)))) (\<lambda>packed_provided_approvals.
     bind_r (check_trx ctx (packed_transaction (snd row)) packed_provided_approvals) (\<lambda>res.
     bind_r (contract_assert res ''transaction authorization failed'') (\<lambda>_.
     Inr (erase_both (proposer, pname) (s\<lparr>sent := sent s @
        [\<lparr>df_sender_id = msig_sender_id proposer pname, df_payer = executer, df_trx = packed_transaction (snd row)\<rparr>]\<rparr>))))))))))"

datatype msig_action =
    Propose packed
  | Approve account_name account_name permission_level
  | Unapprove account_name account_name permission_level
  | Cancel account_name account_name account_name
  | Exec account_name account_name account_name

fun msig_apply :: "('k::linorder) msig_context \<Rightarrow> msig_action \<Rightarrow> msig_state \<Rightarrow> msig_state result" where
  "msig_apply ctx (Propose buffer) s = propose ctx buffer s"
| "msig_apply ctx (Approve proposer pname level) s = approve ctx proposer pname level s"
| "msig_apply ctx (Unapprove proposer pname level) s = unapprove ctx proposer pname level s"
| "msig_apply ctx (Cancel proposer pname canceler) s = cancel ctx proposer pname canceler s"
| "msig_apply ctx (Exec proposer pname executer) s = exec ctx proposer pname executer s"

definition msig_empty :: msig_state where
  "msig_empty = \<lparr>proposals = [], approvals = [], sent = []\<rparr>"

section \<open>What each action does\<close>

definition trx_of :: "msig_state \<Rightarrow> account_name \<times> account_name \<Rightarrow> packed option" where
  "trx_of s k = map_option (\<lambda>r. packed_transaction (snd r)) (tbl_find proposal_key k (proposals s))"

definition apps_of :: "msig_state \<Rightarrow> account_name \<times> account_name \<Rightarrow> (permission_level list \<times> permission_level list) option" where
  "apps_of s k = map_option (\<lambda>r. (requested_approvals (snd r), provided_approvals (snd r))) (tbl_find approvals_key k (approvals s))"

lemmas msig_run = bind_r_eq_Inr idx_get_def idx_modify_def idx_emplace_def tbl_create_def contract_assert_def eos_assert_def Let_def

text \<open>The node accepts these approvals for this transaction.\<close>

definition node_agrees :: "('k::linorder) msig_context \<Rightarrow> packed \<Rightarrow> permission_level list \<Rightarrow> bool" where
  "node_agrees ctx b qs \<longleftrightarrow> (\<exists>bytes. Packing.pack (out_vector out_permission_level qs) = Inr bytes \<and> check_trx ctx b bytes = Inr True)"

lemma propose_effect:
  assumes "propose ctx buffer s = Inr s'"
  obtains p n req pos h where "read_proposal buffer = Inr (p, n, req, pos, h)" "require_account ctx p = Inr ()"
    "trx_of s' = (trx_of s)((p, n) \<mapsto> drop pos buffer)" "apps_of s' = (apps_of s)((p, n) \<mapsto> (req, []))" "sent s' = sent s"
    "node_agrees ctx (drop pos buffer) req"
proof -
  obtain p n req pos h props apps where r: "read_proposal buffer = Inr (p, n, req, pos, h)" "require_account ctx p = Inr ()"
      "node_agrees ctx (drop pos buffer) req"
    and e: "idx_emplace proposal_key (p, \<lparr>proposal_name = n, packed_transaction = drop pos buffer\<rparr>) (proposals s) = Inr props"
      "idx_emplace approvals_key (p, \<lparr>app_proposal_name = n, requested_approvals = req, provided_approvals = []\<rparr>) (approvals s) = Inr apps"
    and s': "s' = s\<lparr>proposals := props, approvals := apps\<rparr>"
    using assms unfolding propose_def node_agrees_def by (auto simp: bind_r_eq_Inr contract_assert_def split: if_splits)
  have "trx_of s' = (trx_of s)((p, n) \<mapsto> drop pos buffer)"
    using e(1) unfolding s' by (auto simp: trx_of_def fun_eq_iff idx_emplace_def tbl_create_def proposal_key_def tbl_find_append split: option.splits)
  moreover have "apps_of s' = (apps_of s)((p, n) \<mapsto> (req, []))"
    using e(2) unfolding s' by (auto simp: apps_of_def fun_eq_iff idx_emplace_def tbl_create_def approvals_key_def tbl_find_append split: option.splits)
  ultimately show ?thesis using that r s' by simp
qed

lemma modify_apps:
  assumes "idx_modify approvals_key k (\<lambda>a. Inr (fst a, f (snd a))) (approvals s) = Inr rows"
    and "\<And>a. app_proposal_name (f a) = app_proposal_name a"
    and "\<And>a. (requested_approvals (f a), provided_approvals (f a)) = g (requested_approvals a, provided_approvals a)"
  shows "apps_of (s\<lparr>approvals := rows\<rparr>) = (apps_of s)(k := map_option g (apps_of s k))" "trx_of (s\<lparr>approvals := rows\<rparr>) = trx_of s"
proof -
  obtain r where r: "tbl_find approvals_key k (approvals s) = Some r" and k: "approvals_key (fst r, f (snd r)) = k"
    and rows: "rows = tbl_modify approvals_key k (\<lambda>_. (fst r, f (snd r))) (approvals s)"
    using assms(1) by (auto simp: idx_modify_def bind_r_eq_Inr contract_assert_def split: option.splits if_splits)
  show "apps_of (s\<lparr>approvals := rows\<rparr>) = (apps_of s)(k := map_option g (apps_of s k))"
    using r assms(3) [of "snd r"] by (auto simp: apps_of_def fun_eq_iff rows tbl_find_replace [where key = approvals_key, OF k])
  show "trx_of (s\<lparr>approvals := rows\<rparr>) = trx_of s" by (simp add: trx_of_def fun_eq_iff)
qed

lemma approve_effect:
  assumes "approve ctx p n level s = Inr s'"
  obtains req giv where "apps_of s (p, n) = Some (req, giv)" "level \<in> set req" "require_permission ctx level = Inr ()"
    "apps_of s' = (apps_of s)((p, n) \<mapsto> (remove1 level req, giv @ [level]))" "trx_of s' = trx_of s" "sent s' = sent s"
proof -
  obtain r rows where r: "tbl_find approvals_key (p, n) (approvals s) = Some r" "level \<in> set (requested_approvals (snd r))"
      "require_permission ctx level = Inr ()"
    and m: "idx_modify approvals_key (p, n) (\<lambda>a. Inr (fst a, (snd a)\<lparr>provided_approvals := provided_approvals (snd a) @ [level],
           requested_approvals := remove1 level (requested_approvals (snd a))\<rparr>)) (approvals s) = Inr rows"
    and s': "s' = s\<lparr>approvals := rows\<rparr>"
    using assms unfolding approve_def by (auto simp: bind_r_eq_Inr idx_get_def contract_assert_def option_to_result_def split: option.splits if_splits)
  note e = modify_apps [where g = "\<lambda>(req, giv). (remove1 level req, giv @ [level])", OF m]
  show ?thesis by (rule that) (use r e s' in \<open>simp_all add: apps_of_def\<close>)
qed

lemma unapprove_effect:
  assumes "unapprove ctx p n level s = Inr s'"
  obtains req giv where "apps_of s (p, n) = Some (req, giv)" "level \<in> set giv" "require_permission ctx level = Inr ()"
    "apps_of s' = (apps_of s)((p, n) \<mapsto> (req @ [level], remove1 level giv))" "trx_of s' = trx_of s" "sent s' = sent s"
proof -
  obtain r rows where r: "tbl_find approvals_key (p, n) (approvals s) = Some r" "level \<in> set (provided_approvals (snd r))"
      "require_permission ctx level = Inr ()"
    and m: "idx_modify approvals_key (p, n) (\<lambda>a. Inr (fst a, (snd a)\<lparr>requested_approvals := requested_approvals (snd a) @ [level],
           provided_approvals := remove1 level (provided_approvals (snd a))\<rparr>)) (approvals s) = Inr rows"
    and s': "s' = s\<lparr>approvals := rows\<rparr>"
    using assms unfolding unapprove_def by (auto simp: bind_r_eq_Inr idx_get_def contract_assert_def option_to_result_def split: option.splits if_splits)
  note e = modify_apps [where g = "\<lambda>(req, giv). (req @ [level], remove1 level giv)", OF m]
  show ?thesis by (rule that) (use r e s' in \<open>simp_all add: apps_of_def\<close>)
qed

lemma erase_both_effect: "trx_of (erase_both k s) = (trx_of s)(k := None)" "apps_of (erase_both k s) = (apps_of s)(k := None)"
    "sent (erase_both k s) = sent s"
  by (auto simp: erase_both_def trx_of_def apps_of_def fun_eq_iff tbl_find_remove)

lemma cancel_effect: "cancel ctx p n canceler s = Inr s' \<Longrightarrow> s' = erase_both (p, n) s"
  by (auto simp: cancel_def bind_r_eq_Inr)

lemma exec_effect:
  assumes "exec ctx p n executer s = Inr s'"
  obtains b req giv h perms where "trx_of s (p, n) = Some b" "apps_of s (p, n) = Some (req, giv)" "unpack in_header b = Inr h"
    "now ctx \<le> expiration h" "Packing.pack (out_vector out_permission_level giv) = Inr perms" "check_trx ctx b perms = Inr True"
    "s' = erase_both (p, n) (s\<lparr>sent := sent s @ [\<lparr>df_sender_id = msig_sender_id p n, df_payer = executer, df_trx = b\<rparr>]\<rparr>)"
    "require_account ctx executer = Inr ()"
proof -
  obtain row apps h perms where r: "tbl_find proposal_key (p, n) (proposals s) = Some row" "tbl_find approvals_key (p, n) (approvals s) = Some apps"
      "unpack in_header (packed_transaction (snd row)) = Inr h" "now ctx \<le> expiration h"
      "Packing.pack (out_vector out_permission_level (provided_approvals (snd apps))) = Inr perms"
      "check_trx ctx (packed_transaction (snd row)) perms = Inr True" "require_account ctx executer = Inr ()"
      "s' = erase_both (p, n) (s\<lparr>sent := sent s @ [\<lparr>df_sender_id = msig_sender_id p n, df_payer = executer, df_trx = packed_transaction (snd row)\<rparr>]\<rparr>)"
    using assms unfolding exec_def by (auto simp: bind_r_eq_Inr idx_get_def contract_assert_def option_to_result_def split: option.splits if_splits)
  show ?thesis by (rule that) (use r in \<open>simp_all add: trx_of_def apps_of_def\<close>)
qed

section \<open>Histories\<close>

type_synonym 'k msig_step = "'k msig_context \<times> msig_action"

text \<open>The data of an action fit into the memory of the contract's 32-bit machine.\<close>

fun action_fits :: "msig_action \<Rightarrow> bool" where
  "action_fits (Propose buffer) \<longleftrightarrow> length buffer < 2 ^ 31"
| "action_fits _ \<longleftrightarrow> True"

text \<open>The actions that were applied, the newest first.\<close>

inductive msig_history :: "('k::linorder) msig_step list \<Rightarrow> msig_state \<Rightarrow> bool" where
  msig_start: "msig_history [] msig_empty"
| msig_step: "msig_history h s \<Longrightarrow> msig_apply ctx act s = Inr s' \<Longrightarrow> action_fits act \<Longrightarrow> msig_history ((ctx, act) # h) s'"

text \<open>What the history says of a proposal: who proposed it, with which requested approvals and which transaction,
  and what happened since.\<close>

fun proposes :: "account_name \<times> account_name \<Rightarrow> msig_action \<Rightarrow> (permission_level list \<times> packed) option" where
  "proposes k (Propose buffer) =
     (case read_proposal buffer of
        Inr (p, n, req, pos, h) \<Rightarrow> if k = (p, n) then Some (req, drop pos buffer) else None
      | Inl _ \<Rightarrow> None)"
| "proposes k _ = None"

fun closes :: "account_name \<times> account_name \<Rightarrow> msig_action \<Rightarrow> bool" where
  "closes k (Cancel p n _) \<longleftrightarrow> k = (p, n)"
| "closes k (Exec p n _) \<longleftrightarrow> k = (p, n)"
| "closes k _ \<longleftrightarrow> False"

fun current :: "account_name \<times> account_name \<Rightarrow> 'k msig_step list
    \<Rightarrow> ('k msig_context \<times> permission_level list \<times> packed \<times> 'k msig_step list) option" where
  "current k [] = None"
| "current k ((ctx, act) # h) =
     (case proposes k act of
        Some (req, b) \<Rightarrow> Some (ctx, req, b, [])
      | None \<Rightarrow> if closes k act then None else map_option (\<lambda>(c, req, b, l). (c, req, b, (ctx, act) # l)) (current k h))"

definition approvals_in :: "'k msig_step list \<Rightarrow> account_name \<times> account_name \<Rightarrow> permission_level \<Rightarrow> nat" where
  "approvals_in l k q = length (filter (\<lambda>(_, a). a = Approve (fst k) (snd k) q) l)"

definition withdrawals_in :: "'k msig_step list \<Rightarrow> account_name \<times> account_name \<Rightarrow> permission_level \<Rightarrow> nat" where
  "withdrawals_in l k q = length (filter (\<lambda>(_, a). a = Unapprove (fst k) (snd k) q) l)"

text \<open>Every approval and every withdrawal was made with the authority of the permission itself.\<close>

fun self_authorized :: "'k msig_step \<Rightarrow> bool" where
  "self_authorized (ctx, Approve _ _ q) \<longleftrightarrow> require_permission ctx q = Inr ()"
| "self_authorized (ctx, Unapprove _ _ q) \<longleftrightarrow> require_permission ctx q = Inr ()"
| "self_authorized (ctx, _) \<longleftrightarrow> True"

definition tracks :: "('k::linorder) msig_step list \<Rightarrow> msig_state \<Rightarrow> account_name \<times> account_name \<Rightarrow> bool" where
  "tracks h s k \<longleftrightarrow> (case current k h of
     None \<Rightarrow> trx_of s k = None \<and> apps_of s k = None
   | Some (c, r, b, l) \<Rightarrow> trx_of s k = Some b \<and> length b < 2 ^ 31 \<and> 16 * length r + 5 < 2 ^ 31 \<and> require_account c (fst k) = Inr ()
       \<and> list_all self_authorized l \<and> node_agrees c b r
       \<and> (\<exists>req giv. apps_of s k = Some (req, giv) \<and> mset req + mset giv = mset r
            \<and> (\<forall>q. count (mset giv) q + withdrawals_in l k q = approvals_in l k q)))"

section \<open>Sizes\<close>

lemma prim_pos: "in_prim n d = Inr (v, d') \<Longrightarrow> ds_pos d' = ds_pos d + n"
  by (auto simp: in_prim_def map_d_def bind_d_def ret_d_def ds_read_def ds_skip_def bind_r_eq_Inr split: if_splits)

lemma level_pos: "in_permission_level d = Inr (v, d') \<Longrightarrow> ds_pos d' = ds_pos d + 16"
  by (auto simp: in_permission_level_def in_pair_def map_d_def bind_d_def ret_d_def bind_r_eq_Inr dest!: prim_pos)

lemma levels_pos: "in_many in_permission_level n d = Inr (vs, d') \<Longrightarrow> ds_pos d' = ds_pos d + 16 * length vs"
proof (induction n arbitrary: d vs d')
  case (Suc n)
  then obtain v d1 ws where "in_permission_level d = Inr (v, d1)" "in_many in_permission_level n d1 = Inr (ws, d')" "vs = v # ws"
    by (auto simp: bind_d_def map_d_def ret_d_def bind_r_eq_Inr)
  then show ?case using level_pos Suc.IH by fastforce
qed (simp add: ret_d_def)

lemma gives_run: "gives m P \<Longrightarrow> ds_ok d \<Longrightarrow> m d = Inr (x, d') \<Longrightarrow> ds_ok d' \<and> ds_buf d' = ds_buf d \<and> ds_pos d \<le> ds_pos d'"
  unfolding gives_def by blast

lemma read_proposal_sizes:
  assumes "read_proposal buffer = Inr (p, n, req, pos, h)" "length buffer < 2 ^ 31"
  shows "16 * length req + 5 < 2 ^ 31"
proof -
  obtain v1 d1 v2 d2 k d3 d4 where r: "in_prim 8 (ds_over buffer) = Inr (v1, d1)" "in_prim 8 d1 = Inr (v2, d2)"
      "in_uint d2 = Inr (k, d3)" "in_many in_permission_level k d3 = Inr (req, d4)"
    using assms(1) unfolding read_proposal_def by (auto simp: bind_r_eq_Inr Let_def in_vector_def bind_d_def)
  have ok: "ds_ok (ds_over buffer)" using assms(2) by (simp add: ds_ok_def ds_over_def)
  have 1: "ds_ok d1" "ds_buf d1 = buffer" using gives_run [OF prim.in_rng ok r(1)] by (simp_all add: ds_over_def)
  have 2: "ds_ok d2" "ds_buf d2 = buffer" using gives_run [OF prim.in_rng 1(1) r(2)] 1 by simp_all
  have 3: "ds_ok d3" "ds_buf d3 = buffer" "ds_pos d2 \<le> ds_pos d3" using gives_run [OF uint.in_rng 2(1) r(3)] 2 by simp_all
  have 4: "ds_ok d4" "ds_buf d4 = buffer" using gives_run [OF perm.many_gives 3(1) r(4)] 3 by simp_all
  have "ds_pos d2 = 16" using prim_pos [OF r(1)] prim_pos [OF r(2)] by (simp add: ds_over_def)
  then have "16 + 16 * length req \<le> length buffer" using levels_pos [OF r(4)] 3(3) 4 by (simp add: ds_ok_def)
  then show ?thesis using assms(2) by simp
qed

section \<open>The tables follow the history\<close>

lemma tracks_None: "current k h = None \<Longrightarrow> tracks h s k \<longleftrightarrow> trx_of s k = None \<and> apps_of s k = None"
  by (simp add: tracks_def)

lemma tracks_frame:
  assumes "tracks h s k" "proposes k act = None" "\<not> closes k act" "self_authorized (ctx, act)"
    and "trx_of s' k = trx_of s k" "apps_of s' k = apps_of s k"
    and "\<And>q. act \<noteq> Approve (fst k) (snd k) q" "\<And>q. act \<noteq> Unapprove (fst k) (snd k) q"
  shows "tracks ((ctx, act) # h) s' k"
  using assms by (auto simp: tracks_def approvals_in_def withdrawals_in_def split: option.splits)

lemma tracks_vote:
  assumes "tracks h s k" "proposes k act = None" "\<not> closes k act" "self_authorized (ctx, act)"
    and "trx_of s' k = trx_of s k" "apps_of s k = Some (req, giv)" "apps_of s' k = Some (req', giv')"
    and "mset req' + mset giv' = mset req + mset giv"
    and "\<And>l q. count (mset giv) q + withdrawals_in l k q = approvals_in l k q \<Longrightarrow>
      count (mset giv') q + withdrawals_in ((ctx, act) # l) k q = approvals_in ((ctx, act) # l) k q"
  shows "tracks ((ctx, act) # h) s' k"
proof (cases "current k h")
  case None
  then show ?thesis using assms(1,6) by (simp add: tracks_def)
next
  case (Some x)
  obtain c r b l where x: "x = (c, r, b, l)" by (cases x)
  show ?thesis using assms Some unfolding x tracks_def by auto
qed

lemma tracks_propose:
  assumes t: "\<And>k. tracks h s k" and run: "propose ctx buffer s = Inr s'" and fits: "length buffer < 2 ^ 31"
  shows "tracks ((ctx, Propose buffer) # h) s' k"
proof -
  obtain p n req pos hd where e: "read_proposal buffer = Inr (p, n, req, pos, hd)" "require_account ctx p = Inr ()"
    "trx_of s' = (trx_of s)((p, n) \<mapsto> drop pos buffer)" "apps_of s' = (apps_of s)((p, n) \<mapsto> (req, []))" "node_agrees ctx (drop pos buffer) req"
    using propose_effect [OF run] by metis
  show ?thesis
  proof (cases "k = (p, n)")
    case True
    have "16 * length req + 5 < 2 ^ 31" using read_proposal_sizes [OF e(1)] fits by simp
    then show ?thesis using True e fits unfolding tracks_def by (simp add: approvals_in_def withdrawals_in_def)
  next
    case False
    then show ?thesis by (intro tracks_frame [OF t]) (use e in auto)
  qed
qed

lemma tracks_approve:
  assumes t: "\<And>k. tracks h s k" and run: "approve ctx p n q s = Inr s'"
  shows "tracks ((ctx, Approve p n q) # h) s' k"
proof -
  obtain req giv where e: "apps_of s (p, n) = Some (req, giv)" "q \<in> set req" "require_permission ctx q = Inr ()"
    "apps_of s' = (apps_of s)((p, n) \<mapsto> (remove1 q req, giv @ [q]))" "trx_of s' = trx_of s" using approve_effect [OF run] by metis
  show ?thesis
  proof (cases "k = (p, n)")
    case True
    show ?thesis
      by (rule tracks_vote [OF t, where req = req and giv = giv and req' = "remove1 q req" and giv' = "giv @ [q]"])
        (use True e in \<open>auto simp: approvals_in_def withdrawals_in_def\<close>)
  next
    case False
    then show ?thesis by (intro tracks_frame [OF t]) (use e in auto)
  qed
qed

lemma tracks_unapprove:
  assumes t: "\<And>k. tracks h s k" and run: "unapprove ctx p n q s = Inr s'"
  shows "tracks ((ctx, Unapprove p n q) # h) s' k"
proof -
  obtain req giv where e: "apps_of s (p, n) = Some (req, giv)" "q \<in> set giv" "require_permission ctx q = Inr ()"
    "apps_of s' = (apps_of s)((p, n) \<mapsto> (req @ [q], remove1 q giv))" "trx_of s' = trx_of s" using unapprove_effect [OF run] by metis
  show ?thesis
  proof (cases "k = (p, n)")
    case True
    obtain m where m: "count (mset giv) q = Suc m" using e(2) by (metis count_greater_zero_iff gr0_implies_Suc set_mset_mset)
    show ?thesis
      by (rule tracks_vote [OF t, where req = req and giv = giv and req' = "req @ [q]" and giv' = "remove1 q giv"])
        (use True e in \<open>auto simp: approvals_in_def withdrawals_in_def m\<close>)
  next
    case False
    then show ?thesis by (intro tracks_frame [OF t]) (use e in auto)
  qed
qed

lemma tracks_cancel:
  assumes t: "\<And>k. tracks h s k" and run: "cancel ctx p n c s = Inr s'"
  shows "tracks ((ctx, Cancel p n c) # h) s' k"
proof -
  have s': "s' = erase_both (p, n) s" using cancel_effect [OF run] .
  show ?thesis
  proof (cases "k = (p, n)")
    case True
    then show ?thesis by (simp add: tracks_def s' erase_both_effect)
  next
    case False
    then show ?thesis unfolding s' by (intro tracks_frame [OF t]) (auto simp: erase_both_effect)
  qed
qed

lemma tracks_exec:
  assumes t: "\<And>k. tracks h s k" and run: "exec ctx p n x s = Inr s'"
  shows "tracks ((ctx, Exec p n x) # h) s' k"
proof -
  obtain b where s': "s' = erase_both (p, n) (s\<lparr>sent := sent s @ [\<lparr>df_sender_id = msig_sender_id p n, df_payer = x, df_trx = b\<rparr>]\<rparr>)"
    using exec_effect [OF run] by metis
  have same: "trx_of (s\<lparr>sent := d\<rparr>) = trx_of s" "apps_of (s\<lparr>sent := d\<rparr>) = apps_of s" for d by (auto simp: trx_of_def apps_of_def fun_eq_iff)
  show ?thesis
  proof (cases "k = (p, n)")
    case True
    then show ?thesis by (simp add: tracks_def s' erase_both_effect)
  next
    case False
    then show ?thesis unfolding s' by (intro tracks_frame [OF t]) (auto simp: erase_both_effect same)
  qed
qed

lemma tracks_step:
  assumes "\<And>k. tracks h s k" and "msig_apply ctx act s = Inr s'" and "action_fits act"
  shows "tracks ((ctx, act) # h) s' k"
  using assms(2,3)
  by (cases act) (simp_all add: tracks_propose [OF assms(1)] tracks_approve [OF assms(1)] tracks_unapprove [OF assms(1)]
      tracks_cancel [OF assms(1)] tracks_exec [OF assms(1)])

lemma history_tracks: "msig_history h s \<Longrightarrow> tracks h s k"
proof (induction arbitrary: k rule: msig_history.induct)
  case msig_start
  show ?case by (simp add: tracks_def trx_of_def apps_of_def msig_empty_def)
next
  case (msig_step h s ctx act s')
  then show ?case using tracks_step by blast
qed

section \<open>What the node is asked\<close>

lemma level_length: "length (concat (out_permission_level q)) = 16"
  by (simp add: out_permission_level_def out_pair_def out_prim_def)

lemma levels_length: "length (concat (concat (map out_permission_level qs))) = 16 * length qs"
  by (induction qs) (simp_all add: level_length)

lemma out_uint_nonempty: "concat (out_uint k) \<noteq> []"
  by (subst out_uint.simps) (simp add: Let_def)

lemma levels_packed_length: "16 * length qs + 5 < 2 ^ 31 \<Longrightarrow> length (concat (out_vector out_permission_level qs)) < 2 ^ 31"
proof -
  assume l: "16 * length qs + 5 < 2 ^ 31"
  have "length (concat (out_uint (length qs))) \<le> 5" using l by (intro varint_length) auto
  then show ?thesis using l unfolding out_vector_def concat_append length_append levels_length by (simp add: u32_def)
qed

lemma over_limit_refused:
  assumes "max_num_array_elements < length qs" "length qs < 2 ^ 32" "length (concat (out_vector out_permission_level qs)) < 2 ^ 31"
  shows "unpack (fc_flat_set fc_permission_level) (concat (out_vector out_permission_level qs)) = Inl assert_exception"
proof -
  let ?b = "concat (out_vector out_permission_level qs)"
  have "?b = concat (out_uint (length qs)) @ concat (concat (map out_permission_level qs))"
    using assms(2) by (simp add: out_vector_def u32_def)
  then have "ahead (concat (out_uint (length qs))) (ds_over ?b)" using assms(3) by (simp add: ahead_def ds_ok_def ds_over_def)
  then obtain d where "fc_uint (ds_over ?b) = Inr (length qs, d)" using fuint.in_out [OF assms(2)] unfolding takes_def by blast
  then show ?thesis using assms(1) by (simp add: unpack_def fc_flat_set_def bind_d_def fc_assert_def)
qed

text \<open>The node sees exactly the approvals that the contract packed.\<close>

lemma unpack_levels: "unpack_provided_permissions (concat (out_vector out_permission_level qs))
    = unpack (fc_flat_set fc_permission_level) (concat (out_vector out_permission_level qs))"
proof -
  have "concat (out_vector out_permission_level qs) \<noteq> []" using out_uint_nonempty by (simp add: out_vector_def)
  then show ?thesis unfolding unpack_provided_permissions_def by (simp only: if_False)
qed

lemma provided_accepted:
  assumes "16 * length qs + 5 < 2 ^ 31" "length qs \<le> max_num_array_elements"
  shows "unpack_provided_permissions (concat (out_vector out_permission_level qs)) = Inr (sorted_list_of_set (set qs))"
proof -
  let ?b = "concat (out_vector out_permission_level qs)"
  have "takes (fc_flat_set fc_permission_level) ?b (sorted_list_of_set (set qs))"
    by (rule fperm.fc_flat_set_takes [OF assms(2)]) (simp add: list_all_iff)
  moreover have "ahead ?b (ds_over ?b)" using levels_packed_length [OF assms(1)] by (simp add: ahead_def ds_ok_def ds_over_def)
  ultimately show ?thesis unfolding unpack_levels unpack_def by (auto simp: takes_def)
qed

lemma provided_within_limit:
  assumes "16 * length qs + 5 < 2 ^ 31" "Packing.pack (out_vector out_permission_level qs) = Inr bytes"
    and "unpack_provided_permissions bytes = Inr perms"
  shows "length qs \<le> max_num_array_elements"
proof (rule ccontr)
  assume "\<not> length qs \<le> max_num_array_elements"
  note l = levels_packed_length [OF assms(1)]
  have b: "bytes = concat (out_vector out_permission_level qs)" using pack_exact [OF l] assms(2) by simp
  have "unpack_provided_permissions bytes = Inl assert_exception"
    unfolding b unpack_levels by (rule over_limit_refused [OF _ _ l]) (use \<open>\<not> length qs \<le> max_num_array_elements\<close> assms(1) in auto)
  then show False using assms(3) by simp
qed

lemma provided_to_node:
  assumes "16 * length qs + 5 < 2 ^ 31" "Packing.pack (out_vector out_permission_level qs) = Inr bytes"
    and "unpack_provided_permissions bytes = Inr perms"
  shows "perms = sorted_list_of_set (set qs)"
proof -
  have "bytes = concat (out_vector out_permission_level qs)" using pack_exact [OF levels_packed_length [OF assms(1)]] assms(2) by simp
  then show ?thesis using provided_accepted [OF assms(1) provided_within_limit [OF assms]] assms(3) by simp
qed

lemma node_agrees_set:
  assumes "node_agrees c b r" "set giv = set r" "16 * length r + 5 < 2 ^ 31" "length giv = length r"
  shows "node_agrees c b giv"
proof -
  let ?o = "out_vector out_permission_level"
  obtain bytes where n: "Packing.pack (?o r) = Inr bytes" "check_trx c b bytes = Inr True" using assms(1) by (auto simp: node_agrees_def)
  obtain perms where p: "unpack_provided_permissions bytes = Inr perms"
    using n(2) by (auto simp: check_trx_def check_transaction_authorization_def bind_r_eq_Inr)
  have g: "16 * length giv + 5 < 2 ^ 31" using assms(3,4) by simp
  have pg: "Packing.pack (?o giv) = Inr (concat (?o giv))" by (rule pack_exact [OF levels_packed_length [OF g]])
  have "length r \<le> max_num_array_elements" by (rule provided_within_limit [OF assms(3) n(1) p])
  then have "unpack_provided_permissions (concat (?o giv)) = Inr (sorted_list_of_set (set giv))"
    using provided_accepted [OF g] assms(4) by simp
  then have "unpack_provided_permissions (concat (?o giv)) = unpack_provided_permissions bytes"
    using provided_to_node [OF assms(3) n(1) p] p assms(2) by simp
  then have "check_trx c b (concat (?o giv)) = Inr True"
    using n(2) by (simp add: check_trx_def check_transaction_authorization_def unpack_provided_keys_def)
  then show ?thesis using pg by (auto simp: node_agrees_def)
qed

text \<open>
  What a check of a transaction reads of the node's tables, unless an action cancels a delayed transaction: permissions,
  links and two limits.  The time, when permissions were last used and the delayed transactions do not matter.
\<close>

definition same_rules :: "'k auth_db \<Rightarrow> 'k auth_db \<Rightarrow> bool" where
  "same_rules db db' \<longleftrightarrow> permissions db' = permissions db \<and> links db' = links db
     \<and> max_transaction_delay db' = max_transaction_delay db \<and> max_authority_depth db' = max_authority_depth db"

definition cancels :: "'d action \<Rightarrow> bool" where
  "cancels act \<longleftrightarrow> act_account act = system_account_name \<and> act_name act = canceldelay_name"

lemma same_rules_lookups:
  assumes "same_rules db db'"
  shows "find_permission level db' = find_permission level db" "get_permission level db' = get_permission level db"
    and "require_satisfies a m db' = require_satisfies a m db" "lookup_linked_permission x y z db' = lookup_linked_permission x y z db"
    and "lookup_minimum_permission x y z db' = lookup_minimum_permission x y z db"
    and "make_auth_checker ks perms db' = make_auth_checker ks perms db" "effective_delay d db' = effective_delay d db"
proof -
  have e: "permissions db' = permissions db" "links db' = links db" "max_transaction_delay db' = max_transaction_delay db"
      "max_authority_depth db' = max_authority_depth db"
    using assms by (simp_all add: same_rules_def)
  show "find_permission level db' = find_permission level db" "get_permission level db' = get_permission level db"
    "require_satisfies a m db' = require_satisfies a m db" "lookup_linked_permission x y z db' = lookup_linked_permission x y z db"
    "lookup_minimum_permission x y z db' = lookup_minimum_permission x y z db"
    "make_auth_checker ks perms db' = make_auth_checker ks perms db" "effective_delay d db' = effective_delay d db"
    unfolding find_permission_def get_permission_def require_satisfies_def lookup_linked_permission_def lookup_minimum_permission_def
      make_auth_checker_def effective_delay_def e by (rule refl)+
qed

lemma same_rules_action:
  assumes "same_rules db db'" "\<not> cancels act"
  shows "check_action nd delay db' act m = check_action nd delay db act m"
proof -
  note s = same_rules_lookups [OF assms(1)]
  have n: "check_updateauth_authorization u as db' = check_updateauth_authorization u as db"
    "check_deleteauth_authorization d as db' = check_deleteauth_authorization d as db"
    "check_linkauth_authorization l as db' = check_linkauth_authorization l as db"
    "check_unlinkauth_authorization ul as db' = check_unlinkauth_authorization ul as db" for u d l ul as
    unfolding check_updateauth_authorization_def check_deleteauth_authorization_def check_linkauth_authorization_def
      check_unlinkauth_authorization_def s by (rule refl)+
  have "check_native nd act delay db' = check_native nd act delay db"
    using assms(2) unfolding check_native_def n cancels_def by simp
  moreover have "check_declared special_case act d db' = check_declared special_case act d db" for special_case d
    unfolding check_declared_def [abs_def] check_relevant_def s by (rule refl)
  ultimately show ?thesis unfolding check_action_def by simp
qed

lemma same_rules_check:
  assumes "same_rules db db'" "list_all (\<lambda>act. \<not> cancels act) acts"
  shows "check_authorization nd acts ks perms delay unused db' = check_authorization nd acts ks perms delay unused db"
proof -
  have "fold_r (check_action nd d db') acts m = fold_r (check_action nd d db) acts m" for d m
    using assms(2) by (induction acts arbitrary: m) (auto simp: same_rules_action [OF assms(1)] bind_r_def split: sum.splits)
  then show ?thesis by (simp add: check_authorization_def Let_def same_rules_lookups [OF assms(1)])
qed

lemma node_agrees_later:
  assumes "node_agrees c b r" "same_rules (auth_state c) (auth_state ctx)" "natives ctx = natives c"
    and "\<And>t. unpack fc_trx b = Inr t \<Longrightarrow> list_all (\<lambda>act. \<not> cancels act) (tx_actions t)"
  shows "node_agrees ctx b r"
proof -
  have "check_trx ctx b bytes = check_trx c b bytes" for bytes
    using assms(4) by (cases "unpack fc_trx b")
      (simp_all add: check_trx_def check_transaction_authorization_def unpack_provided_keys_def assms(3) same_rules_check [OF assms(2)])
  then show ?thesis using assms(1) by (simp add: node_agrees_def)
qed

text \<open>The expiration that the contract reads is the node's.\<close>

lemma header_to_node:
  assumes "length b < 2 ^ 31" "unpack in_header b = Inr h" "unpack fc_trx b = Inr t"
  shows "expiration h = tx_expiration t"
proof -
  obtain d where h: "in_header (ds_over b) = Inr (h, d)" using assms(2) by (auto simp: unpack_def bind_r_eq_Inr)
  obtain d1 hd d2 cfa acts exts where n: "fc_header (ds_over b) = Inr (hd, d1)"
    "t = node_header.extend hd \<lparr>tx_context_free_actions = cfa, tx_actions = acts, tx_extensions = exts\<rparr>"
    using assms(3) by (auto simp: unpack_def fc_trx_def bind_d_def bind_r_eq_Inr ret_d_def)
  have "ds_ok (ds_over b)" using assms(1) by (simp add: ds_ok_def ds_over_def)
  then have "h = contract_of_header hd" using agree_header h n(1) unfolding agree_def by fastforce
  then show ?thesis unfolding n(2) by (simp add: contract_of_header_def node_header.defs)
qed

text \<open>What the approvals have to authorize: each declared permission of each action.\<close>

definition actions_authorized :: "('k, 'd) native_data \<Rightarrow> 'k auth_db \<Rightarrow> permission_level list \<Rightarrow> int \<Rightarrow> 'd action list \<Rightarrow> bool" where
  "actions_authorized nd db perms delay acts \<longleftrightarrow> (\<forall>act\<in>set acts. \<exists>special_case d.
     check_native nd act (effective_delay delay db) db = Inr (special_case, d)
     \<and> (\<forall>q\<in>set (authorization act). entitled (make_auth_checker [] perms db) d q \<and> (\<not> special_case \<longrightarrow> relevant db act q)))"

lemma check_authorization_actions:
  assumes "forest_ok db" "check_authorization nd acts [] perms delay allow_unused db = Inr ()"
  shows "actions_authorized nd db perms delay acts"
  unfolding actions_authorized_def using check_authorization_entitles [OF assms] by blast

definition trx_authorized :: "('k, packed) native_data \<Rightarrow> 'k auth_db \<Rightarrow> permission_level list \<Rightarrow> node_trx \<Rightarrow> bool" where
  "trx_authorized nd db perms t \<longleftrightarrow> actions_authorized nd db perms (int (tx_delay_sec t) * 1000000) (tx_actions t)"

lemma check_trx_authorizes:
  assumes "check_trx ctx b bytes = Inr True" "forest_ok (auth_state ctx)"
  obtains t perms where "unpack fc_trx b = Inr t" "unpack_provided_permissions bytes = Inr perms"
    "trx_authorized (natives ctx) (auth_state ctx) perms t"
proof -
  let ?check = "\<lambda>t perms. check_authorization (natives ctx) (tx_actions t) [] perms (int (tx_delay_sec t) * 1000000) False (auth_state ctx)"
  obtain t perms where u: "unpack fc_trx b = Inr t" "unpack_provided_permissions bytes = Inr perms"
    and r: "(case ?check t perms of Inr _ \<Rightarrow> Inr True | Inl e \<Rightarrow> if is_authorization_exception e then Inr False else Inl e) = Inr True"
    using assms(1) unfolding check_trx_def check_transaction_authorization_def unpack_provided_keys_def by (auto simp only: bind_r_eq_Inr if_True refl sum.inject)
  have c: "?check t perms = Inr ()" using r by (cases "?check t perms") (simp_all split: if_splits)
  show ?thesis by (rule that [OF u]) (unfold trx_authorized_def, rule check_authorization_actions [OF assms(2) c])
qed

text \<open>An approval that is left over was asked for and has been given more often than withdrawn.\<close>

lemma provided_backed:
  assumes "mset req + mset giv = mset r" "\<forall>q. count (mset giv) q + withdrawals_in l k q = approvals_in l k q" "q \<in> set giv"
  shows "q \<in> set r \<and> withdrawals_in l k q < approvals_in l k q"
proof -
  have "set_mset (mset req + mset giv) = set r" using assms(1) by simp
  moreover have "0 < count (mset giv) q" using assms(3) by simp
  ultimately show ?thesis using assms(2,3) by (metis UnCI less_add_same_cancel2 set_mset_mset set_mset_union)
qed

section \<open>Properties\<close>

text \<open>C7. A multi-signature proposal is executed only as proposed and as approved.  In any history of the contract's
  actions, when \<open>exec\<close> succeeds: the proposal is the open one under that name, put there with the proposer's
  authority and neither cancelled nor executed since; the approvals handed to the node are ones that the proposal asked
  for, each given more often than withdrawn since then, always with the authority of that very permission;
  the transaction sent is byte for byte the one proposed, the node reads it as a transaction that has not expired,
  and each declared permission of each of its actions is entitled by these approvals alone, without any key; the proposal is
  gone afterwards and every other proposal is as it was.\<close>

theorem multisig_executes_only_approved:
  assumes "msig_history h s" "exec ctx proposer pname executer s = Inr s'" "forest_ok (auth_state ctx)"
  shows "\<exists>c r b l giv t. current (proposer, pname) h = Some (c, r, b, l) \<and> require_account c proposer = Inr ()
     \<and> (\<forall>q\<in>set giv. q \<in> set r \<and> withdrawals_in l (proposer, pname) q < approvals_in l (proposer, pname) q) \<and> list_all self_authorized l
     \<and> sent s' = sent s @ [\<lparr>df_sender_id = msig_sender_id proposer pname, df_payer = executer, df_trx = b\<rparr>]
     \<and> unpack fc_trx b = Inr t \<and> now ctx \<le> tx_expiration t
     \<and> trx_authorized (natives ctx) (auth_state ctx) (sorted_list_of_set (set giv)) t
     \<and> trx_of s' = (trx_of s)((proposer, pname) := None) \<and> apps_of s' = (apps_of s)((proposer, pname) := None)"
proof -
  let ?k = "(proposer, pname)"
  obtain b req giv hd bytes where e: "trx_of s ?k = Some b" "apps_of s ?k = Some (req, giv)" "unpack in_header b = Inr hd"
    "now ctx \<le> expiration hd" "Packing.pack (out_vector out_permission_level giv) = Inr bytes" "check_trx ctx b bytes = Inr True"
    and s': "s' = erase_both ?k (s\<lparr>sent := sent s @ [\<lparr>df_sender_id = msig_sender_id proposer pname, df_payer = executer, df_trx = b\<rparr>]\<rparr>)"
    using exec_effect [OF assms(2)] by metis
  have t: "tracks h s ?k" by (rule history_tracks [OF assms(1)])
  obtain c r l where cur: "current ?k h = Some (c, r, b, l)" using t e(1) by (auto simp: tracks_def split: option.splits)
  then have i: "length b < 2 ^ 31" "16 * length r + 5 < 2 ^ 31" "require_account c proposer = Inr ()" "list_all self_authorized l"
    "mset req + mset giv = mset r" "\<forall>q. count (mset giv) q + withdrawals_in l ?k q = approvals_in l ?k q"
    using t e(2) by (auto simp: tracks_def)
  obtain u perms where n: "unpack fc_trx b = Inr u" "unpack_provided_permissions bytes = Inr perms"
    "trx_authorized (natives ctx) (auth_state ctx) perms u" using check_trx_authorizes [OF e(6) assms(3)] by metis
  have "length req + length giv = length r" using arg_cong [OF i(5), of size] by simp
  then have "16 * length giv + 5 < 2 ^ 31" using i(2) by linarith
  then have p: "perms = sorted_list_of_set (set giv)" by (rule provided_to_node [OF _ e(5) n(2)])
  have x: "now ctx \<le> tx_expiration u" using e(4) header_to_node [OF i(1) e(3) n(1)] by simp
  have q: "\<forall>q\<in>set giv. q \<in> set r \<and> withdrawals_in l ?k q < approvals_in l ?k q" using provided_backed [OF i(5,6)] by blast
  have o: "sent s' = sent s @ [\<lparr>df_sender_id = msig_sender_id proposer pname, df_payer = executer, df_trx = b\<rparr>]"
    "trx_of s' = (trx_of s)(?k := None)" "apps_of s' = (apps_of s)(?k := None)"
    unfolding s' erase_both_effect by (simp_all add: trx_of_def apps_of_def fun_eq_iff)
  show ?thesis using cur i(3,4) q o n(1) x n(3) unfolding p by blast
qed

text \<open>Account 7 proposes a transaction under its active permission, approves it and executes it.\<close>

definition lv :: permission_level where "lv = permission_level 7 3617214756542218240"

definition demo_trx :: packed where
  "demo_trx = [232, 3, 0, 0, 0, 0, 0, 0, 0, 0, 0, 0, 0, 0, 1, 8, 0, 0, 0, 0, 0, 0, 0, 9, 0, 0, 0, 0, 0, 0, 0,
     1, 7, 0, 0, 0, 0, 0, 0, 0, 0, 0, 0, 0, 168, 237, 50, 50, 0, 0]"

definition demo_levels :: packed where
  "demo_levels = [1, 7, 0, 0, 0, 0, 0, 0, 0, 0, 0, 0, 0, 168, 237, 50, 50]"

definition demo_buffer :: packed where
  "demo_buffer = [7, 0, 0, 0, 0, 0, 0, 0, 5, 0, 0, 0, 0, 0, 0, 0] @ demo_levels @ demo_trx"

definition no_natives :: "(nat, packed) native_data" where
  "no_natives = \<lparr>as_updateauth = (\<lambda>_. Inl transaction_exception), as_deleteauth = (\<lambda>_. Inl transaction_exception),
     as_linkauth = (\<lambda>_. Inl transaction_exception), as_unlinkauth = (\<lambda>_. Inl transaction_exception),
     as_canceldelay = (\<lambda>_. Inl transaction_exception)\<rparr>"

definition demo_ctx :: "nat msig_context" where
  "demo_ctx = \<lparr>act_auth = [lv], now = 500, auth_state = one_account, fc_key = (\<lambda>_. Inl parse_error), natives = no_natives\<rparr>"

lemma demo_packed: "Packing.pack (out_vector out_permission_level [lv]) = Inr demo_levels"
proof -
  have "concat (out_vector out_permission_level [lv]) = demo_levels" by (simp add: out_eval lv_def demo_levels_def)
  moreover have "length demo_levels < 2 ^ 31" by (simp add: demo_levels_def)
  ultimately show ?thesis using pack_exact [of "out_vector out_permission_level [lv]"] by simp
qed

lemma demo_read: "read_proposal demo_buffer = Inr (7, 5, [lv], 33, \<lparr>expiration = 1000, ref_block_num = 0, ref_block_prefix = 0,
    net_usage_words = 0, max_cpu_usage_ms = 0, delay_sec = 0\<rparr>)"
  by (simp add: read_proposal_def demo_buffer_def demo_levels_def demo_trx_def lv_def in_eval in_varint.simps ds_tellp_def in_permission_level_def
      in_pair_def)

lemma demo_header: "unpack in_header demo_trx = Inr \<lparr>expiration = 1000, ref_block_num = 0, ref_block_prefix = 0,
    net_usage_words = 0, max_cpu_usage_ms = 0, delay_sec = 0\<rparr>"
  by (simp add: unpack_def demo_trx_def in_eval in_varint.simps)

lemma demo_node_trx: "unpack fc_trx demo_trx = Inr \<lparr>tx_expiration = 1000, tx_ref_block_num = 0, tx_ref_block_prefix = 0,
    max_net_usage_words = 0, tx_max_cpu_usage_ms = 0, tx_delay_sec = 0, tx_context_free_actions = [],
    tx_actions = [\<lparr>act_account = 8, act_name = 9, authorization = [lv], data = []\<rparr>], tx_extensions = []\<rparr>"
  by (simp add: unpack_def demo_trx_def lv_def fc_eval fc_varint.simps fc_action_def fc_permission_level_def fc_bytes_def
      max_size_of_byte_arrays_def)

lemma demo_node_levels: "unpack_provided_permissions demo_levels = Inr [lv]"
  by (simp add: unpack_provided_permissions_def unpack_def demo_levels_def lv_def fc_flat_set_def fc_eval fc_varint.simps
      fc_permission_level_def)

lemma demo_check: "check_trx demo_ctx demo_trx demo_levels = Inr True"
proof -
  have "check_authorization no_natives [\<lparr>act_account = 8, act_name = 9, authorization = [lv], data = []\<rparr>] [] [lv] 0 False one_account = Inr ()"
    by (simp add: authorization_run checker_run standard_names lv_def)
  then show ?thesis
    by (simp add: check_trx_def check_transaction_authorization_def demo_node_trx demo_node_levels unpack_provided_keys_def demo_ctx_def)
qed

definition proposed_state :: msig_state where
  "proposed_state = \<lparr>proposals = [(7, \<lparr>proposal_name = 5, packed_transaction = demo_trx\<rparr>)],
     approvals = [(7, \<lparr>app_proposal_name = 5, requested_approvals = [lv], provided_approvals = []\<rparr>)], sent = []\<rparr>"

definition approved_state :: msig_state where
  "approved_state = \<lparr>proposals = [(7, \<lparr>proposal_name = 5, packed_transaction = demo_trx\<rparr>)],
     approvals = [(7, \<lparr>app_proposal_name = 5, requested_approvals = [], provided_approvals = [lv]\<rparr>)], sent = []\<rparr>"

lemma demo_dropped: "drop 33 demo_buffer = demo_trx"
  by (simp add: demo_buffer_def demo_levels_def)

lemma demo_authority: "require_account demo_ctx 7 = Inr ()" "require_permission demo_ctx lv = Inr ()" "now demo_ctx = 500"
  by (simp_all add: require_account_def require_permission_def demo_ctx_def lv_def eos_assert_def)

lemma demo_proposed: "propose demo_ctx demo_buffer msig_empty = Inr proposed_state"
  by (simp add: propose_def demo_read demo_authority demo_dropped demo_packed demo_check contract_assert_def idx_emplace_def tbl_create_def
      msig_empty_def proposed_state_def)

lemma demo_approved: "approve demo_ctx 7 5 lv proposed_state = Inr approved_state"
  by (simp add: approve_def demo_authority idx_get_def idx_modify_def tbl_find_def tbl_modify_def approvals_key_def contract_assert_def
      option_to_result_def proposed_state_def approved_state_def)

lemma demo_executed: "exec demo_ctx 7 5 7 approved_state
    = Inr \<lparr>proposals = [], approvals = [], sent = [\<lparr>df_sender_id = msig_sender_id 7 5, df_payer = 7, df_trx = demo_trx\<rparr>]\<rparr>"
  by (simp add: exec_def demo_authority demo_header demo_packed demo_check idx_get_def tbl_find_def approvals_key_def proposal_key_def
      contract_assert_def option_to_result_def approved_state_def erase_both_def tbl_remove_def)

lemma demo_history: "msig_history [(demo_ctx, Approve 7 5 lv), (demo_ctx, Propose demo_buffer)] approved_state"
proof -
  have 1: "msig_apply demo_ctx (Propose demo_buffer) msig_empty = Inr proposed_state" using demo_proposed by simp
  have 2: "msig_apply demo_ctx (Approve 7 5 lv) proposed_state = Inr approved_state" using demo_approved by simp
  have "action_fits (Propose demo_buffer)" by (simp add: demo_buffer_def demo_levels_def demo_trx_def)
  then show ?thesis by (intro msig_step [OF _ 2] msig_step [OF msig_start 1]) simp_all
qed

theorem multisig_executes_only_approved_witness:
  "\<exists>c r b l giv t. current (7, 5) [(demo_ctx, Approve 7 5 lv), (demo_ctx, Propose demo_buffer)] = Some (c, r, b, l)
     \<and> (\<forall>q\<in>set giv. q \<in> set r \<and> withdrawals_in l (7, 5) q < approvals_in l (7, 5) q)
     \<and> unpack fc_trx b = Inr t \<and> trx_authorized no_natives one_account (sorted_list_of_set (set giv)) t"
proof -
  have "forest_ok (auth_state demo_ctx)" "natives demo_ctx = no_natives" "auth_state demo_ctx = one_account"
    using one_account_ok by (simp_all add: demo_ctx_def)
  then show ?thesis using multisig_executes_only_approved [OF demo_history demo_executed] by metis
qed


text \<open>Executed 400 seconds later: the time, the use of permissions and the delayed transactions have changed by then.\<close>

definition later_ctx :: "nat msig_context" where
  "later_ctx = demo_ctx\<lparr>now := 900, auth_state := one_account\<lparr>pending_block_time := 400000000, usages := [], generated := []\<rparr>\<rparr>"


end
