(* ===== verification/Deferred.thy ===== *)
theory Deferred
  imports NativeContract Msig
begin

text \<open>
  What a running contract can set in motion: inline actions and deferred transactions
  (\<^verbatim>\<open>libraries/chain/apply_context.cpp\<close>, the calls for contracts in
  \<^verbatim>\<open>libraries/chain/wasm_interface.cpp\<close>, \<open>validate_referenced_accounts\<close> of
  \<^verbatim>\<open>libraries/chain/controller.cpp\<close>), and the contract that lets the producers run any transaction
  (\<^verbatim>\<open>contracts/eosio.sudo/eosio.sudo.cpp\<close>).

  The tables are those of the native actions.  The hash of a transaction and the unpacking of the data of native
  actions are parameters.  Deadlines are not modelled.
\<close>

section \<open>State\<close>

text \<open>What the action being applied, its transaction, the controller and the configuration say.\<close>

record 'k action_env =
  receiver :: name
  act_code :: name
  act_auths :: "permission_level list"
  env_privileged :: bool
  skip_auth_check :: bool
  skip_trx_checks :: bool
  producing_block :: bool
  allow_ram_billing_in_notify :: bool
  trx_published :: int
  eager_net_limit :: nat
  net_limit_due_to_block :: bool
  net_limit_due_to_greylist :: bool
  base_per_transaction_net_usage :: nat
  deferred_trx_expiration_window :: nat
  max_inline_action_size :: nat
  head_block_num :: nat
  head_block_prefix :: nat
  trx_hash :: "node_trx \<Rightarrow> nat"
  native_formats :: "('k, packed) native_data"

record ('k, 'h) out_context =
  base_ctx :: "('k, 'h) apply_context"
  net_usage :: nat
  inline_out :: "packed action list"
  cfa_inline_out :: "packed action list"

abbreviation perms_db :: "('k, 'h) out_context \<Rightarrow> 'k auth_db" where
  "perms_db ctx \<equiv> auth_tables (base_ctx ctx)"

section \<open>Inline actions\<close>

definition check_inline_auth :: "('k, 'h) apply_context \<Rightarrow> permission_level \<Rightarrow> unit result" where
  "check_inline_auth c au =
     bind_r (eos_assert (NativeContract.is_account (actor au) c) action_validate_exception) (\<lambda>_.
     bind_r (find_permission au (auth_tables c)) (\<lambda>p.
     eos_assert (p \<noteq> None) action_validate_exception))"

text \<open>The authority of the running code: the receiver under \<open>eosio.code\<close>.\<close>

definition code_level :: "'k action_env \<Rightarrow> permission_level" where
  "code_level env = permission_level (receiver env) eosio_code_name"

definition execute_inline :: "'k action_env \<Rightarrow> packed action \<Rightarrow> ('k, 'h) out_context \<Rightarrow> ('k, 'h) out_context result" where
  "execute_inline env a ctx =
     bind_r (eos_assert (NativeContract.is_account (act_account a) (base_ctx ctx)) action_validate_exception) (\<lambda>_.
     bind_r (fold_r (\<lambda>au _. check_inline_auth (base_ctx ctx) au) (authorization a) ()) (\<lambda>_.
     bind_r
       (if \<not> skip_auth_check env \<and> \<not> env_privileged env \<and> act_account a \<noteq> receiver env
        then check_authorization (native_formats env) [a] [] [code_level env] (pending_block_time (perms_db ctx) - trx_published env) False (perms_db ctx)
        else Inr ()) (\<lambda>_.
     Inr (ctx\<lparr>inline_out := inline_out ctx @ [a]\<rparr>))))"

definition execute_context_free_inline :: "packed action \<Rightarrow> ('k, 'h) out_context \<Rightarrow> ('k, 'h) out_context result" where
  "execute_context_free_inline a ctx =
     bind_r (eos_assert (NativeContract.is_account (act_account a) (base_ctx ctx)) action_validate_exception) (\<lambda>_.
     bind_r (eos_assert (length (authorization a) = 0) action_validate_exception) (\<lambda>_.
     Inr (ctx\<lparr>cfa_inline_out := cfa_inline_out ctx @ [a]\<rparr>)))"

definition send_inline :: "'k action_env \<Rightarrow> packed \<Rightarrow> ('k, 'h) out_context \<Rightarrow> ('k, 'h) out_context result" where
  "send_inline env bytes ctx =
     bind_r (eos_assert (length bytes < max_inline_action_size env) inline_action_too_big) (\<lambda>_.
     bind_r (unpack fc_action bytes) (\<lambda>a. execute_inline env a ctx))"

definition send_context_free_inline :: "'k action_env \<Rightarrow> packed \<Rightarrow> ('k, 'h) out_context \<Rightarrow> ('k, 'h) out_context result" where
  "send_context_free_inline env bytes ctx =
     bind_r (eos_assert (length bytes < max_inline_action_size env) inline_action_too_big) (\<lambda>_.
     bind_r (unpack fc_action bytes) (\<lambda>a. execute_context_free_inline a ctx))"

section \<open>Deferred transactions\<close>

definition check_referenced_auth :: "('k, 'h) apply_context \<Rightarrow> permission_level \<Rightarrow> unit result" where
  "check_referenced_auth c au =
     bind_r (eos_assert (NativeContract.is_account (actor au) c) transaction_exception) (\<lambda>_.
     bind_r (find_permission au (auth_tables c)) (\<lambda>p.
     eos_assert (p \<noteq> None) transaction_exception))"

definition validate_referenced_accounts :: "node_trx \<Rightarrow> ('k, 'h) apply_context \<Rightarrow> unit result" where
  "validate_referenced_accounts trx c =
     bind_r (fold_r (\<lambda>a _.
        bind_r (eos_assert (NativeContract.is_account (act_account a) c) transaction_exception) (\<lambda>_.
        eos_assert (length (authorization a) = 0) transaction_exception)) (tx_context_free_actions trx) ()) (\<lambda>_.
     bind_r (fold_r (\<lambda>a one_auth.
        bind_r (eos_assert (NativeContract.is_account (act_account a) c) transaction_exception) (\<lambda>_.
        bind_r (fold_r (\<lambda>au _. check_referenced_auth c au) (authorization a) ()) (\<lambda>_.
        Inr (one_auth \<or> authorization a \<noteq> [])))) (tx_actions trx) False) (\<lambda>one_auth.
     eos_assert one_auth tx_no_auths))"

definition check_net_usage :: "'k action_env \<Rightarrow> ('k, 'h) out_context \<Rightarrow> unit result" where
  "check_net_usage env ctx =
     (if skip_trx_checks env \<or> net_usage ctx \<le> eager_net_limit env then Inr ()
      else if net_limit_due_to_block env then Inl block_net_usage_exceeded
      else if net_limit_due_to_greylist env then Inl greylist_net_usage_exceeded
      else Inl tx_net_usage_exceeded)"

definition add_net_usage :: "'k action_env \<Rightarrow> nat \<Rightarrow> ('k, 'h) out_context \<Rightarrow> ('k, 'h) out_context result" where
  "add_net_usage env u ctx =
     (let ctx = ctx\<lparr>net_usage := u64 (net_usage ctx + u)\<rparr> in
      bind_r (check_net_usage env ctx) (\<lambda>_. Inr ctx))"

text \<open>The expiration is rounded up to the next second; the reference block is the head.\<close>

definition retarget :: "'k action_env \<Rightarrow> int \<Rightarrow> node_trx \<Rightarrow> node_trx" where
  "retarget env block_time trx = trx\<lparr>tx_expiration := u32 (nat ((block_time + 999999) div 1000000)),
     tx_ref_block_num := head_block_num env mod 2 ^ 16, tx_ref_block_prefix := u32 (head_block_prefix env)\<rparr>"

definition check_deferred_auth :: "'k action_env \<Rightarrow> name \<Rightarrow> node_trx \<Rightarrow> ('k, 'h) apply_context \<Rightarrow> ('k, 'h) apply_context result" where
  "check_deferred_auth env payer_name trx c =
     (if skip_auth_check env \<or> env_privileged env then Inr c
      else
        bind_r (if payer_name \<noteq> receiver env then require_authorization payer_name (act_auths env) c else Inr c) (\<lambda>c.
        bind_r
          (if list_ex (\<lambda>act. act_account act \<noteq> receiver env) (tx_actions trx)
           then check_authorization (native_formats env) (tx_actions trx) [] [code_level env] (int (tx_delay_sec trx) * 1000000) False (auth_tables c)
           else Inr ()) (\<lambda>_.
        Inr c)))"

text \<open>The row of a deferred transaction: when one is there only a part of it is replaced.\<close>

definition store_deferred ::
    "'k action_env \<Rightarrow> nat \<Rightarrow> name \<Rightarrow> node_trx \<Rightarrow> bool \<Rightarrow> 'k auth_db \<Rightarrow> (nat \<times> 'k auth_db) result" where
  "store_deferred env s_id payer_name trx replace_existing db =
     (let k = (receiver env, s_id); pub = pending_block_time db; until = pub + int (tx_delay_sec trx) * 1000000;
          expir = until + int (deferred_trx_expiration_window env) * 1000000; auths = map authorization (tx_actions trx) in
      case tbl_find sender_key k (generated db) of
        Some gtx \<Rightarrow>
          bind_r (eos_assert replace_existing deferred_tx_duplicate) (\<lambda>_.
          bind_r (eos_assert (\<not> producing_block env) subjective_block_production_exception) (\<lambda>_.
          bind_r (fc_out_trx trx) (\<lambda>chunks.
          Inr (length (concat chunks), db\<lparr>generated := tbl_modify sender_key k (\<lambda>g. g\<lparr>sender := receiver env, sender_id := s_id,
            payer := payer_name, published := pub, delay_until := until, expires := expir, packed_trx := concat chunks,
            trx_authorizations := auths\<rparr>) (generated db)\<rparr>))))
      | None \<Rightarrow>
          bind_r (fc_out_trx trx) (\<lambda>chunks.
          bind_r (eos_assert (tbl_find trx_id (trx_hash env trx) (generated db) = None) logic_error) (\<lambda>_.
          Inr (length (concat chunks), db\<lparr>generated := generated db @ [\<lparr>trx_id = trx_hash env trx, sender = receiver env, sender_id = s_id,
            payer = payer_name, delay_until = until, expires = expir, published = pub, packed_trx = concat chunks,
            trx_authorizations = auths\<rparr>]\<rparr>))))"

definition schedule_deferred_transaction ::
    "'k action_env \<Rightarrow> nat \<Rightarrow> name \<Rightarrow> node_trx \<Rightarrow> bool \<Rightarrow> ('k, 'h) out_context \<Rightarrow> ('k, 'h) out_context result" where
  "schedule_deferred_transaction env s_id payer_name trx replace_existing ctx =
     bind_r (eos_assert (length (tx_context_free_actions trx) = 0) cfa_inside_generated_tx) (\<lambda>_.
     let trx = retarget env (pending_block_time (perms_db ctx)) trx in
     bind_r (validate_referenced_accounts trx (base_ctx ctx)) (\<lambda>_.
     bind_r (add_net_usage env (base_per_transaction_net_usage env + 32) ctx) (\<lambda>ctx.
     bind_r (check_deferred_auth env payer_name trx (base_ctx ctx)) (\<lambda>c.
     bind_r (store_deferred env s_id payer_name trx replace_existing (auth_tables c)) (\<lambda>(trx_size, db).
     bind_r (eos_assert ((\<not> producing_block env \<or> allow_ram_billing_in_notify env) \<or> receiver env = act_code env
        \<or> receiver env = payer_name \<or> env_privileged env) subjective_block_production_exception) (\<lambda>_.
     bind_r (add_ram_usage payer_name (int (generated_transaction_object_size + trx_size)) (c\<lparr>auth_tables := db\<rparr>)) (\<lambda>c.
     Inr (ctx\<lparr>base_ctx := c\<rparr>))))))))"

definition send_deferred ::
    "'k action_env \<Rightarrow> nat \<Rightarrow> name \<Rightarrow> packed \<Rightarrow> bool \<Rightarrow> ('k, 'h) out_context \<Rightarrow> ('k, 'h) out_context result" where
  "send_deferred env s_id payer_name bytes replace_existing ctx =
     bind_r (unpack fc_trx bytes) (\<lambda>trx. schedule_deferred_transaction env s_id payer_name trx replace_existing ctx)"

definition cancel_deferred :: "'k action_env \<Rightarrow> nat \<Rightarrow> ('k, 'h) out_context \<Rightarrow> (bool \<times> ('k, 'h) out_context) result" where
  "cancel_deferred env s_id ctx =
     bind_r (cancel_deferred_transaction s_id (receiver env) (base_ctx ctx)) (\<lambda>(b, c). Inr (b, ctx\<lparr>base_ctx := c\<rparr>))"

section \<open>The sudo contract\<close>

definition sudo_exec :: "'k action_env \<Rightarrow> nat \<Rightarrow> packed \<Rightarrow> ('k, 'h) out_context \<Rightarrow> ('k, 'h) out_context result" where
  "sudo_exec env time_us buffer ctx =
     bind_r (require_authorization (receiver env) (act_auths env) (base_ctx ctx)) (\<lambda>c.
     bind_r (in_prim 8 (ds_over buffer)) (\<lambda>(executer, ds).
     bind_r (require_authorization (of_nat executer) (act_auths env) c) (\<lambda>c.
     let trx_pos = ds_tellp ds in
     send_deferred env (push_bit 64 executer OR time_us) (of_nat executer) (drop trx_pos buffer) False (ctx\<lparr>base_ctx := c\<rparr>))))"

section \<open>Who authorizes what a contract sets in motion\<close>

lemma execute_inline_authorized:
  assumes "execute_inline env a ctx = Inr ctx'" "forest_ok (perms_db ctx)"
    and "\<not> skip_auth_check env" "\<not> env_privileged env" "act_account a \<noteq> receiver env"
  shows "actions_authorized (native_formats env) (perms_db ctx) [code_level env] (pending_block_time (perms_db ctx) - trx_published env) [a]"
proof -
  have "check_authorization (native_formats env) [a] [] [code_level env] (pending_block_time (perms_db ctx) - trx_published env) False (perms_db ctx) = Inr ()"
    using assms(1,3-5) by (auto simp: execute_inline_def bind_r_eq_Inr)
  then show ?thesis by (rule check_authorization_actions [OF assms(2)])
qed


lemma check_deferred_auth_frame:
  assumes "check_deferred_auth env p trx c = Inr c'"
  shows "auth_tables c' = auth_tables c" "resource_tables c' = resource_tables c" "account_tbl c' = account_tbl c"
proof -
  have "c' = c \<or> require_authorization p (act_auths env) c = Inr c'"
    using assms by (auto simp: check_deferred_auth_def bind_r_eq_Inr split: if_splits)
  then show "auth_tables c' = auth_tables c" "resource_tables c' = resource_tables c" "account_tbl c' = account_tbl c"
    using require_authorization_frame [of p "act_auths env" c c'] by auto
qed

lemma check_deferred_auth_authorized:
  assumes "check_deferred_auth env p trx c = Inr c'" "forest_ok (auth_tables c)" "\<not> skip_auth_check env" "\<not> env_privileged env"
  shows "p = receiver env \<or> p \<in> actor ` set (act_auths env)"
    "list_ex (\<lambda>act. act_account act \<noteq> receiver env) (tx_actions trx) \<Longrightarrow> trx_authorized (native_formats env) (auth_tables c) [code_level env] trx"
proof -
  obtain c1 where p: "p \<noteq> receiver env \<Longrightarrow> require_authorization p (act_auths env) c = Inr c1" "p = receiver env \<Longrightarrow> c1 = c"
    and chk: "list_ex (\<lambda>act. act_account act \<noteq> receiver env) (tx_actions trx) \<Longrightarrow> check_authorization (native_formats env) (tx_actions trx) []
      [code_level env] (int (tx_delay_sec trx) * 1000000) False (auth_tables c1) = Inr ()"
    using assms(1,3,4) by (auto simp: check_deferred_auth_def bind_r_eq_Inr split: if_splits)
  show "p = receiver env \<or> p \<in> actor ` set (act_auths env)" using p(1) require_authorization_frame by blast
  have "auth_tables c1 = auth_tables c" using p require_authorization_frame [of p "act_auths env" c c1] by (cases "p = receiver env") auto
  then show "list_ex (\<lambda>act. act_account act \<noteq> receiver env) (tx_actions trx) \<Longrightarrow> trx_authorized (native_formats env) (auth_tables c) [code_level env] trx"
    using chk check_authorization_actions [OF assms(2)] unfolding trx_authorized_def by simp
qed

lemma retarget_same [simp]: "tx_actions (retarget env b t) = tx_actions t" "tx_delay_sec (retarget env b t) = tx_delay_sec t"
    "tx_context_free_actions (retarget env b t) = tx_context_free_actions t" "tx_extensions (retarget env b t) = tx_extensions t"
    "max_net_usage_words (retarget env b t) = max_net_usage_words t" "tx_max_cpu_usage_ms (retarget env b t) = tx_max_cpu_usage_ms t"
  by (simp_all add: retarget_def)

lemma retarget_in_range: "node_trx_in_range t \<Longrightarrow> node_trx_in_range (retarget env b t)"
  by (simp add: node_trx_in_range_def header_in_range_def contract_of_header_def) (simp add: retarget_def u32_def)

lemma schedule_effect:
  assumes "schedule_deferred_transaction env s_id p trx rep ctx = Inr ctx'"
  obtains c n db c2 where "tx_context_free_actions trx = []"
    "check_deferred_auth env p (retarget env (pending_block_time (perms_db ctx)) trx) (base_ctx ctx) = Inr c"
    "store_deferred env s_id p (retarget env (pending_block_time (perms_db ctx)) trx) rep (perms_db ctx) = Inr (n, db)"
    "add_ram_usage p (int (generated_transaction_object_size + n)) (c\<lparr>auth_tables := db\<rparr>) = Inr c2" "base_ctx ctx' = c2"
    "validate_referenced_accounts (retarget env (pending_block_time (perms_db ctx)) trx) (base_ctx ctx) = Inr ()"
proof -
  let ?t = "retarget env (pending_block_time (perms_db ctx)) trx"
  obtain ctx1 c n db c2 where r: "tx_context_free_actions trx = []" "add_net_usage env (base_per_transaction_net_usage env + 32) ctx = Inr ctx1"
    "check_deferred_auth env p ?t (base_ctx ctx1) = Inr c" "store_deferred env s_id p ?t rep (auth_tables c) = Inr (n, db)"
    "add_ram_usage p (int (generated_transaction_object_size + n)) (c\<lparr>auth_tables := db\<rparr>) = Inr c2" "ctx' = ctx1\<lparr>base_ctx := c2\<rparr>"
    "validate_referenced_accounts ?t (base_ctx ctx) = Inr ()"
    using assms by (auto simp: schedule_deferred_transaction_def bind_r_eq_Inr eos_assert_def Let_def split: if_splits)
  have "base_ctx ctx1 = base_ctx ctx" using r(2) by (auto simp: add_net_usage_def Let_def bind_r_eq_Inr)
  then show ?thesis using that [of c n db c2] r check_deferred_auth_frame(1) [OF r(3)] by simp
qed

section \<open>What is stored\<close>

text \<open>The row a transaction is stored as; a replaced row keeps its transaction id.\<close>

definition deferred_row :: "'k action_env \<Rightarrow> nat \<Rightarrow> name \<Rightarrow> node_trx \<Rightarrow> packed \<Rightarrow> nat \<Rightarrow> int \<Rightarrow> generated_transaction_object" where
  "deferred_row env s_id p trx bytes i pub = \<lparr>trx_id = i, sender = receiver env, sender_id = s_id, payer = p,
     delay_until = pub + int (tx_delay_sec trx) * 1000000,
     expires = pub + int (tx_delay_sec trx) * 1000000 + int (deferred_trx_expiration_window env) * 1000000,
     published = pub, packed_trx = bytes, trx_authorizations = map authorization (tx_actions trx)\<rparr>"

lemma deferred_row_key [simp]: "sender_key (deferred_row env s_id p trx bytes i pub) = (receiver env, s_id)"
    "payer (deferred_row env s_id p trx bytes i pub) = p" "packed_trx (deferred_row env s_id p trx bytes i pub) = bytes"
  by (simp_all add: deferred_row_def sender_key_def)

lemma store_new:
  assumes "store_deferred env s_id p trx rep db = Inr (n, db')" "node_trx_in_range trx" "tbl_find sender_key (receiver env, s_id) (generated db) = None"
  shows "n = length (concat (out_trx (contract_of_trx trx)))"
    "db' = db\<lparr>generated := generated db @
      [deferred_row env s_id p trx (concat (out_trx (contract_of_trx trx))) (trx_hash env trx) (pending_block_time db)]\<rparr>"
proof -
  obtain cs where "fc_out_trx trx = Inr cs" "concat cs = concat (out_trx (contract_of_trx trx))"
    using packs_trx [OF assms(2)] by (auto simp: packs_def)
  then show "n = length (concat (out_trx (contract_of_trx trx)))"
    "db' = db\<lparr>generated := generated db @
      [deferred_row env s_id p trx (concat (out_trx (contract_of_trx trx))) (trx_hash env trx) (pending_block_time db)]\<rparr>"
    using assms(1,3) by (auto simp: store_deferred_def Let_def bind_r_eq_Inr deferred_row_def)
qed

lemma store_replace:
  assumes "store_deferred env s_id p trx rep db = Inr (n, db')" "node_trx_in_range trx" "tbl_find sender_key (receiver env, s_id) (generated db) = Some g"
  shows "n = length (concat (out_trx (contract_of_trx trx)))" "rep \<and> \<not> producing_block env"
    "db' = db\<lparr>generated := tbl_modify sender_key (receiver env, s_id)
      (\<lambda>g. deferred_row env s_id p trx (concat (out_trx (contract_of_trx trx))) (trx_id g) (pending_block_time db)) (generated db)\<rparr>"
proof -
  obtain cs where cs: "fc_out_trx trx = Inr cs" "concat cs = concat (out_trx (contract_of_trx trx))"
    using packs_trx [OF assms(2)] by (auto simp: packs_def)
  have "x\<lparr>sender := receiver env, sender_id := s_id, payer := p, published := pending_block_time db,
        delay_until := pending_block_time db + int (tx_delay_sec trx) * 1000000,
        expires := pending_block_time db + int (tx_delay_sec trx) * 1000000 + int (deferred_trx_expiration_window env) * 1000000,
        packed_trx := b, trx_authorizations := map authorization (tx_actions trx)\<rparr>
      = deferred_row env s_id p trx b (trx_id x) (pending_block_time db)" for x :: generated_transaction_object and b
    by (simp add: deferred_row_def generated_transaction_object.defs)
  then show "n = length (concat (out_trx (contract_of_trx trx)))" "rep \<and> \<not> producing_block env"
    "db' = db\<lparr>generated := tbl_modify sender_key (receiver env, s_id)
      (\<lambda>g. deferred_row env s_id p trx (concat (out_trx (contract_of_trx trx))) (trx_id g) (pending_block_time db)) (generated db)\<rparr>"
    using assms(1,3) cs by (auto simp: store_deferred_def Let_def bind_r_eq_Inr eos_assert_def split: if_splits)
qed

text \<open>The row found afterwards, the rows that stay, and what the change costs its accounts.\<close>

definition replaced_cost :: "'k action_env \<Rightarrow> nat \<Rightarrow> 'k auth_db \<Rightarrow> name \<Rightarrow> int" where
  "replaced_cost env s_id db a = (case tbl_find sender_key (receiver env, s_id) (generated db) of None \<Rightarrow> 0 | Some g \<Rightarrow> deferred_cost a g)"

definition new_id :: "'k action_env \<Rightarrow> nat \<Rightarrow> node_trx \<Rightarrow> 'k auth_db \<Rightarrow> nat" where
  "new_id env s_id trx db = (case tbl_find sender_key (receiver env, s_id) (generated db) of None \<Rightarrow> trx_hash env trx | Some g \<Rightarrow> trx_id g)"

lemma store_effect:
  assumes "store_deferred env s_id p trx rep db = Inr (n, db')" "node_trx_in_range trx" "tbl_unique sender_key (generated db)"
  shows "tbl_find sender_key k (generated db') = (if k = (receiver env, s_id)
      then Some (deferred_row env s_id p trx (concat (out_trx (contract_of_trx trx))) (new_id env s_id trx db) (pending_block_time db))
      else tbl_find sender_key k (generated db))"
    and "tbl_unique sender_key (generated db')" and "n = length (concat (out_trx (contract_of_trx trx)))"
    and "(\<Sum>g\<leftarrow>generated db'. deferred_cost a g) = (\<Sum>g\<leftarrow>generated db. deferred_cost a g) - replaced_cost env s_id db a
      + (if a = p then int (generated_transaction_object_size + n) else 0)"
    and "db' = db\<lparr>generated := generated db'\<rparr>"
    and "set (generated db') \<subseteq> insert (deferred_row env s_id p trx (concat (out_trx (contract_of_trx trx))) (new_id env s_id trx db) (pending_block_time db))
      (set (generated db))"
proof -
  let ?k = "(receiver env, s_id)" and ?b = "concat (out_trx (contract_of_trx trx))"
  let ?new = "deferred_row env s_id p trx ?b (new_id env s_id trx db) (pending_block_time db)"
  have cost: "deferred_cost a ?new = (if a = p then int (generated_transaction_object_size + length ?b) else 0)"
    by (simp add: deferred_cost_def)
  have "(tbl_find sender_key k (generated db') = (if k = ?k then Some ?new else tbl_find sender_key k (generated db)))
    \<and> tbl_unique sender_key (generated db') \<and> n = length ?b
    \<and> (\<Sum>g\<leftarrow>generated db'. deferred_cost a g) = (\<Sum>g\<leftarrow>generated db. deferred_cost a g) - replaced_cost env s_id db a + deferred_cost a ?new
    \<and> db' = db\<lparr>generated := generated db'\<rparr> \<and> set (generated db') \<subseteq> insert ?new (set (generated db))"
  proof (cases "tbl_find sender_key ?k (generated db)")
    case None
    note s = store_new [OF assms(1,2) None]
    have "tbl_unique sender_key (generated db')" unfolding s(2) using tbl_unique_create [OF assms(3), of ?new] None by (simp add: new_id_def)
    then show ?thesis using s None by (simp add: new_id_def replaced_cost_def tbl_find_append split: option.splits)
  next
    case (Some g)
    note s = store_replace [OF assms(1,2) Some]
    have rows: "tbl_modify sender_key ?k (\<lambda>g. deferred_row env s_id p trx ?b (trx_id g) (pending_block_time db)) (generated db)
        = tbl_modify sender_key ?k (\<lambda>_. ?new) (generated db)"
      using Some assms(3) tbl_find_unique [OF assms(3)] by (fastforce simp: tbl_modify_def new_id_def)
    have db': "generated db' = tbl_modify sender_key ?k (\<lambda>_. ?new) (generated db)" unfolding s(3) by (simp add: rows)
    have key: "sender_key ?new = ?k" by simp
    have "(\<Sum>g\<leftarrow>generated db'. deferred_cost a g) + deferred_cost a g = (\<Sum>g\<leftarrow>generated db. deferred_cost a g) + deferred_cost a ?new"
      unfolding db' by (rule sum_list_modify [OF assms(3) Some])
    moreover have "tbl_find sender_key k (generated db') = (if k = ?k then Some ?new else tbl_find sender_key k (generated db))"
      unfolding db' tbl_find_replace [where key = sender_key, OF key] using Some by simp
    moreover have "tbl_unique sender_key (generated db')" unfolding db' tbl_unique_replace [where key = sender_key, OF key] by (rule assms(3))
    moreover have "set (generated db') \<subseteq> insert ?new (set (generated db))" unfolding db' by (auto simp: tbl_modify_def)
    ultimately show ?thesis using s(1,3) Some by (simp add: replaced_cost_def)
  qed
  then show "tbl_find sender_key k (generated db') = (if k = ?k then Some ?new else tbl_find sender_key k (generated db))"
    "tbl_unique sender_key (generated db')" "n = length ?b"
    "(\<Sum>g\<leftarrow>generated db'. deferred_cost a g) = (\<Sum>g\<leftarrow>generated db. deferred_cost a g) - replaced_cost env s_id db a
      + (if a = p then int (generated_transaction_object_size + n) else 0)"
    "db' = db\<lparr>generated := generated db'\<rparr>" "set (generated db') \<subseteq> insert ?new (set (generated db))"
    using cost by simp_all
qed

section \<open>Properties\<close>

text \<open>C8. Code acts for others only as they permit.  When a contract that is not privileged sends an inline action to another
  contract, or defers a transaction with an action for another contract, and the node accepts it while checking
  authorizations, then each declared permission of these actions is entitled by the contract's own
  \<open>eosio.code\<close> permission alone, without any key and whatever authorized the transaction that runs; and whoever
  pays for a deferred transaction is the contract itself or authorized the running action.\<close>

theorem code_acts_only_as_permitted:
  assumes "forest_ok (perms_db ctx)" "\<not> skip_auth_check env" "\<not> env_privileged env"
  shows "(send_inline env bytes ctx = Inr ctx1 \<longrightarrow> (\<exists>a. unpack fc_action bytes = Inr a \<and> inline_out ctx1 = inline_out ctx @ [a]
        \<and> (act_account a = receiver env
           \<or> actions_authorized (native_formats env) (perms_db ctx) [code_level env] (pending_block_time (perms_db ctx) - trx_published env) [a])))
    \<and> (send_deferred env s_id p tbytes rep ctx = Inr ctx2 \<longrightarrow> (\<exists>t. unpack fc_trx tbytes = Inr t
        \<and> (p = receiver env \<or> p \<in> actor ` set (act_auths env))
        \<and> ((\<forall>act\<in>set (tx_actions t). act_account act = receiver env)
           \<or> trx_authorized (native_formats env) (perms_db ctx) [code_level env] t)))"
proof (intro conjI impI)
  assume "send_inline env bytes ctx = Inr ctx1"
  then obtain a where a: "unpack fc_action bytes = Inr a" "execute_inline env a ctx = Inr ctx1" by (auto simp: send_inline_def bind_r_eq_Inr)
  then have "inline_out ctx1 = inline_out ctx @ [a]" by (auto simp: execute_inline_def bind_r_eq_Inr)
  then show "\<exists>a. unpack fc_action bytes = Inr a \<and> inline_out ctx1 = inline_out ctx @ [a] \<and> (act_account a = receiver env
      \<or> actions_authorized (native_formats env) (perms_db ctx) [code_level env] (pending_block_time (perms_db ctx) - trx_published env) [a])"
    using a execute_inline_authorized [OF a(2) assms] by blast
next
  assume "send_deferred env s_id p tbytes rep ctx = Inr ctx2"
  then obtain t where t: "unpack fc_trx tbytes = Inr t" "schedule_deferred_transaction env s_id p t rep ctx = Inr ctx2"
    by (auto simp: send_deferred_def bind_r_eq_Inr)
  obtain c where c: "check_deferred_auth env p (retarget env (pending_block_time (perms_db ctx)) t) (base_ctx ctx) = Inr c"
    using schedule_effect [OF t(2)] by metis
  note au = check_deferred_auth_authorized [OF c assms]
  have "(\<forall>act\<in>set (tx_actions t). act_account act = receiver env) \<or> trx_authorized (native_formats env) (perms_db ctx) [code_level env] t"
    using au(2) by (auto simp: list_ex_iff trx_authorized_def)
  then show "\<exists>t. unpack fc_trx tbytes = Inr t \<and> (p = receiver env \<or> p \<in> actor ` set (act_auths env))
      \<and> ((\<forall>act\<in>set (tx_actions t). act_account act = receiver env) \<or> trx_authorized (native_formats env) (perms_db ctx) [code_level env] t)"
    using t(1) au(1) by blast
qed

text \<open>C19. A deferred transaction is stored and billed exactly, except that a replaced one is never refunded.  When the node
  accepts a transaction from a contract, the table holds under the contract and the sender's number a row whose packed
  bytes unpack to the transaction sent, only with the expiration and the reference block of the moment, not to be run before its delay is over; every other row is
  as it was; and the RAM billed to each account minus what its rows cost changes by nothing when the number was free, and by the
  whole cost of the old row to the old payer when a row was replaced, whose transaction id stays that of the old transaction.\<close>

theorem deferred_stored_and_billed:
  assumes "NativeContract.tables_ok nenv (account_tbl (base_ctx ctx)) (perms_db ctx)" "ram_table_ok (resource_tables (base_ctx ctx))"
    and "send_deferred env s_id p bytes rep ctx = Inr ctx'" "length bytes < 2 ^ 31"
    and "unpack fc_trx bytes = Inr t" "t' = retarget env (pending_block_time (perms_db ctx)) t" "length (concat (out_trx (contract_of_trx t'))) < 2 ^ 31"
    and "db = perms_db ctx"
  shows "\<exists>g. tbl_find sender_key (receiver env, s_id) (generated (perms_db ctx')) = Some g
       \<and> unpack fc_trx (packed_trx g) = Inr t' \<and> tx_actions t' = tx_actions t \<and> payer g = p
       \<and> delay_until g = pending_block_time db + int (tx_delay_sec t) * 1000000 \<and> trx_id g = new_id env s_id t' db
     \<and> (\<forall>k. k \<noteq> (receiver env, s_id) \<longrightarrow> tbl_find sender_key k (generated (perms_db ctx')) = tbl_find sender_key k (generated db))
     \<and> (\<forall>a. ram_of a (resource_tables (base_ctx ctx')) - footprint nenv (account_tbl (base_ctx ctx')) (perms_db ctx') a
          = ram_of a (resource_tables (base_ctx ctx)) - footprint nenv (account_tbl (base_ctx ctx)) db a + replaced_cost env s_id db a)"
proof -
  have tin: "node_trx_in_range t" by (rule ftrx.unpack_in_range [OF assms(4,5)])
  then have t'in: "node_trx_in_range t'" unfolding assms(6) by (rule retarget_in_range)
  have sch: "schedule_deferred_transaction env s_id p t rep ctx = Inr ctx'" using assms(3,5) by (simp add: send_deferred_def)
  obtain c n db' c2 where e: "check_deferred_auth env p t' (base_ctx ctx) = Inr c" "store_deferred env s_id p t' rep db = Inr (n, db')"
    "add_ram_usage p (int (generated_transaction_object_size + n)) (c\<lparr>auth_tables := db'\<rparr>) = Inr c2" "base_ctx ctx' = c2"
    using schedule_effect [OF sch] unfolding assms(6,8) by metis
  have "tbl_unique sender_key (generated db)" using assms(1,8) by (simp add: NativeContract.tables_ok_def)
  note s = store_effect [OF e(2) t'in this]
  note f = check_deferred_auth_frame [OF e(1)]
  have d: "- (2 ^ 63) < int (generated_transaction_object_size + n)" "int (generated_transaction_object_size + n) < 2 ^ 63"
    using assms(7) unfolding s(3) by (simp_all add: sizes)
  have b: "ram_of a (resource_tables c2) = ram_of a (resource_tables (base_ctx ctx)) + (if a = p then int (generated_transaction_object_size + n) else 0)"
    "auth_tables c2 = db'" "account_tbl c2 = account_tbl (base_ctx ctx)" for a
    using add_ram_usage_billed [OF e(3) _ d, of a] assms(2) f by simp_all
  have "footprint nenv accts db' a = footprint nenv accts db a - replaced_cost env s_id db a
      + (if a = p then int (generated_transaction_object_size + n) else 0)" for accts a
  proof -
    have "permissions db' = permissions db" "links db' = links db"
      using arg_cong [OF s(5), of permissions] arg_cong [OF s(5), of links] by simp_all
    then show ?thesis using s(4) [of a] by (simp add: footprint_def)
  qed
  then have ram: "ram_of a (resource_tables c2) - footprint nenv (account_tbl c2) (auth_tables c2) a
      = ram_of a (resource_tables (base_ctx ctx)) - footprint nenv (account_tbl (base_ctx ctx)) db a + replaced_cost env s_id db a" for a
    by (simp add: b)
  let ?g = "deferred_row env s_id p t' (concat (out_trx (contract_of_trx t'))) (new_id env s_id t' db) (pending_block_time db)"
  have "unpack fc_trx (concat (out_trx (contract_of_trx t'))) = Inr t'" by (rule ftrx.unpack_pack_exact [OF t'in assms(7)])
  moreover have "tx_actions t' = tx_actions t" "tx_delay_sec t' = tx_delay_sec t" unfolding assms(6) by simp_all
  ultimately show ?thesis
    using s(1) ram by (intro exI [of _ ?g]) (simp add: e(4) b(2) deferred_row_def)
qed

text \<open>Account 7 lets its own code use its active permission and calls account 8.\<close>

definition code_db :: "nat auth_db" where
  "code_db = one_account\<lparr>permissions :=
     [\<lparr>perm_id = 0, usage_id = 0, parent = 0, owner = 0, perm_name = 0, last_updated = 0, auth = empty_authority\<rparr>,
      \<lparr>perm_id = 1, usage_id = 0, parent = 0, owner = 7, perm_name = owner_name, last_updated = 5, auth = authority_of_key 1 0\<rparr>,
      \<lparr>perm_id = 2, usage_id = 1, parent = 1, owner = 7, perm_name = active_name, last_updated = 5,
        auth = \<lparr>threshold = 1, keys = [], accounts = [\<lparr>plw_permission = permission_level 7 eosio_code_name, plw_weight = 1\<rparr>], waits = []\<rparr>\<rparr>]\<rparr>"

definition env7 :: "nat action_env" where
  "env7 = \<lparr>receiver = 7, act_code = 7, act_auths = [lv], env_privileged = False, skip_auth_check = False, skip_trx_checks = False,
     producing_block = True, allow_ram_billing_in_notify = False, trx_published = 9, eager_net_limit = 1000, net_limit_due_to_block = False,
     net_limit_due_to_greylist = False, base_per_transaction_net_usage = 12, deferred_trx_expiration_window = 600,
     max_inline_action_size = 4096, head_block_num = 65541, head_block_prefix = 77, trx_hash = tx_expiration, native_formats = no_natives\<rparr>"

definition calling_ctx :: "(nat, nat) out_context" where
  "calling_ctx = \<lparr>base_ctx = NativeContract.demo_context\<lparr>auth_tables := code_db, account_tbl := account_tbl NativeContract.demo_context @ [(hd (account_tbl NativeContract.demo_context))\<lparr>acc_name := 8\<rparr>]\<rparr>,
     net_usage = 100, inline_out = [], cfa_inline_out = []\<rparr>"

definition demo_action :: packed where
  "demo_action = [8, 0, 0, 0, 0, 0, 0, 0, 9, 0, 0, 0, 0, 0, 0, 0, 1, 7, 0, 0, 0, 0, 0, 0, 0, 0, 0, 0, 0, 168, 237, 50, 50, 0]"

lemma demo_action_read: "unpack fc_action demo_action = Inr \<lparr>act_account = 8, act_name = 9, authorization = [lv], data = []\<rparr>"
  by (simp add: unpack_def demo_action_def lv_def fc_eval fc_varint.simps fc_action_def fc_permission_level_def fc_bytes_def
      max_size_of_byte_arrays_def)

lemma code_db_check: "check_authorization no_natives [\<lparr>act_account = 8, act_name = 9, authorization = [lv], data = []\<rparr>] []
    [permission_level 7 eosio_code_name] 0 False code_db = Inr ()"
  by (simp add: authorization_run checker_run standard_names lv_def code_db_def)

lemma env7_simps [simp]: "receiver env7 = 7" "act_code env7 = 7" "act_auths env7 = [lv]" "\<not> env_privileged env7" "\<not> skip_auth_check env7"
    "\<not> skip_trx_checks env7" "trx_published env7 = 9" "eager_net_limit env7 = 1000" "base_per_transaction_net_usage env7 = 12"
    "max_inline_action_size env7 = 4096" "native_formats env7 = no_natives" "code_level env7 = permission_level 7 eosio_code_name"
  by (simp_all add: env7_def code_level_def)

lemma calling_facts: "perms_db calling_ctx = code_db" "NativeContract.is_account 8 (base_ctx calling_ctx)" "NativeContract.is_account 7 (base_ctx calling_ctx)"
    "\<exists>p. find_permission lv code_db = Inr (Some p)" "pending_block_time code_db = 9" "actor lv = 7" "net_usage calling_ctx = 100"
  by (simp_all add: calling_ctx_def NativeContract.is_account_def NativeContract.demo_context_def tbl_find_def find_permission_def name_empty_def
      eos_assert_def owner_key_def standard_names code_db_def one_account_def lv_def)

lemma calling_auth: "check_inline_auth (base_ctx calling_ctx) lv = Inr ()" "check_referenced_auth (base_ctx calling_ctx) lv = Inr ()"
  using calling_facts by (auto simp: check_inline_auth_def check_referenced_auth_def eos_assert_def)

lemma demo_inline: "\<exists>ctx. send_inline env7 demo_action calling_ctx = Inr ctx"
  using code_db_check
  by (simp add: send_inline_def demo_action_read execute_inline_def calling_facts calling_auth eos_assert_def) (simp add: demo_action_def)

definition demo_sent :: "name \<Rightarrow> node_trx" where
  "demo_sent n = \<lparr>tx_expiration = 1, tx_ref_block_num = 5, tx_ref_block_prefix = 77, max_net_usage_words = 0, tx_max_cpu_usage_ms = 0,
     tx_delay_sec = 0, tx_context_free_actions = [], tx_actions = [\<lparr>act_account = n, act_name = 9, authorization = [lv], data = []\<rparr>],
     tx_extensions = []\<rparr>"

definition demo_received :: "name \<Rightarrow> node_trx" where
  "demo_received n = (demo_sent n)\<lparr>tx_expiration := 1000, tx_ref_block_num := 0, tx_ref_block_prefix := 0\<rparr>"

text \<open>The transaction of the other example, for account 8, and the same for account 7.\<close>

definition own_trx :: packed where
  "own_trx = [232, 3, 0, 0, 0, 0, 0, 0, 0, 0, 0, 0, 0, 0, 1, 7, 0, 0, 0, 0, 0, 0, 0, 9, 0, 0, 0, 0, 0, 0, 0,
     1, 7, 0, 0, 0, 0, 0, 0, 0, 0, 0, 0, 0, 168, 237, 50, 50, 0, 0]"

lemma demo_received_read: "unpack fc_trx demo_trx = Inr (demo_received 8)" "unpack fc_trx own_trx = Inr (demo_received 7)"
  by (simp add: demo_node_trx demo_received_def demo_sent_def)
    (simp add: unpack_def own_trx_def demo_received_def demo_sent_def lv_def fc_eval fc_varint.simps fc_action_def fc_permission_level_def
      fc_bytes_def max_size_of_byte_arrays_def)

lemma demo_retarget: "retarget env7 9 (demo_received n) = demo_sent n"
  by (simp add: retarget_def demo_received_def demo_sent_def env7_def u32_def)

lemma demo_sent_in_range: "node_trx_in_range (demo_sent n)"
  by (simp add: demo_sent_def node_trx_in_range_def header_in_range_def contract_of_header_def node_action_in_range_def
      max_num_array_elements_def)

lemma demo_sent_size: "length (concat (out_trx (contract_of_trx (demo_sent n)))) = 50"
  by (simp add: demo_sent_def contract_of_trx_def contract_of_header_def contract_of_action_def trx_header.defs out_eval)

lemma demo_stored:
  assumes "generated db = []" "pending_block_time db = 9"
  shows "\<exists>db'. store_deferred env7 1 7 (demo_sent n) False db = Inr (50, db')"
proof -
  obtain cs where "fc_out_trx (demo_sent n) = Inr cs" "concat cs = concat (out_trx (contract_of_trx (demo_sent n)))"
    using packs_trx [OF demo_sent_in_range] by (auto simp: packs_def)
  then show ?thesis using assms demo_sent_size [of n] by (simp add: store_deferred_def Let_def eos_assert_def)
qed

lemma demo_scheduled:
  assumes "validate_referenced_accounts (demo_sent n) (base_ctx ctx) = Inr ()" "check_deferred_auth env7 7 (demo_sent n) (base_ctx ctx) = Inr (base_ctx ctx)"
    and "net_usage ctx = 100" "generated (perms_db ctx) = []" "pending_block_time (perms_db ctx) = 9"
    and "resource_tables (base_ctx ctx) = resource_tables NativeContract.demo_context"
  shows "\<exists>ctx'. schedule_deferred_transaction env7 1 7 (demo_received n) False ctx = Inr ctx'"
proof -
  obtain db' where st: "store_deferred env7 1 7 (demo_sent n) False (perms_db ctx) = Inr (50, db')" using demo_stored assms(4,5) by blast
  have net: "add_net_usage env7 44 ctx = Inr (ctx\<lparr>net_usage := 144\<rparr>)"
    by (simp add: add_net_usage_def check_net_usage_def Let_def u64_def assms(3))
  have "\<exists>c2. add_ram_usage 7 322 (base_ctx ctx\<lparr>auth_tables := db'\<rparr>) = Inr c2"
    using assms(6) by (simp add: add_ram_usage_def trx_add_ram_usage_def add_pending_ram_usage_def modify_usage_def tbl_get_def tbl_find_def
        NativeContract.demo_context_def empty_resource_db_def eos_assert_def int64_bounds)
  then show ?thesis using assms(1,2,5) net st demo_retarget [of n]
    by (auto simp: schedule_deferred_transaction_def eos_assert_def sizes demo_received_def demo_sent_def)
qed

lemma demo_deferred: "\<exists>ctx. send_deferred env7 1 7 demo_trx False calling_ctx = Inr ctx"
proof -
  have v: "validate_referenced_accounts (demo_sent 8) (base_ctx calling_ctx) = Inr ()"
    by (simp add: validate_referenced_accounts_def demo_sent_def calling_facts calling_auth eos_assert_def)
  have a: "check_deferred_auth env7 7 (demo_sent 8) (base_ctx calling_ctx) = Inr (base_ctx calling_ctx)"
    using code_db_check by (simp add: check_deferred_auth_def demo_sent_def calling_facts)
  have "generated code_db = []" "resource_tables (base_ctx calling_ctx) = resource_tables NativeContract.demo_context"
    by (simp_all add: code_db_def one_account_def calling_ctx_def)
  then show ?thesis using demo_scheduled [OF v a] calling_facts by (simp add: send_deferred_def demo_received_read)
qed

lemma code_db_ok: "forest_ok code_db"
  by (simp add: forest_ok_def code_db_def one_account_def tbl_unique_def owner_key_def standard_names)

theorem code_acts_only_as_permitted_witness:
  "(\<exists>ctx a. send_inline env7 demo_action calling_ctx = Inr ctx \<and> inline_out ctx = [a] \<and> act_account a = 8
      \<and> actions_authorized no_natives code_db [permission_level 7 eosio_code_name] 0 [a])
   \<and> (\<exists>ctx t. send_deferred env7 1 7 demo_trx False calling_ctx = Inr ctx \<and> unpack fc_trx demo_trx = Inr t
      \<and> trx_authorized no_natives code_db [permission_level 7 eosio_code_name] t)"
proof -
  have ok: "forest_ok (perms_db calling_ctx)" unfolding calling_facts by (rule code_db_ok)
  have e: "\<not> skip_auth_check env7" "\<not> env_privileged env7" by simp_all
  obtain ctx1 ctx2 where i: "send_inline env7 demo_action calling_ctx = Inr ctx1" and d: "send_deferred env7 1 7 demo_trx False calling_ctx = Inr ctx2"
    using demo_inline demo_deferred by blast
  obtain a where a: "unpack fc_action demo_action = Inr a" "inline_out ctx1 = inline_out calling_ctx @ [a]" "act_account a = receiver env7
      \<or> actions_authorized (native_formats env7) (perms_db calling_ctx) [code_level env7] (pending_block_time (perms_db calling_ctx) - trx_published env7) [a]"
    using code_acts_only_as_permitted [OF ok e, THEN conjunct1, THEN mp, OF i] by blast
  obtain t where t: "unpack fc_trx demo_trx = Inr t" "(\<forall>act\<in>set (tx_actions t). act_account act = receiver env7)
      \<or> trx_authorized (native_formats env7) (perms_db calling_ctx) [code_level env7] t"
    using code_acts_only_as_permitted [OF ok e, THEN conjunct2, THEN mp, OF d] by blast
  have a8: "act_account a = 8" using a(1) demo_action_read by auto
  have "t = demo_received 8" using t(1) demo_received_read by simp
  then have "\<not> (\<forall>act\<in>set (tx_actions t). act_account act = receiver env7)" by (simp add: demo_received_def demo_sent_def)
  then have t2: "trx_authorized no_natives code_db [permission_level 7 eosio_code_name] t" using t(2) unfolding calling_facts env7_simps by blast
  have a2: "actions_authorized no_natives code_db [permission_level 7 eosio_code_name] 0 [a]" using a(3) a8 unfolding calling_facts env7_simps by simp
  have "inline_out ctx1 = [a]" using a(2) by (simp add: calling_ctx_def)
  then show ?thesis using i d a8 a2 t(1) t2 by blast
qed

text \<open>Account 7 alone defers a transaction to itself.\<close>

definition home_ctx :: "(nat, nat) out_context" where
  "home_ctx = \<lparr>base_ctx = NativeContract.demo_context, net_usage = 100, inline_out = [], cfa_inline_out = []\<rparr>"

theorem deferred_stored_and_billed_witness:
  "\<exists>ctx g. send_deferred env7 1 7 own_trx False home_ctx = Inr ctx
     \<and> tbl_find sender_key (7, 1) (generated (perms_db ctx)) = Some g \<and> unpack fc_trx (packed_trx g) = Inr (demo_sent 7)
     \<and> ram_of 7 (resource_tables (base_ctx ctx)) - footprint demo_env (account_tbl (base_ctx ctx)) (perms_db ctx) 7
       = ram_of 7 (resource_tables (base_ctx home_ctx)) - footprint demo_env (account_tbl (base_ctx home_ctx)) (perms_db home_ctx) 7"
proof -
  have h: "base_ctx home_ctx = NativeContract.demo_context" "auth_tables NativeContract.demo_context = one_account" "net_usage home_ctx = 100"
    "generated one_account = []" "pending_block_time one_account = 9"
    by (simp_all add: home_ctx_def NativeContract.demo_context_def one_account_def)
  have "NativeContract.is_account 7 NativeContract.demo_context" "\<exists>p. find_permission lv one_account = Inr (Some p)" "actor lv = 7"
    by (simp_all add: NativeContract.is_account_def NativeContract.demo_context_def tbl_find_def find_permission_def name_empty_def
        eos_assert_def owner_key_def standard_names one_account_def lv_def)
  then have v: "validate_referenced_accounts (demo_sent 7) (base_ctx home_ctx) = Inr ()"
    by (auto simp: validate_referenced_accounts_def check_referenced_auth_def demo_sent_def eos_assert_def h)
  have a: "check_deferred_auth env7 7 (demo_sent 7) (base_ctx home_ctx) = Inr (base_ctx home_ctx)" by (simp add: check_deferred_auth_def demo_sent_def)
  obtain ctx where run: "send_deferred env7 1 7 own_trx False home_ctx = Inr ctx"
    using demo_scheduled [OF v a] h by (auto simp: send_deferred_def demo_received_read)
  have "length own_trx < 2 ^ 31" by (simp add: own_trx_def)
  from deferred_stored_and_billed [OF _ _ run this demo_received_read(2) refl _ refl, of demo_env] run demo_start(1,2) demo_sent_size [of 7] demo_retarget [of 7]
  show ?thesis unfolding h(1,2,5) by (auto simp: replaced_cost_def h)
qed

end
