(* ===== verification/TrxContext.thy ===== *)
theory TrxContext
  imports Deferred
begin

text \<open>
  The context of a transaction (\<^verbatim>\<open>libraries/chain/transaction_context.cpp\<close>, \<open>transaction_context.hpp\<close>, the
  checks of \<^verbatim>\<open>libraries/chain/controller.cpp\<close> it calls, \<^verbatim>\<open>libraries/chain/chain_config.cpp\<close>): the limits on
  network and CPU usage, the deadline, and the bill at the end.

  Times and durations are integers, in microseconds; readings of the clock, of the flag that the deadline timer
  sets from a signal, and the running of an action are arguments.  An exception code is the exception.  The undo
  session of the context and the traces are not modelled: a throw returns no state.
\<close>

section \<open>Configuration\<close>

record chain_config =
  max_block_net_usage :: nat
  target_block_net_usage_pct :: nat
  max_transaction_net_usage :: nat
  base_per_transaction_net_usage :: nat
  net_usage_leeway :: nat
  context_free_discount_net_usage_num :: nat
  context_free_discount_net_usage_den :: nat
  max_block_cpu_usage :: nat
  target_block_cpu_usage_pct :: nat
  max_transaction_cpu_usage :: nat
  min_transaction_cpu_usage :: nat
  max_transaction_lifetime :: nat
  deferred_trx_expiration_window :: nat
  cfg_max_transaction_delay :: nat
  max_inline_action_size :: nat
  max_inline_action_depth :: nat
  cfg_max_authority_depth :: nat

definition sub32 :: "nat \<Rightarrow> nat \<Rightarrow> nat" where
  "sub32 a b = nat ((int a - int b) mod 2 ^ 32)"

definition chain_config_validate :: "chain_config \<Rightarrow> unit result" where
  "chain_config_validate c =
     bind_r (eos_assert (target_block_net_usage_pct c \<le> 10000) action_validate_exception) (\<lambda>_.
     bind_r (eos_assert (target_block_net_usage_pct c \<ge> 100 div 10) action_validate_exception) (\<lambda>_.
     bind_r (eos_assert (target_block_cpu_usage_pct c \<le> 10000) action_validate_exception) (\<lambda>_.
     bind_r (eos_assert (target_block_cpu_usage_pct c \<ge> 100 div 10) action_validate_exception) (\<lambda>_.
     bind_r (eos_assert (max_transaction_net_usage c < max_block_net_usage c) action_validate_exception) (\<lambda>_.
     bind_r (eos_assert (max_transaction_cpu_usage c < max_block_cpu_usage c) action_validate_exception) (\<lambda>_.
     bind_r (eos_assert (base_per_transaction_net_usage c < max_transaction_net_usage c) action_validate_exception) (\<lambda>_.
     bind_r (eos_assert (sub32 (max_transaction_net_usage c) (base_per_transaction_net_usage c) \<ge> 10 * 1024) action_validate_exception) (\<lambda>_.
     bind_r (eos_assert (context_free_discount_net_usage_den c > 0) action_validate_exception) (\<lambda>_.
     bind_r (eos_assert (context_free_discount_net_usage_num c \<le> context_free_discount_net_usage_den c) action_validate_exception) (\<lambda>_.
     bind_r (eos_assert (min_transaction_cpu_usage c \<le> max_transaction_cpu_usage c) action_validate_exception) (\<lambda>_.
     bind_r (eos_assert (max_transaction_cpu_usage c < sub32 (max_block_cpu_usage c) (min_transaction_cpu_usage c)) action_validate_exception) (\<lambda>_.
     eos_assert (1 \<le> cfg_max_authority_depth c) action_validate_exception))))))))))))"

section \<open>State\<close>

text \<open>The row by which a duplicate of a transaction is detected.\<close>

record transaction_object =
  dedup_id :: nat
  dedup_expiration :: nat

text \<open>What the controller, the caller and the transaction fix.\<close>

record trx_env =
  configuration :: chain_config
  trx :: node_trx
  trx_ident :: nat
  skip_trx_checks :: bool
  producing_block :: bool
  resource_greylist :: "name list"
  block_summaries :: "block_id_type list"
  start :: int
  deadline :: int
  leeway :: int
  explicit_billed_cpu_time :: bool

record ('k, 'h) trx_context =
  tables :: "('k, 'h) apply_context"
  dedup_tbl :: "transaction_object list"
  bill_to_accounts :: "name list"
  ctx_published :: int
  delay :: int
  is_input :: bool
  apply_context_free :: bool
  billed_cpu_time_us :: int
  is_initialized :: bool
  net_limit :: nat
  net_limit_due_to_block :: bool
  net_limit_due_to_greylist :: bool
  eager_net_limit :: nat
  net_usage :: nat
  cpu_limit_due_to_greylist :: bool
  initial_objective_duration_limit :: int
  objective_duration_limit :: int
  billing_deadline :: int
  deadline_exception_code :: chain_error
  billing_timer_exception_code :: chain_error
  pseudo_start :: int
  billed_time :: int
  billing_timer_duration_limit :: int

abbreviation rl :: "('k, 'h) trx_context \<Rightarrow> resource_db" where
  "rl ctx \<equiv> resource_tables (tables ctx)"

abbreviation set_rl :: "resource_db \<Rightarrow> ('k, 'h) trx_context \<Rightarrow> ('k, 'h) trx_context" where
  "set_rl r ctx \<equiv> ctx\<lparr>tables := (tables ctx)\<lparr>resource_tables := r\<rparr>\<rparr>"

definition time_point_maximum :: int where "time_point_maximum = 2 ^ 63 - 1"

definition make_context :: "trx_env \<Rightarrow> int \<Rightarrow> ('k, 'h) apply_context \<Rightarrow> transaction_object list \<Rightarrow> ('k, 'h) trx_context result" where
  "make_context env billed db dedup =
     bind_r (eos_assert (length (tx_extensions (trx env)) = 0) unsupported_feature) (\<lambda>_.
     Inr \<lparr>tables = db\<lparr>validate_ram_usage := {}\<rparr>, dedup_tbl = dedup, bill_to_accounts = [], ctx_published = 0,
       delay = 0, is_input = False, apply_context_free = True, billed_cpu_time_us = billed, is_initialized = False, net_limit = 0, net_limit_due_to_block = True,
       net_limit_due_to_greylist = False, eager_net_limit = 0, net_usage = 0, cpu_limit_due_to_greylist = False,
       initial_objective_duration_limit = 0, objective_duration_limit = 0, billing_deadline = time_point_maximum,
       deadline_exception_code = block_cpu_usage_exceeded, billing_timer_exception_code = block_cpu_usage_exceeded,
       pseudo_start = start env, billed_time = 0, billing_timer_duration_limit = 0\<rparr>)"

section \<open>Checks\<close>

definition check_net_usage :: "trx_env \<Rightarrow> ('k, 'h) trx_context \<Rightarrow> unit result" where
  "check_net_usage env ctx =
     (if skip_trx_checks env \<or> net_usage ctx \<le> eager_net_limit ctx then Inr ()
      else if net_limit_due_to_block ctx then Inl block_net_usage_exceeded
      else if net_limit_due_to_greylist ctx then Inl greylist_net_usage_exceeded
      else Inl tx_net_usage_exceeded)"

definition add_net_usage :: "trx_env \<Rightarrow> nat \<Rightarrow> ('k, 'h) trx_context \<Rightarrow> ('k, 'h) trx_context result" where
  "add_net_usage env u ctx =
     (let ctx = ctx\<lparr>net_usage := u64 (net_usage ctx + u)\<rparr> in
      bind_r (check_net_usage env ctx) (\<lambda>_. Inr ctx))"

definition checktime :: "trx_env \<Rightarrow> bool \<Rightarrow> int \<Rightarrow> ('k, 'h) trx_context \<Rightarrow> unit result" where
  "checktime env expired t ctx =
     (if \<not> expired \<or> t \<le> billing_deadline ctx then Inr ()
      else if explicit_billed_cpu_time env \<or> deadline_exception_code ctx = deadline_exception then Inl deadline_exception
      else if deadline_exception_code ctx = block_cpu_usage_exceeded then Inl block_cpu_usage_exceeded
      else if deadline_exception_code ctx = tx_cpu_usage_exceeded then
        (if cpu_limit_due_to_greylist ctx then Inl greylist_cpu_usage_exceeded else Inl tx_cpu_usage_exceeded)
      else if deadline_exception_code ctx = leeway_deadline_exception then Inl leeway_deadline_exception
      else Inl transaction_exception)"

definition validate_cpu_usage_to_bill :: "trx_env \<Rightarrow> int \<Rightarrow> bool \<Rightarrow> ('k, 'h) trx_context \<Rightarrow> unit result" where
  "validate_cpu_usage_to_bill env billed_us check_minimum ctx =
     (if skip_trx_checks env then Inr ()
      else
        bind_r (if check_minimum then eos_assert (billed_us \<ge> int (min_transaction_cpu_usage (configuration env))) transaction_exception
                else Inr ()) (\<lambda>_.
        eos_assert (billed_us \<le> objective_duration_limit ctx)
          (if billing_timer_exception_code ctx = block_cpu_usage_exceeded then block_cpu_usage_exceeded
           else if cpu_limit_due_to_greylist ctx then greylist_cpu_usage_exceeded else tx_cpu_usage_exceeded)))"

text \<open>The least of the limits of the accounts that have one, and whether a limit is not elastic.\<close>

definition large_number_no_overflow :: int where "large_number_no_overflow = (2 ^ 63 - 1) div 2"

definition lower_limit :: "bool \<Rightarrow> int \<Rightarrow> int \<times> bool \<Rightarrow> int \<times> bool" where
  "lower_limit elastic l = (\<lambda>(least, greylisted). if l \<ge> 0 then (min least l, greylisted \<or> \<not> elastic) else (least, greylisted))"

definition max_bandwidth_billed_accounts_can_pay ::
    "trx_env \<Rightarrow> bool \<Rightarrow> ('k, 'h) trx_context \<Rightarrow> ((int \<times> bool) \<times> int \<times> bool) result" where
  "max_bandwidth_billed_accounts_can_pay env force_elastic_limits ctx =
     fold_r (\<lambda>a (net, cpu).
        let elastic = (force_elastic_limits \<or> \<not> (producing_block env \<and> a \<in> set (resource_greylist env))) in
        bind_r (get_account_net_limit a elastic (rl ctx)) (\<lambda>n.
        bind_r (get_account_cpu_limit a elastic (rl ctx)) (\<lambda>c.
        Inr (lower_limit elastic n net, lower_limit elastic c cpu))))
       (bill_to_accounts ctx) ((large_number_no_overflow, False), (large_number_no_overflow, False))"

definition validate_expiration :: "trx_env \<Rightarrow> int \<Rightarrow> unit result" where
  "validate_expiration env block_time =
     bind_r (eos_assert (int (tx_expiration (trx env)) * 1000000 \<ge> block_time) expired_tx_exception) (\<lambda>_.
     eos_assert (int (tx_expiration (trx env)) * 1000000 \<le> block_time + int (max_transaction_lifetime (configuration env)) * 1000000)
       tx_exp_too_far_exception)"

definition verify_reference_block :: "node_trx \<Rightarrow> block_id_type \<Rightarrow> bool" where
  "verify_reference_block t i \<longleftrightarrow> tx_ref_block_num t = num_from_id i mod 2 ^ 16 \<and> tx_ref_block_prefix t = u32 (unat (hash1 i))"

definition validate_tapos :: "trx_env \<Rightarrow> unit result" where
  "validate_tapos env =
     (let n = tx_ref_block_num (trx env) mod 2 ^ 16 in
      bind_r (if n < length (block_summaries env) then Inr (block_summaries env ! n) else Inl out_of_range) (\<lambda>i.
      eos_assert (verify_reference_block (trx env) i) invalid_ref_block_exception))"

section \<open>Starting a transaction\<close>

text \<open>A limit on the billed time, by the exception that reports it.\<close>

definition limit_duration :: "trx_env \<Rightarrow> int \<Rightarrow> ('k, 'h) trx_context \<Rightarrow> ('k, 'h) trx_context" where
  "limit_duration env d ctx =
     (if d \<le> objective_duration_limit ctx
      then ctx\<lparr>objective_duration_limit := d, billing_timer_exception_code := tx_cpu_usage_exceeded, billing_deadline := start env + d\<rparr>
      else ctx)"

definition limit_net :: "nat \<Rightarrow> ('k, 'h) trx_context \<Rightarrow> ('k, 'h) trx_context" where
  "limit_net n ctx = (if n \<le> net_limit ctx then ctx\<lparr>net_limit := n, net_limit_due_to_block := False\<rparr> else ctx)"

definition init_limits :: "trx_env \<Rightarrow> ('k, 'h) trx_context \<Rightarrow> ('k, 'h) trx_context result" where
  "init_limits env ctx =
     bind_r (get_block_net_limit (rl ctx)) (\<lambda>nl.
     bind_r (get_block_cpu_limit (rl ctx)) (\<lambda>cl.
     let ctx = ctx\<lparr>net_limit := nl, objective_duration_limit := s64 (int cl), billing_deadline := start env + s64 (int cl)\<rparr>;
         ctx = limit_net (max_transaction_net_usage (configuration env)) ctx;
         ctx = limit_duration env (int (max_transaction_cpu_usage (configuration env))) ctx;
         words = u64 (max_net_usage_words (trx env) * 8);
         ctx = (if words > 0 then limit_net words ctx else ctx);
         ms = tx_max_cpu_usage_ms (trx env);
         ctx = (if ms > 0 then limit_duration env (int ms * 1000) ctx else ctx)
     in Inr (ctx\<lparr>initial_objective_duration_limit := objective_duration_limit ctx\<rparr>)))"

text \<open>The accounts to bill, a sorted set.\<close>

definition billed_accounts :: "node_trx \<Rightarrow> name list" where
  "billed_accounts t = sort (remdups (map actor (concat (map authorization (tx_actions t)))))"

definition init_deadline :: "trx_env \<Rightarrow> int \<Rightarrow> ('k, 'h) trx_context \<Rightarrow> ('k, 'h) trx_context" where
  "init_deadline env account_cpu_limit ctx =
     (let ctx = (if account_cpu_limit + leeway env \<le> billing_deadline ctx - start env
                 then ctx\<lparr>billing_deadline := start env + account_cpu_limit + leeway env,
                        billing_timer_exception_code := leeway_deadline_exception\<rparr> else ctx);
          ctx = ctx\<lparr>billing_timer_duration_limit := billing_deadline ctx - start env\<rparr>
      in if explicit_billed_cpu_time env \<or> deadline env < billing_deadline ctx
         then ctx\<lparr>billing_deadline := deadline env, deadline_exception_code := deadline_exception\<rparr>
         else ctx\<lparr>deadline_exception_code := billing_timer_exception_code ctx\<rparr>)"

text \<open>The limits and the deadline when it is known what the billed accounts can pay.\<close>

definition init_bandwidth :: "trx_env \<Rightarrow> (int \<times> bool) \<times> int \<times> bool \<Rightarrow> ('k, 'h) trx_context \<Rightarrow> ('k, 'h) trx_context" where
  "init_bandwidth env = (\<lambda>((account_net_limit, greylisted_net), account_cpu_limit, greylisted_cpu) ctx.
     let ctx = ctx\<lparr>net_limit_due_to_greylist := net_limit_due_to_greylist ctx \<or> greylisted_net,
                   cpu_limit_due_to_greylist := cpu_limit_due_to_greylist ctx \<or> greylisted_cpu,
                   eager_net_limit := net_limit ctx\<rparr>;
         eager = min (eager_net_limit ctx) (int_to_u64 (account_net_limit + int (net_usage_leeway (configuration env))));
         ctx = (if eager < eager_net_limit ctx then ctx\<lparr>eager_net_limit := eager, net_limit_due_to_block := False\<rparr> else ctx);
         ctx = init_deadline env account_cpu_limit ctx
     in ctx\<lparr>eager_net_limit := eager_net_limit ctx div 8 * 8\<rparr>)"

definition pending_slot :: "('k, 'h) trx_context \<Rightarrow> nat" where
  "pending_slot ctx = set_time_point (pending_block_time (auth_tables (tables ctx)))"

definition init :: "trx_env \<Rightarrow> bool \<Rightarrow> int \<Rightarrow> nat \<Rightarrow> ('k, 'h) trx_context \<Rightarrow> ('k, 'h) trx_context result" where
  "init env expired t initial_net_usage ctx =
     bind_r (eos_assert (\<not> is_initialized ctx) transaction_exception) (\<lambda>_.
     bind_r (init_limits env ctx) (\<lambda>ctx.
     bind_r (if billed_cpu_time_us ctx > 0 then validate_cpu_usage_to_bill env (billed_cpu_time_us ctx) False ctx else Inr ()) (\<lambda>_.
     let ctx = ctx\<lparr>bill_to_accounts := billed_accounts (trx env)\<rparr> in
     bind_r (update_account_usage (bill_to_accounts ctx) (pending_slot ctx) (rl ctx)) (\<lambda>r.
     let ctx = set_rl r ctx in
     bind_r (max_bandwidth_billed_accounts_can_pay env False ctx) (\<lambda>bandwidth.
     let ctx = init_bandwidth env bandwidth ctx in
     bind_r (if initial_net_usage > 0 then add_net_usage env initial_net_usage ctx else Inr ctx) (\<lambda>ctx.
     bind_r (checktime env expired t ctx) (\<lambda>_.
     Inr (ctx\<lparr>is_initialized := True\<rparr>))))))))"

definition init_for_implicit_trx :: "trx_env \<Rightarrow> bool \<Rightarrow> int \<Rightarrow> nat \<Rightarrow> ('k, 'h) trx_context \<Rightarrow> ('k, 'h) trx_context result" where
  "init_for_implicit_trx env expired t initial_net_usage ctx =
     init env expired t initial_net_usage (ctx\<lparr>ctx_published := pending_block_time (auth_tables (tables ctx))\<rparr>)"

text \<open>
  The network usage an input transaction starts with: prunable data at a discount, rounded up, and the cost of
  retiring a delayed transaction ahead of time.
\<close>

definition discounted_size :: "chain_config \<Rightarrow> nat \<Rightarrow> nat" where
  "discounted_size c prunable =
     (if context_free_discount_net_usage_den c > 0 \<and> context_free_discount_net_usage_num c < context_free_discount_net_usage_den c
      then int_to_u64 (int (u64 (prunable * context_free_discount_net_usage_num c)) + int (context_free_discount_net_usage_den c) - 1)
             div context_free_discount_net_usage_den c
      else prunable)"

definition input_net_usage :: "trx_env \<Rightarrow> nat \<Rightarrow> nat \<Rightarrow> nat" where
  "input_net_usage env unprunable prunable =
     (let base = base_per_transaction_net_usage (configuration env);
          usage = u64 (base + unprunable + discounted_size (configuration env) prunable)
      in if tx_delay_sec (trx env) > 0 then u64 (usage + base + 32) else usage)"

definition record_transaction :: "nat \<Rightarrow> nat \<Rightarrow> ('k, 'h) trx_context \<Rightarrow> ('k, 'h) trx_context result" where
  "record_transaction i expire ctx =
     (case tbl_create dedup_id \<lparr>dedup_id = i, dedup_expiration = expire\<rparr> (dedup_tbl ctx) of
        Inl _ \<Rightarrow> Inl tx_duplicate
      | Inr t \<Rightarrow> Inr (ctx\<lparr>dedup_tbl := t\<rparr>))"

definition init_for_input_trx ::
    "trx_env \<Rightarrow> bool \<Rightarrow> int \<Rightarrow> nat \<Rightarrow> nat \<Rightarrow> bool \<Rightarrow> ('k, 'h) trx_context \<Rightarrow> ('k, 'h) trx_context result" where
  "init_for_input_trx env expired t unprunable prunable skip_recording ctx =
     (let ctx = ctx\<lparr>ctx_published := pending_block_time (auth_tables (tables ctx)), is_input := True\<rparr> in
      bind_r
        (if skip_trx_checks env then Inr ()
         else bind_r (validate_expiration env (pending_block_time (auth_tables (tables ctx)))) (\<lambda>_.
              bind_r (validate_tapos env) (\<lambda>_. validate_referenced_accounts (trx env) (tables ctx)))) (\<lambda>_.
      bind_r (init env expired t (input_net_usage env unprunable prunable) ctx) (\<lambda>ctx.
      if skip_recording then Inr ctx else record_transaction (trx_ident env) (tx_expiration (trx env)) ctx)))"

definition init_for_deferred_trx :: "trx_env \<Rightarrow> bool \<Rightarrow> int \<Rightarrow> int \<Rightarrow> ('k, 'h) trx_context \<Rightarrow> ('k, 'h) trx_context result" where
  "init_for_deferred_trx env expired t p ctx = init env expired t 0 (ctx\<lparr>ctx_published := p, apply_context_free := False\<rparr>)"

section \<open>Running a transaction\<close>

text \<open>The transaction of a delay is kept as a deferred one without a sender.\<close>

definition first_authorizor :: "node_trx \<Rightarrow> name" where
  "first_authorizor x = (case concat (map authorization (tx_actions x)) of [] \<Rightarrow> 0 | u # _ \<Rightarrow> actor u)"

definition delayed_row :: "trx_env \<Rightarrow> packed \<Rightarrow> ('k, 'h) trx_context \<Rightarrow> generated_transaction_object" where
  "delayed_row env bytes ctx =
     (let pub = pending_block_time (auth_tables (tables ctx)); until = pub + delay ctx in
      \<lparr>trx_id = trx_ident env, sender = 0, sender_id = transaction_id_to_sender_id (trx_ident env),
       payer = first_authorizor (trx env), delay_until = until,
       expires = until + int (deferred_trx_expiration_window (configuration env)) * 1000000, published = pub,
       packed_trx = bytes, trx_authorizations = map authorization (tx_actions (trx env))\<rparr>)"

definition schedule_transaction :: "trx_env \<Rightarrow> ('k, 'h) trx_context \<Rightarrow> ('k, 'h) trx_context result" where
  "schedule_transaction env ctx =
     bind_r (if tx_delay_sec (trx env) = 0
             then add_net_usage env (base_per_transaction_net_usage (configuration env) + 32) ctx else Inr ctx) (\<lambda>ctx.
     bind_r (fc_out_trx (trx env)) (\<lambda>chunks.
     let row = delayed_row env (concat chunks) ctx; db = auth_tables (tables ctx) in
     bind_r (eos_assert (tbl_find trx_id (trx_id row) (generated db) = None
               \<and> tbl_find sender_key (sender_key row) (generated db) = None) logic_error) (\<lambda>_.
     bind_r (trx_add_ram_usage (payer row) (int (generated_transaction_object_size + packed_size row))
               ((tables ctx)\<lparr>auth_tables := db\<lparr>generated := generated db @ [row]\<rparr>\<rparr>)) (\<lambda>c.
     Inr (ctx\<lparr>tables := c\<rparr>)))))"

text \<open>\<open>run_action\<close> applies an action, native or contract code; the flag says whether it is context free.\<close>

definition exec_trx ::
    "(packed action \<Rightarrow> bool \<Rightarrow> ('k, 'h) trx_context \<Rightarrow> ('k, 'h) trx_context result) \<Rightarrow> trx_env \<Rightarrow>
      ('k, 'h) trx_context \<Rightarrow> ('k, 'h) trx_context result" where
  "exec_trx run_action env ctx =
     bind_r (eos_assert (is_initialized ctx) transaction_exception) (\<lambda>_.
     bind_r (if apply_context_free ctx then fold_r (\<lambda>a. run_action a True) (tx_context_free_actions (trx env)) ctx else Inr ctx) (\<lambda>ctx.
     if delay ctx = 0 then fold_r (\<lambda>a. run_action a False) (tx_actions (trx env)) ctx
     else schedule_transaction env ctx))"

definition pause_billing_timer :: "trx_env \<Rightarrow> int \<Rightarrow> ('k, 'h) trx_context \<Rightarrow> ('k, 'h) trx_context" where
  "pause_billing_timer env t ctx =
     (if explicit_billed_cpu_time env \<or> pseudo_start ctx = 0 then ctx
      else ctx\<lparr>billed_time := t - pseudo_start ctx, deadline_exception_code := deadline_exception, pseudo_start := 0\<rparr>)"

definition resume_billing_timer :: "trx_env \<Rightarrow> int \<Rightarrow> ('k, 'h) trx_context \<Rightarrow> ('k, 'h) trx_context" where
  "resume_billing_timer env t ctx =
     (if explicit_billed_cpu_time env \<or> pseudo_start ctx \<noteq> 0 then ctx
      else
        let ctx = ctx\<lparr>pseudo_start := t - billed_time ctx\<rparr> in
        if pseudo_start ctx + billing_timer_duration_limit ctx \<le> deadline env
        then ctx\<lparr>billing_deadline := pseudo_start ctx + billing_timer_duration_limit ctx,
               deadline_exception_code := billing_timer_exception_code ctx\<rparr>
        else ctx\<lparr>billing_deadline := deadline env, deadline_exception_code := deadline_exception\<rparr>)"

section \<open>Closing a transaction\<close>

definition update_billed_cpu_time :: "trx_env \<Rightarrow> int \<Rightarrow> ('k, 'h) trx_context \<Rightarrow> ('k, 'h) trx_context" where
  "update_billed_cpu_time env t ctx =
     (if explicit_billed_cpu_time env then ctx
      else ctx\<lparr>billed_cpu_time_us := max (t - pseudo_start ctx) (int (min_transaction_cpu_usage (configuration env)))\<rparr>)"

definition update_usages :: "permission_level list \<Rightarrow> 'k auth_db \<Rightarrow> 'k auth_db result" where
  "update_usages = fold_r (\<lambda>au db. bind_r (get_permission au db) (\<lambda>p. update_permission_usage p db))"

text \<open>The limits lowered to what the billed accounts can pay; the network usage rounded up to words.\<close>

definition finalize_limits :: "(int \<times> bool) \<times> int \<times> bool \<Rightarrow> ('k, 'h) trx_context \<Rightarrow> ('k, 'h) trx_context" where
  "finalize_limits = (\<lambda>((account_net_limit, greylisted_net), account_cpu_limit, greylisted_cpu) ctx.
     let ctx = ctx\<lparr>net_limit_due_to_greylist := net_limit_due_to_greylist ctx \<or> greylisted_net,
                   cpu_limit_due_to_greylist := cpu_limit_due_to_greylist ctx \<or> greylisted_cpu\<rparr>;
         ctx = limit_net (int_to_u64 account_net_limit) ctx;
         ctx = (if account_cpu_limit \<le> objective_duration_limit ctx
                then ctx\<lparr>objective_duration_limit := account_cpu_limit, billing_timer_exception_code := tx_cpu_usage_exceeded\<rparr> else ctx)
     in ctx\<lparr>net_usage := u64 (net_usage ctx + 7) div 8 * 8, eager_net_limit := net_limit ctx\<rparr>)"

text \<open>Everything but the last step: the RAM of the payers, and the bill checked against what the accounts can pay.\<close>

definition finalize_checks :: "trx_env \<Rightarrow> int \<Rightarrow> ('k, 'h) trx_context \<Rightarrow> ('k, 'h) trx_context result" where
  "finalize_checks env t ctx =
     bind_r (eos_assert (is_initialized ctx) transaction_exception) (\<lambda>_.
     bind_r (if is_input ctx then update_usages (concat (map authorization (tx_actions (trx env)))) (auth_tables (tables ctx))
             else Inr (auth_tables (tables ctx))) (\<lambda>adb.
     let ctx = ctx\<lparr>tables := (tables ctx)\<lparr>auth_tables := adb\<rparr>\<rparr> in
     bind_r (fold_r (\<lambda>a _. verify_account_ram_usage a (rl ctx)) (sorted_list_of_set (validate_ram_usage (tables ctx))) ()) (\<lambda>_.
     bind_r (max_bandwidth_billed_accounts_can_pay env False ctx) (\<lambda>bandwidth.
     let ctx = finalize_limits bandwidth ctx in
     bind_r (check_net_usage env ctx) (\<lambda>_.
     let ctx = update_billed_cpu_time env t ctx in
     bind_r (validate_cpu_usage_to_bill env (billed_cpu_time_us ctx) True ctx) (\<lambda>_.
     Inr ctx))))))"

text \<open>The readings of the clock for the per-day counters of the accounts are \<open>clock\<close>.\<close>

definition finalize_bill :: "(name \<Rightarrow> int \<times> int) \<Rightarrow> ('k, 'h) trx_context \<Rightarrow> ('k, 'h) trx_context result" where
  "finalize_bill clock ctx =
     bind_r (add_transaction_usage clock (bill_to_accounts ctx) (int_to_u64 (billed_cpu_time_us ctx)) (net_usage ctx)
               (pending_slot ctx) (rl ctx)) (\<lambda>r. Inr (set_rl r ctx))"

definition finalize :: "trx_env \<Rightarrow> (name \<Rightarrow> int \<times> int) \<Rightarrow> int \<Rightarrow> ('k, 'h) trx_context \<Rightarrow> ('k, 'h) trx_context result" where
  "finalize env clock t ctx = bind_r (finalize_checks env t ctx) (finalize_bill clock)"

end
