(* ===== verification/TrxBilling.thy ===== *)
theory TrxBilling
  imports TrxContext
begin

text \<open>
  Billing a transaction: what the checks of \<open>finalize\<close> allow, \<open>add_transaction_usage\<close> accepts.  The code marks
  the call as one that should never fail; it fails when the clock of the node has not moved on, and for
  transactions without network usage of accounts that have lost a part of their share.
\<close>

section \<open>The arithmetic of a window\<close>

text \<open>
  Usage is read rounded up and checked rounded down, so what is available can be used although the contribution
  to the average is rounded up as well: the window is shorter than the precision.
\<close>

lemma window_bill:
  fixes P W :: nat
  assumes "0 < W" and "W \<le> P" and "ceil_div (v * W) P + u \<le> m"
  shows "(v + ceil_div (u * P) W) * W div P \<le> m"
proof -
  have P: "0 < P" using assms by linarith
  have "ceil_div (u * P) W * W < u * P + W" by (rule ceil_div_mult_less [OF assms(1)])
  moreover have "v * W \<le> ceil_div (v * W) P * P"
  proof -
    have "v * W + P - 1 < (v * W + P - 1) div P * P + P"
      using div_mult_mod_eq [of "v * W + P - 1" P] mod_less_divisor [OF P, of "v * W + P - 1"] by linarith
    then show ?thesis using P by (simp add: ceil_div_def)
  qed
  ultimately have "(v + ceil_div (u * P) W) * W < (ceil_div (v * W) P + u) * P + P"
    using assms(2) by (simp add: algebra_simps)
  also have "\<dots> \<le> (m + 1) * P" using assms(3) by (simp add: algebra_simps) (metis distrib_left mult_le_mono2)
  finally show ?thesis using P by (simp add: less_mult_imp_div_less flip: less_Suc_eq_le)
qed

lemma max_user_use_mono:
  assumes "c \<le> c'" and "c' * w * nat x < 2 ^ 128"
  shows "max_user_use c w x tot \<le> max_user_use c' w x tot"
proof (cases "nat x = 0")
  case False
  have le: "c * w * nat x \<le> c' * w * nat x" using assms(1) by simp
  have "c' * w \<le> c' * w * nat x" using False mult_le_mono2 [of 1 "nat x" "c' * w"] by linarith
  then have "c' * w < 2 ^ 128" using assms(2) by linarith
  moreover from this have "c * w < 2 ^ 128" using mult_le_mono1 [OF assms(1), of w] by linarith
  moreover have "c * w * nat x < 2 ^ 128" using le assms(2) by linarith
  ultimately show ?thesis
    using assms(2) div_le_mono [OF le, of tot] by (simp add: max_user_use_def u128_def)
qed (simp add: max_user_use_def)

lemma window_limit_available:
  assumes "window_limit m us = Inr l" and "0 < k" and "int k \<le> available l"
  shows "us + k \<le> m"
  using assms by (auto simp: window_limit_def result_simps downgrade_cast_s64_def split: if_splits)

text \<open>What an accumulator is when a transaction is billed: of the slot of the block, and far from overflow.\<close>

definition accumulator_ready :: "nat \<Rightarrow> usage_accumulator \<Rightarrow> bool" where
  "accumulator_ready slot u \<longleftrightarrow> last_ordinal u = slot \<and> value_ex u < 2 ^ 63 \<and> consumed u < 2 ^ 63"

definition billed_usage :: "nat \<Rightarrow> nat \<Rightarrow> usage_accumulator \<Rightarrow> usage_accumulator" where
  "billed_usage k w u = u\<lparr>value_ex := value_ex u + ceil_div (k * rate_limiting_precision) w, consumed := consumed u + k\<rparr>"

lemma usage_add_ready:
  assumes "accumulator_ready slot u" and "slot < 2 ^ 32" and "0 < w" and "w < 2 ^ 32" and "k \<le> 2 ^ 33"
  shows "usage_add k slot w u = Inr (billed_usage k w u)"
proof -
  have "ceil_div (k * rate_limiting_precision) w \<le> k * rate_limiting_precision"
    using assms(3) by (intro ceil_div_le) simp_all
  then have c: "ceil_div (k * rate_limiting_precision) w \<le> 2 ^ 33 * 1000000"
    using assms(5) by (simp add: rate_limiting_precision_def)
  have ok: "usage_ok u" using assms(1,2) by (simp add: accumulator_ready_def usage_ok_def)
  have k: "k < 2 ^ 64" "k \<le> max_raw_value" "consumed u + k < 2 ^ 64"
    using assms(1,5) by (simp_all add: accumulator_ready_def max_raw_value_def rate_limiting_precision_def)
  have v: "value_ex u + ceil_div (k * rate_limiting_precision) w < 2 ^ 64"
    using assms(1) c by (simp add: accumulator_ready_def)
  show ?thesis
    unfolding usage_add_spec [OF ok assms(2-4) k(1)]
    using assms(1) k v by (simp add: Let_def decayed_def decay_fits_def accumulator_ready_def billed_usage_def)
qed

section \<open>One account\<close>

text \<open>
  The network and the CPU of an account are limited in the same way; \<open>within_available\<close> says that an amount fits
  what the account can still use, as \<open>get_account_net_limit\<close> and \<open>get_account_cpu_limit\<close> compute it.
\<close>

lemma share_kept:
  assumes "0 < w" and "w \<le> rate_limiting_precision" and "value_ex u < 2 ^ 63" and "k \<le> 2 ^ 33" and "0 < k"
    and "window_limit (max_user_use c w x tot) (ceil_div (u128 (value_ex u * w)) rate_limiting_precision) = Inr l"
    and "int k \<le> available l" and "c \<le> c'" and "c' * w * nat x < 2 ^ 128"
  shows "used_in_window (value_ex (billed_usage k w u)) w \<le> max_user_use c' w x tot"
proof -
  have w: "w \<le> 10 ^ 6" using assms(2) by (simp add: rate_limiting_precision_def)
  have "ceil_div (k * rate_limiting_precision) w \<le> k * rate_limiting_precision"
    using assms(1) by (intro ceil_div_le) simp_all
  then have "ceil_div (k * rate_limiting_precision) w \<le> 2 ^ 33 * 10 ^ 6"
    using assms(4) by (simp add: rate_limiting_precision_def)
  then have v: "value_ex u + ceil_div (k * rate_limiting_precision) w < 2 ^ 64" using assms(3) by simp
  have small: "(value_ex u + ceil_div (k * rate_limiting_precision) w) * w < 2 ^ 128"
    using mult_mono [of "value_ex u + ceil_div (k * rate_limiting_precision) w" "2 ^ 64" w "10 ^ 6"] v w by simp
  have "value_ex u * w \<le> (value_ex u + ceil_div (k * rate_limiting_precision) w) * w" by simp
  then have "value_ex u * w < 2 ^ 128" using small by linarith
  then have "ceil_div (value_ex u * w) rate_limiting_precision + k \<le> max_user_use c w x tot"
    using window_limit_available [OF assms(6,5,7)] by (simp add: u128_def)
  also have "\<dots> \<le> max_user_use c' w x tot" by (rule max_user_use_mono [OF assms(8,9)])
  finally have "(value_ex u + ceil_div (k * rate_limiting_precision) w) * w div rate_limiting_precision \<le> max_user_use c' w x tot"
    by (rule window_bill [OF assms(1,2)])
  then show ?thesis using small by (simp add: used_in_window_def billed_usage_def u128_def)
qed

text \<open>What the tables hold for an account that is billed in a block of the given slot.\<close>

definition account_ready :: "nat \<Rightarrow> resource_db \<Rightarrow> name \<Rightarrow> bool" where
  "account_ready slot db a \<longleftrightarrow>
     (\<exists>u d. usage_of a db = Some u \<and> accumulator_ready slot (Resources.net_usage u) \<and> accumulator_ready slot (cpu_usage u)
        \<and> tbl_find day_owner a (per_day_tbl db) = Some d)"

text \<open>The share of an account is computed without wrapping at 128 bits.\<close>

definition share_fits :: "resource_db \<Rightarrow> name \<Rightarrow> bool" where
  "share_fits db a \<longleftrightarrow>
     (\<forall>s cfg ram net cpu. state_obj db = Some s \<longrightarrow> config_obj db = Some cfg \<longrightarrow> get_account_limits_xos a db = Inr (ram, net, cpu) \<longrightarrow>
        virtual_net_limit s * account_net_usage_average_window cfg * nat net < 2 ^ 128 \<and>
        virtual_cpu_limit s * account_cpu_usage_average_window cfg * nat cpu < 2 ^ 128)"

definition clock_moved :: "(name \<Rightarrow> int \<times> int) \<Rightarrow> resource_db \<Rightarrow> name \<Rightarrow> bool" where
  "clock_moved clock db a \<longleftrightarrow> (\<exists>d. tbl_find day_owner a (per_day_tbl db) = Some d \<and> current_time (tx_usage d) < fst (clock a))"

text \<open>What an account has used of the network is more than its share: possible once the share has been reduced.\<close>

definition over_share :: "resource_db \<Rightarrow> name \<Rightarrow> bool" where
  "over_share db a \<longleftrightarrow>
     (case (state_obj db, config_obj db, usage_of a db, get_account_limits_xos a db) of
        (Some s, Some cfg, Some u, Inr (ram, net, cpu)) \<Rightarrow> \<not> net_within_share s cfg net u
      | _ \<Rightarrow> False)"

text \<open>What the bill of one account comes to.\<close>

definition bill_error :: "(name \<Rightarrow> int \<times> int) \<Rightarrow> nat \<Rightarrow> resource_db \<Rightarrow> name \<Rightarrow> chain_error option" where
  "bill_error clock n db a =
     (if \<not> clock_moved clock db a then Some resource_limit_exception
      else if n = 0 \<and> over_share db a then Some tx_net_usage_exceeded
      else None)"

definition windows_ok :: "resource_limits_state_object \<Rightarrow> resource_limits_config_object \<Rightarrow> bool" where
  "windows_ok s cfg \<longleftrightarrow>
     0 < account_net_usage_average_window cfg \<and> account_net_usage_average_window cfg \<le> rate_limiting_precision \<and>
     0 < account_cpu_usage_average_window cfg \<and> account_cpu_usage_average_window cfg \<le> rate_limiting_precision \<and>
     max_limit (net_limit_parameters cfg) \<le> virtual_net_limit s \<and> max_limit (cpu_limit_parameters cfg) \<le> virtual_cpu_limit s"

definition can_pay :: "bool \<Rightarrow> nat \<Rightarrow> nat \<Rightarrow> resource_db \<Rightarrow> name \<Rightarrow> bool" where
  "can_pay elastic c n db a \<longleftrightarrow>
     (\<exists>nl cl. get_account_net_limit a elastic db = Inr nl \<and> get_account_cpu_limit a elastic db = Inr cl
        \<and> (nl \<ge> 0 \<longrightarrow> int n \<le> nl) \<and> (cl \<ge> 0 \<longrightarrow> int c \<le> cl))"

lemma available_net:
  assumes "get_account_net_limit a elastic db = Inr nl" and "nl \<ge> 0 \<longrightarrow> int n \<le> nl"
    and "state_obj db = Some s" and "config_obj db = Some cfg" and "usage_of a db = Some u"
    and "get_account_limits_xos a db = Inr (ram, net, cpu)" and "net \<ge> 0" and "total_net_weight s > 0"
  shows "\<exists>l. window_limit (max_user_use (if elastic then virtual_net_limit s else max_limit (net_limit_parameters cfg))
      (account_net_usage_average_window cfg) net (total_net_weight s))
    (ceil_div (u128 (value_ex (Resources.net_usage u) * account_net_usage_average_window cfg)) rate_limiting_precision) = Inr l
    \<and> int n \<le> available l"
proof -
  have "0 < rate_limiting_precision" by (simp add: rate_limiting_precision_def)
  then obtain l where l: "window_limit (max_user_use (if elastic then virtual_net_limit s else max_limit (net_limit_parameters cfg))
      (account_net_usage_average_window cfg) net (total_net_weight s))
    (ceil_div (u128 (value_ex (Resources.net_usage u) * account_net_usage_average_window cfg)) rate_limiting_precision) = Inr l"
    and nl: "nl = available l"
    using assms
    by (auto simp: get_account_net_limit_def get_account_net_limit_ex_def get_config_def get_state_def usage_of_def tbl_get_def
        integer_divide_ceil_eq result_simps Let_def)
  have "0 \<le> available l" using l by (auto simp: window_limit_def result_simps downgrade_cast_s64_def split: if_splits)
  then show ?thesis using l nl assms(2) by blast
qed

lemma available_cpu:
  assumes "get_account_cpu_limit a elastic db = Inr cl" and "cl \<ge> 0 \<longrightarrow> int c \<le> cl"
    and "state_obj db = Some s" and "config_obj db = Some cfg" and "usage_of a db = Some u"
    and "get_account_limits_xos a db = Inr (ram, net, cpu)" and "cpu \<ge> 0" and "total_cpu_weight s > 0"
  shows "\<exists>l. window_limit (max_user_use (if elastic then virtual_cpu_limit s else max_limit (cpu_limit_parameters cfg))
      (account_cpu_usage_average_window cfg) cpu (total_cpu_weight s))
    (ceil_div (u128 (value_ex (cpu_usage u) * account_cpu_usage_average_window cfg)) rate_limiting_precision) = Inr l
    \<and> int c \<le> available l"
proof -
  have "0 < rate_limiting_precision" by (simp add: rate_limiting_precision_def)
  then obtain l where l: "window_limit (max_user_use (if elastic then virtual_cpu_limit s else max_limit (cpu_limit_parameters cfg))
      (account_cpu_usage_average_window cfg) cpu (total_cpu_weight s))
    (ceil_div (u128 (value_ex (cpu_usage u) * account_cpu_usage_average_window cfg)) rate_limiting_precision) = Inr l"
    and nl: "cl = available l"
    using assms
    by (auto simp: get_account_cpu_limit_def get_account_cpu_limit_ex_def get_config_def get_state_def usage_of_def tbl_get_def
        integer_divide_ceil_eq result_simps Let_def)
  have "0 \<le> available l" using l by (auto simp: window_limit_def result_simps downgrade_cast_s64_def split: if_splits)
  then show ?thesis using l nl assms(2) by blast
qed

lemma limits_known:
  assumes "get_account_net_limit a elastic db = Inr nl"
  obtains ram net cpu where "get_account_limits_xos a db = Inr (ram, net, cpu)"
  using assms by (auto simp: get_account_net_limit_def get_account_net_limit_ex_def result_simps)

lemma shares_after_bill:
  assumes "state_obj db = Some s" and "config_obj db = Some cfg" and "windows_ok s cfg" and "share_fits db a"
    and "can_pay elastic c n db a" and "0 < c" and "c \<le> 2 ^ 33" and "n \<le> 2 ^ 33"
    and "usage_of a db = Some u" and "accumulator_ready slot (Resources.net_usage u)" and "accumulator_ready slot (cpu_usage u)"
    and "get_account_limits_xos a db = Inr (ram, net, cpu)"
    and "Resources.net_usage u' = billed_usage n (account_net_usage_average_window cfg) (Resources.net_usage u)"
    and "cpu_usage u' = billed_usage c (account_cpu_usage_average_window cfg) (cpu_usage u)"
  shows "cpu_within_share s cfg cpu u'" and "net_within_share s cfg net u' \<longleftrightarrow> (n = 0 \<longrightarrow> net_within_share s cfg net u)"
proof -
  obtain nl cl where pay: "get_account_net_limit a elastic db = Inr nl" "nl \<ge> 0 \<longrightarrow> int n \<le> nl"
    "get_account_cpu_limit a elastic db = Inr cl" "cl \<ge> 0 \<longrightarrow> int c \<le> cl"
    using assms(5) by (auto simp: can_pay_def)
  have fits: "virtual_net_limit s * account_net_usage_average_window cfg * nat net < 2 ^ 128"
    "virtual_cpu_limit s * account_cpu_usage_average_window cfg * nat cpu < 2 ^ 128"
    using assms(1,2,4,12) by (auto simp: share_fits_def)
  have "net_within_share s cfg net u'" if "0 < n"
    unfolding net_within_share_def assms(13)
  proof
    assume lim: "0 \<le> net \<and> 0 < total_net_weight s"
    obtain l where l: "window_limit (max_user_use (if elastic then virtual_net_limit s else max_limit (net_limit_parameters cfg))
        (account_net_usage_average_window cfg) net (total_net_weight s))
      (ceil_div (u128 (value_ex (Resources.net_usage u) * account_net_usage_average_window cfg)) rate_limiting_precision) = Inr l"
      "int n \<le> available l"
      using available_net [OF pay(1,2) assms(1,2,9,12) conjunct1 [OF lim] conjunct2 [OF lim]]
      by (elim exE conjE) (rule that)
    show "used_in_window (value_ex (billed_usage n (account_net_usage_average_window cfg) (Resources.net_usage u)))
        (account_net_usage_average_window cfg)
      \<le> max_user_use (virtual_net_limit s) (account_net_usage_average_window cfg) net (total_net_weight s)"
      by (rule share_kept [OF _ _ _ assms(8) that l _ fits(1)])
        (use assms(3,10) in \<open>auto simp: windows_ok_def accumulator_ready_def\<close>)
  qed
  moreover have "net_within_share s cfg net u' = net_within_share s cfg net u" if "n = 0"
    using that assms(3) by (simp add: net_within_share_def assms(13) billed_usage_def ceil_div_def windows_ok_def)
  ultimately show "net_within_share s cfg net u' \<longleftrightarrow> (n = 0 \<longrightarrow> net_within_share s cfg net u)" by blast
  show "cpu_within_share s cfg cpu u'"
    unfolding cpu_within_share_def assms(14)
  proof
    assume lim: "0 \<le> cpu \<and> 0 < total_cpu_weight s"
    obtain l where l: "window_limit (max_user_use (if elastic then virtual_cpu_limit s else max_limit (cpu_limit_parameters cfg))
        (account_cpu_usage_average_window cfg) cpu (total_cpu_weight s))
      (ceil_div (u128 (value_ex (cpu_usage u) * account_cpu_usage_average_window cfg)) rate_limiting_precision) = Inr l"
      "int c \<le> available l"
      using available_cpu [OF pay(3,4) assms(1,2,9,12) conjunct1 [OF lim] conjunct2 [OF lim]]
      by (elim exE conjE) (rule that)
    show "used_in_window (value_ex (billed_usage c (account_cpu_usage_average_window cfg) (cpu_usage u)))
        (account_cpu_usage_average_window cfg)
      \<le> max_user_use (virtual_cpu_limit s) (account_cpu_usage_average_window cfg) cpu (total_cpu_weight s)"
      by (rule share_kept [OF _ _ _ assms(7,6) l _ fits(2)])
        (use assms(3,11) in \<open>auto simp: windows_ok_def accumulator_ready_def\<close>)
  qed
qed

text \<open>All that billing an account reads of the tables.\<close>

definition same_account :: "resource_db \<Rightarrow> resource_db \<Rightarrow> name \<Rightarrow> bool" where
  "same_account db db' a \<longleftrightarrow> usage_of a db' = usage_of a db \<and> get_account_limits_xos a db' = get_account_limits_xos a db
     \<and> tbl_find day_owner a (per_day_tbl db') = tbl_find day_owner a (per_day_tbl db)
     \<and> state_obj db' = state_obj db \<and> config_obj db' = config_obj db"

lemma same_account_ready:
  assumes "same_account db db' a"
  shows "account_ready slot db' a = account_ready slot db a" and "share_fits db' a = share_fits db a"
    and "bill_error clock n db' a = bill_error clock n db a" and "can_pay el c n db' a = can_pay el c n db a"
proof -
  have same: "usage_of a db' = usage_of a db" "get_account_limits_xos a db' = get_account_limits_xos a db"
    "tbl_find day_owner a (per_day_tbl db') = tbl_find day_owner a (per_day_tbl db)"
    "state_obj db' = state_obj db" "config_obj db' = config_obj db"
    using assms by (simp_all add: same_account_def)
  show "account_ready slot db' a = account_ready slot db a" "share_fits db' a = share_fits db a"
    "bill_error clock n db' a = bill_error clock n db a"
    by (simp_all add: account_ready_def share_fits_def bill_error_def over_share_def clock_moved_def same)
  have get: "tbl_get usage_owner a (usage_tbl db') = tbl_get usage_owner a (usage_tbl db)"
    using same(1) by (simp add: usage_of_def tbl_get_def)
  show "can_pay el c n db' a = can_pay el c n db a"
    by (simp add: can_pay_def get_account_net_limit_def get_account_net_limit_ex_def get_account_cpu_limit_def
        get_account_cpu_limit_ex_def get_config_def get_state_def same get)
qed

lemma add_account_usage_same:
  assumes "add_account_usage clock c n t s cfg a db = Inr db'" and "b \<noteq> a"
  shows "same_account db db' b"
proof -
  obtain d1 u' where d1: "d1 = db\<lparr>usage_tbl := tbl_modify usage_owner a (\<lambda>_. u') (usage_tbl db)\<rparr>"
    and x: "add_transaction_usage_xos (fst (clock a)) (snd (clock a)) a d1 = Inr db'"
    by (rule add_account_usage_steps [OF assms(1)])
  obtain d y where d: "tbl_find day_owner a (per_day_tbl db) = Some d"
    and db': "db' = d1\<lparr>per_day_tbl := tbl_modify day_owner a (\<lambda>_. d\<lparr>tx_usage := y\<rparr>) (per_day_tbl d1)\<rparr>"
    using x by (auto simp: add_transaction_usage_xos_def result_simps d1)
  have kd: "day_owner (d\<lparr>tx_usage := y\<rparr>) = a" using tbl_find_Some [OF d] by simp
  show ?thesis
    using add_account_usage_frame [OF assms] assms(2)
    by (simp add: same_account_def db' d1 tbl_find_replace [where key = day_owner, OF kd])
qed

lemma add_both_ready:
  assumes "windows_ok s cfg" and "slot < 2 ^ 32" and "c \<le> 2 ^ 33" and "n \<le> 2 ^ 33"
    and "accumulator_ready slot (Resources.net_usage u)" and "accumulator_ready slot (cpu_usage u)"
  shows "add_both n c slot cfg u = Inr (u\<lparr>Resources.net_usage := billed_usage n (account_net_usage_average_window cfg) (Resources.net_usage u),
    cpu_usage := billed_usage c (account_cpu_usage_average_window cfg) (cpu_usage u)\<rparr>)"
  using assms by (simp add: add_both_def usage_add_ready windows_ok_def rate_limiting_precision_def)

lemma bill_account:
  assumes "state_obj db = Some s" and "config_obj db = Some cfg" and "windows_ok s cfg" and "share_fits db a"
    and "can_pay elastic c n db a" and "0 < c" and "c \<le> 2 ^ 33" and "n \<le> 2 ^ 33"
    and "slot < 2 ^ 32" and "account_ready slot db a"
  shows "case bill_error clock n db a of None \<Rightarrow> \<exists>db'. add_account_usage clock c n slot s cfg a db = Inr db'
    | Some e \<Rightarrow> add_account_usage clock c n slot s cfg a db = Inl e"
proof -
  obtain u d where u: "usage_of a db = Some u" "accumulator_ready slot (Resources.net_usage u)" "accumulator_ready slot (cpu_usage u)"
    and d: "tbl_find day_owner a (per_day_tbl db) = Some d" using assms(10) by (auto simp: account_ready_def)
  obtain ram net cpu where lim: "get_account_limits_xos a db = Inr (ram, net, cpu)"
    using assms(5) by (auto simp: can_pay_def elim: limits_known)
  define u' where "u' = u\<lparr>Resources.net_usage := billed_usage n (account_net_usage_average_window cfg) (Resources.net_usage u),
    cpu_usage := billed_usage c (account_cpu_usage_average_window cfg) (cpu_usage u)\<rparr>"
  have both: "add_both n c slot cfg u = Inr u'"
    unfolding u'_def by (rule add_both_ready [OF assms(3,9,7,8) u(2,3)])
  have k: "usage_owner u' = a" using u(1) tbl_find_Some [of usage_owner a] by (auto simp: u'_def usage_of_def)
  have find: "tbl_find usage_owner a (usage_tbl db) = Some u" using u(1) by (simp add: usage_of_def)
  have share: "cpu_within_share s cfg cpu u'" "net_within_share s cfg net u' \<longleftrightarrow> \<not> (n = 0 \<and> over_share db a)"
    using shares_after_bill [OF assms(1-8) u lim] lim assms(1,2) u(1) by (auto simp: u'_def over_share_def)
  let ?net = "if net \<ge> 0 \<and> total_net_weight s > 0 then
      eos_assert (used_in_window (value_ex (Resources.net_usage u')) (account_net_usage_average_window cfg)
        \<le> max_user_use (virtual_net_limit s) (account_net_usage_average_window cfg) net (total_net_weight s)) tx_net_usage_exceeded
    else Inr ()"
  have net: "?net = (if net_within_share s cfg net u' then Inr () else Inl tx_net_usage_exceeded)"
    by (simp add: net_within_share_def eos_assert_def)
  have "\<exists>db'. add_account_usage clock c n slot s cfg a db =
      (if clock_moved clock db a then bind_r ?net (\<lambda>_. Inr db') else Inl resource_limit_exception)"
    using share(1) lim both find d
    by (simp add: add_account_usage_def tbl_get_def modify_usage_def add_transaction_usage_xos_def per_day_add_def
        clock_moved_def cpu_within_share_def eos_assert_def tbl_find_replace [where key = usage_owner, OF k] Let_def)
  then show ?thesis unfolding net share(2) by (auto simp: bill_error_def)
qed

lemma bill_accounts:
  assumes "distinct as" and "state_obj db = Some s" and "config_obj db = Some cfg" and "windows_ok s cfg"
    and "0 < c" and "c \<le> 2 ^ 33" and "n \<le> 2 ^ 33" and "slot < 2 ^ 32"
    and "\<And>a. a \<in> set as \<Longrightarrow> share_fits db a \<and> account_ready slot db a \<and> (\<exists>el. can_pay el c n db a)"
  shows "case List.map_filter (bill_error clock n db) as of [] \<Rightarrow> \<exists>db'. fold_r (add_account_usage clock c n slot s cfg) as db = Inr db'
    | e # _ \<Rightarrow> fold_r (add_account_usage clock c n slot s cfg) as db = Inl e"
  using assms
proof (induction as arbitrary: db)
  case (Cons a as)
  obtain el where a: "share_fits db a" "account_ready slot db a" "can_pay el c n db a" using Cons.prems(9) [of a] by auto
  note step = bill_account [OF Cons.prems(2,3,4) a(1,3) Cons.prems(5-8) a(2), of clock]
  show ?case
  proof (cases "bill_error clock n db a")
    case (Some e)
    then show ?thesis using step by (simp add: List.map_filter_simps)
  next
    case None
    then obtain d1 where d1: "add_account_usage clock c n slot s cfg a db = Inr d1" using step by auto
    have same: "same_account db d1 b" if "b \<in> set as" for b
      using that Cons.prems(1) by (intro add_account_usage_same [OF d1]) auto
    have obj: "state_obj d1 = Some s" "config_obj d1 = Some cfg"
      using d1 Cons.prems(2,3) by (auto elim!: add_account_usage_steps simp: add_transaction_usage_xos_def result_simps)
    have "List.map_filter (bill_error clock n d1) as = List.map_filter (bill_error clock n db) as"
      using same_account_ready(3) [OF same] by (auto simp: List.map_filter_def intro!: map_cong filter_cong)
    moreover have "share_fits d1 b \<and> account_ready slot d1 b \<and> (\<exists>el. can_pay el c n d1 b)" if "b \<in> set as" for b
      using Cons.prems(9) [of b] same_account_ready [OF same [OF that]] that by auto
    ultimately show ?thesis
      using Cons.IH [OF _ obj Cons.prems(4-8)] Cons.prems(1) d1 None
      by (cases "List.map_filter (bill_error clock n db) as") (simp_all add: List.map_filter_simps)
  qed
qed (simp add: List.map_filter_simps)

section \<open>All accounts of a transaction\<close>

lemma lower_limit_cases:
  "fst (lower_limit el l p) \<le> fst p \<and> (0 \<le> l \<longrightarrow> fst (lower_limit el l p) \<le> l) \<and> (0 \<le> fst p \<longrightarrow> 0 \<le> fst (lower_limit el l p))"
  by (cases p) (auto simp: lower_limit_def)

lemma bandwidth_fold:
  assumes "fold_r (\<lambda>a (net, cpu).
      bind_r (get_account_net_limit a (el a) db) (\<lambda>n.
      bind_r (get_account_cpu_limit a (el a) db) (\<lambda>c.
      Inr (lower_limit (el a) n net, lower_limit (el a) c cpu)))) as (x, y) = Inr (x', y')"
  shows "fst x' \<le> fst x \<and> fst y' \<le> fst y \<and> (0 \<le> fst x \<longrightarrow> 0 \<le> fst x') \<and> (0 \<le> fst y \<longrightarrow> 0 \<le> fst y') \<and>
    (\<forall>a\<in>set as. \<exists>n c. get_account_net_limit a (el a) db = Inr n \<and> get_account_cpu_limit a (el a) db = Inr c
       \<and> (0 \<le> n \<longrightarrow> fst x' \<le> n) \<and> (0 \<le> c \<longrightarrow> fst y' \<le> c))"
  using assms
proof (induction as arbitrary: x y)
  case (Cons a as)
  then obtain n c where nc: "get_account_net_limit a (el a) db = Inr n" "get_account_cpu_limit a (el a) db = Inr c"
    by (auto simp: result_simps)
  let ?x = "lower_limit (el a) n x" and ?y = "lower_limit (el a) c y"
  have ih: "fst x' \<le> fst ?x \<and> fst y' \<le> fst ?y \<and> (0 \<le> fst ?x \<longrightarrow> 0 \<le> fst x') \<and> (0 \<le> fst ?y \<longrightarrow> 0 \<le> fst y') \<and>
    (\<forall>a\<in>set as. \<exists>n c. get_account_net_limit a (el a) db = Inr n \<and> get_account_cpu_limit a (el a) db = Inr c
       \<and> (0 \<le> n \<longrightarrow> fst x' \<le> n) \<and> (0 \<le> c \<longrightarrow> fst y' \<le> c))"
    using Cons.prems by (intro Cons.IH) (simp add: nc)
  have low: "fst ?x \<le> fst x" "0 \<le> n \<longrightarrow> fst ?x \<le> n" "0 \<le> fst x \<longrightarrow> 0 \<le> fst ?x"
    "fst ?y \<le> fst y" "0 \<le> c \<longrightarrow> fst ?y \<le> c" "0 \<le> fst y \<longrightarrow> 0 \<le> fst ?y"
    using lower_limit_cases [of "el a" n x] lower_limit_cases [of "el a" c y] by auto
  have "fst x' \<le> fst x" "fst y' \<le> fst y" "0 \<le> n \<longrightarrow> fst x' \<le> n" "0 \<le> c \<longrightarrow> fst y' \<le> c" using ih low by linarith+
  then show ?case using ih low nc by simp
qed simp

text \<open>A bill that stays below the bandwidth of the accounts can be paid by each of them.\<close>

lemma bandwidth_can_pay:
  assumes "max_bandwidth_billed_accounts_can_pay env force ctx = Inr ((nl, g), cl, g')"
    and "int n \<le> nl" and "int c \<le> cl" and "a \<in> set (bill_to_accounts ctx)"
  shows "\<exists>el. can_pay el c n (rl ctx) a"
proof -
  let ?el = "\<lambda>a. force \<or> \<not> (trx_env.producing_block env \<and> a \<in> set (resource_greylist env))"
  have "\<exists>n c. get_account_net_limit a (?el a) (rl ctx) = Inr n \<and> get_account_cpu_limit a (?el a) (rl ctx) = Inr c
       \<and> (0 \<le> n \<longrightarrow> nl \<le> n) \<and> (0 \<le> c \<longrightarrow> cl \<le> c)"
    using bandwidth_fold [of ?el "rl ctx" "bill_to_accounts ctx" "(large_number_no_overflow, False)"
        "(large_number_no_overflow, False)" "(nl, g)" "(cl, g')"] assms(1,4)
    unfolding max_bandwidth_billed_accounts_can_pay_def Let_def by auto
  then show ?thesis using assms(2,3) unfolding can_pay_def by (intro exI [of _ "?el a"]) force
qed

lemma bandwidth_range:
  assumes "max_bandwidth_billed_accounts_can_pay env force ctx = Inr ((nl, g), cl, g')"
  shows "0 \<le> nl" and "nl < 2 ^ 63" and "0 \<le> cl"
  using bandwidth_fold [of "\<lambda>a. force \<or> \<not> (trx_env.producing_block env \<and> a \<in> set (resource_greylist env))" "rl ctx"
      "bill_to_accounts ctx" "(large_number_no_overflow, False)" "(large_number_no_overflow, False)" "(nl, g)" "(cl, g')"] assms
  unfolding max_bandwidth_billed_accounts_can_pay_def Let_def by (auto simp: large_number_no_overflow_def)

text \<open>
  What holds between \<open>init\<close> and \<open>finalize\<close>: the limits of the transaction fit into what is left of the block, and
  the accounts are ready to be billed.
\<close>

definition billing_prepared :: "('k, 'h) trx_context \<Rightarrow> bool" where
  "billing_prepared ctx \<longleftrightarrow>
     (\<exists>s cfg. state_obj (rl ctx) = Some s \<and> config_obj (rl ctx) = Some cfg \<and> windows_ok s cfg
        \<and> pending_net_usage s + net_limit ctx \<le> max_limit (net_limit_parameters cfg) \<and> max_limit (net_limit_parameters cfg) < 2 ^ 64
        \<and> int (pending_cpu_usage s) + objective_duration_limit ctx \<le> int (max_limit (cpu_limit_parameters cfg))
        \<and> max_limit (cpu_limit_parameters cfg) < 2 ^ 64)
     \<and> net_limit ctx \<le> 2 ^ 32 \<and> objective_duration_limit ctx \<le> 2 ^ 32 \<and> distinct (bill_to_accounts ctx)
     \<and> (\<forall>a\<in>set (bill_to_accounts ctx). account_ready (pending_slot ctx) (rl ctx) a)"

lemma update_usages_time:
  assumes "update_usages aus db = Inr db'"
  shows "pending_block_time db' = pending_block_time db"
  using assms unfolding update_usages_def
  by (rule fold_r_invariant [where P = "\<lambda>d. pending_block_time d = pending_block_time db"])
    (auto simp: update_permission_usage_def result_simps)

lemma finalize_limits_fields:
  "net_limit (finalize_limits ((nl, g), cl, g') ctx) = min (int_to_u64 nl) (net_limit ctx)"
  "eager_net_limit (finalize_limits ((nl, g), cl, g') ctx) = min (int_to_u64 nl) (net_limit ctx)"
  "objective_duration_limit (finalize_limits ((nl, g), cl, g') ctx) = min cl (objective_duration_limit ctx)"
  "net_usage (finalize_limits ((nl, g), cl, g') ctx) = u64 (net_usage ctx + 7) div 8 * 8"
  "tables (finalize_limits ((nl, g), cl, g') ctx) = tables ctx"
  "bill_to_accounts (finalize_limits ((nl, g), cl, g') ctx) = bill_to_accounts ctx"
  by (simp_all add: finalize_limits_def Let_def limit_net_def)

lemma update_billed_fields:
  "net_usage (update_billed_cpu_time env t ctx) = net_usage ctx" "tables (update_billed_cpu_time env t ctx) = tables ctx"
  "objective_duration_limit (update_billed_cpu_time env t ctx) = objective_duration_limit ctx"
  "bill_to_accounts (update_billed_cpu_time env t ctx) = bill_to_accounts ctx"
  by (simp_all add: update_billed_cpu_time_def)

lemma finalize_checks_steps:
  assumes "finalize_checks env t ctx = Inr ctx'" and "\<not> trx_env.skip_trx_checks env"
  shows "\<exists>nl g cl g'. max_bandwidth_billed_accounts_can_pay env False ctx' = Inr ((nl, g), cl, g') \<and>
    int (net_usage ctx') \<le> nl \<and> net_usage ctx' \<le> net_limit ctx \<and> net_usage ctx' = u64 (net_usage ctx + 7) div 8 * 8 \<and>
    billed_cpu_time_us ctx' \<le> cl \<and> billed_cpu_time_us ctx' \<le> objective_duration_limit ctx \<and>
    int (min_transaction_cpu_usage (configuration env)) \<le> billed_cpu_time_us ctx' \<and>
    rl ctx' = rl ctx \<and> bill_to_accounts ctx' = bill_to_accounts ctx \<and> pending_slot ctx' = pending_slot ctx"
proof -
  obtain adb nl g cl g' where adb: "pending_block_time adb = pending_block_time (auth_tables (tables ctx))"
    and bw: "max_bandwidth_billed_accounts_can_pay env False (ctx\<lparr>tables := (tables ctx)\<lparr>auth_tables := adb\<rparr>\<rparr>) = Inr ((nl, g), cl, g')"
    and ctx': "ctx' = update_billed_cpu_time env t (finalize_limits ((nl, g), cl, g') (ctx\<lparr>tables := (tables ctx)\<lparr>auth_tables := adb\<rparr>\<rparr>))"
    and net: "check_net_usage env (finalize_limits ((nl, g), cl, g') (ctx\<lparr>tables := (tables ctx)\<lparr>auth_tables := adb\<rparr>\<rparr>)) = Inr ()"
    and cpu: "validate_cpu_usage_to_bill env (billed_cpu_time_us ctx') True ctx' = Inr ()"
    using assms(1) unfolding finalize_checks_def Let_def
    by (auto simp: result_simps split: if_splits dest: update_usages_time)
  have nl: "int_to_u64 nl = nat nl" using bandwidth_range [OF bw] by (simp add: int_to_u64_def)
  have "max_bandwidth_billed_accounts_can_pay env False ctx' = Inr ((nl, g), cl, g')"
    using bw by (simp add: max_bandwidth_billed_accounts_can_pay_def ctx' update_billed_fields finalize_limits_fields)
  moreover have "net_usage ctx' \<le> min (nat nl) (net_limit ctx)" "net_usage ctx' = u64 (net_usage ctx + 7) div 8 * 8"
    using net assms(2) by (auto simp: check_net_usage_def finalize_limits_fields ctx' update_billed_fields nl split: if_splits)
  moreover have "billed_cpu_time_us ctx' \<le> min cl (objective_duration_limit ctx)"
    "int (min_transaction_cpu_usage (configuration env)) \<le> billed_cpu_time_us ctx'"
    using cpu assms(2) ctx' by (auto simp: validate_cpu_usage_to_bill_def result_simps finalize_limits_fields update_billed_fields)
  moreover have "tables ctx' = (tables ctx)\<lparr>auth_tables := adb\<rparr>" "bill_to_accounts ctx' = bill_to_accounts ctx"
    by (simp_all add: ctx' update_billed_fields finalize_limits_fields)
  ultimately show ?thesis
    using adb bandwidth_range [OF bw] by (auto simp: pending_slot_def)
qed

lemma pending_slot_range [simp]: "pending_slot ctx < 2 ^ 32"
  by (simp add: pending_slot_def set_time_point_def u32_def)

lemma round_up_zero: "n < 2 ^ 63 \<Longrightarrow> u64 (n + 7) div 8 * (8 :: nat) = 0 \<longleftrightarrow> n = 0"
  by (simp add: div_eq_0_iff)

lemma finalize_ready:
  assumes "billing_prepared ctx" and "\<forall>a\<in>set (bill_to_accounts ctx). share_fits (rl ctx) a" and "\<not> trx_env.skip_trx_checks env" and "0 < min_transaction_cpu_usage (configuration env)"
    and "net_usage ctx < 2 ^ 63" and "finalize_checks env t ctx = Inr ctx'"
  shows "case List.map_filter (bill_error clock (net_usage ctx) (rl ctx)) (bill_to_accounts ctx) of
      [] \<Rightarrow> \<exists>c. finalize env clock t ctx = Inr c
    | e # _ \<Rightarrow> finalize env clock t ctx = Inl e"
proof -
  obtain nl g cl g' where bw: "max_bandwidth_billed_accounts_can_pay env False ctx' = Inr ((nl, g), cl, g')"
    and net: "int (net_usage ctx') \<le> nl" "net_usage ctx' \<le> net_limit ctx" "net_usage ctx' = u64 (net_usage ctx + 7) div 8 * 8"
    and cpu: "billed_cpu_time_us ctx' \<le> cl" "billed_cpu_time_us ctx' \<le> objective_duration_limit ctx"
      "int (min_transaction_cpu_usage (configuration env)) \<le> billed_cpu_time_us ctx'"
    and same: "rl ctx' = rl ctx" "bill_to_accounts ctx' = bill_to_accounts ctx" "pending_slot ctx' = pending_slot ctx"
    using finalize_checks_steps [OF assms(6,3)] by blast
  obtain s cfg where s: "state_obj (rl ctx) = Some s" "config_obj (rl ctx) = Some cfg" "windows_ok s cfg"
    and room: "pending_net_usage s + net_limit ctx \<le> max_limit (net_limit_parameters cfg)" "max_limit (net_limit_parameters cfg) < 2 ^ 64"
      "int (pending_cpu_usage s) + objective_duration_limit ctx \<le> int (max_limit (cpu_limit_parameters cfg))"
      "max_limit (cpu_limit_parameters cfg) < 2 ^ 64"
    and lim: "net_limit ctx \<le> 2 ^ 32" "objective_duration_limit ctx \<le> 2 ^ 32" "distinct (bill_to_accounts ctx)"
    and acc: "\<And>a. a \<in> set (bill_to_accounts ctx) \<Longrightarrow> account_ready (pending_slot ctx) (rl ctx) a \<and> share_fits (rl ctx) a"
    using assms(1,2) unfolding billing_prepared_def by auto
  define c where "c = nat (billed_cpu_time_us ctx')"
  have c: "0 < c" "c \<le> 2 ^ 33" "int c = billed_cpu_time_us ctx'" "int_to_u64 (billed_cpu_time_us ctx') = c"
    using cpu(2,3) lim(2) assms(4) by (simp_all add: c_def int_to_u64_def)
  have n: "net_usage ctx' \<le> 2 ^ 33" "net_usage ctx' = 0 \<longleftrightarrow> net_usage ctx = 0"
    using round_up_zero [OF assms(5)] net(2,3) lim(1) by simp_all
  have err: "bill_error clock (net_usage ctx') (rl ctx) = bill_error clock (net_usage ctx) (rl ctx)" using n(2) by (simp add: bill_error_def fun_eq_iff)
  have pay: "share_fits (rl ctx) a \<and> account_ready (pending_slot ctx) (rl ctx) a \<and> (\<exists>el. can_pay el c (net_usage ctx') (rl ctx) a)"
    if "a \<in> set (bill_to_accounts ctx)" for a
    using acc [OF that] bandwidth_can_pay [OF bw net(1), of c a] cpu(1) c(3) that same by simp
  have block: "u64 (pending_cpu_usage s + c) \<le> max_limit (cpu_limit_parameters cfg)"
    "u64 (pending_net_usage s + net_usage ctx') \<le> max_limit (net_limit_parameters cfg)"
    using room net(2) cpu(2) c(3) u64_le [of "pending_cpu_usage s + c"] u64_le [of "pending_net_usage s + net_usage ctx'"] by linarith+
  have fin: "finalize env clock t ctx = bind_r (add_transaction_usage clock (bill_to_accounts ctx) c (net_usage ctx') (pending_slot ctx) (rl ctx))
      (\<lambda>r. Inr (set_rl r ctx'))"
    by (simp add: finalize_def finalize_bill_def assms(6) c(4) same)
  show ?thesis
    using bill_accounts [OF lim(3) s c(1,2) n(1) pending_slot_range pay, of clock] block unfolding err
    by (auto simp: fin add_transaction_usage_def get_state_def get_config_def s Let_def split: if_splits list.splits)
qed

section \<open>What the start of a transaction sets up\<close>

text \<open>The tables before a transaction starts: usage at most of the current slot, and nothing near an overflow.\<close>

definition usage_small :: "nat \<Rightarrow> usage_accumulator \<Rightarrow> bool" where
  "usage_small slot u \<longleftrightarrow> last_ordinal u \<le> slot \<and> value_ex u < 2 ^ 63 \<and> consumed u < 2 ^ 63"

definition resources_ready :: "chain_config \<Rightarrow> nat \<Rightarrow> name list \<Rightarrow> resource_db \<Rightarrow> bool" where
  "resources_ready cc slot as db \<longleftrightarrow>
     (\<exists>s cfg. state_obj db = Some s \<and> config_obj db = Some cfg \<and> windows_ok s cfg
        \<and> pending_net_usage s \<le> max_limit (net_limit_parameters cfg) \<and> max_limit (net_limit_parameters cfg) < 2 ^ 63
        \<and> pending_cpu_usage s \<le> max_limit (cpu_limit_parameters cfg) \<and> max_limit (cpu_limit_parameters cfg) < 2 ^ 63)
     \<and> max_transaction_net_usage cc < 2 ^ 32 \<and> max_transaction_cpu_usage cc < 2 ^ 32
     \<and> (\<forall>a\<in>set as. \<exists>u d. usage_of a db = Some u \<and> usage_small slot (Resources.net_usage u) \<and> usage_small slot (cpu_usage u)
          \<and> tbl_find day_owner a (per_day_tbl db) = Some d)"

lemma usage_add_zero:
  assumes "usage_add 0 slot w u = Inr u'" and "usage_small slot u" and "slot < 2 ^ 32" and "0 < w" and "w < 2 ^ 32"
  shows "accumulator_ready slot u'"
proof -
  have ok: "usage_ok u" using assms(2,3) by (simp add: usage_small_def usage_ok_def)
  have v: "decayed u slot w < 2 ^ 63" using decayed_le [OF assms(4), of u slot] assms(2) by (simp add: usage_small_def)
  then have "ceil_div (decayed u slot w) rate_limiting_precision \<le> 2 ^ 45" by (intro average_small) simp
  moreover have "ceil_div 0 w = 0" using assms(4) by (simp add: ceil_div_def)
  ultimately show ?thesis
    using assms(1,2) v unfolding usage_add_spec [OF ok assms(3-5), of 0, simplified]
    by (auto simp: Let_def accumulator_ready_def usage_small_def split: if_splits)
qed

lemma add_both_owner: "add_both n c t cfg u = Inr u' \<Longrightarrow> usage_owner u' = usage_owner u"
  by (auto simp: add_both_def result_simps)

lemma modify_usage_result:
  assumes "modify_usage a (add_both n c t cfg) db = Inr db'"
  shows "\<exists>u u'. usage_of a db = Some u \<and> add_both n c t cfg u = Inr u' \<and> usage_of a db' = Some u'"
    and "b \<noteq> a \<Longrightarrow> usage_of b db' = usage_of b db"
    and "db'\<lparr>usage_tbl := usage_tbl db\<rparr> = db"
proof -
  obtain u u' where u: "usage_of a db = Some u" "add_both n c t cfg u = Inr u'"
    and db': "db' = db\<lparr>usage_tbl := tbl_modify usage_owner a (\<lambda>_. u') (usage_tbl db)\<rparr>"
    using assms by (auto simp: modify_usage_def result_simps usage_of_def)
  have k: "usage_owner u' = a" using u tbl_find_Some [of usage_owner a] add_both_owner by (fastforce simp: usage_of_def)
  show "\<exists>u u'. usage_of a db = Some u \<and> add_both n c t cfg u = Inr u' \<and> usage_of a db' = Some u'"
    using u by (simp add: db' usage_of_def tbl_find_replace [where key = usage_owner, OF k])
  show "b \<noteq> a \<Longrightarrow> usage_of b db' = usage_of b db"
    by (simp add: db' usage_of_def tbl_find_replace [where key = usage_owner, OF k])
  show "db'\<lparr>usage_tbl := usage_tbl db\<rparr> = db" by (simp add: db')
qed

lemma update_fold_frame:
  assumes "fold_r (\<lambda>a. modify_usage a (add_both 0 0 slot cfg)) as db = Inr db'"
  shows "db'\<lparr>usage_tbl := usage_tbl db\<rparr> = db \<and> (\<forall>a. a \<notin> set as \<longrightarrow> usage_of a db' = usage_of a db)"
  using assms
proof (induction as arbitrary: db)
  case (Cons b as)
  then obtain d1 where d1: "modify_usage b (add_both 0 0 slot cfg) db = Inr d1"
    and rest: "fold_r (\<lambda>a. modify_usage a (add_both 0 0 slot cfg)) as d1 = Inr db'" by (auto simp: result_simps)
  note m = modify_usage_result [OF d1]
  have "db'\<lparr>usage_tbl := usage_tbl db\<rparr> = db'\<lparr>usage_tbl := usage_tbl d1\<rparr>\<lparr>usage_tbl := usage_tbl db\<rparr>" by simp
  then show ?case using Cons.IH [OF rest] m(2,3) by auto
qed simp

lemma update_fold_ready:
  assumes "fold_r (\<lambda>a. modify_usage a (add_both 0 0 slot cfg)) as db = Inr db'" and "distinct as" and "windows_ok s cfg" and "slot < 2 ^ 32"
    and "\<forall>a\<in>set as. \<exists>u d. usage_of a db = Some u \<and> usage_small slot (Resources.net_usage u) \<and> usage_small slot (cpu_usage u)
          \<and> tbl_find day_owner a (per_day_tbl db) = Some d"
  shows "\<forall>a\<in>set as. account_ready slot db' a"
  using assms
proof (induction as arbitrary: db)
  case (Cons b as)
  then obtain d1 where d1: "modify_usage b (add_both 0 0 slot cfg) db = Inr d1"
    and rest: "fold_r (\<lambda>a. modify_usage a (add_both 0 0 slot cfg)) as d1 = Inr db'" by (auto simp: result_simps)
  note m = modify_usage_result [OF d1]
  obtain u u' where u: "usage_of b db = Some u" "add_both 0 0 slot cfg u = Inr u'" "usage_of b d1 = Some u'" using m(1) by blast
  have small: "usage_small slot (Resources.net_usage u)" "usage_small slot (cpu_usage u)" using Cons.prems(5) u(1) by auto
  have w: "0 < account_net_usage_average_window cfg" "account_net_usage_average_window cfg < 2 ^ 32"
    "0 < account_cpu_usage_average_window cfg" "account_cpu_usage_average_window cfg < 2 ^ 32"
    using Cons.prems(3) by (simp_all add: windows_ok_def rate_limiting_precision_def)
  have rdy: "accumulator_ready slot (Resources.net_usage u')" "accumulator_ready slot (cpu_usage u')"
    using u(2) by (auto simp: add_both_def result_simps intro: usage_add_zero small w Cons.prems(4))
  have "per_day_tbl d1 = per_day_tbl db" using arg_cong [OF m(3), of per_day_tbl] by simp
  moreover have "per_day_tbl db' = per_day_tbl d1" using update_fold_frame [OF rest] by (metis resource_db.ext_inject resource_db.surjective resource_db.update_convs(2))
  moreover have "usage_of b db' = Some u'" using update_fold_frame [OF rest] Cons.prems(2) u(3) by simp
  ultimately have "account_ready slot db' b" using rdy Cons.prems(5) unfolding account_ready_def by auto
  moreover have "\<forall>a\<in>set as. \<exists>u d. usage_of a d1 = Some u \<and> usage_small slot (Resources.net_usage u) \<and> usage_small slot (cpu_usage u)
          \<and> tbl_find day_owner a (per_day_tbl d1) = Some d"
  proof
    fix a assume a: "a \<in> set as"
    then have "a \<noteq> b" using Cons.prems(2) by auto
    then show "\<exists>u d. usage_of a d1 = Some u \<and> usage_small slot (Resources.net_usage u) \<and> usage_small slot (cpu_usage u)
          \<and> tbl_find day_owner a (per_day_tbl d1) = Some d"
      using Cons.prems(5) a m(2) \<open>per_day_tbl d1 = per_day_tbl db\<close> by simp
  qed
  then have "\<forall>a\<in>set as. account_ready slot db' a"
    using Cons.IH [OF rest _ Cons.prems(3,4)] Cons.prems(2) by simp
  ultimately show ?case by simp
qed simp

lemma limit_net_fields [simp]:
  "net_limit (limit_net n ctx) = min n (net_limit ctx)" "tables (limit_net n ctx) = tables ctx"
  "objective_duration_limit (limit_net n ctx) = objective_duration_limit ctx"
  by (simp_all add: limit_net_def)

lemma limit_duration_fields [simp]:
  "objective_duration_limit (limit_duration env d ctx) = min d (objective_duration_limit ctx)"
  "tables (limit_duration env d ctx) = tables ctx" "net_limit (limit_duration env d ctx) = net_limit ctx"
  by (simp_all add: limit_duration_def)

lemma init_limits_fields:
  assumes "init_limits env ctx = Inr ctx'" and "get_block_net_limit (rl ctx) = Inr nl" and "get_block_cpu_limit (rl ctx) = Inr cl"
  shows "net_limit ctx' \<le> min (max_transaction_net_usage (configuration env)) nl"
    and "objective_duration_limit ctx' \<le> min (int (max_transaction_cpu_usage (configuration env))) (s64 (int cl))"
    and "tables ctx' = tables ctx"
proof -
  define c1 where "c1 = limit_duration env (int (max_transaction_cpu_usage (configuration env)))
    (limit_net (max_transaction_net_usage (configuration env))
      (ctx\<lparr>net_limit := nl, objective_duration_limit := s64 (int cl), billing_deadline := start env + s64 (int cl)\<rparr>))"
  define words where "words = u64 (max_net_usage_words (trx env) * 8)"
  define c2 where "c2 = (if words > 0 then limit_net words c1 else c1)"
  define c3 where "c3 = (if tx_max_cpu_usage_ms (trx env) > 0 then limit_duration env (int (tx_max_cpu_usage_ms (trx env)) * 1000) c2 else c2)"
  have "init_limits env ctx = Inr (c3\<lparr>initial_objective_duration_limit := objective_duration_limit c3\<rparr>)"
    unfolding init_limits_def assms(2,3) bind_r_simps Let_def c1_def c2_def c3_def words_def by (rule refl)
  then have ctx': "ctx' = c3\<lparr>initial_objective_duration_limit := objective_duration_limit c3\<rparr>" using assms(1) by simp
  have c1: "net_limit c1 = min (max_transaction_net_usage (configuration env)) nl"
    "objective_duration_limit c1 = min (int (max_transaction_cpu_usage (configuration env))) (s64 (int cl))" "tables c1 = tables ctx"
    by (simp_all add: c1_def)
  have c2: "net_limit c2 \<le> net_limit c1" "objective_duration_limit c2 = objective_duration_limit c1" "tables c2 = tables c1"
    by (simp_all add: c2_def)
  have c3: "net_limit c3 = net_limit c2" "objective_duration_limit c3 \<le> objective_duration_limit c2" "tables c3 = tables c2"
    by (simp_all add: c3_def)
  show "net_limit ctx' \<le> min (max_transaction_net_usage (configuration env)) nl" using c1(1) c2(1) c3(1) by (simp add: ctx')
  show "objective_duration_limit ctx' \<le> min (int (max_transaction_cpu_usage (configuration env))) (s64 (int cl))"
    using c1(2) c2(2) c3(2) by (simp add: ctx')
  show "tables ctx' = tables ctx" using c1(3) c2(3) c3(3) by (simp add: ctx')
qed

lemma init_limits_bounds:
  assumes "init_limits env ctx = Inr ctx'" and "state_obj (rl ctx) = Some s" and "config_obj (rl ctx) = Some cfg"
    and "pending_net_usage s \<le> max_limit (net_limit_parameters cfg)" and "max_limit (net_limit_parameters cfg) < 2 ^ 63"
    and "pending_cpu_usage s \<le> max_limit (cpu_limit_parameters cfg)" and "max_limit (cpu_limit_parameters cfg) < 2 ^ 63"
    and "max_transaction_net_usage (configuration env) < 2 ^ 32" and "max_transaction_cpu_usage (configuration env) < 2 ^ 32"
  shows "pending_net_usage s + net_limit ctx' \<le> max_limit (net_limit_parameters cfg)" and "net_limit ctx' \<le> 2 ^ 32"
    and "int (pending_cpu_usage s) + objective_duration_limit ctx' \<le> int (max_limit (cpu_limit_parameters cfg))"
    and "objective_duration_limit ctx' \<le> 2 ^ 32" and "tables ctx' = tables ctx"
proof -
  let ?nl = "max_limit (net_limit_parameters cfg) - pending_net_usage s" and ?cl = "max_limit (cpu_limit_parameters cfg) - pending_cpu_usage s"
  have nl: "int_to_u64 (int (max_limit (net_limit_parameters cfg)) - int (pending_net_usage s)) = ?nl"
    using assms(4,5) by (simp add: int_to_u64_def of_nat_diff)
  have cl: "int_to_u64 (int (max_limit (cpu_limit_parameters cfg)) - int (pending_cpu_usage s)) = ?cl" "s64 (int ?cl) = int ?cl"
    using assms(6,7) by (simp_all add: int_to_u64_def of_nat_diff s64_id)
  have get: "get_block_net_limit (rl ctx) = Inr ?nl" "get_block_cpu_limit (rl ctx) = Inr ?cl"
    by (simp_all add: get_block_net_limit_def get_block_cpu_limit_def get_state_def get_config_def assms(2,3) nl cl)
  have net: "net_limit ctx' \<le> ?nl" "net_limit ctx' \<le> max_transaction_net_usage (configuration env)"
    and cpu: "objective_duration_limit ctx' \<le> int ?cl" "objective_duration_limit ctx' \<le> int (max_transaction_cpu_usage (configuration env))"
    and tab: "tables ctx' = tables ctx"
    using init_limits_fields [OF assms(1) get] cl(2) by simp_all
  show "pending_net_usage s + net_limit ctx' \<le> max_limit (net_limit_parameters cfg)" using net(1) assms(4) by linarith
  show "net_limit ctx' \<le> 2 ^ 32" using net(2) assms(8) by linarith
  show "int (pending_cpu_usage s) + objective_duration_limit ctx' \<le> int (max_limit (cpu_limit_parameters cfg))"
    using cpu(1) assms(6) by linarith
  show "objective_duration_limit ctx' \<le> 2 ^ 32" using cpu(2) assms(9) by simp
  show "tables ctx' = tables ctx" by (rule tab)
qed

lemma billed_accounts_distinct: "distinct (billed_accounts x)"
  by (simp add: billed_accounts_def)

lemma init_deadline_fields [simp]:
  "tables (init_deadline env d ctx) = tables ctx" "bill_to_accounts (init_deadline env d ctx) = bill_to_accounts ctx"
  "net_limit (init_deadline env d ctx) = net_limit ctx" "objective_duration_limit (init_deadline env d ctx) = objective_duration_limit ctx"
  by (simp_all add: init_deadline_def Let_def)

lemma init_bandwidth_fields [simp]:
  "tables (init_bandwidth env b ctx) = tables ctx" "bill_to_accounts (init_bandwidth env b ctx) = bill_to_accounts ctx"
  "net_limit (init_bandwidth env b ctx) = net_limit ctx" "objective_duration_limit (init_bandwidth env b ctx) = objective_duration_limit ctx"
  by (simp_all add: init_bandwidth_def Let_def split: prod.splits)

lemma add_net_usage_fields:
  assumes "TrxContext.add_net_usage env n ctx = Inr ctx'"
  shows "ctx' = ctx\<lparr>net_usage := u64 (net_usage ctx + n)\<rparr>"
  using assms by (auto simp: TrxContext.add_net_usage_def Let_def result_simps)

lemma init_steps:
  assumes "init env expired t n ctx = Inr ctx'"
  shows "\<exists>c1 r. init_limits env ctx = Inr c1 \<and> update_account_usage (billed_accounts (trx env)) (pending_slot c1) (rl c1) = Inr r
    \<and> tables ctx' = (tables c1)\<lparr>resource_tables := r\<rparr> \<and> bill_to_accounts ctx' = billed_accounts (trx env)
    \<and> net_limit ctx' = net_limit c1 \<and> objective_duration_limit ctx' = objective_duration_limit c1"
proof -
  obtain c1 r b c3 where c1: "init_limits env ctx = Inr c1"
    and r: "update_account_usage (billed_accounts (trx env)) (pending_slot (c1\<lparr>bill_to_accounts := billed_accounts (trx env)\<rparr>)) (rl c1) = Inr r"
    and c3: "(if n > 0 then TrxContext.add_net_usage env n (init_bandwidth env b (set_rl r (c1\<lparr>bill_to_accounts := billed_accounts (trx env)\<rparr>)))
      else Inr (init_bandwidth env b (set_rl r (c1\<lparr>bill_to_accounts := billed_accounts (trx env)\<rparr>)))) = Inr c3"
    and ctx': "ctx' = c3\<lparr>is_initialized := True\<rparr>"
    using assms unfolding init_def Let_def bind_r_eq_Inr by (elim exE conjE) auto
  then show ?thesis
    by (auto simp: pending_slot_def split: if_splits dest!: add_net_usage_fields)
qed

lemma init_ready:
  assumes "init env expired t n ctx = Inr ctx'"
    and "resources_ready (configuration env) (pending_slot ctx) (billed_accounts (trx env)) (rl ctx)"
  shows "billing_prepared ctx'"
    and "bill_to_accounts ctx' = billed_accounts (trx env)"
proof -
  obtain s cfg where s: "state_obj (rl ctx) = Some s" "config_obj (rl ctx) = Some cfg" "windows_ok s cfg"
    and room: "pending_net_usage s \<le> max_limit (net_limit_parameters cfg)" "max_limit (net_limit_parameters cfg) < 2 ^ 63"
      "pending_cpu_usage s \<le> max_limit (cpu_limit_parameters cfg)" "max_limit (cpu_limit_parameters cfg) < 2 ^ 63"
    and cc: "max_transaction_net_usage (configuration env) < 2 ^ 32" "max_transaction_cpu_usage (configuration env) < 2 ^ 32"
    and rows: "\<forall>a\<in>set (billed_accounts (trx env)). \<exists>u d. usage_of a (rl ctx) = Some u \<and> usage_small (pending_slot ctx) (Resources.net_usage u)
      \<and> usage_small (pending_slot ctx) (cpu_usage u) \<and> tbl_find day_owner a (per_day_tbl (rl ctx)) = Some d"
    using assms(2) unfolding resources_ready_def by auto
  obtain c1 r where c1: "init_limits env ctx = Inr c1"
    and r: "update_account_usage (billed_accounts (trx env)) (pending_slot c1) (rl c1) = Inr r"
    and ctx': "tables ctx' = (tables c1)\<lparr>resource_tables := r\<rparr>" "bill_to_accounts ctx' = billed_accounts (trx env)"
      "net_limit ctx' = net_limit c1" "objective_duration_limit ctx' = objective_duration_limit c1"
    using init_steps [OF assms(1)] by blast
  note lim = init_limits_bounds [OF c1 s(1,2) room cc]
  have slot: "pending_slot c1 = pending_slot ctx" "pending_slot ctx' = pending_slot ctx" using lim(5) ctx'(1) by (simp_all add: pending_slot_def)
  have run: "fold_r (\<lambda>a. modify_usage a (add_both 0 0 (pending_slot ctx) cfg)) (billed_accounts (trx env)) (rl ctx) = Inr r"
    using r lim(5) s(2) slot(1) by (simp add: update_account_usage_def get_config_def)
  have obj: "state_obj r = Some s" "config_obj r = Some cfg"
    using arg_cong [OF conjunct1 [OF update_fold_frame [OF run]], of state_obj] arg_cong [OF conjunct1 [OF update_fold_frame [OF run]], of config_obj] s
    by simp_all
  have "\<forall>a\<in>set (billed_accounts (trx env)). account_ready (pending_slot ctx) r a"
    by (rule update_fold_ready [OF run billed_accounts_distinct s(3) pending_slot_range rows])
  moreover have "max_limit (net_limit_parameters cfg) < 2 ^ 64" "max_limit (cpu_limit_parameters cfg) < 2 ^ 64" using room by simp_all
  ultimately show "billing_prepared ctx'"
    unfolding billing_prepared_def using lim s(3) by (auto simp: ctx' obj slot billed_accounts_distinct)
  show "bill_to_accounts ctx' = billed_accounts (trx env)" by (rule ctx')
qed

text \<open>
  What the actions of a transaction leave alone: the averages of the billed accounts, the per-day counters, the
  state and the configuration of the resources, and the limits of the context.  They may change RAM, limits of
  accounts, permissions and all other tables.
\<close>

definition bandwidth_of :: "name \<Rightarrow> resource_db \<Rightarrow> (usage_accumulator \<times> usage_accumulator) option" where
  "bandwidth_of a db = map_option (\<lambda>u. (Resources.net_usage u, cpu_usage u)) (usage_of a db)"

definition billing_untouched :: "('k, 'h) trx_context \<Rightarrow> ('k, 'h) trx_context \<Rightarrow> bool" where
  "billing_untouched ctx ctx' \<longleftrightarrow>
     state_obj (rl ctx') = state_obj (rl ctx) \<and> config_obj (rl ctx') = config_obj (rl ctx)
     \<and> net_limit ctx' = net_limit ctx \<and> objective_duration_limit ctx' = objective_duration_limit ctx
     \<and> bill_to_accounts ctx' = bill_to_accounts ctx \<and> pending_slot ctx' = pending_slot ctx
     \<and> per_day_tbl (rl ctx') = per_day_tbl (rl ctx)
     \<and> (\<forall>a\<in>set (bill_to_accounts ctx). bandwidth_of a (rl ctx') = bandwidth_of a (rl ctx))"

lemma account_ready_bandwidth:
  "account_ready slot db a \<longleftrightarrow> (\<exists>n c. bandwidth_of a db = Some (n, c) \<and> accumulator_ready slot n \<and> accumulator_ready slot c)
     \<and> tbl_find day_owner a (per_day_tbl db) \<noteq> None"
  by (auto simp: account_ready_def bandwidth_of_def)

lemma untouched_prepared:
  assumes "billing_untouched ctx ctx'" and "billing_prepared ctx"
  shows "billing_prepared ctx'"
proof -
  have "account_ready (pending_slot ctx') (rl ctx') a = account_ready (pending_slot ctx) (rl ctx) a" if "a \<in> set (bill_to_accounts ctx)" for a
    using assms(1) that by (simp add: billing_untouched_def account_ready_bandwidth)
  then show ?thesis using assms unfolding billing_prepared_def billing_untouched_def by simp
qed

lemma ram_leaves_billing_alone:
  assumes "trx_add_ram_usage account delta (tables ctx) = Inr c"
  shows "billing_untouched ctx (ctx\<lparr>tables := c\<rparr>)"
proof -
  obtain r where r: "add_pending_ram_usage account delta (rl ctx) = Inr r" and c: "resource_tables c = r" "auth_tables c = auth_tables (tables ctx)"
    using assms by (auto simp: trx_add_ram_usage_def result_simps Let_def)
  have "state_obj r = state_obj (rl ctx) \<and> config_obj r = config_obj (rl ctx) \<and> per_day_tbl r = per_day_tbl (rl ctx)
    \<and> bandwidth_of a r = bandwidth_of a (rl ctx)" for a
  proof (cases "delta = 0")
    case False
    then obtain u where u: "usage_of account (rl ctx) = Some u"
      and r': "r = (rl ctx)\<lparr>usage_tbl := tbl_modify usage_owner account (\<lambda>_. u\<lparr>ram_usage := int_to_u64 (int (ram_usage u) + delta)\<rparr>) (usage_tbl (rl ctx))\<rparr>"
      using r by (auto simp: add_pending_ram_usage_def result_simps modify_usage_def usage_of_def)
    have k: "usage_owner (u\<lparr>ram_usage := int_to_u64 (int (ram_usage u) + delta)\<rparr>) = account"
      using u tbl_find_Some [of usage_owner account] by (auto simp: usage_of_def)
    show ?thesis using u by (simp add: r' bandwidth_of_def usage_of_def tbl_find_replace [where key = usage_owner, OF k])
  qed (use r in \<open>simp add: add_pending_ram_usage_def\<close>)
  then show ?thesis by (simp add: billing_untouched_def c pending_slot_def)
qed

text \<open>
  C9. When the billing of a transaction that passed the checks fails.  A transaction is started, its actions leave
  the averages and limits alone, and the checks of \<open>finalize\<close> pass; the last step, which the code marks as one that
  should never fail, then succeeds unless a billed account has an error, and fails with the error of the first such account:
  \<open>resource_limit_exception\<close> when the clock has not moved on since the account's last transaction, and otherwise, only for a
  transaction without network usage as deferred ones are, \<open>tx_net_usage_exceeded\<close> when the account has used more than
  its share is by now.  The checks are not skipped, a transaction costs some CPU at least, and neither the block limits nor
  the usage are near an overflow; usage may be rounded up twice on the way, and a greylisted account is checked against a smaller
  capacity than the one used here.
\<close>

theorem bill_fails_exactly:
  assumes "init env expired t0 n ctx0 = Inr ctx1"
    and "resources_ready (configuration env) (pending_slot ctx0) (billed_accounts (trx env)) (rl ctx0)"
    and "billing_untouched ctx1 ctx2" and "\<forall>a\<in>set (billed_accounts (trx env)). share_fits (rl ctx2) a"
    and "\<not> trx_env.skip_trx_checks env" and "0 < min_transaction_cpu_usage (configuration env)"
    and "net_usage ctx2 < 2 ^ 63" and "finalize_checks env t ctx2 = Inr ctx3"
  shows "case List.map_filter (bill_error clock (net_usage ctx2) (rl ctx2)) (billed_accounts (trx env)) of
      [] \<Rightarrow> \<exists>ctx4. finalize env clock t ctx2 = Inr ctx4
    | e # _ \<Rightarrow> finalize env clock t ctx2 = Inl e"
proof -
  have bill: "bill_to_accounts ctx1 = billed_accounts (trx env)" by (rule init_ready(2) [OF assms(1,2)])
  have "billing_prepared ctx2" by (rule untouched_prepared [OF assms(3) init_ready(1) [OF assms(1,2)]])
  moreover have same: "bill_to_accounts ctx2 = billed_accounts (trx env)" using assms(3) bill by (simp add: billing_untouched_def)
  ultimately show ?thesis
    using finalize_ready [OF _ _ assms(5-8), of clock] assms(4) by simp
qed

text \<open>An account that is past its free transactions of the day, and a transaction that it authorizes.\<close>

definition bill_demo_config :: chain_config where
  "bill_demo_config = \<lparr>max_block_net_usage = 1048576, target_block_net_usage_pct = 1000, max_transaction_net_usage = 524288,
     base_per_transaction_net_usage = 12, net_usage_leeway = 500, context_free_discount_net_usage_num = 20,
     context_free_discount_net_usage_den = 100, max_block_cpu_usage = 200000, target_block_cpu_usage_pct = 1000,
     max_transaction_cpu_usage = 150000, min_transaction_cpu_usage = 100, max_transaction_lifetime = 3600,
     deferred_trx_expiration_window = 600, cfg_max_transaction_delay = 3888000, max_inline_action_size = 4096,
     max_inline_action_depth = 4, cfg_max_authority_depth = 6\<rparr>"

definition bill_trx :: node_trx where
  "bill_trx = \<lparr>tx_expiration = 946684900, tx_ref_block_num = 0, tx_ref_block_prefix = 0, max_net_usage_words = 0,
     tx_max_cpu_usage_ms = 0, tx_delay_sec = 0, tx_context_free_actions = [],
     tx_actions = [\<lparr>act_account = 7, act_name = 1, authorization = [permission_level 7 active_name], data = []\<rparr>], tx_extensions = []\<rparr>"

definition bill_env :: trx_env where
  "bill_env = \<lparr>configuration = bill_demo_config, trx = bill_trx, trx_ident = 77, skip_trx_checks = False, producing_block = False,
     resource_greylist = [], block_summaries = [], start = 5000000, deadline = time_point_maximum, leeway = 3000,
     explicit_billed_cpu_time = False\<rparr>"

definition bill_db :: "int \<Rightarrow> nat \<Rightarrow> resource_db" where
  "bill_db weight v = \<lparr>limits_tbl = [\<lparr>owner = 7, pending = False, net_weight = weight, cpu_weight = 30, ram_bytes = 100\<rparr>],
     usage_tbl = [\<lparr>usage_owner = 7, net_usage = \<lparr>last_ordinal = 1, value_ex = v, consumed = 0\<rparr>,
       cpu_usage = \<lparr>last_ordinal = 1, value_ex = 0, consumed = 0\<rparr>, ram_usage = 0\<rparr>],
     config_obj = Some default_config,
     state_obj = Some \<lparr>average_block_net_usage = empty_usage, average_block_cpu_usage = empty_usage, pending_net_usage = 0,
       pending_cpu_usage = 0, total_net_weight = 20, total_cpu_weight = 30, total_ram_bytes = 100, virtual_net_limit = 1048576,
       virtual_cpu_limit = 200000\<rparr>,
     per_day_tbl = [\<lparr>day_owner = 7, tx_usage = \<lparr>current_time = 900, current_day = 0, usage_per_day = 1001\<rparr>\<rparr>], per_day_config = Some 1000\<rparr>"

definition bill_tables :: "int \<Rightarrow> nat \<Rightarrow> (nat, nat) apply_context" where
  "bill_tables weight v = NativeContract.demo_context\<lparr>auth_tables := one_account\<lparr>pending_block_time := 946684800500000\<rparr>,
     resource_tables := bill_db weight v\<rparr>"

lemma bill_accounts_demo: "billed_accounts bill_trx = [7]"
  by (simp add: billed_accounts_def bill_trx_def)

lemma bill_slot: "set_time_point 946684800500000 = 1"
  by (simp add: set_time_point_def epoch_ms_def interval_ms_def int_to_u64_def u32_def)

lemmas bill_db_eval = bill_db_def get_state_def get_config_def tbl_get_def tbl_find_def tbl_modify_def get_account_limits_xos_def
  get_account_limits_def check_account_limits_xos_def per_day_validate_def limits_key_def default_config_def
  default_cpu_limit_parameters_def default_net_limit_parameters_def

lemma bill_db_updated: "v < 2 ^ 63 \<Longrightarrow> update_account_usage [7] 1 (bill_db weight v) = Inr (bill_db weight v)"
  by (simp add: update_account_usage_def bill_db_eval modify_usage_def add_both_def usage_add_def integer_divide_ceil_def
      downgrade_cast_u64_def max_raw_value_def rate_limiting_precision_def Let_def)

lemma bill_db_cpu: "get_account_cpu_limit 7 True (bill_db weight v) = Inr 34560000000"
  by (simp add: get_account_cpu_limit_def get_account_cpu_limit_ex_def bill_db_eval integer_divide_ceil_def max_user_use_def u128_def
      rate_limiting_precision_def window_limit_def downgrade_cast_s64_def)

lemma bill_db_net: "get_account_net_limit 7 True (bill_db 20 0) = Inr 181193932800"
  by (simp add: get_account_net_limit_def get_account_net_limit_ex_def bill_db_eval integer_divide_ceil_def max_user_use_def u128_def
      rate_limiting_precision_def window_limit_def downgrade_cast_s64_def)

lemma bill_db_block: "get_block_net_limit (bill_db weight v) = Inr 1048576" "get_block_cpu_limit (bill_db weight v) = Inr 200000"
  by (simp_all add: get_block_net_limit_def get_block_cpu_limit_def bill_db_eval int_to_u64_def)

lemma bill_tables_fields:
  "resource_tables (bill_tables weight v) = bill_db weight v" "validate_ram_usage (bill_tables weight v) = {}"
  "pending_block_time (auth_tables (bill_tables weight v)) = 946684800500000"
  "(bill_tables weight v)\<lparr>resource_tables := bill_db weight v\<rparr> = bill_tables weight v"
  "(bill_tables weight v)\<lparr>auth_tables := auth_tables (bill_tables weight v)\<rparr> = bill_tables weight v"
  by (simp_all add: bill_tables_def NativeContract.demo_context_def)

lemmas trx_eval = init_def init_limits_def limit_net_def limit_duration_def pending_slot_def
  max_bandwidth_billed_accounts_can_pay_def lower_limit_def large_number_no_overflow_def init_bandwidth_def init_deadline_def
  TrxContext.add_net_usage_def TrxContext.check_net_usage_def checktime_def finalize_checks_def finalize_limits_def
  update_billed_cpu_time_def validate_cpu_usage_to_bill_def time_point_maximum_def Let_def int_to_u64_def s64_def
  bill_slot bill_db_updated bill_db_cpu bill_db_net bill_db_block bill_tables_fields bill_accounts_demo

text \<open>The context of the transaction after its start with \<open>n\<close> bytes.\<close>

definition bill_ctx :: "int \<Rightarrow> nat \<Rightarrow> nat \<Rightarrow> (nat, nat) trx_context" where
  "bill_ctx weight v n = \<lparr>tables = bill_tables weight v, dedup_tbl = [], bill_to_accounts = [7], ctx_published = 0, delay = 0,
     is_input = False, apply_context_free = True, billed_cpu_time_us = 0, is_initialized = True, net_limit = 524288,
     net_limit_due_to_block = False, net_limit_due_to_greylist = False, eager_net_limit = 524288, net_usage = n,
     cpu_limit_due_to_greylist = False, initial_objective_duration_limit = 150000, objective_duration_limit = 150000,
     billing_deadline = 5150000, deadline_exception_code = tx_cpu_usage_exceeded,
     billing_timer_exception_code = tx_cpu_usage_exceeded, pseudo_start = 5000000, billed_time = 0,
     billing_timer_duration_limit = 150000\<rparr>"

definition fresh_ctx :: "int \<Rightarrow> nat \<Rightarrow> (nat, nat) trx_context" where
  "fresh_ctx weight v = (bill_ctx weight v 0)\<lparr>bill_to_accounts := [], is_initialized := False, net_limit := 0,
     net_limit_due_to_block := True, eager_net_limit := 0, initial_objective_duration_limit := 0, objective_duration_limit := 0,
     billing_deadline := time_point_maximum, deadline_exception_code := block_cpu_usage_exceeded,
     billing_timer_exception_code := block_cpu_usage_exceeded, billing_timer_duration_limit := 0\<rparr>"

lemma fresh_made: "make_context bill_env 0 (bill_tables weight v) [] = Inr (fresh_ctx weight v)"
  by (simp add: make_context_def fresh_ctx_def bill_ctx_def bill_env_def bill_trx_def bill_tables_def NativeContract.demo_context_def)

lemma bill_env_fields:
  "configuration bill_env = bill_demo_config" "trx bill_env = bill_trx" "trx_env.skip_trx_checks bill_env = False"
  "trx_env.producing_block bill_env = False" "start bill_env = 5000000" "deadline bill_env = 2 ^ 63 - 1" "leeway bill_env = 3000"
  "explicit_billed_cpu_time bill_env = False" "max_net_usage_words bill_trx = 0" "tx_max_cpu_usage_ms bill_trx = 0"
  "max_transaction_net_usage bill_demo_config = 524288" "max_transaction_cpu_usage bill_demo_config = 150000"
  "min_transaction_cpu_usage bill_demo_config = 100" "net_usage_leeway bill_demo_config = 500"
  by (simp_all add: bill_env_def bill_trx_def bill_demo_config_def time_point_maximum_def)

text \<open>After the limits of the block, of a transaction and of its header.\<close>

definition limited_ctx :: "int \<Rightarrow> nat \<Rightarrow> (nat, nat) trx_context" where
  "limited_ctx weight v = (fresh_ctx weight v)\<lparr>net_limit := 524288, net_limit_due_to_block := False,
     initial_objective_duration_limit := 150000, objective_duration_limit := 150000, billing_deadline := 5150000,
     billing_timer_exception_code := tx_cpu_usage_exceeded\<rparr>"

lemma bill_demo_limits: "init_limits bill_env (fresh_ctx weight v) = Inr (limited_ctx weight v)"
  by (simp add: init_limits_def bill_env_fields bill_db_block bill_tables_fields fresh_ctx_def limited_ctx_def bill_ctx_def
      limit_net_def limit_duration_def s64_def)

lemma bill_demo_bandwidth:
  assumes "tables ctx = bill_tables weight v" and "bill_to_accounts ctx = [7]" and "get_account_net_limit 7 True (bill_db weight v) = Inr l"
    and "0 \<le> l" and "l \<le> 2 ^ 50"
  shows "max_bandwidth_billed_accounts_can_pay bill_env False ctx = Inr ((l, False), 34560000000, False)"
  using assms by (simp add: max_bandwidth_billed_accounts_can_pay_def bill_env_fields bill_tables_fields bill_db_cpu
      lower_limit_def large_number_no_overflow_def)

text \<open>The accounts are known and can pay \<open>l\<close> bytes.\<close>

lemma bill_demo_start:
  assumes "get_account_net_limit 7 True (bill_db weight v) = Inr l" and "524288 \<le> l" and "l \<le> 2 ^ 50" and "v < 2 ^ 63"
  shows "init bill_env False 5000100 0 (fresh_ctx weight v) = Inr (bill_ctx weight v 0)"
    and "0 < n \<Longrightarrow> n \<le> 524288 \<Longrightarrow> init bill_env False 5000100 n (fresh_ctx weight v) = Inr (bill_ctx weight v n)"
proof -
  let ?ctx = "(limited_ctx weight v)\<lparr>bill_to_accounts := [7]\<rparr>"
  have start: "init bill_env False 5000100 m (fresh_ctx weight v) =
    bind_r (if m > 0 then TrxContext.add_net_usage bill_env m (init_bandwidth bill_env ((l, False), 34560000000, False) ?ctx)
            else Inr (init_bandwidth bill_env ((l, False), 34560000000, False) ?ctx)) (\<lambda>ctx. Inr (ctx\<lparr>is_initialized := True\<rparr>))" for m
  proof -
    have "tables ?ctx = bill_tables weight v" "billed_cpu_time_us (limited_ctx weight v) = 0" "pending_slot ?ctx = 1"
      by (simp_all add: limited_ctx_def fresh_ctx_def bill_ctx_def pending_slot_def bill_tables_fields bill_slot)
    moreover have same: "?ctx\<lparr>tables := bill_tables weight v\<rparr> = ?ctx"
      by (simp add: limited_ctx_def fresh_ctx_def bill_ctx_def)
    moreover have "max_bandwidth_billed_accounts_can_pay bill_env False ?ctx = Inr ((l, False), 34560000000, False)"
      by (rule bill_demo_bandwidth) (use assms in \<open>simp_all add: limited_ctx_def fresh_ctx_def bill_ctx_def\<close>)
    moreover have "\<not> is_initialized (fresh_ctx weight v)" by (simp add: fresh_ctx_def)
    ultimately show ?thesis
      unfolding init_def Let_def
      by (simp add: bill_demo_limits bill_env_fields bill_accounts_demo bill_tables_fields bill_db_updated [OF assms(4), unfolded One_nat_def] checktime_def same)
  qed
  have bw: "init_bandwidth bill_env ((l, False), 34560000000, False) ?ctx = (bill_ctx weight v 0)\<lparr>is_initialized := False\<rparr>"
  proof -
    have "524288 \<le> int_to_u64 (l + 500)" using assms(2,3) by (simp add: int_to_u64_def)
    then show ?thesis
      by (simp add: init_bandwidth_def limited_ctx_def fresh_ctx_def bill_ctx_def init_deadline_def bill_env_fields Let_def min_absorb1)
  qed
  show "init bill_env False 5000100 0 (fresh_ctx weight v) = Inr (bill_ctx weight v 0)"
    by (simp add: start bw) (simp add: bill_ctx_def)
  show "0 < n \<Longrightarrow> n \<le> 524288 \<Longrightarrow> init bill_env False 5000100 n (fresh_ctx weight v) = Inr (bill_ctx weight v n)"
    by (simp add: start bw TrxContext.add_net_usage_def TrxContext.check_net_usage_def bill_ctx_def)
qed

lemma bill_demo_checks:
  assumes "get_account_net_limit 7 True (bill_db weight v) = Inr l" and "0 \<le> l" and "l \<le> 2 ^ 50" and "n \<le> 524280" and "int n + 7 \<le> l \<or> n = 0"
  shows "\<exists>ctx. finalize_checks bill_env 5000200 (bill_ctx weight v n) = Inr ctx \<and> billed_cpu_time_us ctx = 200
    \<and> net_usage ctx = (n + 7) div 8 * 8 \<and> tables ctx = bill_tables weight v \<and> bill_to_accounts ctx = [7]"
proof -
  have bw: "max_bandwidth_billed_accounts_can_pay bill_env False (bill_ctx weight v n) = Inr ((l, False), 34560000000, False)"
    by (rule bill_demo_bandwidth [OF _ _ assms(1-3)]) (simp_all add: bill_ctx_def)
  have ctx: "is_initialized (bill_ctx weight v n)" "\<not> is_input (bill_ctx weight v n)" "tables (bill_ctx weight v n) = bill_tables weight v"
    "bill_to_accounts (bill_ctx weight v n) = [7]" "net_usage (bill_ctx weight v n) = n" "net_limit (bill_ctx weight v n) = 524288"
    "objective_duration_limit (bill_ctx weight v n) = 150000" "pseudo_start (bill_ctx weight v n) = 5000000"
    "(bill_ctx weight v n)\<lparr>tables := bill_tables weight v\<rparr> = bill_ctx weight v n"
    by (simp_all add: bill_ctx_def)
  have l: "int_to_u64 l = nat l" using assms(2,3) by (simp add: int_to_u64_def)
  define c where "c = finalize_limits ((l, False), 34560000000, False) (bill_ctx weight v n)"
  have c: "eager_net_limit c = min (nat l) 524288" "net_usage c = (n + 7) div 8 * 8" "objective_duration_limit c = 150000"
    "tables c = bill_tables weight v" "bill_to_accounts c = [7]" "pseudo_start c = 5000000"
    using assms(4) by (simp_all add: c_def finalize_limits_fields ctx l) (simp add: finalize_limits_def Let_def limit_net_def ctx)
  have "net_usage c \<le> eager_net_limit c" using assms(4,5) by (auto simp: c)
  then have "finalize_checks bill_env 5000200 (bill_ctx weight v n) = Inr (update_billed_cpu_time bill_env 5000200 c)"
    by (simp add: finalize_checks_def Let_def ctx bill_tables_fields bw c_def [symmetric] TrxContext.check_net_usage_def
        validate_cpu_usage_to_bill_def update_billed_cpu_time_def bill_env_fields c)
  then show ?thesis by (simp add: update_billed_cpu_time_def bill_env_fields c)
qed

lemma bill_demo_fields: "rl (bill_ctx weight v n) = bill_db weight v" "pending_slot (fresh_ctx weight v) = 1" "rl (fresh_ctx weight v) = bill_db weight v"
  by (simp_all add: bill_ctx_def fresh_ctx_def pending_slot_def bill_tables_fields bill_slot)

lemma bill_demo_windows: "windows_ok s default_config \<longleftrightarrow> 1048576 \<le> virtual_net_limit s \<and> 200000 \<le> virtual_cpu_limit s"
  by (simp add: windows_ok_def default_config_def default_cpu_limit_parameters_def default_net_limit_parameters_def rate_limiting_precision_def)

lemma bill_demo_resources: "v < 2 ^ 63 \<Longrightarrow> resources_ready bill_demo_config 1 [7] (bill_db weight v)"
  by (simp add: resources_ready_def bill_db_def bill_demo_windows bill_demo_config_def usage_of_def tbl_find_def usage_small_def)
    (simp add: default_config_def default_cpu_limit_parameters_def default_net_limit_parameters_def)

lemma bill_demo_share: "weight \<le> 20 \<Longrightarrow> share_fits (bill_db weight v) 7"
proof -
  assume "weight \<le> 20"
  then have "nat weight \<le> 20" by simp
  then show ?thesis by (simp add: share_fits_def bill_db_eval)
qed

lemma bill_demo_clock: "clock_moved (\<lambda>_. (t, t)) (bill_db weight v) 7 \<longleftrightarrow> 900 < t"
  by (simp add: clock_moved_def bill_db_def tbl_find_def)

theorem bill_fails_exactly_witness:
  "(\<exists>ctx. finalize bill_env (\<lambda>_. (1000, 1000)) 5000200 (bill_ctx 20 0 20) = Inr ctx)
   \<and> finalize bill_env (\<lambda>_. (900, 900)) 5000200 (bill_ctx 20 0 20) = Inl resource_limit_exception"
proof -
  obtain ctx3 where ctx3: "finalize_checks bill_env 5000200 (bill_ctx 20 0 20) = Inr ctx3"
    using bill_demo_checks [OF bill_db_net, of 20] by auto
  have init: "init bill_env False 5000100 20 (fresh_ctx 20 0) = Inr (bill_ctx 20 0 20)"
    by (rule bill_demo_start(2) [OF bill_db_net]) simp_all
  have res: "resources_ready (configuration bill_env) (pending_slot (fresh_ctx 20 0)) (billed_accounts (trx bill_env)) (rl (fresh_ctx 20 0))"
    by (simp add: bill_demo_fields bill_env_fields bill_accounts_demo bill_demo_resources del: One_nat_def)
  have same: "billing_untouched (bill_ctx 20 0 20) (bill_ctx 20 0 20)" by (simp add: billing_untouched_def)
  note bill = bill_fails_exactly [OF init res same _ _ _ _ ctx3]
  show ?thesis
    using bill [of "\<lambda>_. (1000, 1000)"] bill [of "\<lambda>_. (900, 900)"]
    by (simp add: bill_demo_fields bill_env_fields bill_accounts_demo bill_demo_share bill_demo_clock bill_error_def List.map_filter_simps)
      (simp add: bill_ctx_def)
qed

text \<open>
  Without network usage the last step can fail: an account has lost its share after it used a part of it, what it
  can pay is nothing, a deferred transaction costs nothing, and the check compares the old usage with the new share.
\<close>

lemma deferred_bill_fails:
  "(\<exists>ctx. finalize_checks bill_env 5000200 (bill_ctx 0 1000000 0) = Inr ctx) \<and> billing_prepared (bill_ctx 0 1000000 0)
   \<and> list_all (clock_moved (\<lambda>_. (1000, 1000)) (bill_db 0 1000000)) [7]
   \<and> finalize bill_env (\<lambda>_. (1000, 1000)) 5000200 (bill_ctx 0 1000000 0) = Inl tx_net_usage_exceeded"
proof -
  have net: "get_account_net_limit 7 True (bill_db 0 1000000) = Inr 0"
    by (simp add: get_account_net_limit_def get_account_net_limit_ex_def bill_db_eval integer_divide_ceil_def max_user_use_def u128_def
        rate_limiting_precision_def window_limit_def downgrade_cast_s64_def)
  obtain ctx where ctx: "finalize_checks bill_env 5000200 (bill_ctx 0 1000000 0) = Inr ctx" "billed_cpu_time_us ctx = 200" "net_usage ctx = 0"
    "tables ctx = bill_tables 0 1000000" "bill_to_accounts ctx = [7]"
    using bill_demo_checks [OF net, of 0] by auto
  have slot: "pending_slot ctx = 1" "pending_slot (bill_ctx 0 1000000 0) = 1"
    by (simp_all add: pending_slot_def ctx(4) bill_ctx_def bill_tables_fields bill_slot)
  have "add_transaction_usage (\<lambda>_. (1000, 1000)) [7] 200 0 1 (bill_db 0 1000000) = Inl tx_net_usage_exceeded"
    by (simp add: billing_eval bill_db_eval Let_def u128_def)
  then have "finalize bill_env (\<lambda>_. (1000, 1000)) 5000200 (bill_ctx 0 1000000 0) = Inl tx_net_usage_exceeded"
    by (simp add: finalize_def finalize_bill_def ctx slot bill_tables_fields int_to_u64_def del: One_nat_def)
  moreover have "billing_prepared (bill_ctx 0 1000000 0)"
    by (simp add: billing_prepared_def slot bill_demo_fields bill_db_def bill_demo_windows account_ready_def usage_of_def tbl_find_def accumulator_ready_def)
      (simp add: bill_ctx_def default_config_def default_cpu_limit_parameters_def default_net_limit_parameters_def)
  ultimately show ?thesis using ctx(1) by (simp add: bill_demo_clock)
qed

end
