(* ===== verification/Spec2Isabelle.thy ===== *)
theory Spec2Isabelle
  imports Prelude Tables Names SafeInt Symbols Assets Merkle Usage Resources Headers HeaderState Undo ContractAssets Token
    Authority Authorization NativeContract TableOps ForkSwitch Msig Deferred TrxBilling
begin

text \<open>
  Verification library of the EOSIO-derived blockchain node of this repository.

  \<^bold>\<open>The program.\<close>  The node keeps a state database (\<^verbatim>\<open>libraries/chainbase\<close>) of accounts, permissions,
  resource limits, deferred transactions and the tables of contracts.  The chain library
  (\<^verbatim>\<open>libraries/chain\<close>) changes it: a block header extends the state of its predecessor
  (\<open>block_header_state\<close>), the fork database keeps the blocks that are not irreversible yet and elects the
  head, the controller applies the blocks of the best branch, each one in an undo session, and a transaction
  passes the authorization manager and the resource limits manager before its actions run.  An action is a
  native one of the system account (\<^verbatim>\<open>eosio_contract.cpp\<close>) or contract code, which reaches the database,
  inline actions and deferred transactions only through \<open>apply_context\<close>.  The contracts of the
  distribution (\<^verbatim>\<open>contracts/eosio.token\<close>, \<open>eosio.msig\<close>, \<open>eosio.sudo\<close>) are written against the contract
  library (\<^verbatim>\<open>contracts/eosiolib\<close>), which has assets and a binary format of its own.

  \<^bold>\<open>Conventions.\<close>  A C++ exception is a value of \<open>chain_error\<close> (theory \<open>Prelude\<close>), a function that may throw
  returns \<open>result\<close>; where the caller's undo session discards what was written before a throw, no state is
  returned with the error.  What C++ leaves undefined (signed overflow, shifting a negative number left or by the width
  or more, division by zero, dereferencing an end iterator or an erased row) is the error \<open>undefined_behaviour\<close>, so a
  theorem that an operation returns also says that it has no such behaviour: so for the \<open>int\<close> index of the batch
  Merkle loop, the negation of the least \<open>int\<close> as an iterator, and the shifts and negations of \<open>signed_int\<close>.  Unsigned
  values are words, or \<open>nat\<close> with \<open>u32\<close>, \<open>u64\<close>, \<open>u128\<close> written where the code can wrap.  An operation has the name it has in the code.

  \<^bold>\<open>Shared theories.\<close>
  \<^item> \<open>Prelude\<close>: errors, results, fixed-width arithmetic, generic lemmas on lists, words and sums.
  \<^item> \<open>Tables\<close>: rows with a unique key, as the managers see a chainbase index; the locale \<open>keyed_table\<close> states
    find after create, modify and remove and is interpreted on the list of rows.

  \<^bold>\<open>Values.\<close>
  \<^item> \<open>Names\<close> (\<^verbatim>\<open>name.hpp\<close>, \<^verbatim>\<open>name.cpp\<close>): the 64-bit names; which strings the checked constructor accepts.
  \<^item> \<open>SafeInt\<close> (\<^verbatim>\<open>fc/safe.hpp\<close>), \<open>Symbols\<close> (\<^verbatim>\<open>symbol.hpp\<close>), \<open>Assets\<close> (\<^verbatim>\<open>asset.hpp\<close>, \<^verbatim>\<open>asset.cpp\<close>): checked integers,
    symbols and assets of the node, with the round trip between an asset and its text.  Trimming and the
    conversion of digits come from Boost: they are parameters, their laws the locale \<open>text_conversions\<close>.
  \<^item> \<open>ContractAssets\<close> (\<^verbatim>\<open>eosiolib/symbol.hpp\<close>, \<^verbatim>\<open>eosiolib/asset.hpp\<close>): the contract library's version.
  \<^item> \<open>Merkle\<close> (\<^verbatim>\<open>merkle.cpp\<close>, \<^verbatim>\<open>incremental_merkle.hpp\<close>): the incremental tree holds the batch root of what was
    appended, as long as that is defined (up to \<open>2^31\<close> leaves); a root binds its leaves when the hash (a parameter) has no
    collision among the hashed pairs.

  \<^bold>\<open>Resources.\<close>
  \<^item> \<open>Usage\<close> (\<^verbatim>\<open>resource_limits_private.hpp\<close>, \<^verbatim>\<open>resource_limits_private_xos.hpp\<close>): ratios, the moving average, the
    elastic limit, the per-day counter; exact values, bounds, no silent wrap.
  \<^item> \<open>Resources\<close> (\<^verbatim>\<open>resource_limits.cpp\<close>, \<^verbatim>\<open>resource_limits_xos.cpp\<close>): the tables of limits and usage and every
    operation on them; the totals are the sums of the weights, billed accounts stay within their share.  Each
    reading of the wall clock is an argument.

  \<^bold>\<open>Headers and forks.\<close>
  \<^item> \<open>Headers\<close> (\<^verbatim>\<open>block_timestamp.hpp\<close>, \<^verbatim>\<open>producer_schedule.hpp\<close>, \<^verbatim>\<open>block_header.hpp\<close>) and \<open>HeaderState\<close>
    (\<^verbatim>\<open>block_header_state.cpp\<close>): slots, schedules, digests, and the step from one header state to the next.  The
    irreversible block is the two-thirds quantile of what the producers confirmed, a header is accepted only
    with the signature of the scheduled producer.  Hashing and key recovery are the fields of \<open>crypto\<close>.
  \<^item> \<open>ForkDb\<close> and \<open>ForkChain\<close> (\<^verbatim>\<open>fork_database.cpp\<close>): the indices of the fork database and its operations; any
    sequence of operations keeps a tree over one irreversible block, and without confirmations the best block as head; branches
    of two blocks meet (the walk has as much fuel as there are blocks, and block numbers fall along it); removal takes
    exactly a branch, and BFT irreversibility raises exactly one.
  \<^item> \<open>ForkSwitch\<close> (\<^verbatim>\<open>controller.cpp\<close>): \<open>apply_block\<close>, \<open>pop_block\<close>, \<open>maybe_switch_forks\<close>.  A switch goes back to exactly
    what was saved at the fork point and applies the new branch there, or, when a block of it fails, the old one again.  The
    contents of the database are opaque, and what the transactions of a block do to them is the parameter \<open>exec\<close>, which is
    told the number of the application: billing reads the clock, so no two applications need to agree.  That the undo stack is the
    list of snapshots used here is shown in \<open>Undo\<close>.

  \<^bold>\<open>State and authorization.\<close>
  \<^item> \<open>Undo\<close> (\<^verbatim>\<open>chainbase.hpp\<close>, \<^verbatim>\<open>chainbase.cpp\<close>): \<open>generic_index\<close> and the database over all indices.  The locale
    \<open>versioned_store\<close> is a stack of snapshots; the undo states implement it, as long as no change of a row is refused
    and, for tables with unique keys besides the id, no restored row collides.
  \<^item> \<open>Authority\<close> (\<^verbatim>\<open>authority.hpp\<close>, \<^verbatim>\<open>authority_checker.hpp\<close>): the recursive checker with its cache; it grants only
    what the inductive relation \<open>entitled\<close> grants.  The recursion ends by the depth limit of the code.
  \<^item> \<open>Authorization\<close> (\<^verbatim>\<open>authorization_manager.cpp\<close>): permission trees, links, minimum permissions, and the check of
    a transaction; it accepts only transactions each action of which is entitled, by a permission that may authorize it, with the
    rules of the native actions as predicates of their own (\<open>native_rule\<close>).
  \<^item> \<open>NativeContract\<close> (\<^verbatim>\<open>eosio_contract.cpp\<close>, parts of \<^verbatim>\<open>apply_context.cpp\<close>): the handlers of the system account.
    Accounts keep their permission trees, and the RAM billed moves by what the native rows cost more or less.
  \<^item> \<open>ContractTables\<close>, \<open>ContractIndex\<close>, \<open>TableOps\<close> (\<^verbatim>\<open>apply_context.cpp\<close>, \<^verbatim>\<open>apply_context.hpp\<close>): the tables of contracts
    with primary and secondary keys, iterators and RAM.  The locale \<open>ordered_view\<close> is an index in key order,
    interpreted on the primary rows and on both orders of a secondary index.  Any sequence of operations
    refines maps from keys to rows, and the steps with undefined behaviour are characterised.  A run mixes the primary
    operations with those of one type of secondary index.
  \<^item> \<open>Deferred\<close> (\<^verbatim>\<open>apply_context.cpp\<close>, \<^verbatim>\<open>wasm_interface.cpp\<close>, \<^verbatim>\<open>eosio.sudo.cpp\<close>): inline actions and deferred
    transactions; code that is not privileged acts only as the permission of its own code allows.
  \<^item> \<open>TrxContext\<close> and \<open>TrxBilling\<close> (\<^verbatim>\<open>transaction_context.cpp\<close>): the limits of a transaction, its deadline, the accounts it
    bills, its start, its checks and its bill.  The clock is an argument of every step that reads it.  After the checks the bill
    fails exactly when the clock has not moved on for a billed account or, without network usage, when an account is beyond a share
    reduced since; what actions do to the billing tables is a relation, \<open>billing_untouched\<close>, shown for RAM.

  \<^bold>\<open>Contracts.\<close>
  \<^item> \<open>Token\<close> (\<^verbatim>\<open>eosio.token.cpp\<close>): the supply of a currency is the sum of its balances in every reachable state.
  \<^item> \<open>Packing\<close> (\<^verbatim>\<open>datastream.hpp\<close>, \<^verbatim>\<open>varint.hpp\<close>, \<^verbatim>\<open>transaction.hpp\<close>, \<^verbatim>\<open>action.hpp\<close>) and \<open>NodeUnpack\<close> (\<^verbatim>\<open>fc/io/raw.hpp\<close>,
    \<^verbatim>\<open>fc/io/datastream.hpp\<close>): the binary format, written twice.  The locales \<open>codec\<close> and \<open>ord_codec\<close> state that what
    was written is read back whatever follows, and that a reader returns values in range only; they are
    interpreted on every type a transaction is built from, on both sides.  Streams are shorter than \<open>2^31\<close>
    bytes, the half of the address space in which the pointer differences of the contract machine are exact.
  \<^item> \<open>Msig\<close> (\<^verbatim>\<open>eosio.msig.cpp\<close>): a proposal is executed only with approvals that authorize it, and can be
    executed once all are given.

  \<^bold>\<open>Parameters.\<close>  SHA-256, key recovery and the packed form of a public key; the decoding of action data; Boost's
  trimming and number conversion; hashing and validating contract code; the clock of the node.  What a theorem needs of
  them is a hypothesis of it, and its witness takes a concrete function.  The execution of the transactions of a block is
  abstract in \<open>ForkSwitch\<close>: its theorems hold for any such function.

  \<^bold>\<open>Not modelled.\<close>  The WASM machine and its validation and injection, block production and the loop of the controller over
  the transactions of a block (\<open>start_block\<close>, \<open>push_transaction\<close>, \<open>finalize_block\<close>), snapshots, the block log and the genesis file (I/O and the layout of files), the ABI
  serializer, the plugins and programs (network, HTTP, wallets, command line), the system contract
  \<open>eosio.system\<close> (votes and the RAM market are computed in floating point) and the sample contracts, and the
  vendored libraries.  Floating-point secondary keys, the time watch of the authority checker and the payer of a
  row in the contracts \<open>eosio.token\<close> and \<open>eosio.msig\<close> are left out as well.
\<close>

end
